(* ===== verification/Lws_Prelude.thy ===== *)
theory Lws_Prelude
  imports Main "HOL-Library.Word"
begin

text \<open>
  Shared vocabulary of the development: the machine types of the C code, the result type of the
  byte-at-a-time parsers, big-endian and little-endian views of words, splitting a byte stream
  into fixed-size blocks, and the locale of a machine that eats one byte at a time.
\<close>

unbundle bit_operations_syntax

section \<open>Types of the C code\<close>

type_synonym byte = "8 word"
type_synonym u16 = "16 word"
type_synonym u32 = "32 word"
type_synonym u64 = "64 word"

text \<open>
  \<open>byte_order\<close> is the preprocessor's \<^verbatim>\<open>BYTE_ORDER\<close>: code with both branches is modelled with
  both, the order being an argument.
\<close>

datatype byte_order = LITTLE_ENDIAN | BIG_ENDIAN

named_theorems lws_simps \<open>unfolding of the small helpers of the model\<close>
named_theorems lws_bits \<open>bit arithmetic of the code turned into arithmetic on numbers\<close>

section \<open>Bit arithmetic on small numbers\<close>

lemma and_15_nat [lws_bits]: "(n::nat) AND 15 = n mod 16"
  using take_bit_eq_mask [of 4 n] by (simp add: take_bit_eq_mod mask_eq_exp_minus_1)

lemma and_3_nat [lws_bits]: "(n::nat) AND 3 = n mod 4"
  using take_bit_eq_mask [of 2 n] by (simp add: take_bit_eq_mod mask_eq_exp_minus_1)

lemma and_7_nat [lws_bits]: "(n::nat) AND 7 = n mod 8"
  using take_bit_eq_mask [of 3 n] by (simp add: take_bit_eq_mod mask_eq_exp_minus_1)

text \<open>Two bytes are equal when their eight bits are; the index of a six-bit table is below 64.\<close>

lemma byte_bits_eqI:
  fixes a b :: byte
  assumes "bit a 0 = bit b 0" "bit a 1 = bit b 1" "bit a 2 = bit b 2" "bit a 3 = bit b 3"
    "bit a 4 = bit b 4" "bit a 5 = bit b 5" "bit a 6 = bit b 6" "bit a 7 = bit b 7"
  shows "a = b"
proof (rule bit_word_eqI)
  fix n
  assume "n < LENGTH(8)"
  then have "n = 0 \<or> n = 1 \<or> n = 2 \<or> n = 3 \<or> n = 4 \<or> n = 5 \<or> n = 6 \<or> n = 7" by auto
  with assms show "bit a n = bit b n" by auto
qed

lemma byte_no_bit [simp]: "8 \<le> n \<Longrightarrow> \<not> bit (b::byte) n"
  using bit_imp_le_length [of b n] by auto

lemma unat_byte_less: "unat (b::byte) < 256"
proof -
  have "unat b < 2 ^ LENGTH(8)" by (rule unsigned_less)
  then show ?thesis by simp
qed

lemma unat_masked_le: "unat (x AND m) \<le> unat m"
  by (rule word_and_le1 [THEN word_le_nat_alt [THEN iffD1]])

lemma unat_six_bits: "q AND 0x3f = q \<Longrightarrow> unat (q::byte) < 64"
  using unat_masked_le [of q "0x3f"] by simp

section \<open>Words as bytes\<close>

definition be32 :: "u32 \<Rightarrow> byte list" where
  "be32 w = [ucast (drop_bit 24 w), ucast (drop_bit 16 w), ucast (drop_bit 8 w), ucast w]"

definition le32 :: "u32 \<Rightarrow> byte list" where
  "le32 w = [ucast w, ucast (drop_bit 8 w), ucast (drop_bit 16 w), ucast (drop_bit 24 w)]"

definition of_be32 :: "byte list \<Rightarrow> u32" where
  "of_be32 bs = push_bit 24 (ucast (bs ! 0)) OR push_bit 16 (ucast (bs ! 1)) OR
                push_bit 8 (ucast (bs ! 2)) OR ucast (bs ! 3)"

definition of_le32 :: "byte list \<Rightarrow> u32" where
  "of_le32 bs = push_bit 24 (ucast (bs ! 3)) OR push_bit 16 (ucast (bs ! 2)) OR
                push_bit 8 (ucast (bs ! 1)) OR ucast (bs ! 0)"

definition be64 :: "u64 \<Rightarrow> byte list" where
  "be64 w = map (\<lambda>i. ucast (drop_bit (8 * (7 - i)) w)) [0..<8]"

definition le64 :: "u64 \<Rightarrow> byte list" where
  "le64 w = map (\<lambda>i. ucast (drop_bit (8 * i) w)) [0..<8]"

lemma length_be32 [simp]: "length (be32 w) = 4"
  by (simp add: be32_def)

lemma length_le32 [simp]: "length (le32 w) = 4"
  by (simp add: le32_def)

lemma length_be64 [simp]: "length (be64 w) = 8"
  by (simp add: be64_def)

lemma length_le64 [simp]: "length (le64 w) = 8"
  by (simp add: le64_def)

lemma be32_rev_le32: "be32 w = rev (le32 w)"
  by (simp add: be32_def le32_def)

lemma be64_rev_le64: "be64 w = rev (le64 w)"
  by (simp add: be64_def le64_def upt_rec)

section \<open>C strings\<close>

text \<open>A string literal of the source as the bytes it denotes, without the final NUL.\<close>

definition bytes :: "string \<Rightarrow> byte list" where
  "bytes s = map of_char s"

lemma length_bytes [simp]: "length (bytes s) = length s"
  by (simp add: bytes_def)

section \<open>Lists\<close>

lemma induct_list3 [case_names Nil one two three]:
  assumes "P []" "\<And>a. P [a]" "\<And>a b. P [a, b]"
    "\<And>a b c xs. P xs \<Longrightarrow> P (a # b # c # xs)"
  shows "P xs"
proof (induction xs rule: length_induct)
  case (1 xs)
  then show ?case
    using assms by (cases xs; cases "tl xs"; cases "tl (tl xs)") auto
qed

section \<open>Blocks of a byte stream\<close>

text \<open>
  \<open>blocks k xs\<close> are the complete \<open>k\<close>-element blocks at the front of \<open>xs\<close> and
  \<open>rest_of k xs\<close> what is left over: the reference notion for every piece of code that cuts
  a stream into chunks.
\<close>

function blocks :: "nat \<Rightarrow> 'a list \<Rightarrow> 'a list list" where
  "blocks k xs = (if k = 0 \<or> length xs < k then [] else take k xs # blocks k (drop k xs))"
  by pat_completeness auto
termination
  by (relation "measure (\<lambda>(k, xs). length xs)") auto

declare blocks.simps [simp del]

definition rest_of :: "nat \<Rightarrow> 'a list \<Rightarrow> 'a list" where
  "rest_of k xs = drop (k * (length xs div k)) xs"

lemma blocks_short: "length xs < k \<Longrightarrow> blocks k xs = []"
  by (simp add: blocks.simps)

lemma blocks_append_block: "length b = k \<Longrightarrow> 0 < k \<Longrightarrow> blocks k (b @ xs) = b # blocks k xs"
  by (simp add: blocks.simps [of k "b @ xs"])

lemma rest_of_short: "length xs < k \<Longrightarrow> rest_of k xs = xs"
  by (simp add: rest_of_def)

lemma rest_of_append_block:
  assumes "length b = k" "0 < k"
  shows "rest_of k (b @ xs) = rest_of k xs"
proof -
  have "(k + length xs) div k = Suc (length xs div k)"
    using div_add_self1 [of k "length xs"] assms(2) by simp
  with assms show ?thesis
    by (simp add: rest_of_def)
qed

lemma length_rest_of: "0 < k \<Longrightarrow> length (rest_of k xs) = length xs mod k"
  by (simp add: rest_of_def minus_mult_div_eq_mod)

lemma concat_blocks_rest: "0 < k \<Longrightarrow> concat (blocks k xs) @ rest_of k xs = xs"
proof (induction k xs rule: blocks.induct)
  case (1 k xs)
  show ?case
  proof (cases "length xs < k")
    case True
    then show ?thesis by (simp add: blocks_short rest_of_short)
  next
    case False
    have "rest_of k xs = rest_of k (drop k xs)"
      using rest_of_append_block [of "take k xs" k "drop k xs"] False "1.prems" by simp
    with False 1 show ?thesis
      by (simp add: blocks.simps [of k xs])
  qed
qed

lemma blocks_append:
  "0 < k \<Longrightarrow> blocks k (xs @ ys) = blocks k xs @ blocks k (rest_of k xs @ ys)"
proof (induction k xs rule: blocks.induct)
  case (1 k xs)
  show ?case
  proof (cases "length xs < k")
    case True
    then show ?thesis by (simp add: blocks_short rest_of_short)
  next
    case False
    have r: "rest_of k xs = rest_of k (drop k xs)"
      using rest_of_append_block [of "take k xs" k "drop k xs"] False "1.prems" by simp
    have "blocks k (xs @ ys) = take k xs # blocks k (drop k xs @ ys)"
      using False "1.prems" by (simp add: blocks.simps [of k "xs @ ys"])
    with False 1 show ?thesis
      by (simp add: blocks.simps [of k xs] r)
  qed
qed

lemma rest_of_append: "0 < k \<Longrightarrow> rest_of k (xs @ ys) = rest_of k (rest_of k xs @ ys)"
proof (induction k xs rule: blocks.induct)
  case (1 k xs)
  show ?case
  proof (cases "length xs < k")
    case True
    then show ?thesis by (simp add: rest_of_short)
  next
    case False
    have "rest_of k xs = rest_of k (drop k xs)"
      and "rest_of k (xs @ ys) = rest_of k (drop k xs @ ys)"
      using rest_of_append_block [of "take k xs" k "drop k xs"]
        rest_of_append_block [of "take k xs" k "drop k xs @ ys"] False "1.prems"
      by (simp_all flip: append_assoc)
    with False 1 show ?thesis by simp
  qed
qed

text \<open>
  \<open>absorb k f (h, p) xs\<close>: a block-wise machine with state \<open>h\<close> and pending bytes \<open>p\<close>
  takes in \<open>xs\<close>; each complete block is folded into the state by \<open>f\<close>.
\<close>

definition absorb :: "nat \<Rightarrow> ('b list \<Rightarrow> 'h \<Rightarrow> 'h) \<Rightarrow> 'h \<times> 'b list \<Rightarrow> 'b list \<Rightarrow> 'h \<times> 'b list" where
  "absorb k f s xs = (fold f (blocks k (snd s @ xs)) (fst s), rest_of k (snd s @ xs))"

lemma absorb_append: "0 < k \<Longrightarrow> absorb k f s (xs @ ys) = absorb k f (absorb k f s xs) ys"
  by (simp add: absorb_def blocks_append [of k "snd s @ xs"] rest_of_append [of k "snd s @ xs"]
           flip: append_assoc)

lemma absorb_pending_short: "0 < k \<Longrightarrow> length (snd (absorb k f s xs)) < k"
  by (simp add: absorb_def length_rest_of)

lemma absorb_nil: "length (snd s) < k \<Longrightarrow> absorb k f s [] = s"
  by (cases s) (simp add: absorb_def blocks_short rest_of_short)

lemma absorb_fits: "length (snd s) + length xs < k \<Longrightarrow> absorb k f s xs = (fst s, snd s @ xs)"
  by (simp add: absorb_def blocks_short rest_of_short)

lemma absorb_fills:
  "length (snd s) + length xs = k \<Longrightarrow> 0 < k \<Longrightarrow> absorb k f s xs = (f (snd s @ xs) (fst s), [])"
  using blocks_append_block [of "snd s @ xs" k "[]"] rest_of_append_block [of "snd s @ xs" k "[]"]
  by (simp add: absorb_def blocks_short rest_of_short)

section \<open>Machines that eat one byte at a time\<close>

text \<open>
  Every parser of the library is a function from a state and one byte to a new state, or to an
  error that closes the connection. \<open>run_bytes\<close> feeds it a buffer. The locale collects what
  holds of all of them: feeding two buffers in turn is feeding their concatenation (so a message
  may be cut anywhere by the network), and a property each accepted byte keeps is kept by a
  buffer.
\<close>

fun run_bytes :: "('s \<Rightarrow> 'b \<Rightarrow> 'e + 's) \<Rightarrow> 's \<Rightarrow> 'b list \<Rightarrow> 'e + 's" where
  "run_bytes f s [] = Inr s"
| "run_bytes f s (c # cs) = (case f s c of Inl e \<Rightarrow> Inl e | Inr s' \<Rightarrow> run_bytes f s' cs)"

lemma run_bytes_append:
  "run_bytes f s (xs @ ys) =
     (case run_bytes f s xs of Inl e \<Rightarrow> Inl e | Inr s' \<Rightarrow> run_bytes f s' ys)"
  by (induction xs arbitrary: s) (auto split: sum.split)

locale byte_machine =
  fixes step :: "'s \<Rightarrow> 'b \<Rightarrow> 'e + 's"
    and invar :: "'s \<Rightarrow> bool"
  assumes step_invar: "invar s \<Longrightarrow> step s c = Inr s' \<Longrightarrow> invar s'"
begin

lemma run_invar: "invar s \<Longrightarrow> run_bytes step s cs = Inr s' \<Longrightarrow> invar s'"
  by (induction cs arbitrary: s) (auto split: sum.splits dest: step_invar)

lemma run_split:
  "run_bytes step s (xs @ ys) = Inr t \<longleftrightarrow>
     (\<exists>u. run_bytes step s xs = Inr u \<and> run_bytes step u ys = Inr t)"
  by (auto simp: run_bytes_append split: sum.splits)

end

end
