(* ===== verification/Sha1.thy ===== *)
theory Sha1
  imports Lws_Prelude
begin

text \<open>
  The SHA-1 of \<^verbatim>\<open>lib/sha-1.c\<close> (used for the accept key of the handshake) and the hash of
  FIPS 180-1 it has to compute. The context is the record \<open>sha1_ctxt\<close>; the unions of the C
  struct are the byte view, with \<open>load32\<close>, \<open>be32\<close> and \<open>le32\<close> as the word views under
  either byte order. The main result is that the streaming code, which buffers a 64-byte block,
  rewrites a 16-word circular schedule in place and pads inside the buffer, computes the hash of
  the standard for every input.
\<close>

section \<open>The context and its macros\<close>

record sha1_ctxt =
  h_b32 :: "u32 list"
  c_b64 :: u64
  m_b8 :: "byte list"
  count :: nat

definition K_tab :: "u32 list" where
  "K_tab = [0x5a827999, 0x6ed9eba1, 0x8f1bbcdc, 0xca62c1d6]"

definition K :: "nat \<Rightarrow> u32" where
  "K t = K_tab ! (t div 20)"

definition F0 :: "u32 \<Rightarrow> u32 \<Rightarrow> u32 \<Rightarrow> u32" where
  "F0 b c d = (b AND c) OR (NOT b AND d)"

definition F1 :: "u32 \<Rightarrow> u32 \<Rightarrow> u32 \<Rightarrow> u32" where
  "F1 b c d = (b XOR c) XOR d"

definition F2 :: "u32 \<Rightarrow> u32 \<Rightarrow> u32 \<Rightarrow> u32" where
  "F2 b c d = (b AND c) OR (b AND d) OR (c AND d)"

definition F3 :: "u32 \<Rightarrow> u32 \<Rightarrow> u32 \<Rightarrow> u32" where
  "F3 b c d = (b XOR c) XOR d"

definition S :: "nat \<Rightarrow> u32 \<Rightarrow> u32" where
  "S n x = push_bit n x OR drop_bit (32 - n) x"

section \<open>One block\<close>

text \<open>
  \<open>swap_words\<close> are the 64 byte assignments from the copy \<open>tctxt\<close> that a little-endian
  machine does first; \<open>load32\<close> is the union's \<open>b32[k]\<close> read from \<open>b8\<close>.
\<close>

definition swap_words :: "byte list \<Rightarrow> byte list" where
  "swap_words t = map (\<lambda>i. t ! (4 * (i div 4) + (3 - i mod 4))) [0..<64]"

definition load32 :: "byte_order \<Rightarrow> byte list \<Rightarrow> nat \<Rightarrow> u32" where
  "load32 bo m k =
     (case bo of LITTLE_ENDIAN \<Rightarrow> of_le32 (take 4 (drop (4 * k) m))
      | BIG_ENDIAN \<Rightarrow> of_be32 (take 4 (drop (4 * k) m)))"

definition load_W :: "byte_order \<Rightarrow> byte list \<Rightarrow> u32 list" where
  "load_W bo m =
     map (load32 bo (case bo of LITTLE_ENDIAN \<Rightarrow> swap_words m | BIG_ENDIAN \<Rightarrow> m)) [0..<16]"

type_synonym vars = "u32 \<times> u32 \<times> u32 \<times> u32 \<times> u32"

definition W_update :: "nat \<Rightarrow> u32 list \<Rightarrow> u32 list" where
  "W_update s w =
     w[s := S 1 (w ! ((s + 13) AND 0x0f) XOR w ! ((s + 8) AND 0x0f) XOR
                 w ! ((s + 2) AND 0x0f) XOR w ! s)]"

definition mix :: "(u32 \<Rightarrow> u32 \<Rightarrow> u32 \<Rightarrow> u32) \<Rightarrow> u32 \<Rightarrow> nat \<Rightarrow> vars \<Rightarrow> vars" where
  "mix F ws t v =
     (case v of (a, b, c, d, e) \<Rightarrow>
        (let tmp = S 5 a + F b c d + e + ws + K t in (tmp, a, S 30 b, c, d)))"

definition loop1 :: "nat \<Rightarrow> u32 list \<times> vars \<Rightarrow> u32 list \<times> vars" where
  "loop1 t st =
     (let s = t AND 0x0f; w = (if 16 \<le> t then W_update s (fst st) else fst st)
      in (w, mix F0 (w ! s) t (snd st)))"

definition loop2 :: "(u32 \<Rightarrow> u32 \<Rightarrow> u32 \<Rightarrow> u32) \<Rightarrow> nat \<Rightarrow> u32 list \<times> vars \<Rightarrow> u32 list \<times> vars" where
  "loop2 F t st =
     (let s = t AND 0x0f; w = W_update s (fst st) in (w, mix F (w ! s) t (snd st)))"

definition sha1_step :: "byte_order \<Rightarrow> sha1_ctxt \<Rightarrow> sha1_ctxt" where
  "sha1_step bo ctxt =
     (let H = h_b32 ctxt;
          st0 = (load_W bo (m_b8 ctxt), (H ! 0, H ! 1, H ! 2, H ! 3, H ! 4));
          st1 = fold loop1 [0..<20] st0;
          st2 = fold (loop2 F1) [20..<40] st1;
          st3 = fold (loop2 F2) [40..<60] st2;
          st4 = fold (loop2 F3) [60..<80] st3
      in case snd st4 of (a, b, c, d, e) \<Rightarrow>
        ctxt\<lparr>h_b32 := [H ! 0 + a, H ! 1 + b, H ! 2 + c, H ! 3 + d, H ! 4 + e],
             m_b8 := replicate 64 0\<rparr>)"

section \<open>Initialisation, input, padding, result\<close>

definition sha1_init :: sha1_ctxt where
  "sha1_init = \<lparr>h_b32 = [0x67452301, 0xefcdab89, 0x98badcfe, 0x10325476, 0xc3d2e1f0],
                c_b64 = 0, m_b8 = replicate 64 0, count = 0\<rparr>"

text \<open>\<open>count\<close> is an \<^verbatim>\<open>unsigned char\<close>: it wraps at 256 before the \<open>% 64\<close>.\<close>

definition bump_count :: "nat \<Rightarrow> sha1_ctxt \<Rightarrow> sha1_ctxt" where
  "bump_count n ctxt = ctxt\<lparr>count := (count ctxt + n) mod 256 mod 64\<rparr>"

definition PUTPAD :: "byte_order \<Rightarrow> byte \<Rightarrow> sha1_ctxt \<Rightarrow> sha1_ctxt" where
  "PUTPAD bo x ctxt =
     (let ctxt1 = bump_count 1 (ctxt\<lparr>m_b8 := (m_b8 ctxt)[count ctxt mod 64 := x]\<rparr>)
      in if count ctxt1 mod 64 = 0 then sha1_step bo ctxt1 else ctxt1)"

definition overwrite :: "nat \<Rightarrow> byte list \<Rightarrow> byte list \<Rightarrow> byte list" where
  "overwrite i xs m = take i m @ xs @ drop (i + length xs) m"

definition sha1_pad :: "byte_order \<Rightarrow> sha1_ctxt \<Rightarrow> sha1_ctxt" where
  "sha1_pad bo ctxt0 =
     (let ctxt1 = PUTPAD bo 0x80 ctxt0;
          padstart = count ctxt1 mod 64;
          padlen = 64 - padstart;
          ctxt2 = (if padlen < 8
                   then sha1_step bo (bump_count padlen
                          (ctxt1\<lparr>m_b8 := overwrite padstart (replicate padlen 0) (m_b8 ctxt1)\<rparr>))
                   else ctxt1);
          padstart2 = count ctxt2 mod 64;
          padlen2 = 64 - padstart2;
          ctxt3 = bump_count (padlen2 - 8)
                    (ctxt2\<lparr>m_b8 := overwrite padstart2 (replicate (padlen2 - 8) 0) (m_b8 ctxt2)\<rparr>);
          b8 = (case bo of LITTLE_ENDIAN \<Rightarrow> rev (le64 (c_b64 ctxt3))
                | BIG_ENDIAN \<Rightarrow> be64 (c_b64 ctxt3))
      in fold (PUTPAD bo) b8 ctxt3)"

definition copysiz :: "nat \<Rightarrow> nat \<Rightarrow> nat" where
  "copysiz gaplen left = (if gaplen < left then gaplen else left)"

definition loop_body :: "byte_order \<Rightarrow> byte list \<Rightarrow> sha1_ctxt \<Rightarrow> sha1_ctxt" where
  "loop_body bo chunk ctxt =
     (let gapstart = count ctxt mod 64;
          ctxt1 = ctxt\<lparr>m_b8 := overwrite gapstart chunk (m_b8 ctxt)\<rparr>;
          ctxt2 = bump_count (length chunk) ctxt1;
          ctxt3 = ctxt2\<lparr>c_b64 := c_b64 ctxt2 + word_of_nat (length chunk * 8)\<rparr>
      in if count ctxt3 mod 64 = 0 then sha1_step bo ctxt3 else ctxt3)"

function sha1_loop_off :: "byte_order \<Rightarrow> byte list \<Rightarrow> nat \<Rightarrow> sha1_ctxt \<Rightarrow> sha1_ctxt" where
  "sha1_loop_off bo input off ctxt =
     (if off < length input then
        (let n = copysiz (64 - count ctxt mod 64) (length input - off)
         in sha1_loop_off bo input (off + n) (loop_body bo (take n (drop off input)) ctxt))
      else ctxt)"
  by pat_completeness auto
termination
proof (relation "measure (\<lambda>(bo, input, off, ctxt). length input - off)", goal_cases)
  case 1
  show ?case by simp
next
  case prems: (2 bo input off ctxt n)
  have "0 < n"
    unfolding prems(2) copysiz_def using prems(1) by simp
  with prems(1) show ?case
    by (simp only: in_measure prod.case)
qed

declare sha1_loop_off.simps [simp del]

definition sha1_loop :: "byte_order \<Rightarrow> byte list \<Rightarrow> sha1_ctxt \<Rightarrow> sha1_ctxt" where
  "sha1_loop bo input ctxt = sha1_loop_off bo input 0 ctxt"

definition h_b8 :: "byte_order \<Rightarrow> u32 list \<Rightarrow> byte list" where
  "h_b8 bo h = concat (map (case bo of LITTLE_ENDIAN \<Rightarrow> le32 | BIG_ENDIAN \<Rightarrow> be32) h)"

definition sha1_result :: "byte_order \<Rightarrow> sha1_ctxt \<Rightarrow> byte list" where
  "sha1_result bo ctxt0 =
     (let b8 = h_b8 bo (h_b32 (sha1_pad bo ctxt0))
      in case bo of
        BIG_ENDIAN \<Rightarrow> take 20 b8
      | LITTLE_ENDIAN \<Rightarrow> map (\<lambda>i. b8 ! (4 * (i div 4) + (3 - i mod 4))) [0..<20])"

definition libwebsockets_SHA1 :: "byte_order \<Rightarrow> byte list \<Rightarrow> byte list" where
  "libwebsockets_SHA1 bo d = sha1_result bo (sha1_loop bo d sha1_init)"

section \<open>The hash of FIPS 180-1\<close>

definition fips_f :: "nat \<Rightarrow> u32 \<Rightarrow> u32 \<Rightarrow> u32 \<Rightarrow> u32" where
  "fips_f t x y z =
     (if t < 20 then (x AND y) OR (NOT x AND z)
      else if t < 40 then x XOR y XOR z
      else if t < 60 then (x AND y) OR (x AND z) OR (y AND z)
      else x XOR y XOR z)"

definition fips_K :: "nat \<Rightarrow> u32" where
  "fips_K t = (if t < 20 then 0x5a827999 else if t < 40 then 0x6ed9eba1
               else if t < 60 then 0x8f1bbcdc else 0xca62c1d6)"

fun fips_W :: "u32 list \<Rightarrow> nat \<Rightarrow> u32" where
  "fips_W M t =
     (if t < 16 then M ! t
      else word_rotl 1 (fips_W M (t - 3) XOR fips_W M (t - 8) XOR fips_W M (t - 14) XOR
                        fips_W M (t - 16)))"

declare fips_W.simps [simp del]

definition fips_round :: "(nat \<Rightarrow> u32) \<Rightarrow> nat \<Rightarrow> vars \<Rightarrow> vars" where
  "fips_round W t v =
     (case v of (a, b, c, d, e) \<Rightarrow>
        (word_rotl 5 a + fips_f t b c d + e + W t + fips_K t, a, word_rotl 30 b, c, d))"

definition fips_block :: "byte list \<Rightarrow> u32 list" where
  "fips_block bs = map of_be32 (blocks 4 bs)"

definition fips_compress :: "byte list \<Rightarrow> vars \<Rightarrow> vars" where
  "fips_compress bs H =
     (case H of (h0, h1, h2, h3, h4) \<Rightarrow>
      case fold (fips_round (fips_W (fips_block bs))) [0..<80] H of (a, b, c, d, e) \<Rightarrow>
        (h0 + a, h1 + b, h2 + c, h3 + d, h4 + e))"

definition fips_pad :: "byte list \<Rightarrow> byte list" where
  "fips_pad d = d @ [0x80] @ replicate ((119 - length d mod 64) mod 64) 0 @
                be64 (word_of_nat (8 * length d))"

definition fips_H0 :: vars where
  "fips_H0 = (0x67452301, 0xefcdab89, 0x98badcfe, 0x10325476, 0xc3d2e1f0)"

definition fips_sha1 :: "byte list \<Rightarrow> byte list" where
  "fips_sha1 d =
     (case fold fips_compress (blocks 64 (fips_pad d)) fips_H0 of (a, b, c, d, e) \<Rightarrow>
        be32 a @ be32 b @ be32 c @ be32 d @ be32 e)"

section \<open>One block of the code is one block of the standard\<close>

lemma S_word_rotl: "0 < n \<Longrightarrow> n < 32 \<Longrightarrow> S n x = word_rotl n x"
proof (rule bit_word_eqI)
  fix i
  assume n: "0 < n" "n < 32" and i: "i < LENGTH(32)"
  show "bit (S n x) i = bit (word_rotl n x) i"
  proof (cases "n \<le> i")
    case True
    then have "(i + (32 - n)) mod 32 = i - n"
      using i n by (simp add: mod_if)
    with True i n show ?thesis
      by (auto simp: S_def bit_or_iff bit_push_bit_iff bit_drop_bit_eq bit_word_rotl_iff
               dest: bit_imp_le_length)
  next
    case False
    then have m: "(i + (32 - n)) mod 32 = 32 - n + i"
      using i n by (subst mod_less) auto
    from False n have "\<not> bit (push_bit n x) i" "bit (drop_bit (32 - n) x) i = bit x (32 - n + i)"
      by (simp_all add: bit_push_bit_iff bit_drop_bit_eq)
    then have "bit (S n x) i = bit x (32 - n + i)"
      by (simp add: S_def bit_or_iff)
    moreover have "bit (word_rotl n x) i = bit x ((i + (32 - n)) mod 32)"
      using i n by (simp add: bit_word_rotl_iff)
    ultimately show ?thesis by (simp only: m)
  qed
qed

lemma K_fips_K: "t < 80 \<Longrightarrow> K t = fips_K t"
proof -
  assume "t < 80"
  then consider "t < 20" | "20 \<le> t" "t < 40" | "40 \<le> t" "t < 60" | "60 \<le> t" "t < 80"
    by linarith
  then show ?thesis
  proof cases
    case 1
    then have "t div 20 = 0" by simp
    with 1 show ?thesis by (simp add: K_def K_tab_def fips_K_def)
  next
    case 2
    then have "t div 20 = 1" by linarith
    with 2 show ?thesis by (simp add: K_def K_tab_def fips_K_def)
  next
    case 3
    then have "t div 20 = 2" by linarith
    with 3 show ?thesis by (simp add: K_def K_tab_def fips_K_def)
  next
    case 4
    then have "t div 20 = 3" by linarith
    with 4 show ?thesis by (simp add: K_def K_tab_def fips_K_def)
  qed
qed

lemma mix_fips_round:
  assumes "t < 80" "F = fips_f t"
  shows "mix F (fips_W M t) t v = fips_round (fips_W M) t v"
  using assms by (simp add: mix_def fips_round_def S_word_rotl K_fips_K Let_def split: prod.split)

text \<open>
  Entering round \<open>t\<close>, the sixteen slots of the circular schedule hold the last sixteen words
  of the standard's eighty-word schedule.
\<close>

definition sched :: "u32 list \<Rightarrow> nat \<Rightarrow> u32 list \<Rightarrow> bool" where
  "sched M t w \<longleftrightarrow> length w = 16 \<and>
     (\<forall>j. j < max 16 t \<and> max 16 t \<le> j + 16 \<longrightarrow> w ! (j mod 16) = fips_W M j)"

lemma sched_0: "length M = 16 \<Longrightarrow> sched M 0 M"
  by (simp add: sched_def fips_W.simps)

lemma sched_early: "t < 16 \<Longrightarrow> sched M t w \<Longrightarrow> sched M (Suc t) w \<and> w ! (t AND 15) = fips_W M t"
  by (simp add: sched_def and_15_nat)

lemma sched_late:
  assumes t: "16 \<le> t" and s: "sched M t w"
  shows "sched M (Suc t) (W_update (t AND 15) w) \<and>
         W_update (t AND 15) w ! (t AND 15) = fips_W M t"
proof -
  let ?s = "t mod 16"
  have len: "length w = 16" and w: "\<And>j. j < t \<Longrightarrow> t \<le> j + 16 \<Longrightarrow> w ! (j mod 16) = fips_W M j"
    using s t by (auto simp: sched_def)
  have shift: "(?s + k) mod 16 = (t - l) mod 16" if "k + l = 16" for k l
  proof -
    have "t + k = t - l + 16" using t that by linarith
    then show ?thesis by (simp only: mod_add_left_eq mod_add_self2)
  qed
  have idx: "(?s + 13) mod 16 = (t - 3) mod 16" "(?s + 8) mod 16 = (t - 8) mod 16"
    "(?s + 2) mod 16 = (t - 14) mod 16" "?s = (t - 16) mod 16"
    using shift [of 13 3] shift [of 8 8] shift [of 2 14] shift [of 0 16]
    by (simp_all only: numeral_plus_numeral add_0_left add_0_right simp_thms arith_simps
          mod_mod_trivial)
  have new: "S 1 (w ! ((?s + 13) mod 16) XOR w ! ((?s + 8) mod 16) XOR w ! ((?s + 2) mod 16) XOR
              w ! ?s) = fips_W M t"
    unfolding idx(1,2,3) using t w [of "t - 3"] w [of "t - 8"] w [of "t - 14"] w [of "t - 16"] idx(4)
    by (simp add: S_word_rotl fips_W.simps [of M t])
  have upd: "W_update (t AND 15) w = w[?s := fips_W M t]"
    using new by (simp add: W_update_def and_15_nat)
  have "w[?s := fips_W M t] ! (j mod 16) = fips_W M j" if "j < Suc t" "Suc t \<le> j + 16" for j
  proof (cases "j = t")
    case True
    then show ?thesis by (simp add: len)
  next
    case False
    have "\<not> 16 dvd t - j"
      using False that by (auto dest!: dvd_imp_le)
    then have "?s \<noteq> j mod 16"
      using that mod_eq_dvd_iff_nat [of j t 16] by (simp del: mod_mod_trivial)
    moreover have "w ! (j mod 16) = fips_W M j"
      using False that by (intro w) linarith+
    ultimately show ?thesis by (metis nth_list_update_neq)
  qed
  with t len show ?thesis
    unfolding upd by (simp add: sched_def and_15_nat)
qed

definition round_ok :: "u32 list \<Rightarrow> nat \<Rightarrow> (u32 list \<times> vars \<Rightarrow> u32 list \<times> vars) \<Rightarrow> bool" where
  "round_ok M t g \<longleftrightarrow> (\<forall>w v. sched M t w \<longrightarrow>
     sched M (Suc t) (fst (g (w, v))) \<and> snd (g (w, v)) = fips_round (fips_W M) t v)"

lemma loop1_ok: "t < 20 \<Longrightarrow> round_ok M t (loop1 t)"
  using sched_early [of t M] sched_late [of t M]
  by (cases "t < 16")
     (simp_all add: round_ok_def loop1_def Let_def mix_fips_round fips_f_def [abs_def] F0_def [abs_def])

lemma loop2_ok: "16 \<le> t \<Longrightarrow> t < 80 \<Longrightarrow> F = fips_f t \<Longrightarrow> round_ok M t (loop2 F t)"
  using sched_late [of t M]
  by (simp add: round_ok_def loop2_def Let_def mix_fips_round)

lemma fips_f_F1: "20 \<le> t \<Longrightarrow> t < 40 \<Longrightarrow> F1 = fips_f t"
  by (simp add: fun_eq_iff F1_def fips_f_def ac_simps)

lemma fips_f_F2: "40 \<le> t \<Longrightarrow> t < 60 \<Longrightarrow> F2 = fips_f t"
  by (simp add: fun_eq_iff F2_def fips_f_def ac_simps)

lemma fips_f_F3: "60 \<le> t \<Longrightarrow> F3 = fips_f t"
  by (simp add: fun_eq_iff F3_def fips_f_def ac_simps)

lemma fold_rounds:
  assumes "\<And>t. i \<le> t \<Longrightarrow> t < j \<Longrightarrow> round_ok M t (g t)" "i \<le> j" "sched M i (fst st)"
  shows "sched M j (fst (fold g [i..<j] st)) \<and>
         snd (fold g [i..<j] st) = fold (fips_round (fips_W M)) [i..<j] (snd st)"
  using assms(2,1)
proof (induction j rule: dec_induct)
  case base
  with assms(3) show ?case by simp
next
  case (step n)
  let ?st = "fold g [i..<n] st"
  obtain w v where st: "?st = (w, v)" by (rule prod.exhaust)
  have "round_ok M n (g n)" using step by simp
  moreover have w: "sched M n w" and v: "v = fold (fips_round (fips_W M)) [i..<n] (snd st)"
    using step.IH step.prems by (auto simp: st)
  ultimately have "sched M (Suc n) (fst (g n (w, v)))"
    and "snd (g n (w, v)) = fips_round (fips_W M) n v"
    unfolding round_ok_def by blast+
  with step.hyps(1) show ?case by (simp add: st v)
qed

section \<open>The byte views of a block\<close>

lemma blocks_eq_map:
  "length xs = k * n \<Longrightarrow> 0 < k \<Longrightarrow> blocks k xs = map (\<lambda>i. take k (drop (k * i) xs)) [0..<n]"
proof (induction n arbitrary: xs)
  case 0
  then show ?case by (simp add: blocks_short)
next
  case (Suc n)
  have "blocks k xs = take k xs # blocks k (drop k xs)"
    using Suc.prems by (simp add: blocks.simps [of k xs])
  also have "blocks k (drop k xs) = map (\<lambda>i. take k (drop (k * Suc i) xs)) [0..<n]"
    using Suc by (simp add: add.commute)
  finally show ?case
    by (simp add: upt_conv_Cons map_Suc_upt [symmetric] del: upt_Suc map_Suc_upt)
qed

lemma length_fips_block: "length m = 64 \<Longrightarrow> length (fips_block m) = 16"
  by (simp add: fips_block_def blocks_eq_map [of m 4 16])

lemma load32_big: "length m = 64 \<Longrightarrow> k < 16 \<Longrightarrow> load32 BIG_ENDIAN m k = fips_block m ! k"
  by (simp add: load32_def fips_block_def blocks_eq_map [of m 4 16])

lemma load32_little:
  assumes "length m = 64" "k < 16"
  shows "load32 LITTLE_ENDIAN (swap_words m) k = load32 BIG_ENDIAN m k"
proof -
  have "swap_words m ! (4 * k + j) = m ! (4 * k + (3 - j))" if "j < 4" for j
    using assms that by (simp add: swap_words_def)
  from this [of 0] this [of 1] this [of 2] this [of 3] show ?thesis
    using assms by (simp add: load32_def of_le32_def of_be32_def swap_words_def)
qed

lemma load_W_fips: "length m = 64 \<Longrightarrow> load_W bo m = fips_block m"
  by (rule nth_equalityI; cases bo)
     (simp_all add: load_W_def length_fips_block load32_little load32_big)

text \<open>The chaining value as the standard writes it, a tuple.\<close>

definition H_vars :: "u32 list \<Rightarrow> vars" where
  "H_vars h = (h ! 0, h ! 1, h ! 2, h ! 3, h ! 4)"

lemma sha1_step_correct:
  assumes len: "length (m_b8 ctxt) = 64"
  shows "H_vars (h_b32 (sha1_step bo ctxt)) = fips_compress (m_b8 ctxt) (H_vars (h_b32 ctxt))"
proof -
  let ?M = "fips_block (m_b8 ctxt)" and ?H = "H_vars (h_b32 ctxt)"
  have W: "load_W bo (m_b8 ctxt) = ?M" "length ?M = 16"
    using len by (simp_all add: load_W_fips length_fips_block)
  define st1 where "st1 = fold loop1 [0..<20] (?M, ?H)"
  define st2 where "st2 = fold (loop2 F1) [20..<40] st1"
  define st3 where "st3 = fold (loop2 F2) [40..<60] st2"
  define st4 where "st4 = fold (loop2 F3) [60..<80] st3"
  have 1: "sched ?M 20 (fst st1)" "snd st1 = fold (fips_round (fips_W ?M)) [0..<20] ?H"
    unfolding st1_def using fold_rounds [of 0 20 ?M loop1 "(?M, ?H)"] W(2)
    by (simp_all add: loop1_ok sched_0)
  have 2: "sched ?M 40 (fst st2)" "snd st2 = fold (fips_round (fips_W ?M)) [20..<40] (snd st1)"
    unfolding st2_def using fold_rounds [of 20 40 ?M "loop2 F1" st1] 1(1)
    by (simp_all add: loop2_ok fips_f_F1)
  have 3: "sched ?M 60 (fst st3)" "snd st3 = fold (fips_round (fips_W ?M)) [40..<60] (snd st2)"
    unfolding st3_def using fold_rounds [of 40 60 ?M "loop2 F2" st2] 2(1)
    by (simp_all add: loop2_ok fips_f_F2)
  have 4: "snd st4 = fold (fips_round (fips_W ?M)) [60..<80] (snd st3)"
    unfolding st4_def using fold_rounds [of 60 80 ?M "loop2 F3" st3] 3(1)
    by (simp_all add: loop2_ok fips_f_F3)
  have split: "[0..<80] = [0..<20] @ [20..<40] @ [40..<60] @ [60..<80]"
    by code_simp
  have "snd st4 = fold (fips_round (fips_W ?M)) [0..<80] ?H"
    unfolding split by (simp only: 4 3(2) 2(2) 1(2) fold_append comp_apply)
  then show ?thesis
    unfolding sha1_step_def fips_compress_def W(1) H_vars_def Let_def
    by (simp add: st1_def st2_def st3_def st4_def H_vars_def split: prod.split)
qed

section \<open>The streaming code\<close>

text \<open>
  A context \<open>tracks\<close> a chaining value and the bytes of the unfinished block.
\<close>

definition tracks :: "sha1_ctxt \<Rightarrow> vars \<times> byte list \<Rightarrow> bool" where
  "tracks ctxt s \<longleftrightarrow> length (h_b32 ctxt) = 5 \<and> length (m_b8 ctxt) = 64 \<and>
     H_vars (h_b32 ctxt) = fst s \<and> length (snd s) < 64 \<and> count ctxt = length (snd s) \<and>
     take (length (snd s)) (m_b8 ctxt) = snd s"

abbreviation fips_absorb :: "vars \<times> byte list \<Rightarrow> byte list \<Rightarrow> vars \<times> byte list" where
  "fips_absorb \<equiv> absorb 64 fips_compress"

lemma sha1_step_frame [simp]:
  "length (h_b32 (sha1_step bo ctxt)) = 5" "m_b8 (sha1_step bo ctxt) = replicate 64 0"
  "c_b64 (sha1_step bo ctxt) = c_b64 ctxt" "count (sha1_step bo ctxt) = count ctxt"
  by (simp_all add: sha1_step_def Let_def split: prod.split)

lemma tracks_c_b64 [simp]: "tracks (ctxt\<lparr>c_b64 := x\<rparr>) s = tracks ctxt s"
  by (simp add: tracks_def)

definition put :: "byte list \<Rightarrow> sha1_ctxt \<Rightarrow> sha1_ctxt" where
  "put xs ctxt = bump_count (length xs) (ctxt\<lparr>m_b8 := overwrite (count ctxt mod 64) xs (m_b8 ctxt)\<rparr>)"

lemma put_part:
  assumes "tracks ctxt s" "length (snd s) + length xs < 64"
  shows "tracks (put xs ctxt) (fips_absorb s xs)" "count (put xs ctxt) = length (snd s) + length xs"
  using assms by (simp_all add: tracks_def put_def bump_count_def overwrite_def absorb_fits)

lemma put_full:
  assumes "tracks ctxt s" "length (snd s) + length xs = 64"
  shows "tracks (sha1_step bo (put xs ctxt)) (fips_absorb s xs)" "count (put xs ctxt) = 0"
proof -
  have m: "m_b8 (put xs ctxt) = snd s @ xs" and h: "h_b32 (put xs ctxt) = h_b32 ctxt"
    and c: "count (put xs ctxt) = 0"
    using assms by (simp_all add: tracks_def put_def bump_count_def overwrite_def)
  show "count (put xs ctxt) = 0" by (rule c)
  show "tracks (sha1_step bo (put xs ctxt)) (fips_absorb s xs)"
    using assms sha1_step_correct [of "put xs ctxt" bo] c
    by (simp add: m h tracks_def absorb_fills)
qed

lemma put_step:
  assumes "tracks ctxt s" "length (snd s) + length xs \<le> 64" "0 < length (snd s) + length xs"
  shows "tracks (if count (put xs ctxt) mod 64 = 0 then sha1_step bo (put xs ctxt) else put xs ctxt)
           (fips_absorb s xs)"
proof (cases "length (snd s) + length xs = 64")
  case True
  with put_full [OF assms(1) True] show ?thesis by simp
next
  case False
  with assms have "length (snd s) + length xs < 64" by simp
  with put_part [OF assms(1) this] assms(3) show ?thesis by auto
qed

lemma PUTPAD_tracks:
  assumes "tracks ctxt s"
  shows "tracks (PUTPAD bo x ctxt) (fips_absorb s [x])"
proof -
  have "count ctxt < 64" "length (m_b8 ctxt) = 64" using assms by (simp_all add: tracks_def)
  then have "(m_b8 ctxt)[count ctxt mod 64 := x] = overwrite (count ctxt mod 64) [x] (m_b8 ctxt)"
    by (simp add: overwrite_def upd_conv_take_nth_drop)
  then have "PUTPAD bo x ctxt =
      (if count (put [x] ctxt) mod 64 = 0 then sha1_step bo (put [x] ctxt) else put [x] ctxt)"
    by (simp add: PUTPAD_def put_def Let_def)
  with put_step [of ctxt s "[x]" bo] assms show ?thesis
    by (simp add: tracks_def)
qed

lemma fold_PUTPAD_tracks:
  "tracks ctxt s \<Longrightarrow> tracks (fold (PUTPAD bo) xs ctxt) (fips_absorb s xs)"
proof (induction xs arbitrary: ctxt s)
  case Nil
  then show ?case by (simp add: absorb_nil tracks_def)
next
  case (Cons x xs)
  then have "tracks (fold (PUTPAD bo) xs (PUTPAD bo x ctxt)) (fips_absorb (fips_absorb s [x]) xs)"
    by (simp add: PUTPAD_tracks)
  then show ?case
    using absorb_append [of 64 fips_compress s "[x]" xs] by simp
qed

lemma PUTPAD_c_b64 [simp]: "c_b64 (PUTPAD bo x ctxt) = c_b64 ctxt"
  by (simp add: PUTPAD_def Let_def bump_count_def)

lemma put_c_b64 [simp]: "c_b64 (put xs ctxt) = c_b64 ctxt"
  by (simp add: put_def bump_count_def)

lemma loop_body_tracks:
  assumes "tracks ctxt s" "length (snd s) + length xs \<le> 64" "xs \<noteq> []"
  shows "tracks (loop_body bo xs ctxt) (fips_absorb s xs)"
    and "c_b64 (loop_body bo xs ctxt) = c_b64 ctxt + word_of_nat (8 * length xs)"
proof -
  let ?p = "(put xs ctxt)\<lparr>c_b64 := c_b64 ctxt + word_of_nat (8 * length xs)\<rparr>"
  have body: "loop_body bo xs ctxt = (if count ?p mod 64 = 0 then sha1_step bo ?p else ?p)"
    by (simp add: loop_body_def put_def Let_def bump_count_def mult.commute)
  show "c_b64 (loop_body bo xs ctxt) = c_b64 ctxt + word_of_nat (8 * length xs)"
    by (simp add: body)
  have "sha1_step bo ?p = (sha1_step bo (put xs ctxt))\<lparr>c_b64 := c_b64 ctxt + word_of_nat (8 * length xs)\<rparr>"
    by (simp add: sha1_step_def Let_def split: prod.split)
  with put_step [of ctxt s xs bo] assms show "tracks (loop_body bo xs ctxt) (fips_absorb s xs)"
    by (simp add: body split: if_splits)
qed

lemma sha1_loop_off_tracks:
  assumes "tracks ctxt s" "off \<le> length input"
  shows "tracks (sha1_loop_off bo input off ctxt) (fips_absorb s (drop off input)) \<and>
         c_b64 (sha1_loop_off bo input off ctxt) = c_b64 ctxt + word_of_nat (8 * (length input - off))"
  using assms
proof (induction bo input off ctxt arbitrary: s rule: sha1_loop_off.induct)
  case (1 bo input off ctxt)
  show ?case
  proof (cases "off < length input")
    case False
    with "1.prems" show ?thesis
      by (simp add: sha1_loop_off.simps absorb_nil tracks_def)
  next
    case True
    define n where "n = copysiz (64 - count ctxt mod 64) (length input - off)"
    define xs where "xs = take n (drop off input)"
    have n: "0 < n" "n \<le> length input - off" "length (snd s) + n \<le> 64"
      using True "1.prems" by (auto simp: n_def copysiz_def tracks_def)
    then have xs: "length xs = n" "xs \<noteq> []"
      by (auto simp: xs_def)
    have rec: "sha1_loop_off bo input off ctxt =
        sha1_loop_off bo input (off + n) (loop_body bo xs ctxt)"
      using True by (simp add: sha1_loop_off.simps [of bo input off] n_def xs_def Let_def)
    have "drop off input = xs @ drop (off + n) input"
      by (simp add: xs_def add.commute flip: drop_drop)
    then have ab: "fips_absorb s (drop off input) =
        fips_absorb (fips_absorb s xs) (drop (off + n) input)"
      by (simp add: absorb_append)
    have body: "tracks (loop_body bo xs ctxt) (fips_absorb s xs)"
      "c_b64 (loop_body bo xs ctxt) = c_b64 ctxt + word_of_nat (8 * n)"
      using loop_body_tracks [of ctxt s xs bo] "1.prems" n xs by simp_all
    have "8 * (length input - off) = 8 * n + 8 * (length input - (off + n))"
      using n by simp
    then have "word_of_nat (8 * (length input - off)) =
        word_of_nat (8 * n) + (word_of_nat (8 * (length input - (off + n))) :: u64)"
      by (simp only: of_nat_add)
    with "1.IH" [OF True n_def, of "fips_absorb s xs"] body n show ?thesis
      unfolding rec ab by (simp add: xs_def add.assoc)
  qed
qed

lemma sha1_init_tracks: "tracks sha1_init (fips_H0, [])"
  by (simp add: sha1_init_def tracks_def H_vars_def fips_H0_def)

lemma sha1_loop_tracks:
  "tracks (sha1_loop bo d sha1_init) (fips_absorb (fips_H0, []) d)"
  "c_b64 (sha1_loop bo d sha1_init) = word_of_nat (8 * length d)"
  using sha1_loop_off_tracks [OF sha1_init_tracks, of 0 d bo]
  by (simp_all add: sha1_loop_def sha1_init_def)

section \<open>The padding\<close>

lemma snd_absorb_length: "length (snd (fips_absorb s xs)) = (length (snd s) + length xs) mod 64"
  by (simp add: absorb_def length_rest_of)

text \<open>The two bursts of zero bytes that \<open>sha1_pad\<close> writes around a possible block boundary.\<close>

definition pad_head :: "byte_order \<Rightarrow> sha1_ctxt \<Rightarrow> sha1_ctxt" where
  "pad_head bo c = (if 64 - count c mod 64 < 8
                    then sha1_step bo (put (replicate (64 - count c mod 64) 0) c) else c)"

definition pad_tail :: "sha1_ctxt \<Rightarrow> sha1_ctxt" where
  "pad_tail c = put (replicate (64 - count c mod 64 - 8) 0) c"

lemma sha1_pad_unfold:
  "sha1_pad bo ctxt =
     fold (PUTPAD bo) (be64 (c_b64 ctxt)) (pad_tail (pad_head bo (PUTPAD bo 0x80 ctxt)))"
  (is "_ = fold _ _ ?c3")
proof -
  have "c_b64 ?c3 = c_b64 ctxt"
    by (simp add: pad_tail_def pad_head_def)
  moreover have "sha1_pad bo ctxt = fold (PUTPAD bo)
      (case bo of LITTLE_ENDIAN \<Rightarrow> rev (le64 (c_b64 ?c3)) | BIG_ENDIAN \<Rightarrow> be64 (c_b64 ?c3)) ?c3"
    by (simp only: sha1_pad_def Let_def put_def pad_head_def pad_tail_def length_replicate)
  ultimately show ?thesis
    by (cases bo) (simp_all add: be64_rev_le64)
qed

lemma pad_head_tracks:
  assumes "tracks c s"
  defines "n \<equiv> length (snd s)"
  shows "tracks (pad_head bo c) (fips_absorb s (replicate (if 56 < n then 64 - n else 0) 0))"
proof -
  have c: "count c = n" "n < 64" using assms by (simp_all add: tracks_def)
  then have "64 - n < 8 \<longleftrightarrow> 56 < n" by linarith
  with c put_full(1) [OF assms(1), of "replicate (64 - n) 0" bo] assms(1) show ?thesis
    by (simp add: pad_head_def absorb_nil n_def)
qed

lemma pad_tail_tracks:
  assumes "tracks c s" "length (snd s) \<le> 56"
  shows "tracks (pad_tail c) (fips_absorb s (replicate (56 - length (snd s)) 0))"
  using put_part(1) [OF assms(1), of "replicate (56 - length (snd s)) 0"] assms
  by (simp add: pad_tail_def tracks_def)

lemma sha1_pad_tracks:
  assumes "tracks ctxt s"
  shows "tracks (sha1_pad bo ctxt)
    (fips_absorb s ([0x80] @ replicate ((119 - length (snd s)) mod 64) 0 @ be64 (c_b64 ctxt)))"
proof -
  define n where "n = (length (snd s) + 1) mod 64"
  define z1 where "z1 = (if 56 < n then 64 - n else 0)"
  define s1 where "s1 = fips_absorb s [0x80]"
  define s2 where "s2 = fips_absorb s1 (replicate z1 0)"
  have p: "length (snd s) < 64" using assms by (simp add: tracks_def)
  have n1: "length (snd s1) = n"
    by (simp add: s1_def snd_absorb_length n_def)
  have "tracks (PUTPAD bo 0x80 ctxt) s1"
    unfolding s1_def by (rule PUTPAD_tracks [OF assms])
  then have t2: "tracks (pad_head bo (PUTPAD bo 0x80 ctxt)) s2"
    unfolding s2_def z1_def n1 [symmetric] by (rule pad_head_tracks)
  have n2: "length (snd s2) = (n + z1) mod 64"
    by (simp add: s2_def snd_absorb_length n1)
  have le: "(n + z1) mod 64 \<le> 56"
    by (auto simp: z1_def n_def)
  have "tracks (sha1_pad bo ctxt)
      (fips_absorb (fips_absorb s2 (replicate (56 - (n + z1) mod 64) 0)) (be64 (c_b64 ctxt)))"
    unfolding sha1_pad_unfold using pad_tail_tracks [OF t2] le n2
    by (intro fold_PUTPAD_tracks) simp
  moreover have "(119 - length (snd s)) mod 64 = z1 + (56 - (n + z1) mod 64)"
    using p by (cases "length (snd s) = 63"; cases "length (snd s) \<le> 55")
      (simp_all add: z1_def n_def mod_if)
  ultimately show ?thesis
    by (simp add: s2_def s1_def replicate_add flip: absorb_append)
qed

section \<open>The digest\<close>

lemma sha1_result_H_vars:
  assumes "length (h_b32 (sha1_pad bo ctxt)) = 5"
    and "H_vars (h_b32 (sha1_pad bo ctxt)) = (a, b, c, d, e)"
  shows "sha1_result bo ctxt = be32 a @ be32 b @ be32 c @ be32 d @ be32 e"
proof -
  have "h_b32 (sha1_pad bo ctxt) = [a, b, c, d, e]"
    using assms by (auto simp: H_vars_def length_Suc_conv numeral_eq_Suc)
  then show ?thesis
    by (cases bo) (simp_all add: sha1_result_def h_b8_def be32_def le32_def upt_rec)
qed

text \<open>
  The code computes the hash of the standard, on every input and under both byte orders.
\<close>

lemma libwebsockets_SHA1_fips: "libwebsockets_SHA1 bo d = fips_sha1 d"
proof -
  let ?ctxt = "sha1_loop bo d sha1_init" and ?s = "fips_absorb (fips_H0, []) d"
  have "length (snd ?s) = length d mod 64"
    by (simp add: snd_absorb_length)
  then have t: "tracks (sha1_pad bo ?ctxt) (fips_absorb (fips_H0, []) (fips_pad d))"
    using sha1_pad_tracks [OF sha1_loop_tracks(1) [of bo d], of bo] sha1_loop_tracks(2) [of bo d]
    by (simp add: fips_pad_def flip: absorb_append)
  obtain a b c d' e where r: "fold fips_compress (blocks 64 (fips_pad d)) fips_H0 = (a, b, c, d', e)"
    by (metis prod_cases5)
  with t have "H_vars (h_b32 (sha1_pad bo ?ctxt)) = (a, b, c, d', e)"
    and "length (h_b32 (sha1_pad bo ?ctxt)) = 5"
    by (simp_all add: tracks_def absorb_def)
  then show ?thesis
    using r sha1_result_H_vars [of bo ?ctxt]
    by (simp add: libwebsockets_SHA1_def fips_sha1_def)
qed

lemma length_SHA1 [simp]: "length (libwebsockets_SHA1 bo d) = 20"
  by (simp add: libwebsockets_SHA1_fips fips_sha1_def split: prod.split)

section \<open>Properties\<close>

text \<open>
  C13. \<open>libwebsockets_SHA1\<close> is SHA-1: on every message and under both byte orders of the
  preprocessor, the digest is the one FIPS 180-1 defines (padding, message schedule, the eighty
  rounds and the chaining of the blocks).
\<close>

theorem SHA1_is_FIPS_180: "libwebsockets_SHA1 bo d = fips_sha1 d"
  by (rule libwebsockets_SHA1_fips)

text \<open>
  One call of \<open>sha1_step\<close> on a full block buffer, with its schedule of sixteen words
  overwritten in place and its four loops of twenty rounds, is the compression function of the
  standard with its eighty-word schedule.
\<close>

theorem sha1_step_is_compression:
  assumes "length (m_b8 ctxt) = 64"
  shows "H_vars (h_b32 (sha1_step bo ctxt)) = fips_compress (m_b8 ctxt) (H_vars (h_b32 ctxt))"
  using assms by (rule sha1_step_correct)

theorem sha1_step_is_compression_witness:
  "H_vars (h_b32 (sha1_step LITTLE_ENDIAN sha1_init)) =
     fips_compress (m_b8 sha1_init) (H_vars (h_b32 sha1_init))"
  by (rule sha1_step_is_compression) (simp add: sha1_init_def)

end
