(* ===== verification/Base64.thy ===== *)
theory Base64
  imports Lws_Prelude
begin

text \<open>
  \<^verbatim>\<open>lib/base64-decode.c\<close>: the encoder (used for handshake keys) and the decoder. Both write into a
  caller's buffer of \<open>out_size\<close> bytes; a result is the C return value together with the bytes
  written to \<open>out\<close>. The encoder is shown equal to the encoding of RFC 4648; the decoder is
  described on every encoder output, which shows where it loses or adds a byte.
\<close>

section \<open>The tables\<close>

definition encode_tab :: "byte list" where
  "encode_tab = bytes ''ABCDEFGHIJKLMNOPQRSTUVWXYZabcdefghijklmnopqrstuvwxyz0123456789+/''"

definition decode_tab :: "byte list" where
  "decode_tab = bytes (''|$$$}rstuvwxyz{$$$$$$$>?@ABCDEFGHIJKLMNOPQRSTUVW$$$$$$XYZ['' @
     [CHR 0x5c] @ '']^_'' @ [CHR 0x60] @ ''abcdefghijklmnopq'')"

definition pad_char :: byte where
  "pad_char = 0x3d"

section \<open>Encoding\<close>

definition encode_quad :: "nat \<Rightarrow> byte \<Rightarrow> byte \<Rightarrow> byte \<Rightarrow> byte list" where
  "encode_quad len t0 t1 t2 =
     [encode_tab ! unat (drop_bit 2 t0),
      encode_tab ! unat (push_bit 4 (t0 AND 0x03) OR drop_bit 4 (t1 AND 0xf0)),
      (if 1 < len then encode_tab ! unat (push_bit 2 (t1 AND 0x0f) OR drop_bit 6 (t2 AND 0xc0))
       else pad_char),
      (if 2 < len then encode_tab ! unat (t2 AND 0x3f) else pad_char)]"

text \<open>
  The \<open>while (in_len)\<close> loop: each round takes up to three bytes, the missing ones being 0.
\<close>

fun encode_loop :: "byte list \<Rightarrow> nat \<Rightarrow> byte list \<Rightarrow> int \<Rightarrow> int \<times> byte list" where
  "encode_loop [] dn out out_size =
     (if int dn + 1 \<ge> out_size then (-1, out) else (int dn, out @ [0]))"
| "encode_loop [t0] dn out out_size =
     (if int dn + 4 \<ge> out_size then (-1, out)
      else encode_loop [] (dn + 4) (out @ encode_quad 1 t0 0 0) out_size)"
| "encode_loop [t0, t1] dn out out_size =
     (if int dn + 4 \<ge> out_size then (-1, out)
      else encode_loop [] (dn + 4) (out @ encode_quad 2 t0 t1 0) out_size)"
| "encode_loop (t0 # t1 # t2 # ts) dn out out_size =
     (if int dn + 4 \<ge> out_size then (-1, out)
      else encode_loop ts (dn + 4) (out @ encode_quad 3 t0 t1 t2) out_size)"

definition lws_b64_encode_string :: "byte list \<Rightarrow> int \<Rightarrow> int \<times> byte list" where
  "lws_b64_encode_string inp out_size = encode_loop inp 0 [] out_size"

section \<open>Decoding\<close>

definition decode_char :: "byte \<Rightarrow> byte" where
  "decode_char c =
     (let v = (if c < 43 \<or> c > 122 then 0 else decode_tab ! unat (c - 43))
      in if v \<noteq> 0 then (if v = 0x24 then 0 else v - 61) else 0)"

text \<open>
  The innermost loop \<open>while (*in && !v)\<close> for \<open>quad[i]\<close>: the rest of the input, \<open>len\<close>
  and \<open>quad\<close>. The end of the string is the end of the list.
\<close>

fun decode_one :: "nat \<Rightarrow> byte list \<Rightarrow> nat \<Rightarrow> byte list \<Rightarrow> byte list \<times> nat \<times> byte list" where
  "decode_one i [] len quad = ([], len, quad)"
| "decode_one i (c # cs) len quad =
     (let v = decode_char c;
          len' = (if cs \<noteq> [] then len + 1 else len);
          quad' = (if cs \<noteq> [] then (if v \<noteq> 0 then quad[i := v - 1] else quad) else quad[i := 0])
      in if v = 0 then decode_one i cs len' quad' else (cs, len', quad'))"

text \<open>The \<open>for (i = 0; i < 4 && *in; i++)\<close> loop, \<open>k = 4 - i\<close> rounds from the end.\<close>

fun decode_four :: "nat \<Rightarrow> byte list \<Rightarrow> nat \<Rightarrow> byte list \<Rightarrow> byte list \<times> nat \<times> byte list" where
  "decode_four 0 inp len quad = (inp, len, quad)"
| "decode_four (Suc k) inp len quad =
     (if inp = [] then (inp, len, quad)
      else case decode_one (3 - k) inp len quad of (inp', len', quad') \<Rightarrow>
        decode_four k inp' len' quad')"

definition decode_out :: "nat \<Rightarrow> byte list \<Rightarrow> byte list" where
  "decode_out len quad =
     (if 2 \<le> len then [push_bit 2 (quad ! 0) OR drop_bit 4 (quad ! 1)] else []) @
     (if 3 \<le> len then [push_bit 4 (quad ! 1) OR drop_bit 2 (quad ! 2)] else []) @
     (if 4 \<le> len then [(push_bit 6 (quad ! 2) AND 0xc0) OR quad ! 3] else [])"

lemma decode_one_shorter: "length (fst (decode_one i inp len quad)) \<le> length inp - 1"
  by (induction i inp len quad rule: decode_one.induct) (auto simp: Let_def, fastforce+)

lemma decode_four_le: "length (fst (decode_four k inp len quad)) \<le> length inp"
proof (induction k arbitrary: inp len quad)
  case (Suc k)
  obtain inp' len' quad' where r: "decode_one (3 - k) inp len quad = (inp', len', quad')"
    by (rule prod_cases3)
  with decode_one_shorter [of "3 - k" inp len quad] have "length inp' \<le> length inp" by simp
  with Suc [of inp' len' quad'] r show ?case by simp
qed simp

lemma decode_four_shorter:
  assumes "decode_four 4 inp len quad = (inp', len', quad')" "inp \<noteq> []"
  shows "length inp' < length inp"
proof -
  obtain i1 l1 q1 where r: "decode_one 0 inp len quad = (i1, l1, q1)"
    by (rule prod_cases3)
  have "length i1 < length inp"
    using decode_one_shorter [of 0 inp len quad] r assms(2) by (cases inp) auto
  moreover have "length inp' \<le> length i1"
    using decode_four_le [of 3 i1 l1 q1] r assms by (simp add: eval_nat_numeral)
  ultimately show ?thesis by simp
qed

text \<open>
  The outer \<open>while (*in)\<close>. \<open>quad\<close> is uninitialised at entry and keeps its contents from one
  round to the next; its first contents are an argument.
\<close>

function decode_loop :: "byte list \<Rightarrow> nat \<Rightarrow> byte list \<Rightarrow> byte list \<Rightarrow> int \<Rightarrow> int \<times> byte list" where
  "decode_loop inp dn quad out out_size =
     (if inp = [] then
        (if int dn + 1 \<ge> out_size then (-1, out) else (int dn, out @ [0]))
      else case decode_four 4 inp 0 quad of (inp', len, quad') \<Rightarrow>
        if len = 0 then decode_loop inp' dn quad' out out_size
        else if out_size < int dn + int len - 1 then (-1, out)
        else decode_loop inp' (dn + len - 1) quad' (out @ decode_out len quad') out_size)"
  by pat_completeness auto
termination
  by (relation "measure (\<lambda>(inp, dn, quad, out, out_size). length inp)")
     (auto dest: decode_four_shorter [OF sym])

declare decode_loop.simps [simp del]

definition lws_b64_decode_string :: "byte list \<Rightarrow> byte list \<Rightarrow> int \<Rightarrow> int \<times> byte list" where
  "lws_b64_decode_string quad0 inp out_size = decode_loop inp 0 quad0 [] out_size"

definition lws_b64_selftest :: "byte list \<Rightarrow> int" where
  "lws_b64_selftest quad0 =
     (let plaintext = bytes ''sanity check base 64''; coded = bytes ''c2FuaXR5IGNoZWNrIGJhc2UgNjQ='';
          (n, buf) = lws_b64_encode_string plaintext 64
      in if n \<noteq> int (length coded) \<or> buf \<noteq> coded @ [0] then -1
         else (let (n2, buf2) = lws_b64_decode_string quad0 coded 64
               in if n2 \<noteq> int (length plaintext) \<or> buf2 \<noteq> plaintext @ [0] then -1 else 0))"

section \<open>The encoding of RFC 4648\<close>

text \<open>
  The standard's own words: the bits of the input in a row, cut into groups of six (the last one
  filled with zero bits), one character of the alphabet for each, and pad characters up to a
  multiple of four.
\<close>

definition rfc_alphabet :: "byte list" where
  "rfc_alphabet = map word_of_nat ([65..<91] @ [97..<123] @ [48..<58] @ [43, 47])"

definition byte_bits :: "byte \<Rightarrow> bool list" where
  "byte_bits b = map (bit b) [7, 6, 5, 4, 3, 2, 1, 0]"

definition bits_val :: "bool list \<Rightarrow> nat" where
  "bits_val bs = horner_sum of_bool 2 (rev bs)"

definition sextets :: "bool list \<Rightarrow> bool list list" where
  "sextets bs = blocks 6 (bs @ replicate ((6 - length bs mod 6) mod 6) False)"

definition pad4 :: "byte list \<Rightarrow> byte list" where
  "pad4 cs = cs @ replicate ((4 - length cs mod 4) mod 4) pad_char"

definition rfc_b64 :: "byte list \<Rightarrow> byte list" where
  "rfc_b64 xs = pad4 (map (\<lambda>g. rfc_alphabet ! bits_val g) (sextets (concat (map byte_bits xs))))"

lemma encode_tab_eq: "encode_tab =
  [65, 66, 67, 68, 69, 70, 71, 72, 73, 74, 75, 76, 77, 78, 79, 80, 81, 82, 83, 84, 85, 86, 87, 88,
   89, 90, 97, 98, 99, 100, 101, 102, 103, 104, 105, 106, 107, 108, 109, 110, 111, 112, 113, 114,
   115, 116, 117, 118, 119, 120, 121, 122, 48, 49, 50, 51, 52, 53, 54, 55, 56, 57, 43, 47]"
  by (simp add: encode_tab_def bytes_def)

lemma rfc_alphabet_eq: "rfc_alphabet = encode_tab"
  by (simp add: rfc_alphabet_def encode_tab_eq upt_rec)

lemma upt_8: "[0..<8] = [0, 1, 2, 3, 4, 5, 6, 7::nat]"
  by code_simp

lemma bits_val_byte: "bits_val (byte_bits q) = unat q"
proof -
  have "rev (byte_bits q) = map (bit (unat q)) [0..<8]"
    unfolding upt_8 by (simp add: byte_bits_def bit_unsigned_iff)
  then show ?thesis
    by (simp add: bits_val_def horner_sum_bit_eq_take_bit take_bit_eq_mod unat_byte_less)
qed

lemma bits_val_False: "bits_val (False # bs) = bits_val bs"
  by (simp add: bits_val_def horner_sum_append)

lemma six_bits_val:
  "q AND 0x3f = q \<Longrightarrow> unat q = bits_val (map (bit q) [5, 4, 3, 2, 1, 0])" for q :: byte
proof -
  assume q: "q AND 0x3f = q"
  have "\<not> bit q 7" "\<not> bit q 6"
    by (subst q [symmetric], simp add: bit_simps)+
  then have "byte_bits q = False # False # map (bit q) [5, 4, 3, 2, 1, 0]"
    by (simp add: byte_bits_def)
  then show ?thesis
    using bits_val_byte [of q] by (simp add: bits_val_False)
qed

text \<open>The four six-bit indices the code computes from a triple.\<close>

definition idx :: "nat \<Rightarrow> byte \<Rightarrow> byte \<Rightarrow> byte \<Rightarrow> byte" where
  "idx i t0 t1 t2 =
     [drop_bit 2 t0, push_bit 4 (t0 AND 0x03) OR drop_bit 4 (t1 AND 0xf0),
      push_bit 2 (t1 AND 0x0f) OR drop_bit 6 (t2 AND 0xc0), t2 AND 0x3f] ! i"

lemma idx_simps:
  "idx 0 t0 t1 t2 = drop_bit 2 t0"
  "idx 1 t0 t1 t2 = push_bit 4 (t0 AND 0x03) OR drop_bit 4 (t1 AND 0xf0)"
  "idx 2 t0 t1 t2 = push_bit 2 (t1 AND 0x0f) OR drop_bit 6 (t2 AND 0xc0)"
  "idx 3 t0 t1 t2 = t2 AND 0x3f"
  by (simp_all add: idx_def)

lemma idx_six_bits:
  "idx 0 t0 t1 t2 AND 0x3f = idx 0 t0 t1 t2" "idx 1 t0 t1 t2 AND 0x3f = idx 1 t0 t1 t2"
  "idx 2 t0 t1 t2 AND 0x3f = idx 2 t0 t1 t2" "idx 3 t0 t1 t2 AND 0x3f = idx 3 t0 t1 t2"
  unfolding idx_simps by (rule byte_bits_eqI; simp add: bit_simps; fail)+

lemmas unat_idx = idx_six_bits [THEN six_bits_val]
lemmas unat_idx_less = idx_six_bits [THEN unat_six_bits]


section \<open>The encoder computes it\<close>

lemma encode_tab_idx:
  "encode_tab ! unat (idx 0 t0 t1 t2) = rfc_alphabet ! bits_val (take 6 (byte_bits t0))"
  "encode_tab ! unat (idx 1 t0 t1 t2) =
     rfc_alphabet ! bits_val (drop 6 (byte_bits t0) @ take 4 (byte_bits t1))"
  "encode_tab ! unat (idx 2 t0 t1 t2) =
     rfc_alphabet ! bits_val (drop 4 (byte_bits t1) @ take 2 (byte_bits t2))"
  "encode_tab ! unat (idx 3 t0 t1 t2) = rfc_alphabet ! bits_val (drop 2 (byte_bits t2))"
  unfolding unat_idx rfc_alphabet_eq unfolding idx_simps by (simp_all add: byte_bits_def bit_simps)

lemma length_byte_bits [simp]: "length (byte_bits b) = 8"
  by (simp add: byte_bits_def)

lemma sextets_append: "length xs = 6 * n \<Longrightarrow> sextets (xs @ ys) = sextets xs @ sextets ys"
proof (induction n arbitrary: xs)
  case 0
  then show ?case by (simp add: sextets_def blocks_short)
next
  case (Suc n)
  have "blocks 6 (xs @ zs) = take 6 xs # blocks 6 (drop 6 xs @ zs)" for zs
    using Suc.prems blocks_append_block [of "take 6 xs" 6 "drop 6 xs @ zs"]
    by (simp flip: append_assoc)
  moreover have "length (xs @ zs) mod 6 = length (drop 6 xs @ zs) mod 6" for zs
  proof -
    have "length xs = 6 * Suc n" "length (drop 6 xs) = 6 * n"
      using Suc.prems by simp_all
    then show ?thesis by (simp only: length_append mod_mult_self4)
  qed
  ultimately have "sextets (xs @ zs) = take 6 xs # sextets (drop 6 xs @ zs)" for zs
    by (simp only: sextets_def append_assoc)
  from this [of ys] this [of "[]"] Suc.IH [of "drop 6 xs"] Suc.prems show ?case
    by simp
qed

lemma sextets_one: "length g = 6 \<Longrightarrow> sextets g = [g]"
  using blocks_append_block [of g 6 "[]"] by (simp add: sextets_def blocks_short)

lemma sextets_triple:
  "sextets (byte_bits t0 @ byte_bits t1 @ byte_bits t2 @ ys) =
     [take 6 (byte_bits t0), drop 6 (byte_bits t0) @ take 4 (byte_bits t1),
      drop 4 (byte_bits t1) @ take 2 (byte_bits t2), drop 2 (byte_bits t2)] @ sextets ys"
proof -
  let ?a = "take 6 (byte_bits t0)" and ?b = "drop 6 (byte_bits t0) @ take 4 (byte_bits t1)"
    and ?c = "drop 4 (byte_bits t1) @ take 2 (byte_bits t2)" and ?d = "drop 2 (byte_bits t2)"
  have "byte_bits t0 @ byte_bits t1 @ byte_bits t2 @ ys = ?a @ ?b @ ?c @ ?d @ ys"
    by (simp add: byte_bits_def)
  then show ?thesis
    by (simp only:) (simp add: sextets_append [of ?a 1] sextets_append [of ?b 1]
      sextets_append [of ?c 1] sextets_append [of ?d 1] sextets_one del: append_assoc)
qed

lemma pad4_quad: "pad4 (a # b # c # d # ys) = a # b # c # d # pad4 ys"
  by (simp add: pad4_def)

lemma rfc_b64_simps:
  "rfc_b64 [] = []"
  "rfc_b64 [t0] = encode_quad 1 t0 0 0"
  "rfc_b64 [t0, t1] = encode_quad 2 t0 t1 0"
  "rfc_b64 (t0 # t1 # t2 # ts) = encode_quad 3 t0 t1 t2 @ rfc_b64 ts"
proof -
  have z: "byte_bits 0 = replicate 8 False"
    by (simp add: byte_bits_def numeral_eq_Suc)
  have rep: "replicate 4 False = [False, False, False, False]" "replicate 2 False = [False, False]"
    "replicate 2 pad_char = [pad_char, pad_char]"
    by (simp_all add: numeral_eq_Suc)
  have short: "sextets (byte_bits t0) = [take 6 (byte_bits t0), drop 6 (byte_bits t0) @ take 4 (byte_bits 0)]"
    "sextets (byte_bits t0 @ byte_bits t1) = [take 6 (byte_bits t0),
      drop 6 (byte_bits t0) @ take 4 (byte_bits t1), drop 4 (byte_bits t1) @ take 2 (byte_bits 0)]"
    for t0 t1
    by (simp_all add: sextets_def byte_bits_def blocks.simps rep)
  show "rfc_b64 [] = []"
    by (simp add: rfc_b64_def sextets_def blocks_short pad4_def)
  show "rfc_b64 [t0] = encode_quad 1 t0 0 0"
    using encode_tab_idx [of t0 0 0, unfolded idx_simps]
    by (simp add: rfc_b64_def short pad4_def encode_quad_def idx_simps rep)
  show "rfc_b64 [t0, t1] = encode_quad 2 t0 t1 0"
    using encode_tab_idx [of t0 t1 0, unfolded idx_simps]
    by (simp add: rfc_b64_def short pad4_def encode_quad_def idx_simps)
  show "rfc_b64 (t0 # t1 # t2 # ts) = encode_quad 3 t0 t1 t2 @ rfc_b64 ts"
    using encode_tab_idx [of t0 t1 t2, unfolded idx_simps]
    by (simp add: rfc_b64_def sextets_triple encode_quad_def idx_simps pad4_quad)
qed

lemma length_encode_quad [simp]: "length (encode_quad n t0 t1 t2) = 4"
  by (simp add: encode_quad_def)

lemma encode_quad_ne [simp]: "encode_quad n t0 t1 t2 \<noteq> []"
  by (simp add: encode_quad_def)

lemma quads_step [simp]: "(5 + n) div 3 = Suc (Suc (Suc n) div 3)"
proof -
  have "5 + n = 3 + Suc (Suc n)" by simp
  then show ?thesis by simp
qed

lemma length_rfc_b64: "length (rfc_b64 xs) = 4 * ((length xs + 2) div 3)"
  by (induction xs rule: induct_list3) (simp_all add: rfc_b64_simps)

lemma encode_loop_ok:
  "int dn + 4 * int ((length xs + 2) div 3) + 1 < out_size \<Longrightarrow>
     encode_loop xs dn out out_size = (int (dn + length (rfc_b64 xs)), out @ rfc_b64 xs @ [0])"
  by (induction xs dn out out_size rule: encode_loop.induct)
     (simp_all add: rfc_b64_simps length_rfc_b64)

lemma encode_loop_fail:
  "\<not> int dn + 4 * int ((length xs + 2) div 3) + 1 < out_size \<Longrightarrow>
   length out = dn \<Longrightarrow> int dn \<le> max 0 out_size \<Longrightarrow>
     fst (encode_loop xs dn out out_size) = -1 \<and>
     int (length (snd (encode_loop xs dn out out_size))) \<le> max 0 out_size"
  by (induction xs dn out out_size rule: encode_loop.induct) auto

section \<open>What the decoder returns\<close>

lemma decode_tab_eq: "decode_tab =
  [124, 36, 36, 36, 125, 114, 115, 116, 117, 118, 119, 120, 121, 122, 123, 36, 36, 36, 36, 36, 36,
   36, 62, 63, 64, 65, 66, 67, 68, 69, 70, 71, 72, 73, 74, 75, 76, 77, 78, 79, 80, 81, 82, 83, 84,
   85, 86, 87, 36, 36, 36, 36, 36, 36, 88, 89, 90, 91, 92, 93, 94, 95, 96, 97, 98, 99, 100, 101,
   102, 103, 104, 105, 106, 107, 108, 109, 110, 111, 112, 113]"
  by (simp add: decode_tab_def bytes_def)

lemma length_encode_tab [simp]: "length encode_tab = 64"
  by (simp add: encode_tab_eq)

lemma decode_alphabet: "map decode_char encode_tab = map word_of_nat [1..<65]"
  by (simp add: encode_tab_eq decode_char_def decode_tab_eq upt_rec)

lemma decode_encode_char:
  assumes "unat q < 64"
  shows "decode_char (encode_tab ! unat q) = q + 1" "decode_char (encode_tab ! unat q) \<noteq> 0"
proof -
  have "decode_char (encode_tab ! unat q) = word_of_nat (unat q + 1)"
    using arg_cong [OF decode_alphabet, of "\<lambda>xs. xs ! unat q"] assms by simp
  then show e: "decode_char (encode_tab ! unat q) = q + 1" by simp
  have "unat (q + 1) = unat q + 1"
    using assms by (simp add: unat_word_ariths)
  then show "decode_char (encode_tab ! unat q) \<noteq> 0"
    by (auto simp: e)
qed

lemma decode_pad_char: "decode_char pad_char = 0"
  by (simp add: pad_char_def decode_char_def decode_tab_eq)

lemma decode_one_valid:
  "unat q < 64 \<Longrightarrow> decode_one i (encode_tab ! unat q # cs) len quad =
     (if cs \<noteq> [] then (cs, len + 1, quad[i := q]) else ([], len, quad[i := 0]))"
  using decode_encode_char(2) [of q] by (simp add: decode_encode_char(1))

lemma decode_four_Suc:
  "decode_four (Suc k) (c # cs) len quad =
     (case decode_one (3 - k) (c # cs) len quad of (inp', len', quad') \<Rightarrow>
        decode_four k inp' len' quad')"
  by simp

lemma four: "4 = Suc (Suc (Suc (Suc 0)))"
  by simp

lemma decode_four_quad:
  assumes "unat q0 < 64" "unat q1 < 64" "unat q2 < 64" "unat q3 < 64" "length quad = 4"
  shows "cs \<noteq> [] \<Longrightarrow> decode_four 4 (encode_tab ! unat q0 # encode_tab ! unat q1 #
            encode_tab ! unat q2 # encode_tab ! unat q3 # cs) 0 quad = (cs, 4, [q0, q1, q2, q3])"
    and "decode_four 4 [encode_tab ! unat q0, encode_tab ! unat q1, encode_tab ! unat q2,
            encode_tab ! unat q3] 0 quad = ([], 3, [q0, q1, q2, 0])"
    and "decode_four 4 [encode_tab ! unat q0, encode_tab ! unat q1, encode_tab ! unat q2,
            pad_char] 0 quad = ([], 3, [q0, q1, q2, 0])"
    and "decode_four 4 [encode_tab ! unat q0, encode_tab ! unat q1, pad_char, pad_char] 0 quad =
            ([], 3, [q0, q1, 0, quad ! 3])"
proof -
  obtain a b c d where "quad = [a, b, c, d]"
    using assms(5) by (auto simp: numeral_eq_Suc length_Suc_conv)
  with assms show "cs \<noteq> [] \<Longrightarrow> decode_four 4 (encode_tab ! unat q0 # encode_tab ! unat q1 #
            encode_tab ! unat q2 # encode_tab ! unat q3 # cs) 0 quad = (cs, 4, [q0, q1, q2, q3])"
    and "decode_four 4 [encode_tab ! unat q0, encode_tab ! unat q1, encode_tab ! unat q2,
            encode_tab ! unat q3] 0 quad = ([], 3, [q0, q1, q2, 0])"
    and "decode_four 4 [encode_tab ! unat q0, encode_tab ! unat q1, encode_tab ! unat q2,
            pad_char] 0 quad = ([], 3, [q0, q1, q2, 0])"
    and "decode_four 4 [encode_tab ! unat q0, encode_tab ! unat q1, pad_char, pad_char] 0 quad =
            ([], 3, [q0, q1, 0, quad ! 3])"
    by (simp_all add: four decode_four_Suc decode_one_valid decode_pad_char
             del: decode_one.simps(2) decode_four.simps(2))
       (simp_all add: decode_pad_char)
qed

lemma decode_out_triple:
  "decode_out 4 [idx 0 t0 t1 t2, idx 1 t0 t1 t2, idx 2 t0 t1 t2, idx 3 t0 t1 t2] = [t0, t1, t2]"
  "decode_out 3 [idx 0 t0 t1 t2, idx 1 t0 t1 t2, idx 2 t0 t1 t2, x] = [t0, t1]"
  "decode_out 3 [idx 0 t0 t1 t2, idx 1 t0 t1 t2, 0, x] = [t0, push_bit 4 (idx 1 t0 t1 t2)]"
proof -
  have "push_bit 2 (idx 0 t0 t1 t2) OR drop_bit 4 (idx 1 t0 t1 t2) = t0"
    "push_bit 4 (idx 1 t0 t1 t2) OR drop_bit 2 (idx 2 t0 t1 t2) = t1"
    "(push_bit 6 (idx 2 t0 t1 t2) AND 0xc0) OR idx 3 t0 t1 t2 = t2"
    unfolding idx_simps by (rule byte_bits_eqI; simp add: bit_simps; fail)+
  then show
    "decode_out 4 [idx 0 t0 t1 t2, idx 1 t0 t1 t2, idx 2 t0 t1 t2, idx 3 t0 t1 t2] = [t0, t1, t2]"
    "decode_out 3 [idx 0 t0 t1 t2, idx 1 t0 t1 t2, idx 2 t0 t1 t2, x] = [t0, t1]"
    "decode_out 3 [idx 0 t0 t1 t2, idx 1 t0 t1 t2, 0, x] = [t0, push_bit 4 (idx 1 t0 t1 t2)]"
    by (simp_all add: decode_out_def)
qed

lemma encode_quad_idx:
  "encode_quad 1 t0 0 0 = [encode_tab ! unat (idx 0 t0 0 0), encode_tab ! unat (idx 1 t0 0 0),
     pad_char, pad_char]"
  "encode_quad 2 t0 t1 0 = [encode_tab ! unat (idx 0 t0 t1 0), encode_tab ! unat (idx 1 t0 t1 0),
     encode_tab ! unat (idx 2 t0 t1 0), pad_char]"
  "encode_quad 3 t0 t1 t2 = [encode_tab ! unat (idx 0 t0 t1 t2), encode_tab ! unat (idx 1 t0 t1 t2),
     encode_tab ! unat (idx 2 t0 t1 t2), encode_tab ! unat (idx 3 t0 t1 t2)]"
  unfolding idx_simps encode_quad_def by simp_all

text \<open>
  The decoder does not count the last character of the string (the test \<open>if (*in)\<close> looks
  past it), so a group of four characters without padding at the very end yields two bytes, and
  it counts the first of two pad characters, so such an end yields two bytes as well.
\<close>

definition decoded :: "byte list \<Rightarrow> byte list" where
  "decoded xs = (if length xs mod 3 = 0 then butlast xs
                 else if length xs mod 3 = 1 then xs @ [0] else xs)"

lemma decoded_triple: "xs \<noteq> [] \<Longrightarrow> decoded (a # b # c # xs) = a # b # c # decoded xs"
  by (simp add: decoded_def)

lemma rfc_b64_Nil_iff [simp]: "rfc_b64 xs = [] \<longleftrightarrow> xs = []"
  using length_rfc_b64 [of xs] by (cases xs) (auto simp: rfc_b64_simps)

lemma decode_loop_last:
  assumes "decode_four 4 inp 0 quad = ([], len, quad')" "inp \<noteq> []" "0 < len"
    "int dn + int len < out_size"
  shows "decode_loop inp dn quad out out_size =
    (int (dn + len - 1), out @ decode_out len quad' @ [0])"
  using assms by (simp add: decode_loop.simps [of inp] decode_loop.simps [of "[]"])

lemma decode_loop_more:
  assumes "decode_four 4 inp 0 quad = (inp', 4, quad')" "inp \<noteq> []" "int dn + 3 \<le> out_size"
  shows "decode_loop inp dn quad out out_size =
    decode_loop inp' (dn + 3) quad' (out @ decode_out 4 quad') out_size"
  using assms by (simp add: decode_loop.simps [of inp] add.commute)

lemma decode_four_encode_quad:
  assumes "length quad = 4"
  shows "cs \<noteq> [] \<Longrightarrow> decode_four 4 (encode_quad 3 a b c @ cs) 0 quad =
           (cs, 4, [idx 0 a b c, idx 1 a b c, idx 2 a b c, idx 3 a b c])"
    and "decode_four 4 (encode_quad 3 a b c) 0 quad =
           ([], 3, [idx 0 a b c, idx 1 a b c, idx 2 a b c, 0])"
    and "decode_four 4 (encode_quad 2 a b 0) 0 quad =
           ([], 3, [idx 0 a b 0, idx 1 a b 0, idx 2 a b 0, 0])"
    and "decode_four 4 (encode_quad 1 a 0 0) 0 quad =
           ([], 3, [idx 0 a 0 0, idx 1 a 0 0, 0, quad ! 3])"
  using assms decode_four_quad [OF unat_idx_less [of a b c]] decode_four_quad [OF unat_idx_less [of a b 0]]
    decode_four_quad [OF unat_idx_less [of a 0 0]]
  unfolding encode_quad_idx by (simp_all del: One_nat_def)

lemma decode_loop_rfc_b64:
  assumes "length quad = 4" "int dn + int (length (decoded xs)) + 1 < out_size"
  shows "decode_loop (rfc_b64 xs) dn quad out out_size =
    (int (dn + length (decoded xs)), out @ decoded xs @ [0])"
  using assms
proof (induction xs arbitrary: quad dn out rule: induct_list3)
  case Nil
  then show ?case by (simp add: rfc_b64_simps decoded_def decode_loop.simps)
next
  case (one a)
  have "push_bit 4 (idx 1 a 0 0) = 0"
    unfolding idx_simps by (rule byte_bits_eqI; simp add: bit_simps; fail)
  with one decode_loop_last [OF decode_four_encode_quad(4) [of quad a]] show ?case
    by (simp add: rfc_b64_simps decoded_def decode_out_triple del: One_nat_def)
next
  case (two a b)
  with decode_loop_last [OF decode_four_encode_quad(3) [of quad a b]] show ?case
    by (simp add: rfc_b64_simps decoded_def decode_out_triple del: One_nat_def)
next
  case (three a b c xs)
  show ?case
  proof (cases "xs = []")
    case True
    with three.prems decode_loop_last [OF decode_four_encode_quad(2) [of quad a b c]] show ?thesis
      by (simp add: rfc_b64_simps decoded_def decode_out_triple del: One_nat_def)
  next
    case False
    with three decode_loop_more [OF decode_four_encode_quad(1) [of quad "rfc_b64 xs" a b c]]
    show ?thesis
      by (simp add: rfc_b64_simps decoded_triple decode_out_triple del: One_nat_def)
  qed
qed

section \<open>The decoder stays inside the caller's buffer\<close>

lemma length_decode_out: "length (decode_out len quad) \<le> len - 1"
  by (auto simp: decode_out_def)

lemma decode_loop_bound:
  "length out \<le> dn \<Longrightarrow> int dn \<le> max 0 out_size \<Longrightarrow>
     int (length (snd (decode_loop inp dn quad out out_size))) \<le> max 0 out_size"
proof (induction inp dn quad out out_size rule: decode_loop.induct)
  case (1 inp dn quad out out_size)
  obtain inp' len quad' where r: "decode_four 4 inp 0 quad = (inp', len, quad')"
    by (rule prod_cases3)
  show ?case
  proof (cases "inp = [] \<or> len = 0 \<or> out_size < int dn + int len - 1")
    case True
    with 1 r show ?thesis
      by (auto simp: decode_loop.simps [of inp])
  next
    case False
    have "length (out @ decode_out len quad') \<le> dn + len - 1"
      using "1.prems"(1) length_decode_out [of len quad'] False by (cases len) auto
    with 1(2) [OF _ r [symmetric] refl] False r show ?thesis
      by (simp add: decode_loop.simps [of inp])
  qed
qed

section \<open>Properties\<close>

text \<open>
  The encoder is the Base 64 encoding of RFC 4648, and its buffer condition is exact: with
  room for the characters and two more bytes it returns their number and writes them with a NUL,
  with less room it returns -1; it never writes past the buffer.
\<close>

theorem b64_encode_is_rfc4648:
  "(if int (length (rfc_b64 d)) + 1 < out_size
    then lws_b64_encode_string d out_size = (int (length (rfc_b64 d)), rfc_b64 d @ [0])
    else fst (lws_b64_encode_string d out_size) = -1) \<and>
   int (length (snd (lws_b64_encode_string d out_size))) \<le> max 0 out_size"
  using encode_loop_ok [of 0 d out_size "[]"] encode_loop_fail [of 0 d out_size "[]"]
  by (auto simp: lws_b64_encode_string_def length_rfc_b64)

lemma decode_encoded:
  assumes "length quad = 4" "int (length d) + 2 < out_size"
  shows "lws_b64_decode_string quad (rfc_b64 d) out_size =
     (let r = (if length d mod 3 = 0 then butlast d else if length d mod 3 = 1 then d @ [0] else d)
      in (int (length r), r @ [0]))"
proof -
  have "length (decoded d) \<le> length d + 1" unfolding decoded_def by (auto intro: le_SucI diff_le_self)
  then have "int (length (decoded d)) + 1 < out_size" using assms(2) by linarith
  then show ?thesis
    using decode_loop_rfc_b64 [of quad 0 d out_size "[]"] assms(1)
    by (simp add: lws_b64_decode_string_def decoded_def Let_def)
qed

text \<open>
  C25. What the decoder makes of an encoding, for every byte string and whatever the uninitialised
  \<open>quad\<close> holds: it gives the string back only when its length is 2 modulo 3; it loses the last
  byte of a string whose length is a multiple of 3 and adds a NUL byte to one whose length is 1
  modulo 3.
\<close>

theorem b64_decode_of_encode:
  assumes "length quad = 4" "int (length d) + 2 < out_size"
  shows "lws_b64_decode_string quad (rfc_b64 d) out_size =
     (let r = (if length d mod 3 = 0 then butlast d else if length d mod 3 = 1 then d @ [0] else d)
      in (int (length r), r @ [0]))"
  using assms by (rule decode_encoded)

theorem b64_decode_of_encode_witness:
  "lws_b64_decode_string [0, 0, 0, 0] (rfc_b64 [0x61, 0x62, 0x63]) 64 = (2, [0x61, 0x62, 0])"
  using b64_decode_of_encode [of "[0, 0, 0, 0]" "[0x61, 0x62, 0x63]" 64] by simp

text \<open>
  The decoder stays inside its buffer on every input, well-formed or not.
\<close>

theorem b64_decode_in_bounds:
  "int (length (snd (lws_b64_decode_string quad inp out_size))) \<le> max 0 out_size"
  unfolding lws_b64_decode_string_def by (rule decode_loop_bound) simp_all

end
