(* ===== verification/Lextable.thy ===== *)
theory Lextable
  imports Lws_Prelude "HOL-Library.Sublist"
begin

text \<open>
  The lexer of header names: the generated table \<^verbatim>\<open>lib/lextable.h\<close>, the strings it was generated
  from, \<^verbatim>\<open>lib/lextable-strings.h\<close>, and the decoder \<open>lextable_decode\<close> of \<^verbatim>\<open>lib/parsers.c\<close> that
  walks the table one character at a time. The result is that the walk recognises exactly the
  strings of the list, case-insensitively, with their own index, and never leaves the table.
\<close>

section \<open>The table and the strings\<close>

text \<open>
  A value is an \<^verbatim>\<open>unsigned char\<close>, written as a number below 256. The table is given in the
  pieces of 150 lines of the header file.
\<close>

definition lextable_1 :: "nat list" where
  "lextable_1 = [
   103, 61, 0, 112, 63, 0, 111, 72, 0, 104, 84, 0, 99, 93, 0, 117, 120, 0, 115, 139, 0, 13, 196,
   0, 97, 22, 1, 105, 85, 1, 100, 254, 1, 114, 1, 2, 58, 50, 2, 101, 195, 2, 102, 223, 2, 108, 1,
   3, 109, 36, 3, 116, 141, 3, 118, 168, 3, 119, 181, 3, 8, 229, 244, 160, 0, 0, 111, 7, 0, 114,
   125, 1, 8, 243, 244, 160, 0, 1, 112, 7, 0, 114, 69, 0, 8, 244, 233, 239, 238, 243, 160, 0, 2,
   111, 7, 0, 116, 179, 0, 8, 243, 244, 186, 0, 3, 111, 7, 0, 97, 99, 1, 8, 110, 7, 0, 111, 120,
   1, 8, 110, 7, 0, 116, 119, 1, 8, 229, 227, 244, 233, 239, 238, 186, 0, 4, 112, 7, 0, 115, 73,
   3, 8, 231, 242, 225, 228, 229, 186, 0, 5, 233, 231, 233, 238, 186, 0, 6, 101, 7, 0, 116, 6, 3,
   8, 99, 10, 0, 114, 239, 2, 116, 242, 2, 8, 173, 247, 229, 226, 243, 239, 227, 235, 229, 244,
   173, 100, 25, 0, 101, 32, 0, 107, 41, 0, 112, 56, 0, 97, 63, 0, 110, 68, 0, 118, 122, 1, 111,
   128, 1, 8, 242, 225, 230, 244, 186, 0, 7, 138, 0, 8, 248, 244, 229, 238, 243, 233, 239, 238,
   243, 186, 0, 9, 229, 249, 49, 10, 0, 50, 10, 0, 58, 83, 1, 8, 186, 0, 10, 186, 0, 11, 242,
   239, 244, 239, 227, 239, 236, 186, 0, 12, 227, 227, 229]"

definition lextable_2 :: "nat list" where
  "lextable_2 = [
   240, 244, 186, 0, 13, 239, 238, 227, 229, 186, 0, 14, 244, 240, 47, 7, 0, 50, 10, 0, 8, 177,
   174, 177, 160, 0, 15, 173, 243, 229, 244, 244, 233, 238, 231, 243, 186, 0, 16, 99, 13, 0, 117,
   172, 0, 103, 124, 1, 108, 125, 1, 8, 227, 229, 112, 7, 0, 115, 14, 0, 8, 244, 58, 7, 0, 45,
   89, 0, 8, 0, 17, 243, 173, 227, 239, 238, 244, 242, 239, 236, 173, 114, 7, 0, 97, 71, 1, 8,
   229, 241, 245, 229, 243, 244, 173, 232, 229, 225, 228, 229, 242, 243, 186, 0, 18, 230, 173,
   109, 13, 0, 110, 32, 0, 114, 157, 1, 117, 161, 1, 8, 111, 7, 0, 97, 141, 1, 8, 228, 233, 230,
   233, 229, 228, 173, 243, 233, 238, 227, 229, 186, 0, 19, 239, 238, 229, 173, 237, 225, 244,
   227, 232, 186, 0, 20, 101, 13, 0, 108, 20, 0, 99, 234, 0, 114, 240, 0, 8, 238, 227, 239, 228,
   233, 238, 231, 186, 0, 21, 225, 238, 231, 245, 225, 231, 229, 186, 0, 22, 97, 7, 0, 111, 157,
   1, 8, 231, 237, 225, 186, 0, 23, 227, 232, 229, 173, 227, 239, 238, 244, 242]"

definition lextable_3 :: "nat list" where
  "lextable_3 = [
   239, 236, 186, 0, 24, 244, 232, 239, 242, 233, 250, 225, 244, 233, 239, 238, 186, 0, 25, 235,
   233, 229, 186, 0, 26, 229, 238, 244, 173, 108, 16, 0, 116, 30, 0, 100, 191, 0, 101, 201, 0,
   114, 226, 0, 8, 101, 10, 0, 97, 201, 0, 111, 207, 0, 8, 238, 231, 244, 232, 186, 0, 27, 249,
   240, 229, 186, 0, 28, 225, 244, 229, 186, 0, 29, 97, 7, 0, 101, 10, 0, 8, 238, 231, 229, 186,
   0, 30, 102, 7, 0, 116, 89, 1, 8, 101, 7, 0, 114, 76, 1, 8, 242, 229, 242, 186, 0, 31, 0, 32,
   229, 242, 243, 233, 239, 238, 186, 0, 33, 242, 233, 231, 233, 238, 186, 0, 34, 97, 13, 0, 109,
   21, 0, 112, 26, 0, 115, 29, 0, 8, 245, 244, 232, 239, 242, 233, 244, 249, 186, 0, 35, 229,
   244, 232, 239, 228, 186, 0, 36, 225, 244, 232, 186, 0, 37, 99, 7, 0, 116, 11, 0, 8, 232, 229,
   237, 229, 186, 0, 38, 225, 244, 245, 243, 186, 0, 39, 232, 225, 242, 243, 229, 244, 186, 0,
   40, 225, 238, 231, 229, 243, 186, 0, 41, 236, 236, 239, 247, 173, 239]"

definition lextable_4 :: "nat list" where
  "lextable_4 = [
   242, 233, 231, 233, 238, 186, 0, 42, 229, 186, 0, 43, 236, 239, 247, 186, 0, 44, 233, 243,
   240, 239, 243, 233, 244, 233, 239, 238, 186, 0, 45, 238, 227, 239, 228, 233, 238, 231, 186, 0,
   46, 238, 231, 245, 225, 231, 229, 186, 0, 47, 227, 225, 244, 233, 239, 238, 186, 0, 48, 225,
   238, 231, 229, 186, 0, 49, 116, 7, 0, 120, 9, 0, 8, 225, 231, 186, 0, 50, 240, 101, 7, 0, 105,
   9, 0, 8, 227, 244, 186, 0, 51, 242, 229, 243, 186, 0, 52, 242, 239, 237, 186, 0, 53, 244, 227,
   232, 186, 0, 54, 225, 238, 231, 229, 186, 0, 55, 238, 237, 239, 228, 233, 230, 233, 229, 228,
   173, 243, 233, 238, 227, 229, 186, 0, 56, 97, 10, 0, 105, 21, 0, 111, 23, 0, 8, 243, 244, 173,
   237, 239, 228, 233, 230, 233, 229, 228, 186, 0, 57, 238, 235, 186, 0, 58, 227, 225, 244, 233,
   239, 238, 186, 0, 59, 225, 248, 173, 230, 239, 242, 247, 225, 242, 228]"

definition lextable_5 :: "nat list" where
  "lextable_5 = [
   243, 186, 0, 60, 248, 249, 173, 225, 245, 244, 232, 101, 7, 0, 111, 14, 0, 8, 238, 244, 233,
   227, 225, 244, 229, 186, 0, 61, 242, 233, 250, 225, 244, 233, 239, 238, 186, 0, 62, 229, 243,
   232, 186, 0, 63, 242, 249, 173, 225, 230, 244, 229, 242, 186, 0, 64, 246, 229, 242, 186, 0,
   65, 173, 227, 239, 239, 235, 233, 229, 186, 0, 66, 242, 233, 227, 244, 173, 244, 242, 225,
   238, 243, 240, 239, 242, 244, 173, 243, 229, 227, 245, 242, 233, 244, 249, 186, 0, 67, 242,
   225, 238, 243, 230, 229, 242, 173, 229, 238, 227, 239, 228, 233, 238, 231, 186, 0, 68, 229,
   242, 173, 225, 231, 229, 238, 244, 186, 0, 69, 97, 7, 0, 105, 9, 0, 8, 242, 249, 186, 0, 70,
   225, 186, 0, 71, 247, 247, 173, 225, 245, 244, 232, 229, 238, 244, 233, 227, 225, 244, 229,
   186, 0, 72]"

definition lextable :: "nat list" where
  "lextable = lextable_1 @ lextable_2 @ lextable_3 @ lextable_4 @ lextable_5"

definition lex_strings :: "string list" where
  "lex_strings = [
   ''get '', ''post '', ''options '', ''host:'', ''connection:'', ''upgrade:'', ''origin:'',
   ''sec-websocket-draft:'', [CHR 0x0d, CHR 0x0a], ''sec-websocket-extensions:'',
   ''sec-websocket-key1:'', ''sec-websocket-key2:'', ''sec-websocket-protocol:'',
   ''sec-websocket-accept:'', ''sec-websocket-nonce:'', ''http/1.1 '', ''http2-settings:'',
   ''accept:'', ''access-control-request-headers:'', ''if-modified-since:'', ''if-none-match:'',
   ''accept-encoding:'', ''accept-language:'', ''pragma:'', ''cache-control:'',
   ''authorization:'', ''cookie:'', ''content-length:'', ''content-type:'', ''date:'',
   ''range:'', ''referer:'', ''sec-websocket-key:'', ''sec-websocket-version:'',
   ''sec-websocket-origin:'', '':authority:'', '':method:'', '':path:'', '':scheme:'',
   '':status:'', ''accept-charset:'', ''accept-ranges:'', ''access-control-allow-origin:'',
   ''age:'', ''allow:'', ''content-disposition:'', ''content-encoding:'', ''content-language:'',
   ''content-location:'', ''content-range:'', ''etag:'', ''expect:'', ''expires:'', ''from:'',
   ''if-match:'', ''if-range:'', ''if-unmodified-since:'', ''last-modified:'', ''link:'',
   ''location:'', ''max-forwards:'', ''proxy-authenticate:'', ''proxy-authorization:'',
   ''refresh:'', ''retry-after:'', ''server:'', ''set-cookie:'', ''strict-transport-security:'',
   ''transfer-encoding:'', ''user-agent:'', ''vary:'', ''via:'', ''www-authenticate:'', '''']"

definition FAIL_CHAR :: nat where
  "FAIL_CHAR = 8"

section \<open>The decoder\<close>

text \<open>The C library's \<open>tolower\<close> in the C locale, on character codes.\<close>

definition tolower :: "nat \<Rightarrow> nat" where
  "tolower c = (if 65 \<le> c \<and> c \<le> 90 then c + 32 else c)"

text \<open>
  The \<open>while (1)\<close> of \<open>lextable_decode\<close>, for a table \<open>tab\<close>. \<open>None\<close> is a read past
  the end of the table; otherwise the result is the returned \<^verbatim>\<open>int\<close>.
\<close>

function decode_walk :: "nat list \<Rightarrow> nat \<Rightarrow> nat \<Rightarrow> int option" where
  "decode_walk tab pos c =
     (if length tab \<le> pos then None
      else if bit (tab ! pos) 7 then
        (if tab ! pos AND 0x7f \<noteq> c then Some (-1)
         else if length tab \<le> pos + 1 then None
         else if tab ! (pos + 1) = FAIL_CHAR then Some (-1)
         else Some (int (pos + 1)))
      else if tab ! pos = FAIL_CHAR then Some (-1)
      else if tab ! pos < FAIL_CHAR then Some (int pos)
      else if tab ! pos = c then
        (if length tab \<le> pos + 2 then None
         else Some (int (pos + tab ! (pos + 1) + push_bit 8 (tab ! (pos + 2)))))
      else decode_walk tab (pos + 3) c)"
  by pat_completeness auto
termination
  by (relation "measure (\<lambda>(tab, pos, c). length tab - pos)") auto

declare decode_walk.simps [simp del]

definition lextable_decode :: "nat \<Rightarrow> nat \<Rightarrow> int option" where
  "lextable_decode pos c = decode_walk lextable pos (tolower c)"

section \<open>Reading the table as a trie\<close>

text \<open>
  \<open>alts\<close> reads the alternatives that start at a position of the table (given as the rest of
  the table from there), with \<open>T\<close> reading the places they lead to; \<open>trie_of\<close> follows them
  down to the terminals. Both fail on a malformed table.
\<close>

datatype trie = Term nat | Node "(nat \<times> trie) list"

fun alts :: "(nat list \<Rightarrow> trie option) \<Rightarrow> nat list \<Rightarrow> (nat \<times> trie) list option" where
  "alts T [] = None"
| "alts T (x # r) =
     (if bit x 7 then
        (case r of [] \<Rightarrow> None
         | y # _ \<Rightarrow> if y = FAIL_CHAR then Some []
                     else map_option (\<lambda>t. [(x AND 0x7f, t)]) (T r))
      else if x = FAIL_CHAR then Some []
      else if x < FAIL_CHAR then None
      else case r of
        a # b # r' \<Rightarrow>
          (case T (drop (a + push_bit 8 b) (x # r)) of None \<Rightarrow> None
           | Some t \<Rightarrow> map_option ((#) (x, t)) (alts T r'))
      | _ \<Rightarrow> None)"

fun trie_of :: "nat \<Rightarrow> nat list \<Rightarrow> trie option" where
  "trie_of 0 s = None"
| "trie_of (Suc f) [] = None"
| "trie_of (Suc f) (x # r) =
     (if x < FAIL_CHAR then
        (case r of [] \<Rightarrow> None | y # _ \<Rightarrow> Some (Term (push_bit 8 x OR y)))
      else map_option Node (alts (trie_of f) (x # r)))"

fun trie_words :: "trie \<Rightarrow> (nat list \<times> nat) list" where
  "trie_words (Term n) = [([], n)]"
| "trie_words (Node l) = concat (map (\<lambda>(c, t). map (\<lambda>(w, n). (c # w, n)) (trie_words t)) l)"

fun trie_wf :: "trie \<Rightarrow> bool" where
  "trie_wf (Term n) = True"
| "trie_wf (Node l) = (l \<noteq> [] \<and> distinct (map fst l) \<and> list_all (\<lambda>(c, t). trie_wf t) l)"

subsection \<open>Evaluation of the trie of the table\<close>

text \<open>
  Rules for the simplifier that read the table without rewriting inside it: the congruences keep
  it away from the list, \<open>trie_at\<close> skips forward in it.
\<close>

definition trie_at :: "nat \<Rightarrow> nat \<Rightarrow> nat list \<Rightarrow> trie option" where
  "trie_at f n s = trie_of f (drop n s)"

definition alts_at :: "nat \<Rightarrow> nat list \<Rightarrow> (nat \<times> trie) list option" where
  "alts_at f s = alts (trie_of f) s"

lemma bit7_iff: "x < 256 \<Longrightarrow> bit (x::nat) 7 \<longleftrightarrow> 128 \<le> x"
proof -
  assume "x < 256"
  then have "x div 128 = 0 \<and> x < 128 \<or> x div 128 = 1 \<and> 128 \<le> x" by auto
  then show ?thesis by (auto simp: bit_iff_odd)
qed

lemma and_0x7f: "(x::nat) AND 0x7f = x mod 128"
  using take_bit_eq_mask [of 7 x] by (simp add: take_bit_eq_mod mask_eq_exp_minus_1)

lemma and_0x7f_high: "128 \<le> x \<Longrightarrow> x < 256 \<Longrightarrow> (x::nat) AND 0x7f = x - 128"
  by (simp add: and_0x7f mod_if)

lemma eval_alts:
  "alts_at f (8 # r) = Some []"
  "128 \<le> x \<Longrightarrow> x < 256 \<Longrightarrow> y \<noteq> 8 \<Longrightarrow>
     alts_at f (x # y # r) = map_option (\<lambda>t. [(x - 128, t)]) (trie_of f (y # r))"
  "8 < x \<Longrightarrow> x < 128 \<Longrightarrow>
     alts_at f (x # a # b # r) =
       (case trie_at f (a + 256 * b) (x # a # b # r) of None \<Rightarrow> None
        | Some t \<Rightarrow> map_option ((#) (x, t)) (alts_at f r))"
  by (simp_all add: alts_at_def trie_at_def FAIL_CHAR_def bit7_iff and_0x7f_high push_bit_eq_mult
        mult.commute split: option.split)

lemma eval_trie:
  "trie_of (numeral v) (0 # y # r) = Some (Term y)"
  "8 \<le> x \<Longrightarrow> trie_of (numeral v) (x # r) = map_option Node (alts_at (pred_numeral v) (x # r))"
  by (simp_all add: numeral_eq_Suc alts_at_def FAIL_CHAR_def)

lemma eval_trie_at:
  "trie_at f 0 s = trie_of f s"
  "trie_at f (Suc 0) (x # s) = trie_of f s"
  "numeral v < (16::nat) \<Longrightarrow> trie_at f (numeral v) (x # s) = trie_at f (pred_numeral v) s"
  "16 \<le> n \<Longrightarrow> trie_at f n (x1 # x2 # x3 # x4 # x5 # x6 # x7 # x8 # x9 # x10 # x11 # x12 # x13 #
     x14 # x15 # x16 # s) = trie_at f (n - 16) s"
  by (simp_all add: trie_at_def numeral_eq_Suc drop_Cons')

lemma eval_congs:
  "f = f' \<Longrightarrow> n = n' \<Longrightarrow> trie_at f n s = trie_at f' n' s"
  "f = f' \<Longrightarrow> trie_of f s = trie_of f' s"
  "f = f' \<Longrightarrow> alts_at f s = alts_at f' s"
  by simp_all

text \<open>
  The order in which a walk of the table from left to right meets the strings, and the string of
  each index as character codes.
\<close>

definition lex_order :: "nat list" where
  "lex_order = [
   0, 1, 23, 61, 62, 2, 6, 3, 15, 16, 4, 27, 47, 48, 28, 45, 46, 49, 26, 24, 5, 69, 7,
   9, 10, 11, 32, 12, 13, 14, 33, 34, 65, 66, 67, 8, 17, 21, 22, 40, 41, 18, 42, 25, 43,
   44, 19, 54, 20, 55, 56, 29, 30, 31, 63, 64, 35, 36, 37, 38, 39, 50, 51, 52, 53, 57,
   58, 59, 60, 68, 70, 71, 72]"

definition lex_codes :: "nat \<Rightarrow> nat list" where
  "lex_codes n = map of_char (lex_strings ! n)"

lemma lextable_trie:
  "\<exists>t. trie_of 40 lextable = Some t \<and> trie_wf t \<and>
       trie_words t = map (\<lambda>n. (lex_codes n, n)) lex_order"
  unfolding lextable_def lextable_1_def lextable_2_def lextable_3_def lextable_4_def
    lextable_5_def append_Cons append_Nil
  by (simp add: eval_alts eval_trie eval_trie_at lex_order_def lex_codes_def lex_strings_def
        del: alts.simps trie_of.simps cong: eval_congs)

lemma set_lex_order: "set lex_order = {0..<73}"
proof (rule card_subset_eq)
  show "set lex_order \<subseteq> {0..<73}" by (simp add: lex_order_def)
  have "distinct lex_order" by (simp add: lex_order_def)
  then show "card (set lex_order) = card {0..<(73::nat)}"
    by (simp add: distinct_card) (simp add: lex_order_def)
qed simp

section \<open>Running the lexer\<close>

text \<open>
  What the parser does with the decoder over a header name: decode a character, give up on a
  negative position, stop at a terminal marker with its token number, go on otherwise. \<open>None\<close>
  is again a read outside the table.
\<close>

datatype lex_result = Lex_fail | Lex_hit nat "nat list" | Lex_more

fun lex_run :: "nat \<Rightarrow> nat list \<Rightarrow> lex_result option" where
  "lex_run pos [] = Some Lex_more"
| "lex_run pos (c # cs) =
     (case lextable_decode pos c of
        None \<Rightarrow> None
      | Some p \<Rightarrow>
          if p < 0 then Some Lex_fail
          else if length lextable \<le> nat p then None
          else if lextable ! nat p < FAIL_CHAR then
            (if length lextable \<le> nat p + 1 then None
             else Some (Lex_hit (push_bit 8 (lextable ! nat p) OR lextable ! (nat p + 1)) cs))
          else lex_run (nat p) cs)"

fun trie_run :: "trie \<Rightarrow> nat list \<Rightarrow> lex_result" where
  "trie_run (Term n) cs = Lex_hit n cs"
| "trie_run (Node l) [] = Lex_more"
| "trie_run (Node l) (c # cs) =
     (case map_of l (tolower c) of None \<Rightarrow> Lex_fail | Some t \<Rightarrow> trie_run t cs)"

subsection \<open>The table is its trie\<close>

lemma drop_Cons_iff: "drop pos tab = x # r \<longleftrightarrow> pos < length tab \<and> tab ! pos = x \<and> drop (Suc pos) tab = r"
  by (cases "pos < length tab") (auto simp: Cons_nth_drop_Suc [symmetric])

lemma trie_of_in_range: "trie_of f (drop pos tab) = Some t \<Longrightarrow> pos < length tab"
  by (cases f; cases "drop pos tab") (auto simp: drop_Cons_iff)

text \<open>One decoding step finds the alternative of the character, if there is one.\<close>

lemma decode_walk_alts:
  assumes "alts T (drop pos tab) = Some l"
  shows "case map_of l c of
           None \<Rightarrow> decode_walk tab pos c = Some (-1)
         | Some t \<Rightarrow> \<exists>p. decode_walk tab pos c = Some (int p) \<and> T (drop p tab) = Some t"
  using assms
proof (induction tab pos c arbitrary: l rule: decode_walk.induct)
  case (1 tab pos c)
  show ?case
  proof (cases "drop pos tab")
    case Nil
    with "1.prems" show ?thesis by simp
  next
    case (Cons x r)
    then have pos: "pos < length tab" "tab ! pos = x" and r: "drop (Suc pos) tab = r"
      by (simp_all add: drop_Cons_iff)
    consider (short) "bit x 7" | (fail) "\<not> bit x 7" "x = FAIL_CHAR"
      | (far) "\<not> bit x 7" "FAIL_CHAR < x"
      using "1.prems" Cons by (auto split: if_splits)
    then show ?thesis
    proof cases
      case short
      obtain y r' where r': "r = y # r'" using "1.prems" Cons short by (cases r) auto
      have w: "decode_walk tab pos c =
          (if x AND 0x7f \<noteq> c \<or> y = FAIL_CHAR then Some (-1) else Some (int (Suc pos)))"
        using short pos r r' by (auto simp: decode_walk.simps [of tab pos c] drop_Cons_iff)
      show ?thesis
      proof (cases "y = FAIL_CHAR")
        case True
        with "1.prems" Cons short r' w show ?thesis by simp
      next
        case False
        then obtain t where "T (drop (Suc pos) tab) = Some t" "l = [(x AND 0x7f, t)]"
          using "1.prems" Cons short r r' by auto
        with False w show ?thesis by (cases "x AND 0x7f = c") (auto intro!: exI [of _ "Suc pos"])
      qed
    next
      case fail
      with "1.prems" Cons pos show ?thesis
        by (simp add: decode_walk.simps [of tab pos c])
    next
      case far
      then obtain a b r' t l' where r': "r = a # b # r'"
        and t: "T (drop (a + push_bit 8 b) (x # r)) = Some t"
        and l': "alts T r' = Some l'" "l = (x, t) # l'"
        using "1.prems" Cons by (auto split: list.splits option.splits)
      have q: "pos + 2 < length tab" "tab ! (pos + 1) = a" "tab ! (pos + 2) = b"
        "drop (pos + 3) tab = r'"
        using r r' by (simp_all add: drop_Cons_iff numeral_3_eq_3 numeral_2_eq_2)
      have d: "drop (pos + a + push_bit 8 b) tab = drop (a + push_bit 8 b) (x # r)"
        unfolding Cons [symmetric] by (simp add: ac_simps)
      show ?thesis
      proof (cases "x = c")
        case True
        then have "decode_walk tab pos c = Some (int (pos + a + push_bit 8 b))"
          using far pos q by (simp add: decode_walk.simps [of tab pos c])
        with True l' t d show ?thesis
          by (auto intro!: exI [of _ "pos + a + push_bit 8 b"])
      next
        case False
        with far pos have "decode_walk tab pos c = decode_walk tab (pos + 3) c"
          by (simp add: decode_walk.simps [of tab pos c])
        moreover have "case map_of l' c of
            None \<Rightarrow> decode_walk tab (pos + 3) c = Some (-1)
          | Some t \<Rightarrow> \<exists>p. decode_walk tab (pos + 3) c = Some (int p) \<and> T (drop p tab) = Some t"
          by (rule "1.IH") (use far pos False q l' in auto)
        ultimately show ?thesis using False l' by (cases "map_of l' c") simp_all
      qed
    qed
  qed
qed

lemma lex_run_trie:
  assumes "trie_of f (drop pos lextable) = Some (Node l)"
  shows "lex_run pos cs = Some (trie_run (Node l) cs)"
  using assms
proof (induction cs arbitrary: f pos l)
  case Nil
  show ?case by simp
next
  case (Cons c cs)
  obtain g where g: "f = Suc g" "alts (trie_of g) (drop pos lextable) = Some l"
    using Cons.prems by (cases f; cases "drop pos lextable") (auto split: if_splits list.splits)
  note step = decode_walk_alts [OF g(2), of "tolower c", folded lextable_decode_def]
  show ?case
  proof (cases "map_of l (tolower c)")
    case None
    with step show ?thesis by simp
  next
    case (Some t)
    with step obtain p where p: "lextable_decode pos c = Some (int p)"
      "trie_of g (drop p lextable) = Some t" by auto
    note len = trie_of_in_range [OF p(2)]
    obtain y r where y: "drop p lextable = y # r" "lextable ! p = y" "drop (Suc p) lextable = r"
      using len by (metis Cons_nth_drop_Suc)
    show ?thesis
    proof (cases t)
      case (Term n)
      then have "y < FAIL_CHAR \<and> (\<exists>z r'. r = z # r' \<and> n = push_bit 8 y OR z)"
        using p(2) y by (cases g) (auto split: if_splits list.splits)
      with y len p Some Term show ?thesis
        by (auto simp: drop_Cons_iff)
    next
      case (Node l')
      then have "\<not> y < FAIL_CHAR"
        using p(2) y by (cases g) (auto split: if_splits list.splits)
      with len y p Some Node Cons.IH [of g p l'] show ?thesis by simp
    qed
  qed
qed

subsection \<open>Words of a trie\<close>

lemma map_of_trie_words:
  assumes "distinct (map fst l)"
  shows "(c # w, n) \<in> set (trie_words (Node l)) \<longleftrightarrow>
           (\<exists>t. map_of l c = Some t \<and> (w, n) \<in> set (trie_words t))"
  using assms by (auto simp: map_of_eq_Some_iff image_iff; force)

lemma nil_trie_words: "([], n) \<in> set (trie_words t) \<longleftrightarrow> t = Term n"
  by (cases t) auto

lemma trie_words_ex: "trie_wf t \<Longrightarrow> trie_words t \<noteq> []"
proof (induction t rule: trie_words.induct)
  case (2 l)
  then obtain c t where "(c, t) \<in> set l" "trie_wf t"
    by (cases l) (auto simp: list_all_iff)
  with 2 show ?case by fastforce
qed simp

lemma trie_run_hit:
  assumes "trie_wf t"
  shows "trie_run t cs = Lex_hit n rest \<longleftrightarrow>
           (\<exists>w. cs = w @ rest \<and> (map tolower w, n) \<in> set (trie_words t))"
  using assms
proof (induction t cs rule: trie_run.induct)
  case (3 l c cs)
  have sub: "map_of l (tolower c) = Some t \<Longrightarrow> trie_wf t" for t
    using "3.prems" by (auto simp: list_all_iff dest!: map_of_SomeD)
  have "(\<exists>w. c # cs = w @ rest \<and> (map tolower w, n) \<in> set (trie_words (Node l))) \<longleftrightarrow>
        (\<exists>w. cs = w @ rest \<and> (tolower c # map tolower w, n) \<in> set (trie_words (Node l)))"
    using nil_trie_words [of n "Node l"] by (auto simp: Cons_eq_append_conv simp del: trie_words.simps)
  with 3 sub show ?case
    by (cases "map_of l (tolower c)") (simp_all add: map_of_trie_words del: trie_words.simps)
qed auto

lemma prefix_comparable_Cons:
  assumes "w \<noteq> []"
  shows "prefix w (x # xs) \<or> prefix (x # xs) w \<longleftrightarrow>
           (\<exists>v. w = x # v \<and> (prefix v xs \<or> prefix xs v))"
  using assms by (cases w) auto

lemma trie_run_fail:
  assumes "trie_wf t"
  shows "trie_run t cs = Lex_fail \<longleftrightarrow>
           \<not> (\<exists>w n. (w, n) \<in> set (trie_words t) \<and> (prefix w (map tolower cs) \<or> prefix (map tolower cs) w))"
  using assms
proof (induction t cs rule: trie_run.induct)
  case (2 l)
  then obtain w n where "(w, n) \<in> set (trie_words (Node l))"
    using trie_words_ex [of "Node l"] list.set_sel(1) by (metis surj_pair)
  then show ?case by (auto simp del: trie_words.simps)
next
  case (3 l c cs)
  have sub: "map_of l (tolower c) = Some t \<Longrightarrow> trie_wf t" for t
    using "3.prems" by (auto simp: list_all_iff dest!: map_of_SomeD)
  have "(\<exists>w n. (w, n) \<in> set (trie_words (Node l)) \<and>
          (prefix w (map tolower (c # cs)) \<or> prefix (map tolower (c # cs)) w)) \<longleftrightarrow>
        (\<exists>w n. (tolower c # w, n) \<in> set (trie_words (Node l)) \<and>
          (prefix w (map tolower cs) \<or> prefix (map tolower cs) w))"
    using nil_trie_words [of _ "Node l"] prefix_comparable_Cons [of _ "tolower c" "map tolower cs"]
    unfolding list.map by (metis list.distinct(1) trie.distinct(1))
  with 3 sub show ?case
    by (cases "map_of l (tolower c)") (simp_all add: map_of_trie_words del: trie_words.simps)
qed auto

section \<open>The lexer recognises the strings\<close>

lemma lex_run_lextable:
  "\<exists>t. trie_wf t \<and> set (trie_words t) = (\<lambda>n. (lex_codes n, n)) ` {0..<73} \<and>
       (\<forall>cs. lex_run 0 cs = Some (trie_run t cs))"
proof -
  obtain t where t: "trie_of 40 lextable = Some t" "trie_wf t"
    "trie_words t = map (\<lambda>n. (lex_codes n, n)) lex_order"
    using lextable_trie by auto
  have w: "set (trie_words t) = (\<lambda>n. (lex_codes n, n)) ` {0..<73}"
    by (simp add: t(3) set_lex_order)
  have "\<exists>l. t = Node l"
  proof (cases t)
    case (Term k)
    with w have "card ((\<lambda>n. (lex_codes n, n)) ` {0..<(73::nat)}) = 1" by (simp flip: w)
    moreover have "card ((\<lambda>n. (lex_codes n, n)) ` {0..<(73::nat)}) = 73"
      by (simp add: card_image inj_on_def)
    ultimately show ?thesis by simp
  qed simp
  then have "lex_run 0 cs = Some (trie_run t cs)" for cs
    using lex_run_trie [of 40 0 _ cs] t(1) by auto
  with t(2) w show ?thesis by blast
qed

lemma lex_run_hit:
  "lex_run 0 cs = Some (Lex_hit n rest) \<longleftrightarrow>
     n < 73 \<and> (\<exists>w. cs = w @ rest \<and> map tolower w = lex_codes n)"
proof -
  obtain t where "trie_wf t" "set (trie_words t) = (\<lambda>n. (lex_codes n, n)) ` {0..<73}"
    "\<And>cs. lex_run 0 cs = Some (trie_run t cs)" using lex_run_lextable by blast
  then show ?thesis by (auto simp: trie_run_hit)
qed

lemma lex_run_fail:
  "lex_run 0 cs = Some Lex_fail \<longleftrightarrow>
     (\<forall>n<73. \<not> prefix (lex_codes n) (map tolower cs) \<and> \<not> prefix (map tolower cs) (lex_codes n))"
proof -
  obtain t where "trie_wf t" "set (trie_words t) = (\<lambda>n. (lex_codes n, n)) ` {0..<73}"
    "\<And>cs. lex_run 0 cs = Some (trie_run t cs)" using lex_run_lextable by blast
  then show ?thesis by (auto simp: trie_run_fail image_iff)
qed

lemma lex_run_total: "lex_run 0 cs \<noteq> None"
proof -
  obtain t where "\<And>cs. lex_run 0 cs = Some (trie_run t cs)" using lex_run_lextable by blast
  then show ?thesis by simp
qed

text \<open>
  The positions a walk from the start of the table can be at, and one step from such a position:
  the invariant of a parser that keeps a position between characters.
\<close>

definition lex_pos_ok :: "nat \<Rightarrow> bool" where
  "lex_pos_ok p \<longleftrightarrow> (\<exists>f l. trie_of f (drop p lextable) = Some (Node l) \<and>
     snd ` set (trie_words (Node l)) \<subseteq> {0..<73})"

lemma lex_pos_ok_start: "lex_pos_ok 0"
proof -
  obtain t where t: "trie_of 40 lextable = Some t"
    "trie_words t = map (\<lambda>n. (lex_codes n, n)) lex_order"
    using lextable_trie by auto
  moreover from t have "\<exists>l. t = Node l"
    by (cases t) (auto simp: lex_order_def)
  ultimately show ?thesis
    by (auto simp: lex_pos_ok_def set_lex_order image_image simp del: trie_words.simps
        intro!: exI [of _ 40])
qed

lemma lextable_decode_ok:
  assumes "lex_pos_ok pos"
  shows "\<exists>q. lextable_decode pos c = Some q \<and>
           (q < 0 \<or> nat q < length lextable \<and>
              (if lextable ! nat q < FAIL_CHAR
               then nat q + 1 < length lextable \<and>
                    push_bit 8 (lextable ! nat q) OR lextable ! (nat q + 1) < 73
               else lex_pos_ok (nat q)))"
proof -
  obtain f l where f: "trie_of f (drop pos lextable) = Some (Node l)"
    and l: "snd ` set (trie_words (Node l)) \<subseteq> {0..<73}"
    using assms by (auto simp: lex_pos_ok_def)
  then obtain g where g: "f = Suc g" "alts (trie_of g) (drop pos lextable) = Some l"
    by (cases f; cases "drop pos lextable") (auto split: if_splits list.splits)
  note step = decode_walk_alts [OF g(2), of "tolower c", folded lextable_decode_def]
  show ?thesis
  proof (cases "map_of l (tolower c)")
    case None
    with step show ?thesis by simp
  next
    case (Some t)
    with step obtain p where p: "lextable_decode pos c = Some (int p)"
      "trie_of g (drop p lextable) = Some t" by auto
    have w: "snd ` set (trie_words t) \<subseteq> {0..<73}"
      using l map_of_SomeD [OF Some] by fastforce
    note len = trie_of_in_range [OF p(2)]
    obtain y r where y: "drop p lextable = y # r" "lextable ! p = y" "drop (Suc p) lextable = r"
      using len by (metis Cons_nth_drop_Suc)
    show ?thesis
    proof (cases t)
      case (Term n)
      then have "y < FAIL_CHAR \<and> (\<exists>z r'. r = z # r' \<and> n = push_bit 8 y OR z)"
        using p(2) y by (cases g) (auto split: if_splits list.splits)
      with y len p Term w show ?thesis by (auto simp: drop_Cons_iff)
    next
      case (Node l')
      then have "\<not> y < FAIL_CHAR"
        using p(2) y by (cases g) (auto split: if_splits list.splits)
      with len y p Node w show ?thesis
        by (auto simp: lex_pos_ok_def simp del: trie_words.simps)
    qed
  qed
qed

section \<open>Properties\<close>

text \<open>
  C26. The lexer of header names, run over the generated table, recognises exactly the strings of
  \<^verbatim>\<open>lextable-strings.h\<close>, whatever the case of the input, each with its own index: it stops with
  token \<open>n\<close> and \<open>rest\<close> left over if and only if the input is the \<open>n\<close>-th string followed by
  \<open>rest\<close>; it gives up if and only if no string is a prefix of the input and the input is no prefix
  of a string.
\<close>

theorem lexer_recognises_strings:
  "(lex_run 0 cs = Some (Lex_hit n rest) \<longleftrightarrow>
     n < 73 \<and> (\<exists>w. cs = w @ rest \<and> map tolower w = map of_char (lex_strings ! n))) \<and>
   (lex_run 0 cs = Some Lex_fail \<longleftrightarrow>
     \<not> (\<exists>n. n < 73 \<and> (prefix (map of_char (lex_strings ! n)) (map tolower cs) \<or>
                        prefix (map tolower cs) (map of_char (lex_strings ! n)))))"
  using lex_run_hit [of cs n rest] lex_run_fail [of cs] by (auto simp: lex_codes_def)

text \<open>
  From every position a walk of the table can be at, decoding any character stays inside the
  table: it ends with a failure, with a terminal marker whose two bytes are in the table and
  name one of the 73 tokens, or at another such position.
\<close>

theorem lextable_walk_in_bounds:
  "lex_pos_ok 0 \<and> (lex_pos_ok pos \<longrightarrow>
     (\<exists>q. lextable_decode pos c = Some q \<and>
        (q < 0 \<or> nat q < length lextable \<and>
           (if lextable ! nat q < FAIL_CHAR
            then nat q + 1 < length lextable \<and>
                 push_bit 8 (lextable ! nat q) OR lextable ! (nat q + 1) < 73
            else lex_pos_ok (nat q)))))"
  using lex_pos_ok_start lextable_decode_ok by blast

theorem lextable_walk_in_bounds_witness:
  "\<exists>q. lextable_decode 0 103 = Some q"
  using lextable_walk_in_bounds [of 0 103] by blast

end
