(* ===== verification/Headers.thy ===== *)
theory Headers
  imports Lextable
begin

text \<open>
  The HTTP header parser of \<^verbatim>\<open>lib/parsers.c\<close>: the header store \<open>allocated_headers\<close> with its
  fragments, the accessors \<open>lws_hdr_*\<close>, and \<open>libwebsocket_parse\<close>, which takes the request one
  byte at a time, unescapes and normalises the URI, and files every known header. An access
  outside an array of the store is the error \<open>Overrun\<close> of the model, a \<^verbatim>\<open>return -1\<close> is \<open>Reject\<close>.
\<close>

section \<open>The header store\<close>

text \<open>
  Numbers are those of \<^verbatim>\<open>enum lws_token_indexes\<close>: \<open>n < WSI_TOKEN_COUNT\<close> is a header (or a URI
  method, \<open>WSI_TOKEN_GET_URI = 0\<close> and so on), the ones above are the other parser states.
\<close>

abbreviation (input) WSI_TOKEN_GET_URI :: nat where "WSI_TOKEN_GET_URI \<equiv> 0"
abbreviation (input) WSI_TOKEN_POST_URI :: nat where "WSI_TOKEN_POST_URI \<equiv> 1"
abbreviation (input) WSI_TOKEN_OPTIONS_URI :: nat where "WSI_TOKEN_OPTIONS_URI \<equiv> 2"
abbreviation (input) WSI_TOKEN_HOST :: nat where "WSI_TOKEN_HOST \<equiv> 3"
abbreviation (input) WSI_TOKEN_CONNECTION :: nat where "WSI_TOKEN_CONNECTION \<equiv> 4"
abbreviation (input) WSI_TOKEN_UPGRADE :: nat where "WSI_TOKEN_UPGRADE \<equiv> 5"
abbreviation (input) WSI_TOKEN_ORIGIN :: nat where "WSI_TOKEN_ORIGIN \<equiv> 6"
abbreviation (input) WSI_TOKEN_CHALLENGE :: nat where "WSI_TOKEN_CHALLENGE \<equiv> 8"
abbreviation (input) WSI_TOKEN_HTTP :: nat where "WSI_TOKEN_HTTP \<equiv> 15"
abbreviation (input) WSI_TOKEN_KEY :: nat where "WSI_TOKEN_KEY \<equiv> 32"
abbreviation (input) WSI_TOKEN_VERSION :: nat where "WSI_TOKEN_VERSION \<equiv> 33"
abbreviation (input) WSI_TOKEN_SWORIGIN :: nat where "WSI_TOKEN_SWORIGIN \<equiv> 34"
abbreviation (input) WSI_TOKEN_HTTP_URI_ARGS :: nat where "WSI_TOKEN_HTTP_URI_ARGS \<equiv> 73"
abbreviation (input) WSI_TOKEN_COUNT :: nat where "WSI_TOKEN_COUNT \<equiv> 79"
abbreviation (input) WSI_TOKEN_NAME_PART :: nat where "WSI_TOKEN_NAME_PART \<equiv> 80"
abbreviation (input) WSI_TOKEN_SKIPPING :: nat where "WSI_TOKEN_SKIPPING \<equiv> 81"
abbreviation (input) WSI_TOKEN_SKIPPING_SAW_CR :: nat where "WSI_TOKEN_SKIPPING_SAW_CR \<equiv> 82"
abbreviation (input) WSI_PARSING_COMPLETE :: nat where "WSI_PARSING_COMPLETE \<equiv> 83"
abbreviation (input) LWS_MAX_HEADER_LEN :: nat where "LWS_MAX_HEADER_LEN \<equiv> 1024"
abbreviation (input) FRAGS :: nat where "FRAGS \<equiv> 158" \<comment> \<open>\<^verbatim>\<open>WSI_TOKEN_COUNT * 2\<close>\<close>

datatype parse_error = Reject | Overrun

record lws_fragments =
  frag_offset :: nat
  frag_len :: nat
  next_frag :: nat

record allocated_headers =
  ah_next_frag_index :: nat
  ah_pos :: nat
  ah_frag_index :: "nat list"
  ah_frags :: "lws_fragments list"
  ah_data :: "byte list"

datatype uri_path_states = URIPS_IDLE | URIPS_SEEN_SLASH | URIPS_SEEN_SLASH_DOT
  | URIPS_SEEN_SLASH_DOT_DOT | URIPS_ARGUMENTS

datatype uri_esc_states = URIES_IDLE | URIES_SEEN_PERCENT | URIES_SEEN_PERCENT_H1

text \<open>The members of \<^verbatim>\<open>struct libwebsocket\<close> the header parser works on.\<close>

record hdr_wsi =
  hdr_ah :: allocated_headers
  lextable_pos :: int
  current_token_limit :: nat
  parser_state :: nat
  ups :: uri_path_states
  ues :: uri_esc_states
  esc_stash :: byte
  ietf_spec_revision :: byte
  hdr_parsing_completed :: bool

text \<open>
  \<open>lws_allocate_header_table\<close>: the fragments and the data are what \<open>malloc\<close> returned; only the
  index and the two counters are cleared. \<open>None\<close> for the memory is a failed \<open>malloc\<close>.
\<close>

definition lws_allocate_header_table ::
    "allocated_headers option \<Rightarrow> hdr_wsi \<Rightarrow> parse_error + hdr_wsi" where
  "lws_allocate_header_table mem w =
     (case mem of None \<Rightarrow> Inl Reject
      | Some a \<Rightarrow> Inr (w\<lparr>hdr_ah := a\<lparr>ah_frag_index := replicate WSI_TOKEN_COUNT 0,
                                     ah_next_frag_index := 0, ah_pos := 0\<rparr>\<rparr>))"

text \<open>
  The fragments visited by the loops that follow \<open>next_frag_index\<close> from \<open>n\<close>, in order. A list of
  \<open>k\<close> fragments without a cycle is walked in \<open>k\<close> steps; \<open>None\<close> is a walk that is longer, or that
  leaves the array.
\<close>

fun frag_chain :: "nat \<Rightarrow> lws_fragments list \<Rightarrow> nat \<Rightarrow> nat list option" where
  "frag_chain 0 fs n = None"
| "frag_chain (Suc k) fs n =
     (if length fs \<le> n then None
      else if next_frag (fs ! n) = 0 then Some [n]
      else map_option ((#) n) (frag_chain k fs (next_frag (fs ! n))))"

definition lws_hdr_total_length :: "allocated_headers \<Rightarrow> nat \<Rightarrow> nat option" where
  "lws_hdr_total_length a h =
     (let n = ah_frag_index a ! h
      in if n = 0 then Some 0
         else map_option (\<lambda>l. sum_list (map (\<lambda>i. frag_len (ah_frags a ! i)) l))
                (frag_chain FRAGS (ah_frags a) n))"

text \<open>
  A C string in a buffer: the bytes up to the NUL at or after an offset; \<open>None\<close> when there is
  none before the end of the buffer.
\<close>

definition c_string :: "byte list \<Rightarrow> nat \<Rightarrow> byte list option" where
  "c_string d off =
     (if 0 \<in> set (drop off d) then Some (takeWhile (\<lambda>b. b \<noteq> 0) (drop off d)) else None)"

text \<open>
  \<open>strcpy\<close> of every fragment of the chain to \<open>dest\<close>, which advances by the recorded lengths.
  \<open>dest\<close> is the caller's buffer from its current place; writing past it is \<open>Overrun\<close>.
\<close>

definition strcpy :: "byte list \<Rightarrow> nat \<Rightarrow> byte list \<Rightarrow> byte list option" where
  "strcpy dest d s = (if length dest < d + length s + 1 then None
                      else Some (take d dest @ s @ [0] @ drop (d + length s + 1) dest))"

fun hdr_copy_loop :: "allocated_headers \<Rightarrow> nat list \<Rightarrow> byte list \<Rightarrow> nat \<Rightarrow> byte list option" where
  "hdr_copy_loop a [] dest d = Some dest"
| "hdr_copy_loop a (n # ns) dest d =
     (case c_string (ah_data a) (frag_offset (ah_frags a ! n)) of None \<Rightarrow> None
      | Some s \<Rightarrow>
          (case strcpy dest d s of None \<Rightarrow> None
           | Some dest' \<Rightarrow> hdr_copy_loop a ns dest' (d + frag_len (ah_frags a ! n))))"

definition lws_hdr_copy :: "allocated_headers \<Rightarrow> byte list \<Rightarrow> nat \<Rightarrow> parse_error + (nat \<times> byte list)" where
  "lws_hdr_copy a dest h =
     (case lws_hdr_total_length a h of None \<Rightarrow> Inl Overrun
      | Some toklen \<Rightarrow>
          if length dest \<le> toklen then Inl Reject
          else if ah_frag_index a ! h = 0 then Inr (0, dest)
          else case frag_chain FRAGS (ah_frags a) (ah_frag_index a ! h) of None \<Rightarrow> Inl Overrun
               | Some l \<Rightarrow> (case hdr_copy_loop a l dest 0 of None \<Rightarrow> Inl Overrun
                            | Some dest' \<Rightarrow> Inr (toklen, dest')))"

text \<open>\<open>lws_hdr_simple_ptr\<close>: the offset in \<open>data\<close> of the first fragment, \<open>None\<close> for NULL.\<close>

definition lws_hdr_simple_ptr :: "allocated_headers \<Rightarrow> nat \<Rightarrow> nat option" where
  "lws_hdr_simple_ptr a h =
     (let n = ah_frag_index a ! h
      in if n = 0 then None else Some (frag_offset (ah_frags a ! n)))"

abbreviation cur_frag :: "allocated_headers \<Rightarrow> lws_fragments" where
  "cur_frag a \<equiv> ah_frags a ! ah_next_frag_index a"

definition upd_cur_frag :: "(lws_fragments \<Rightarrow> lws_fragments) \<Rightarrow> allocated_headers \<Rightarrow> allocated_headers" where
  "upd_cur_frag f a = a\<lparr>ah_frags := (ah_frags a)[ah_next_frag_index a := f (cur_frag a)]\<rparr>"

text \<open>\<open>data[pos++] = c\<close>, for a \<open>pos\<close> inside \<open>data\<close>, and the \<open>len++\<close> that goes with it.\<close>

definition put_data :: "byte \<Rightarrow> allocated_headers \<Rightarrow> allocated_headers" where
  "put_data c a = a\<lparr>ah_data := (ah_data a)[ah_pos a := c], ah_pos := ah_pos a + 1\<rparr>"

definition put_char :: "byte \<Rightarrow> allocated_headers \<Rightarrow> allocated_headers" where
  "put_char c a = (let a' = put_data c a
     in if c \<noteq> 0 then upd_cur_frag (\<lambda>f. f\<lparr>frag_len := frag_len f + 1\<rparr>) a' else a')"

text \<open>A fresh fragment at \<open>next_frag_index\<close>, empty and at the current place of the data.\<close>

definition open_frag :: "allocated_headers \<Rightarrow> allocated_headers" where
  "open_frag a = upd_cur_frag (\<lambda>_. \<lparr>frag_offset = ah_pos a, frag_len = 0, next_frag = 0\<rparr>) a"

definition next_open :: "allocated_headers \<Rightarrow> allocated_headers" where
  "next_open a = open_frag (a\<lparr>ah_next_frag_index := ah_next_frag_index a + 1\<rparr>)"

fun simple_create_loop :: "allocated_headers \<Rightarrow> byte list \<Rightarrow> parse_error + allocated_headers" where
  "simple_create_loop a s =
     (if ah_pos a = LWS_MAX_HEADER_LEN then Inl Reject
      else case s of [] \<Rightarrow> Inr (put_char 0 a) | c # cs \<Rightarrow> simple_create_loop (put_char c a) cs)"

declare simple_create_loop.simps [simp del]

definition lws_hdr_simple_create ::
    "allocated_headers \<Rightarrow> nat \<Rightarrow> byte list \<Rightarrow> parse_error + allocated_headers" where
  "lws_hdr_simple_create a h s =
     (let i = ah_next_frag_index a + 1
      in if i = FRAGS then Inl Reject
         else simple_create_loop ((next_open a)\<lparr>ah_frag_index := (ah_frag_index a)[h := i]\<rparr>) s)"

section \<open>Characters\<close>

definition char_to_hex :: "byte \<Rightarrow> int" where
  "char_to_hex c =
     (if 0x30 \<le> c \<and> c \<le> 0x39 then uint c - 0x30
      else if 0x61 \<le> c \<and> c \<le> 0x66 then uint c - 0x61 + 10
      else if 0x41 \<le> c \<and> c \<le> 0x46 then uint c - 0x41 + 10
      else -1)"

text \<open>\<open>issue_char\<close>: the returned \<^verbatim>\<open>int\<close> and the state; 1 says that the header is over its limit.\<close>

definition issue_char :: "hdr_wsi \<Rightarrow> byte \<Rightarrow> int \<times> hdr_wsi" where
  "issue_char w c =
     (if ah_pos (hdr_ah w) = LWS_MAX_HEADER_LEN then (-1, w)
      else if current_token_limit w \<le> frag_len (cur_frag (hdr_ah w)) then (1, w)
      else (0, w\<lparr>hdr_ah := put_char c (hdr_ah w)\<rparr>))"

text \<open>
  The C library's \<open>atoi\<close> on what a pointer points at, up to the end of the buffer it points
  into: white space, a sign, digits. \<open>None\<close> is a read past the buffer. The value is
  \<open>(int)strtol\<close>: clamped to a \<^verbatim>\<open>long\<close>, then cut to 32 bits.
\<close>

definition is_space :: "byte \<Rightarrow> bool" where
  "is_space c \<longleftrightarrow> c = 0x20 \<or> 9 \<le> c \<and> c \<le> 13"

definition is_digit :: "byte \<Rightarrow> bool" where
  "is_digit c \<longleftrightarrow> 0x30 \<le> c \<and> c \<le> 0x39"

definition atoi :: "byte list \<Rightarrow> int option" where
  "atoi s =
     (let s1 = dropWhile is_space s;
          neg = (s1 \<noteq> [] \<and> hd s1 = 0x2d);
          s2 = (if s1 \<noteq> [] \<and> (hd s1 = 0x2d \<or> hd s1 = 0x2b) then tl s1 else s1);
          v = foldl (\<lambda>n c. 10 * n + (uint c - 0x30)) 0 (takeWhile is_digit s2);
          l = max (- (2 ^ 63)) (min (2 ^ 63 - 1) (if neg then - v else v))
      in if dropWhile is_digit s2 = [] then None else Some (signed_take_bit 31 l))"

section \<open>The parser\<close>

text \<open>\<open>set_parsing_complete\<close>, the end of the headers.\<close>

definition set_parsing_complete :: "hdr_wsi \<Rightarrow> parse_error + hdr_wsi" where
  "set_parsing_complete w =
     (let fin = (\<lambda>w. Inr (w\<lparr>parser_state := WSI_PARSING_COMPLETE, hdr_parsing_completed := True\<rparr>))
      in case (lws_hdr_total_length (hdr_ah w) WSI_TOKEN_UPGRADE,
               lws_hdr_total_length (hdr_ah w) WSI_TOKEN_VERSION) of
           (Some u, Some v) \<Rightarrow>
             if u \<noteq> 0 \<and> v \<noteq> 0 then
               (case lws_hdr_simple_ptr (hdr_ah w) WSI_TOKEN_VERSION of None \<Rightarrow> Inl Overrun
                | Some p \<Rightarrow>
                    (case atoi (drop p (ah_data (hdr_ah w))) of None \<Rightarrow> Inl Overrun
                     | Some r \<Rightarrow> fin (w\<lparr>ietf_spec_revision := word_of_int r\<rparr>)))
             else fin w
         | (Some u, None) \<Rightarrow> if u \<noteq> 0 then Inl Overrun else fin w
         | _ \<Rightarrow> Inl Overrun)"

text \<open>
  \<open>start_fragment\<close>: a new fragment for the header of the parser state, chained behind the ones
  the header already has, which it continues after a space.
\<close>

definition chain_frag :: "nat \<Rightarrow> allocated_headers \<Rightarrow> allocated_headers" where
  "chain_frag m a =
     a\<lparr>ah_frags := (ah_frags a)[m := (ah_frags a ! m)\<lparr>next_frag := ah_next_frag_index a\<rparr>]\<rparr>"

definition start_fragment :: "hdr_wsi \<Rightarrow> parse_error + hdr_wsi" where
  "start_fragment w =
     (let a = hdr_ah w; i = ah_next_frag_index a + 1; n = ah_frag_index a ! parser_state w;
          a1 = next_open a
      in if i = FRAGS then Inl Reject
         else if n = 0 then
           Inr (w\<lparr>hdr_ah := a1\<lparr>ah_frag_index := (ah_frag_index a1)[parser_state w := i]\<rparr>\<rparr>)
         else
           (case frag_chain FRAGS (ah_frags a1) n of None \<Rightarrow> Inl Overrun
            | Some l \<Rightarrow>
                if ah_pos a1 = LWS_MAX_HEADER_LEN then Inl Reject
                else Inr (w\<lparr>hdr_ah := put_char 0x20 (chain_frag (last l) a1)\<rparr>)))"

text \<open>
  The states of the three URI methods. In the unescaping, \<open>None\<close> says the character was
  swallowed, \<open>Some c\<close> is the character to go on with. \<open>parse\<close> is the parser itself, called
  for the first digit of an escape that turned out not to be one.
\<close>

definition is_uri_state :: "nat \<Rightarrow> bool" where
  "is_uri_state s \<longleftrightarrow> s = WSI_TOKEN_GET_URI \<or> s = WSI_TOKEN_POST_URI \<or> s = WSI_TOKEN_OPTIONS_URI"

definition uri_unescape ::
    "(hdr_wsi \<Rightarrow> byte \<Rightarrow> parse_error + hdr_wsi) \<Rightarrow> hdr_wsi \<Rightarrow> byte \<Rightarrow>
       parse_error + (hdr_wsi \<times> byte option)" where
  "uri_unescape parse w c =
     (case ues w of
        URIES_IDLE \<Rightarrow>
          if c = 0x25 then Inr (w\<lparr>ues := URIES_SEEN_PERCENT\<rparr>, None) else Inr (w, Some c)
      | URIES_SEEN_PERCENT \<Rightarrow>
          if char_to_hex c < 0 then
            (case issue_char w 0x25 of
               (n, w1) \<Rightarrow> if n < 0 then Inl Reject else Inr (w1\<lparr>ues := URIES_IDLE\<rparr>, Some c))
          else Inr (w\<lparr>esc_stash := c, ues := URIES_SEEN_PERCENT_H1\<rparr>, None)
      | URIES_SEEN_PERCENT_H1 \<Rightarrow>
          if char_to_hex c < 0 then
            (case issue_char w 0x25 of
               (n, w1) \<Rightarrow>
                 (case parse (w1\<lparr>ues := URIES_IDLE\<rparr>) (esc_stash w1) of
                    Inl e \<Rightarrow> Inl e
                  | Inr w2 \<Rightarrow> Inr (w2, Some c)))
          else
            Inr (w\<lparr>ues := URIES_IDLE\<rparr>,
                 Some (word_of_int (push_bit 4 (char_to_hex (esc_stash w)) OR char_to_hex c))))"

text \<open>
  \<open>pos--; len--;\<close> and the \<open>do ... while\<close> that backs up one directory level with it. The test that
  the current fragment is in the array is always true in the code; it makes the recursion
  well-founded on every argument.
\<close>

definition drop_char :: "allocated_headers \<Rightarrow> allocated_headers" where
  "drop_char a = upd_cur_frag (\<lambda>f. f\<lparr>frag_len := frag_len f - 1\<rparr>) (a\<lparr>ah_pos := ah_pos a - 1\<rparr>)"

function back_up_loop :: "allocated_headers \<Rightarrow> allocated_headers" where
  "back_up_loop a =
     (let a' = drop_char a
      in if 1 < frag_len (cur_frag a') \<and> ah_data a' ! ah_pos a' \<noteq> 0x2f \<and>
            ah_next_frag_index a < length (ah_frags a)
         then back_up_loop a' else a')"
  by pat_completeness auto
termination
  by (relation "measure (\<lambda>a. frag_len (cur_frag a))") (auto simp: drop_char_def upd_cur_frag_def)

declare back_up_loop.simps [simp del]

definition back_up :: "allocated_headers \<Rightarrow> allocated_headers" where
  "back_up a = (if 2 < frag_len (cur_frag a) then back_up_loop (drop_char a) else a)"

text \<open>The path normalisation: the new state and whether the character is swallowed.\<close>

definition uri_path :: "hdr_wsi \<Rightarrow> byte \<Rightarrow> hdr_wsi \<times> bool" where
  "uri_path w c =
     (case ups w of
        URIPS_IDLE \<Rightarrow> (if c = 0x2f then w\<lparr>ups := URIPS_SEEN_SLASH\<rparr> else w, False)
      | URIPS_SEEN_SLASH \<Rightarrow>
          if c = 0x2f then (w, True)
          else if c = 0x2e then (w\<lparr>ups := URIPS_SEEN_SLASH_DOT\<rparr>, True)
          else (w\<lparr>ups := URIPS_IDLE\<rparr>, False)
      | URIPS_SEEN_SLASH_DOT \<Rightarrow>
          if c = 0x2e then
            (w\<lparr>hdr_ah := back_up (hdr_ah w), ups := URIPS_SEEN_SLASH_DOT_DOT\<rparr>, True)
          else if c = 0x2f then (w\<lparr>ups := URIPS_SEEN_SLASH\<rparr>, True)
          else (snd (issue_char (w\<lparr>ups := URIPS_IDLE\<rparr>) 0x2e), False)
      | URIPS_SEEN_SLASH_DOT_DOT \<Rightarrow>
          if c = 0x2e \<or> c = 0x2f then (w, True)
          else (w\<lparr>ups := URIPS_SEEN_SLASH\<rparr>, False)
      | URIPS_ARGUMENTS \<Rightarrow> (w, False))"

text \<open>
  The start of the URI arguments. Neither the write to \<open>data\<close> nor the one to \<open>frags\<close> is guarded in
  the code.
\<close>

definition uri_args :: "hdr_wsi \<Rightarrow> parse_error + hdr_wsi" where
  "uri_args w =
     (let a = hdr_ah w; i = ah_next_frag_index a + 1; a1 = next_open (put_data 0 a)
      in if LWS_MAX_HEADER_LEN \<le> ah_pos a \<or> FRAGS \<le> i then Inl Overrun
         else Inr (w\<lparr>hdr_ah := a1\<lparr>ah_frag_index :=
                                  (ah_frag_index a1)[WSI_TOKEN_HTTP_URI_ARGS := i]\<rparr>,
                     ups := URIPS_ARGUMENTS\<rparr>))"

text \<open>\<open>swallow:\<close> and \<open>check_eol:\<close>.\<close>

definition swallow :: "hdr_wsi \<Rightarrow> parse_error + hdr_wsi" where
  "swallow w = (if parser_state w = WSI_TOKEN_CHALLENGE then set_parsing_complete w else Inr w)"

definition check_eol :: "hdr_wsi \<Rightarrow> byte \<Rightarrow> parse_error + hdr_wsi" where
  "check_eol w c =
     (let eol = (parser_state w \<noteq> WSI_TOKEN_CHALLENGE \<and> c = 0x0d);
          c' = (if eol then 0 else c);
          w1 = (if eol then w\<lparr>parser_state := WSI_TOKEN_SKIPPING_SAW_CR\<rparr> else w)
      in case issue_char w1 c' of
           (n, w2) \<Rightarrow>
             if n < 0 then Inl Reject
             else swallow (if 0 < n then w2\<lparr>parser_state := WSI_TOKEN_SKIPPING\<rparr> else w2))"

text \<open>The rest of a URI character, from the unescaped character on, and the end of a URI.\<close>

definition uri_char :: "hdr_wsi \<Rightarrow> byte \<Rightarrow> parse_error + hdr_wsi" where
  "uri_char w c =
     (case uri_path w c of
        (w1, True) \<Rightarrow> swallow w1
      | (w1, False) \<Rightarrow>
          if c = 0x3f then (case uri_args w1 of Inl e \<Rightarrow> Inl e | Inr w2 \<Rightarrow> swallow w2)
          else check_eol w1 c)"

definition uri_end :: "hdr_wsi \<Rightarrow> parse_error + hdr_wsi" where
  "uri_end w =
     (case (if frag_len (cur_frag (hdr_ah w)) = 0 then issue_char w 0x2f else (0, w)) of
        (n, w1) \<Rightarrow>
          if n < 0 then Inl Reject
          else case issue_char w1 0 of
                 (m, w2) \<Rightarrow> if m < 0 then Inl Reject
                            else start_fragment (w2\<lparr>parser_state := WSI_TOKEN_HTTP\<rparr>))"

text \<open>The \<open>default\<close> case: collecting the value of a header or a URI.\<close>

definition collect ::
    "(hdr_wsi \<Rightarrow> byte \<Rightarrow> parse_error + hdr_wsi) \<Rightarrow> hdr_wsi \<Rightarrow> byte \<Rightarrow> parse_error + hdr_wsi" where
  "collect parse w c =
     (let a = hdr_ah w
      in if WSI_TOKEN_COUNT \<le> parser_state w then Inl Overrun
         else if frag_len (ah_frags a ! (ah_frag_index a ! parser_state w)) = 0 \<and> c = 0x20 then Inr w
         else if \<not> is_uri_state (parser_state w) then check_eol w c
         else if c = 0x20 then uri_end w
         else case uri_unescape parse w c of
                Inl e \<Rightarrow> Inl e
              | Inr (w1, None) \<Rightarrow> swallow w1
              | Inr (w1, Some c1) \<Rightarrow> uri_char w1 c1)"

text \<open>
  \<open>WSI_TOKEN_NAME_PART\<close>: looking a name up in the table. \<open>limits\<close> is \<open>context->token_limits\<close>.
\<close>

definition known_header :: "nat list option \<Rightarrow> hdr_wsi \<Rightarrow> nat \<Rightarrow> parse_error + hdr_wsi" where
  "known_header limits w n =
     (if (n = WSI_TOKEN_GET_URI \<or> n = WSI_TOKEN_POST_URI \<or> n = WSI_TOKEN_OPTIONS_URI) \<and>
         ah_frag_index (hdr_ah w) ! n \<noteq> 0 then Inl Reject
      else
        let m = (if n = WSI_TOKEN_SWORIGIN then WSI_TOKEN_ORIGIN else n);
            w1 = w\<lparr>parser_state := m,
                   current_token_limit :=
                     (case limits of Some l \<Rightarrow> l ! m | None \<Rightarrow> LWS_MAX_HEADER_LEN)\<rparr>
        in if m = WSI_TOKEN_CHALLENGE then set_parsing_complete w1 else start_fragment w1)"

definition name_part :: "nat list option \<Rightarrow> hdr_wsi \<Rightarrow> byte \<Rightarrow> parse_error + hdr_wsi" where
  "name_part limits w c =
     (case lextable_decode (nat (lextable_pos w)) (unat c) of
        None \<Rightarrow> Inl Overrun
      | Some p \<Rightarrow>
          let w1 = w\<lparr>lextable_pos := p\<rparr>; idx = ah_frag_index (hdr_ah w)
          in if p < 0 then
               (if idx ! WSI_TOKEN_GET_URI \<noteq> 0 \<or> idx ! WSI_TOKEN_POST_URI \<noteq> 0 \<or>
                   idx ! WSI_TOKEN_OPTIONS_URI \<noteq> 0 \<or> idx ! WSI_TOKEN_HTTP \<noteq> 0
                then Inr (w1\<lparr>parser_state := WSI_TOKEN_SKIPPING\<rparr>)
                else Inl Reject)
             else if length lextable \<le> nat p then Inl Overrun
             else if lextable ! nat p < FAIL_CHAR then
               (if length lextable \<le> nat p + 1 then Inl Overrun
                else known_header limits w1
                       (push_bit 8 (lextable ! nat p) OR lextable ! (nat p + 1)))
             else Inr w1)"

definition parse_body ::
    "(hdr_wsi \<Rightarrow> byte \<Rightarrow> parse_error + hdr_wsi) \<Rightarrow> nat list option \<Rightarrow> hdr_wsi \<Rightarrow> byte \<Rightarrow>
       parse_error + hdr_wsi" where
  "parse_body parse limits w c =
     (if parser_state w = WSI_TOKEN_NAME_PART then name_part limits w c
      else if parser_state w = WSI_TOKEN_SKIPPING then
        Inr (if c = 0x0d then w\<lparr>parser_state := WSI_TOKEN_SKIPPING_SAW_CR\<rparr> else w)
      else if parser_state w = WSI_TOKEN_SKIPPING_SAW_CR then
        Inr (if c = 0x0a then w\<lparr>parser_state := WSI_TOKEN_NAME_PART, lextable_pos := 0\<rparr>
             else w\<lparr>parser_state := WSI_TOKEN_SKIPPING\<rparr>)
      else if parser_state w = WSI_PARSING_COMPLETE then Inr w
      else collect parse w c)"

text \<open>
  The parser calls itself only with \<open>ues = URIES_IDLE\<close>, and with that it does not call itself
  again; two copies of the body are the whole recursion, as \<open>libwebsocket_parse_rec\<close> shows.
\<close>

definition libwebsocket_parse :: "nat list option \<Rightarrow> hdr_wsi \<Rightarrow> byte \<Rightarrow> parse_error + hdr_wsi" where
  "libwebsocket_parse limits = parse_body (parse_body (\<lambda>_ _. Inl Overrun) limits) limits"

lemma uri_unescape_cong:
  "(\<And>w c. ues w = URIES_IDLE \<Longrightarrow> p w c = q w c) \<Longrightarrow> uri_unescape p w c = uri_unescape q w c"
  by (cases "ues w") (simp_all add: uri_unescape_def split: prod.split)

lemma uri_unescape_idle: "ues w = URIES_IDLE \<Longrightarrow> uri_unescape p w c = uri_unescape q w c"
  by (simp add: uri_unescape_def)

lemma parse_body_idle: "ues w = URIES_IDLE \<Longrightarrow> parse_body p limits w c = parse_body q limits w c"
  unfolding parse_body_def collect_def by (simp only: uri_unescape_idle [of w p c q])

lemma parse_body_cong:
  assumes "\<And>w c. ues w = URIES_IDLE \<Longrightarrow> p w c = q w c"
  shows "parse_body p limits w c = parse_body q limits w c"
  unfolding parse_body_def collect_def by (simp only: uri_unescape_cong [of p q w c, OF assms])

lemma libwebsocket_parse_rec:
  "libwebsocket_parse limits w c = parse_body (libwebsocket_parse limits) limits w c"
  unfolding libwebsocket_parse_def
  by (rule parse_body_cong) (rule parse_body_idle)

section \<open>Invariants of the store\<close>

text \<open>
  The arrays have their sizes, the counters stay inside them, fragment chains go forward, and
  the fragments lie one after the other in the data.
\<close>

definition ah_ok :: "allocated_headers \<Rightarrow> bool" where
  "ah_ok a \<longleftrightarrow>
     length (ah_frag_index a) = WSI_TOKEN_COUNT \<and> length (ah_frags a) = FRAGS \<and>
     length (ah_data a) = LWS_MAX_HEADER_LEN \<and>
     ah_pos a \<le> LWS_MAX_HEADER_LEN \<and> ah_next_frag_index a < FRAGS \<and>
     (\<forall>t<WSI_TOKEN_COUNT. ah_frag_index a ! t \<le> ah_next_frag_index a) \<and>
     (\<forall>i\<le>ah_next_frag_index a. 0 < i \<longrightarrow>
        next_frag (ah_frags a ! i) \<le> ah_next_frag_index a \<and>
        (next_frag (ah_frags a ! i) = 0 \<or> i < next_frag (ah_frags a ! i))) \<and>
     (\<forall>i<ah_next_frag_index a. 0 < i \<longrightarrow>
        frag_offset (ah_frags a ! i) + frag_len (ah_frags a ! i) \<le> frag_offset (cur_frag a)) \<and>
     (0 < ah_next_frag_index a \<longrightarrow>
        frag_offset (cur_frag a) + frag_len (cur_frag a) \<le> ah_pos a)"

text \<open>
  Every fragment but the current one is closed by a NUL before the current one starts, and the
  current one when it is complete.
\<close>

definition nul_between :: "allocated_headers \<Rightarrow> nat \<Rightarrow> nat \<Rightarrow> bool" where
  "nul_between a i j \<longleftrightarrow> (\<exists>k<j. i \<le> k \<and> ah_data a ! k = 0)"

definition ah_closed :: "allocated_headers \<Rightarrow> bool" where
  "ah_closed a \<longleftrightarrow>
     (\<forall>i<ah_next_frag_index a. 0 < i \<longrightarrow>
        nul_between a (frag_offset (ah_frags a ! i)) (frag_offset (cur_frag a)))"

definition cur_closed :: "allocated_headers \<Rightarrow> bool" where
  "cur_closed a \<longleftrightarrow> ah_next_frag_index a = 0 \<or> nul_between a (frag_offset (cur_frag a)) (ah_pos a)"

lemma ah_ok_sizes:
  assumes "ah_ok a"
  shows "length (ah_frag_index a) = 79" "length (ah_frags a) = 158" "length (ah_data a) = 1024"
    "ah_pos a \<le> 1024" "ah_next_frag_index a < 158"
  using assms by (simp_all add: ah_ok_def)

lemma ah_ok_put_data: "ah_ok a \<Longrightarrow> ah_pos a < 1024 \<Longrightarrow> ah_ok (put_data c a)"
  by (auto simp: ah_ok_def put_data_def)

lemma ah_ok_put_char:
  "ah_ok a \<Longrightarrow> ah_pos a < 1024 \<Longrightarrow> 0 < ah_next_frag_index a \<Longrightarrow> ah_ok (put_char c a)"
  by (auto simp: ah_ok_def put_char_def put_data_def upd_cur_frag_def Let_def nth_list_update)

lemma put_char_simps [simp]:
  "ah_pos (put_char c a) = ah_pos a + 1"
  "ah_next_frag_index (put_char c a) = ah_next_frag_index a"
  "ah_frag_index (put_char c a) = ah_frag_index a"
  "ah_data (put_char c a) = (ah_data a)[ah_pos a := c]"
  "length (ah_frags (put_char c a)) = length (ah_frags a)"
  by (simp_all add: put_char_def put_data_def upd_cur_frag_def Let_def)

lemma put_data_nul: "put_data 0 a = put_char 0 a"
  by (simp add: put_char_def)

lemma put_char_frag:
  assumes "ah_next_frag_index a < length (ah_frags a)"
  shows "ah_frags (put_char c a) ! i =
           (if i = ah_next_frag_index a \<and> c \<noteq> 0
            then (cur_frag a)\<lparr>frag_len := frag_len (cur_frag a) + 1\<rparr> else ah_frags a ! i)"
  using assms by (auto simp: put_char_def put_data_def upd_cur_frag_def Let_def)

lemma put_char_frag_kept [simp]:
  "ah_next_frag_index a < length (ah_frags a) \<Longrightarrow>
     frag_offset (ah_frags (put_char c a) ! i) = frag_offset (ah_frags a ! i)"
  "ah_next_frag_index a < length (ah_frags a) \<Longrightarrow>
     next_frag (ah_frags (put_char c a) ! i) = next_frag (ah_frags a ! i)"
  by (simp_all add: put_char_frag)

lemma nul_between_put:
  "j \<le> ah_pos a \<Longrightarrow> nul_between (put_char c a) i j = nul_between a i j"
  by (auto simp: nul_between_def)

lemma nul_between_put_nul:
  "ah_pos a < length (ah_data a) \<Longrightarrow> i \<le> ah_pos a \<Longrightarrow> nul_between (put_char 0 a) i (ah_pos a + 1)"
  by (auto simp: nul_between_def)

lemma nul_between_mono: "nul_between a i j \<Longrightarrow> j \<le> j' \<Longrightarrow> nul_between a i j'"
  unfolding nul_between_def using order.strict_trans2 by blast

lemma ah_closed_put_char:
  "ah_ok a \<Longrightarrow> ah_closed a \<Longrightarrow> 0 < ah_next_frag_index a \<Longrightarrow> ah_closed (put_char c a)"
  by (auto simp: ah_closed_def nul_between_put ah_ok_def)

lemma cur_closed_put_nul:
  "ah_ok a \<Longrightarrow> ah_pos a < 1024 \<Longrightarrow> cur_closed (put_char 0 a)"
  by (auto simp: cur_closed_def ah_ok_def intro!: nul_between_put_nul [simplified])

lemma next_open_simps [simp]:
  "ah_pos (next_open a) = ah_pos a"
  "ah_next_frag_index (next_open a) = ah_next_frag_index a + 1"
  "ah_frag_index (next_open a) = ah_frag_index a"
  "ah_data (next_open a) = ah_data a"
  "length (ah_frags (next_open a)) = length (ah_frags a)"
  by (simp_all add: next_open_def open_frag_def upd_cur_frag_def)

lemma next_open_frag:
  "ah_next_frag_index a + 1 < length (ah_frags a) \<Longrightarrow>
     ah_frags (next_open a) ! i =
       (if i = ah_next_frag_index a + 1 then \<lparr>frag_offset = ah_pos a, frag_len = 0, next_frag = 0\<rparr>
        else ah_frags a ! i)"
  by (simp add: next_open_def open_frag_def upd_cur_frag_def)

lemma ah_ok_ends:
  assumes "ah_ok a" "0 < i" "i \<le> ah_next_frag_index a"
  shows "frag_offset (ah_frags a ! i) + frag_len (ah_frags a ! i) \<le> ah_pos a"
proof (cases "i = ah_next_frag_index a")
  case True
  with assms show ?thesis by (simp add: ah_ok_def)
next
  case False
  with assms have "frag_offset (ah_frags a ! i) + frag_len (ah_frags a ! i) \<le> frag_offset (cur_frag a)"
    and "frag_offset (cur_frag a) \<le> ah_pos a"
    by (simp_all add: ah_ok_def)
  then show ?thesis by simp
qed

lemma ah_ok_next_open:
  assumes "ah_ok a" "ah_next_frag_index a + 1 < 158"
  shows "ah_ok (next_open a)"
  using assms ah_ok_ends [OF assms(1)]
  by (auto simp: ah_ok_def next_open_frag le_Suc_eq less_Suc_eq_le)

lemma closed_nul:
  assumes "ah_ok a" "ah_closed a" "cur_closed a" "0 < i" "i \<le> ah_next_frag_index a"
  shows "nul_between a (frag_offset (ah_frags a ! i)) (ah_pos a)"
proof (cases "i = ah_next_frag_index a")
  case True
  with assms show ?thesis by (auto simp: cur_closed_def)
next
  case False
  with assms have "nul_between a (frag_offset (ah_frags a ! i)) (frag_offset (cur_frag a))"
    by (simp add: ah_closed_def)
  moreover have "frag_offset (cur_frag a) \<le> ah_pos a"
    using assms by (auto simp: ah_ok_def)
  ultimately show ?thesis by (rule nul_between_mono)
qed

lemma ah_closed_next_open:
  assumes "ah_ok a" "ah_closed a" "cur_closed a" "ah_next_frag_index a + 1 < 158"
  shows "ah_closed (next_open a)"
  using ah_ok_sizes [OF assms(1)] assms(4) closed_nul [OF assms(1-3)]
  by (auto simp: ah_closed_def next_open_frag less_Suc_eq_le nul_between_def)

lemma ah_ok_index:
  "ah_ok a \<Longrightarrow> i \<le> ah_next_frag_index a \<Longrightarrow> t < 79 \<Longrightarrow>
     ah_ok (a\<lparr>ah_frag_index := (ah_frag_index a)[t := i]\<rparr>)"
  by (auto simp: ah_ok_def nth_list_update)

lemma ah_closed_index [simp]:
  "ah_closed (a\<lparr>ah_frag_index := x\<rparr>) = ah_closed a"
  "cur_closed (a\<lparr>ah_frag_index := x\<rparr>) = cur_closed a"
  by (simp_all add: ah_closed_def cur_closed_def nul_between_def)

text \<open>Following a chain ends inside the used fragments.\<close>

lemma frag_chain_ok:
  assumes "\<forall>i\<le>u. 0 < i \<longrightarrow> next_frag (fs ! i) \<le> u \<and> (next_frag (fs ! i) = 0 \<or> i < next_frag (fs ! i))"
    and "u < length fs" "0 < n" "n \<le> u" "u < n + k"
  shows "\<exists>l. frag_chain k fs n = Some l \<and> l \<noteq> [] \<and> (\<forall>i\<in>set l. n \<le> i \<and> i \<le> u) \<and>
           next_frag (fs ! last l) = 0"
  using assms(3-)
proof (induction k arbitrary: n)
  case (Suc k)
  let ?m = "next_frag (fs ! n)"
  show ?case
  proof (cases "?m = 0")
    case True
    with assms(2) Suc.prems show ?thesis by simp
  next
    case False
    then have m: "n < ?m" "?m \<le> u"
      using assms(1) [rule_format, of n] Suc.prems by simp_all
    with Suc.prems Suc.IH [of ?m] obtain l where "frag_chain k fs ?m = Some l" "l \<noteq> []"
      "\<forall>i\<in>set l. ?m \<le> i \<and> i \<le> u" "next_frag (fs ! last l) = 0"
      by auto
    with assms(2) False m Suc.prems show ?thesis by fastforce
  qed
qed simp

lemma frag_chain_total:
  assumes "ah_ok a" "0 < n" "n \<le> ah_next_frag_index a"
  shows "\<exists>l. frag_chain 158 (ah_frags a) n = Some l \<and> l \<noteq> [] \<and>
           (\<forall>i\<in>set l. n \<le> i \<and> i \<le> ah_next_frag_index a) \<and> next_frag (ah_frags a ! last l) = 0"
  using assms by (intro frag_chain_ok) (auto simp: ah_ok_def)

lemma frag_chain_next_open:
  assumes "ah_ok a" "0 < n" "n \<le> ah_next_frag_index a" "ah_next_frag_index a + 1 < 158"
  shows "\<exists>l. frag_chain 158 (ah_frags (next_open a)) n = Some l \<and> l \<noteq> [] \<and>
           (\<forall>i\<in>set l. n \<le> i \<and> i \<le> ah_next_frag_index a)"
  using frag_chain_ok [of "ah_next_frag_index a" "ah_frags (next_open a)" n 158] assms
  by (auto simp: ah_ok_def next_open_frag)

lemma ah_ok_chain_frag:
  "ah_ok a \<Longrightarrow> m < ah_next_frag_index a \<Longrightarrow> ah_ok (chain_frag m a)"
  by (auto simp: ah_ok_def chain_frag_def nth_list_update)

lemma chain_frag_simps [simp]:
  "ah_next_frag_index (chain_frag m a) = ah_next_frag_index a"
  "ah_pos (chain_frag m a) = ah_pos a"
  "ah_frag_index (chain_frag m a) = ah_frag_index a"
  "ah_data (chain_frag m a) = ah_data a"
  by (simp_all add: chain_frag_def)

lemma ah_closed_chain_frag:
  assumes "ah_closed a" "m < length (ah_frags a)"
  shows "ah_closed (chain_frag m a)"
proof -
  have "frag_offset (ah_frags (chain_frag m a) ! i) = frag_offset (ah_frags a ! i)" for i
    using assms(2) by (simp add: chain_frag_def nth_list_update)
  with assms(1) show ?thesis by (simp add: ah_closed_def nul_between_def)
qed

lemma lws_hdr_total_length_total:
  assumes "ah_ok a" "h < 79"
  shows "\<exists>n. lws_hdr_total_length a h = Some n"
proof (cases "ah_frag_index a ! h = 0")
  case False
  moreover have "ah_frag_index a ! h \<le> ah_next_frag_index a" using assms by (simp add: ah_ok_def)
  ultimately show ?thesis
    using frag_chain_total [OF assms(1), of "ah_frag_index a ! h"]
    by (auto simp: lws_hdr_total_length_def)
qed (simp add: lws_hdr_total_length_def)

section \<open>Invariant of the parser\<close>

text \<open>
  The parser without token limits (\<open>context->token_limits\<close> NULL, the default). While a value is
  collected the current fragment is open; in every other state it is closed.
\<close>

definition store_ok :: "hdr_wsi \<Rightarrow> bool" where
  "store_ok w \<longleftrightarrow> ah_ok (hdr_ah w) \<and> ah_closed (hdr_ah w) \<and>
     (ues w = URIES_SEEN_PERCENT_H1 \<longrightarrow> 0 \<le> char_to_hex (esc_stash w))"

definition collecting :: "hdr_wsi \<Rightarrow> bool" where
  "collecting w \<longleftrightarrow> parser_state w < WSI_TOKEN_COUNT \<and> parser_state w \<noteq> WSI_TOKEN_CHALLENGE \<and>
     0 < ah_next_frag_index (hdr_ah w) \<and> current_token_limit w = LWS_MAX_HEADER_LEN"

definition between_values :: "hdr_wsi \<Rightarrow> bool" where
  "between_values w \<longleftrightarrow> WSI_TOKEN_NAME_PART \<le> parser_state w \<and> parser_state w \<le> WSI_PARSING_COMPLETE \<and>
     cur_closed (hdr_ah w) \<and>
     (parser_state w = WSI_TOKEN_NAME_PART \<longrightarrow>
        0 \<le> lextable_pos w \<and> lex_pos_ok (nat (lextable_pos w)))"

definition hdr_ok :: "hdr_wsi \<Rightarrow> bool" where
  "hdr_ok w \<longleftrightarrow> store_ok w \<and> (collecting w \<or> between_values w)"

lemma drop_char_simps [simp]:
  "ah_next_frag_index (drop_char a) = ah_next_frag_index a"
  "ah_frag_index (drop_char a) = ah_frag_index a"
  "ah_data (drop_char a) = ah_data a"
  "ah_pos (drop_char a) = ah_pos a - 1"
  "length (ah_frags (drop_char a)) = length (ah_frags a)"
  by (simp_all add: drop_char_def upd_cur_frag_def)

lemma drop_char_frag:
  "ah_next_frag_index a < length (ah_frags a) \<Longrightarrow>
     ah_frags (drop_char a) ! i =
       (if i = ah_next_frag_index a then (cur_frag a)\<lparr>frag_len := frag_len (cur_frag a) - 1\<rparr>
        else ah_frags a ! i)"
  by (simp add: drop_char_def upd_cur_frag_def)

text \<open>\<open>shrunk a b\<close>: \<open>b\<close> is \<open>a\<close> with some characters of the current fragment taken back.\<close>

definition shrunk :: "allocated_headers \<Rightarrow> allocated_headers \<Rightarrow> bool" where
  "shrunk a b \<longleftrightarrow> ah_next_frag_index b = ah_next_frag_index a \<and> ah_frag_index b = ah_frag_index a \<and>
     ah_data b = ah_data a \<and> length (ah_frags b) = length (ah_frags a) \<and>
     (\<forall>i. i \<noteq> ah_next_frag_index a \<longrightarrow> ah_frags b ! i = ah_frags a ! i) \<and>
     frag_offset (cur_frag b) = frag_offset (cur_frag a) \<and>
     next_frag (cur_frag b) = next_frag (cur_frag a) \<and>
     (\<exists>k. frag_len (cur_frag a) = frag_len (cur_frag b) + k \<and> ah_pos a = ah_pos b + k)"

lemma shrunk_refl: "shrunk a a"
  by (simp add: shrunk_def)

lemma shrunk_trans: "shrunk a b \<Longrightarrow> shrunk b c \<Longrightarrow> shrunk a c"
  unfolding shrunk_def by auto

lemma shrunk_drop_char:
  "ah_next_frag_index a < length (ah_frags a) \<Longrightarrow> 0 < frag_len (cur_frag a) \<Longrightarrow> 0 < ah_pos a \<Longrightarrow>
     shrunk a (drop_char a)"
  by (auto simp: shrunk_def drop_char_frag intro!: exI [of _ 1])

lemma shrunk_back_up_loop:
  assumes "ah_next_frag_index a < length (ah_frags a)" "0 < frag_len (cur_frag a)"
    "frag_len (cur_frag a) \<le> ah_pos a"
  shows "shrunk a (back_up_loop a)"
  using assms
proof (induction a rule: back_up_loop.induct)
  case (1 a)
  have d: "shrunk a (drop_char a)"
    using "1.prems" by (intro shrunk_drop_char) auto
  have "shrunk (drop_char a) (back_up_loop (drop_char a))"
    if "1 < frag_len (cur_frag (drop_char a))" "ah_data a ! (ah_pos a - 1) \<noteq> 0x2f"
    by (rule "1.IH") (use "1.prems" that in \<open>auto simp: drop_char_frag\<close>)
  with d show ?case
    using "1.prems" by (subst back_up_loop.simps) (auto simp: Let_def intro: shrunk_trans)
qed

lemma shrunk_back_up:
  assumes "ah_ok a" "0 < ah_next_frag_index a"
  shows "shrunk a (back_up a)"
proof (cases "2 < frag_len (cur_frag a)")
  case True
  have a: "ah_next_frag_index a < length (ah_frags a)" "frag_len (cur_frag a) \<le> ah_pos a"
    using ah_ok_sizes [OF assms(1)] ah_ok_ends [OF assms] by auto
  then have "shrunk a (drop_char a)" using True by (intro shrunk_drop_char) auto
  moreover have "shrunk (drop_char a) (back_up_loop (drop_char a))"
    using a True by (intro shrunk_back_up_loop) (auto simp: drop_char_frag)
  ultimately show ?thesis using True by (simp add: back_up_def shrunk_trans)
qed (simp add: back_up_def shrunk_refl)

lemma shrunk_ok:
  assumes "ah_ok a" "shrunk a b"
  shows "ah_ok b"
proof -
  have f: "next_frag (ah_frags b ! i) = next_frag (ah_frags a ! i)"
    "frag_offset (ah_frags b ! i) = frag_offset (ah_frags a ! i)" for i
    using assms(2) by (cases "i = ah_next_frag_index a"; simp add: shrunk_def)+
  from assms show ?thesis unfolding ah_ok_def by (auto simp: f) (auto simp: shrunk_def)
qed

lemma shrunk_closed: "shrunk a b \<Longrightarrow> ah_closed a \<Longrightarrow> ah_closed b"
  by (clarsimp simp: shrunk_def ah_closed_def nul_between_def)

section \<open>Every byte keeps the invariant\<close>

text \<open>\<open>safe_or P r\<close>: the outcome is fine, unless \<open>P\<close> allows an overrun.\<close>

definition safe_or :: "bool \<Rightarrow> parse_error + hdr_wsi \<Rightarrow> bool" where
  "safe_or P r = (case r of Inl Reject \<Rightarrow> True | Inl Overrun \<Rightarrow> P | Inr w \<Rightarrow> hdr_ok w)"

lemma safe_or_simps [simp]:
  "safe_or P (Inl Reject)" "safe_or P (Inl Overrun) = P" "safe_or P (Inr w) = hdr_ok w"
  by (simp_all add: safe_or_def)

lemma safe_or_mono: "safe_or P r \<Longrightarrow> (P \<Longrightarrow> Q) \<Longrightarrow> safe_or Q r"
  by (auto simp: safe_or_def split: sum.splits parse_error.splits)

lemma in_set_dropWhile: "x \<in> set s \<Longrightarrow> \<not> P x \<Longrightarrow> x \<in> set (dropWhile P s)"
  by (induction s) auto

lemma nth_in_set_drop: "p \<le> k \<Longrightarrow> k < length d \<Longrightarrow> d ! k \<in> set (drop p d)"
  using nth_mem [of "k - p" "drop p d"] by simp

lemma atoi_terminated:
  assumes "0 \<in> set s"
  shows "\<exists>r. atoi s = Some r"
proof -
  let ?s1 = "dropWhile is_space s"
  let ?s2 = "if ?s1 \<noteq> [] \<and> (hd ?s1 = 0x2d \<or> hd ?s1 = 0x2b) then tl ?s1 else ?s1"
  have "0 \<in> set ?s1"
    using assms by (rule in_set_dropWhile) (simp add: is_space_def)
  then have "0 \<in> set ?s2" by (cases ?s1) auto
  then have "0 \<in> set (dropWhile is_digit ?s2)"
    by (rule in_set_dropWhile) (simp add: is_digit_def)
  then have "dropWhile is_digit ?s2 \<noteq> []" by (metis empty_iff empty_set)
  then show ?thesis unfolding atoi_def Let_def by (simp only: if_False) simp
qed

lemma set_parsing_complete_ok:
  assumes "store_ok w" "cur_closed (hdr_ah w)"
  shows "safe_or False (set_parsing_complete w)"
proof -
  let ?a = "hdr_ah w"
  have ok: "ah_ok ?a" "ah_closed ?a" using assms by (simp_all add: store_ok_def)
  obtain u v where uv: "lws_hdr_total_length ?a 5 = Some u" "lws_hdr_total_length ?a 33 = Some v"
    using lws_hdr_total_length_total [OF ok(1), of 5] lws_hdr_total_length_total [OF ok(1), of 33]
    by auto
  have fin: "hdr_ok (w\<lparr>ietf_spec_revision := r, parser_state := 83, hdr_parsing_completed := True\<rparr>)"
    "hdr_ok (w\<lparr>parser_state := 83, hdr_parsing_completed := True\<rparr>)" for r
    using assms by (simp_all add: hdr_ok_def store_ok_def between_values_def)
  have "\<exists>p r. lws_hdr_simple_ptr ?a 33 = Some p \<and> atoi (drop p (ah_data ?a)) = Some r" if "v \<noteq> 0"
  proof -
    let ?n = "ah_frag_index ?a ! 33"
    have n: "0 < ?n" "?n \<le> ah_next_frag_index ?a"
      using that uv(2) ok(1) by (auto simp: lws_hdr_total_length_def Let_def ah_ok_def intro!: gr0I)
    have "nul_between ?a (frag_offset (ah_frags ?a ! ?n)) (ah_pos ?a)"
      using ok assms(2) n by (rule closed_nul)
    then have "0 \<in> set (drop (frag_offset (ah_frags ?a ! ?n)) (ah_data ?a))"
      using ah_ok_sizes [OF ok(1)] nth_in_set_drop [of _ _ "ah_data ?a"]
      by (fastforce simp: nul_between_def)
    from atoi_terminated [OF this] n show ?thesis
      by (auto simp: lws_hdr_simple_ptr_def)
  qed
  then show ?thesis
    using fin by (auto simp: set_parsing_complete_def uv)
qed

lemma start_fragment_ok:
  assumes "store_ok w" "cur_closed (hdr_ah w)" "parser_state w < 79" "parser_state w \<noteq> 8"
    "current_token_limit w = 1024"
  shows "safe_or False (start_fragment w)"
proof (cases "ah_next_frag_index (hdr_ah w) + 1 = 158")
  case True
  then show ?thesis by (simp add: start_fragment_def)
next
  case False
  let ?a = "hdr_ah w" and ?b = "next_open (hdr_ah w)"
  let ?n = "ah_frag_index ?a ! parser_state w"
  have ok: "ah_ok ?a" "ah_closed ?a" using assms(1) by (simp_all add: store_ok_def)
  have i: "ah_next_frag_index ?a + 1 < 158" using False ah_ok_sizes [OF ok(1)] by simp
  have b: "ah_ok ?b" "ah_closed ?b"
    using ah_ok_next_open [OF ok(1) i] ah_closed_next_open [OF ok assms(2) i] by simp_all
  have fin: "ah_ok a \<Longrightarrow> ah_closed a \<Longrightarrow> 0 < ah_next_frag_index a \<Longrightarrow> hdr_ok (w\<lparr>hdr_ah := a\<rparr>)" for a
    using assms by (simp add: hdr_ok_def store_ok_def collecting_def)
  show ?thesis
  proof (cases "?n = 0")
    case True
    have "hdr_ok (w\<lparr>hdr_ah := ?b\<lparr>ah_frag_index :=
        (ah_frag_index ?b)[parser_state w := ah_next_frag_index ?b]\<rparr>\<rparr>)"
      using b assms(3) by (intro fin ah_ok_index) simp_all
    with True False show ?thesis by (simp add: start_fragment_def Let_def)
  next
    case nz: False
    have "?n \<le> ah_next_frag_index ?a" using ok(1) assms(3) by (simp add: ah_ok_def)
    then obtain l where l: "frag_chain 158 (ah_frags ?b) ?n = Some l" "l \<noteq> []"
      "\<forall>i\<in>set l. ?n \<le> i \<and> i \<le> ah_next_frag_index ?a"
      using frag_chain_next_open [OF ok(1) _ _ i, of ?n] nz by auto
    then have m: "last l < ah_next_frag_index ?b" by (simp add: less_Suc_eq_le)
    let ?c = "chain_frag (last l) ?b"
    have c: "ah_ok ?c" "ah_closed ?c"
      using ah_ok_chain_frag [OF b(1) m] ah_closed_chain_frag [OF b(2), of "last l"] m
        ah_ok_sizes [OF b(1)] by simp_all
    have "hdr_ok (w\<lparr>hdr_ah := put_char 0x20 ?c\<rparr>)" if "ah_pos ?b < 1024"
      using c that by (intro fin ah_ok_put_char ah_closed_put_char) simp_all
    with False nz l ah_ok_sizes [OF ok(1)] show ?thesis by (simp add: start_fragment_def Let_def)
  qed
qed

text \<open>While a value is collected, a character is refused only when the data is full.\<close>

lemma issue_char_collecting:
  assumes "collecting w" "ah_ok (hdr_ah w)"
  shows "issue_char w c = (if ah_pos (hdr_ah w) = 1024 then (-1, w)
                           else (0, w\<lparr>hdr_ah := put_char c (hdr_ah w)\<rparr>))"
  using assms ah_ok_ends [OF assms(2), of "ah_next_frag_index (hdr_ah w)"]
    ah_ok_sizes [OF assms(2)]
  by (auto simp: issue_char_def collecting_def)

lemma collecting_cong:
  "parser_state v = parser_state w \<Longrightarrow> current_token_limit v = current_token_limit w \<Longrightarrow>
     ah_next_frag_index (hdr_ah v) = ah_next_frag_index (hdr_ah w) \<Longrightarrow> collecting v = collecting w"
  by (simp add: collecting_def)

lemma hdr_ok_put:
  assumes "store_ok w" "collecting w" "ah_pos (hdr_ah w) < 1024"
  shows "store_ok (w\<lparr>hdr_ah := put_char c (hdr_ah w)\<rparr>)"
    "collecting (w\<lparr>hdr_ah := put_char c (hdr_ah w)\<rparr>)"
  using assms by (simp_all add: store_ok_def collecting_def ah_ok_put_char ah_closed_put_char)

lemma check_eol_eq:
  assumes "store_ok w" "collecting w"
  shows "check_eol w c =
           (if ah_pos (hdr_ah w) = 1024 then Inl Reject
            else Inr (if c = 0x0d then w\<lparr>parser_state := 82, hdr_ah := put_char 0 (hdr_ah w)\<rparr>
                      else w\<lparr>hdr_ah := put_char c (hdr_ah w)\<rparr>))"
proof -
  have a: "ah_ok (hdr_ah w)" and n: "parser_state w \<noteq> 8" "0 < ah_next_frag_index (hdr_ah w)"
    using assms by (simp_all add: store_ok_def collecting_def)
  have lim: "frag_len (cur_frag (hdr_ah w)) < current_token_limit w" if "ah_pos (hdr_ah w) \<noteq> 1024"
    using assms(2) that ah_ok_ends [OF a n(2)] ah_ok_sizes(4) [OF a] by (auto simp: collecting_def)
  show ?thesis
    using n lim by (cases "c = 0x0d"; cases "ah_pos (hdr_ah w) = 1024")
      (simp_all add: check_eol_def issue_char_def swallow_def Let_def)
qed

lemma check_eol_ok:
  assumes "store_ok w" "collecting w"
  shows "safe_or False (check_eol w c)"
proof -
  have a: "ah_ok (hdr_ah w)" using assms by (simp add: store_ok_def)
  have "hdr_ok (w\<lparr>parser_state := 82, hdr_ah := put_char 0 (hdr_ah w)\<rparr>)"
    "hdr_ok (w\<lparr>hdr_ah := put_char c (hdr_ah w)\<rparr>)" if p: "ah_pos (hdr_ah w) < 1024"
    using hdr_ok_put [OF assms p] cur_closed_put_nul [OF a p]
    by (simp_all add: hdr_ok_def between_values_def store_ok_def)
  with ah_ok_sizes(4) [OF a] show ?thesis by (simp add: check_eol_eq [OF assms])
qed

lemma uri_args_ok:
  assumes "store_ok w" "collecting w"
  shows "safe_or (ah_pos (hdr_ah w) = 1024 \<or> ah_next_frag_index (hdr_ah w) = 157) (uri_args w)"
proof -
  let ?a = "hdr_ah w" and ?b = "put_char 0 (hdr_ah w)"
  have a: "ah_ok ?a" "ah_closed ?a" "0 < ah_next_frag_index ?a"
    using assms by (simp_all add: store_ok_def collecting_def)
  have eq: "put_data 0 ?a = ?b" by (rule put_data_nul)
  show ?thesis
  proof (cases "ah_pos ?a < 1024 \<and> ah_next_frag_index ?a + 1 < 158")
    case True
    then have b: "ah_ok ?b" "ah_closed ?b" "cur_closed ?b" "ah_next_frag_index ?b + 1 < 158"
      using a by (simp_all add: ah_ok_put_char ah_closed_put_char cur_closed_put_nul)
    have "ah_ok ((next_open ?b)\<lparr>ah_frag_index := (ah_frag_index ?b)[73 := ah_next_frag_index ?b + 1]\<rparr>)"
      using ah_ok_index [OF ah_ok_next_open [OF b(1,4)], of "ah_next_frag_index ?b + 1" 73] by simp
    with ah_closed_next_open [OF b] True eq assms show ?thesis
      by (simp add: uri_args_def Let_def hdr_ok_def store_ok_def collecting_def)
  next
    case False
    with ah_ok_sizes [OF a(1)] show ?thesis by (auto simp: uri_args_def Let_def)
  qed
qed

lemma uri_path_ok:
  assumes "store_ok w" "collecting w"
  shows "store_ok (fst (uri_path w c)) \<and> collecting (fst (uri_path w c)) \<and>
         parser_state (fst (uri_path w c)) = parser_state w \<and>
         ah_pos (hdr_ah (fst (uri_path w c))) \<le> ah_pos (hdr_ah w) + 1 \<and>
         ah_next_frag_index (hdr_ah (fst (uri_path w c))) = ah_next_frag_index (hdr_ah w)"
proof -
  have a: "ah_ok (hdr_ah w)" "ah_closed (hdr_ah w)" "0 < ah_next_frag_index (hdr_ah w)"
    using assms by (simp_all add: store_ok_def collecting_def)
  have idle: "store_ok (w\<lparr>ups := x\<rparr>)" "collecting (w\<lparr>ups := x\<rparr>)" for x
    using assms by (simp_all add: store_ok_def collecting_def)
  note sh = shrunk_back_up [OF a(1,3)]
  have bu: "store_ok (w\<lparr>hdr_ah := back_up (hdr_ah w), ups := x\<rparr>)"
    "collecting (w\<lparr>hdr_ah := back_up (hdr_ah w), ups := x\<rparr>)" for x
    using assms shrunk_ok [OF a(1) sh] shrunk_closed [OF sh a(2)] sh
    by (simp_all add: store_ok_def collecting_def shrunk_def)
  show ?thesis
  proof (cases "ups w")
    case URIPS_SEEN_SLASH_DOT
    have i: "issue_char (w\<lparr>ups := URIPS_IDLE\<rparr>) 0x2e =
        (if ah_pos (hdr_ah w) = 1024 then (-1, w\<lparr>ups := URIPS_IDLE\<rparr>)
         else (0, w\<lparr>ups := URIPS_IDLE, hdr_ah := put_char 0x2e (hdr_ah w)\<rparr>))"
      using issue_char_collecting [OF idle(2)] a by simp
    show ?thesis
      using URIPS_SEEN_SLASH_DOT bu idle sh a hdr_ok_put [OF idle, of URIPS_IDLE] ah_ok_sizes [OF a(1)]
      by (auto simp: uri_path_def i shrunk_def)
  qed (use assms idle in \<open>auto simp: uri_path_def\<close>)
qed

lemma swallow_collecting: "store_ok w \<Longrightarrow> collecting w \<Longrightarrow> safe_or False (swallow w)"
  by (simp add: swallow_def hdr_ok_def) (simp add: collecting_def)

lemma uri_char_ok:
  assumes "store_ok w" "collecting w"
  shows "safe_or (1024 \<le> ah_pos (hdr_ah w) + 1 \<or> ah_next_frag_index (hdr_ah w) = 157) (uri_char w c)"
proof (cases "uri_path w c")
  case (Pair w1 sw)
  with uri_path_ok [OF assms, of c] have ok: "store_ok w1" "collecting w1"
    and p: "ah_pos (hdr_ah w1) \<le> ah_pos (hdr_ah w) + 1"
      "ah_next_frag_index (hdr_ah w1) = ah_next_frag_index (hdr_ah w)" by simp_all
  have "safe_or (1024 \<le> ah_pos (hdr_ah w) + 1 \<or> ah_next_frag_index (hdr_ah w) = 157)
      (case uri_args w1 of Inl e \<Rightarrow> Inl e | Inr w2 \<Rightarrow> swallow w2)"
  proof (cases "uri_args w1")
    case (Inl e)
    with uri_args_ok [OF ok] p show ?thesis by (cases e) auto
  next
    case (Inr w2)
    with uri_args_ok [OF ok] have "hdr_ok w2" by simp
    moreover have "parser_state w2 = parser_state w1"
      using Inr by (auto simp: uri_args_def Let_def split: if_splits)
    ultimately show ?thesis using Inr ok by (simp add: swallow_def collecting_def)
  qed
  then show ?thesis
    using Pair swallow_collecting [OF ok] check_eol_ok [OF ok, of c]
    by (auto simp: uri_char_def split: bool.split intro: safe_or_mono)
qed

lemma uri_end_ok:
  assumes "store_ok w" "collecting w"
  shows "safe_or False (uri_end w)"
proof -
  have fin: "safe_or False (start_fragment (v\<lparr>hdr_ah := put_char 0 (hdr_ah v), parser_state := 15\<rparr>))"
    if v: "store_ok v" "collecting v" "ah_pos (hdr_ah v) < 1024" for v
    using hdr_ok_put [OF v, of 0] v cur_closed_put_nul [of "hdr_ah v"]
    by (intro start_fragment_ok) (simp_all add: store_ok_def collecting_def)
  have a: "ah_ok (hdr_ah w)" using assms by (simp add: store_ok_def)
  show ?thesis
  proof (cases "ah_pos (hdr_ah w) = 1024")
    case True
    then show ?thesis by (simp add: uri_end_def issue_char_def)
  next
    case False
    then have p: "ah_pos (hdr_ah w) < 1024" using ah_ok_sizes [OF a] by simp
    let ?v = "w\<lparr>hdr_ah := put_char 0x2f (hdr_ah w)\<rparr>"
    have v: "store_ok ?v" "collecting ?v" using hdr_ok_put [OF assms p] by simp_all
    then have "ah_ok (hdr_ah ?v)" by (simp add: store_ok_def)
    then show ?thesis
      using p fin [OF assms p] fin [OF v] issue_char_collecting [OF assms(2) a]
        issue_char_collecting [OF v(2)] by (simp add: uri_end_def)
  qed
qed

text \<open>A hex digit is filed as it is: the escape that turned out not to be one.\<close>

lemma char_to_hex_digit:
  assumes "0 \<le> char_to_hex c"
  shows "c \<noteq> 0x20 \<and> c \<noteq> 0x25 \<and> c \<noteq> 0x2f \<and> c \<noteq> 0x2e \<and> c \<noteq> 0x3f \<and> c \<noteq> 0x0d \<and> c \<noteq> 0"
  using assms by (auto simp: char_to_hex_def)

lemma parse_body_hex:
  assumes "collecting w" "is_uri_state (parser_state w)" "ues w = URIES_IDLE" "0 \<le> char_to_hex c"
  shows "parse_body p limits w c = uri_char w c"
  using assms char_to_hex_digit [OF assms(4)]
  by (auto simp: parse_body_def collect_def uri_unescape_def is_uri_state_def collecting_def)

lemma collect_hex:
  assumes "store_ok w" "collecting w" "is_uri_state (parser_state w)" "ues w = URIES_IDLE"
    "0 \<le> char_to_hex c"
  shows "case parse_body p limits w c of
           Inl e \<Rightarrow> e = Reject
         | Inr v \<Rightarrow> store_ok v \<and> collecting v \<and> parser_state v = parser_state w \<and>
             ah_next_frag_index (hdr_ah v) = ah_next_frag_index (hdr_ah w) \<and>
             ah_pos (hdr_ah v) \<le> ah_pos (hdr_ah w) + 2"
proof -
  note c = char_to_hex_digit [OF assms(5)]
  obtain w1 sw where pc: "uri_path w c = (w1, sw)" by fastforce
  with uri_path_ok [OF assms(1,2), of c] have ok: "store_ok w1" "collecting w1"
    and q: "ah_pos (hdr_ah w1) \<le> ah_pos (hdr_ah w) + 1" "parser_state w1 = parser_state w"
      "ah_next_frag_index (hdr_ah w1) = ah_next_frag_index (hdr_ah w)" by simp_all
  have "\<not> sw" using pc c by (auto simp: uri_path_def split: uri_path_states.splits if_splits)
  have "parse_body p limits w c = check_eol w1 c"
    using parse_body_hex [OF assms(2-5)] c pc \<open>\<not> sw\<close> by (simp add: uri_char_def)
  moreover have "check_eol w1 c = (if ah_pos (hdr_ah w1) = 1024 then Inl Reject
      else Inr (w1\<lparr>hdr_ah := put_char c (hdr_ah w1)\<rparr>))"
    using c by (simp add: check_eol_eq [OF ok])
  ultimately show ?thesis
    using hdr_ok_put [OF ok, of c] q ah_ok_sizes(4) [of "hdr_ah w1"] ok
    by (auto simp: store_ok_def)
qed

lemma uri_unescape_ok:
  assumes w: "store_ok w" "collecting w" "is_uri_state (parser_state w)"
    and parse: "parse = parse_body p limits"
  shows "case uri_unescape parse w c of
           Inl e \<Rightarrow> e = Reject
         | Inr (v, _) \<Rightarrow> store_ok v \<and> collecting v \<and>
             ah_next_frag_index (hdr_ah v) = ah_next_frag_index (hdr_ah w) \<and>
             ah_pos (hdr_ah v) \<le> ah_pos (hdr_ah w) + 3"
proof -
  have a: "ah_ok (hdr_ah w)" using w by (simp add: store_ok_def)
  have set_ues: "store_ok (v\<lparr>ues := URIES_IDLE\<rparr>)" "collecting (v\<lparr>ues := URIES_IDLE\<rparr>)"
    if "store_ok v" "collecting v" for v
    using that by (simp_all add: store_ok_def collecting_def)
  show ?thesis
  proof (cases "ues w")
    case URIES_IDLE
    with w show ?thesis by (simp add: uri_unescape_def store_ok_def collecting_def)
  next
    case URIES_SEEN_PERCENT
    note put = hdr_ok_put [OF w(1,2), of "0x25"]
    from URIES_SEEN_PERCENT w issue_char_collecting [OF w(2) a, of "0x25"] set_ues [OF put]
      ah_ok_sizes(4) [OF a] show ?thesis
      by (auto simp: uri_unescape_def store_ok_def collecting_def split: sum.split)
  next
    case URIES_SEEN_PERCENT_H1
    obtain k w1 where k: "issue_char w 0x25 = (k, w1)" by fastforce
    have w1: "store_ok w1" "collecting w1" "parser_state w1 = parser_state w"
      "ah_pos (hdr_ah w1) \<le> ah_pos (hdr_ah w) + 1"
      "ah_next_frag_index (hdr_ah w1) = ah_next_frag_index (hdr_ah w)" "esc_stash w1 = esc_stash w"
      using w issue_char_collecting [OF w(2) a, of "0x25"] hdr_ok_put [OF w(1,2)] ah_ok_sizes(4) [OF a]
      by (auto simp: k split: if_splits)
    have hex: "0 \<le> char_to_hex (esc_stash w1)"
      using w URIES_SEEN_PERCENT_H1 w1 by (simp add: store_ok_def)
    have "case parse (w1\<lparr>ues := URIES_IDLE\<rparr>) (esc_stash w1) of
        Inl e \<Rightarrow> e = Reject
      | Inr v \<Rightarrow> store_ok v \<and> collecting v \<and>
          ah_next_frag_index (hdr_ah v) = ah_next_frag_index (hdr_ah w1) \<and>
          ah_pos (hdr_ah v) \<le> ah_pos (hdr_ah w1) + 2"
      using collect_hex [OF set_ues [OF w1(1,2)] _ _ hex, of p limits] w w1
      by (auto simp: parse split: sum.splits)
    then show ?thesis
      using URIES_SEEN_PERCENT_H1 w w1 set_ues [OF w(1,2)]
      by (auto simp: uri_unescape_def k split: sum.splits)
  qed
qed

lemma collect_ok:
  assumes "store_ok w" "collecting w" "parse = parse_body p limits"
  shows "safe_or (is_uri_state (parser_state w) \<and>
                  (1020 \<le> ah_pos (hdr_ah w) \<or> ah_next_frag_index (hdr_ah w) = 157))
           (collect parse w c)"
    (is "safe_or ?P _")
proof (cases "is_uri_state (parser_state w)")
  case True
  have "safe_or ?P (case uri_unescape parse w c of Inl e \<Rightarrow> Inl e
      | Inr (w1, None) \<Rightarrow> swallow w1 | Inr (w1, Some c1) \<Rightarrow> uri_char w1 c1)"
  proof (cases "uri_unescape parse w c")
    case (Inl e)
    with uri_unescape_ok [OF assms(1,2) True assms(3), of c] show ?thesis by simp
  next
    case (Inr r)
    then obtain w1 x where r: "r = (w1, x)" by fastforce
    with Inr uri_unescape_ok [OF assms(1,2) True assms(3), of c]
    have w1: "store_ok w1" "collecting w1"
      "ah_next_frag_index (hdr_ah w1) = ah_next_frag_index (hdr_ah w)"
      "ah_pos (hdr_ah w1) \<le> ah_pos (hdr_ah w) + 3" by simp_all
    have "safe_or ?P (uri_char w1 d)" for d
      by (rule safe_or_mono [OF uri_char_ok [OF w1(1,2)]]) (use True w1 in auto)
    moreover have "safe_or ?P (swallow w1)"
      by (rule safe_or_mono [OF swallow_collecting [OF w1(1,2)]]) simp
    ultimately show ?thesis using Inr r by (cases x) simp_all
  qed
  then show ?thesis
    using assms True safe_or_mono [OF uri_end_ok [OF assms(1,2)], of ?P]
    by (simp add: collect_def Let_def hdr_ok_def) (simp add: collecting_def)
next
  case False
  then show ?thesis
    using assms safe_or_mono [OF check_eol_ok [OF assms(1,2)], of ?P c]
    by (simp add: collect_def Let_def hdr_ok_def) (simp add: collecting_def)
qed

lemma known_header_ok:
  assumes "store_ok w" "cur_closed (hdr_ah w)" "n < 73"
  shows "safe_or False (known_header None w n)"
proof -
  let ?m = "if n = 34 then 6 else n"
  let ?w = "w\<lparr>parser_state := ?m, current_token_limit := 1024\<rparr>"
  have w: "store_ok ?w" "cur_closed (hdr_ah ?w)" using assms by (simp_all add: store_ok_def)
  have "safe_or False (start_fragment ?w)" if "?m \<noteq> 8"
    using w that assms(3) by (intro start_fragment_ok) auto
  with set_parsing_complete_ok [OF w] show ?thesis
    by (auto simp: known_header_def Let_def)
qed

lemma name_part_ok:
  assumes "store_ok w" "between_values w" "parser_state w = 80"
  shows "safe_or False (name_part None w c)"
proof -
  have pos: "lex_pos_ok (nat (lextable_pos w))" using assms by (simp add: between_values_def)
  obtain q where q: "lextable_decode (nat (lextable_pos w)) (unat c) = Some q"
    "q < 0 \<or> nat q < length lextable \<and>
       (if lextable ! nat q < FAIL_CHAR
        then nat q + 1 < length lextable \<and>
             push_bit 8 (lextable ! nat q) OR lextable ! (nat q + 1) < 73
        else lex_pos_ok (nat q))"
    using lextable_decode_ok [OF pos] by blast
  let ?w = "w\<lparr>lextable_pos := q\<rparr>"
  have w: "store_ok ?w" "cur_closed (hdr_ah ?w)"
    using assms by (simp_all add: store_ok_def between_values_def)
  show ?thesis
  proof (cases "q < 0")
    case True
    with w q show ?thesis
      by (simp add: name_part_def Let_def hdr_ok_def store_ok_def between_values_def)
  next
    case False
    show ?thesis
    proof (cases "lextable ! nat q < FAIL_CHAR")
      case True
      with False q(2) have "nat q + 1 < length lextable"
        and n: "push_bit 8 (lextable ! nat q) OR lextable ! (nat q + 1) < 73" by simp_all
      then show ?thesis
        using known_header_ok [OF w n] False True q(1) by (simp add: name_part_def Let_def)
    next
      case nt: False
      with False q w assms show ?thesis
        by (auto simp: name_part_def Let_def hdr_ok_def store_ok_def between_values_def)
    qed
  qed
qed

lemma parse_body_ok:
  assumes "hdr_ok w" "parse = parse_body p None"
  shows "safe_or (is_uri_state (parser_state w) \<and>
                  (1020 \<le> ah_pos (hdr_ah w) \<or> ah_next_frag_index (hdr_ah w) = 157))
           (parse_body parse None w c)"
    (is "safe_or ?P _")
proof (cases "collecting w")
  case True
  have "store_ok w" using assms by (simp add: hdr_ok_def)
  with collect_ok [OF this True assms(2), of c] True show ?thesis
    by (simp add: parse_body_def collecting_def)
next
  case False
  then have w: "store_ok w" "between_values w" using assms by (simp_all add: hdr_ok_def)
  show ?thesis
  proof (cases "parser_state w = 80")
    case True
    with safe_or_mono [OF name_part_ok [OF w True], of ?P c] show ?thesis
      by (simp add: parse_body_def)
  next
    case nn: False
    with w have "parser_state w = 81 \<or> parser_state w = 82 \<or> parser_state w = 83"
      by (auto simp: between_values_def)
    with w show ?thesis
      by (auto simp: parse_body_def hdr_ok_def store_ok_def between_values_def lex_pos_ok_start)
  qed
qed

lemma libwebsocket_parse_ok:
  "hdr_ok w \<Longrightarrow>
     safe_or (is_uri_state (parser_state w) \<and>
              (1020 \<le> ah_pos (hdr_ah w) \<or> ah_next_frag_index (hdr_ah w) = 157))
       (libwebsocket_parse None w c)"
  unfolding libwebsocket_parse_def by (rule parse_body_ok) simp_all

interpretation hdr: byte_machine "libwebsocket_parse None" hdr_ok
proof
  fix w c w'
  assume "hdr_ok w" "libwebsocket_parse None w c = Inr w'"
  then show "hdr_ok w'" using libwebsocket_parse_ok [of w c] by simp
qed

section \<open>The path of a URI\<close>

text \<open>
  The bytes collected for the current fragment, and what the comment of the code promises of a
  path: no empty, \<open>.\<close> or \<open>..\<close> component after a slash.
\<close>

definition uri_text :: "allocated_headers \<Rightarrow> byte list" where
  "uri_text a = take (ah_pos a - frag_offset (cur_frag a)) (drop (frag_offset (cur_frag a)) (ah_data a))"

definition clean_path :: "byte list \<Rightarrow> bool" where
  "clean_path s \<longleftrightarrow> \<not> sublist [0x2f, 0x2f] s \<and> \<not> sublist [0x2f, 0x2e, 0x2f] s \<and>
     \<not> sublist [0x2f, 0x2e, 0x2e] s"

text \<open>The path state remembers how the text ends.\<close>

definition path_ok :: "uri_path_states \<Rightarrow> byte list \<Rightarrow> bool" where
  "path_ok u s \<longleftrightarrow> clean_path s \<and>
     (u \<in> {URIPS_SEEN_SLASH, URIPS_SEEN_SLASH_DOT} \<longrightarrow> \<not> suffix [0x2f, 0x2e] s) \<and>
     (u = URIPS_IDLE \<longrightarrow> \<not> suffix [0x2f] s \<and> \<not> suffix [0x2f, 0x2e] s)"

lemma clean_path_snoc:
  "clean_path (s @ [c]) \<longleftrightarrow>
     clean_path s \<and> \<not> (c = 0x2f \<and> suffix [0x2f] s) \<and> \<not> ((c = 0x2e \<or> c = 0x2f) \<and> suffix [0x2f, 0x2e] s)"
  using sublist_snoc [of "[0x2f, 0x2f]" s c] sublist_snoc [of "[0x2f, 0x2e, 0x2f]" s c]
    sublist_snoc [of "[0x2f, 0x2e, 0x2e]" s c] snoc_suffix_snoc [of "[0x2f]" "0x2f" s c]
    snoc_suffix_snoc [of "[0x2f, 0x2e]" "0x2f" s c] snoc_suffix_snoc [of "[0x2f, 0x2e]" "0x2e" s c]
  by (auto simp: clean_path_def simp del: snoc_suffix_snoc suffix_snoc)

lemma clean_path_prefix: "clean_path s \<Longrightarrow> prefix t s \<Longrightarrow> clean_path t"
  unfolding clean_path_def by (meson prefix_imp_sublist sublist_order.order.trans)

lemma path_ok_nil: "path_ok u []"
  by (simp add: path_ok_def clean_path_def)

lemma suffix_snoc_slash:
  "suffix [0x2f] (s @ [c]) \<longleftrightarrow> c = (0x2f :: byte)"
  "suffix [0x2f, 0x2e] (s @ [c]) \<longleftrightarrow> c = (0x2e :: byte) \<and> suffix [0x2f] s"
  using snoc_suffix_snoc [of "[]" "0x2f" s c] snoc_suffix_snoc [of "[0x2f]" "0x2e" s c]
  by (auto simp del: snoc_suffix_snoc suffix_snoc)

text \<open>Putting a character after the path machine has looked at it.\<close>

lemma path_ok_plain:
  assumes "path_ok u s" "c \<noteq> 0x2f" "c \<noteq> 0x2e"
  shows "path_ok v (s @ [c])"
  using assms by (auto simp: path_ok_def clean_path_snoc suffix_snoc_slash)

lemma path_ok_idle:
  assumes "path_ok URIPS_IDLE s"
  shows "path_ok (if c = 0x2f then URIPS_SEEN_SLASH else URIPS_IDLE) (s @ [c])"
  using assms by (auto simp: path_ok_def clean_path_snoc suffix_snoc_slash)

lemma path_ok_dot:
  assumes "path_ok URIPS_SEEN_SLASH_DOT s"
  shows "clean_path (s @ [0x2e])"
  using assms by (auto simp: path_ok_def clean_path_snoc)

lemma path_ok_dot_char:
  assumes "path_ok URIPS_SEEN_SLASH_DOT s" "c \<noteq> 0x2f" "c \<noteq> 0x2e"
  shows "path_ok URIPS_IDLE ((s @ [0x2e]) @ [c])"
  using path_ok_dot [OF assms(1)] assms(2,3)
  unfolding path_ok_def clean_path_snoc [of "s @ [0x2e]"] suffix_snoc_slash by simp

text \<open>The text follows the operations of the store.\<close>

lemma uri_text_put_char:
  assumes "ah_ok a" "0 < ah_next_frag_index a" "ah_pos a < 1024"
  shows "uri_text (put_char c a) = uri_text a @ [c]"
proof -
  let ?o = "frag_offset (cur_frag a)"
  have len: "ah_pos a < length (ah_data a)" and o: "?o \<le> ah_pos a"
    and f: "ah_next_frag_index a < length (ah_frags a)"
    using assms ah_ok_sizes [OF assms(1)] ah_ok_ends [OF assms(1,2)] by simp_all
  have "drop ?o ((ah_data a)[ah_pos a := c]) = (drop ?o (ah_data a))[ah_pos a - ?o := c]"
    using o by (simp add: drop_update_swap)
  then show ?thesis
    using len o f by (simp add: uri_text_def Suc_diff_le take_Suc_conv_app_nth)
qed

lemma prefix_take_mono: "m \<le> n \<Longrightarrow> prefix (take m xs) (take n xs)"
  by (metis min.absorb1 take_is_prefix take_take)

lemma uri_text_shrunk: "shrunk a b \<Longrightarrow> prefix (uri_text b) (uri_text a)"
  by (auto simp: shrunk_def uri_text_def intro!: prefix_take_mono)

lemma uri_text_next_open:
  "ah_next_frag_index a + 1 < length (ah_frags a) \<Longrightarrow> uri_text (next_open a) = []"
  by (simp add: uri_text_def next_open_frag)

text \<open>The parser keeps the path of the URI it collects clean, up to the arguments.\<close>

definition path_inv :: "hdr_wsi \<Rightarrow> bool" where
  "path_inv w \<longleftrightarrow> (is_uri_state (parser_state w) \<and> ups w \<noteq> URIPS_ARGUMENTS \<longrightarrow>
     path_ok (ups w) (uri_text (hdr_ah w)))"

lemma path_inv_collecting:
  assumes "store_ok w" "collecting w"
  shows "ah_ok (hdr_ah w)" "0 < ah_next_frag_index (hdr_ah w)" "parser_state w \<noteq> 8"
  using assms by (simp_all add: store_ok_def collecting_def)

lemma check_eol_path:
  assumes "store_ok w" "collecting w" "check_eol w c = Inr v"
    and "ah_pos (hdr_ah w) < 1024 \<Longrightarrow> is_uri_state (parser_state w) \<Longrightarrow> ups w \<noteq> URIPS_ARGUMENTS \<Longrightarrow>
           path_ok (ups w) (uri_text (hdr_ah w) @ [c])"
  shows "path_inv v"
proof -
  note a = path_inv_collecting [OF assms(1,2)]
  have "ah_pos (hdr_ah w) < 1024"
    using assms(3) ah_ok_sizes(4) [OF a(1)] by (auto simp: check_eol_eq [OF assms(1,2)] split: if_splits)
  with assms(3,4) a show ?thesis
    by (auto simp: check_eol_eq [OF assms(1,2)] path_inv_def is_uri_state_def uri_text_put_char
        split: if_splits)
qed

lemma uri_path_path:
  assumes w: "store_ok w" "collecting w" and p: "path_ok (ups w) (uri_text (hdr_ah w))"
    and up: "uri_path w c = (w1, sw)" "ups w \<noteq> URIPS_ARGUMENTS"
  shows "if sw then path_ok (ups w1) (uri_text (hdr_ah w1))
         else ah_pos (hdr_ah w1) < 1024 \<longrightarrow> path_ok (ups w1) (uri_text (hdr_ah w1) @ [c])"
proof -
  note a = path_inv_collecting [OF w]
  show ?thesis
  proof (cases "ups w")
    case URIPS_IDLE
    then show ?thesis using up p path_ok_idle [of _ c] by (auto simp: uri_path_def)
  next
    case URIPS_SEEN_SLASH
    then show ?thesis using up p
      by (auto simp: uri_path_def path_ok_plain split: if_splits) (auto simp: path_ok_def)
  next
    case URIPS_SEEN_SLASH_DOT
    have b: "clean_path (uri_text (back_up (hdr_ah w)))"
      using p clean_path_prefix uri_text_shrunk [OF shrunk_back_up [OF a(1,2)]]
      by (auto simp: path_ok_def)
    have i: "issue_char (w\<lparr>ups := URIPS_IDLE\<rparr>) 0x2e =
        (if ah_pos (hdr_ah w) = 1024 then (-1, w\<lparr>ups := URIPS_IDLE\<rparr>)
         else (0, w\<lparr>ups := URIPS_IDLE, hdr_ah := put_char 0x2e (hdr_ah w)\<rparr>))"
      using issue_char_collecting [of "w\<lparr>ups := URIPS_IDLE\<rparr>"] a w by (simp add: collecting_def)
    have t: "uri_text (put_char 0x2e (hdr_ah w)) = uri_text (hdr_ah w) @ [0x2e]"
      if "ah_pos (hdr_ah w) \<noteq> 1024"
      using a that ah_ok_sizes(4) [OF a(1)] by (intro uri_text_put_char) auto
    consider "c = 0x2e" | "c = 0x2f" | "c \<noteq> 0x2e" "c \<noteq> 0x2f" by blast
    then show ?thesis
    proof cases
      case 1
      with URIPS_SEEN_SLASH_DOT up b show ?thesis by (auto simp: uri_path_def path_ok_def)
    next
      case 2
      with URIPS_SEEN_SLASH_DOT up p show ?thesis by (auto simp: uri_path_def path_ok_def)
    next
      case 3
      with URIPS_SEEN_SLASH_DOT up p path_ok_dot_char [of "uri_text (hdr_ah w)" c] t show ?thesis
        by (auto simp: uri_path_def i split: if_splits)
    qed
  next
    case URIPS_SEEN_SLASH_DOT_DOT
    then show ?thesis using up p
      by (auto simp: uri_path_def path_ok_plain split: if_splits)
  qed (use up in simp)
qed

lemma uri_char_path:
  assumes w: "store_ok w" "collecting w" "is_uri_state (parser_state w)" "path_inv w"
    and v: "uri_char w c = Inr v"
  shows "path_inv v"
proof -
  obtain w1 sw where up: "uri_path w c = (w1, sw)" by fastforce
  with uri_path_ok [OF w(1,2), of c] have w1: "store_ok w1" "collecting w1"
    "parser_state w1 = parser_state w" by simp_all
  note n = path_inv_collecting [OF w1(1,2)]
  show ?thesis
  proof (cases "ups w = URIPS_ARGUMENTS")
    case True
    then have "w1 = w" "\<not> sw" using up by (auto simp: uri_path_def)
    with v up True n show ?thesis
      by (auto simp: uri_char_def path_inv_def uri_args_def swallow_def Let_def check_eol_eq [OF w(1,2)]
            split: if_splits)
  next
    case False
    with w have p: "path_ok (ups w) (uri_text (hdr_ah w))" by (simp add: path_inv_def)
    note q = uri_path_path [OF w(1,2) p up False]
    show ?thesis
    proof (cases sw)
      case True
      with v up q n show ?thesis by (simp add: uri_char_def swallow_def path_inv_def)
    next
      case nsw: False
      show ?thesis
      proof (cases "c = 0x3f")
        case True
        with v up nsw n show ?thesis
          by (auto simp: uri_char_def uri_args_def swallow_def path_inv_def Let_def split: if_splits)
      next
        case False
        with v up nsw have "check_eol w1 c = Inr v" by (simp add: uri_char_def)
        then show ?thesis by (rule check_eol_path [OF w1(1,2)]) (use q nsw in simp)
      qed
    qed
  qed
qed

lemma path_inv_percent:
  assumes "store_ok w" "collecting w" "path_inv w" "ah_pos (hdr_ah w) < 1024"
  shows "path_inv (w\<lparr>hdr_ah := put_char 0x25 (hdr_ah w), ues := x\<rparr>)"
  using assms path_inv_collecting [OF assms(1,2)]
  by (auto simp: path_inv_def uri_text_put_char path_ok_plain)

lemma uri_unescape_path:
  assumes w: "store_ok w" "collecting w" "is_uri_state (parser_state w)" "path_inv w"
    and parse: "parse = parse_body p limits" and v: "uri_unescape parse w c = Inr (v, x)"
  shows "path_inv v \<and> is_uri_state (parser_state v)"
proof -
  note a = path_inv_collecting [OF w(1,2)]
  have set_ues: "path_inv (w\<lparr>esc_stash := y, ues := z\<rparr>)" "path_inv (w\<lparr>ues := z\<rparr>)" for y z
    using w by (simp_all add: path_inv_def)
  have full: "ah_pos (hdr_ah w) \<noteq> 1024 \<Longrightarrow> ah_pos (hdr_ah w) < 1024"
    using ah_ok_sizes(4) [OF a(1)] by simp
  note issue = issue_char_collecting [OF w(2) a(1)]
  note put = path_inv_percent [OF w(1,2,4) full]
  show ?thesis
  proof (cases "ues w")
    case URIES_IDLE
    with v w set_ues show ?thesis by (auto simp: uri_unescape_def split: if_splits)
  next
    case URIES_SEEN_PERCENT
    with v w set_ues put show ?thesis by (auto simp: uri_unescape_def issue split: if_splits)
  next
    case URIES_SEEN_PERCENT_H1
    show ?thesis
    proof (cases "char_to_hex c < 0")
      case True
      obtain k w1 where k: "issue_char w 0x25 = (k, w1)" by fastforce
      let ?w1 = "w1\<lparr>ues := URIES_IDLE\<rparr>"
      have w1: "store_ok ?w1" "collecting ?w1" "path_inv ?w1" "is_uri_state (parser_state ?w1)"
        "ues ?w1 = URIES_IDLE" "0 \<le> char_to_hex (esc_stash w1)"
        using k w set_ues put hdr_ok_put [OF w(1,2) full] URIES_SEEN_PERCENT_H1
        by (auto simp: issue store_ok_def collecting_def split: if_splits)
      have r: "parse ?w1 (esc_stash w1) = Inr v"
        using v URIES_SEEN_PERCENT_H1 True k by (auto simp: uri_unescape_def split: sum.splits)
      with parse parse_body_hex [OF w1(2,4,5,6)] have "uri_char ?w1 (esc_stash w1) = Inr v" by simp
      from uri_char_path [OF w1(1,2,4,3) this] r w1 collect_hex [OF w1(1,2,4,5,6), of p limits] parse
      show ?thesis by simp
    next
      case False
      with URIES_SEEN_PERCENT_H1 v w set_ues show ?thesis by (auto simp: uri_unescape_def)
    qed
  qed
qed

lemma collect_path:
  assumes w: "store_ok w" "collecting w" "path_inv w" and parse: "parse = parse_body p limits"
    and v: "collect parse w c = Inr v"
  shows "path_inv v"
proof (cases "is_uri_state (parser_state w)")
  case True
  show ?thesis
  proof (cases "c = 0x20")
    case sp: True
    have "parser_state v = 15 \<or> v = w"
      using v sp True w
      by (auto simp: collect_def uri_end_def start_fragment_def Let_def collecting_def
          split: if_splits prod.splits option.splits)
    with w show ?thesis by (auto simp: path_inv_def is_uri_state_def)
  next
    case False
    with v True w obtain w1 y where u: "uri_unescape parse w c = Inr (w1, y)"
      and y: "(case y of None \<Rightarrow> swallow w1 | Some c1 \<Rightarrow> uri_char w1 c1) = Inr v"
      by (auto simp: collect_def collecting_def split: sum.splits)
    have w1: "path_inv w1" "is_uri_state (parser_state w1)"
      using uri_unescape_path [OF w(1,2) True w(3) parse u] by simp_all
    have w1': "store_ok w1" "collecting w1"
      using uri_unescape_ok [OF w(1,2) True parse, of c] u by simp_all
    show ?thesis
      using y w1 uri_char_path [OF w1' w1(2,1)] path_inv_collecting [OF w1']
      by (cases y) (auto simp: swallow_def)
  qed
next
  case False
  with v w have "check_eol w c = Inr v \<or> v = w"
    by (auto simp: collect_def collecting_def Let_def split: if_splits)
  with False check_eol_path [OF w(1,2), of c v] show ?thesis
    by (auto simp: path_inv_def)
qed

text \<open>A URI starts with a fresh fragment: a second one of the same method is refused.\<close>

lemma name_part_path:
  assumes "store_ok w" "name_part None w c = Inr v" "parser_state w = 80"
  shows "path_inv v"
proof -
  have fresh: "path_inv v" if "known_header None u n = Inr v" "hdr_ah u = hdr_ah w" for u n
  proof (cases "is_uri_state (parser_state v)")
    case True
    have "n \<noteq> 34" "n \<noteq> 8"
      using that(1) True by (auto simp: known_header_def set_parsing_complete_def start_fragment_def
          is_uri_state_def Let_def split: if_splits option.splits)
    then have "is_uri_state n" "ah_frag_index (hdr_ah w) ! n = 0"
      using that True by (auto simp: known_header_def start_fragment_def is_uri_state_def Let_def
          split: if_splits option.splits)
    with that \<open>n \<noteq> 34\<close> \<open>n \<noteq> 8\<close> obtain b where "hdr_ah v = (next_open (hdr_ah w))\<lparr>ah_frag_index := b\<rparr>"
      "ah_next_frag_index (hdr_ah w) + 1 \<noteq> 158"
      by (auto simp: known_header_def start_fragment_def Let_def split: if_splits)
    moreover have "ah_next_frag_index (hdr_ah w) < 158" "length (ah_frags (hdr_ah w)) = 158"
      using assms(1) ah_ok_sizes by (auto simp: store_ok_def)
    ultimately have "uri_text (hdr_ah v) = []"
      using uri_text_next_open [of "hdr_ah w"] by (simp add: uri_text_def)
    then show ?thesis by (simp add: path_inv_def path_ok_nil)
  qed (simp add: path_inv_def)
  obtain q where q: "lextable_decode (nat (lextable_pos w)) (unat c) = Some q"
    using assms(2) by (cases "lextable_decode (nat (lextable_pos w)) (unat c)") (simp_all add: name_part_def)
  show ?thesis
  proof (cases "q < 0 \<or> \<not> lextable ! nat q < FAIL_CHAR")
    case True
    with q assms(2,3) have "parser_state v = 80 \<or> parser_state v = 81"
      by (simp add: name_part_def Let_def split: if_splits) (auto split: if_splits)
    then show ?thesis by (auto simp: path_inv_def is_uri_state_def)
  next
    case False
    with q assms(2) show ?thesis
      by (intro fresh [of "w\<lparr>lextable_pos := q\<rparr>"
            "push_bit 8 (lextable ! nat q) OR lextable ! (nat q + 1)"])
         (simp_all add: name_part_def Let_def split: if_splits)
  qed
qed

definition uri_inv :: "hdr_wsi \<Rightarrow> bool" where
  "uri_inv w \<longleftrightarrow> hdr_ok w \<and> path_inv w"

lemma libwebsocket_parse_path:
  assumes "hdr_ok w" "path_inv w" "libwebsocket_parse None w c = Inr v"
  shows "path_inv v"
proof (cases "collecting w")
  case True
  have s: "store_ok w" using assms by (simp add: hdr_ok_def)
  have "parser_state w < 79" using True by (simp add: collecting_def)
  then have "collect (parse_body (\<lambda>_ _. Inl Overrun) None) w c = Inr v"
    using assms(3) by (simp add: libwebsocket_parse_def parse_body_def [of "parse_body _ _"])
  from collect_path [OF s True assms(2) refl this] show ?thesis .
next
  case False
  then have w: "store_ok w" "between_values w" using assms by (simp_all add: hdr_ok_def)
  show ?thesis
  proof (cases "parser_state w = 80")
    case True
    with assms name_part_path [OF w(1) _ True] show ?thesis
      by (simp add: libwebsocket_parse_def parse_body_def)
  next
    case nn: False
    with w have "parser_state w = 81 \<or> parser_state w = 82 \<or> parser_state w = 83"
      by (auto simp: between_values_def)
    with assms(3) show ?thesis
      by (auto simp: libwebsocket_parse_def parse_body_def path_inv_def is_uri_state_def
          split: if_splits)
  qed
qed

interpretation uri: byte_machine "libwebsocket_parse None" uri_inv
proof
  fix w c w'
  assume "uri_inv w" "libwebsocket_parse None w c = Inr w'"
  then show "uri_inv w'"
    using hdr.step_invar [of w c w'] libwebsocket_parse_path [of w c w'] by (simp add: uri_inv_def)
qed

section \<open>Filing a header\<close>

text \<open>Putting a string, one character after the other.\<close>

abbreviation put_chars :: "byte list \<Rightarrow> allocated_headers \<Rightarrow> allocated_headers" where
  "put_chars s a \<equiv> fold put_char s a"

lemma put_chars_simps [simp]:
  "ah_next_frag_index (put_chars s a) = ah_next_frag_index a"
  "ah_frag_index (put_chars s a) = ah_frag_index a"
  "ah_pos (put_chars s a) = ah_pos a + length s"
  by (induction s arbitrary: a) simp_all

lemma ah_ok_put_chars:
  "ah_ok a \<Longrightarrow> ah_closed a \<Longrightarrow> 0 < ah_next_frag_index a \<Longrightarrow> ah_pos a + length s \<le> 1024 \<Longrightarrow>
     ah_ok (put_chars s a) \<and> ah_closed (put_chars s a)"
  by (induction s arbitrary: a) (simp_all add: ah_ok_put_char ah_closed_put_char)

lemma uri_text_put_chars:
  assumes "ah_ok a" "ah_closed a" "0 < ah_next_frag_index a" "ah_pos a + length s \<le> 1024"
  shows "uri_text (put_chars s a) = uri_text a @ s"
  using assms
  by (induction s arbitrary: a) (simp_all add: ah_ok_put_char ah_closed_put_char uri_text_put_char)

lemma cur_frag_put_chars:
  assumes "ah_ok a" "ah_closed a" "0 < ah_next_frag_index a" "ah_pos a + length s \<le> 1024" "0 \<notin> set s"
  shows "frag_len (cur_frag (put_chars s a)) = frag_len (cur_frag a) + length s"
    "next_frag (cur_frag (put_chars s a)) = next_frag (cur_frag a)"
  using assms
proof (induction s arbitrary: a)
  case (Cons c s)
  {
    case 1
    with Cons.IH(1) [of "put_char c a"] show ?case
      by (simp add: ah_ok_put_char ah_closed_put_char put_char_frag ah_ok_sizes)
  next
    case 2
    with Cons.IH(2) [of "put_char c a"] show ?case
      by (simp add: ah_ok_put_char ah_closed_put_char ah_ok_sizes)
  }
qed simp_all

text \<open>
  A header whose only fragment is the current one, complete with its NUL: what the accessors
  give.
\<close>

definition files_cur :: "allocated_headers \<Rightarrow> nat \<Rightarrow> byte list \<Rightarrow> bool" where
  "files_cur a h v \<longleftrightarrow> ah_ok a \<and> ah_closed a \<and> cur_closed a \<and> 0 < ah_next_frag_index a \<and>
     ah_frag_index a ! h = ah_next_frag_index a \<and>
     next_frag (cur_frag a) = 0 \<and> frag_len (cur_frag a) = length v \<and> uri_text a = v @ [0]"

lemma c_string_uri_text:
  assumes "ah_ok a" "0 < ah_next_frag_index a" "uri_text a = v @ [0]" "0 \<notin> set v"
  shows "c_string (ah_data a) (frag_offset (cur_frag a)) = Some v"
proof -
  let ?o = "frag_offset (cur_frag a)"
  have "drop ?o (ah_data a) = (v @ [0]) @ drop (ah_pos a - ?o) (drop ?o (ah_data a))"
    by (metis append_take_drop_id assms(3) uri_text_def)
  moreover have "takeWhile (\<lambda>b. b \<noteq> 0) (v @ 0 # r) = v" for r
    using assms(4) by (induction v) auto
  ultimately show ?thesis by (simp add: c_string_def)
qed

lemma files_cur_copy:
  assumes "files_cur a h v" "0 \<notin> set v"
  shows "lws_hdr_total_length a h = Some (length v)"
    and "length v < length dest \<Longrightarrow>
           lws_hdr_copy a dest h = Inr (length v, v @ [0] @ drop (length v + 1) dest)"
    and "length dest \<le> length v \<Longrightarrow> lws_hdr_copy a dest h = Inl Reject"
proof -
  let ?i = "ah_next_frag_index a"
  have i: "0 < ?i" "?i < length (ah_frags a)" "ah_frag_index a ! h = ?i"
    "next_frag (cur_frag a) = 0" "frag_len (cur_frag a) = length v"
    using assms(1) ah_ok_sizes by (auto simp: files_cur_def)
  have chain: "frag_chain 158 (ah_frags a) ?i = Some [?i]"
    using i by (simp add: numeral_eq_Suc)
  show len: "lws_hdr_total_length a h = Some (length v)"
    using i chain by (simp add: lws_hdr_total_length_def Let_def)
  have s: "c_string (ah_data a) (frag_offset (cur_frag a)) = Some v"
    using assms by (intro c_string_uri_text) (simp_all add: files_cur_def)
  show "lws_hdr_copy a dest h = Inr (length v, v @ [0] @ drop (length v + 1) dest)"
    if "length v < length dest"
    using that i chain s by (simp add: lws_hdr_copy_def len strcpy_def)
  show "lws_hdr_copy a dest h = Inl Reject" if "length dest \<le> length v"
    using that by (simp add: lws_hdr_copy_def len)
qed

text \<open>A fresh fragment filled with a string and closed.\<close>

lemma files_cur_filled:
  assumes "ah_ok a" "ah_closed a" "cur_closed a" "ah_next_frag_index a + 1 < 158" "h < 79"
    "ah_pos a + length v < 1024" "0 \<notin> set v"
  shows "files_cur (put_char 0 (put_chars v
           ((next_open a)\<lparr>ah_frag_index := (ah_frag_index a)[h := ah_next_frag_index a + 1]\<rparr>))) h v"
proof -
  let ?b = "(next_open a)\<lparr>ah_frag_index := (ah_frag_index a)[h := ah_next_frag_index a + 1]\<rparr>"
  have b: "ah_ok ?b" "ah_closed ?b"
    using ah_ok_index [OF ah_ok_next_open [OF assms(1,4)], of "ah_next_frag_index a + 1" h]
      ah_closed_next_open [OF assms(1-4)] assms(5) by simp_all
  have fr: "cur_frag ?b = \<lparr>frag_offset = ah_pos a, frag_len = 0, next_frag = 0\<rparr>"
    using assms(4) ah_ok_sizes [OF assms(1)] by (simp add: next_open_frag)
  have t: "uri_text ?b = []" using fr by (simp add: uri_text_def)
  let ?c = "put_chars v ?b"
  have c: "ah_ok ?c" "ah_closed ?c" "uri_text ?c = v" "frag_len (cur_frag ?c) = length v"
    "next_frag (cur_frag ?c) = 0"
    using ah_ok_put_chars [OF b] uri_text_put_chars [OF b] cur_frag_put_chars [OF b] fr t assms(6,7)
    by simp_all
  show ?thesis
    using c assms(5,6) ah_ok_sizes [OF assms(1)] ah_ok_sizes [OF c(1)]
    by (simp add: files_cur_def ah_ok_put_char ah_closed_put_char cur_closed_put_nul
        uri_text_put_char put_char_frag)
qed

subsection \<open>Headers created by the library\<close>

lemma simple_create_step:
  "simple_create_loop a [] = (if ah_pos a = 1024 then Inl Reject else Inr (put_char 0 a))"
  "simple_create_loop a (c # s) =
     (if ah_pos a = 1024 then Inl Reject else simple_create_loop (put_char c a) s)"
  by (subst simple_create_loop.simps; simp)+

lemma simple_create_loop_fits:
  "ah_pos a + length s < 1024 \<Longrightarrow> simple_create_loop a s = Inr (put_char 0 (put_chars s a))"
  by (induction s arbitrary: a) (simp_all add: simple_create_step)

lemma simple_create_loop_full:
  "ah_pos a \<le> 1024 \<Longrightarrow> 1024 \<le> ah_pos a + length s \<Longrightarrow> simple_create_loop a s = Inl Reject"
  by (induction s arbitrary: a) (simp_all add: simple_create_step)

subsection \<open>Headers read from the request\<close>

text \<open>The name: the parser walks the table as the lexer does.\<close>

lemma run_name:
  assumes "lex_run p (map unat nm) = Some (Lex_hit n [])" "parser_state w = 80" "lextable_pos w = int p"
  shows "\<exists>q. run_bytes (libwebsocket_parse None) w nm = known_header None (w\<lparr>lextable_pos := q\<rparr>) n"
  using assms
proof (induction nm arbitrary: p w)
  case (Cons c cs)
  obtain q where q: "lextable_decode p (unat c) = Some q" "0 \<le> q" "nat q < length lextable"
    using Cons.prems(1) by (auto split: option.splits if_splits)
  let ?w = "w\<lparr>lextable_pos := q\<rparr>"
  have step: "libwebsocket_parse None w c = name_part None w c"
    using Cons.prems by (simp add: libwebsocket_parse_def parse_body_def)
  show ?case
  proof (cases "lextable ! nat q < FAIL_CHAR")
    case True
    then have "cs = []" "nat q + 1 < length lextable"
      "n = push_bit 8 (lextable ! nat q) OR lextable ! (nat q + 1)"
      using Cons.prems(1) q by (auto split: if_splits)
    with True q Cons.prems step show ?thesis
      by (intro exI [of _ q]) (auto simp: name_part_def Let_def split: sum.split)
  next
    case False
    then have "lex_run (nat q) (map unat cs) = Some (Lex_hit n [])" "name_part None w c = Inr ?w"
      using Cons.prems q by (auto simp: name_part_def Let_def)
    with Cons.IH [of "nat q" ?w] Cons.prems q step show ?thesis by simp
  qed
qed simp

text \<open>The value: leading spaces are dropped, the rest is filed.\<close>

lemma run_spaces:
  assumes "collecting w" "ah_frag_index (hdr_ah w) ! parser_state w = ah_next_frag_index (hdr_ah w)"
    "frag_len (cur_frag (hdr_ah w)) = 0"
  shows "run_bytes (libwebsocket_parse None) w (replicate k 0x20) = Inr w"
proof -
  have "libwebsocket_parse None w 0x20 = Inr w"
    using assms by (auto simp: libwebsocket_parse_def parse_body_def collect_def collecting_def)
  then show ?thesis by (induction k) auto
qed

lemma run_value:
  assumes "store_ok w" "collecting w" "\<not> is_uri_state (parser_state w)"
    "ah_frag_index (hdr_ah w) ! parser_state w = ah_next_frag_index (hdr_ah w)"
    "0 < frag_len (cur_frag (hdr_ah w)) \<or> v = [] \<or> hd v \<noteq> 0x20"
    "ah_pos (hdr_ah w) + length v \<le> 1024" "0 \<notin> set v" "0x0d \<notin> set v"
  shows "run_bytes (libwebsocket_parse None) w v = Inr (w\<lparr>hdr_ah := put_chars v (hdr_ah w)\<rparr>)"
  using assms
proof (induction v arbitrary: w)
  case (Cons c cs)
  let ?w = "w\<lparr>hdr_ah := put_char c (hdr_ah w)\<rparr>"
  have p: "ah_pos (hdr_ah w) < 1024" using Cons.prems by simp
  have "libwebsocket_parse None w c = check_eol w c"
    using Cons.prems by (auto simp: libwebsocket_parse_def parse_body_def collect_def collecting_def Let_def)
  then have step: "libwebsocket_parse None w c = Inr ?w"
    using Cons.prems p by (simp add: check_eol_eq)
  have "run_bytes (libwebsocket_parse None) ?w cs = Inr (?w\<lparr>hdr_ah := put_chars cs (hdr_ah ?w)\<rparr>)"
  proof (rule Cons.IH)
    show "store_ok ?w" "collecting ?w" using hdr_ok_put [OF Cons.prems(1,2) p] by simp_all
    show "0 < frag_len (cur_frag (hdr_ah ?w)) \<or> cs = [] \<or> hd cs \<noteq> 0x20"
      using Cons.prems ah_ok_sizes [of "hdr_ah w"] by (simp add: put_char_frag store_ok_def)
  qed (use Cons.prems in simp_all)
  with step show ?case by simp
qed simp

lemma lex_run_name:
  "n < 73 \<Longrightarrow> map tolower (map unat nm) = lex_codes n \<Longrightarrow>
     lex_run 0 (map unat nm) = Some (Lex_hit n [])"
  by (auto simp: lex_run_hit)

lemma known_header_fresh:
  assumes "ah_frag_index (hdr_ah w) ! n = 0" "n \<noteq> 8" "n \<noteq> 34" "ah_next_frag_index (hdr_ah w) + 1 < 158"
  shows "known_header None w n = Inr (w\<lparr>parser_state := n, current_token_limit := 1024,
           hdr_ah := (next_open (hdr_ah w))\<lparr>ah_frag_index :=
             (ah_frag_index (hdr_ah w))[n := ah_next_frag_index (hdr_ah w) + 1]\<rparr>\<rparr>)"
  using assms by (simp add: known_header_def start_fragment_def Let_def)

lemma run_method:
  assumes w: "hdr_ok w" "parser_state w = 80" "lextable_pos w = 0"
    and n: "n < 73" "n \<noteq> 8" "n \<noteq> 34" "ah_frag_index (hdr_ah w) ! n = 0"
    and nm: "map tolower (map unat nm) = lex_codes n"
    and room: "ah_next_frag_index (hdr_ah w) + 1 < 158"
  shows "\<exists>q. let v = w\<lparr>lextable_pos := q, parser_state := n, current_token_limit := 1024,
           hdr_ah := (next_open (hdr_ah w))\<lparr>ah_frag_index :=
             (ah_frag_index (hdr_ah w))[n := ah_next_frag_index (hdr_ah w) + 1]\<rparr>\<rparr>
         in run_bytes (libwebsocket_parse None) w nm = Inr v \<and> store_ok v \<and> collecting v"
proof -
  obtain q where q: "run_bytes (libwebsocket_parse None) w nm = known_header None (w\<lparr>lextable_pos := q\<rparr>) n"
    using run_name [OF lex_run_name [OF n(1) nm] w(2)] w(3) by auto
  let ?v = "w\<lparr>lextable_pos := q, parser_state := n, current_token_limit := 1024,
           hdr_ah := (next_open (hdr_ah w))\<lparr>ah_frag_index :=
             (ah_frag_index (hdr_ah w))[n := ah_next_frag_index (hdr_ah w) + 1]\<rparr>\<rparr>"
  have r: "run_bytes (libwebsocket_parse None) w nm = Inr ?v"
    using q known_header_fresh [of "w\<lparr>lextable_pos := q\<rparr>" n] n room by simp
  then have "hdr_ok ?v" by (rule hdr.run_invar [OF w(1)])
  then have "store_ok ?v" "collecting ?v"
    using n(1) by (auto simp: hdr_ok_def between_values_def)
  with r show ?thesis by (auto simp: Let_def)
qed

lemma parse_header_line:
  assumes w: "hdr_ok w" "parser_state w = 80" "lextable_pos w = 0"
    and n: "n < 73" "\<not> is_uri_state n" "n \<noteq> 8" "n \<noteq> 34" "ah_frag_index (hdr_ah w) ! n = 0"
    and nm: "map tolower (map unat nm) = lex_codes n"
    and v: "v = [] \<or> hd v \<noteq> 0x20" "0 \<notin> set v" "0x0d \<notin> set v"
    and room: "ah_pos (hdr_ah w) + length v < 1024" "ah_next_frag_index (hdr_ah w) + 1 < 158"
  shows "\<exists>w'. run_bytes (libwebsocket_parse None) w (nm @ replicate k 0x20 @ v @ [0x0d, 0x0a]) = Inr w' \<and>
           parser_state w' = 80 \<and> lextable_pos w' = 0 \<and> files_cur (hdr_ah w') n v"
proof -
  let ?a = "hdr_ah w"
  let ?b = "(next_open ?a)\<lparr>ah_frag_index := (ah_frag_index ?a)[n := ah_next_frag_index ?a + 1]\<rparr>"
  obtain q w1 where w1_def: "w1 = w\<lparr>lextable_pos := q, parser_state := n,
      current_token_limit := 1024, hdr_ah := ?b\<rparr>"
    and r1: "run_bytes (libwebsocket_parse None) w nm = Inr w1"
    and w1: "store_ok w1" "collecting w1"
    using run_method [OF w n(1,3,4,5) nm room(2)] by (auto simp: Let_def)
  have ok: "ah_ok ?a" "ah_closed ?a" "cur_closed ?a"
    using w by (auto simp: hdr_ok_def store_ok_def between_values_def collecting_def)
  have len0: "frag_len (cur_frag (hdr_ah w1)) = 0"
    using room ah_ok_sizes [OF ok(1)] by (simp add: w1_def next_open_frag)
  have idx: "ah_frag_index (hdr_ah w1) ! parser_state w1 = ah_next_frag_index (hdr_ah w1)"
    using n(1) ah_ok_sizes [OF ok(1)] by (simp add: w1_def)
  have r2: "run_bytes (libwebsocket_parse None) w1 (replicate k 0x20) = Inr w1"
    using w1 idx len0 by (intro run_spaces) simp_all
  let ?w2 = "w1\<lparr>hdr_ah := put_chars v (hdr_ah w1)\<rparr>"
  have r3: "run_bytes (libwebsocket_parse None) w1 v = Inr ?w2"
    using w1 idx v room n by (intro run_value) (simp_all add: w1_def)
  have "hdr_ok ?w2" by (rule hdr.run_invar [OF _ r3]) (use w1 in \<open>simp add: hdr_ok_def\<close>)
  then have w2: "store_ok ?w2" "collecting ?w2"
    using n(1) by (auto simp: hdr_ok_def between_values_def w1_def)
  let ?w3 = "?w2\<lparr>parser_state := 82, hdr_ah := put_char 0 (hdr_ah ?w2)\<rparr>"
  have "libwebsocket_parse None ?w2 0x0d = check_eol ?w2 0x0d"
    using n w1 by (auto simp: libwebsocket_parse_def parse_body_def collect_def w1_def Let_def)
  then have r4: "libwebsocket_parse None ?w2 0x0d = Inr ?w3"
    using check_eol_eq [OF w2, of "0x0d"] room by (simp add: w1_def)
  have r5: "libwebsocket_parse None ?w3 0x0a = Inr (?w3\<lparr>parser_state := 80, lextable_pos := 0\<rparr>)"
    by (simp add: libwebsocket_parse_def parse_body_def)
  have "files_cur (hdr_ah ?w3) n v"
    using files_cur_filled [OF ok room(2) _ room(1) v(2), of n] n(1) by (simp add: w1_def)
  with r1 r2 r3 r4 r5 show ?thesis by (simp add: run_bytes_append)
qed

section \<open>Where the arguments of a URI come from\<close>

text \<open>An escape stands for a question mark only when it is the one of its code.\<close>

lemma hex_digit_eq:
  assumes m: "unat c = m"
  shows "-1 \<le> char_to_hex c" "char_to_hex c \<le> 15" "char_to_hex c = 3 \<longleftrightarrow> c = 0x33" "char_to_hex c = 15 \<longleftrightarrow> c = 0x66 \<or> c = 0x46"
proof -
  have n: "(c = 0x33) = (m = 51)" "(c = 0x66) = (m = 102)" "(c = 0x46) = (m = 70)"
    by (simp_all add: word_unat_eq_iff m)
  show "-1 \<le> char_to_hex c" "char_to_hex c \<le> 15" "char_to_hex c = 3 \<longleftrightarrow> c = 0x33" "char_to_hex c = 15 \<longleftrightarrow> c = 0x66 \<or> c = 0x46"
    unfolding char_to_hex_def n uint_nat m by (auto simp: word_le_nat_alt m)
qed

lemma escaped_question:
  assumes "(word_of_int (push_bit 4 (char_to_hex s) OR char_to_hex c) :: byte) = 0x3f" "0 \<le> char_to_hex c"
  shows "s = 0x33 \<and> (c = 0x66 \<or> c = 0x46)"
proof -
  have neg: "bit (word_of_int (push_bit 4 (-1) OR b) :: byte) 7" for b :: int
    by (simp add: bit_simps)
  have fin: "\<forall>a\<in>set [0..15]. \<forall>b\<in>set [0..15]. (word_of_int (push_bit 4 a OR b) :: byte) = 0x3f \<longrightarrow> a = 3 \<and> b = (15::int)"
    by (simp add: upto.simps)
  have "char_to_hex s \<noteq> -1"
    using assms(1) neg [of "char_to_hex c"] by auto
  moreover have "-1 \<le> char_to_hex s" "char_to_hex s \<le> 15" "char_to_hex c \<le> 15" by (rule hex_digit_eq [OF refl])+
  ultimately have h: "char_to_hex s \<in> set [0..15]" "char_to_hex c \<in> set [0..15]" using assms(2) by auto
  have "char_to_hex s = 3 \<and> char_to_hex c = 15" by (rule fin [rule_format, OF h assms(1)])
  then show ?thesis by (simp add: hex_digit_eq(3,4) [OF refl])
qed

text \<open>What stands of an escape, and whether the arguments have begun.\<close>

definition escape_state :: "hdr_wsi \<Rightarrow> bool \<times> uri_esc_states \<times> byte" where
  "escape_state w = (ups w = URIPS_ARGUMENTS, ues w, esc_stash w)"

lemma esc_upd [simp]:
  "escape_state (w\<lparr>hdr_ah := a\<rparr>) = escape_state w" "escape_state (w\<lparr>parser_state := s\<rparr>) = escape_state w" "escape_state (w\<lparr>lextable_pos := p\<rparr>) = escape_state w"
  "escape_state (w\<lparr>current_token_limit := l\<rparr>) = escape_state w" "escape_state (w\<lparr>hdr_parsing_completed := b\<rparr>) = escape_state w" "escape_state (w\<lparr>ietf_spec_revision := r\<rparr>) = escape_state w"
  by (simp_all add: escape_state_def)

lemma esc_issue: "issue_char w c = (n, v) \<Longrightarrow> escape_state v = escape_state w"
  by (auto simp: issue_char_def split: if_splits)

lemma esc_complete: "set_parsing_complete w = Inr v \<Longrightarrow> escape_state v = escape_state w"
  by (auto simp: set_parsing_complete_def Let_def split: option.splits if_splits)

lemma esc_start: "start_fragment w = Inr v \<Longrightarrow> escape_state v = escape_state w"
  by (auto simp: start_fragment_def Let_def split: option.splits if_splits)

lemma esc_swallow: "swallow w = Inr v \<Longrightarrow> escape_state v = escape_state w"
  by (auto simp: swallow_def dest: esc_complete split: if_splits)

lemma esc_eol: "check_eol w c = Inr v \<Longrightarrow> escape_state v = escape_state w"
  by (auto simp: check_eol_def Let_def dest!: esc_swallow esc_issue split: prod.splits if_splits)

lemma esc_end: "uri_end w = Inr v \<Longrightarrow> escape_state v = escape_state w"
  by (auto simp: uri_end_def dest!: esc_start esc_issue split: prod.splits if_splits)

lemma esc_name: "name_part limits w c = Inr v \<Longrightarrow> escape_state v = escape_state w"
  by (auto simp: name_part_def known_header_def Let_def dest!: esc_start esc_complete split: option.splits if_splits)

lemma esc_char:
  assumes "uri_char w c = Inr v"
  shows "ues v = ues w" "esc_stash v = esc_stash w" "ups v = URIPS_ARGUMENTS \<Longrightarrow> ups w = URIPS_ARGUMENTS \<or> c = 0x3f"
proof -
  obtain w1 sw where p: "uri_path w c = (w1, sw)" by fastforce
  have w1: "escape_state w1 = escape_state w"
    using p by (cases "ups w") (auto simp: uri_path_def escape_state_def issue_char_def split: if_splits)
  show "ues v = ues w" "esc_stash v = esc_stash w" "ups v = URIPS_ARGUMENTS \<Longrightarrow> ups w = URIPS_ARGUMENTS \<or> c = 0x3f"
    using assms p w1
    by (auto simp: uri_char_def uri_args_def Let_def escape_state_def dest!: esc_swallow esc_eol split: bool.splits if_splits sum.splits)
qed

text \<open>The bytes that were read so far account for it.\<close>

definition question_mark :: "byte list \<Rightarrow> bool" where
  "question_mark cs \<longleftrightarrow> 0x3f \<in> set cs \<or> subseq [0x25, 0x33, 0x66] cs \<or> subseq [0x25, 0x33, 0x46] cs"

definition accounted :: "byte list \<Rightarrow> hdr_wsi \<Rightarrow> bool" where
  "accounted cs w \<longleftrightarrow>
     (ups w = URIPS_ARGUMENTS \<longrightarrow> question_mark cs) \<and>
     (ues w = URIES_SEEN_PERCENT \<longrightarrow> 0x25 \<in> set cs) \<and>
     (ues w = URIES_SEEN_PERCENT_H1 \<longrightarrow> subseq [0x25, esc_stash w] cs)"

lemma question_more: "question_mark cs \<Longrightarrow> question_mark (cs @ ds)"
  by (auto simp: question_mark_def)

lemma accounted_esc: "accounted cs w \<Longrightarrow> escape_state v = escape_state w \<Longrightarrow> accounted (cs @ [c]) v"
  by (auto simp: accounted_def escape_state_def question_more)

lemma esc_body_idle:
  assumes "parse_body p limits w c = Inr v" "ues w = URIES_IDLE"
  shows "ues v = URIES_IDLE \<or> ues v = URIES_SEEN_PERCENT \<and> c = 0x25" "ups v = URIPS_ARGUMENTS \<Longrightarrow> ups w = URIPS_ARGUMENTS \<or> c = 0x3f"
  using assms
  by (auto simp: parse_body_def collect_def Let_def uri_unescape_def dest!: esc_name esc_eol esc_end esc_swallow dest: esc_char
      split: if_splits) (auto simp: escape_state_def dest: esc_char)

lemma subseq_snoc: "subseq xs ys \<Longrightarrow> subseq (xs @ [c]) (ys @ [c])"
  by simp

lemma uri_unescape_accounted:
  assumes u: "uri_unescape (parse_body p limits) w c = Inr (v, x)" and w: "accounted cs w"
  shows "accounted (cs @ [c]) v \<and> (\<forall>d. x = Some d \<and> d = 0x3f \<longrightarrow> question_mark (cs @ [c]))"
proof (cases "ues w")
  case URIES_IDLE
  then show ?thesis
    using u w by (auto simp: uri_unescape_def accounted_def question_more split: if_splits) (auto simp: question_mark_def)
next
  case URIES_SEEN_PERCENT
  have "subseq [0x25, c] (cs @ [c])"
    using subseq_snoc [of "[0x25]" cs c] w URIES_SEEN_PERCENT by (simp add: accounted_def subseq_singleton_left)
  then show ?thesis
    using u w URIES_SEEN_PERCENT
    by (auto simp: uri_unescape_def accounted_def question_more escape_state_def dest!: esc_issue split: if_splits prod.splits)
       (auto simp: question_mark_def)
next
  case URIES_SEEN_PERCENT_H1
  have s: "subseq [0x25, esc_stash w] cs" using w URIES_SEEN_PERCENT_H1 by (simp add: accounted_def)
  have in_cs: "esc_stash w \<in> set cs" "0x25 \<in> set cs" 
    using subseq_order.trans [OF _ s, of "[esc_stash w]"] subseq_order.trans [OF _ s, of "[0x25]"]
    by (simp_all add: subseq_singleton_left)
  show ?thesis
  proof (cases "char_to_hex c < 0")
    case True
    obtain n w1 where i: "issue_char w 0x25 = (n, w1)" by fastforce
    have r: "parse_body p limits (w1\<lparr>ues := URIES_IDLE\<rparr>) (esc_stash w) = Inr v" "x = Some c" and e: "escape_state w1 = escape_state w"
      using u URIES_SEEN_PERCENT_H1 True i esc_issue [OF i] by (auto simp: uri_unescape_def escape_state_def split: sum.splits)
    show ?thesis
      using esc_body_idle [OF r(1)] e w in_cs r(2)
      by (auto simp: accounted_def escape_state_def question_more) (auto simp: question_mark_def)
  next
    case False
    then have "question_mark (cs @ [c])" if "word_of_int (push_bit 4 (char_to_hex (esc_stash w)) OR char_to_hex c) = (0x3f :: byte)"
      using escaped_question [OF that] subseq_snoc [OF s, of c] by (auto simp: question_mark_def)
    then show ?thesis
      using u w URIES_SEEN_PERCENT_H1 False by (auto simp: uri_unescape_def accounted_def question_more)
  qed
qed

lemma parse_accounted:
  assumes "libwebsocket_parse limits w c = Inr v" "accounted cs w"
  shows "accounted (cs @ [c]) v"
proof -
  let ?p = "parse_body (\<lambda>_ _. Inl Overrun) limits"
  consider "escape_state v = escape_state w" | w1 x where "uri_unescape ?p w c = Inr (w1, x)"
      "case x of None \<Rightarrow> swallow w1 = Inr v | Some d \<Rightarrow> uri_char w1 d = Inr v"
    using assms(1)
    by (auto simp: libwebsocket_parse_def parse_body_def [of ?p] collect_def Let_def dest: esc_name esc_eol esc_end
        split: if_splits sum.splits option.splits)
  then show ?thesis
  proof cases
    case 1
    then show ?thesis by (rule accounted_esc [OF assms(2)])
  next
    case (2 w1 x)
    then show ?thesis
      using uri_unescape_accounted [OF 2(1) assms(2)]
      by (cases x) (auto simp: accounted_def escape_state_def dest: esc_char esc_swallow)
  qed
qed

lemma run_accounted: "run_bytes (libwebsocket_parse limits) w cs = Inr v \<Longrightarrow> accounted ds w \<Longrightarrow> accounted (ds @ cs) v"
proof (induction cs arbitrary: w ds)
  case (Cons c cs)
  then show ?case using parse_accounted [of limits w c _ ds] Cons.IH [of _ "ds @ [c]"] by (auto split: sum.splits)
qed simp

section \<open>Behaviour at the limits\<close>

text \<open>Arguments in a URI when the data or the fragments are used up.\<close>

lemma uri_args_overruns:
  assumes "collecting w" "is_uri_state (parser_state w)" "ues w = URIES_IDLE" "ups w = URIPS_IDLE"
    "ah_pos (hdr_ah w) = 1024"
  shows "libwebsocket_parse None w 0x3f = Inl Overrun"
  using assms
  by (auto simp: libwebsocket_parse_def parse_body_def collect_def collecting_def is_uri_state_def
      uri_unescape_def uri_char_def uri_path_def uri_args_def Let_def)

lemma uri_step_filed:
  assumes "store_ok w" "collecting w" "is_uri_state (parser_state w)" "ues w = URIES_IDLE"
    "ah_pos (hdr_ah w) < 1024" "c \<notin> {0x25, 0x3f, 0x20, 0x0d}"
    "ups w = URIPS_IDLE \<and> c \<noteq> 0x2f \<or> ups w = URIPS_ARGUMENTS"
  shows "libwebsocket_parse None w c = Inr (w\<lparr>hdr_ah := put_char c (hdr_ah w)\<rparr>)"
proof -
  have "libwebsocket_parse None w c = check_eol w c"
    using assms by (auto simp: libwebsocket_parse_def parse_body_def collect_def collecting_def
        is_uri_state_def uri_unescape_def uri_char_def uri_path_def)
  then show ?thesis using assms by (simp add: check_eol_eq)
qed

lemma run_uri_filed:
  assumes "store_ok w" "collecting w" "is_uri_state (parser_state w)" "ues w = URIES_IDLE"
    "ah_pos (hdr_ah w) + length s \<le> 1024" "set s \<inter> {0x25, 0x3f, 0x20, 0x0d} = {}"
    "ups w = URIPS_IDLE \<and> 0x2f \<notin> set s \<or> ups w = URIPS_ARGUMENTS"
  shows "run_bytes (libwebsocket_parse None) w s = Inr (w\<lparr>hdr_ah := put_chars s (hdr_ah w)\<rparr>)"
  using assms
proof (induction s arbitrary: w)
  case (Cons c s)
  have p: "ah_pos (hdr_ah w) < 1024" using Cons.prems by simp
  have step: "libwebsocket_parse None w c = Inr (w\<lparr>hdr_ah := put_char c (hdr_ah w)\<rparr>)"
    using Cons.prems p by (intro uri_step_filed) auto
  have "run_bytes (libwebsocket_parse None) (w\<lparr>hdr_ah := put_char c (hdr_ah w)\<rparr>) s =
      Inr (w\<lparr>hdr_ah := put_chars s (put_char c (hdr_ah w))\<rparr>)"
    using Cons.IH [of "w\<lparr>hdr_ah := put_char c (hdr_ah w)\<rparr>"] hdr_ok_put [OF Cons.prems(1,2) p, of c]
      Cons.prems by auto
  with step show ?case by simp
qed simp

text \<open>The parser at the start of a request: the state after \<open>lws_allocate_header_table\<close>.\<close>

definition hdr_start :: "hdr_wsi \<Rightarrow> bool" where
  "hdr_start w \<longleftrightarrow> length (ah_frags (hdr_ah w)) = FRAGS \<and> length (ah_data (hdr_ah w)) = LWS_MAX_HEADER_LEN \<and>
     ah_frag_index (hdr_ah w) = replicate WSI_TOKEN_COUNT 0 \<and> ah_next_frag_index (hdr_ah w) = 0 \<and>
     ah_pos (hdr_ah w) = 0 \<and> parser_state w = WSI_TOKEN_NAME_PART \<and> lextable_pos w = 0 \<and>
     ups w = URIPS_IDLE \<and> ues w = URIES_IDLE"

lemma hdr_start_ok: "hdr_start w \<Longrightarrow> hdr_ok w"
  by (simp add: hdr_start_def hdr_ok_def store_ok_def between_values_def ah_ok_def ah_closed_def
      cur_closed_def lex_pos_ok_start)

lemma hdr_start_uri: "hdr_start w \<Longrightarrow> uri_inv w"
  by (auto simp: uri_inv_def hdr_start_ok path_inv_def is_uri_state_def hdr_start_def)

lemma method_codes:
  "map tolower (map unat (bytes ''GET '')) = lex_codes 0"
  "map tolower (map unat (bytes ''POST '')) = lex_codes 1"
  by (simp_all add: lex_codes_def lex_strings_def bytes_def tolower_def)

lemma overrun_reachable:
  assumes "hdr_start w"
  shows "run_bytes (libwebsocket_parse None) w (bytes ''GET '' @ replicate 1024 0x61 @ [0x3f]) = Inl Overrun"
proof -
  have w: "parser_state w = 80" "lextable_pos w = 0" "ah_frag_index (hdr_ah w) ! 0 = 0"
    "ah_next_frag_index (hdr_ah w) + 1 < 158" "ah_pos (hdr_ah w) = 0" "ups w = URIPS_IDLE"
    "ues w = URIES_IDLE"
    using assms by (simp_all add: hdr_start_def)
  obtain v where v: "run_bytes (libwebsocket_parse None) w (bytes ''GET '') = Inr v"
    "store_ok v" "collecting v" "is_uri_state (parser_state v)" "ues v = URIES_IDLE"
    "ups v = URIPS_IDLE" "ah_pos (hdr_ah v) = 0"
    using run_method [OF hdr_start_ok [OF assms] w(1,2) _ _ _ w(3) method_codes(1) w(4)] w
    by (auto simp: Let_def is_uri_state_def)
  define s :: "byte list" where "s = replicate 1024 0x61"
  have s: "length s = 1024" "set s = {0x61}" by (simp_all add: s_def)
  let ?u = "v\<lparr>hdr_ah := put_chars s (hdr_ah v)\<rparr>"
  have f: "run_bytes (libwebsocket_parse None) v s = Inr ?u"
    using v s by (intro run_uri_filed) simp_all
  have "collecting ?u" using v by (simp add: collecting_def)
  then have "libwebsocket_parse None ?u 0x3f = Inl Overrun"
    using v s by (intro uri_args_overruns) simp_all
  with v(1) f show ?thesis by (simp add: run_bytes_append flip: s_def)
qed

text \<open>
  The path state is not reset between two URIs of one request: after arguments in the first, the
  second is filed as it stands.
\<close>

lemma second_uri_raw:
  assumes w: "hdr_ok w" "parser_state w = 80" "lextable_pos w = 0" "ups w = URIPS_ARGUMENTS"
    "ues w = URIES_IDLE" "ah_frag_index (hdr_ah w) ! 0 = 0"
    and room: "ah_next_frag_index (hdr_ah w) + 1 < 158" "ah_pos (hdr_ah w) + length p \<le> 1024"
    and p: "set p \<inter> {0x25, 0x3f, 0x20, 0x0d} = {}"
  shows "\<exists>v. run_bytes (libwebsocket_parse None) w (bytes ''GET '' @ p) = Inr v \<and>
           parser_state v = 0 \<and> ah_frag_index (hdr_ah v) ! 0 = ah_next_frag_index (hdr_ah v) \<and>
           uri_text (hdr_ah v) = p"
proof -
  let ?b = "(next_open (hdr_ah w))\<lparr>ah_frag_index :=
    (ah_frag_index (hdr_ah w))[0 := ah_next_frag_index (hdr_ah w) + 1]\<rparr>"
  have ok: "ah_ok (hdr_ah w)" using w(1) by (simp add: hdr_ok_def store_ok_def)
  obtain q v where v: "v = w\<lparr>lextable_pos := q, parser_state := 0, current_token_limit := 1024,
      hdr_ah := ?b\<rparr>"
    "run_bytes (libwebsocket_parse None) w (bytes ''GET '') = Inr v" "store_ok v" "collecting v"
    using run_method [OF w(1-3) _ _ _ w(6) method_codes(1) room(1)] by (auto simp: Let_def)
  have f: "run_bytes (libwebsocket_parse None) v p = Inr (v\<lparr>hdr_ah := put_chars p (hdr_ah v)\<rparr>)"
    using v w room p by (intro run_uri_filed) (simp_all add: is_uri_state_def)
  have "uri_text ?b = []"
    using uri_text_next_open [of "hdr_ah w"] room ah_ok_sizes [OF ok] by (simp add: uri_text_def)
  then have "uri_text (put_chars p (hdr_ah v)) = p"
    using v uri_text_put_chars [of "hdr_ah v" p] room by (simp add: store_ok_def collecting_def)
  with v f show ?thesis using ah_ok_sizes [OF ok] by (auto simp: run_bytes_append)
qed

lemma post_args_state:
  assumes "hdr_start w"
  shows "\<exists>v. run_bytes (libwebsocket_parse None) w (bytes ''POST '' @ [0x61, 0x3f, 0x20, 0x0d, 0x0a]) = Inr v \<and>
           hdr_ok v \<and> parser_state v = 80 \<and> lextable_pos v = 0 \<and> ups v = URIPS_ARGUMENTS \<and>
           ues v = URIES_IDLE \<and> ah_frag_index (hdr_ah v) ! 0 = 0 \<and>
           ah_next_frag_index (hdr_ah v) = 3 \<and> ah_pos (hdr_ah v) = 5"
proof -
  have w: "parser_state w = 80" "lextable_pos w = 0" "ah_frag_index (hdr_ah w) = replicate 79 0"
    "ah_next_frag_index (hdr_ah w) = 0" "ah_pos (hdr_ah w) = 0" "ups w = URIPS_IDLE"
    "ues w = URIES_IDLE" "length (ah_frags (hdr_ah w)) = 158"
    using assms by (simp_all add: hdr_start_def)
  obtain v where v: "run_bytes (libwebsocket_parse None) w (bytes ''POST '') = Inr v"
    "store_ok v" "collecting v" "parser_state v = 1" "ues v = URIES_IDLE"
    "ups v = URIPS_IDLE" "ah_pos (hdr_ah v) = 0" "ah_next_frag_index (hdr_ah v) = 1"
    "ah_frag_index (hdr_ah v) = (replicate 79 0)[1 := 1]"
    using run_method [OF hdr_start_ok [OF assms] w(1,2) _ _ _ _ method_codes(2)] w
    by (auto simp: Let_def)
  have len: "length (ah_frags (hdr_ah v)) = 158" "current_token_limit v = 1024"
    "frag_len (cur_frag (hdr_ah v)) = 0"
    using v ah_ok_sizes ah_ok_ends [of "hdr_ah v" 1] by (auto simp: store_ok_def collecting_def)
  let ?a1 = "put_char 0x61 (hdr_ah v)"
  have s1: "libwebsocket_parse None v 0x61 = Inr (v\<lparr>hdr_ah := ?a1\<rparr>)"
    using v by (intro uri_step_filed) (simp_all add: is_uri_state_def)
  define a2 where "a2 = (next_open (put_char 0 ?a1))\<lparr>ah_frag_index :=
    ((replicate 79 0)[1 := 1])[73 := ah_next_frag_index (hdr_ah v) + 1]\<rparr>"
  have s2: "libwebsocket_parse None (v\<lparr>hdr_ah := ?a1\<rparr>) 0x3f =
      Inr (v\<lparr>hdr_ah := a2, ups := URIPS_ARGUMENTS\<rparr>)"
    using v by (simp add: libwebsocket_parse_def parse_body_def [of "parse_body _ _"] collect_def
        is_uri_state_def uri_unescape_def uri_char_def uri_path_def uri_args_def swallow_def put_data_nul
        Let_def a2_def)
  have f2: "frag_len (ah_frags a2 ! 1) = 1" "ah_next_frag_index a2 = 2" "ah_pos a2 = 2"
    "frag_len (ah_frags a2 ! 2) = 0" "length (ah_frags a2) = 158"
    "ah_frag_index a2 ! 0 = 0" "ah_frag_index a2 ! 1 = 1" "ah_frag_index a2 ! 15 = 0"
    "length (ah_frag_index a2) = 79"
    using v len by (simp_all add: next_open_frag put_char_frag a2_def)
  let ?a3 = "put_char 0 (put_char 0x2f a2)"
  let ?a4 = "(next_open ?a3)\<lparr>ah_frag_index := (ah_frag_index a2)[15 := ah_next_frag_index a2 + 1]\<rparr>"
  let ?v3 = "v\<lparr>hdr_ah := ?a4, ups := URIPS_ARGUMENTS, parser_state := 15\<rparr>"
  have s3: "libwebsocket_parse None (v\<lparr>hdr_ah := a2, ups := URIPS_ARGUMENTS\<rparr>) 0x20 = Inr ?v3"
    using v len f2 by (simp add: libwebsocket_parse_def parse_body_def [of "parse_body _ _"] collect_def
        is_uri_state_def uri_end_def issue_char_def start_fragment_def put_char_frag Let_def)
  have r3: "run_bytes (libwebsocket_parse None) w (bytes ''POST '' @ [0x61, 0x3f, 0x20]) = Inr ?v3"
    using v(1) s1 s2 s3 by (simp add: run_bytes_append)
  then have "hdr_ok ?v3" by (rule hdr.run_invar [OF hdr_start_ok [OF assms]])
  then have ok3: "store_ok ?v3" "collecting ?v3" by (auto simp: hdr_ok_def between_values_def)
  let ?v4 = "?v3\<lparr>parser_state := 82, hdr_ah := put_char 0 ?a4\<rparr>"
  have e4: "libwebsocket_parse None ?v3 0x0d = check_eol ?v3 0x0d"
    by (simp add: libwebsocket_parse_def parse_body_def collect_def is_uri_state_def Let_def)
  have s4: "libwebsocket_parse None ?v3 0x0d = Inr ?v4"
    unfolding e4 check_eol_eq [OF ok3] using f2 by simp
  have s5: "libwebsocket_parse None ?v4 0x0a = Inr (?v4\<lparr>parser_state := 80, lextable_pos := 0\<rparr>)"
    by (simp add: libwebsocket_parse_def parse_body_def)
  have r: "run_bytes (libwebsocket_parse None) w ((bytes ''POST '' @ [0x61, 0x3f, 0x20]) @ [0x0d, 0x0a]) =
      Inr (?v4\<lparr>parser_state := 80, lextable_pos := 0\<rparr>)"
    unfolding run_bytes_append [of _ _ "bytes ''POST '' @ [0x61, 0x3f, 0x20]"] r3
    using s4 s5 by simp
  from hdr.run_invar [OF hdr_start_ok [OF assms] this] r f2 v show ?thesis by simp
qed

section \<open>Properties\<close>

text \<open>A concrete start state: zeroed memory, no limits.\<close>

definition zero_hdr :: hdr_wsi where
  "zero_hdr =
     \<lparr>hdr_ah = \<lparr>ah_next_frag_index = 0, ah_pos = 0, ah_frag_index = replicate 79 0,
                ah_frags = replicate 158 \<lparr>frag_offset = 0, frag_len = 0, next_frag = 0\<rparr>,
                ah_data = replicate 1024 0\<rparr>,
      lextable_pos = 0, current_token_limit = 0, parser_state = 80, ups = URIPS_IDLE,
      ues = URIES_IDLE, esc_stash = 0, ietf_spec_revision = 0, hdr_parsing_completed = False\<rparr>"

lemma zero_hdr_start: "hdr_start zero_hdr"
  by (simp add: hdr_start_def zero_hdr_def)

text \<open>
  C14. The parser without token limits keeps its invariant on every byte: counters inside their
  arrays, fragments one after the other in the data, chains going forward, every finished
  value closed by a NUL, the table position valid. It leaves its arrays only through the start of
  URI arguments, when less than five bytes of the data are free or all fragments are used.
\<close>

theorem parse_keeps_invariant:
  assumes "hdr_ok w"
  shows "case libwebsocket_parse None w c of
           Inl Reject \<Rightarrow> True
         | Inl Overrun \<Rightarrow> is_uri_state (parser_state w) \<and>
             (1020 \<le> ah_pos (hdr_ah w) \<or> ah_next_frag_index (hdr_ah w) = 157)
         | Inr w' \<Rightarrow> hdr_ok w'"
  using libwebsocket_parse_ok [OF assms, of c] by (simp add: safe_or_def)

theorem parse_keeps_invariant_witness:
  "case libwebsocket_parse None zero_hdr 0x47 of
     Inl Reject \<Rightarrow> True
   | Inl Overrun \<Rightarrow> is_uri_state (parser_state zero_hdr) \<and>
       (1020 \<le> ah_pos (hdr_ah zero_hdr) \<or> ah_next_frag_index (hdr_ah zero_hdr) = 157)
   | Inr w' \<Rightarrow> hdr_ok w'"
  by (rule parse_keeps_invariant [OF hdr_start_ok [OF zero_hdr_start]])

text \<open>
  C24. Path normalisation: whatever bytes a client sends from the start of a request, while a URI is
  collected the path filed so far has no two slashes in a row and no \<open>/./\<close> and no \<open>/..\<close> in it, also
  when they were written with \<open>%\<close> escapes, as long as no question mark has begun the arguments of a
  URI: the normalisation is off from then on only, and only when the bytes read so far hold a question
  mark or the escape of one. (It stays off for a second URI of the same request:
  \<open>second_uri_not_normalised\<close> below.)
\<close>

theorem uri_path_stays_clean:
  assumes "hdr_start w" "run_bytes (libwebsocket_parse None) w cs = Inr v" "is_uri_state (parser_state v)"
  shows "clean_path (uri_text (hdr_ah v)) \<or> ups v = URIPS_ARGUMENTS \<and> question_mark cs"
proof (cases "ups v = URIPS_ARGUMENTS")
  case True
  have "accounted [] w" using assms(1) by (simp add: accounted_def hdr_start_def)
  then show ?thesis using run_accounted [OF assms(2), of "[]"] True by (simp add: accounted_def)
next
  case False
  then show ?thesis
    using uri.run_invar [OF hdr_start_uri [OF assms(1)] assms(2)] assms(3)
    by (simp add: uri_inv_def path_inv_def path_ok_def)
qed

theorem uri_path_stays_clean_witness:
  "\<exists>v. run_bytes (libwebsocket_parse None) zero_hdr (bytes ''GET //'') = Inr v \<and>
       uri_text (hdr_ah v) = bytes ''/'' \<and> clean_path (uri_text (hdr_ah v))"
proof -
  obtain v where v: "run_bytes (libwebsocket_parse None) zero_hdr (bytes ''GET '') = Inr v" "store_ok v" "collecting v"
    "parser_state v = 0" "ups v = URIPS_IDLE" "ues v = URIES_IDLE" "ah_pos (hdr_ah v) = 0" "uri_text (hdr_ah v) = []"
    using run_method [OF hdr_start_ok [OF zero_hdr_start] _ _ _ _ _ _ method_codes(1)]
    by (auto simp: Let_def is_uri_state_def zero_hdr_def uri_text_def)
  let ?u = "v\<lparr>ups := URIPS_SEEN_SLASH\<rparr>" and ?v = "v\<lparr>ups := URIPS_SEEN_SLASH, hdr_ah := put_char 0x2f (hdr_ah v)\<rparr>"
  have ok: "store_ok ?u" "collecting ?u" using v(2,3) by (simp_all add: store_ok_def collecting_def)
  have first: "libwebsocket_parse None v 0x2f = check_eol ?u 0x2f"
    using v by (simp add: libwebsocket_parse_def parse_body_def [of "parse_body _ _"] collect_def collecting_def is_uri_state_def uri_unescape_def
        uri_char_def uri_path_def)
  also have "\<dots> = Inr ?v" using v by (simp add: check_eol_eq [OF ok])
  finally have "libwebsocket_parse None v 0x2f = Inr ?v" .
  moreover have "libwebsocket_parse None ?v 0x2f = Inr ?v"
    using v by (simp add: libwebsocket_parse_def parse_body_def [of "parse_body _ _"] collect_def collecting_def is_uri_state_def uri_unescape_def
        uri_char_def uri_path_def swallow_def)
  ultimately have run: "run_bytes (libwebsocket_parse None) zero_hdr (bytes ''GET //'') = Inr ?v"
    using v(1) run_bytes_append [of "libwebsocket_parse None" zero_hdr "bytes ''GET ''" "[0x2f, 0x2f]"] by (simp add: bytes_def)
  have "uri_text (hdr_ah ?v) = bytes ''/''"
    using v(2,3,7,8) path_inv_collecting [OF v(2,3)] by (simp add: uri_text_put_char bytes_def)
  moreover have "clean_path (uri_text (hdr_ah ?v))"
    using uri_path_stays_clean [OF zero_hdr_start run] v by (simp add: is_uri_state_def)
  ultimately show ?thesis using run by blast
qed

text \<open>
  C23. A header line is filed: from a state between two headers, the name of a known header in any
  case, spaces, a value and the end of line bring the parser back between two headers, and
  \<open>lws_hdr_total_length\<close> and \<open>lws_hdr_copy\<close> then give the length and the bytes of that value, and
  refuse a buffer that is too small.
\<close>

theorem header_line_is_filed:
  assumes "hdr_ok w" "parser_state w = 80" "lextable_pos w = 0"
    and "n < 73" "\<not> is_uri_state n" "n \<noteq> 8" "n \<noteq> 34" "ah_frag_index (hdr_ah w) ! n = 0"
    and "map tolower (map unat nm) = map of_char (lex_strings ! n)"
    and "v = [] \<or> hd v \<noteq> 0x20" "0 \<notin> set v" "0x0d \<notin> set v"
    and "ah_pos (hdr_ah w) + length v < 1024" "ah_next_frag_index (hdr_ah w) + 1 < 158"
  shows "\<exists>w'. run_bytes (libwebsocket_parse None) w (nm @ replicate k 0x20 @ v @ [0x0d, 0x0a]) = Inr w' \<and>
           parser_state w' = 80 \<and> lextable_pos w' = 0 \<and>
           lws_hdr_total_length (hdr_ah w') n = Some (length v) \<and>
           (\<forall>dest. lws_hdr_copy (hdr_ah w') dest n =
              (if length v < length dest then Inr (length v, v @ [0] @ drop (length v + 1) dest)
               else Inl Reject))"
proof -
  obtain w' where "run_bytes (libwebsocket_parse None) w (nm @ replicate k 0x20 @ v @ [0x0d, 0x0a]) = Inr w'"
    "parser_state w' = 80" "lextable_pos w' = 0" "files_cur (hdr_ah w') n v"
    using parse_header_line [OF assms(1-8) assms(9) [folded lex_codes_def] assms(10-14)] by blast
  then show ?thesis using files_cur_copy [of "hdr_ah w'" n v] assms(11) by auto
qed

theorem header_line_is_filed_witness:
  "\<exists>w'. run_bytes (libwebsocket_parse None) zero_hdr (bytes ''Host: a'' @ [0x0d, 0x0a]) = Inr w' \<and>
        lws_hdr_total_length (hdr_ah w') 3 = Some 1"
  using header_line_is_filed [OF hdr_start_ok [OF zero_hdr_start], of 3 "bytes ''Host:''" "[0x61]" 1]
  by (auto simp: zero_hdr_def is_uri_state_def lex_strings_def bytes_def tolower_def)

text \<open>
  A string stored with \<open>lws_hdr_simple_create\<close> (the client's own handshake headers) comes back
  from \<open>lws_hdr_copy\<close>; it is stored exactly when a fragment and room for it and its NUL are left.
\<close>

theorem simple_create_copy:
  assumes "ah_ok a" "ah_closed a" "cur_closed a" "h < 79" "0 \<notin> set s"
  shows "case lws_hdr_simple_create a h s of
           Inl e \<Rightarrow> e = Reject \<and> (ah_next_frag_index a = 157 \<or> 1024 \<le> ah_pos a + length s)
         | Inr b \<Rightarrow> ah_next_frag_index a < 157 \<and> ah_pos a + length s < 1024 \<and> ah_ok b \<and>
             lws_hdr_copy b (replicate (length s + 1) 0) h = Inr (length s, s @ [0])"
proof (cases "ah_next_frag_index a + 1 < 158 \<and> ah_pos a + length s < 1024")
  case True
  let ?b = "(next_open a)\<lparr>ah_frag_index := (ah_frag_index a)[h := ah_next_frag_index a + 1]\<rparr>"
  have "lws_hdr_simple_create a h s = Inr (put_char 0 (put_chars s ?b))"
    using True simple_create_loop_fits [of ?b s] by (simp add: lws_hdr_simple_create_def Let_def)
  moreover have "files_cur (put_char 0 (put_chars s ?b)) h s"
    using True assms by (intro files_cur_filled) simp_all
  ultimately show ?thesis
    using True files_cur_copy(2) [of _ h s "replicate (length s + 1) 0"] assms(5)
    by (auto simp: files_cur_def)
next
  case False
  let ?b = "(next_open a)\<lparr>ah_frag_index := (ah_frag_index a)[h := ah_next_frag_index a + 1]\<rparr>"
  have "lws_hdr_simple_create a h s = Inl Reject"
    using False ah_ok_sizes [OF assms(1)] simple_create_loop_full [of ?b s]
    by (auto simp: lws_hdr_simple_create_def Let_def)
  with False ah_ok_sizes(5) [OF assms(1)] show ?thesis by auto
qed

theorem simple_create_copy_witness:
  "case lws_hdr_simple_create (hdr_ah zero_hdr) 75 [0x61, 0x62] of
     Inl e \<Rightarrow> e = Reject \<and> (ah_next_frag_index (hdr_ah zero_hdr) = 157 \<or> 1024 \<le> ah_pos (hdr_ah zero_hdr) + length [0x61, 0x62 :: byte])
   | Inr b \<Rightarrow> ah_next_frag_index (hdr_ah zero_hdr) < 157 \<and> ah_pos (hdr_ah zero_hdr) + length [0x61, 0x62 :: byte] < 1024 \<and> ah_ok b \<and>
       lws_hdr_copy b (replicate (length [0x61, 0x62 :: byte] + 1) 0) 75 = Inr (length [0x61, 0x62 :: byte], [0x61, 0x62] @ [0])"
  using hdr_start_ok [OF zero_hdr_start]
  by (intro simple_create_copy)
     (auto simp: hdr_ok_def store_ok_def between_values_def collecting_def zero_hdr_def)

text \<open>
  The unguarded writes at the start of URI arguments are reachable: a request line with 1024
  plain characters of URI and a question mark makes the parser write past the header data, from
  the very first state.
\<close>

theorem uri_args_overrun_reachable:
  assumes "hdr_start w"
  shows "run_bytes (libwebsocket_parse None) w (bytes ''GET '' @ replicate 1024 0x61 @ [0x3f]) = Inl Overrun"
  using assms by (rule overrun_reachable)

theorem uri_args_overrun_reachable_witness:
  "run_bytes (libwebsocket_parse None) zero_hdr (bytes ''GET '' @ replicate 1024 0x61 @ [0x3f]) = Inl Overrun"
  by (rule uri_args_overrun_reachable [OF zero_hdr_start])

text \<open>
  The path normalisation is switched off for the rest of a request by the arguments of its first
  URI: after a request line \<open>POST a? \<close> a second one is accepted whose path is filed byte for byte,
  also \<open>/../\<close>.
\<close>

theorem second_uri_not_normalised:
  assumes "hdr_start w" "length p \<le> 1019" "set p \<inter> {0x25, 0x3f, 0x20, 0x0d} = {}"
  shows "\<exists>v. run_bytes (libwebsocket_parse None) w
           (bytes ''POST '' @ [0x61, 0x3f, 0x20, 0x0d, 0x0a] @ bytes ''GET '' @ p) = Inr v \<and>
           parser_state v = 0 \<and> ah_frag_index (hdr_ah v) ! 0 = ah_next_frag_index (hdr_ah v) \<and>
           uri_text (hdr_ah v) = p"
proof -
  obtain u where u: "run_bytes (libwebsocket_parse None) w (bytes ''POST '' @ [0x61, 0x3f, 0x20, 0x0d, 0x0a]) = Inr u"
    "hdr_ok u" "parser_state u = 80" "lextable_pos u = 0" "ups u = URIPS_ARGUMENTS"
    "ues u = URIES_IDLE" "ah_frag_index (hdr_ah u) ! 0 = 0" "ah_next_frag_index (hdr_ah u) = 3"
    "ah_pos (hdr_ah u) = 5"
    using post_args_state [OF assms(1)] by blast
  have "run_bytes (libwebsocket_parse None) w
      ((bytes ''POST '' @ [0x61, 0x3f, 0x20, 0x0d, 0x0a]) @ bytes ''GET '' @ p) =
      run_bytes (libwebsocket_parse None) u (bytes ''GET '' @ p)"
    unfolding run_bytes_append [of _ _ "bytes ''POST '' @ [0x61, 0x3f, 0x20, 0x0d, 0x0a]"] u(1) by simp
  then show ?thesis
    using second_uri_raw [of u p] u assms(2,3) by simp
qed

theorem second_uri_not_normalised_witness:
  "\<exists>v. run_bytes (libwebsocket_parse None) zero_hdr
     (bytes ''POST '' @ [0x61, 0x3f, 0x20, 0x0d, 0x0a] @ bytes ''GET '' @ [0x2f, 0x2e, 0x2e, 0x2f]) = Inr v \<and>
     \<not> clean_path (uri_text (hdr_ah v))"
  using second_uri_not_normalised [OF zero_hdr_start, of "[0x2f, 0x2e, 0x2e, 0x2f]"]
  by (auto simp: clean_path_def sublist_Cons_right)

end
