(* ===== verification/Rx_Sm.thy ===== *)
theory Rx_Sm
  imports Lws_Prelude
begin

text \<open>
  The frame parsers: \<open>libwebsocket_rx_sm\<close> of \<^verbatim>\<open>lib/parsers.c\<close> (server side) and
  \<open>libwebsocket_client_rx_sm\<close> of \<^verbatim>\<open>lib/client-parser.c\<close>, which take a WebSocket stream one byte at a
  time, unmask the payload into the user buffer and spill it to the callbacks, together with
  the extension dispatch of \<^verbatim>\<open>lib/extension.c\<close> they go through.
\<close>

section \<open>State\<close>

datatype lws_rx_parse_state =
    LWS_RXPS_NEW
  | LWS_RXPS_04_MASK_NONCE_1 | LWS_RXPS_04_MASK_NONCE_2 | LWS_RXPS_04_MASK_NONCE_3
  | LWS_RXPS_04_FRAME_HDR_1 | LWS_RXPS_04_FRAME_HDR_LEN
  | LWS_RXPS_04_FRAME_HDR_LEN16_2 | LWS_RXPS_04_FRAME_HDR_LEN16_1
  | LWS_RXPS_04_FRAME_HDR_LEN64_8 | LWS_RXPS_04_FRAME_HDR_LEN64_7
  | LWS_RXPS_04_FRAME_HDR_LEN64_6 | LWS_RXPS_04_FRAME_HDR_LEN64_5
  | LWS_RXPS_04_FRAME_HDR_LEN64_4 | LWS_RXPS_04_FRAME_HDR_LEN64_3
  | LWS_RXPS_04_FRAME_HDR_LEN64_2 | LWS_RXPS_04_FRAME_HDR_LEN64_1
  | LWS_RXPS_07_COLLECT_FRAME_KEY_1 | LWS_RXPS_07_COLLECT_FRAME_KEY_2
  | LWS_RXPS_07_COLLECT_FRAME_KEY_3 | LWS_RXPS_07_COLLECT_FRAME_KEY_4
  | LWS_RXPS_PAYLOAD_UNTIL_LENGTH_EXHAUSTED

datatype lws_connection_states =
    WSI_STATE_HTTP | WSI_STATE_HTTP_ISSUING_FILE | WSI_STATE_HTTP_HEADERS | WSI_STATE_HTTP_BODY
  | WSI_STATE_DEAD_SOCKET | WSI_STATE_ESTABLISHED | WSI_STATE_CLIENT_UNCONNECTED
  | WSI_STATE_RETURNED_CLOSE_ALREADY | WSI_STATE_AWAITING_CLOSE_ACK
  | WSI_STATE_FLUSHING_STORED_SEND_BEFORE_CLOSE | WSI_STATE_HTTP2_AWAIT_CLIENT_PREFACE
  | WSI_STATE_HTTP2_ESTABLISHED_PRE_SETTINGS | WSI_STATE_HTTP2_ESTABLISHED

abbreviation (input) LWS_WS_OPCODE_07__CONTINUATION :: byte where "LWS_WS_OPCODE_07__CONTINUATION \<equiv> 0"
abbreviation (input) LWS_WS_OPCODE_07__TEXT_FRAME :: byte where "LWS_WS_OPCODE_07__TEXT_FRAME \<equiv> 1"
abbreviation (input) LWS_WS_OPCODE_07__BINARY_FRAME :: byte where "LWS_WS_OPCODE_07__BINARY_FRAME \<equiv> 2"
abbreviation (input) LWS_WS_OPCODE_07__CLOSE :: byte where "LWS_WS_OPCODE_07__CLOSE \<equiv> 8"
abbreviation (input) LWS_WS_OPCODE_07__PING :: byte where "LWS_WS_OPCODE_07__PING \<equiv> 9"
abbreviation (input) LWS_WS_OPCODE_07__PONG :: byte where "LWS_WS_OPCODE_07__PONG \<equiv> 0xa"
abbreviation (input) LWS_MAX_SOCKET_IO_BUF :: nat where "LWS_MAX_SOCKET_IO_BUF \<equiv> 4096"

text \<open>
  What the parsers do outside their own state, in order: payload given to the user callback, a
  pong given to it (client), a close frame or a pong written with \<open>libwebsocket_write\<close>, a
  request for a writable callback.
\<close>

datatype rx_event =
    Ev_receive "byte list"
  | Ev_receive_pong "byte list"
  | Ev_write_close "byte list"
  | Ev_write_pong "byte list"
  | Ev_on_writable

text \<open>
  The WebSocket members of \<^verbatim>\<open>struct libwebsocket\<close>. \<open>rx_user_buffer\<close> are the bytes from the
  pre-padding on, \<open>rx_user_buffer_head\<close> of them; \<open>ping_payload_buf\<close> is \<open>None\<close> for NULL. The last
  member is the history of the events.
\<close>

record ws_wsi =
  ws_rx_parse_state :: lws_rx_parse_state
  ws_state :: lws_connection_states
  ws_spec_revision :: byte
  rx_user_buffer :: "byte list"
  frame_masking_nonce_04 :: "byte list"
  frame_mask_index :: byte
  rx_packet_length :: u64
  opcode :: byte
  final :: bool
  rsv :: byte
  frame_is_binary :: bool
  all_zero_nonce :: bool
  this_frame_masked :: bool
  ping_payload_buf :: "byte list option"
  ping_payload_alloc :: nat
  ping_payload_len :: nat
  rx_log :: "rx_event list"

abbreviation rx_user_buffer_head :: "ws_wsi \<Rightarrow> nat" where
  "rx_user_buffer_head w \<equiv> length (rx_user_buffer w)"

text \<open>
  The surroundings of a connection: the receive size of its protocol, its active extensions, the
  protocol callback (\<open>None\<close> for NULL), which sees the history and the payload, and the outcome of
  applying a pending flow-control change after it. An extension maps the reason and the
  effective buffer to its result and the new buffer.
\<close>

datatype ext_reason = LWS_EXT_CALLBACK_EXTENDED_PAYLOAD_RX | LWS_EXT_CALLBACK_PAYLOAD_RX
  | LWS_EXT_CALLBACK_PACKET_TX_PRESEND | LWS_EXT_CALLBACK_PAYLOAD_TX
  | LWS_EXT_CALLBACK_PACKET_RX_PREPARSE | LWS_EXT_CALLBACK_FLUSH_PENDING_TX
  | LWS_EXT_CALLBACK_IS_WRITEABLE | LWS_EXT_CALLBACK_PACKET_TX_DO_SEND

type_synonym extension = "ext_reason \<Rightarrow> byte list \<Rightarrow> int \<times> byte list"

record rx_env =
  rx_buffer_size :: nat
  active_extensions :: "extension list"
  callback :: "(rx_event list \<Rightarrow> byte list \<Rightarrow> int) option"
  rx_flow_control :: "rx_event list \<Rightarrow> int"

text \<open>
  \<open>lws_ext_callback_for_each_active\<close>: 0 when nobody had a nonzero return, the largest positive
  one, or -1 at the first failure.
\<close>

fun ext_loop :: "('r \<Rightarrow> 'b \<Rightarrow> int \<times> 'b) list \<Rightarrow> 'r \<Rightarrow> int \<Rightarrow> 'b \<Rightarrow> int \<times> 'b" where
  "ext_loop [] reason handled buf = (handled, buf)"
| "ext_loop (e # es) reason handled buf =
     (case e reason buf of (m, buf') \<Rightarrow>
        if m < 0 then (-1, buf')
        else ext_loop es reason (if handled < m then m else handled) buf')"

definition lws_ext_callback_for_each_active ::
    "rx_env \<Rightarrow> ext_reason \<Rightarrow> byte list \<Rightarrow> int \<times> byte list" where
  "lws_ext_callback_for_each_active env reason buf = ext_loop (active_extensions env) reason 0 buf"

definition user_callback_handle_rxflow ::
    "rx_env \<Rightarrow> (rx_event list \<Rightarrow> byte list \<Rightarrow> int) \<Rightarrow> rx_event list \<Rightarrow> byte list \<Rightarrow> int" where
  "user_callback_handle_rxflow env cb log inp =
     (let n = cb log inp in if n = 0 then rx_flow_control env log else n)"

text \<open>How a parser stops: with a nonzero return, or with a write outside the user buffer.\<close>

datatype rx_stop = Rx_closed ws_wsi | Rx_overrun

definition log_event :: "rx_event \<Rightarrow> ws_wsi \<Rightarrow> ws_wsi" where
  "log_event e w = w\<lparr>rx_log := rx_log w @ [e]\<rparr>"

section \<open>Steps shared by the two parsers\<close>

text \<open>The first byte of a frame.\<close>

definition first_byte :: "ws_wsi \<Rightarrow> byte \<Rightarrow> ws_wsi" where
  "first_byte w c =
     (let opc = c AND 0xf
      in w\<lparr>opcode := opc, rsv := c AND 0x70, final := bit c 7,
          frame_is_binary :=
            (if opc = LWS_WS_OPCODE_07__TEXT_FRAME \<or> opc = LWS_WS_OPCODE_07__BINARY_FRAME
             then opc = LWS_WS_OPCODE_07__BINARY_FRAME else frame_is_binary w),
          ws_rx_parse_state := LWS_RXPS_04_FRAME_HDR_LEN\<rparr>)"

text \<open>\<open>rx_packet_length |= ((size_t)c) << k\<close> and the next state.\<close>

definition or_length :: "nat \<Rightarrow> lws_rx_parse_state \<Rightarrow> ws_wsi \<Rightarrow> byte \<Rightarrow> ws_wsi" where
  "or_length k s w c =
     w\<lparr>rx_packet_length := rx_packet_length w OR push_bit k (ucast c), ws_rx_parse_state := s\<rparr>"

text \<open>One byte of the masking key.\<close>

definition key_byte :: "nat \<Rightarrow> lws_rx_parse_state \<Rightarrow> ws_wsi \<Rightarrow> byte \<Rightarrow> ws_wsi" where
  "key_byte i s w c =
     w\<lparr>frame_masking_nonce_04 := (frame_masking_nonce_04 w)[i := c],
       all_zero_nonce := (if c \<noteq> 0 then False else all_zero_nonce w),
       ws_rx_parse_state := s\<rparr>"

text \<open>The user buffer has room for \<open>rx_cap\<close> bytes.\<close>

definition rx_cap :: "rx_env \<Rightarrow> nat" where
  "rx_cap env = (if rx_buffer_size env = 0 then LWS_MAX_SOCKET_IO_BUF else rx_buffer_size env)"

text \<open>
  A payload byte, \<open>raw\<close> saying that it is not to be unmasked; then the count. The result says
  whether to spill.
\<close>

definition payload_byte :: "rx_env \<Rightarrow> bool \<Rightarrow> ws_wsi \<Rightarrow> byte \<Rightarrow> rx_stop + ws_wsi \<times> bool" where
  "payload_byte env raw w c =
     (if rx_cap env \<le> rx_user_buffer_head w then Inl Rx_overrun
      else
        let w1 = (if raw then w\<lparr>rx_user_buffer := rx_user_buffer w @ [c]\<rparr>
                  else w\<lparr>rx_user_buffer := rx_user_buffer w @
                           [c XOR frame_masking_nonce_04 w ! unat (frame_mask_index w AND 3)],
                         frame_mask_index := frame_mask_index w + 1\<rparr>);
            w2 = w1\<lparr>rx_packet_length := rx_packet_length w1 - 1\<rparr>
        in if rx_packet_length w2 = 0 then Inr (w2\<lparr>ws_rx_parse_state := LWS_RXPS_NEW\<rparr>, True)
           else if rx_buffer_size env = 0 \<and> rx_user_buffer_head w2 \<noteq> LWS_MAX_SOCKET_IO_BUF
             then Inr (w2, False)
           else if rx_buffer_size env \<noteq> 0 \<and> rx_user_buffer_head w2 \<noteq> rx_buffer_size env
             then Inr (w2, False)
           else Inr (w2, True))"

section \<open>The server\<close>

text \<open>A ping: its payload is stashed for a pong unless one is pending already.\<close>

definition rx_ping :: "ws_wsi \<Rightarrow> ws_wsi" where
  "rx_ping w =
     (if ping_payload_len w \<noteq> 0 then w\<lparr>rx_user_buffer := []\<rparr>
      else if ping_payload_len w > 128 - 4 then w\<lparr>rx_user_buffer := []\<rparr>
      else
        let h = rx_user_buffer_head w;
            w1 = (if ping_payload_buf w \<noteq> None \<and> ping_payload_alloc w < h
                  then w\<lparr>ping_payload_buf := None\<rparr> else w);
            w2 = (if ping_payload_buf w1 = None
                  then w1\<lparr>ping_payload_buf := Some (replicate h 0), ping_payload_alloc := h\<rparr> else w1);
            w3 = w2\<lparr>ping_payload_buf :=
                      Some (rx_user_buffer w @ drop h (the (ping_payload_buf w2))),
                    ping_payload_len := h\<rparr>
        in (log_event Ev_on_writable w3)\<lparr>rx_user_buffer := []\<rparr>)"

definition rx_spill :: "rx_env \<Rightarrow> ws_wsi \<Rightarrow> rx_stop + ws_wsi" where
  "rx_spill env w =
     (if opcode w = LWS_WS_OPCODE_07__CLOSE then
        (if ws_state w = WSI_STATE_AWAITING_CLOSE_ACK then Inl (Rx_closed w)
         else Inl (Rx_closed ((log_event (Ev_write_close (rx_user_buffer w)) w)
                     \<lparr>ws_state := WSI_STATE_RETURNED_CLOSE_ALREADY\<rparr>)))
      else if opcode w = LWS_WS_OPCODE_07__PING then Inr (rx_ping w)
      else if opcode w = LWS_WS_OPCODE_07__PONG then Inr (w\<lparr>rx_user_buffer := []\<rparr>)
      else if opcode w \<noteq> LWS_WS_OPCODE_07__TEXT_FRAME \<and> opcode w \<noteq> LWS_WS_OPCODE_07__BINARY_FRAME \<and>
              opcode w \<noteq> LWS_WS_OPCODE_07__CONTINUATION then
        (case lws_ext_callback_for_each_active env LWS_EXT_CALLBACK_EXTENDED_PAYLOAD_RX
                (rx_user_buffer w) of
           (m, _) \<Rightarrow> Inr (w\<lparr>rx_user_buffer := []\<rparr>))
      else
        (case lws_ext_callback_for_each_active env LWS_EXT_CALLBACK_PAYLOAD_RX (rx_user_buffer w) of
           (m, eff_buf) \<Rightarrow>
             if m < 0 then Inl (Rx_closed w)
             else
               case (if eff_buf \<noteq> [] then callback env else None) of
                 None \<Rightarrow> Inr (w\<lparr>rx_user_buffer := []\<rparr>)
               | Some cb \<Rightarrow>
                   (let ret = user_callback_handle_rxflow env cb (rx_log w) eff_buf;
                        w1 = (log_event (Ev_receive eff_buf) w)\<lparr>rx_user_buffer := []\<rparr>
                    in if ret < 0 then Inl (Rx_closed w1) else Inr w1)))"

definition libwebsocket_rx_sm :: "rx_env \<Rightarrow> ws_wsi \<Rightarrow> byte \<Rightarrow> rx_stop + ws_wsi" where
  "libwebsocket_rx_sm env w c =
     (case ws_rx_parse_state w of
        LWS_RXPS_NEW \<Rightarrow>
          if ws_spec_revision w = 13 then Inr (first_byte (w\<lparr>all_zero_nonce := True\<rparr>) c) else Inr w
      | LWS_RXPS_04_MASK_NONCE_1 \<Rightarrow> Inr (key_byte 1 LWS_RXPS_04_MASK_NONCE_2 w c)
      | LWS_RXPS_04_MASK_NONCE_2 \<Rightarrow> Inr (key_byte 2 LWS_RXPS_04_MASK_NONCE_3 w c)
      | LWS_RXPS_04_MASK_NONCE_3 \<Rightarrow>
          Inr ((key_byte 3 LWS_RXPS_04_FRAME_HDR_1 w c)\<lparr>frame_mask_index := 0\<rparr>)
      | LWS_RXPS_04_FRAME_HDR_1 \<Rightarrow> Inr (first_byte w c)
      | LWS_RXPS_04_FRAME_HDR_LEN \<Rightarrow>
          (let w1 = w\<lparr>this_frame_masked := bit c 7\<rparr>; n = c AND 0x7f
           in if n = 126 \<or> n = 127 then
                (if opcode w AND 8 \<noteq> 0 then Inl (Rx_closed w1)
                 else Inr (w1\<lparr>ws_rx_parse_state :=
                        (if n = 126 then LWS_RXPS_04_FRAME_HDR_LEN16_2
                         else LWS_RXPS_04_FRAME_HDR_LEN64_8)\<rparr>))
              else
                let w2 = w1\<lparr>rx_packet_length := ucast n\<rparr>
                in if this_frame_masked w2 then Inr (w2\<lparr>ws_rx_parse_state := LWS_RXPS_07_COLLECT_FRAME_KEY_1\<rparr>)
                   else if rx_packet_length w2 \<noteq> 0 then
                     Inr (w2\<lparr>ws_rx_parse_state := LWS_RXPS_PAYLOAD_UNTIL_LENGTH_EXHAUSTED\<rparr>)
                   else rx_spill env (w2\<lparr>ws_rx_parse_state := LWS_RXPS_NEW\<rparr>))
      | LWS_RXPS_04_FRAME_HDR_LEN16_2 \<Rightarrow>
          Inr (w\<lparr>rx_packet_length := push_bit 8 (ucast c),
                 ws_rx_parse_state := LWS_RXPS_04_FRAME_HDR_LEN16_1\<rparr>)
      | LWS_RXPS_04_FRAME_HDR_LEN16_1 \<Rightarrow>
          Inr (or_length 0 (if this_frame_masked w then LWS_RXPS_07_COLLECT_FRAME_KEY_1
                            else LWS_RXPS_PAYLOAD_UNTIL_LENGTH_EXHAUSTED) w c)
      | LWS_RXPS_04_FRAME_HDR_LEN64_8 \<Rightarrow>
          if bit c 7 then Inl (Rx_closed w)
          else Inr (w\<lparr>rx_packet_length := push_bit 56 (ucast c),
                      ws_rx_parse_state := LWS_RXPS_04_FRAME_HDR_LEN64_7\<rparr>)
      | LWS_RXPS_04_FRAME_HDR_LEN64_7 \<Rightarrow> Inr (or_length 48 LWS_RXPS_04_FRAME_HDR_LEN64_6 w c)
      | LWS_RXPS_04_FRAME_HDR_LEN64_6 \<Rightarrow> Inr (or_length 40 LWS_RXPS_04_FRAME_HDR_LEN64_5 w c)
      | LWS_RXPS_04_FRAME_HDR_LEN64_5 \<Rightarrow> Inr (or_length 32 LWS_RXPS_04_FRAME_HDR_LEN64_4 w c)
      | LWS_RXPS_04_FRAME_HDR_LEN64_4 \<Rightarrow> Inr (or_length 24 LWS_RXPS_04_FRAME_HDR_LEN64_3 w c)
      | LWS_RXPS_04_FRAME_HDR_LEN64_3 \<Rightarrow> Inr (or_length 16 LWS_RXPS_04_FRAME_HDR_LEN64_2 w c)
      | LWS_RXPS_04_FRAME_HDR_LEN64_2 \<Rightarrow> Inr (or_length 8 LWS_RXPS_04_FRAME_HDR_LEN64_1 w c)
      | LWS_RXPS_04_FRAME_HDR_LEN64_1 \<Rightarrow>
          Inr (or_length 0 (if this_frame_masked w then LWS_RXPS_07_COLLECT_FRAME_KEY_1
                            else LWS_RXPS_PAYLOAD_UNTIL_LENGTH_EXHAUSTED) w c)
      | LWS_RXPS_07_COLLECT_FRAME_KEY_1 \<Rightarrow> Inr (key_byte 0 LWS_RXPS_07_COLLECT_FRAME_KEY_2 w c)
      | LWS_RXPS_07_COLLECT_FRAME_KEY_2 \<Rightarrow> Inr (key_byte 1 LWS_RXPS_07_COLLECT_FRAME_KEY_3 w c)
      | LWS_RXPS_07_COLLECT_FRAME_KEY_3 \<Rightarrow> Inr (key_byte 2 LWS_RXPS_07_COLLECT_FRAME_KEY_4 w c)
      | LWS_RXPS_07_COLLECT_FRAME_KEY_4 \<Rightarrow>
          (let w1 = (key_byte 3 LWS_RXPS_PAYLOAD_UNTIL_LENGTH_EXHAUSTED w c)\<lparr>frame_mask_index := 0\<rparr>
           in if rx_packet_length w1 = 0 then rx_spill env (w1\<lparr>ws_rx_parse_state := LWS_RXPS_NEW\<rparr>)
              else Inr w1)
      | LWS_RXPS_PAYLOAD_UNTIL_LENGTH_EXHAUSTED \<Rightarrow>
          (case payload_byte env (all_zero_nonce w) w c of
             Inl e \<Rightarrow> Inl e
           | Inr (w1, spill) \<Rightarrow> if spill then rx_spill env w1 else Inr w1))"

section \<open>The client\<close>

definition client_rx_spill :: "rx_env \<Rightarrow> ws_wsi \<Rightarrow> rx_stop + ws_wsi" where
  "client_rx_spill env w =
     (let already_done = Inr (w\<lparr>rx_user_buffer := []\<rparr>);
          issue = (\<lambda>pong.
            case lws_ext_callback_for_each_active env LWS_EXT_CALLBACK_PAYLOAD_RX (rx_user_buffer w) of
              (m, eff_buf) \<Rightarrow>
                if m < 0 then Inl (Rx_closed w)
                else if eff_buf = [] \<and> \<not> pong then already_done
                else case callback env of
                       None \<Rightarrow> already_done
                     | Some cb \<Rightarrow>
                         let w1 = log_event (if pong then Ev_receive_pong eff_buf
                                             else Ev_receive eff_buf) w
                         in if cb (rx_log w) eff_buf \<noteq> 0 then Inl (Rx_closed w1)
                            else Inr (w1\<lparr>rx_user_buffer := []\<rparr>))
      in if opcode w = LWS_WS_OPCODE_07__CLOSE then
           (if ws_state w = WSI_STATE_AWAITING_CLOSE_ACK then Inl (Rx_closed w)
            else Inl (Rx_closed ((log_event (Ev_write_close (rx_user_buffer w)) w)
                        \<lparr>ws_state := WSI_STATE_RETURNED_CLOSE_ALREADY\<rparr>)))
         else if opcode w = LWS_WS_OPCODE_07__PING then
           Inr ((log_event (Ev_write_pong (rx_user_buffer w)) w)\<lparr>rx_user_buffer := []\<rparr>)
         else if opcode w = LWS_WS_OPCODE_07__PONG then issue True
         else if opcode w = LWS_WS_OPCODE_07__CONTINUATION \<or>
                 opcode w = LWS_WS_OPCODE_07__TEXT_FRAME \<or>
                 opcode w = LWS_WS_OPCODE_07__BINARY_FRAME then issue False
         else
           (case lws_ext_callback_for_each_active env LWS_EXT_CALLBACK_EXTENDED_PAYLOAD_RX
                   (rx_user_buffer w) of
              (m, _) \<Rightarrow> already_done))"

definition libwebsocket_client_rx_sm :: "rx_env \<Rightarrow> ws_wsi \<Rightarrow> byte \<Rightarrow> rx_stop + ws_wsi" where
  "libwebsocket_client_rx_sm env w c =
     (let spill_or_payload = (\<lambda>w.
            if this_frame_masked w then Inr (w\<lparr>ws_rx_parse_state := LWS_RXPS_07_COLLECT_FRAME_KEY_1\<rparr>)
            else if rx_packet_length w \<noteq> 0 then
              Inr (w\<lparr>ws_rx_parse_state := LWS_RXPS_PAYLOAD_UNTIL_LENGTH_EXHAUSTED\<rparr>)
            else client_rx_spill env (w\<lparr>ws_rx_parse_state := LWS_RXPS_NEW\<rparr>))
      in case ws_rx_parse_state w of
        LWS_RXPS_NEW \<Rightarrow> Inr (if ws_spec_revision w = 13 then first_byte w c else w)
      | LWS_RXPS_04_FRAME_HDR_LEN \<Rightarrow>
          (let w1 = w\<lparr>this_frame_masked := bit c 7\<rparr>; n = c AND 0x7f
           in if n = 126 \<or> n = 127 then
                (if opcode w AND 8 \<noteq> 0 then Inl (Rx_closed w1)
                 else Inr (w1\<lparr>ws_rx_parse_state :=
                        (if n = 126 then LWS_RXPS_04_FRAME_HDR_LEN16_2
                         else LWS_RXPS_04_FRAME_HDR_LEN64_8)\<rparr>))
              else spill_or_payload (w1\<lparr>rx_packet_length := ucast c\<rparr>))
      | LWS_RXPS_04_FRAME_HDR_LEN16_2 \<Rightarrow>
          Inr (w\<lparr>rx_packet_length := push_bit 8 (ucast c),
                 ws_rx_parse_state := LWS_RXPS_04_FRAME_HDR_LEN16_1\<rparr>)
      | LWS_RXPS_04_FRAME_HDR_LEN16_1 \<Rightarrow>
          spill_or_payload (or_length 0 LWS_RXPS_04_FRAME_HDR_LEN16_1 w c)
      | LWS_RXPS_04_FRAME_HDR_LEN64_8 \<Rightarrow>
          if bit c 7 then Inl (Rx_closed w)
          else Inr (w\<lparr>rx_packet_length := push_bit 56 (ucast c),
                      ws_rx_parse_state := LWS_RXPS_04_FRAME_HDR_LEN64_7\<rparr>)
      | LWS_RXPS_04_FRAME_HDR_LEN64_7 \<Rightarrow> Inr (or_length 48 LWS_RXPS_04_FRAME_HDR_LEN64_6 w c)
      | LWS_RXPS_04_FRAME_HDR_LEN64_6 \<Rightarrow> Inr (or_length 40 LWS_RXPS_04_FRAME_HDR_LEN64_5 w c)
      | LWS_RXPS_04_FRAME_HDR_LEN64_5 \<Rightarrow> Inr (or_length 32 LWS_RXPS_04_FRAME_HDR_LEN64_4 w c)
      | LWS_RXPS_04_FRAME_HDR_LEN64_4 \<Rightarrow> Inr (or_length 24 LWS_RXPS_04_FRAME_HDR_LEN64_3 w c)
      | LWS_RXPS_04_FRAME_HDR_LEN64_3 \<Rightarrow> Inr (or_length 16 LWS_RXPS_04_FRAME_HDR_LEN64_2 w c)
      | LWS_RXPS_04_FRAME_HDR_LEN64_2 \<Rightarrow> Inr (or_length 8 LWS_RXPS_04_FRAME_HDR_LEN64_1 w c)
      | LWS_RXPS_04_FRAME_HDR_LEN64_1 \<Rightarrow>
          spill_or_payload (or_length 0 LWS_RXPS_04_FRAME_HDR_LEN64_1 w c)
      | LWS_RXPS_07_COLLECT_FRAME_KEY_1 \<Rightarrow> Inr (key_byte 0 LWS_RXPS_07_COLLECT_FRAME_KEY_2 w c)
      | LWS_RXPS_07_COLLECT_FRAME_KEY_2 \<Rightarrow> Inr (key_byte 1 LWS_RXPS_07_COLLECT_FRAME_KEY_3 w c)
      | LWS_RXPS_07_COLLECT_FRAME_KEY_3 \<Rightarrow> Inr (key_byte 2 LWS_RXPS_07_COLLECT_FRAME_KEY_4 w c)
      | LWS_RXPS_07_COLLECT_FRAME_KEY_4 \<Rightarrow>
          (let w1 = key_byte 3 LWS_RXPS_07_COLLECT_FRAME_KEY_4 w c
           in if rx_packet_length w1 \<noteq> 0
              then Inr (w1\<lparr>ws_rx_parse_state := LWS_RXPS_PAYLOAD_UNTIL_LENGTH_EXHAUSTED\<rparr>)
              else client_rx_spill env (w1\<lparr>ws_rx_parse_state := LWS_RXPS_NEW\<rparr>))
      | LWS_RXPS_PAYLOAD_UNTIL_LENGTH_EXHAUSTED \<Rightarrow>
          (case payload_byte env (\<not> this_frame_masked w \<or> all_zero_nonce w) w c of
             Inl e \<Rightarrow> Inl e
           | Inr (w1, spill) \<Rightarrow> if spill then client_rx_spill env w1 else Inr w1)
      | _ \<Rightarrow> Inl (Rx_closed w))"

section \<open>The user buffer is never overrun\<close>

definition rx_ok :: "rx_env \<Rightarrow> ws_wsi \<Rightarrow> bool" where
  "rx_ok env w \<longleftrightarrow> length (frame_masking_nonce_04 w) = 4 \<and>
     (if ws_rx_parse_state w = LWS_RXPS_PAYLOAD_UNTIL_LENGTH_EXHAUSTED
      then rx_user_buffer_head w < rx_cap env else rx_user_buffer w = [])"

lemma rx_cap_pos: "0 < rx_cap env"
  by (simp add: rx_cap_def)

lemma log_event_simps [simp]:
  "ws_rx_parse_state (log_event e w) = ws_rx_parse_state w"
  "frame_masking_nonce_04 (log_event e w) = frame_masking_nonce_04 w"
  "rx_user_buffer (log_event e w) = rx_user_buffer w"
  "ws_state (log_event e w) = ws_state w"
  "ws_spec_revision (log_event e w) = ws_spec_revision w"
  "opcode (log_event e w) = opcode w"
  "rx_packet_length (log_event e w) = rx_packet_length w"
  "frame_mask_index (log_event e w) = frame_mask_index w"
  "this_frame_masked (log_event e w) = this_frame_masked w"
  "all_zero_nonce (log_event e w) = all_zero_nonce w"
  "rx_log (log_event e w) = rx_log w @ [e]"
  by (simp_all add: log_event_def)

lemma rx_ping_kept [simp]:
  "ws_rx_parse_state (rx_ping w) = ws_rx_parse_state w"
  "frame_masking_nonce_04 (rx_ping w) = frame_masking_nonce_04 w"
  "rx_user_buffer (rx_ping w) = []"
  by (simp_all add: rx_ping_def Let_def)

text \<open>A spill leaves an empty buffer and the state of the parser as it was.\<close>

lemma rx_spill_kept:
  assumes "rx_spill env w = Inr v"
  shows "ws_rx_parse_state v = ws_rx_parse_state w"
    "frame_masking_nonce_04 v = frame_masking_nonce_04 w" "rx_user_buffer v = []"
  using assms
  by (auto simp: rx_spill_def Let_def split: if_splits prod.splits option.splits)

lemma client_rx_spill_kept:
  assumes "client_rx_spill env w = Inr v"
  shows "ws_rx_parse_state v = ws_rx_parse_state w"
    "frame_masking_nonce_04 v = frame_masking_nonce_04 w" "rx_user_buffer v = []"
  using assms
  by (auto simp: client_rx_spill_def Let_def split: if_splits prod.splits option.splits)

lemma rx_spill_no_overrun: "rx_spill env w \<noteq> Inl Rx_overrun"
  by (auto simp: rx_spill_def Let_def split: prod.split option.split)

lemma client_rx_spill_no_overrun: "client_rx_spill env w \<noteq> Inl Rx_overrun"
  by (auto simp: client_rx_spill_def Let_def split: prod.split option.split)

lemma spill_facts:
  "rx_spill env w = Inr v \<Longrightarrow> ws_rx_parse_state v = ws_rx_parse_state w \<and>
     frame_masking_nonce_04 v = frame_masking_nonce_04 w \<and> rx_user_buffer v = []"
  "client_rx_spill env w = Inr v \<Longrightarrow> ws_rx_parse_state v = ws_rx_parse_state w \<and>
     frame_masking_nonce_04 v = frame_masking_nonce_04 w \<and> rx_user_buffer v = []"
  by (auto dest: rx_spill_kept client_rx_spill_kept)

lemma payload_byte_ok:
  assumes "rx_user_buffer_head w < rx_cap env"
  shows "\<exists>w1 spill. payload_byte env raw w c = Inr (w1, spill) \<and>
           frame_masking_nonce_04 w1 = frame_masking_nonce_04 w \<and>
           (ws_rx_parse_state w1 = ws_rx_parse_state w \<or> spill \<and> ws_rx_parse_state w1 = LWS_RXPS_NEW) \<and>
           (\<not> spill \<longrightarrow> rx_user_buffer_head w1 < rx_cap env)"
  using assms
  by (cases "rx_buffer_size env = 0"; cases "rx_packet_length w = 1"; cases raw)
     (auto simp: payload_byte_def Let_def rx_cap_def)

lemma rx_ok_spill:
  assumes "rx_spill env w = Inr v" "length (frame_masking_nonce_04 w) = 4"
  shows "rx_ok env v"
  using rx_spill_kept [OF assms(1)] assms(2) by (simp add: rx_ok_def rx_cap_pos)

lemma rx_ok_client_spill:
  assumes "client_rx_spill env w = Inr v" "length (frame_masking_nonce_04 w) = 4"
  shows "rx_ok env v"
  using client_rx_spill_kept [OF assms(1)] assms(2) by (simp add: rx_ok_def rx_cap_pos)

lemma rx_sm_payload_ok:
  assumes ok: "rx_ok env w" and st: "ws_rx_parse_state w = LWS_RXPS_PAYLOAD_UNTIL_LENGTH_EXHAUSTED"
    and spill: "\<And>u v. sp u = Inr v \<Longrightarrow> length (frame_masking_nonce_04 u) = 4 \<Longrightarrow> rx_ok env v"
      "\<And>u. sp u \<noteq> Inl Rx_overrun"
    and res: "r = (case payload_byte env raw w c of Inl e \<Rightarrow> Inl e
                   | Inr (w1, s) \<Rightarrow> if s then sp w1 else Inr w1)"
  shows "r \<noteq> Inl Rx_overrun" "r = Inr v \<Longrightarrow> rx_ok env v"
proof -
  have w: "length (frame_masking_nonce_04 w) = 4" "rx_user_buffer_head w < rx_cap env"
    using ok st by (simp_all add: rx_ok_def)
  obtain w1 s where p: "payload_byte env raw w c = Inr (w1, s)"
    "frame_masking_nonce_04 w1 = frame_masking_nonce_04 w"
    "ws_rx_parse_state w1 = ws_rx_parse_state w \<or> s \<and> ws_rx_parse_state w1 = LWS_RXPS_NEW"
    "\<not> s \<longrightarrow> rx_user_buffer_head w1 < rx_cap env"
    using payload_byte_ok [OF w(2)] by blast
  then have r: "r = (if s then sp w1 else Inr w1)" using res by simp
  show "r \<noteq> Inl Rx_overrun" using r spill(2) by auto
  show "rx_ok env v" if "r = Inr v"
    using that r spill(1) [of w1 v] p w st by (auto simp: rx_ok_def split: if_splits)
qed

lemma libwebsocket_rx_sm_ok:
  assumes "rx_ok env w"
  shows "libwebsocket_rx_sm env w c \<noteq> Inl Rx_overrun"
    "libwebsocket_rx_sm env w c = Inr v \<Longrightarrow> rx_ok env v"
proof -
  note simps = libwebsocket_rx_sm_def first_byte_def key_byte_def or_length_def Let_def rx_ok_def
    rx_cap_pos
  have "libwebsocket_rx_sm env w c \<noteq> Inl Rx_overrun \<and>
    (libwebsocket_rx_sm env w c = Inr v \<longrightarrow> rx_ok env v)"
  proof (cases "ws_rx_parse_state w = LWS_RXPS_PAYLOAD_UNTIL_LENGTH_EXHAUSTED")
    case True
    then have r: "libwebsocket_rx_sm env w c =
        (case payload_byte env (all_zero_nonce w) w c of Inl e \<Rightarrow> Inl e
         | Inr (w1, s) \<Rightarrow> if s then rx_spill env w1 else Inr w1)"
      by (simp add: libwebsocket_rx_sm_def)
    show ?thesis
      using rx_sm_payload_ok [OF assms True rx_ok_spill rx_spill_no_overrun r] by auto
  next
    case False
    have n: "length (frame_masking_nonce_04 w) = 4" "rx_user_buffer w = []"
      using assms False by (simp_all add: rx_ok_def)
    show ?thesis
      using False n
      by (cases "ws_rx_parse_state w")
         (auto simp: simps rx_spill_no_overrun dest!: spill_facts)
  qed
  then show "libwebsocket_rx_sm env w c \<noteq> Inl Rx_overrun"
    "libwebsocket_rx_sm env w c = Inr v \<Longrightarrow> rx_ok env v" by simp_all
qed

lemma libwebsocket_client_rx_sm_ok:
  assumes "rx_ok env w"
  shows "libwebsocket_client_rx_sm env w c \<noteq> Inl Rx_overrun"
    "libwebsocket_client_rx_sm env w c = Inr v \<Longrightarrow> rx_ok env v"
proof -
  note simps = libwebsocket_client_rx_sm_def first_byte_def key_byte_def or_length_def Let_def rx_ok_def
    rx_cap_pos
  have "libwebsocket_client_rx_sm env w c \<noteq> Inl Rx_overrun \<and>
    (libwebsocket_client_rx_sm env w c = Inr v \<longrightarrow> rx_ok env v)"
  proof (cases "ws_rx_parse_state w = LWS_RXPS_PAYLOAD_UNTIL_LENGTH_EXHAUSTED")
    case True
    then have r: "libwebsocket_client_rx_sm env w c =
        (case payload_byte env (\<not> this_frame_masked w \<or> all_zero_nonce w) w c of Inl e \<Rightarrow> Inl e
         | Inr (w1, s) \<Rightarrow> if s then client_rx_spill env w1 else Inr w1)"
      by (simp add: libwebsocket_client_rx_sm_def)
    show ?thesis
      using rx_sm_payload_ok [OF assms True rx_ok_client_spill client_rx_spill_no_overrun r] by auto
  next
    case False
    have n: "length (frame_masking_nonce_04 w) = 4" "rx_user_buffer w = []"
      using assms False by (simp_all add: rx_ok_def)
    show ?thesis
      using False n
      by (cases "ws_rx_parse_state w")
         (auto simp: simps client_rx_spill_no_overrun dest!: spill_facts)
  qed
  then show "libwebsocket_client_rx_sm env w c \<noteq> Inl Rx_overrun"
    "libwebsocket_client_rx_sm env w c = Inr v \<Longrightarrow> rx_ok env v" by simp_all
qed

interpretation rx: byte_machine "libwebsocket_rx_sm env" "rx_ok env" for env
  by unfold_locales (rule libwebsocket_rx_sm_ok)

interpretation client_rx: byte_machine "libwebsocket_client_rx_sm env" "rx_ok env" for env
  by unfold_locales (rule libwebsocket_client_rx_sm_ok)

end
