(* ===== verification/Frames.thy ===== *)
theory Frames
  imports Rx_Sm
begin

text \<open>
  The frames of RFC 6455 as byte strings, and what the two frame parsers make of them: a data frame
  is delivered to the user callback, unmasked and in order, in pieces of the size of the user
  buffer. The part the two parsers share is a locale, interpreted for both.
\<close>

section \<open>Frames\<close>

text \<open>Masking from the \<open>k\<close>-th key byte on.\<close>

fun mask_from :: "byte list \<Rightarrow> nat \<Rightarrow> byte list \<Rightarrow> byte list" where
  "mask_from key k [] = []"
| "mask_from key k (b # bs) = (b XOR key ! (k mod 4)) # mask_from key (k + 1) bs"

lemma length_mask_from [simp]: "length (mask_from key k p) = length p"
  by (induction key k p rule: mask_from.induct) simp_all

lemma mask_from_twice: "mask_from key k (mask_from key k p) = p"
  by (induction key k p rule: mask_from.induct) (simp_all add: xor.assoc)

lemma mask_from_zero:
  assumes "key = [0, 0, 0, 0]"
  shows "mask_from key k p = p"
proof -
  have "key ! (i mod 4) = 0" for i
    using assms nth_mem [of "i mod 4" key] by auto
  then show ?thesis by (induction key k p rule: mask_from.induct) simp_all
qed

lemma mask_from_Nil [simp]: "mask_from key k p = [] \<longleftrightarrow> p = []"
  by (cases p) simp_all

text \<open>The three forms of the length, and the frame header with and without a key.\<close>

datatype len_form = L7 | L16 | L64

definition len_fits :: "len_form \<Rightarrow> nat \<Rightarrow> bool" where
  "len_fits f n = (case f of L7 \<Rightarrow> n < 126 | L16 \<Rightarrow> n < 2 ^ 16 | L64 \<Rightarrow> n < 2 ^ 63)"

definition mask_bit :: "bool \<Rightarrow> byte" where
  "mask_bit m = (if m then 0x80 else 0)"

definition len_bytes :: "len_form \<Rightarrow> bool \<Rightarrow> nat \<Rightarrow> byte list" where
  "len_bytes f m n =
     (case f of
        L7 \<Rightarrow> [word_of_nat n OR mask_bit m]
      | L16 \<Rightarrow> [126 OR mask_bit m, word_of_nat (n div 256), word_of_nat n]
      | L64 \<Rightarrow> (127 OR mask_bit m) # be64 (word_of_nat n))"

definition first_of :: "bool \<Rightarrow> byte \<Rightarrow> byte \<Rightarrow> byte" where
  "first_of fin rsv_bits opc = (if fin then 0x80 else 0) OR (rsv_bits AND 0x70) OR (opc AND 0xf)"

definition frame :: "bool \<Rightarrow> byte \<Rightarrow> byte \<Rightarrow> len_form \<Rightarrow> byte list option \<Rightarrow> byte list \<Rightarrow> byte list" where
  "frame fin rsv_bits opc f key p =
     first_of fin rsv_bits opc # len_bytes f (key \<noteq> None) (length p) @
     (case key of None \<Rightarrow> p | Some k \<Rightarrow> k @ mask_from k 0 p)"

text \<open>The form a sender uses: the shortest.\<close>

definition shortest :: "nat \<Rightarrow> len_form" where
  "shortest n = (if n < 126 then L7 else if n < 2 ^ 16 then L16 else L64)"

text \<open>The pieces in which a payload is spilled from a buffer of \<open>k\<close> bytes.\<close>

definition pieces :: "nat \<Rightarrow> byte list \<Rightarrow> byte list list" where
  "pieces k xs = blocks k xs @ (if rest_of k xs = [] then [] else [rest_of k xs])"

lemma concat_pieces: "0 < k \<Longrightarrow> concat (pieces k xs) = xs"
  using concat_blocks_rest [of k xs] by (auto simp: pieces_def)

lemma pieces_short: "xs \<noteq> [] \<Longrightarrow> length xs < k \<Longrightarrow> pieces k xs = [xs]"
  by (simp add: pieces_def blocks_short rest_of_short)

lemma pieces_block: "length b = k \<Longrightarrow> 0 < k \<Longrightarrow> pieces k (b @ xs) = b # pieces k xs"
  by (simp add: pieces_def blocks_append_block rest_of_append_block)

lemma pieces_exact: "length b = k \<Longrightarrow> 0 < k \<Longrightarrow> pieces k b = [b]"
  using pieces_block [of b k "[]"] by (simp add: pieces_def blocks_short rest_of_short)

section \<open>Payload\<close>

text \<open>A connection whose callback takes everything: no extension is active.\<close>

definition accepting :: "rx_env \<Rightarrow> bool" where
  "accepting env \<longleftrightarrow> active_extensions env = [] \<and>
     (\<exists>cb. callback env = Some cb \<and> (\<forall>log b. cb log b = 0)) \<and> (\<forall>log. rx_flow_control env log = 0)"

definition data_opcode :: "byte \<Rightarrow> bool" where
  "data_opcode opc \<longleftrightarrow> opc = 0 \<or> opc = 1 \<or> opc = 2"

text \<open>
  \<open>frame_machine\<close>: what the two parsers have in common once the header is read. \<open>raw\<close> tells
  whether the payload is stored as it comes.
\<close>

locale frame_machine =
  fixes step :: "rx_env \<Rightarrow> ws_wsi \<Rightarrow> byte \<Rightarrow> rx_stop + ws_wsi"
    and spill :: "rx_env \<Rightarrow> ws_wsi \<Rightarrow> rx_stop + ws_wsi"
    and raw :: "ws_wsi \<Rightarrow> bool"
  assumes step_payload: "ws_rx_parse_state w = LWS_RXPS_PAYLOAD_UNTIL_LENGTH_EXHAUSTED \<Longrightarrow>
      step env w c = (case payload_byte env (raw w) w c of Inl e \<Rightarrow> Inl e
                      | Inr (w1, s) \<Rightarrow> if s then spill env w1 else Inr w1)"
    and spill_data: "accepting env \<Longrightarrow> data_opcode (opcode w) \<Longrightarrow> rx_user_buffer w \<noteq> [] \<Longrightarrow>
      spill env w = Inr ((log_event (Ev_receive (rx_user_buffer w)) w)\<lparr>rx_user_buffer := []\<rparr>)"
    and raw_kept: "this_frame_masked v = this_frame_masked w \<Longrightarrow>
      all_zero_nonce v = all_zero_nonce w \<Longrightarrow> raw v = raw w"
begin

text \<open>The bytes the user gets for the payload bytes \<open>p\<close> of the stream.\<close>

definition plain :: "ws_wsi \<Rightarrow> byte list \<Rightarrow> byte list" where
  "plain w p = (if raw w then p
                else mask_from (frame_masking_nonce_04 w) (unat (frame_mask_index w)) p)"

lemma mask_index_step: "unat (i AND 3) = unat i mod 4" "unat (i + 1) mod 4 = (unat i + 1) mod 4"
  for i :: byte
proof -
  have e: "i AND 3 = take_bit 2 i" by (simp only: take_bit_eq_mask mask_eq_exp_minus_1) simp
  have "unat (take_bit 2 i) = take_bit 2 (unat i)" by (rule unsigned_take_bit_eq)
  then show "unat (i AND 3) = unat i mod 4" unfolding e by (simp add: take_bit_eq_mod)
  have "unat (i + 1) = (unat i + 1) mod 256" by (simp add: unat_word_ariths)
  then show "unat (i + 1) mod 4 = (unat i + 1) mod 4" by (simp add: mod_mod_cancel)
qed

lemma mask_from_mod: "j mod 4 = k mod 4 \<Longrightarrow> mask_from key j p = mask_from key k p"
proof (induction p arbitrary: j k)
  case (Cons b p)
  have "(j + 1) mod 4 = (k + 1) mod 4" using Cons.prems by (simp add: mod_Suc)
  from Cons.IH [OF this] Cons.prems show ?case by simp
qed simp

text \<open>One payload byte as the user gets it, and the connection that has stored it.\<close>

definition taken :: "ws_wsi \<Rightarrow> byte \<Rightarrow> byte" where
  "taken w c = (if raw w then c else c XOR frame_masking_nonce_04 w ! unat (frame_mask_index w AND 3))"

definition stored :: "ws_wsi \<Rightarrow> byte \<Rightarrow> nat \<Rightarrow> ws_wsi" where
  "stored w c n = w\<lparr>rx_user_buffer := rx_user_buffer w @ [taken w c],
      frame_mask_index := (if raw w then frame_mask_index w else frame_mask_index w + 1),
      rx_packet_length := word_of_nat n\<rparr>"

lemma payload_stored:
  assumes "rx_packet_length w = word_of_nat (Suc n)" "n < 2 ^ 63" "rx_user_buffer_head w < rx_cap env"
  shows "payload_byte env (raw w) w c =
      (if n = 0 then Inr ((stored w c n)\<lparr>ws_rx_parse_state := LWS_RXPS_NEW\<rparr>, True)
       else Inr (stored w c n, length (rx_user_buffer w @ [taken w c]) = rx_cap env))"
proof -
  have dec: "rx_packet_length w - 1 = word_of_nat n" using assms(1) by simp
  have zero: "(word_of_nat n :: u64) = 0 \<longleftrightarrow> n = 0"
    using assms(2) dvd_imp_le [of "2 ^ 64" n] by (auto simp: word_of_nat_eq_0_iff)
  have one: "rx_packet_length w = 1 \<longleftrightarrow> n = 0" using dec zero by (metis diff_self eq_iff_diff_eq_0)
  show ?thesis
    using assms(3) dec zero one
    by (cases "n = 0"; cases "raw w"; cases "rx_buffer_size env = 0")
       (simp_all add: payload_byte_def Let_def stored_def taken_def rx_cap_def)
qed

lemma plain_Cons: "plain w (c # p) = taken w c # plain (stored w c n) p"
  using mask_index_step [of "frame_mask_index w"] raw_kept [of "stored w c n" w]
  by (auto simp: plain_def taken_def stored_def intro: mask_from_mod)

lemma run_payload:
  assumes "accepting env" "data_opcode (opcode w)"
    "ws_rx_parse_state w = LWS_RXPS_PAYLOAD_UNTIL_LENGTH_EXHAUSTED"
    "p \<noteq> []" "length p < 2 ^ 63" "rx_packet_length w = word_of_nat (length p)"
    "rx_user_buffer_head w < rx_cap env"
  shows "\<exists>v. run_bytes (step env) w p = Inr v \<and> ws_rx_parse_state v = LWS_RXPS_NEW \<and>
           rx_user_buffer v = [] \<and> ws_spec_revision v = ws_spec_revision w \<and>
           frame_masking_nonce_04 v = frame_masking_nonce_04 w \<and> ws_state v = ws_state w \<and>
           rx_log v = rx_log w @ map Ev_receive (pieces (rx_cap env) (rx_user_buffer w @ plain w p))"
  using assms
proof (induction p arbitrary: w)
  case (Cons c p)
  let ?cap = "rx_cap env" and ?b = "rx_user_buffer w"
  define u where "u = taken w c"
  define w1 where "w1 = stored w c (length p)"
  note w1_def = w1_def [unfolded stored_def, folded u_def]
  have pb: "payload_byte env (raw w) w c =
      (if p = [] then Inr (w1\<lparr>ws_rx_parse_state := LWS_RXPS_NEW\<rparr>, True)
       else Inr (w1, length (?b @ [u]) = ?cap))"
    using payload_stored [of w "length p" env c] Cons.prems(6,5,7) unfolding u_def \<open>w1 = stored w c (length p)\<close> by simp
  have pl: "plain w (c # p) = u # plain w1 p"
    unfolding u_def \<open>w1 = stored w c (length p)\<close> by (rule plain_Cons)
  show ?case
  proof (cases "p = []")
    case True
    have "length (?b @ [u]) \<le> ?cap" using Cons.prems(7) by simp
    then have "pieces ?cap (?b @ [u]) = [?b @ [u]]"
      using pieces_short [of "?b @ [u]" ?cap] pieces_exact [of "?b @ [u]" ?cap] rx_cap_pos [of env]
      by (cases "length (?b @ [u]) = ?cap") auto
    with True Cons.prems pb pl spill_data [of env "w1\<lparr>ws_rx_parse_state := LWS_RXPS_NEW\<rparr>"]
    show ?thesis by (simp add: step_payload w1_def plain_def)
  next
    case False
    show ?thesis
    proof (cases "length (?b @ [u]) = ?cap")
      case True
      let ?w2 = "(log_event (Ev_receive (?b @ [u])) w1)\<lparr>rx_user_buffer := []\<rparr>"
      have s: "step env w c = Inr ?w2"
        using Cons.prems pb False True spill_data [of env w1] by (simp add: step_payload w1_def)
      have "plain ?w2 p = plain w1 p"
        using raw_kept [of ?w2 w1] by (simp add: plain_def log_event_def)
      with Cons.IH [of ?w2] Cons.prems False rx_cap_pos [of env] obtain v where
        "run_bytes (step env) ?w2 p = Inr v" "ws_rx_parse_state v = LWS_RXPS_NEW"
        "rx_user_buffer v = []" "ws_spec_revision v = ws_spec_revision w" "ws_state v = ws_state w"
        "frame_masking_nonce_04 v = frame_masking_nonce_04 w"
        "rx_log v = rx_log w @ Ev_receive (?b @ [u]) # map Ev_receive (pieces ?cap (plain w1 p))"
        by (auto simp: w1_def log_event_def)
      then show ?thesis
        using s pl True pieces_block [of "?b @ [u]" ?cap "plain w1 p"] rx_cap_pos [of env] by simp
    next
      case full: False
      then have "step env w c = Inr w1" using Cons.prems pb False by (simp add: step_payload)
      moreover have "rx_user_buffer_head w1 < ?cap" using full Cons.prems(7) by (simp add: w1_def)
      ultimately show ?thesis
        using Cons.IH [of w1] Cons.prems False pl by (simp add: w1_def)
    qed
  qed
qed simp

text \<open>A payload that fits is collected whole before it is spilled, whatever the opcode.\<close>

lemma run_payload_whole:
  assumes "ws_rx_parse_state w = LWS_RXPS_PAYLOAD_UNTIL_LENGTH_EXHAUSTED"
    "p \<noteq> []" "length p < 2 ^ 63" "rx_packet_length w = word_of_nat (length p)"
    "rx_user_buffer_head w + length p \<le> rx_cap env"
  shows "\<exists>i. run_bytes (step env) w p =
           (case spill env (w\<lparr>rx_user_buffer := rx_user_buffer w @ plain w p, frame_mask_index := i,
                   rx_packet_length := 0, ws_rx_parse_state := LWS_RXPS_NEW\<rparr>) of
              Inl e \<Rightarrow> Inl e | Inr v \<Rightarrow> Inr v)"
  using assms
proof (induction p arbitrary: w)
  case (Cons c p)
  let ?cap = "rx_cap env" and ?b = "rx_user_buffer w"
  define u where "u = taken w c"
  define w1 where "w1 = stored w c (length p)"
  note w1_def = w1_def [unfolded stored_def, folded u_def]
  have pb: "payload_byte env (raw w) w c =
      (if p = [] then Inr (w1\<lparr>ws_rx_parse_state := LWS_RXPS_NEW\<rparr>, True)
       else Inr (w1, length (?b @ [u]) = ?cap))"
    using payload_stored [of w "length p" env c] Cons.prems(4,3,5) unfolding u_def \<open>w1 = stored w c (length p)\<close> by simp
  have pl: "plain w (c # p) = u # plain w1 p"
    unfolding u_def \<open>w1 = stored w c (length p)\<close> by (rule plain_Cons)
  show ?case
  proof (cases "p = []")
    case True
    with Cons.prems pb pl show ?thesis
      by (auto simp: step_payload w1_def plain_def split: sum.split
          intro!: exI [of _ "if raw w then frame_mask_index w else frame_mask_index w + 1"])
  next
    case False
    then have "step env w c = Inr w1" using Cons.prems pb by (cases p) (simp_all add: step_payload)
    moreover have "rx_user_buffer_head w1 + length p \<le> ?cap" using Cons.prems(5) by (simp add: w1_def)
    ultimately show ?thesis
      using Cons.IH [of w1] Cons.prems False pl by (simp add: w1_def)
  qed
qed simp

end

section \<open>Lengths on the wire\<close>

lemma nat_high_bit: "n < 2 ^ k \<Longrightarrow> k \<le> i \<Longrightarrow> \<not> bit (n :: nat) i"
  by (metis bit_take_bit_iff leD take_bit_nat_eq_self)

lemma be64_read:
  fixes w :: u64
  shows "push_bit 56 (ucast (be64 w ! 0)) OR push_bit 48 (ucast (be64 w ! 1)) OR
         push_bit 40 (ucast (be64 w ! 2)) OR push_bit 32 (ucast (be64 w ! 3)) OR
         push_bit 24 (ucast (be64 w ! 4)) OR push_bit 16 (ucast (be64 w ! 5)) OR
         push_bit 8 (ucast (be64 w ! 6)) OR ucast (be64 w ! 7) = w"
proof (rule bit_word_eqI)
  fix n assume "n < LENGTH(64)"
  then have "n < 8 \<or> 8 \<le> n \<and> n < 16 \<or> 16 \<le> n \<and> n < 24 \<or> 24 \<le> n \<and> n < 32 \<or>
    32 \<le> n \<and> n < 40 \<or> 40 \<le> n \<and> n < 48 \<or> 48 \<le> n \<and> n < 56 \<or> 56 \<le> n \<and> n < 64" by auto
  then show "bit (push_bit 56 (ucast (be64 w ! 0)) OR push_bit 48 (ucast (be64 w ! 1)) OR
         push_bit 40 (ucast (be64 w ! 2)) OR push_bit 32 (ucast (be64 w ! 3)) OR
         push_bit 24 (ucast (be64 w ! 4)) OR push_bit 16 (ucast (be64 w ! 5)) OR
         push_bit 8 (ucast (be64 w ! 6)) OR ucast (be64 w ! 7) :: u64) n = bit w n"
    by (elim disjE) (auto simp: be64_def bit_simps)
qed

lemma len16_read:
  assumes "n < 2 ^ 16"
  shows "push_bit 8 (ucast (word_of_nat (n div 256) :: byte)) OR ucast (word_of_nat n :: byte) =
           (word_of_nat n :: u64)"
proof (rule bit_word_eqI)
  fix i assume "i < LENGTH(64)"
  have d: "n div 256 = drop_bit 8 n" by (simp add: drop_bit_eq_div)
  have "i < 8 \<or> 8 \<le> i \<and> i < 16 \<or> 16 \<le> i" by auto
  then show "bit (push_bit 8 (ucast (word_of_nat (n div 256) :: byte)) OR ucast (word_of_nat n :: byte) :: u64) i =
      bit (word_of_nat n :: u64) i"
    using \<open>i < LENGTH(64)\<close> nat_high_bit [OF assms, of i]
    by (elim disjE) (auto simp: d bit_simps)
qed

lemma be64_top_clear:
  assumes "n < 2 ^ 63"
  shows "\<not> bit (be64 (word_of_nat n) ! 0) 7"
  using nat_high_bit [OF assms, of 63] by (simp add: be64_def bit_simps)

lemma len7_read:
  assumes "n < 126"
  shows "(word_of_nat n OR mask_bit m) AND 0x7f = (word_of_nat n :: byte)"
    "bit (word_of_nat n OR mask_bit m :: byte) 7 = m"
    "word_of_nat n \<noteq> (126 :: byte)" "word_of_nat n \<noteq> (127 :: byte)"
    "ucast (word_of_nat n :: byte) = (word_of_nat n :: u64)"
proof -
  have b: "bit n i \<Longrightarrow> i < 7" for i
    using nat_high_bit [of n 7 i] assms by (cases "i < 7") simp_all
  have m: "bit (mask_bit m) i \<longleftrightarrow> m \<and> i = 7" for i
    by (cases "i < 8") (auto simp: mask_bit_def bit_simps numeral_eq_Suc less_Suc_eq)
  have t: "bit (127 :: int) i \<longleftrightarrow> i < 7" for i
    using bit_mask_iff [of 7 i, where ?'a = int] by (simp add: mask_eq_exp_minus_1)
  show "(word_of_nat n OR mask_bit m) AND 0x7f = (word_of_nat n :: byte)"
    by (rule bit_word_eqI) (auto simp: bit_simps m t dest: b)
  show "bit (word_of_nat n OR mask_bit m :: byte) 7 = m" using b [of 7] by (auto simp: bit_simps m)
  have u: "unat (word_of_nat n :: byte) = n"
    using assms by (simp add: unsigned_of_nat take_bit_nat_eq_self_iff)
  show "word_of_nat n \<noteq> (126 :: byte)" "word_of_nat n \<noteq> (127 :: byte)"
    using arg_cong [where f = unat and x = "word_of_nat n :: byte" and y = 126]
      arg_cong [where f = unat and x = "word_of_nat n :: byte" and y = 127] u assms by auto
  show "ucast (word_of_nat n :: byte) = (word_of_nat n :: u64)"
    by (rule bit_word_eqI) (auto simp: bit_simps dest: b)
qed

section \<open>Headers of data frames\<close>

lemma first_of_read:
  "first_of fin r opc AND 0xf = opc AND 0xf" "first_of fin r opc AND 0x70 = r AND 0x70"
  "bit (first_of fin r opc) 7 = fin"
proof -
  have "bit (first_of fin r opc) 7 = (fin \<or> bit (r AND 0x70) 7 \<or> bit (opc AND 0xf) 7)"
    by (simp add: first_of_def bit_or_iff)
  then show "bit (first_of fin r opc) 7 = fin" by (simp add: bit_simps)
  show "first_of fin r opc AND 0xf = opc AND 0xf"
    unfolding first_of_def by (rule byte_bits_eqI) (simp_all add: bit_simps)
  show "first_of fin r opc AND 0x70 = r AND 0x70"
    unfolding first_of_def by (rule byte_bits_eqI) (simp_all add: bit_simps)
qed

lemma len_first_read:
  "(126 OR mask_bit m) AND 0x7f = (126 :: byte)" "(127 OR mask_bit m) AND 0x7f = (127 :: byte)"
  "bit (126 OR mask_bit m :: byte) 7 = m" "bit (127 OR mask_bit m :: byte) 7 = m"
  by (simp_all add: mask_bit_def bit_simps)

lemma data_opcode_and8: "data_opcode opc \<Longrightarrow> opc AND 8 = 0" "data_opcode opc \<Longrightarrow> opc AND 0xf = opc"
  by (auto simp: data_opcode_def)

lemma be64_list: "be64 w = [be64 w ! 0, be64 w ! 1, be64 w ! 2, be64 w ! 3, be64 w ! 4, be64 w ! 5,
    be64 w ! 6, be64 w ! 7]"
  by (rule nth_equalityI) (auto simp: less_Suc_eq numeral_eq_Suc)

lemma word_of_nat_eq0: "0 < n \<Longrightarrow> n < 2 ^ 64 \<Longrightarrow> (word_of_nat n :: u64) \<noteq> 0"
  using dvd_imp_le [of "2 ^ 64" n] by (auto simp: word_of_nat_eq_0_iff)

lemma len_fits_bound: "len_fits f n \<Longrightarrow> n < 2 ^ 63"
  by (cases f) (auto simp: len_fits_def)

lemma rx_len:
  assumes "ws_rx_parse_state w = LWS_RXPS_04_FRAME_HDR_LEN" "opcode w AND 8 = 0" "len_fits f n"
    "0 < n \<or> m \<or> f \<noteq> L7"
  shows "run_bytes (libwebsocket_rx_sm env) w (len_bytes f m n) =
    Inr (w\<lparr>this_frame_masked := m, rx_packet_length := word_of_nat n,
           ws_rx_parse_state := (if m then LWS_RXPS_07_COLLECT_FRAME_KEY_1
                                 else LWS_RXPS_PAYLOAD_UNTIL_LENGTH_EXHAUSTED)\<rparr>)"
proof (cases f)
  case L7
  then have n: "n < 126" using assms(3) by (simp add: len_fits_def)
  from len7_read(1,2) [OF n, of m] len7_read(3-5) [OF n] L7 assms word_of_nat_eq0 [of n] n show ?thesis
    by (auto simp: len_bytes_def libwebsocket_rx_sm_def Let_def)
next
  case L16
  then have "n < 2 ^ 16" using assms(3) by (simp add: len_fits_def)
  from len16_read [OF this] L16 assms len_first_read [of m] show ?thesis
    by (simp add: len_bytes_def libwebsocket_rx_sm_def or_length_def Let_def)
next
  case L64
  let ?b = "be64 (word_of_nat n)"
  have "n < 2 ^ 63" using assms(3) L64 by (simp add: len_fits_def)
  note top = be64_top_clear [OF this] and rd = be64_read [of "word_of_nat n"]
  have "len_bytes f m n = [127 OR mask_bit m, ?b ! 0, ?b ! 1, ?b ! 2, ?b ! 3, ?b ! 4, ?b ! 5, ?b ! 6, ?b ! 7]"
    using L64 be64_list [of "word_of_nat n"] by (simp add: len_bytes_def)
  with rd top assms len_first_read [of m] show ?thesis
    by (simp add: libwebsocket_rx_sm_def or_length_def Let_def or.assoc)
qed

lemma client_rx_len:
  assumes "ws_rx_parse_state w = LWS_RXPS_04_FRAME_HDR_LEN" "opcode w AND 8 = 0" "len_fits f n"
    "0 < n"
  shows "run_bytes (libwebsocket_client_rx_sm env) w (len_bytes f False n) =
    Inr (w\<lparr>this_frame_masked := False, rx_packet_length := word_of_nat n,
           ws_rx_parse_state := LWS_RXPS_PAYLOAD_UNTIL_LENGTH_EXHAUSTED\<rparr>)"
proof (cases f)
  case L7
  then have n: "n < 126" using assms(3) by (simp add: len_fits_def)
  from len7_read(1,2) [OF n, of False] len7_read(3-5) [OF n] L7 assms word_of_nat_eq0 [OF assms(4)] n show ?thesis
    by (simp add: len_bytes_def libwebsocket_client_rx_sm_def Let_def mask_bit_def)
next
  case L16
  then have "n < 2 ^ 16" using assms(3) by (simp add: len_fits_def)
  from len16_read [OF this] L16 assms len_first_read [of False] word_of_nat_eq0 [OF assms(4)] \<open>n < 2 ^ 16\<close>
  show ?thesis
    by (simp add: len_bytes_def libwebsocket_client_rx_sm_def or_length_def Let_def)
next
  case L64
  let ?b = "be64 (word_of_nat n)"
  have n: "n < 2 ^ 63" using assms(3) L64 by (simp add: len_fits_def)
  note top = be64_top_clear [OF this] and rd = be64_read [of "word_of_nat n"]
  have "len_bytes f False n =
      [127 OR mask_bit False, ?b ! 0, ?b ! 1, ?b ! 2, ?b ! 3, ?b ! 4, ?b ! 5, ?b ! 6, ?b ! 7]"
    using L64 be64_list [of "word_of_nat n"] by (simp add: len_bytes_def)
  with rd top assms len_first_read [of False] word_of_nat_eq0 [OF assms(4)] n show ?thesis
    by (simp add: libwebsocket_client_rx_sm_def or_length_def Let_def or.assoc)
qed

section \<open>Data frames\<close>

lemma accepting_ext: "accepting env \<Longrightarrow> lws_ext_callback_for_each_active env r b = (0, b)"
  by (simp add: accepting_def lws_ext_callback_for_each_active_def)

lemma rx_spill_data:
  assumes "accepting env" "data_opcode (opcode w)"
  shows "rx_spill env w = Inr ((if rx_user_buffer w = [] then w
           else log_event (Ev_receive (rx_user_buffer w)) w)\<lparr>rx_user_buffer := []\<rparr>)"
  using assms accepting_ext [OF assms(1)]
  by (auto simp: rx_spill_def data_opcode_def accepting_def user_callback_handle_rxflow_def Let_def)

lemma client_rx_spill_data:
  assumes "accepting env" "data_opcode (opcode w)"
  shows "client_rx_spill env w = Inr ((if rx_user_buffer w = [] then w
           else log_event (Ev_receive (rx_user_buffer w)) w)\<lparr>rx_user_buffer := []\<rparr>)"
  using assms accepting_ext [OF assms(1)]
  by (auto simp: client_rx_spill_def data_opcode_def accepting_def Let_def)

interpretation server: frame_machine libwebsocket_rx_sm rx_spill all_zero_nonce
  by unfold_locales (simp_all add: libwebsocket_rx_sm_def rx_spill_data)

definition client_raw :: "ws_wsi \<Rightarrow> bool" where
  "client_raw w \<longleftrightarrow> \<not> this_frame_masked w \<or> all_zero_nonce w"

interpretation client: frame_machine libwebsocket_client_rx_sm client_rx_spill client_raw
  by unfold_locales (simp_all add: libwebsocket_client_rx_sm_def client_rx_spill_data client_raw_def)

text \<open>The masking key.\<close>

lemma key_byte_alt:
  "key_byte i s w c = w\<lparr>frame_masking_nonce_04 := (frame_masking_nonce_04 w)[i := c],
     all_zero_nonce := (c = 0 \<and> all_zero_nonce w), ws_rx_parse_state := s\<rparr>"
  by (simp add: key_byte_def)

lemma rx_key:
  assumes "ws_rx_parse_state w = LWS_RXPS_07_COLLECT_FRAME_KEY_1" "length (frame_masking_nonce_04 w) = 4"
    "all_zero_nonce w" "length k = 4"
  shows "run_bytes (libwebsocket_rx_sm env) w k =
    (let v = w\<lparr>frame_masking_nonce_04 := k, all_zero_nonce := (k = [0, 0, 0, 0]), frame_mask_index := 0,
               ws_rx_parse_state := LWS_RXPS_PAYLOAD_UNTIL_LENGTH_EXHAUSTED\<rparr>
     in if rx_packet_length w = 0 then rx_spill env (v\<lparr>ws_rx_parse_state := LWS_RXPS_NEW\<rparr>) else Inr v)"
proof -
  obtain a b c d where k: "k = [a, b, c, d]"
    using assms(4) by (auto simp: length_Suc_conv numeral_eq_Suc)
  obtain a' b' c' d' where n: "frame_masking_nonce_04 w = [a', b', c', d']"
    using assms(2) by (auto simp: length_Suc_conv numeral_eq_Suc)
  have "run_bytes (libwebsocket_rx_sm env) w [a, b, c] =
      Inr (w\<lparr>frame_masking_nonce_04 := [a, b, c, d'], all_zero_nonce := (a = 0 \<and> b = 0 \<and> c = 0),
             ws_rx_parse_state := LWS_RXPS_07_COLLECT_FRAME_KEY_4\<rparr>)"
    using assms(1,3) n by (simp add: libwebsocket_rx_sm_def key_byte_alt conj_ac)
  moreover have "run_bytes f w (x @ [y]) = (case run_bytes f w x of Inl e \<Rightarrow> Inl e | Inr v \<Rightarrow> f v y)"
    for f :: "ws_wsi \<Rightarrow> byte \<Rightarrow> rx_stop + ws_wsi" and x y
    by (simp add: run_bytes_append split: sum.split)
  from this [of _ "[a, b, c]" d] have "run_bytes f w k =
      (case run_bytes f w [a, b, c] of Inl e \<Rightarrow> Inl e | Inr v \<Rightarrow> f v d)"
    for f :: "ws_wsi \<Rightarrow> byte \<Rightarrow> rx_stop + ws_wsi"
    by (simp add: k)
  ultimately show ?thesis
    by (simp add: libwebsocket_rx_sm_def [of env "w\<lparr>frame_masking_nonce_04 := _, all_zero_nonce := _, ws_rx_parse_state := _\<rparr>"]
        key_byte_alt Let_def k conj_ac)
qed

text \<open>One data frame on the server.\<close>

definition idle_rx :: "rx_env \<Rightarrow> ws_wsi \<Rightarrow> bool" where
  "idle_rx env w \<longleftrightarrow> ws_rx_parse_state w = LWS_RXPS_NEW \<and> ws_spec_revision w = 13 \<and>
     length (frame_masking_nonce_04 w) = 4 \<and> rx_user_buffer w = []"

definition key_ok :: "byte list option \<Rightarrow> bool" where
  "key_ok key = (case key of None \<Rightarrow> True | Some k \<Rightarrow> length k = 4)"

lemma rx_first:
  assumes "ws_rx_parse_state w = LWS_RXPS_NEW" "ws_spec_revision w = 13"
  shows "libwebsocket_rx_sm env w (first_of fin r opc) =
           Inr (first_byte (w\<lparr>all_zero_nonce := True\<rparr>) (first_of fin r opc))"
  using assms by (simp add: libwebsocket_rx_sm_def)

lemma first_byte_simps [simp]:
  "ws_rx_parse_state (first_byte w c) = LWS_RXPS_04_FRAME_HDR_LEN"
  "opcode (first_byte w c) = c AND 0xf"
  "all_zero_nonce (first_byte w c) = all_zero_nonce w"
  "frame_masking_nonce_04 (first_byte w c) = frame_masking_nonce_04 w"
  "rx_user_buffer (first_byte w c) = rx_user_buffer w"
  "ws_spec_revision (first_byte w c) = ws_spec_revision w"
  "ws_state (first_byte w c) = ws_state w"
  "rx_log (first_byte w c) = rx_log w"
  "ping_payload_len (first_byte w c) = ping_payload_len w"
  "ping_payload_buf (first_byte w c) = ping_payload_buf w"
  "ping_payload_alloc (first_byte w c) = ping_payload_alloc w"
  by (simp_all add: first_byte_def Let_def)

text \<open>The header of a frame with a payload, up to the payload.\<close>

lemma rx_header:
  assumes "idle_rx env w" "data_opcode opc \<or> f = L7" "len_fits f n" "0 < n" "key_ok key"
  shows "\<exists>v. run_bytes (libwebsocket_rx_sm env) w
             (first_of fin r opc # len_bytes f (key \<noteq> None) n @ (case key of None \<Rightarrow> [] | Some k \<Rightarrow> k)) = Inr v \<and>
           ws_rx_parse_state v = LWS_RXPS_PAYLOAD_UNTIL_LENGTH_EXHAUSTED \<and>
           rx_packet_length v = word_of_nat n \<and> opcode v = opc AND 0xf \<and>
           rx_user_buffer v = [] \<and> ws_spec_revision v = 13 \<and> ws_state v = ws_state w \<and>
           rx_log v = rx_log w \<and> length (frame_masking_nonce_04 v) = 4 \<and>
           ping_payload_len v = ping_payload_len w \<and> ping_payload_buf v = ping_payload_buf w \<and>
           ping_payload_alloc v = ping_payload_alloc w \<and>
           (\<forall>p. server.plain v (case key of None \<Rightarrow> p | Some k \<Rightarrow> mask_from k 0 p) = p)"
proof -
  let ?w1 = "first_byte (w\<lparr>all_zero_nonce := True\<rparr>) (first_of fin r opc)"
  let ?w2 = "?w1\<lparr>this_frame_masked := key \<noteq> None, rx_packet_length := word_of_nat n,
      ws_rx_parse_state := (if key \<noteq> None then LWS_RXPS_07_COLLECT_FRAME_KEY_1
                            else LWS_RXPS_PAYLOAD_UNTIL_LENGTH_EXHAUSTED)\<rparr>"
  have n: "(word_of_nat n :: u64) \<noteq> 0" using assms(3,4) len_fits_bound [of f n] by (intro word_of_nat_eq0) auto
  have w: "ws_rx_parse_state w = LWS_RXPS_NEW" "ws_spec_revision w = 13" "rx_user_buffer w = []"
    "length (frame_masking_nonce_04 w) = 4"
    using assms(1) by (simp_all add: idle_rx_def)
  have len: "run_bytes (libwebsocket_rx_sm env) ?w1 (len_bytes f (key \<noteq> None) n) = Inr ?w2"
  proof (cases "data_opcode opc")
    case True
    then show ?thesis
      using assms(3,4) data_opcode_and8 [of opc] by (intro rx_len) (simp_all add: first_of_read)
  next
    case False
    then have f: "f = L7" "n < 126" using assms(2,3) by (auto simp: len_fits_def)
    show ?thesis
      using f n len7_read(1,2) [OF f(2), of "key \<noteq> None"] len7_read(3-5) [OF f(2)]
      by (simp add: len_bytes_def libwebsocket_rx_sm_def Let_def)
  qed
  show ?thesis
  proof (cases key)
    case None
    then show ?thesis using rx_first [OF w(1,2)] len w by (simp add: server.plain_def first_of_read)
  next
    case (Some k)
    then have k: "length k = 4" using assms(5) by (simp add: key_ok_def)
    let ?v = "?w2\<lparr>frame_masking_nonce_04 := k, all_zero_nonce := (k = [0, 0, 0, 0]), frame_mask_index := 0,
               ws_rx_parse_state := LWS_RXPS_PAYLOAD_UNTIL_LENGTH_EXHAUSTED\<rparr>"
    have "run_bytes (libwebsocket_rx_sm env) ?w2 k = Inr ?v"
      using rx_key [of ?w2 k env] Some k w n by (simp add: Let_def)
    moreover have "server.plain ?v (mask_from k 0 p) = p" for p
      by (simp add: server.plain_def mask_from_zero mask_from_twice)
    ultimately show ?thesis
      using rx_first [OF w(1,2)] len w k Some by (simp add: run_bytes_append first_of_read)
  qed
qed

lemma frame_split:
  "frame fin r opc f key p =
     (first_of fin r opc # len_bytes f (key \<noteq> None) (length p) @ (case key of None \<Rightarrow> [] | Some k \<Rightarrow> k)) @
     (case key of None \<Rightarrow> p | Some k \<Rightarrow> mask_from k 0 p)"
  by (cases key) (simp_all add: frame_def)

lemma rx_data_frame:
  assumes "accepting env" "idle_rx env w" "data_opcode opc" "len_fits f (length p)" "p \<noteq> []" "key_ok key"
  shows "\<exists>v. run_bytes (libwebsocket_rx_sm env) w (frame fin r opc f key p) = Inr v \<and> idle_rx env v \<and>
           ws_state v = ws_state w \<and>
           rx_log v = rx_log w @ map Ev_receive (pieces (rx_cap env) p)"
proof -
  let ?q = "case key of None \<Rightarrow> p | Some k \<Rightarrow> mask_from k 0 p"
  have q: "length ?q = length p" "?q \<noteq> []" using assms(5) by (simp_all split: option.split)
  have n: "0 < length p" using assms(5) by simp
  obtain u where u: "run_bytes (libwebsocket_rx_sm env) w
       (first_of fin r opc # len_bytes f (key \<noteq> None) (length p) @ (case key of None \<Rightarrow> [] | Some k \<Rightarrow> k)) = Inr u"
    "ws_rx_parse_state u = LWS_RXPS_PAYLOAD_UNTIL_LENGTH_EXHAUSTED"
    "rx_packet_length u = word_of_nat (length p)" "opcode u = opc AND 0xf" "rx_user_buffer u = []"
    "ws_spec_revision u = 13" "ws_state u = ws_state w" "rx_log u = rx_log w"
    "length (frame_masking_nonce_04 u) = 4" "\<forall>p. server.plain u (case key of None \<Rightarrow> p | Some k \<Rightarrow> mask_from k 0 p) = p"
    using rx_header [OF assms(2) disjI1 [OF assms(3)] assms(4) n assms(6), of fin r] by blast
  have "data_opcode (opcode u)" using u(4) assms(3) data_opcode_and8 by simp
  then obtain v where "run_bytes (libwebsocket_rx_sm env) u ?q = Inr v" "ws_rx_parse_state v = LWS_RXPS_NEW"
    "rx_user_buffer v = []" "ws_spec_revision v = 13" "length (frame_masking_nonce_04 v) = 4"
    "ws_state v = ws_state w" "rx_log v = rx_log w @ map Ev_receive (pieces (rx_cap env) p)"
    using server.run_payload [OF assms(1) _ u(2) q(2)] u q rx_cap_pos [of env]
      len_fits_bound [OF assms(4)] by auto
  with u(1) show ?thesis
    unfolding frame_split run_bytes_append [of _ w] by (simp add: idle_rx_def)
qed

text \<open>
  An empty frame ends in its header. The code handles it where the length is in the first form or
  where a key follows.
\<close>

lemma rx_empty_frame:
  assumes "accepting env" "idle_rx env w" "data_opcode opc" "key \<noteq> None \<or> f = L7" "key_ok key"
  shows "\<exists>v. run_bytes (libwebsocket_rx_sm env) w (frame fin r opc f key []) = Inr v \<and> idle_rx env v \<and>
           ws_state v = ws_state w \<and> rx_log v = rx_log w"
proof -
  let ?w1 = "first_byte (w\<lparr>all_zero_nonce := True\<rparr>) (first_of fin r opc)"
  let ?w2 = "?w1\<lparr>this_frame_masked := key \<noteq> None, rx_packet_length := 0\<rparr>"
  have w: "ws_rx_parse_state w = LWS_RXPS_NEW" "ws_spec_revision w = 13" "rx_user_buffer w = []"
    "length (frame_masking_nonce_04 w) = 4"
    using assms(2) by (simp_all add: idle_rx_def)
  have opc: "opc AND 0xf = opc" "opc AND 8 = 0" using data_opcode_and8 [OF assms(3)] by simp_all
  show ?thesis
  proof (cases key)
    case None
    then have "run_bytes (libwebsocket_rx_sm env) ?w1 (len_bytes f False 0) =
        rx_spill env (?w2\<lparr>ws_rx_parse_state := LWS_RXPS_NEW\<rparr>)"
      using assms(4) by (simp add: len_bytes_def mask_bit_def libwebsocket_rx_sm_def Let_def split: sum.split)
    with None rx_first [OF w(1,2)] rx_spill_data [OF assms(1)] assms(3) w opc show ?thesis
      by (simp add: frame_def idle_rx_def first_of_read)
  next
    case (Some k)
    then have k: "length k = 4" using assms(5) by (simp add: key_ok_def)
    have len: "run_bytes (libwebsocket_rx_sm env) ?w1 (len_bytes f True 0) =
        Inr (?w2\<lparr>ws_rx_parse_state := LWS_RXPS_07_COLLECT_FRAME_KEY_1\<rparr>)"
      using rx_len [of ?w1 f 0 True env] opc Some
      by (simp add: first_of_read len_fits_def split: len_form.splits)
    have "run_bytes (libwebsocket_rx_sm env) (?w2\<lparr>ws_rx_parse_state := LWS_RXPS_07_COLLECT_FRAME_KEY_1\<rparr>) k =
        rx_spill env (?w2\<lparr>frame_masking_nonce_04 := k, all_zero_nonce := (k = [0, 0, 0, 0]),
          frame_mask_index := 0, ws_rx_parse_state := LWS_RXPS_NEW\<rparr>)"
      using rx_key [of "?w2\<lparr>ws_rx_parse_state := LWS_RXPS_07_COLLECT_FRAME_KEY_1\<rparr>" k env] k w
      by (simp add: Let_def)
    with Some rx_first [OF w(1,2)] len rx_spill_data [OF assms(1)] assms(3) w k opc show ?thesis
      by (simp add: frame_def idle_rx_def first_of_read run_bytes_append)
  qed
qed

text \<open>An empty frame without a key whose length is in one of the extended forms: the code waits for its payload.\<close>

lemma rx_empty_extended:
  assumes "idle_rx env w" "data_opcode opc" "f \<noteq> L7"
  shows "\<exists>v. run_bytes (libwebsocket_rx_sm env) w (frame fin r opc f None []) = Inr v \<and> rx_log v = rx_log w \<and>
           ws_rx_parse_state v = LWS_RXPS_PAYLOAD_UNTIL_LENGTH_EXHAUSTED \<and> rx_packet_length v = 0"
proof -
  have w: "ws_rx_parse_state w = LWS_RXPS_NEW" "ws_spec_revision w = 13"
    using assms(1) by (simp_all add: idle_rx_def)
  have opc: "opc AND 0xf = opc" "opc AND 8 = 0" using data_opcode_and8 [OF assms(2)] by simp_all
  have "len_fits f 0" by (simp add: len_fits_def split: len_form.splits)
  then show ?thesis
    using rx_first [OF w] rx_len [of "first_byte (w\<lparr>all_zero_nonce := True\<rparr>) (first_of fin r opc)" f 0 False env] assms(3) opc
    by (simp add: frame_def first_of_read)
qed

text \<open>
  A stream of data frames, each given by its header bits, form, key and payload: what a sender may
  send, the frames whose end the code misses, and those it reads.
\<close>

definition data_frame :: "bool \<times> byte \<times> byte \<times> len_form \<times> byte list option \<times> byte list \<Rightarrow> bool" where
  "data_frame = (\<lambda>(fin, r, opc, f, key, p). data_opcode opc \<and> len_fits f (length p) \<and> key_ok key)"

definition end_missed :: "bool \<times> byte \<times> byte \<times> len_form \<times> byte list option \<times> byte list \<Rightarrow> bool" where
  "end_missed = (\<lambda>(fin, r, opc, f, key, p). p = [] \<and> key = None \<and> f \<noteq> L7)"

definition data_frame_ok :: "bool \<times> byte \<times> byte \<times> len_form \<times> byte list option \<times> byte list \<Rightarrow> bool" where
  "data_frame_ok fr \<longleftrightarrow> data_frame fr \<and> \<not> end_missed fr"

definition frame_of :: "bool \<times> byte \<times> byte \<times> len_form \<times> byte list option \<times> byte list \<Rightarrow> byte list" where
  "frame_of = (\<lambda>(fin, r, opc, f, key, p). frame fin r opc f key p)"

definition payload_of :: "bool \<times> byte \<times> byte \<times> len_form \<times> byte list option \<times> byte list \<Rightarrow> byte list" where
  "payload_of = (\<lambda>(fin, r, opc, f, key, p). p)"

lemma pieces_Nil: "pieces k [] = []"
  by (auto simp: pieces_def rest_of_def blocks.simps)

lemma rx_data_frames:
  assumes "accepting env" "idle_rx env w" "\<forall>fr \<in> set frs. data_frame_ok fr"
  shows "\<exists>v. run_bytes (libwebsocket_rx_sm env) w (concat (map frame_of frs)) = Inr v \<and> idle_rx env v \<and>
           rx_log v = rx_log w @ concat (map (\<lambda>fr. map Ev_receive (pieces (rx_cap env) (payload_of fr))) frs)"
  using assms(2,3)
proof (induction frs arbitrary: w)
  case (Cons fr frs)
  obtain fin r opc f key p where fr: "fr = (fin, r, opc, f, key, p)" by (cases fr) auto
  then have ok: "data_opcode opc" "len_fits f (length p)" "key_ok key" "p = [] \<longrightarrow> key \<noteq> None \<or> f = L7"
    using Cons.prems by (auto simp: data_frame_ok_def data_frame_def end_missed_def)
  obtain u where "run_bytes (libwebsocket_rx_sm env) w (frame fin r opc f key p) = Inr u" "idle_rx env u"
    "rx_log u = rx_log w @ map Ev_receive (pieces (rx_cap env) p)"
    using rx_data_frame [OF assms(1) Cons.prems(1) ok(1,2) _ ok(3), of fin r]
      rx_empty_frame [OF assms(1) Cons.prems(1) ok(1) _ ok(3), of f fin r] ok(4)
    by (cases "p = []") (auto simp: pieces_Nil)
  with Cons.IH [of u] Cons.prems fr show ?case
    by (auto simp: run_bytes_append frame_of_def payload_of_def)
qed auto

section \<open>Data frames on the client\<close>

lemma client_rx_data_frame:
  assumes "accepting env" "idle_rx env w" "data_opcode opc" "len_fits f (length p)"
  shows "\<exists>v. run_bytes (libwebsocket_client_rx_sm env) w (frame fin r opc f None p) = Inr v \<and> idle_rx env v \<and>
           rx_log v = rx_log w @ map Ev_receive (pieces (rx_cap env) p)"
proof -
  let ?w1 = "first_byte w (first_of fin r opc)"
  let ?w2 = "?w1\<lparr>this_frame_masked := False, rx_packet_length := word_of_nat (length p)\<rparr>"
  have w: "ws_rx_parse_state w = LWS_RXPS_NEW" "ws_spec_revision w = 13" "rx_user_buffer w = []"
    "length (frame_masking_nonce_04 w) = 4"
    using assms(2) by (simp_all add: idle_rx_def)
  have opc: "opc AND 0xf = opc" "opc AND 8 = 0" using data_opcode_and8 [OF assms(3)] by simp_all
  have first: "libwebsocket_client_rx_sm env w (first_of fin r opc) = Inr ?w1"
    using w by (simp add: libwebsocket_client_rx_sm_def)
  show ?thesis
  proof (cases "p = []")
    case True
    have z: "be64 0 = [0, 0, 0, 0, 0, 0, 0, 0]" by (simp add: be64_def upt_rec)
    have "run_bytes (libwebsocket_client_rx_sm env) ?w1 (len_bytes f False 0) =
        client_rx_spill env (?w2\<lparr>ws_rx_parse_state := LWS_RXPS_NEW\<rparr>)"
      using True opc
      by (cases f) (simp_all add: len_bytes_def mask_bit_def libwebsocket_client_rx_sm_def or_length_def
            first_of_read Let_def z split: sum.split)
    with True first client_rx_spill_data [OF assms(1)] assms(3) w opc show ?thesis
      by (simp add: frame_def idle_rx_def first_of_read pieces_Nil)
  next
    case False
    let ?w3 = "?w2\<lparr>ws_rx_parse_state := LWS_RXPS_PAYLOAD_UNTIL_LENGTH_EXHAUSTED\<rparr>"
    have len: "run_bytes (libwebsocket_client_rx_sm env) ?w1 (len_bytes f False (length p)) = Inr ?w3"
      using client_rx_len [of ?w1 f "length p" env] assms(4) opc False by (simp add: first_of_read)
    obtain v where "run_bytes (libwebsocket_client_rx_sm env) ?w3 p = Inr v" "ws_rx_parse_state v = LWS_RXPS_NEW"
      "rx_user_buffer v = []" "ws_spec_revision v = 13" "length (frame_masking_nonce_04 v) = 4"
      "rx_log v = rx_log w @ map Ev_receive (pieces (rx_cap env) p)"
      using client.run_payload [OF assms(1), of ?w3 p] len_fits_bound [OF assms(4)] False assms(3) w opc
        rx_cap_pos [of env] by (auto simp: first_of_read client.plain_def client_raw_def)
    with first len show ?thesis by (auto simp: frame_def run_bytes_append idle_rx_def)
  qed
qed

section \<open>Control frames on the server\<close>

text \<open>A control frame that fits the user buffer is handed to the spill whole.\<close>

lemma rx_control_frame:
  assumes "idle_rx env w" "p \<noteq> []" "length p < 126" "length p \<le> rx_cap env" "key_ok key" "opc AND 0xf = opc"
  shows "\<exists>u. run_bytes (libwebsocket_rx_sm env) w (frame fin r opc L7 key p) = rx_spill env u \<and>
           opcode u = opc \<and> rx_user_buffer u = p \<and> ws_state u = ws_state w \<and> rx_log u = rx_log w \<and>
           ws_rx_parse_state u = LWS_RXPS_NEW \<and> ws_spec_revision u = 13 \<and>
           length (frame_masking_nonce_04 u) = 4 \<and>
           ping_payload_len u = ping_payload_len w \<and> ping_payload_buf u = ping_payload_buf w \<and>
           ping_payload_alloc u = ping_payload_alloc w"
proof -
  let ?q = "case key of None \<Rightarrow> p | Some k \<Rightarrow> mask_from k 0 p"
  have q: "length ?q = length p" "?q \<noteq> []" using assms(2) by (simp_all split: option.split)
  have n: "0 < length p" "len_fits L7 (length p)" using assms(2,3) by (simp_all add: len_fits_def)
  obtain v where v: "run_bytes (libwebsocket_rx_sm env) w
       (first_of fin r opc # len_bytes L7 (key \<noteq> None) (length p) @ (case key of None \<Rightarrow> [] | Some k \<Rightarrow> k)) = Inr v"
    "ws_rx_parse_state v = LWS_RXPS_PAYLOAD_UNTIL_LENGTH_EXHAUSTED"
    "rx_packet_length v = word_of_nat (length p)" "opcode v = opc AND 0xf" "rx_user_buffer v = []"
    "ws_spec_revision v = 13" "ws_state v = ws_state w" "rx_log v = rx_log w"
    "length (frame_masking_nonce_04 v) = 4" "ping_payload_len v = ping_payload_len w"
    "ping_payload_buf v = ping_payload_buf w" "ping_payload_alloc v = ping_payload_alloc w"
    "\<forall>p. server.plain v (case key of None \<Rightarrow> p | Some k \<Rightarrow> mask_from k 0 p) = p"
    using rx_header [OF assms(1) disjI2 [OF refl] n(2,1) assms(5), where opc = opc and fin = fin and r = r] by blast
  have l: "length ?q < 2 ^ 63" "rx_user_buffer_head v + length ?q \<le> rx_cap env"
    "rx_packet_length v = word_of_nat (length ?q)"
    using assms(3,4) q v by simp_all
  obtain i where "run_bytes (libwebsocket_rx_sm env) v ?q =
      (case rx_spill env (v\<lparr>rx_user_buffer := rx_user_buffer v @ server.plain v ?q, frame_mask_index := i,
              rx_packet_length := 0, ws_rx_parse_state := LWS_RXPS_NEW\<rparr>) of
         Inl e \<Rightarrow> Inl e | Inr v \<Rightarrow> Inr v)"
    using server.run_payload_whole [OF v(2) q(2) l(1,3,2)] by blast
  then have "run_bytes (libwebsocket_rx_sm env) v ?q =
      rx_spill env (v\<lparr>rx_user_buffer := p, frame_mask_index := i, rx_packet_length := 0,
        ws_rx_parse_state := LWS_RXPS_NEW\<rparr>)"
    using v(5,13) by (simp split: sum.splits)
  with v assms(6) show ?thesis
    unfolding frame_split run_bytes_append [of _ w] by auto
qed

section \<open>Properties\<close>

text \<open>A connection just after the handshake, whose callback accepts everything.\<close>

definition plain_env :: rx_env where
  "plain_env = \<lparr>rx_buffer_size = 0, active_extensions = [], callback = Some (\<lambda>_ _. 0),
                rx_flow_control = (\<lambda>_. 0)\<rparr>"

definition new_ws :: ws_wsi where
  "new_ws = \<lparr>ws_rx_parse_state = LWS_RXPS_NEW, ws_state = WSI_STATE_ESTABLISHED, ws_spec_revision = 13,
     rx_user_buffer = [], frame_masking_nonce_04 = [0, 0, 0, 0], frame_mask_index = 0,
     rx_packet_length = 0, opcode = 0, final = False, rsv = 0, frame_is_binary = False,
     all_zero_nonce = False, this_frame_masked = False, ping_payload_buf = None,
     ping_payload_alloc = 0, ping_payload_len = 0, rx_log = []\<rparr>"

lemma plain_env_accepting: "accepting plain_env"
  by (simp add: accepting_def plain_env_def)

lemma rx_cap_plain: "rx_cap plain_env = 4096"
  by (simp add: rx_cap_def plain_env_def)

lemma new_ws_idle: "idle_rx env new_ws"
  by (simp add: idle_rx_def new_ws_def)

text \<open>
  C3. Neither frame parser writes past the user buffer of the protocol: from a state within bounds,
  whatever the byte, the extensions and the callbacks, the next state is within bounds, and the
  step never ends in an overrun.
\<close>

theorem rx_buffer_never_overrun:
  assumes "rx_ok env w"
  shows "libwebsocket_rx_sm env w c \<noteq> Inl Rx_overrun \<and>
         libwebsocket_client_rx_sm env w c \<noteq> Inl Rx_overrun \<and>
         (\<forall>v. libwebsocket_rx_sm env w c = Inr v \<or> libwebsocket_client_rx_sm env w c = Inr v \<longrightarrow>
              rx_ok env v)"
  using libwebsocket_rx_sm_ok [OF assms] libwebsocket_client_rx_sm_ok [OF assms] by auto

theorem rx_buffer_never_overrun_witness:
  "libwebsocket_rx_sm plain_env new_ws 0x81 \<noteq> Inl Rx_overrun"
  using rx_buffer_never_overrun [of plain_env new_ws "0x81"] by (simp add: rx_ok_def new_ws_def)

text \<open>
  C2. The server receives what was sent, up to a frame whose end it misses: of a stream of text, binary
  and continuation frames, masked or not, with any of the three forms of the length and any reserved
  bits, it takes in all frames before the first one that is empty, has no key and has its length in
  an extended form, and the callback gets exactly their payloads, unmasked, in order, cut only at the
  size of the user buffer. A stream without such a frame is taken in completely. That frame itself
  leaves the parser waiting for a payload of no bytes, so that what follows is read as one.
\<close>

theorem server_stream_delivered:
  assumes "accepting env" "idle_rx env w" "\<forall>fr \<in> set frs. data_frame fr"
    and good: "good = takeWhile (\<lambda>fr. \<not> end_missed fr) frs"
  shows "\<exists>v. run_bytes (libwebsocket_rx_sm env) w (concat (map frame_of good)) = Inr v \<and> idle_rx env v \<and>
           rx_log v = rx_log w @ concat (map (\<lambda>fr. map Ev_receive (pieces (rx_cap env) (payload_of fr))) good) \<and>
           (\<forall>fr \<in> set frs. concat (pieces (rx_cap env) (payload_of fr)) = payload_of fr) \<and>
           ((\<forall>fr \<in> set frs. \<not> end_missed fr) \<longrightarrow> good = frs) \<and>
           (\<forall>fr rest. frs = good @ fr # rest \<longrightarrow>
              (\<exists>u. run_bytes (libwebsocket_rx_sm env) v (frame_of fr) = Inr u \<and> rx_log u = rx_log v \<and>
                   ws_rx_parse_state u = LWS_RXPS_PAYLOAD_UNTIL_LENGTH_EXHAUSTED \<and> rx_packet_length u = 0))"
proof -
  have "\<forall>fr \<in> set good. data_frame_ok fr" using assms(3) good by (auto simp: data_frame_ok_def dest: set_takeWhileD)
  from rx_data_frames [OF assms(1,2) this] obtain v where
    v: "run_bytes (libwebsocket_rx_sm env) w (concat (map frame_of good)) = Inr v" "idle_rx env v"
      "rx_log v = rx_log w @ concat (map (\<lambda>fr. map Ev_receive (pieces (rx_cap env) (payload_of fr))) good)" by blast
  have "\<exists>u. run_bytes (libwebsocket_rx_sm env) v (frame_of fr) = Inr u \<and> rx_log u = rx_log v \<and>
      ws_rx_parse_state u = LWS_RXPS_PAYLOAD_UNTIL_LENGTH_EXHAUSTED \<and> rx_packet_length u = 0"
    if frs: "frs = good @ fr # rest" for fr rest
  proof -
    have "dropWhile (\<lambda>fr. \<not> end_missed fr) frs = fr # rest"
      using frs good takeWhile_dropWhile_id [of "\<lambda>fr. \<not> end_missed fr" frs] by (metis same_append_eq)
    then have "end_missed fr" by (metis dropWhile_eq_Cons_conv)
    then obtain fin r opc f where "fr = (fin, r, opc, f, None, [])" "f \<noteq> L7" by (cases fr) (auto simp: end_missed_def)
    moreover have "data_frame fr" using assms(3) frs by simp
    ultimately show ?thesis using rx_empty_extended [OF v(2), of opc f fin r] by (simp add: frame_of_def data_frame_def)
  qed
  then show ?thesis using v concat_pieces [OF rx_cap_pos] good by (auto simp: takeWhile_eq_all_conv)
qed

text \<open>A masked frame, then one whose end is missed.\<close>

theorem server_stream_delivered_witness:
  "\<exists>v u. run_bytes (libwebsocket_rx_sm plain_env) new_ws
         (frame_of (True, 0, 1, L7, Some [1, 2, 3, 4], [0x68, 0x69])) = Inr v \<and>
       rx_log v = [Ev_receive [0x68, 0x69]] \<and>
       run_bytes (libwebsocket_rx_sm plain_env) v (frame_of (True, 0, 1, L16, None, [])) = Inr u \<and> rx_log u = rx_log v \<and>
       ws_rx_parse_state u = LWS_RXPS_PAYLOAD_UNTIL_LENGTH_EXHAUSTED"
proof -
  let ?a = "(True, 0, 1, L7, Some [1, 2, 3, 4], [0x68, 0x69]) :: bool \<times> byte \<times> byte \<times> len_form \<times> byte list option \<times> byte list"
  let ?b = "(True, 0, 1, L16, None, []) :: bool \<times> byte \<times> byte \<times> len_form \<times> byte list option \<times> byte list"
  have t: "[?a] = takeWhile (\<lambda>fr. \<not> end_missed fr) [?a, ?b]" by (simp add: end_missed_def)
  have d: "\<forall>fr \<in> set [?a, ?b]. data_frame fr" by (simp add: data_frame_def data_opcode_def len_fits_def key_ok_def)
  show ?thesis
    using server_stream_delivered [OF plain_env_accepting new_ws_idle d t]
    by (auto simp: payload_of_def rx_cap_plain pieces_short new_ws_def)
qed

text \<open>
  The client receives what was sent: an unmasked data frame of any length form, also an empty one,
  is taken in and its payload handed to the callback in order.
\<close>

theorem client_frame_delivered:
  assumes "accepting env" "idle_rx env w" "data_opcode opc" "len_fits f (length p)"
  shows "\<exists>v. run_bytes (libwebsocket_client_rx_sm env) w (frame fin r opc f None p) = Inr v \<and> idle_rx env v \<and>
           rx_log v = rx_log w @ map Ev_receive (pieces (rx_cap env) p)"
  using assms by (rule client_rx_data_frame)

theorem client_frame_delivered_witness:
  "\<exists>v. run_bytes (libwebsocket_client_rx_sm plain_env) new_ws (frame True 0 2 L16 None [7]) = Inr v \<and>
       rx_log v = [Ev_receive [7]]"
  using client_frame_delivered [OF plain_env_accepting new_ws_idle, of 2 L16 "[7]" True 0]
  by (auto simp: data_opcode_def len_fits_def rx_cap_plain pieces_short new_ws_def)

text \<open>
  A ping is answered with its own payload: the server keeps the payload of a ping for the pong and
  asks for a writable callback, unless a pong is already due, in which case it drops the ping. In
  both cases the user callback does not see it and the parser is ready for the next frame.
\<close>

theorem ping_is_stashed:
  assumes "idle_rx env w" "p \<noteq> []" "length p < 126" "length p \<le> rx_cap env" "key_ok key"
  shows "\<exists>v. run_bytes (libwebsocket_rx_sm env) w (frame fin r 9 L7 key p) = Inr v \<and> idle_rx env v \<and>
           (if ping_payload_len w = 0
            then ping_payload_len v = length p \<and> take (length p) (the (ping_payload_buf v)) = p \<and>
                 rx_log v = rx_log w @ [Ev_on_writable]
            else ping_payload_len v = ping_payload_len w \<and> ping_payload_buf v = ping_payload_buf w \<and>
                 rx_log v = rx_log w)"
proof -
  obtain u where u: "run_bytes (libwebsocket_rx_sm env) w (frame fin r 9 L7 key p) = rx_spill env u"
    "opcode u = 9" "rx_user_buffer u = p" "rx_log u = rx_log w" "ws_rx_parse_state u = LWS_RXPS_NEW"
    "ws_spec_revision u = 13" "length (frame_masking_nonce_04 u) = 4"
    "ping_payload_len u = ping_payload_len w" "ping_payload_buf u = ping_payload_buf w"
    using rx_control_frame [OF assms, of 9 fin r] by auto
  have "rx_spill env u = Inr (rx_ping u)" using u(2) by (simp add: rx_spill_def)
  with u show ?thesis
    by (cases "ping_payload_len w = 0")
       (simp_all add: idle_rx_def rx_ping_def log_event_def Let_def)
qed

theorem ping_is_stashed_witness:
  "\<exists>v. run_bytes (libwebsocket_rx_sm plain_env) new_ws (frame True 0 9 L7 None [1, 2]) = Inr v \<and>
       ping_payload_len v = 2 \<and> rx_log v = [Ev_on_writable]"
  using ping_is_stashed [OF new_ws_idle, of "[1, 2]" plain_env None True 0]
  by (auto simp: rx_cap_plain key_ok_def new_ws_def)

text \<open>
  The closing handshake on the receiving side: a close frame ends the connection; its payload is
  sent back first and the state records it, except when it acknowledges a close of our own.
\<close>

theorem close_is_parroted:
  assumes "idle_rx env w" "p \<noteq> []" "length p < 126" "length p \<le> rx_cap env" "key_ok key"
  shows "\<exists>v. run_bytes (libwebsocket_rx_sm env) w (frame fin r 8 L7 key p) = Inl (Rx_closed v) \<and>
           (if ws_state w = WSI_STATE_AWAITING_CLOSE_ACK
            then ws_state v = ws_state w \<and> rx_log v = rx_log w
            else ws_state v = WSI_STATE_RETURNED_CLOSE_ALREADY \<and>
                 rx_log v = rx_log w @ [Ev_write_close p])"
proof -
  obtain u where u: "run_bytes (libwebsocket_rx_sm env) w (frame fin r 8 L7 key p) = rx_spill env u"
    "opcode u = 8" "rx_user_buffer u = p" "ws_state u = ws_state w" "rx_log u = rx_log w"
    using rx_control_frame [OF assms, of 8 fin r] by auto
  then show ?thesis by (auto simp: rx_spill_def)
qed

theorem close_is_parroted_witness:
  "\<exists>v. run_bytes (libwebsocket_rx_sm plain_env) new_ws (frame True 0 8 L7 None [3, 0xe8]) = Inl (Rx_closed v) \<and>
       rx_log v = [Ev_write_close [3, 0xe8]]"
  using close_is_parroted [OF new_ws_idle, of "[3, 0xe8]" plain_env None True 0]
  by (auto simp: rx_cap_plain key_ok_def new_ws_def)

text \<open>
  Illegal headers end the connection in both parsers: a control frame whose length byte announces an
  extended length, and a 64-bit length with its top bit set. Nothing is delivered.
\<close>

theorem illegal_lengths_close:
  assumes "step = libwebsocket_rx_sm env \<or> step = libwebsocket_client_rx_sm env"
  shows "(ws_rx_parse_state w = LWS_RXPS_04_FRAME_HDR_LEN \<and> opcode w AND 8 \<noteq> 0 \<and> 126 \<le> c AND 0x7f \<longrightarrow>
            (\<exists>v. step w c = Inl (Rx_closed v) \<and> rx_log v = rx_log w)) \<and>
         (ws_rx_parse_state w = LWS_RXPS_04_FRAME_HDR_LEN64_8 \<and> 128 \<le> c \<longrightarrow>
            step w c = Inl (Rx_closed w))"
proof -
  have n: "c AND 0x7f = 126 \<or> c AND 0x7f = 127" if "126 \<le> c AND 0x7f"
  proof -
    have "unat (c AND 0x7f) \<le> 127" using unat_masked_le [of c "0x7f"] by simp
    moreover have "126 \<le> unat (c AND 0x7f)" using that by (simp add: word_le_nat_alt)
    ultimately have "unat (c AND 0x7f) = 126 \<or> unat (c AND 0x7f) = 127" by linarith
    then have "unat (c AND 0x7f) = unat (126 :: byte) \<or> unat (c AND 0x7f) = unat (127 :: byte)" by simp
    then show ?thesis by (simp only: word_unat_eq_iff)
  qed
  have b: "128 \<le> c \<Longrightarrow> bit c 7"
  proof -
    assume "128 \<le> c"
    then have "128 \<le> unat c" by (simp add: word_le_nat_alt)
    then have "unat c div 128 = 1" using unat_byte_less [of c] by auto
    then have "bit (unat c) 7" by (simp add: bit_iff_odd)
    then show "bit c 7" by (simp add: bit_unsigned_iff)
  qed
  show ?thesis
    using assms n b by (auto simp: libwebsocket_rx_sm_def libwebsocket_client_rx_sm_def Let_def)
qed

theorem illegal_lengths_close_witness:
  "libwebsocket_rx_sm plain_env (new_ws\<lparr>ws_rx_parse_state := LWS_RXPS_04_FRAME_HDR_LEN64_8\<rparr>) 0xff =
     Inl (Rx_closed (new_ws\<lparr>ws_rx_parse_state := LWS_RXPS_04_FRAME_HDR_LEN64_8\<rparr>))"
  using illegal_lengths_close [of "libwebsocket_rx_sm plain_env" plain_env
      "new_ws\<lparr>ws_rx_parse_state := LWS_RXPS_04_FRAME_HDR_LEN64_8\<rparr>" "0xff"] by simp

text \<open>
  An empty unmasked frame whose length is written in the 16-bit form puts the server parser into
  the payload state with nothing to come: the next byte, the start of the next frame, is taken as
  payload and the count of bytes to come wraps to the largest 64-bit number. (The client parser
  tests for zero at this place.)
\<close>

theorem empty_extended_frame_desyncs:
  assumes "idle_rx env w" "1 < rx_cap env"
  shows "\<exists>v. run_bytes (libwebsocket_rx_sm env) w (frame True 0 1 L16 None [] @ [c]) = Inr v \<and>
           ws_rx_parse_state v = LWS_RXPS_PAYLOAD_UNTIL_LENGTH_EXHAUSTED \<and>
           rx_user_buffer v = [c] \<and> rx_packet_length v = 2 ^ 64 - 1"
proof -
  have w: "ws_rx_parse_state w = LWS_RXPS_NEW" "ws_spec_revision w = 13" "rx_user_buffer w = []"
    using assms(1) by (simp_all add: idle_rx_def)
  have f: "frame True 0 1 L16 None [] = [first_of True 0 1, 126, 0, 0]"
    by (simp add: frame_def len_bytes_def mask_bit_def)
  have cap: "rx_buffer_size env \<noteq> Suc 0" using assms(2) by (auto simp: rx_cap_def)
  let ?w1 = "first_byte (w\<lparr>all_zero_nonce := True\<rparr>) (first_of True 0 1)"
  let ?w2 = "?w1\<lparr>this_frame_masked := False, rx_packet_length := 0,
    ws_rx_parse_state := LWS_RXPS_PAYLOAD_UNTIL_LENGTH_EXHAUSTED\<rparr>"
  have "run_bytes (libwebsocket_rx_sm env) w [first_of True 0 1, 126, 0, 0] = Inr ?w2"
    using rx_first [OF w(1,2), of env True 0 1] first_of_read(1) [of True 0 1]
    by (simp add: libwebsocket_rx_sm_def [of env "first_byte _ _"]
        libwebsocket_rx_sm_def [of env "_\<lparr>ws_rx_parse_state := _\<rparr>"]
        libwebsocket_rx_sm_def [of env "_\<lparr>rx_packet_length := _, ws_rx_parse_state := _\<rparr>"]
        or_length_def Let_def)
  then have h: "run_bytes (libwebsocket_rx_sm env) w (frame True 0 1 L16 None []) = Inr ?w2"
    by (simp only: f)
  have "libwebsocket_rx_sm env ?w2 c =
      Inr (?w2\<lparr>rx_user_buffer := [c], rx_packet_length := -1\<rparr>)"
    using w assms(2) cap by (simp add: libwebsocket_rx_sm_def payload_byte_def Let_def rx_cap_def)
  then show ?thesis unfolding run_bytes_append h by simp
qed

theorem empty_extended_frame_desyncs_witness:
  "\<exists>v. run_bytes (libwebsocket_rx_sm plain_env) new_ws (frame True 0 1 L16 None [] @ [0x81]) = Inr v \<and>
       rx_user_buffer v = [0x81]"
  using empty_extended_frame_desyncs [OF new_ws_idle, of plain_env "0x81"] by (auto simp: rx_cap_plain)

end
