(* ===== verification/Output.thy ===== *)
theory Output
  imports Frames
begin

text \<open>
  The sending side: \<^verbatim>\<open>lib/output.c\<close> (\<open>lws_issue_raw\<close> with its store for truncated sends,
  \<open>libwebsocket_write\<close>, \<open>libwebsockets_serve_http_file_fragment\<close>) and \<open>lws_issue_raw_ext_access\<close> of
  \<^verbatim>\<open>lib/extension.c\<close>. Memory is explicit: a frame header is written in front of the caller's payload,
  in the caller's buffer, and masking happens in place.
\<close>

unbundle bit_operations_syntax

section \<open>State\<close>

datatype connection_mode =
    LWS_CONNMODE_HTTP_SERVING | LWS_CONNMODE_HTTP_SERVING_ACCEPTED | LWS_CONNMODE_PRE_WS_SERVING_ACCEPT
  | LWS_CONNMODE_WS_SERVING | LWS_CONNMODE_WS_CLIENT | LWS_CONNMODE_HTTP2_SERVING
  | LWS_CONNMODE_SSL_ACK_PENDING
  | LWS_CONNMODE_WS_CLIENT_WAITING_CONNECT | LWS_CONNMODE_WS_CLIENT_WAITING_PROXY_REPLY
  | LWS_CONNMODE_WS_CLIENT_ISSUE_HANDSHAKE | LWS_CONNMODE_WS_CLIENT_ISSUE_HANDSHAKE2
  | LWS_CONNMODE_WS_CLIENT_WAITING_SSL | LWS_CONNMODE_WS_CLIENT_WAITING_SERVER_REPLY
  | LWS_CONNMODE_WS_CLIENT_WAITING_EXTENSION_CONNECT | LWS_CONNMODE_WS_CLIENT_PENDING_CANDIDATE_CHILD
  | LWS_CONNMODE_SERVER_LISTENER

text \<open>
  \<^verbatim>\<open>enum libwebsocket_write_protocol\<close>: a number in the low four bits, flags above. (The upper flag,
  \<open>LWS_WRITE_CLIENT_IGNORE_XOR_MASK\<close>, is read nowhere.)
\<close>

abbreviation (input) LWS_WRITE_TEXT :: byte where "LWS_WRITE_TEXT \<equiv> 0"
abbreviation (input) LWS_WRITE_BINARY :: byte where "LWS_WRITE_BINARY \<equiv> 1"
abbreviation (input) LWS_WRITE_CONTINUATION :: byte where "LWS_WRITE_CONTINUATION \<equiv> 2"
abbreviation (input) LWS_WRITE_HTTP :: byte where "LWS_WRITE_HTTP \<equiv> 3"
abbreviation (input) LWS_WRITE_CLOSE :: byte where "LWS_WRITE_CLOSE \<equiv> 4"
abbreviation (input) LWS_WRITE_PING :: byte where "LWS_WRITE_PING \<equiv> 5"
abbreviation (input) LWS_WRITE_PONG :: byte where "LWS_WRITE_PONG \<equiv> 6"
abbreviation (input) LWS_WRITE_HTTP_FINAL :: byte where "LWS_WRITE_HTTP_FINAL \<equiv> 7"
abbreviation (input) LWS_WRITE_HTTP_HEADERS :: byte where "LWS_WRITE_HTTP_HEADERS \<equiv> 8"
abbreviation (input) LWS_WRITE_NO_FIN :: byte where "LWS_WRITE_NO_FIN \<equiv> 0x40"
abbreviation (input) LWS_SEND_BUFFER_PRE_PADDING :: nat where "LWS_SEND_BUFFER_PRE_PADDING \<equiv> 18"
abbreviation (input) LWS_SEND_BUFFER_POST_PADDING :: nat where "LWS_SEND_BUFFER_POST_PADDING \<equiv> 4"

text \<open>
  A buffer argument: a pointer \<open>tb_off\<close> into the allocation \<open>tb_id\<close>, whose content is \<open>tb_mem\<close>, and a
  length. Two pointers are equal when allocation and offset are. Allocation 0 stands for NULL and
  allocation 1 for \<open>truncated_send_malloc\<close>.
\<close>

record tx_buf =
  tb_id :: nat
  tb_mem :: "byte list"
  tb_off :: nat
  tb_len :: nat

definition tb_bytes :: "tx_buf \<Rightarrow> byte list" where
  "tb_bytes b = take (tb_len b) (drop (tb_off b) (tb_mem b))"

definition tb_null :: tx_buf where
  "tb_null = \<lparr>tb_id = 0, tb_mem = [], tb_off = 0, tb_len = 0\<rparr>"

definition same_ptr :: "tx_buf \<Rightarrow> tx_buf \<Rightarrow> bool" where
  "same_ptr a b \<longleftrightarrow> tb_id a = tb_id b \<and> tb_off a = tb_off b"

text \<open>
  The sending members of \<^verbatim>\<open>struct libwebsocket\<close>. \<open>wire\<close> are the bytes the socket has taken so far,
  \<open>writable_asked\<close> counts the calls of \<open>libwebsocket_callback_on_writable\<close>, and \<open>tx_clock\<close> counts the
  calls that leave the library: the answers of the environment may differ at each of them.
\<close>

record tx_wsi =
  tx_mode :: connection_mode
  tx_state :: lws_connection_states
  tx_spec_revision :: byte
  tx_nonce :: "byte list"
  tx_mask_index :: byte
  close_reason :: "16 word"
  inside_frame :: bool
  clean_buffer :: bool
  extension_data_pending :: bool
  socket_is_permanently_unusable :: bool
  truncated_send_malloc :: "byte list option"
  truncated_send_allocation :: nat
  truncated_send_offset :: nat
  truncated_send_len :: nat
  wire :: "byte list"
  writable_asked :: nat
  tx_clock :: nat

datatype errno_t = EAGAIN | EWOULDBLOCK | EINTR | E_other

datatype send_res = Sent nat | Send_failed errno_t

text \<open>
  What the library calls: \<open>send\<close>, \<open>poll\<close> for \<open>POLLOUT\<close> on the socket, the random device, \<open>malloc\<close> and
  the active extensions, each told the clock.
\<close>

type_synonym tx_extension = "nat \<Rightarrow> ext_reason \<Rightarrow> tx_buf \<Rightarrow> int \<times> tx_buf"

record tx_env =
  send_sock :: "nat \<Rightarrow> byte list \<Rightarrow> send_res"
  poll_out :: "nat \<Rightarrow> bool"
  get_random :: "nat \<Rightarrow> nat \<Rightarrow> byte list"
  malloc_ok :: "nat \<Rightarrow> nat \<Rightarrow> bool"
  tx_extensions :: "tx_extension list"

text \<open>How a send can go wrong below the return value: the failed assertion, memory out of bounds.\<close>

datatype tx_stop = Tx_abort | Tx_overrun

definition tick :: "tx_wsi \<Rightarrow> tx_wsi" where
  "tick w = w\<lparr>tx_clock := tx_clock w + 1\<rparr>"

definition libwebsocket_callback_on_writable_tx :: "tx_wsi \<Rightarrow> tx_wsi" where
  "libwebsocket_callback_on_writable_tx w = w\<lparr>writable_asked := writable_asked w + 1\<rparr>"

definition tx_ext_callback :: "tx_env \<Rightarrow> tx_wsi \<Rightarrow> ext_reason \<Rightarrow> tx_buf \<Rightarrow> int \<times> tx_buf" where
  "tx_ext_callback env w reason b = ext_loop (map (\<lambda>e. e (tx_clock w)) (tx_extensions env)) reason 0 b"

section \<open>Raw sends\<close>

abbreviation (input) LWS_SSL_CAPABLE_ERROR :: int where "LWS_SSL_CAPABLE_ERROR \<equiv> -1"
abbreviation (input) LWS_SSL_CAPABLE_MORE_SERVICE :: int where "LWS_SSL_CAPABLE_MORE_SERVICE \<equiv> -2"

definition lws_ssl_capable_write_no_ssl :: "tx_env \<Rightarrow> tx_wsi \<Rightarrow> byte list \<Rightarrow> int \<times> tx_wsi" where
  "lws_ssl_capable_write_no_ssl env w bs =
     (case send_sock env (tx_clock w) bs of
        Sent n \<Rightarrow> (int n, (tick w)\<lparr>wire := wire w @ take n bs\<rparr>)
      | Send_failed e \<Rightarrow>
          (if e = EAGAIN \<or> e = EWOULDBLOCK \<or> e = EINTR then LWS_SSL_CAPABLE_MORE_SERVICE
           else LWS_SSL_CAPABLE_ERROR, tick w))"

definition lws_send_pipe_choked :: "tx_env \<Rightarrow> tx_wsi \<Rightarrow> bool \<times> tx_wsi" where
  "lws_send_pipe_choked env w =
     (if truncated_send_len w \<noteq> 0 then (True, w) else (\<not> poll_out env (tx_clock w), tick w))"

text \<open>The label \<open>handle_truncated_send\<close>: \<open>n\<close> of the \<open>real_len\<close> bytes at the buffer are gone.\<close>

definition handle_truncated_send ::
    "tx_env \<Rightarrow> tx_wsi \<Rightarrow> tx_buf \<Rightarrow> nat \<Rightarrow> nat \<Rightarrow> tx_stop + int \<times> tx_wsi" where
  "handle_truncated_send env w b real_len n =
     (if truncated_send_len w \<noteq> 0 then
        let w1 = w\<lparr>truncated_send_offset := (truncated_send_offset w + n) mod 2 ^ 32,
                   truncated_send_len := (truncated_send_len w + 2 ^ 32 - n) mod 2 ^ 32\<rparr>;
            r = (if truncated_send_len w1 = 0 then int real_len else int n)
        in if truncated_send_len w1 = 0 \<and> tx_state w1 = WSI_STATE_FLUSHING_STORED_SEND_BEFORE_CLOSE
           then Inr (-1, w1)
           else Inr (r, libwebsocket_callback_on_writable_tx w1)
      else if n = real_len then Inr (int n, w)
      else if n \<noteq> 0 \<and> clean_buffer w then Inr (int n, w)
      else if length (tb_mem b) < tb_off b + real_len then Inl Tx_overrun
      else
        let need = real_len - n;
            alloc = truncated_send_malloc w = None \<or> truncated_send_allocation w < need;
            w1 = (if alloc then
                    (tick w)\<lparr>truncated_send_allocation := need,
                      truncated_send_malloc :=
                        (if malloc_ok env (tx_clock w) need then Some (replicate need 0) else None)\<rparr>
                  else w)
        in case truncated_send_malloc w1 of
             None \<Rightarrow> Inr (-1, w1)
           | Some m \<Rightarrow>
               let w2 = w1\<lparr>truncated_send_offset := 0, truncated_send_len := need,
                           truncated_send_malloc :=
                             Some (take need (drop (tb_off b + n) (tb_mem b)) @ drop need m)\<rparr>
               in Inr (int real_len, libwebsocket_callback_on_writable_tx w2))"

definition in_truncated :: "tx_wsi \<Rightarrow> tx_buf \<Rightarrow> bool" where
  "in_truncated w b \<longleftrightarrow> tb_id b = 1 \<and> tb_off b \<le> truncated_send_len w + truncated_send_offset w"

definition lws_issue_raw :: "tx_env \<Rightarrow> tx_wsi \<Rightarrow> tx_buf \<Rightarrow> tx_stop + int \<times> tx_wsi" where
  "lws_issue_raw env w b =
     (let len = tb_len b
      in if len = 0 then Inr (0, w)
         else if tx_state w = WSI_STATE_FLUSHING_STORED_SEND_BEFORE_CLOSE \<and> truncated_send_len w = 0
           then Inr (int len, w)
         else if truncated_send_len w \<noteq> 0 \<and> \<not> in_truncated w b then Inl Tx_abort
         else
           case tx_ext_callback env w LWS_EXT_CALLBACK_PACKET_TX_DO_SEND b of (m, b1) \<Rightarrow>
             if m < 0 then Inr (-1, tick w)
             else if m \<noteq> 0 then
               handle_truncated_send env ((tick w)\<lparr>wire := wire w @ take (nat m) (tb_bytes b)\<rparr>)
                 b1 len (nat m)
             else if length (tb_mem b1) < tb_off b1 + len then Inl Tx_overrun
             else
               case lws_ssl_capable_write_no_ssl env (tick w) (take len (drop (tb_off b1) (tb_mem b1))) of
                 (n, w1) \<Rightarrow>
                   if n = LWS_SSL_CAPABLE_ERROR then
                     Inr (-1, w1\<lparr>socket_is_permanently_unusable := True\<rparr>)
                   else handle_truncated_send env w1 b1 len
                          (if n = LWS_SSL_CAPABLE_MORE_SERVICE then 0 else nat n))"

text \<open>The call every flush of the store makes.\<close>

definition truncated_buf :: "tx_wsi \<Rightarrow> tx_buf" where
  "truncated_buf w = \<lparr>tb_id = 1, tb_mem = (case truncated_send_malloc w of None \<Rightarrow> [] | Some m \<Rightarrow> m),
     tb_off = truncated_send_offset w, tb_len = truncated_send_len w\<rparr>"

definition flush_truncated :: "tx_env \<Rightarrow> tx_wsi \<Rightarrow> tx_stop + int \<times> tx_wsi" where
  "flush_truncated env w = lws_issue_raw env w (truncated_buf w)"

section \<open>Through the extensions\<close>

partial_function (option) ext_access_loop ::
    "tx_env \<Rightarrow> tx_wsi \<Rightarrow> tx_buf \<Rightarrow> tx_buf \<Rightarrow> nat \<Rightarrow> (tx_stop + int \<times> tx_wsi) option" where
  "ext_access_loop env w b eff len =
     (case tx_ext_callback env w LWS_EXT_CALLBACK_PACKET_TX_PRESEND eff of (m, eff1) \<Rightarrow>
        if m < 0 then Some (Inr (-1, tick w))
        else
          let w1 = (if same_ptr b eff1 then tick w else (tick w)\<lparr>clean_buffer := False\<rparr>)
          in case (if tb_len eff1 \<noteq> 0 then lws_issue_raw env w1 eff1 else Inr (0, w1)) of
               Inl e \<Rightarrow> Some (Inl e)
             | Inr (n, w2) \<Rightarrow>
                 if n < 0 then Some (Inr (-1, w2))
                 else
                   let len1 = (if tb_len eff1 \<noteq> 0 \<and> clean_buffer w2 then nat n else len)
                   in if m = 0 then Some (Inr (int len1, w2))
                      else
                        case lws_send_pipe_choked env w2 of (choked, w3) \<Rightarrow>
                          if \<not> choked \<and> truncated_send_len w3 = 0
                          then ext_access_loop env w3 b tb_null len1
                          else Some (Inr (int len1,
                                 (libwebsocket_callback_on_writable_tx w3)\<lparr>extension_data_pending := True\<rparr>)))"

definition lws_issue_raw_ext_access ::
    "tx_env \<Rightarrow> tx_wsi \<Rightarrow> tx_buf \<Rightarrow> (tx_stop + int \<times> tx_wsi) option" where
  "lws_issue_raw_ext_access env w b = ext_access_loop env w b b (tb_len b)"

section \<open>libwebsocket_write\<close>

text \<open>Writing a string into the allocation of a buffer, at an absolute position.\<close>

definition poke :: "tx_buf \<Rightarrow> nat \<Rightarrow> byte list \<Rightarrow> tx_buf option" where
  "poke b pos xs =
     (if pos + length xs \<le> length (tb_mem b)
      then Some (b\<lparr>tb_mem := take pos (tb_mem b) @ xs @ drop (pos + length xs) (tb_mem b)\<rparr>) else None)"

text \<open>The header in front of the payload, the key excepted.\<close>

definition frame_header :: "byte \<Rightarrow> nat \<Rightarrow> byte \<Rightarrow> byte list" where
  "frame_header n len is_masked_bit =
     (if len < 126 then [n, word_of_nat len OR is_masked_bit]
      else if len < 65536 then [n, 126 OR is_masked_bit, word_of_nat (len div 2 ^ 8), word_of_nat len]
      else [n, 127 OR is_masked_bit,
            word_of_nat (len div 2 ^ 56) AND 0x7f, word_of_nat (len div 2 ^ 48),
            word_of_nat (len div 2 ^ 40), word_of_nat (len div 2 ^ 32),
            word_of_nat (len div 2 ^ 24), word_of_nat (len div 2 ^ 16),
            word_of_nat (len div 2 ^ 8), word_of_nat len])"

text \<open>\<open>switch (protocol & 0xf)\<close>: the opcode, \<open>None\<close> for the default branch.\<close>

definition write_opcode :: "byte \<Rightarrow> byte option" where
  "write_opcode protocol =
     (let p = protocol AND 0xf
      in if p = LWS_WRITE_TEXT then Some LWS_WS_OPCODE_07__TEXT_FRAME
         else if p = LWS_WRITE_BINARY then Some LWS_WS_OPCODE_07__BINARY_FRAME
         else if p = LWS_WRITE_CONTINUATION then Some LWS_WS_OPCODE_07__CONTINUATION
         else if p = LWS_WRITE_CLOSE then Some LWS_WS_OPCODE_07__CLOSE
         else if p = LWS_WRITE_PING then Some LWS_WS_OPCODE_07__PING
         else if p = LWS_WRITE_PONG then Some LWS_WS_OPCODE_07__PONG
         else None)"

text \<open>The close reason goes in front of the payload and counts as payload.\<close>

definition add_close_reason :: "tx_wsi \<Rightarrow> tx_buf \<Rightarrow> tx_buf option" where
  "add_close_reason w b =
     (if tb_off b < 2 then None
      else poke (b\<lparr>tb_off := tb_off b - 2, tb_len := tb_len b + 2\<rparr>) (tb_off b - 2)
             [ucast (drop_bit 8 (close_reason w)), ucast (close_reason w)])"

text \<open>
  The header for revision 13: the buffer with the header in place, the position of the key (\<open>None\<close>
  where \<open>dropmask\<close> is NULL) and \<open>pre\<close>. The outer \<open>None\<close> is a write out of bounds, the inner one the
  unknown opcode.
\<close>

definition put_header ::
    "tx_wsi \<Rightarrow> tx_buf \<Rightarrow> byte \<Rightarrow> (tx_buf \<times> nat option \<times> nat) option option" where
  "put_header w b protocol =
     (let masked7 = (tx_mode w = LWS_CONNMODE_WS_CLIENT);
          dropmask = (if masked7 then Some (tb_off b - 4) else None);
          is_masked_bit = (if masked7 then 0x80 else 0);
          key = (if masked7 then 4 else 0)
      in if masked7 \<and> tb_off b < 4 then None
         else case write_opcode protocol of
           None \<Rightarrow> Some None
         | Some opc \<Rightarrow>
             (case (if protocol AND 0xf = LWS_WRITE_CLOSE \<and> close_reason w \<noteq> 0
                    then add_close_reason w b else Some b) of
                None \<Rightarrow> None
              | Some b1 \<Rightarrow>
                  let n = (if protocol AND LWS_WRITE_NO_FIN = 0 then opc OR 0x80 else opc);
                      h = frame_header n (tb_len b1) is_masked_bit;
                      pre = key + length h
                  in if tb_off b1 < pre then None
                     else map_option (\<lambda>b2. Some (b2, dropmask, pre)) (poke b1 (tb_off b1 - pre) h)))"

definition libwebsocket_0405_frame_mask_generate :: "tx_env \<Rightarrow> tx_wsi \<Rightarrow> bool \<times> tx_wsi" where
  "libwebsocket_0405_frame_mask_generate env w =
     (let r = get_random env (tx_clock w) 4;
          w1 = (tick w)\<lparr>tx_nonce := r @ drop (length r) (tx_nonce w)\<rparr>
      in if length r \<noteq> 4 then (True, w1) else (False, w1\<lparr>tx_mask_index := 0\<rparr>))"

text \<open>\<open>dropmask[n] ^= frame_masking_nonce_04[(frame_mask_index++) & 3]\<close> over a string.\<close>

fun mask_bytes :: "byte list \<Rightarrow> byte \<Rightarrow> byte list \<Rightarrow> byte list \<times> byte" where
  "mask_bytes key i [] = ([], i)"
| "mask_bytes key i (c # cs) =
     (case mask_bytes key (i + 1) cs of (ds, j) \<Rightarrow> ((c XOR key ! unat (i AND 3)) # ds, j))"

text \<open>Masking \<open>len\<close> bytes from \<open>dropmask + 4\<close> on in place, then the key at \<open>dropmask\<close>.\<close>

definition mask_in_place :: "tx_wsi \<Rightarrow> tx_buf \<Rightarrow> nat \<Rightarrow> (tx_wsi \<times> tx_buf) option" where
  "mask_in_place w b dropmask =
     (if length (tb_mem b) < dropmask + 4 + tb_len b then None
      else
        case mask_bytes (tx_nonce w) (tx_mask_index w) (take (tb_len b) (drop (dropmask + 4) (tb_mem b))) of
          (ds, i) \<Rightarrow>
            (case poke b (dropmask + 4) ds of
               None \<Rightarrow> None
             | Some b1 \<Rightarrow>
                 map_option (\<lambda>b2. (w\<lparr>tx_mask_index := i\<rparr>, b2)) (poke b1 dropmask (take 4 (tx_nonce w)))))"

text \<open>
  The label \<open>do_more_inside_frame\<close>. The boolean tells that the mask could not be made.
\<close>

definition do_more_inside_frame ::
    "tx_env \<Rightarrow> tx_wsi \<Rightarrow> tx_buf \<Rightarrow> nat option \<Rightarrow> (bool \<times> tx_wsi \<times> tx_buf) option" where
  "do_more_inside_frame env w b dropmask =
     (if tx_mode w \<noteq> LWS_CONNMODE_WS_CLIENT then Some (False, w, b)
      else
        case (if inside_frame w then (False, w) else libwebsocket_0405_frame_mask_generate env w) of
          (failed, w1) \<Rightarrow>
            if failed then Some (True, w1, b)
            else case dropmask of
                   None \<Rightarrow> Some (False, w1, b)
                 | Some d \<Rightarrow> map_option (\<lambda>(w2, b2). (False, w2, b2)) (mask_in_place w1 b d))"

text \<open>
  The label \<open>send_raw\<close>: \<open>pre\<close> bytes in front of the payload go too. The result is the return value,
  the connection and the buffer, whose memory may have been rewritten.
\<close>

type_synonym write_result = "(tx_stop + int \<times> tx_wsi \<times> tx_buf) option"

definition sends_directly :: "byte \<Rightarrow> bool" where
  "sends_directly protocol \<longleftrightarrow>
     protocol = LWS_WRITE_CLOSE \<or> protocol = LWS_WRITE_HTTP \<or> protocol = LWS_WRITE_HTTP_FINAL \<or>
     protocol = LWS_WRITE_HTTP_HEADERS \<or> protocol = LWS_WRITE_PONG \<or> protocol = LWS_WRITE_PING"

definition send_raw :: "tx_env \<Rightarrow> tx_wsi \<Rightarrow> tx_buf \<Rightarrow> nat \<Rightarrow> nat \<Rightarrow> byte \<Rightarrow> write_result" where
  "send_raw env w b pre orig_len protocol =
     (let whole = b\<lparr>tb_off := tb_off b - pre, tb_len := tb_len b + pre\<rparr>
      in if sends_directly protocol then
           Some (map_sum id (\<lambda>(n, w1). (n, w1, b)) (lws_issue_raw env w whole))
         else
           map_option (map_sum id (\<lambda>(n, w1).
               if n \<le> 0 then (n, w1, b)
               else if nat n = tb_len whole then (int orig_len, w1\<lparr>inside_frame := False\<rparr>, b)
               else (n - int pre, w1, b)))
             (lws_issue_raw_ext_access env (w\<lparr>inside_frame := True\<rparr>) whole))"

definition libwebsocket_write :: "tx_env \<Rightarrow> tx_wsi \<Rightarrow> tx_buf \<Rightarrow> byte \<Rightarrow> write_result" where
  "libwebsocket_write env w b protocol =
     (let control = (protocol = LWS_WRITE_CLOSE \<or> protocol = LWS_WRITE_PING \<or> protocol = LWS_WRITE_PONG);
          finish = (\<lambda>v buf dropmask pre.
            case do_more_inside_frame env v buf dropmask of
              None \<Rightarrow> Some (Inl Tx_overrun)
            | Some (failed, v1, buf1) \<Rightarrow>
                if failed then Some (Inr (-1, v1, buf1))
                else send_raw env v1 buf1 pre (tb_len b) protocol)
      in if tb_len b = 0 \<and> \<not> control then Some (Inr (0, w, b))
         else if protocol = LWS_WRITE_HTTP \<or> protocol = LWS_WRITE_HTTP_FINAL \<or>
                 protocol = LWS_WRITE_HTTP_HEADERS
           then send_raw env w b 0 (tb_len b) protocol
         else if tx_state w \<noteq> WSI_STATE_ESTABLISHED then Some (Inr (-1, w, b))
         else if inside_frame w then finish w b None 0
         else
           case (if control then (0, w, b)
                 else case tx_ext_callback env w LWS_EXT_CALLBACK_PAYLOAD_TX b of
                        (m, b1) \<Rightarrow> (m, tick w, b1)) of
             (m, w1, b1) \<Rightarrow>
               if m < 0 then Some (Inr (-1, w1\<lparr>clean_buffer := True\<rparr>, b1))
               else
                 let w2 = w1\<lparr>clean_buffer := same_ptr b b1\<rparr>
                 in if tx_spec_revision w2 = 13 then
                      (case put_header w2 b1 protocol of
                         None \<Rightarrow> Some (Inl Tx_overrun)
                       | Some None \<Rightarrow> Some (Inr (-1, w2, b1))
                       | Some (Some (b2, dropmask, pre)) \<Rightarrow> finish w2 b2 dropmask pre)
                    else finish w2 b1 None 0)"

section \<open>The stream of bytes\<close>

text \<open>
  What waits in the store, the invariant of the store, and what the environment is assumed to do:
  \<open>send\<close> takes no more than it is given.
\<close>

definition pending :: "tx_wsi \<Rightarrow> byte list" where
  "pending w = tb_bytes (truncated_buf w)"

definition stream :: "tx_wsi \<Rightarrow> byte list" where
  "stream w = wire w @ pending w"

definition tx_ok :: "tx_wsi \<Rightarrow> bool" where
  "tx_ok w \<longleftrightarrow>
     (case truncated_send_malloc w of
        None \<Rightarrow> truncated_send_len w = 0
      | Some m \<Rightarrow> length m = truncated_send_allocation w \<and>
          (truncated_send_len w \<noteq> 0 \<longrightarrow> truncated_send_offset w + truncated_send_len w \<le> length m) \<and>
          length m < 2 ^ 31) \<and>
     length (tx_nonce w) = 4"

definition send_ok :: "tx_env \<Rightarrow> bool" where
  "send_ok env \<longleftrightarrow> (\<forall>t bs n. send_sock env t bs = Sent n \<longrightarrow> n \<le> length bs)"

definition tb_ok :: "tx_buf \<Rightarrow> bool" where
  "tb_ok b \<longleftrightarrow> tb_off b + tb_len b \<le> length (tb_mem b) \<and> tb_len b < 2 ^ 31"

lemma length_tb_bytes: "tb_ok b \<Longrightarrow> length (tb_bytes b) = tb_len b"
  by (auto simp: tb_ok_def tb_bytes_def)

lemma tx_ext_callback_none: "tx_extensions env = [] \<Longrightarrow> tx_ext_callback env w r b = (0, b)"
  by (simp add: tx_ext_callback_def)

lemma tick_simps [simp]:
  "tx_mode (tick w) = tx_mode w" "tx_state (tick w) = tx_state w" "tx_nonce (tick w) = tx_nonce w"
  "tx_spec_revision (tick w) = tx_spec_revision w" "tx_mask_index (tick w) = tx_mask_index w"
  "close_reason (tick w) = close_reason w" "inside_frame (tick w) = inside_frame w"
  "clean_buffer (tick w) = clean_buffer w" "wire (tick w) = wire w"
  "truncated_send_malloc (tick w) = truncated_send_malloc w"
  "truncated_send_allocation (tick w) = truncated_send_allocation w"
  "truncated_send_offset (tick w) = truncated_send_offset w"
  "truncated_send_len (tick w) = truncated_send_len w" "tx_clock (tick w) = Suc (tx_clock w)"
  by (simp_all add: tick_def)

lemma on_writable_simps [simp]:
  "tx_mode (libwebsocket_callback_on_writable_tx w) = tx_mode w"
  "tx_state (libwebsocket_callback_on_writable_tx w) = tx_state w"
  "tx_nonce (libwebsocket_callback_on_writable_tx w) = tx_nonce w"
  "inside_frame (libwebsocket_callback_on_writable_tx w) = inside_frame w"
  "tx_clock (libwebsocket_callback_on_writable_tx w) = tx_clock w"
  "clean_buffer (libwebsocket_callback_on_writable_tx w) = clean_buffer w"
  "wire (libwebsocket_callback_on_writable_tx w) = wire w"
  "truncated_send_malloc (libwebsocket_callback_on_writable_tx w) = truncated_send_malloc w"
  "truncated_send_allocation (libwebsocket_callback_on_writable_tx w) = truncated_send_allocation w"
  "truncated_send_offset (libwebsocket_callback_on_writable_tx w) = truncated_send_offset w"
  "truncated_send_len (libwebsocket_callback_on_writable_tx w) = truncated_send_len w"
  by (simp_all add: libwebsocket_callback_on_writable_tx_def)

lemma pending_cong:
  "truncated_send_malloc v = truncated_send_malloc w \<Longrightarrow> truncated_send_offset v = truncated_send_offset w \<Longrightarrow>
   truncated_send_len v = truncated_send_len w \<Longrightarrow> pending v = pending w"
  by (simp add: pending_def truncated_buf_def)

lemma pending_empty: "truncated_send_len w = 0 \<Longrightarrow> pending w = []"
  by (simp add: pending_def truncated_buf_def tb_bytes_def)

lemma length_pending: "tx_ok w \<Longrightarrow> length (pending w) = truncated_send_len w"
  by (auto simp: pending_def truncated_buf_def tb_bytes_def tx_ok_def split: option.splits)

lemma truncated_buf_ok: "tx_ok w \<Longrightarrow> truncated_send_len w \<noteq> 0 \<Longrightarrow> tb_ok (truncated_buf w)"
  by (auto simp: truncated_buf_def tb_ok_def tx_ok_def split: option.splits)

text \<open>From the call number \<open>t0\<close> on, the socket takes the first \<open>n\<close> of these bytes at some time.\<close>

definition takes_part :: "tx_env \<Rightarrow> nat \<Rightarrow> byte list \<Rightarrow> nat \<Rightarrow> bool" where
  "takes_part env t0 bs n \<longleftrightarrow> (\<exists>t\<ge>t0. send_sock env t bs = Sent n)"

lemma takes_part_later: "takes_part env t bs n \<Longrightarrow> t0 \<le> t \<Longrightarrow> takes_part env t0 bs n"
  by (meson takes_part_def le_trans)

text \<open>
  From the call number \<open>t0\<close> on, the socket refuses these bytes for good at some time, or at some time
  there is no memory to store a part of them.
\<close>

definition gives_up :: "tx_env \<Rightarrow> nat \<Rightarrow> byte list \<Rightarrow> bool" where
  "gives_up env t0 bs \<longleftrightarrow>
     (\<exists>t\<ge>t0. send_sock env t bs = Send_failed E_other \<or> (\<exists>n\<le>length bs. n \<noteq> 0 \<and> \<not> malloc_ok env t n))"

lemma gives_up_later: "gives_up env t bs \<Longrightarrow> t0 \<le> t \<Longrightarrow> gives_up env t0 bs"
  by (meson gives_up_def le_trans)

text \<open>The socket takes a part of what it is given.\<close>

lemma capable_write_cases:
  assumes "send_ok env"
  obtains (taken) k where "lws_ssl_capable_write_no_ssl env w bs = (int k, (tick w)\<lparr>wire := wire w @ take k bs\<rparr>)"
      "k \<le> length bs" "send_sock env (tx_clock w) bs = Sent k"
  | (later) "lws_ssl_capable_write_no_ssl env w bs = (-2, tick w)"
  | (failed) "lws_ssl_capable_write_no_ssl env w bs = (-1, tick w)" "send_sock env (tx_clock w) bs = Send_failed E_other"
proof (cases "send_sock env (tx_clock w) bs")
  case (Sent k)
  then have "k \<le> length bs" using assms by (simp add: send_ok_def)
  with Sent show ?thesis by (intro taken [of k]) (simp_all add: lws_ssl_capable_write_no_ssl_def)
next
  case (Send_failed e)
  show ?thesis
  proof (cases "e = E_other")
    case True
    with Send_failed show ?thesis by (intro failed) (simp_all add: lws_ssl_capable_write_no_ssl_def)
  next
    case False
    then have "e = EAGAIN \<or> e = EWOULDBLOCK \<or> e = EINTR" by (cases e) simp_all
    with Send_failed show ?thesis by (intro later) (simp add: lws_ssl_capable_write_no_ssl_def)
  qed
qed

text \<open>New data: the first \<open>n\<close> bytes are on the wire already.\<close>

lemma handle_new:
  assumes "tx_ok w" "truncated_send_len w = 0" "tb_ok b" "n \<le> tb_len b"
  obtains (all) "n = tb_len b" "handle_truncated_send env w b (tb_len b) n = Inr (int n, w)"
  | (part) "n \<noteq> tb_len b" "n \<noteq> 0" "clean_buffer w"
      "handle_truncated_send env w b (tb_len b) n = Inr (int n, w)"
  | (stored) v where "handle_truncated_send env w b (tb_len b) n = Inr (int (tb_len b), v)"
      "n \<noteq> tb_len b" "\<not> (n \<noteq> 0 \<and> clean_buffer w)" "tx_ok v" "pending v = drop n (tb_bytes b)"
      "wire v = wire w" "tx_state v = tx_state w" "inside_frame v = inside_frame w"
      "clean_buffer v = clean_buffer w" "writable_asked v = writable_asked w + 1"
  | (no_memory) v where "handle_truncated_send env w b (tb_len b) n = Inr (-1, v)" "tx_ok v"
      "wire v = wire w" "pending v = []" "n < tb_len b" "\<not> malloc_ok env (tx_clock w) (tb_len b - n)"
proof -
  let ?need = "tb_len b - n"
  let ?alloc = "truncated_send_malloc w = None \<or> truncated_send_allocation w < ?need"
  let ?w1 = "if ?alloc then (tick w)\<lparr>truncated_send_allocation := ?need,
      truncated_send_malloc := (if malloc_ok env (tx_clock w) ?need then Some (replicate ?need 0) else None)\<rparr>
    else w"
  consider (a) "n = tb_len b" | (b) "n \<noteq> tb_len b" "n \<noteq> 0" "clean_buffer w"
    | (c) "n \<noteq> tb_len b" "\<not> (n \<noteq> 0 \<and> clean_buffer w)" by blast
  then show ?thesis
  proof cases
    case a then show ?thesis using assms by (intro all) (simp_all add: handle_truncated_send_def)
  next
    case b then show ?thesis using assms by (intro part) (simp_all add: handle_truncated_send_def)
  next
    case c
    have bok: "tb_off b + tb_len b \<le> length (tb_mem b)" "tb_len b < 2 ^ 31"
      using assms(3) by (simp_all add: tb_ok_def)
    have w1: "tx_ok (?w1\<lparr>truncated_send_len := 0\<rparr>)"
      using assms(1,2) bok by (auto simp: tx_ok_def tick_def)
    show ?thesis
    proof (cases "truncated_send_malloc ?w1")
      case None
      then have "handle_truncated_send env w b (tb_len b) n = Inr (-1, ?w1)"
        using c assms(2) bok by (simp add: handle_truncated_send_def Let_def)
      moreover have "truncated_send_len ?w1 = 0" using assms(2) by simp
      moreover have "n < tb_len b" "\<not> malloc_ok env (tx_clock w) ?need" using None c(1) assms(4) by (auto split: if_splits)
      ultimately show ?thesis using w1 by (intro no_memory [of ?w1]) (auto simp: pending_empty tx_ok_def)
    next
      case (Some m)
      let ?v = "libwebsocket_callback_on_writable_tx (?w1\<lparr>truncated_send_offset := 0,
        truncated_send_len := ?need, truncated_send_malloc :=
          Some (take ?need (drop (tb_off b + n) (tb_mem b)) @ drop ?need m)\<rparr>)"
      have m: "?need \<le> length m" "length m = truncated_send_allocation ?w1" "length m < 2 ^ 31"
        using Some assms(1) bok by (auto simp: tx_ok_def split: if_splits)
      have "handle_truncated_send env w b (tb_len b) n = Inr (int (tb_len b), ?v)"
        using c assms(2) bok Some by (simp add: handle_truncated_send_def Let_def)
      moreover have "tx_ok ?v" using m bok assms(1,4) by (auto simp: tx_ok_def)
      moreover have "pending ?v = drop n (tb_bytes b)"
        using bok assms(4) by (simp add: pending_def truncated_buf_def tb_bytes_def drop_take add.commute)
      ultimately show ?thesis using c
        by (intro stored [of ?v]) (auto simp: libwebsocket_callback_on_writable_tx_def tick_def)
    qed
  qed
qed

text \<open>
  A connection at rest: nothing stored, and not waiting for the store to drain before the close. No
  extension is active.
\<close>

definition tx_idle :: "tx_env \<Rightarrow> tx_wsi \<Rightarrow> bool" where
  "tx_idle env w \<longleftrightarrow> tx_ok w \<and> truncated_send_len w = 0 \<and> tx_extensions env = [] \<and> send_ok env \<and>
     tx_state w \<noteq> WSI_STATE_FLUSHING_STORED_SEND_BEFORE_CLOSE"

lemma tx_ok_wire: "tx_ok (w\<lparr>wire := x\<rparr>) \<longleftrightarrow> tx_ok w" "tx_ok (tick w) \<longleftrightarrow> tx_ok w"
    "tx_ok (w\<lparr>socket_is_permanently_unusable := u\<rparr>) \<longleftrightarrow> tx_ok w"
    "tx_ok (w\<lparr>inside_frame := i\<rparr>) \<longleftrightarrow> tx_ok w" "tx_ok (w\<lparr>clean_buffer := i\<rparr>) \<longleftrightarrow> tx_ok w"
    "tx_ok (w\<lparr>tx_mask_index := j\<rparr>) \<longleftrightarrow> tx_ok w"
    "tx_ok (libwebsocket_callback_on_writable_tx w) \<longleftrightarrow> tx_ok w"
  by (auto simp: tx_ok_def split: option.splits)

lemma pending_wire [simp]: "pending (w\<lparr>wire := x\<rparr>) = pending w" "pending (tick w) = pending w"
    "pending (w\<lparr>socket_is_permanently_unusable := u\<rparr>) = pending w"
    "pending (w\<lparr>inside_frame := i\<rparr>) = pending w" "pending (w\<lparr>clean_buffer := i\<rparr>) = pending w"
    "pending (w\<lparr>tx_mask_index := j\<rparr>) = pending w"
    "pending (libwebsocket_callback_on_writable_tx w) = pending w"
  by (rule pending_cong; simp)+

text \<open>
  A send of new data: what the return value claims is what the stream gained, nothing of it is
  left over unless the buffer belongs to the caller, and a failure stores nothing.
\<close>

lemma issue_raw_new:
  assumes idle: "tx_idle env w" and b: "tb_ok b" "tb_len b \<noteq> 0"
  obtains (took) c v where "lws_issue_raw env w b = Inr (int c, v)" "tx_ok v" "c \<le> tb_len b"
      "stream v = stream w @ take c (tb_bytes b)"
      "truncated_send_len v \<noteq> 0 \<longrightarrow> c = tb_len b" "c \<noteq> tb_len b \<longrightarrow> clean_buffer w \<and> c \<noteq> 0"
      "tx_state v = tx_state w" "inside_frame v = inside_frame w" "clean_buffer v = clean_buffer w"
      "c \<noteq> tb_len b \<longrightarrow> takes_part env (tx_clock w) (tb_bytes b) c"
  | (failed) k v where "lws_issue_raw env w b = Inr (-1, v)" "tx_ok v" "k \<le> tb_len b" "pending v = []"
      "wire v = wire w @ take k (tb_bytes b)" "gives_up env (tx_clock w) (tb_bytes b)"
proof -
  let ?bs = "tb_bytes b"
  have w: "tx_ok w" "truncated_send_len w = 0" "tx_extensions env = []" "send_ok env"
    "tx_state w \<noteq> WSI_STATE_FLUSHING_STORED_SEND_BEFORE_CLOSE" "pending w = []"
    using idle by (simp_all add: tx_idle_def pending_empty)
  have len: "length ?bs = tb_len b" by (rule length_tb_bytes [OF b(1)])
  have mem: "\<not> length (tb_mem b) < tb_off b + tb_len b" using b(1) by (simp add: tb_ok_def)
  have raw: "lws_issue_raw env w b =
      (case lws_ssl_capable_write_no_ssl env (tick w) ?bs of (n, w1) \<Rightarrow>
         if n = -1 then Inr (-1, w1\<lparr>socket_is_permanently_unusable := True\<rparr>)
         else handle_truncated_send env w1 b (tb_len b) (if n = -2 then 0 else nat n))"
    using w b(2) mem by (simp add: lws_issue_raw_def Let_def tx_ext_callback_none tb_bytes_def)
  have *: thesis if n: "k \<le> tb_len b"
    and r: "lws_issue_raw env w b = handle_truncated_send env w1 b (tb_len b) k"
    and w1: "w1 = (tick (tick w))\<lparr>wire := wire w @ take k ?bs\<rparr>"
    and tk: "k \<noteq> 0 \<longrightarrow> takes_part env (tx_clock w) ?bs k" for k w1
  proof -
    have ok: "tx_ok w1" "truncated_send_len w1 = 0" using w w1 by (simp_all add: tx_ok_wire)
    show thesis
    proof (cases rule: handle_new [OF ok b(1) n, of env, case_names all part stored no_memory])
      case all
      then show thesis using r w1 w by (intro took [of k w1]) (simp_all add: tx_ok_wire stream_def)
    next
      case part
      then show thesis using r w1 w n tk by (intro took [of k w1]) (simp_all add: tx_ok_wire stream_def)
    next
      case (stored v)
      have "stream v = stream w @ take (tb_len b) ?bs"
        using stored w w1 len by (simp add: stream_def)
      then show thesis using stored r w1 by (intro took [of "tb_len b" v]) simp_all
    next
      case (no_memory v)
      then have "gives_up env (tx_clock w) ?bs"
        unfolding gives_up_def using w1 len by (intro exI [of _ "tx_clock w1"]) (auto simp: tick_def intro!: exI [of _ "tb_len b - k"])
      then show thesis using no_memory r w1 n by (intro failed [of v k]) simp_all
    qed
  qed
  show thesis
  proof (cases rule: capable_write_cases [OF w(4), of "tick w" ?bs, case_names taken later failed])
    case (taken k)
    then have "takes_part env (tx_clock w) ?bs k"
      unfolding takes_part_def by (intro exI [of _ "tx_clock (tick w)"]) (simp add: tick_def)
    then show thesis using taken raw len by (intro * [of k "(tick (tick w))\<lparr>wire := wire w @ take k ?bs\<rparr>"]) simp_all
  next
    case later
    then show thesis using raw by (intro * [of 0 "tick (tick w)"]) simp_all
  next
    case failed
    then have "gives_up env (tx_clock w) ?bs"
      unfolding gives_up_def by (intro exI [of _ "tx_clock (tick w)"]) (simp add: tick_def)
    then show thesis using failed raw w
      by (intro that(2) [of "(tick (tick w))\<lparr>socket_is_permanently_unusable := True\<rparr>" 0])
         (simp_all add: tx_ok_wire)
  qed
qed

text \<open>Progress on the store: \<open>k\<close> of its bytes are on the wire already.\<close>

lemma handle_stored:
  assumes "tx_ok w" "truncated_send_len w \<noteq> 0" "k \<le> truncated_send_len w"
  obtains c v where "handle_truncated_send env w b (truncated_send_len w) k = Inr (c, v)" "tx_ok v"
    "pending v = drop k (pending w)" "wire v = wire w" "tx_state v = tx_state w"
    "truncated_send_len v = truncated_send_len w - k" "tx_clock v = tx_clock w"
    "c < 0 \<longleftrightarrow> truncated_send_len v = 0 \<and> tx_state w = WSI_STATE_FLUSHING_STORED_SEND_BEFORE_CLOSE"
proof -
  let ?L = "truncated_send_len w" and ?o = "truncated_send_offset w"
  obtain m where m: "truncated_send_malloc w = Some m" "length m = truncated_send_allocation w"
    "?o + ?L \<le> length m" "length m < 2 ^ 31" "length (tx_nonce w) = 4"
    using assms(1,2) by (auto simp: tx_ok_def split: option.splits)
  have "(?L + 2 ^ 32 - k) mod 2 ^ 32 = (?L - k) mod (2 ^ 32 :: nat)"
    using assms(3) by (metis Nat.diff_add_assoc2 mod_add_self2)
  also have "\<dots> = ?L - k" using m by simp
  finally have l: "(?L + 2 ^ 32 - k) mod 2 ^ 32 = ?L - k" .
  have o: "(?o + k) mod 2 ^ 32 = ?o + k" using m assms(3) by simp
  define w1 where "w1 = w\<lparr>truncated_send_offset := ?o + k, truncated_send_len := ?L - k\<rparr>"
  have ok: "tx_ok w1" using m assms(3) by (auto simp: w1_def tx_ok_def)
  have p: "pending w1 = drop k (pending w)"
    using m by (simp add: w1_def pending_def truncated_buf_def tb_bytes_def drop_take add.commute)
  show thesis
  proof (cases "?L - k = 0 \<and> tx_state w = WSI_STATE_FLUSHING_STORED_SEND_BEFORE_CLOSE")
    case True
    then have "handle_truncated_send env w b ?L k = Inr (-1, w1)"
      using assms(2) o l by (simp add: handle_truncated_send_def Let_def w1_def)
    then show thesis using ok p True by (intro that [of "-1" w1]) (auto simp: w1_def)
  next
    case False
    then have "handle_truncated_send env w b ?L k =
        Inr (if ?L - k = 0 then int ?L else int k, libwebsocket_callback_on_writable_tx w1)"
      using assms(2) o l by (auto simp add: handle_truncated_send_def Let_def w1_def)
    moreover have "tx_ok (libwebsocket_callback_on_writable_tx w1)"
      "pending (libwebsocket_callback_on_writable_tx w1) = drop k (pending w)"
      "wire (libwebsocket_callback_on_writable_tx w1) = wire w"
      "tx_state (libwebsocket_callback_on_writable_tx w1) = tx_state w"
      "truncated_send_len (libwebsocket_callback_on_writable_tx w1) = ?L - k"
      "tx_clock (libwebsocket_callback_on_writable_tx w1) = tx_clock w"
      using ok p by (simp_all add: tx_ok_wire) (simp_all add: w1_def)
    moreover have "(if ?L - k = 0 then int ?L else int k) \<ge> 0" by simp
    ultimately show thesis using False
      by (intro that [of "if ?L - k = 0 then int ?L else int k" "libwebsocket_callback_on_writable_tx w1"]) simp_all
  qed
qed

text \<open>A flush moves the stored bytes to the wire, in order.\<close>

lemma flush_moves:
  assumes "tx_ok w" "truncated_send_len w \<noteq> 0" "tx_extensions env = []" "send_ok env"
  obtains c v k where "flush_truncated env w = Inr (c, v)" "tx_ok v" "k \<le> truncated_send_len w"
    "pending v = drop k (pending w)" "wire v = wire w @ take k (pending w)" "tx_state v = tx_state w"
    "truncated_send_len v = truncated_send_len w - k" "tx_clock v = tx_clock w + 2"
    "\<And>n. send_sock env (tx_clock w + 1) (pending w) = Sent n \<Longrightarrow> k = n"
    "c < 0 \<longrightarrow> send_sock env (tx_clock w + 1) (pending w) = Send_failed E_other \<or>
       k = truncated_send_len w \<and> tx_state w = WSI_STATE_FLUSHING_STORED_SEND_BEFORE_CLOSE"
proof -
  let ?b = "truncated_buf w"
  have b: "tb_ok ?b" "tb_len ?b = truncated_send_len w" "tb_bytes ?b = pending w"
    using truncated_buf_ok [OF assms(1,2)] by (simp_all add: truncated_buf_def pending_def)
  have mem: "\<not> length (tb_mem ?b) < tb_off ?b + tb_len ?b" using b(1) by (simp add: tb_ok_def)
  have in_t: "in_truncated w ?b" by (simp add: in_truncated_def truncated_buf_def)
  have raw: "flush_truncated env w =
      (case lws_ssl_capable_write_no_ssl env (tick w) (tb_bytes ?b) of (n, w1) \<Rightarrow>
         if n = -1 then Inr (-1, w1\<lparr>socket_is_permanently_unusable := True\<rparr>)
         else handle_truncated_send env w1 ?b (truncated_send_len w) (if n = -2 then 0 else nat n))"
    using assms mem in_t b(2)
    by (simp add: flush_truncated_def lws_issue_raw_def Let_def tx_ext_callback_none tb_bytes_def)
  note out = that
  have *: thesis if k: "k \<le> truncated_send_len w"
    and r: "flush_truncated env w = handle_truncated_send env w1 ?b (truncated_send_len w) k"
    and w1: "w1 = (tick (tick w))\<lparr>wire := wire w @ take k (pending w)\<rparr>"
    and s: "\<And>n. send_sock env (tx_clock w + 1) (pending w) = Sent n \<Longrightarrow> k = n" for k w1
  proof -
    have ok: "tx_ok w1" "truncated_send_len w1 = truncated_send_len w" "pending w1 = pending w"
      "tx_state w1 = tx_state w" "tx_clock w1 = tx_clock w + 2" "wire w1 = wire w @ take k (pending w)"
      using w1 assms(1) by (simp_all add: tx_ok_wire)
    obtain c v where "flush_truncated env w = Inr (c, v)" "tx_ok v"
      "pending v = drop k (pending w)" "wire v = wire w @ take k (pending w)" "tx_state v = tx_state w"
      "truncated_send_len v = truncated_send_len w - k" "tx_clock v = tx_clock w + 2"
      "c < 0 \<longleftrightarrow> truncated_send_len v = 0 \<and> tx_state w = WSI_STATE_FLUSHING_STORED_SEND_BEFORE_CLOSE"
      using handle_stored [of w1 k env ?b] ok assms(2) k r by metis
    then show thesis using k s by (intro out [of c v k]) auto
  qed
  show thesis
  proof (cases "send_sock env (tx_clock w + 1) (pending w)")
    case (Sent n)
    then have "n \<le> length (pending w)" using assms(4) unfolding send_ok_def by blast
    then have n: "n \<le> truncated_send_len w" by (simp only: length_pending [OF assms(1)])
    have "flush_truncated env w = handle_truncated_send env
        ((tick (tick w))\<lparr>wire := wire w @ take n (pending w)\<rparr>) ?b (truncated_send_len w) n"
      using raw Sent b(2,3) by (simp add: lws_ssl_capable_write_no_ssl_def)
    then show thesis using Sent by (intro * [OF n _ refl]) simp_all
  next
    case (Send_failed e)
    show thesis
    proof (cases "e = E_other")
      case True
      then have "flush_truncated env w = Inr (-1, (tick (tick w))\<lparr>socket_is_permanently_unusable := True\<rparr>)"
        using raw Send_failed b(2,3) by (simp add: lws_ssl_capable_write_no_ssl_def)
      then show thesis using assms(1) Send_failed True
        by (intro that [of "-1" "(tick (tick w))\<lparr>socket_is_permanently_unusable := True\<rparr>" 0])
           (simp_all add: tx_ok_wire)
    next
      case False
      then have "e = EAGAIN \<or> e = EWOULDBLOCK \<or> e = EINTR" by (cases e) simp_all
      then have "flush_truncated env w = handle_truncated_send env (tick (tick w)) ?b (truncated_send_len w) 0"
        using raw Send_failed b(2,3) by (simp add: lws_ssl_capable_write_no_ssl_def)
      then show thesis using Send_failed by (intro * [of 0 "tick (tick w)"]) simp_all
    qed
  qed
qed

lemma flush_ex:
  assumes "tx_ok w" "truncated_send_len w \<noteq> 0" "tx_extensions env = []" "send_ok env"
  shows "\<exists>c v k. flush_truncated env w = Inr (c, v) \<and> tx_ok v \<and> k \<le> truncated_send_len w \<and>
    pending v = drop k (pending w) \<and> wire v = wire w @ take k (pending w) \<and> tx_state v = tx_state w \<and>
    truncated_send_len v = truncated_send_len w - k \<and> tx_clock v = tx_clock w + 2 \<and>
    (\<forall>n. send_sock env (tx_clock w + 1) (pending w) = Sent n \<longrightarrow> k = n)"
proof (rule flush_moves [OF assms])
qed blast

section \<open>Sequences of sends and flushes\<close>

text \<open>
  A run of the sending side: new data is only given to the socket while nothing is stored (what the
  assertion demands), stored data is flushed. The list collects what the return values claimed.
\<close>

inductive tx_run :: "tx_env \<Rightarrow> tx_wsi \<Rightarrow> byte list \<Rightarrow> tx_wsi \<Rightarrow> bool" for env w where
  tx_start: "tx_run env w [] w"
| tx_send: "tx_run env w (acc @ take c (tb_bytes b)) u"
    if "tx_run env w acc v" "truncated_send_len v = 0" "tb_ok b" "lws_issue_raw env v b = Inr (int c, u)"
| tx_flush: "tx_run env w acc u"
    if "tx_run env w acc v" "truncated_send_len v \<noteq> 0" "flush_truncated env v = Inr (int c, u)"

lemma tx_run_stream:
  assumes "tx_run env w acc v" "tx_idle env w"
  shows "tx_ok v \<and> tx_state v = tx_state w \<and> stream v = wire w @ acc"
  using assms
proof (induction rule: tx_run.induct)
  case tx_start
  then show ?case by (simp add: tx_idle_def stream_def pending_empty)
next
  case (tx_send acc v b c u)
  then have v: "tx_ok v" "tx_state v = tx_state w" "stream v = wire w @ acc" by auto
  then have idle: "tx_idle env v" using tx_send by (simp add: tx_idle_def)
  show ?case
  proof (cases "tb_len b = 0")
    case True
    then have "u = v" "tb_bytes b = []" using tx_send.hyps by (auto simp: lws_issue_raw_def tb_bytes_def)
    then show ?thesis using v by simp
  next
    case False
    obtain c' u' where "lws_issue_raw env v b = Inr (int c', u')" "tx_ok u'"
      "stream u' = stream v @ take c' (tb_bytes b)" "tx_state u' = tx_state v"
      by (rule issue_raw_new [OF idle tx_send.hyps(3) False]) (use tx_send.hyps(4) in auto)
    then show ?thesis using tx_send.hyps(4) v by auto
  qed
next
  case (tx_flush acc v c u)
  then have v: "tx_ok v" "tx_state v = tx_state w" "stream v = wire w @ acc" by auto
  obtain c' v' k where "flush_truncated env v = Inr (c', v')" "tx_ok v'" "pending v' = drop k (pending v)"
    "wire v' = wire v @ take k (pending v)" "tx_state v' = tx_state v"
    using flush_ex [OF v(1) tx_flush.hyps(2), of env] tx_flush.prems unfolding tx_idle_def by blast
  then show ?case using tx_flush.hyps(3) v by (simp add: stream_def)
qed

text \<open>Flushing at every writable event, at most \<open>n\<close> times.\<close>

fun drain :: "nat \<Rightarrow> tx_env \<Rightarrow> tx_wsi \<Rightarrow> tx_wsi" where
  "drain 0 env w = w"
| "drain (Suc n) env w =
     (if truncated_send_len w = 0 then w
      else case flush_truncated env w of Inl e \<Rightarrow> w | Inr (c, v) \<Rightarrow> drain n env v)"

text \<open>
  A socket that makes progress: it never fails for good, and of \<open>k\<close> attempts with the same data one
  takes a byte.
\<close>

definition progress :: "nat \<Rightarrow> tx_env \<Rightarrow> bool" where
  "progress k env \<longleftrightarrow>
     (\<forall>t bs. send_sock env t bs \<noteq> Send_failed E_other) \<and>
     (\<forall>t bs. bs \<noteq> [] \<longrightarrow> (\<exists>j<k. \<exists>n. 0 < n \<and> send_sock env (t + 2 * j) bs = Sent n))"

lemma drain_add: "drain (m + n) env w = drain n env (drain m env w)"
proof (induction m arbitrary: w)
  case (Suc m)
  have z: "drain n env w = w" if "truncated_send_len w = 0 \<or> flush_truncated env w = Inl e" for e
    using that by (cases n) auto
  show ?case using z Suc by (cases "flush_truncated env w") auto
qed simp

lemma drain_step:
  assumes "tx_ok w" "tx_extensions env = []" "send_ok env" "truncated_send_len w \<noteq> 0"
    "send_sock env (tx_clock w + 1 + 2 * j) (pending w) = Sent n" "0 < n"
  shows "\<exists>v. drain (Suc j) env w = v \<and> tx_ok v \<and> stream v = stream w \<and> truncated_send_len v < truncated_send_len w"
  using assms
proof (induction j arbitrary: w)
  case 0
  obtain c v k where "flush_truncated env w = Inr (c, v)" "tx_ok v" "pending v = drop k (pending w)"
    "wire v = wire w @ take k (pending w)" "truncated_send_len v = truncated_send_len w - k" "k = n"
    using flush_ex [OF 0(1,4,2,3)] 0(5) by fastforce
  then show ?case using 0 by (simp add: stream_def)
next
  case (Suc j)
  obtain c v k where v: "flush_truncated env w = Inr (c, v)" "tx_ok v" "pending v = drop k (pending w)"
    "wire v = wire w @ take k (pending w)" "truncated_send_len v = truncated_send_len w - k"
    "tx_clock v = tx_clock w + 2" "k \<le> truncated_send_len w"
    using flush_ex [OF Suc.prems(1,4,2,3)] by blast
  have sv: "stream v = stream w" using v by (simp add: stream_def)
  show ?case
  proof (cases "k = 0")
    case True
    then have "truncated_send_len v \<noteq> 0" "send_sock env (tx_clock v + 1 + 2 * j) (pending v) = Sent n"
      using v Suc.prems by simp_all
    from Suc.IH [OF v(2) Suc.prems(2,3) this Suc.prems(6)] show ?thesis
      using v sv Suc.prems(4) True by simp
  next
    case False
    then have less: "truncated_send_len v < truncated_send_len w" using v(5) Suc.prems(4) by simp
    have "tx_ok (drain m env v) \<and> stream (drain m env v) = stream v \<and>
        truncated_send_len (drain m env v) \<le> truncated_send_len v" for m
      using v(2)
    proof (induction m arbitrary: v)
      case (Suc m)
      show ?case
      proof (cases "truncated_send_len v = 0")
        case False
        obtain c u k where u: "flush_truncated env v = Inr (c, u)" "tx_ok u" "pending u = drop k (pending v)"
          "wire u = wire v @ take k (pending v)" "truncated_send_len u = truncated_send_len v - k"
          using flush_ex [OF Suc.prems False assms(2,3)] by blast
        then have "stream u = stream v" by (simp add: stream_def)
        then show ?thesis using Suc.IH [OF u(2)] u(1,5) False by auto
      qed (use Suc.prems in simp)
    qed simp
    from this [of "Suc j"] show ?thesis using v(1) sv less Suc.prems(4) by auto
  qed
qed

lemma drain_all:
  assumes "tx_ok w" "tx_extensions env = []" "send_ok env" "progress k env"
  shows "\<exists>m \<le> k * truncated_send_len w. truncated_send_len (drain m env w) = 0 \<and>
    tx_ok (drain m env w) \<and> stream (drain m env w) = stream w"
  using assms(1)
proof (induction "truncated_send_len w" arbitrary: w rule: less_induct)
  case less
  show ?case
  proof (cases "truncated_send_len w = 0")
    case True
    then show ?thesis using less.prems by (intro exI [of _ 0]) simp
  next
    case False
    then have "pending w \<noteq> []" using length_pending [OF less.prems] by auto
    then obtain j n where j: "j < k" "0 < n" "send_sock env (tx_clock w + 1 + 2 * j) (pending w) = Sent n"
      using assms(4) unfolding progress_def by blast
    define v where "v = drain (Suc j) env w"
    have v: "tx_ok v" "stream v = stream w" "truncated_send_len v < truncated_send_len w"
      using drain_step [OF less.prems assms(2,3) False j(3,2)] unfolding v_def by blast+
    obtain m where m: "m \<le> k * truncated_send_len v" "truncated_send_len (drain m env v) = 0"
      "tx_ok (drain m env v)" "stream (drain m env v) = stream v"
      using less.hyps [OF v(3,1)] by auto
    have "Suc j + m \<le> k * Suc (truncated_send_len v)" using j(1) m(1) by simp
    also have "\<dots> \<le> k * truncated_send_len w" using v(3) by (simp only: mult_le_mono2 Suc_leI)
    finally have "Suc j + m \<le> k * truncated_send_len w" .
    moreover have "drain (Suc j + m) env w = drain m env v" unfolding v_def by (rule drain_add)
    ultimately show ?thesis using m v(2) by metis
  qed
qed

section \<open>The frame on the wire\<close>

lemma byte_of_u64: "k \<le> 56 \<Longrightarrow> ucast (drop_bit k (word_of_nat n :: u64)) = (word_of_nat (n div 2 ^ k) :: byte)"
  by (rule bit_word_eqI) (auto simp: bit_simps drop_bit_eq_div [symmetric] add.commute)

lemma be64_div: "be64 (word_of_nat n) =
   [word_of_nat (n div 2 ^ 56), word_of_nat (n div 2 ^ 48), word_of_nat (n div 2 ^ 40),
    word_of_nat (n div 2 ^ 32), word_of_nat (n div 2 ^ 24), word_of_nat (n div 2 ^ 16),
    word_of_nat (n div 2 ^ 8), word_of_nat n]"
  using byte_of_u64 [of 56 n] byte_of_u64 [of 48 n] byte_of_u64 [of 40 n] byte_of_u64 [of 32 n]
    byte_of_u64 [of 24 n] byte_of_u64 [of 16 n] byte_of_u64 [of 8 n] byte_of_u64 [of 0 n]
  by (simp add: be64_def upt_rec)

lemma top_byte_clear:
  assumes "n < 2 ^ 63"
  shows "(word_of_nat (n div 2 ^ 56) :: byte) AND 0x7f = word_of_nat (n div 2 ^ 56)"
proof -
  have "n div 2 ^ 56 < 128" using assms by (simp add: less_mult_imp_div_less)
  then have "take_bit 7 (n div 2 ^ 56) = n div 2 ^ 56" by (simp add: take_bit_nat_eq_self)
  then have "take_bit 7 (word_of_nat (n div 2 ^ 56) :: byte) = word_of_nat (n div 2 ^ 56)"
    by (metis take_bit_of_nat)
  moreover have "(0x7f :: byte) = mask 7" by (simp add: mask_eq_exp_minus_1)
  ultimately show ?thesis by (simp only: take_bit_eq_mask)
qed

lemma frame_header_eq:
  "len < 2 ^ 63 \<Longrightarrow> frame_header n len (mask_bit m) = n # len_bytes (shortest len) m len"
  using top_byte_clear [of len]
  by (auto simp: frame_header_def len_bytes_def shortest_def be64_div)

lemma length_frame_header: "length (frame_header n len mb) \<le> 10"
  by (simp add: frame_header_def)

lemma mask_bytes_eq: "fst (mask_bytes key i cs) = mask_from key (unat i) cs"
proof (induction cs arbitrary: i)
  case (Cons c cs)
  have "mask_from key (unat (i + 1)) cs = mask_from key (unat i + 1) cs"
    by (rule server.mask_from_mod [OF server.mask_index_step(2)])
  then show ?case using Cons [of "i + 1"]
    by (auto simp: server.mask_index_step(1) split: prod.split)
qed simp

text \<open>
  What the caller of \<open>libwebsocket_write\<close> must provide: room for the header in front of the payload
  and for the post-padding behind it; and a random device that works.
\<close>

definition padded :: "tx_buf \<Rightarrow> bool" where
  "padded b \<longleftrightarrow> LWS_SEND_BUFFER_PRE_PADDING \<le> tb_off b \<and>
     tb_off b + tb_len b + LWS_SEND_BUFFER_POST_PADDING \<le> length (tb_mem b) \<and> length (tb_mem b) < 2 ^ 31"

definition random_ok :: "tx_env \<Rightarrow> bool" where
  "random_ok env \<longleftrightarrow> (\<forall>t n. length (get_random env t n) = n)"

lemma poke_mem:
  assumes "pos + length xs \<le> length (tb_mem b)"
  shows "poke b pos xs = Some (b\<lparr>tb_mem := take pos (tb_mem b) @ xs @ drop (pos + length xs) (tb_mem b)\<rparr>)"
  using assms by (simp add: poke_def)

definition header_of :: "tx_wsi \<Rightarrow> byte \<Rightarrow> byte \<Rightarrow> nat \<Rightarrow> byte list" where
  "header_of w protocol opc len =
     first_of (protocol AND LWS_WRITE_NO_FIN = 0) 0 opc #
       len_bytes (shortest len) (tx_mode w = LWS_CONNMODE_WS_CLIENT) len"

lemma write_opcode_low: "write_opcode protocol = Some opc \<Longrightarrow> opc AND 0xf = opc"
  by (auto simp: write_opcode_def Let_def split: if_splits)

lemma put_header_eq:
  assumes b: "padded b" and opc: "write_opcode protocol = Some opc"
    and reason: "protocol AND 0xf = LWS_WRITE_CLOSE \<longrightarrow> close_reason w = 0"
    and client: "cl \<longleftrightarrow> tx_mode w = LWS_CONNMODE_WS_CLIENT"
    and h: "h = header_of w protocol opc (tb_len b)"
    and pre: "pre = (if cl then 4 else 0) + length h"
  shows "put_header w b protocol =
      Some (Some (b\<lparr>tb_mem := take (tb_off b - pre) (tb_mem b) @ h @
                     drop (tb_off b - (if cl then 4 else 0)) (tb_mem b)\<rparr>,
                  if cl then Some (tb_off b - 4) else None, pre))"
    "pre \<le> 14"
proof -
  have len: "tb_len b < 2 ^ 63" using b by (simp add: padded_def)
  have n: "(if protocol AND LWS_WRITE_NO_FIN = 0 then opc OR 0x80 else opc) =
      first_of (protocol AND LWS_WRITE_NO_FIN = 0) 0 opc"
    using write_opcode_low [OF opc] by (simp add: first_of_def or.commute)
  have h': "frame_header (if protocol AND LWS_WRITE_NO_FIN = 0 then opc OR 0x80 else opc) (tb_len b)
      (if cl then 0x80 else 0) = h"
    unfolding h n header_of_def using frame_header_eq [OF len, of _ cl] client
    by (simp add: mask_bit_def)
  have "length h \<le> 10" unfolding h' [symmetric] by (rule length_frame_header)
  then show pre14: "pre \<le> 14" using pre by simp
  have "\<not> (protocol AND 0xf = LWS_WRITE_CLOSE \<and> close_reason w \<noteq> 0)" using reason by simp
  moreover have "tb_off b - pre + length h = tb_off b - (if cl then 4 else 0)" "pre \<le> tb_off b"
    "4 \<le> tb_off b" "tb_off b - pre + length h \<le> length (tb_mem b)"
    using b pre pre14 by (auto simp: padded_def)
  ultimately show "put_header w b protocol =
      Some (Some (b\<lparr>tb_mem := take (tb_off b - pre) (tb_mem b) @ h @
                     drop (tb_off b - (if cl then 4 else 0)) (tb_mem b)\<rparr>,
                  if cl then Some (tb_off b - 4) else None, pre))"
    using opc h' client pre
    by (cases cl; cases "protocol AND LWS_WRITE_NO_FIN = 0")
       (auto simp: put_header_def Let_def poke_mem not_less)
qed

lemma mask_in_place_eq:
  assumes "tx_mask_index w = 0" "length (tx_nonce w) = 4" "d + 4 = tb_off b"
    "tb_off b + tb_len b \<le> length (tb_mem b)"
  shows "\<exists>i. mask_in_place w b d = Some (w\<lparr>tx_mask_index := i\<rparr>,
    b\<lparr>tb_mem := take d (tb_mem b) @ tx_nonce w @ mask_from (tx_nonce w) 0 (tb_bytes b) @
                drop (tb_off b + tb_len b) (tb_mem b)\<rparr>)"
proof -
  obtain ds i where m: "mask_bytes (tx_nonce w) 0 (tb_bytes b) = (ds, i)" by force
  have ds: "ds = mask_from (tx_nonce w) 0 (tb_bytes b)"
    using mask_bytes_eq [of "tx_nonce w" 0 "tb_bytes b"] m by simp
  have len: "length ds = tb_len b" using assms(4) by (auto simp: ds tb_bytes_def)
  let ?m1 = "take (d + 4) (tb_mem b) @ ds @ drop (d + 4 + tb_len b) (tb_mem b)"
  have p1: "poke b (d + 4) ds = Some (b\<lparr>tb_mem := ?m1\<rparr>)"
    using assms(3,4) len by (simp add: poke_mem)
  have "d + 4 \<le> length ?m1" using assms(3,4) by simp
  then have p2: "poke (b\<lparr>tb_mem := ?m1\<rparr>) d (tx_nonce w) =
      Some (b\<lparr>tb_mem := take d ?m1 @ tx_nonce w @ drop (d + 4) ?m1\<rparr>)"
    using assms(2) by (subst poke_mem) simp_all
  have t: "take d ?m1 = take d (tb_mem b)" "drop (d + 4) ?m1 = ds @ drop (tb_off b + tb_len b) (tb_mem b)"
    using assms(3,4) by (simp_all add: min_def)
  have "mask_in_place w b d = Some (w\<lparr>tx_mask_index := i\<rparr>,
      b\<lparr>tb_mem := take d ?m1 @ tx_nonce w @ drop (d + 4) ?m1\<rparr>)"
    using assms p1 p2 m by (simp add: mask_in_place_def tb_bytes_def)
  then have "mask_in_place w b d = Some (w\<lparr>tx_mask_index := i\<rparr>,
      b\<lparr>tb_mem := take d (tb_mem b) @ tx_nonce w @ ds @ drop (tb_off b + tb_len b) (tb_mem b)\<rparr>)"
    by (simp only: t)
  then show ?thesis unfolding ds by blast
qed


text \<open>
  Up to the raw send, \<open>libwebsocket_write\<close> has laid out one frame, in front of and over the payload.
\<close>

definition laid_out :: "tx_env \<Rightarrow> tx_wsi \<Rightarrow> tx_buf \<Rightarrow> byte \<Rightarrow> byte \<Rightarrow> byte list option \<Rightarrow> tx_wsi \<Rightarrow> tx_buf \<Rightarrow> nat \<Rightarrow> bool"
  where
  "laid_out env w b protocol opc key w1 b1 pre \<longleftrightarrow>
     pre \<le> 14 \<and> tb_off b1 = tb_off b \<and> tb_len b1 = tb_len b \<and> length (tb_mem b1) = length (tb_mem b) \<and>
     tb_bytes (b1\<lparr>tb_off := tb_off b1 - pre, tb_len := tb_len b1 + pre\<rparr>) =
       frame (protocol AND LWS_WRITE_NO_FIN = 0) 0 opc (shortest (tb_len b)) key (tb_bytes b) \<and>
     length (frame (protocol AND LWS_WRITE_NO_FIN = 0) 0 opc (shortest (tb_len b)) key (tb_bytes b)) =
       tb_len b + pre \<and>
     key_ok key \<and> (key = None \<longleftrightarrow> tx_mode w \<noteq> LWS_CONNMODE_WS_CLIENT) \<and>
     tx_idle env w1 \<and> wire w1 = wire w \<and> clean_buffer w1 \<and> inside_frame w1 = inside_frame w \<and>
     tx_state w1 = tx_state w \<and> tx_mode w1 = tx_mode w \<and> tx_clock w \<le> tx_clock w1"

lemma frame_is:
  assumes "h = header_of w protocol opc (length p)" "(key \<noteq> None) = (tx_mode w = LWS_CONNMODE_WS_CLIENT)"
  shows "frame (protocol AND LWS_WRITE_NO_FIN = 0) 0 opc (shortest (length p)) key p =
    h @ (case key of None \<Rightarrow> p | Some k \<Rightarrow> k @ mask_from k 0 p)"
  using assms by (simp add: frame_def header_of_def)

lemma write_frame:
  assumes idle: "tx_idle env w" and st: "tx_state w = WSI_STATE_ESTABLISHED" "tx_spec_revision w = 13"
      "\<not> inside_frame w"
    and b: "padded b" and opc: "write_opcode protocol = Some opc"
    and reason: "protocol AND 0xf = LWS_WRITE_CLOSE \<longrightarrow> close_reason w = 0"
    and rnd: "random_ok env"
    and len: "tb_len b \<noteq> 0 \<or> protocol = LWS_WRITE_CLOSE \<or> protocol = LWS_WRITE_PING \<or> protocol = LWS_WRITE_PONG"
  shows "\<exists>w1 b1 key pre. libwebsocket_write env w b protocol = send_raw env w1 b1 pre (tb_len b) protocol \<and>
    laid_out env w b protocol opc key w1 b1 pre"
proof -
  let ?control = "protocol = LWS_WRITE_CLOSE \<or> protocol = LWS_WRITE_PING \<or> protocol = LWS_WRITE_PONG"
  let ?cl = "tx_mode w = LWS_CONNMODE_WS_CLIENT"
  define w2 where "w2 = (if ?control then w else tick w)\<lparr>clean_buffer := True\<rparr>"
  have w2: "tx_idle env w2" "wire w2 = wire w" "clean_buffer w2" "\<not> inside_frame w2" "tx_mode w2 = tx_mode w"
    "tx_state w2 = tx_state w" "tx_spec_revision w2 = 13" "close_reason w2 = close_reason w"
    "length (tx_nonce w2) = 4" "tx_clock w \<le> tx_clock w2"
    using idle st by (auto simp: w2_def tx_idle_def tx_ok_wire) (simp_all add: tx_ok_def tick_def)
  have http: "protocol \<noteq> LWS_WRITE_HTTP" "protocol \<noteq> LWS_WRITE_HTTP_FINAL" "protocol \<noteq> LWS_WRITE_HTTP_HEADERS"
    using opc by (auto simp: write_opcode_def)
  define h where "h = header_of w2 protocol opc (tb_len b)"
  define pre where "pre = (if ?cl then 4 else 0) + length h"
  define mem where "mem = take (tb_off b - pre) (tb_mem b) @ h @ drop (tb_off b - (if ?cl then 4 else 0)) (tb_mem b)"
  let ?b2 = "b\<lparr>tb_mem := mem\<rparr>"
  have ph: "put_header w2 b protocol = Some (Some (?b2, if ?cl then Some (tb_off b - 4) else None, pre))"
    and pre14: "pre \<le> 14"
    using put_header_eq [OF b opc, of w2 ?cl h pre] reason w2
    by (simp_all add: h_def pre_def mem_def)
  have wr: "libwebsocket_write env w b protocol =
      (case do_more_inside_frame env w2 ?b2 (if ?cl then Some (tb_off b - 4) else None) of
         None \<Rightarrow> Some (Inl Tx_overrun)
       | Some (failed, v1, buf1) \<Rightarrow> if failed then Some (Inr (-1, v1, buf1))
           else send_raw env v1 buf1 pre (tb_len b) protocol)"
    using idle st len http ph w2(7)
    by (auto simp: libwebsocket_write_def Let_def tx_ext_callback_none tx_idle_def same_ptr_def w2_def
        split: if_splits)
  have off: "pre \<le> tb_off b" "4 \<le> tb_off b" "tb_off b + tb_len b \<le> length (tb_mem b)" "length h \<le> pre"
    using b pre14 by (auto simp: padded_def pre_def)
  have lenb: "length (tb_bytes b) = tb_len b" using off(3) by (auto simp: tb_bytes_def)
  have lm: "length mem = length (tb_mem b)" using off by (auto simp: mem_def pre_def)
  have fr: "frame (protocol AND LWS_WRITE_NO_FIN = 0) 0 opc (shortest (tb_len b)) key (tb_bytes b) =
      h @ (case key of None \<Rightarrow> tb_bytes b | Some k \<Rightarrow> k @ mask_from k 0 (tb_bytes b))"
    if "(key \<noteq> None) = ?cl" for key
    using frame_is [of h w2 protocol opc "tb_bytes b" key] that lenb w2(5) by (simp add: h_def)
  show ?thesis
  proof (cases ?cl)
    case False
    then have r: "libwebsocket_write env w b protocol = send_raw env w2 ?b2 pre (tb_len b) protocol"
      using wr w2(5) by (simp add: do_more_inside_frame_def)
    have "tb_bytes (?b2\<lparr>tb_off := tb_off b - pre, tb_len := tb_len b + pre\<rparr>) = h @ tb_bytes b"
      using False off by (simp add: tb_bytes_def mem_def pre_def)
    then have "laid_out env w b protocol opc None w2 ?b2 pre"
      using w2 lm pre14 fr [of None] False lenb st(3)
      by (simp add: laid_out_def key_ok_def) (simp add: pre_def)
    then show ?thesis using r by blast
  next
    case True
    define key where "key = get_random env (tx_clock w2) 4"
    define w3 where "w3 = (tick w2)\<lparr>tx_nonce := key, tx_mask_index := 0\<rparr>"
    have key: "length key = 4" using rnd by (simp add: key_def random_ok_def)
    have gen: "libwebsocket_0405_frame_mask_generate env w2 = (False, w3)"
      using key w2(9)
      by (simp add: libwebsocket_0405_frame_mask_generate_def Let_def key_def [symmetric] w3_def)
    have w3: "tx_nonce w3 = key" "tx_mask_index w3 = 0" by (simp_all add: w3_def)
    have bytes2: "tb_bytes ?b2 = tb_bytes b"
      using True off by (simp add: tb_bytes_def mem_def pre_def)
    obtain i where mip: "mask_in_place w3 ?b2 (tb_off b - 4) = Some (w3\<lparr>tx_mask_index := i\<rparr>,
        ?b2\<lparr>tb_mem := take (tb_off b - 4) mem @ key @ mask_from key 0 (tb_bytes b) @
             drop (tb_off b + tb_len b) mem\<rparr>)"
      using mask_in_place_eq [of w3 "tb_off b - 4" ?b2] w3 key off lm bytes2 by auto
    let ?b3 = "?b2\<lparr>tb_mem := take (tb_off b - 4) mem @ key @ mask_from key 0 (tb_bytes b) @
             drop (tb_off b + tb_len b) mem\<rparr>" and ?w4 = "w3\<lparr>tx_mask_index := i\<rparr>"
    have r: "libwebsocket_write env w b protocol = send_raw env ?w4 ?b3 pre (tb_len b) protocol"
      using wr w2(4,5) True gen mip by (simp add: do_more_inside_frame_def)
    have t: "take (tb_off b - 4) mem = take (tb_off b - pre) (tb_mem b) @ h"
      using True off by (simp add: mem_def pre_def)
    have "tb_bytes (?b3\<lparr>tb_off := tb_off b - pre, tb_len := tb_len b + pre\<rparr>) =
        h @ key @ mask_from key 0 (tb_bytes b)"
      using True off lenb key unfolding tb_bytes_def [of "_\<lparr>tb_off := _, tb_len := _\<rparr>"]
      by (simp add: t pre_def)
    moreover have "tx_idle env ?w4"
      using w2(1) key by (simp add: tx_idle_def w3_def tx_ok_wire) (simp add: tx_ok_def split: option.splits)
    moreover have "length (tb_mem ?b3) = length (tb_mem b)" using lm off key lenb by simp
    ultimately have "laid_out env w b protocol opc (Some key) ?w4 ?b3 pre"
      using w2 pre14 fr [of "Some key"] True lenb st(3) key
      by (simp add: laid_out_def key_ok_def) (simp add: pre_def w3_def tick_def)
    then show ?thesis using r by blast
  qed
qed


section \<open>What the caller sees\<close>

lemma ext_access_none:
  assumes "tx_extensions env = []"
  shows "lws_issue_raw_ext_access env w b =
    Some (case (if tb_len b \<noteq> 0 then lws_issue_raw env (tick w) b else Inr (0, tick w)) of
            Inl e \<Rightarrow> Inl e
          | Inr (n, w2) \<Rightarrow>
              Inr (if n < 0 then -1 else if tb_len b \<noteq> 0 \<and> clean_buffer w2 then n else int (tb_len b), w2))"
  using assms
  by (simp add: lws_issue_raw_ext_access_def ext_access_loop.simps tx_ext_callback_none same_ptr_def Let_def
      split: sum.split prod.split)

lemma tx_idle_upd: "tx_idle env (tick w) \<longleftrightarrow> tx_idle env w"
    "tx_idle env (w\<lparr>inside_frame := i\<rparr>) \<longleftrightarrow> tx_idle env w"
  by (simp_all add: tx_idle_def tx_ok_wire)

text \<open>A frame, or the rest of one, given to the socket by a data write of the caller's own buffer.\<close>

lemma send_data:
  assumes "tx_idle env w" "clean_buffer w" "\<not> sends_directly protocol"
    and wb: "wb = b\<lparr>tb_off := tb_off b - pre, tb_len := tb_len b + pre\<rparr>" "tb_ok wb" "tb_len wb \<noteq> 0"
  obtains (whole) v where "send_raw env w b pre orig protocol = Some (Inr (int orig, v, b))"
      "stream v = stream w @ tb_bytes wb" "\<not> inside_frame v" "tx_ok v"
  | (part) n v where "send_raw env w b pre orig protocol = Some (Inr (int n - int pre, v, b))"
      "stream v = stream w @ take n (tb_bytes wb)" "0 < n" "n < tb_len wb"
      "inside_frame v" "tx_idle env v" "clean_buffer v" "tx_state v = tx_state w"
      "takes_part env (tx_clock w) (tb_bytes wb) n"
  | (failed) v where "send_raw env w b pre orig protocol = Some (Inr (-1, v, b))" "gives_up env (tx_clock w) (tb_bytes wb)"
proof -
  have idle: "tx_idle env (tick (w\<lparr>inside_frame := True\<rparr>))" using assms(1) by (simp add: tx_idle_upd)
  have ext: "tx_extensions env = []" using assms(1) by (simp add: tx_idle_def)
  have s: "stream (tick (w\<lparr>inside_frame := True\<rparr>)) = stream w" by (simp add: stream_def)
  note raw = send_raw_def ext_access_none [OF ext] Let_def wb(1) [symmetric]
  show thesis
  proof (cases rule: issue_raw_new [OF idle wb(2,3), case_names took failed])
    case (took c v)
    show thesis
    proof (cases "c = tb_len wb")
      case True
      then have "send_raw env w b pre orig protocol = Some (Inr (int orig, v\<lparr>inside_frame := False\<rparr>, b))"
        using took assms(2,3) wb(3) by (simp add: raw)
      then show thesis using took(2,4) s True length_tb_bytes [OF wb(2)]
        by (intro whole [of "v\<lparr>inside_frame := False\<rparr>"]) (simp_all add: tx_ok_wire stream_def)
    next
      case False
      then have "send_raw env w b pre orig protocol = Some (Inr (int c - int pre, v, b))"
        using took assms(2,3) wb(3) by (simp add: raw)
      moreover have "tx_idle env v" using took assms(1) False by (auto simp: tx_idle_def)
      moreover have "takes_part env (tx_clock w) (tb_bytes wb) c"
        by (rule takes_part_later [OF mp [OF took(10) False]]) (simp add: tick_def)
      ultimately show thesis using took s False assms(2) by (intro part [of c v]) auto
    qed
  next
    case (failed k v)
    then have "send_raw env w b pre orig protocol = Some (Inr (-1, v, b))"
      using assms(2,3) wb(3) by (simp add: raw)
    moreover have "gives_up env (tx_clock w) (tb_bytes wb)"
      by (rule gives_up_later [OF failed(6)]) (simp add: tick_def)
    ultimately show thesis by (rule that(3))
  qed
qed

lemma laid_out_whole:
  assumes "laid_out env w b protocol opc key w1 b1 pre" "padded b"
    "wb = b1\<lparr>tb_off := tb_off b1 - pre, tb_len := tb_len b1 + pre\<rparr>"
  shows "tb_ok wb" "tb_len wb \<noteq> 0"
    "tb_bytes wb = frame (protocol AND LWS_WRITE_NO_FIN = 0) 0 opc (shortest (tb_len b)) key (tb_bytes b)"
    "tb_len wb = tb_len b + pre"
proof -
  have "tb_len wb = length (frame (protocol AND LWS_WRITE_NO_FIN = 0) 0 opc (shortest (tb_len b)) key (tb_bytes b))"
    using assms(1,3) by (simp add: laid_out_def)
  then show "tb_len wb \<noteq> 0" by (simp add: frame_def)
qed (use assms in \<open>auto simp: laid_out_def tb_ok_def padded_def\<close>)

lemma write_resumes:
  assumes "tx_idle env w" "inside_frame w" "clean_buffer w" "tx_state w = WSI_STATE_ESTABLISHED"
    "\<not> sends_directly protocol" "tb_ok b" "tb_len b \<noteq> 0"
  shows "libwebsocket_write env w b protocol = send_raw env w b 0 (tb_len b) protocol"
proof -
  have "protocol \<noteq> LWS_WRITE_HTTP" "protocol \<noteq> LWS_WRITE_HTTP_FINAL" "protocol \<noteq> LWS_WRITE_HTTP_HEADERS"
    using assms(5) by (auto simp: sends_directly_def)
  then show ?thesis using assms by (simp add: libwebsocket_write_def do_more_inside_frame_def Let_def)
qed

text \<open>No write leaves the caller's memory.\<close>

lemma put_header_bounds:
  assumes "padded b" "put_header w b protocol = r"
  shows "\<exists>x. r = Some x \<and> (\<forall>b2 d pre. x = Some (b2, d, pre) \<longrightarrow>
    pre \<le> tb_off b2 \<and> tb_off b2 + tb_len b2 \<le> length (tb_mem b2) \<and> length (tb_mem b2) < 2 ^ 31 \<and> pre \<noteq> 0 \<and>
    tb_id b2 = tb_id b \<and> (\<forall>k. d = Some k \<longrightarrow> k + 4 + tb_len b2 \<le> length (tb_mem b2)))"
proof -
  have b: "18 \<le> tb_off b" "tb_off b + tb_len b + 4 \<le> length (tb_mem b)" "length (tb_mem b) < 2 ^ 31"
    using assms(1) by (simp_all add: padded_def)
  define cl where "cl = (tx_mode w = LWS_CONNMODE_WS_CLIENT)"
  show ?thesis
  proof (cases "write_opcode protocol")
    case None
    then show ?thesis using assms(2) b by (auto simp: put_header_def Let_def)
  next
    case (Some opc)
    define rs where "rs = (protocol AND 0xf = LWS_WRITE_CLOSE \<and> close_reason w \<noteq> 0)"
    obtain b1 where b1: "(if rs then add_close_reason w b else Some b) = Some b1"
      "tb_off b - 2 \<le> tb_off b1" "tb_off b1 + tb_len b1 = tb_off b + tb_len b"
      "length (tb_mem b1) = length (tb_mem b)" "tb_len b1 \<le> tb_len b + 2" "tb_off b1 \<le> tb_off b" "tb_id b1 = tb_id b"
    proof (cases rs)
      case True
      define c where "c = [ucast (drop_bit 8 (close_reason w)), ucast (close_reason w) :: byte]"
      let ?b1 = "b\<lparr>tb_off := tb_off b - 2, tb_len := tb_len b + 2,
        tb_mem := take (tb_off b - 2) (tb_mem b) @ c @ drop (tb_off b) (tb_mem b)\<rparr>"
      have o: "tb_off b - 2 + length c = tb_off b" using b by (simp add: c_def)
      have "add_close_reason w b = poke (b\<lparr>tb_off := tb_off b - 2, tb_len := tb_len b + 2\<rparr>) (tb_off b - 2) c"
        using b by (simp add: add_close_reason_def c_def)
      also have "\<dots> = Some ?b1"
        using poke_mem [of "tb_off b - 2" c "b\<lparr>tb_off := tb_off b - 2, tb_len := tb_len b + 2\<rparr>"] b
        unfolding o by simp
      finally have "add_close_reason w b = Some ?b1" .
      then show thesis using True b by (intro that [of ?b1]) (auto simp: c_def)
    next
      case False
      then show thesis by (intro that [of b]) auto
    qed
    define h where "h = frame_header (if protocol AND LWS_WRITE_NO_FIN = 0 then opc OR 0x80 else opc)
      (tb_len b1) (if cl then 0x80 else 0)"
    have h: "length h \<le> 10" "h \<noteq> []"
      unfolding h_def by (rule length_frame_header) (simp add: frame_header_def)
    let ?pre = "(if cl then 4 else 0) + length h"
    have pre: "?pre \<le> tb_off b1" "tb_off b1 - ?pre + length h \<le> length (tb_mem b1)"
      using h b1(2,3,4) b by auto
    have "put_header w b protocol =
        map_option (\<lambda>b2. Some (b2, if cl then Some (tb_off b - 4) else None, ?pre)) (poke b1 (tb_off b1 - ?pre) h)"
      using Some b1(1) pre(1) b(1) unfolding put_header_def Let_def cl_def [symmetric] rs_def [symmetric]
      by (simp add: h_def [symmetric])
    then have "put_header w b protocol = Some (Some (b1\<lparr>tb_mem := take (tb_off b1 - ?pre) (tb_mem b1) @ h @
        drop (tb_off b1 - ?pre + length h) (tb_mem b1)\<rparr>, if cl then Some (tb_off b - 4) else None, ?pre))"
      using pre(2) by (simp only: poke_mem option.map)
    then show ?thesis using assms(2) b b1 pre h by auto
  qed
qed


text \<open>
  A connection without active extensions, in whatever state its store is. A write on it ends; while
  bytes are stored it may end in the failed assertion.
\<close>

definition tx_plain :: "tx_env \<Rightarrow> tx_wsi \<Rightarrow> bool" where
  "tx_plain env w \<longleftrightarrow> tx_ok w \<and> tx_extensions env = [] \<and> send_ok env"

definition ends :: "bool \<Rightarrow> write_result \<Rightarrow> bool" where
  "ends waiting r \<longleftrightarrow> (\<exists>c v b. r = Some (Inr (c, v, b))) \<or> waiting \<and> r = Some (Inl Tx_abort)"

lemma issue_raw_ends:
  assumes "tx_plain env w" "tb_ok b" "tb_id b \<noteq> 1"
  shows "(\<exists>c v. lws_issue_raw env w b = Inr (c, v)) \<or> truncated_send_len w \<noteq> 0 \<and> lws_issue_raw env w b = Inl Tx_abort"
proof -
  consider (nothing) "tb_len b = 0" | (stored) "tb_len b \<noteq> 0" "truncated_send_len w \<noteq> 0"
    | (flushed) "tb_len b \<noteq> 0" "truncated_send_len w = 0" "tx_state w = WSI_STATE_FLUSHING_STORED_SEND_BEFORE_CLOSE"
    | (idle) "tb_len b \<noteq> 0" "tx_idle env w"
    using assms(1) by (auto simp: tx_plain_def tx_idle_def)
  then show ?thesis
  proof cases
    case stored
    then have "lws_issue_raw env w b = Inl Tx_abort" using assms(3) by (simp add: lws_issue_raw_def in_truncated_def)
    then show ?thesis using stored by blast
  next
    case idle
    show ?thesis by (rule issue_raw_new [OF idle(2) assms(2) idle(1)]) blast+
  qed (simp_all add: lws_issue_raw_def)
qed

lemma send_raw_ends:
  assumes "tx_plain env w" "tb_off b + tb_len b \<le> length (tb_mem b)" "length (tb_mem b) < 2 ^ 31" "pre \<le> tb_off b" "tb_id b \<noteq> 1"
  shows "ends (truncated_send_len w \<noteq> 0) (send_raw env w b pre orig protocol)"
proof -
  let ?wb = "b\<lparr>tb_off := tb_off b - pre, tb_len := tb_len b + pre\<rparr>"
  have ok: "tb_ok ?wb" "tb_id ?wb \<noteq> 1" using assms(2-5) by (simp_all add: tb_ok_def)
  have ext: "tx_extensions env = []" using assms(1) by (simp add: tx_plain_def)
  have u: "tx_plain env (tick (w\<lparr>inside_frame := True\<rparr>))" using assms(1) by (simp add: tx_plain_def tx_ok_wire)
  show ?thesis
  proof (cases "sends_directly protocol")
    case True
    then show ?thesis using issue_raw_ends [OF assms(1) ok] by (auto simp: ends_def send_raw_def)
  next
    case False
    define r where "r = (if tb_len ?wb \<noteq> 0 then lws_issue_raw env (tick (w\<lparr>inside_frame := True\<rparr>)) ?wb
      else Inr (0, tick (w\<lparr>inside_frame := True\<rparr>)))"
    have r: "(\<exists>c v. r = Inr (c, v)) \<or> truncated_send_len w \<noteq> 0 \<and> r = Inl Tx_abort"
      using issue_raw_ends [OF u ok] by (simp add: r_def)
    have "send_raw env w b pre orig protocol = Some (map_sum id (\<lambda>(n, w1).
        if n \<le> 0 then (n, w1, b) else if nat n = tb_len ?wb then (int orig, w1\<lparr>inside_frame := False\<rparr>, b) else (n - int pre, w1, b))
      (case r of Inl e \<Rightarrow> Inl e
       | Inr (n, w2) \<Rightarrow> Inr (if n < 0 then -1 else if tb_len ?wb \<noteq> 0 \<and> clean_buffer w2 then n else int (tb_len ?wb), w2)))"
      using False by (simp only: send_raw_def ext_access_none [OF ext] Let_def r_def if_False option.map)
    with r show ?thesis by (elim disjE exE conjE) (simp_all add: ends_def)
  qed
qed

lemma do_more_total:
  assumes "tx_plain env w" "\<And>t n. length (get_random env t n) \<le> n"
    "\<And>k. d = Some k \<Longrightarrow> k + 4 + tb_len b \<le> length (tb_mem b)"
  shows "\<exists>f v b1. do_more_inside_frame env w b d = Some (f, v, b1) \<and> tx_plain env v \<and>
    truncated_send_len v = truncated_send_len w \<and> tb_id b1 = tb_id b \<and>
    tb_off b1 = tb_off b \<and> tb_len b1 = tb_len b \<and> length (tb_mem b1) = length (tb_mem b)"
proof (cases "tx_mode w = LWS_CONNMODE_WS_CLIENT")
  case False
  then show ?thesis using assms(1) by (auto simp: do_more_inside_frame_def)
next
  case True
  define r where "r = get_random env (tx_clock w) 4"
  have r: "length r \<le> 4" using assms(2) by (simp add: r_def)
  obtain f v where g: "(if inside_frame w then (False, w) else libwebsocket_0405_frame_mask_generate env w) = (f, v)"
    by force
  have t: "tx_ok v" "truncated_send_len v = truncated_send_len w"
    using g assms(1) r
    by (auto simp: libwebsocket_0405_frame_mask_generate_def Let_def r_def [symmetric] tx_plain_def tx_ok_def
        split: if_splits option.splits)
  then have v: "tx_plain env v" "length (tx_nonce v) = 4" using assms(1) by (simp_all add: tx_plain_def tx_ok_def)
  show ?thesis
  proof (cases "f \<or> d = None")
    case True
    then show ?thesis using g v t \<open>tx_mode w = LWS_CONNMODE_WS_CLIENT\<close> by (auto simp: do_more_inside_frame_def)
  next
    case False
    then obtain k where k: "d = Some k" "k + 4 + tb_len b \<le> length (tb_mem b)" "\<not> f" using assms(3) by auto
    obtain ds i where m: "mask_bytes (tx_nonce v) (tx_mask_index v) (take (tb_len b) (drop (k + 4) (tb_mem b))) = (ds, i)"
      by force
    have "length ds = tb_len b"
      using mask_bytes_eq [of "tx_nonce v" "tx_mask_index v" "take (tb_len b) (drop (k + 4) (tb_mem b))"] m k(2)
      by simp
    then have "\<exists>b1. mask_in_place v b k = Some (v\<lparr>tx_mask_index := i\<rparr>, b1) \<and> tb_id b1 = tb_id b \<and> tb_off b1 = tb_off b \<and>
        tb_len b1 = tb_len b \<and> length (tb_mem b1) = length (tb_mem b)"
      using k(2) m v(2) by (simp add: mask_in_place_def poke_def)
    moreover have "tx_plain env (v\<lparr>tx_mask_index := i\<rparr>)" using v(1) by (simp add: tx_plain_def tx_ok_wire)
    ultimately show ?thesis using g t k(1,3) \<open>tx_mode w = LWS_CONNMODE_WS_CLIENT\<close>
      by (auto simp: do_more_inside_frame_def)
  qed
qed

lemma write_ends:
  assumes plain: "tx_plain env w" and b: "padded b" "tb_id b \<noteq> 1" and rnd: "\<And>t n. length (get_random env t n) \<le> n"
  shows "ends (truncated_send_len w \<noteq> 0) (libwebsocket_write env w b protocol)"
proof -
  let ?good = "ends (truncated_send_len w \<noteq> 0)"
  have bb: "tb_off b + tb_len b \<le> length (tb_mem b)" "length (tb_mem b) < 2 ^ 31" using b by (simp_all add: padded_def)
  have ext: "tx_extensions env = []" using plain by (simp add: tx_plain_def)
  define finish where "finish = (\<lambda>v buf dropmask pre.
      case do_more_inside_frame env v buf dropmask of
        None \<Rightarrow> Some (Inl Tx_overrun)
      | Some (failed, v1, buf1) \<Rightarrow>
          if failed then Some (Inr (-1, v1, buf1)) else send_raw env v1 buf1 pre (tb_len b) protocol)"
  have fin: "?good (finish v buf d pre)"
    if "tx_plain env v" "truncated_send_len v = truncated_send_len w" "tb_id buf \<noteq> 1"
      "tb_off buf + tb_len buf \<le> length (tb_mem buf)" "length (tb_mem buf) < 2 ^ 31" "pre \<le> tb_off buf"
      "\<And>k. d = Some k \<Longrightarrow> k + 4 + tb_len buf \<le> length (tb_mem buf)" for v buf d pre
  proof -
    note prems = that
    obtain f u b1 where "do_more_inside_frame env v buf d = Some (f, u, b1)" "tx_plain env u"
      "truncated_send_len u = truncated_send_len w" "tb_id b1 \<noteq> 1"
      "tb_off b1 = tb_off buf" "tb_len b1 = tb_len buf" "length (tb_mem b1) = length (tb_mem buf)"
      using do_more_total [OF prems(1) rnd, of d buf] prems(2,3,7) by fastforce
    then show ?thesis using send_raw_ends [of env u b1 pre "tb_len b" protocol] prems(4-6)
      by (auto simp: finish_def ends_def)
  qed
  let ?control = "protocol = LWS_WRITE_CLOSE \<or> protocol = LWS_WRITE_PING \<or> protocol = LWS_WRITE_PONG"
  define w2 where "w2 = (if ?control then w else tick w)\<lparr>clean_buffer := True\<rparr>"
  have w2: "tx_plain env w2" "truncated_send_len w2 = truncated_send_len w"
    using plain by (auto simp: w2_def tx_plain_def tx_ok_wire)
  have write_eq: "libwebsocket_write env w b protocol =
      (if tb_len b = 0 \<and> \<not> ?control then Some (Inr (0, w, b))
       else if protocol = LWS_WRITE_HTTP \<or> protocol = LWS_WRITE_HTTP_FINAL \<or> protocol = LWS_WRITE_HTTP_HEADERS
         then send_raw env w b 0 (tb_len b) protocol
       else if tx_state w \<noteq> WSI_STATE_ESTABLISHED then Some (Inr (-1, w, b))
       else if inside_frame w then finish w b None 0
       else if tx_spec_revision w = 13 then
         (case put_header w2 b protocol of
            None \<Rightarrow> Some (Inl Tx_overrun)
          | Some None \<Rightarrow> Some (Inr (-1, w2, b))
          | Some (Some (b2, dropmask, pre)) \<Rightarrow> finish w2 b2 dropmask pre)
       else finish w2 b None 0)"
    by (auto simp: libwebsocket_write_def Let_def tx_ext_callback_none [OF ext] same_ptr_def finish_def w2_def
        split: option.split)
  obtain x where x: "put_header w2 b protocol = Some x" "\<And>b2 d pre. x = Some (b2, d, pre) \<Longrightarrow>
    pre \<le> tb_off b2 \<and> tb_off b2 + tb_len b2 \<le> length (tb_mem b2) \<and> length (tb_mem b2) < 2 ^ 31 \<and> pre \<noteq> 0 \<and>
    tb_id b2 = tb_id b \<and> (\<forall>k. d = Some k \<longrightarrow> k + 4 + tb_len b2 \<le> length (tb_mem b2))"
    using put_header_bounds [OF b(1) refl, of w2 protocol] by blast
  have "?good (Some (Inr (c, v, b1)))" for c v b1 by (simp add: ends_def)
  moreover have "?good (case put_header w2 b protocol of
            None \<Rightarrow> Some (Inl Tx_overrun)
          | Some None \<Rightarrow> Some (Inr (-1, w2, b))
          | Some (Some (b2, dropmask, pre)) \<Rightarrow> finish w2 b2 dropmask pre)"
  proof (cases x)
    case None
    then show ?thesis using x(1) calculation by simp
  next
    case (Some y)
    then obtain b2 d pre where y: "x = Some (b2, d, pre)" by (cases y) auto
    then have "?good (finish w2 b2 d pre)" using x(2) [OF y] b(2) by (intro fin [OF w2]) auto
    then show ?thesis using x(1) y by simp
  qed
  moreover have "?good (send_raw env w b 0 (tb_len b) protocol)" "?good (finish w b None 0)" "?good (finish w2 b None 0)"
    using send_raw_ends [OF plain bb _ b(2), of 0 "tb_len b" protocol] fin [OF plain refl b(2) bb, of 0 None]
      fin [OF w2 b(2) bb, of 0 None] by simp_all
  ultimately show ?thesis unfolding write_eq by (simp only: split: if_split) simp
qed


text \<open>A data write, by what the socket takes.\<close>

lemma write_one_frame:
  assumes "tx_idle env w" "tx_state w = WSI_STATE_ESTABLISHED" "tx_spec_revision w = 13" "\<not> inside_frame w"
    "padded b" "tb_len b \<noteq> 0" "random_ok env" "write_opcode protocol = Some opc" "data_opcode opc"
  shows "\<exists>c v b1 key f.
     libwebsocket_write env w b protocol = Some (Inr (c, v, b1)) \<and>
     f = frame (protocol AND LWS_WRITE_NO_FIN = 0) 0 opc (shortest (tb_len b)) key (tb_bytes b) \<and>
     key_ok key \<and> (key = None \<longleftrightarrow> tx_mode w \<noteq> LWS_CONNMODE_WS_CLIENT) \<and>
     (c = int (tb_len b) \<and> stream v = wire w @ f \<and> \<not> inside_frame v \<or>
      (\<exists>n. 0 < n \<and> n < length f \<and> c = int n - int (length f - tb_len b) \<and> inside_frame v \<and>
           wire v = wire w @ take n f \<and> pending v = [] \<and> takes_part env (tx_clock w) f n) \<or>
      c = -1 \<and> gives_up env (tx_clock w) f)"
proof -
  have direct: "\<not> sends_directly protocol" "protocol AND 0xf = LWS_WRITE_CLOSE \<longrightarrow> close_reason w = 0"
    using assms(8,9) by (auto simp: sends_directly_def write_opcode_def data_opcode_def Let_def split: if_splits)
  obtain w1 b1 key pre where r: "libwebsocket_write env w b protocol = send_raw env w1 b1 pre (tb_len b) protocol"
    and lo: "laid_out env w b protocol opc key w1 b1 pre"
    using write_frame [OF assms(1-4,5,8) direct(2) assms(7)] assms(6) by blast
  define f where "f = frame (protocol AND LWS_WRITE_NO_FIN = 0) 0 opc (shortest (tb_len b)) key (tb_bytes b)"
  define wb where "wb = b1\<lparr>tb_off := tb_off b1 - pre, tb_len := tb_len b1 + pre\<rparr>"
  note wb = laid_out_whole [OF lo assms(5) wb_def, folded f_def]
  have lf: "length f = tb_len b + pre" using lo by (simp add: laid_out_def f_def)
  have w1: "tx_idle env w1" "clean_buffer w1" "wire w1 = wire w" "stream w1 = wire w" and key: "key_ok key"
    "key = None \<longleftrightarrow> tx_mode w \<noteq> LWS_CONNMODE_WS_CLIENT"
    using lo by (auto simp: laid_out_def stream_def tx_idle_def pending_empty)
  show ?thesis
  proof (cases rule: send_data [OF w1(1,2) direct(1) wb_def wb(1,2), of "tb_len b", case_names whole part failed])
    case (whole v)
    then show ?thesis using r wb(3) w1(4) key f_def by (intro exI [of _ "int (tb_len b)"] exI [of _ v]) auto
  next
    case (part n v)
    then have "pending v = []" by (simp add: tx_idle_def pending_empty)
    moreover have "takes_part env (tx_clock w) f n"
      using takes_part_later [OF part(9)] lo wb(3) by (simp add: laid_out_def)
    ultimately show ?thesis using part r wb(3,4) w1(4) key f_def lf
      by (intro exI [of _ "int n - int pre"] exI [of _ v] exI [of _ b1] exI [of _ key] exI [of _ f])
         (auto simp: stream_def)
  next
    case (failed v)
    have "tx_clock w \<le> tx_clock w1" using lo by (simp add: laid_out_def)
    then have "gives_up env (tx_clock w) f" using gives_up_later [OF failed(2)] wb(3) by simp
    then show ?thesis using failed(1) r key f_def by auto
  qed
qed

section \<open>Properties\<close>

text \<open>An environment that sends everything, one that sends a byte at a time, and a connection.\<close>

definition all_env :: tx_env where
  "all_env = \<lparr>send_sock = (\<lambda>t bs. Sent (length bs)), poll_out = (\<lambda>t. True),
     get_random = (\<lambda>t n. map word_of_nat [1..<n + 1]), malloc_ok = (\<lambda>t n. True), tx_extensions = []\<rparr>"

definition slow_env :: tx_env where
  "slow_env = all_env\<lparr>send_sock := (\<lambda>t bs. if bs = [] then Sent 0 else Sent 1)\<rparr>"

definition new_tx :: "connection_mode \<Rightarrow> tx_wsi" where
  "new_tx m = \<lparr>tx_mode = m, tx_state = WSI_STATE_ESTABLISHED, tx_spec_revision = 13, tx_nonce = [0, 0, 0, 0],
     tx_mask_index = 0, close_reason = 0, inside_frame = False, clean_buffer = False,
     extension_data_pending = False, socket_is_permanently_unusable = False, truncated_send_malloc = None,
     truncated_send_allocation = 0, truncated_send_offset = 0, truncated_send_len = 0, wire = [],
     writable_asked = 0, tx_clock = 0\<rparr>"

definition user_buf :: "byte list \<Rightarrow> tx_buf" where
  "user_buf p = \<lparr>tb_id = 2, tb_mem = replicate 18 0 @ p @ replicate 4 0, tb_off = 18, tb_len = length p\<rparr>"

lemma tx_instances:
  "tx_idle all_env (new_tx m)" "tx_idle slow_env (new_tx m)" "random_ok all_env" "random_ok slow_env"
  "length p < 2 ^ 30 \<Longrightarrow> padded (user_buf p)" "tb_bytes (user_buf p) = p" "tb_len (user_buf p) = length p"
  by (auto simp: tx_idle_def tx_ok_def send_ok_def new_tx_def all_env_def slow_env_def random_ok_def padded_def
      user_buf_def tb_bytes_def Suc_le_eq split: if_splits)

lemma all_env_takes: "\<not> gives_up all_env t bs"
  by (simp add: gives_up_def all_env_def)

text \<open>
  C4. The bytes on the wire and in the store for truncated sends are, in order, exactly the bytes the
  return values of \<open>lws_issue_raw\<close> claimed: for every sequence of sends and flushes, whatever the
  socket takes at each of them, nothing is lost, duplicated or reordered.
\<close>

theorem sent_stream_is_exact:
  assumes "tx_idle env w" "tx_run env w acc v"
  shows "tx_ok v \<and> wire v @ pending v = wire w @ acc"
  using tx_run_stream [OF assms(2,1)] by (simp add: stream_def)

theorem sent_stream_is_exact_witness:
  "\<exists>v. tx_run slow_env (new_tx LWS_CONNMODE_WS_SERVING) [1, 2, 3] v \<and> wire v @ pending v = [1, 2, 3]"
proof -
  let ?w = "new_tx LWS_CONNMODE_WS_SERVING"
  have ok: "tb_ok (user_buf [1, 2, 3])" by (simp add: tb_ok_def user_buf_def)
  have "\<not> clean_buffer ?w" by (simp add: new_tx_def)
  then obtain v where v: "lws_issue_raw slow_env ?w (user_buf [1, 2, 3]) = Inr (int 3, v)"
    using issue_raw_new [OF tx_instances(2) ok, of LWS_CONNMODE_WS_SERVING]
    by (simp add: user_buf_def lws_issue_raw_def Let_def tx_ext_callback_def slow_env_def all_env_def
        lws_ssl_capable_write_no_ssl_def handle_truncated_send_def new_tx_def)
  have "tx_run slow_env ?w ([] @ take 3 (tb_bytes (user_buf [1, 2, 3]))) v"
    by (rule tx_send [OF tx_start _ ok v]) (simp add: new_tx_def)
  then have r: "tx_run slow_env ?w [1, 2, 3] v" by (simp add: tx_instances)
  show ?thesis using sent_stream_is_exact [OF tx_instances(2) r] r by (auto simp: new_tx_def)
qed

text \<open>
  C21. Stored data gets out: if of every \<open>k\<close> attempts with the same data one takes a byte and none fails
  for good, then \<open>k\<close> flushes for every stored byte at most empty the store, and what was stored
  follows on the wire what was there.
\<close>

theorem store_drains:
  assumes "tx_ok w" "tx_extensions env = []" "send_ok env" "progress k env"
  shows "\<exists>m \<le> k * truncated_send_len w. truncated_send_len (drain m env w) = 0 \<and>
           wire (drain m env w) = wire w @ pending w"
proof -
  obtain m where m: "m \<le> k * truncated_send_len w" "truncated_send_len (drain m env w) = 0"
    "stream (drain m env w) = stream w"
    using drain_all [OF assms] by blast
  then have "wire (drain m env w) = wire w @ pending w" by (simp add: stream_def pending_empty)
  then show ?thesis using m by blast
qed

theorem store_drains_witness:
  "\<exists>m \<le> 1 * 2. truncated_send_len (drain m slow_env ((new_tx LWS_CONNMODE_WS_SERVING)\<lparr>
      truncated_send_malloc := Some [7, 8], truncated_send_allocation := 2, truncated_send_len := 2\<rparr>)) = 0"
proof -
  have "progress 1 slow_env" by (auto simp: progress_def slow_env_def)
  then show ?thesis
    using store_drains [of "(new_tx LWS_CONNMODE_WS_SERVING)\<lparr>truncated_send_malloc := Some [7, 8],
        truncated_send_allocation := 2, truncated_send_len := 2\<rparr>" slow_env 1] tx_instances(2)
    by (auto simp: tx_ok_def new_tx_def tx_idle_def slow_env_def all_env_def)
qed

text \<open>
  C15. On an open connection without extensions and with nothing stored, and with a random device that
  works, a write of text, binary or continuation data puts one RFC 6455 frame on the stream, masked with a fresh key on a client and
  bare on a server: the whole frame, and the return value is the length the caller gave; or, when the
  socket takes only \<open>n\<close> bytes of the frame, those, the caller having to write the rest; the return
  value is then \<open>n\<close> less the length of the header, so that it is 0 or negative (it can be -1) when the
  cut is inside the header, which is not what the comment on \<open>libwebsocket_write\<close> says. Otherwise it is
  -1, and only because the socket refuses the frame for good or there is no memory to store it.
\<close>

theorem write_puts_one_frame:
  assumes "tx_idle env w" "tx_state w = WSI_STATE_ESTABLISHED" "tx_spec_revision w = 13" "\<not> inside_frame w"
    "padded b" "tb_len b \<noteq> 0" "random_ok env" "write_opcode protocol = Some opc" "data_opcode opc"
  shows "\<exists>c v b1 key f.
     libwebsocket_write env w b protocol = Some (Inr (c, v, b1)) \<and>
     f = frame (protocol AND LWS_WRITE_NO_FIN = 0) 0 opc (shortest (tb_len b)) key (tb_bytes b) \<and>
     key_ok key \<and> (key = None \<longleftrightarrow> tx_mode w \<noteq> LWS_CONNMODE_WS_CLIENT) \<and>
     (c = int (tb_len b) \<and> stream v = wire w @ f \<and> \<not> inside_frame v \<or>
      (\<exists>n. 0 < n \<and> n < length f \<and> c = int n - int (length f - tb_len b) \<and> inside_frame v \<and>
           wire v = wire w @ take n f \<and> pending v = [] \<and> takes_part env (tx_clock w) f n) \<or>
      c = -1 \<and> gives_up env (tx_clock w) f)"
  by (rule write_one_frame [OF assms])

lemmas write_eval = libwebsocket_write_def send_raw_def ext_access_none lws_issue_raw_def
  handle_truncated_send_def lws_ssl_capable_write_no_ssl_def do_more_inside_frame_def put_header_def
  frame_header_def poke_def write_opcode_def sends_directly_def tx_ext_callback_def same_ptr_def tick_def
  mask_in_place_def libwebsocket_0405_frame_mask_generate_def add_close_reason_def

text \<open>A write that goes out, and one cut after the first byte of its header.\<close>

theorem write_puts_one_frame_witness:
  "(\<exists>v b1. libwebsocket_write all_env (new_tx LWS_CONNMODE_WS_SERVING) (user_buf [1, 2, 3]) LWS_WRITE_TEXT =
      Some (Inr (3, v, b1)) \<and> stream v = frame True 0 1 L7 None [1, 2, 3]) \<and>
   (\<exists>v b1. libwebsocket_write slow_env (new_tx LWS_CONNMODE_WS_SERVING) (user_buf [1, 2, 3]) LWS_WRITE_TEXT =
      Some (Inr (-1, v, b1)) \<and> wire v = [0x81] \<and> inside_frame v)"
proof (intro conjI)
  let ?w = "new_tx LWS_CONNMODE_WS_SERVING" and ?b = "user_buf [1, 2, 3]"
  have b: "padded ?b" "tb_bytes ?b = [1, 2, 3]" "tb_len ?b = 3" using tx_instances(5) [of "[1, 2, 3]"] by (simp_all add: tx_instances)
  have opc: "write_opcode LWS_WRITE_TEXT = Some 1" "data_opcode 1" by (simp_all add: write_opcode_def data_opcode_def)
  have w: "tx_state ?w = WSI_STATE_ESTABLISHED" "tx_spec_revision ?w = 13" "\<not> inside_frame ?w" "wire ?w = []"
    "tx_mode ?w = LWS_CONNMODE_WS_SERVING" by (simp_all add: new_tx_def)
  obtain v b1 where r: "libwebsocket_write all_env ?w ?b LWS_WRITE_TEXT = Some (Inr (3, v, b1))"
    by (simp add: write_eval all_env_def new_tx_def user_buf_def)
  have f: "shortest 3 = L7" "length (frame True 0 1 L7 None [1, 2, 3]) = 5"
    by (simp_all add: shortest_def frame_def len_bytes_def mask_bit_def)
  show "\<exists>v b1. libwebsocket_write all_env ?w ?b LWS_WRITE_TEXT = Some (Inr (3, v, b1)) \<and> stream v = frame True 0 1 L7 None [1, 2, 3]"
    using write_puts_one_frame [OF tx_instances(1) w(1-3) b(1) _ tx_instances(3) opc] r f b(2,3) w(4,5) by auto
  obtain v b1 where r: "libwebsocket_write slow_env ?w ?b LWS_WRITE_TEXT = Some (Inr (-1, v, b1))" "wire v = [0x81]" "inside_frame v"
    by (simp add: write_eval slow_env_def all_env_def new_tx_def user_buf_def)
  then show "\<exists>v b1. libwebsocket_write slow_env ?w ?b LWS_WRITE_TEXT = Some (Inr (-1, v, b1)) \<and> wire v = [0x81] \<and> inside_frame v"
    by blast
qed

text \<open>
  Resuming a cut write: when a write of data returns a count below the length, a second write with
  the remaining bytes of the same buffer (already masked in place, on a client) that goes out
  completes the frame; header and mask are not repeated.
\<close>

theorem cut_write_resumes:
  assumes "tx_idle env w" "tx_state w = WSI_STATE_ESTABLISHED" "tx_spec_revision w = 13" "\<not> inside_frame w"
    "padded b" "random_ok env" "write_opcode protocol = Some opc" "data_opcode opc"
    and cut: "libwebsocket_write env w b protocol = Some (Inr (int k, v, b1))" "k < tb_len b"
    and rest: "libwebsocket_write env v (b1\<lparr>tb_off := tb_off b + k, tb_len := tb_len b - k\<rparr>) protocol =
          Some (Inr (int (tb_len b - k), u, b2))"
  shows "\<exists>key. key_ok key \<and> (key = None \<longleftrightarrow> tx_mode w \<noteq> LWS_CONNMODE_WS_CLIENT) \<and> \<not> inside_frame u \<and>
    stream u = wire w @
      frame (protocol AND LWS_WRITE_NO_FIN = 0) 0 opc (shortest (tb_len b)) key (tb_bytes b)"
proof -
  have direct: "\<not> sends_directly protocol" "protocol AND 0xf = LWS_WRITE_CLOSE \<longrightarrow> close_reason w = 0"
    using assms(7,8) by (auto simp: sends_directly_def write_opcode_def data_opcode_def Let_def split: if_splits)
  obtain w1 c1 key pre where r: "libwebsocket_write env w b protocol = send_raw env w1 c1 pre (tb_len b) protocol"
    and lo: "laid_out env w b protocol opc key w1 c1 pre"
    using write_frame [OF assms(1-5,7) direct(2) assms(6)] cut(2) by fastforce
  define f where "f = frame (protocol AND LWS_WRITE_NO_FIN = 0) 0 opc (shortest (tb_len b)) key (tb_bytes b)"
  define wb where "wb = c1\<lparr>tb_off := tb_off c1 - pre, tb_len := tb_len c1 + pre\<rparr>"
  note wb = laid_out_whole [OF lo assms(5) wb_def, folded f_def]
  have w1: "tx_idle env w1" "clean_buffer w1" "stream w1 = wire w" "tx_state w1 = WSI_STATE_ESTABLISHED"
    and key: "key_ok key" "key = None \<longleftrightarrow> tx_mode w \<noteq> LWS_CONNMODE_WS_CLIENT"
    and c1: "tb_off c1 = tb_off b" "tb_len c1 = tb_len b" "length (tb_mem c1) = length (tb_mem b)"
    using lo assms(2) by (auto simp: laid_out_def stream_def tx_idle_def pending_empty)
  obtain n where n: "int k = int n - int pre" "b1 = c1" "stream v = wire w @ take n f" "inside_frame v"
    "tx_idle env v" "clean_buffer v" "tx_state v = WSI_STATE_ESTABLISHED"
  proof (cases rule: send_data [OF w1(1,2) direct(1) wb_def wb(1,2), of "tb_len b", case_names whole part failed])
    case (part n v')
    then show thesis using cut r wb(3) w1(3,4) by (intro that [of n]) auto
  qed (use cut r in auto)
  define rb where "rb = c1\<lparr>tb_off := tb_off b + k, tb_len := tb_len b - k\<rparr>"
  have rb: "tb_ok rb" "tb_len rb \<noteq> 0" "rb = rb\<lparr>tb_off := tb_off rb - 0, tb_len := tb_len rb + 0\<rparr>"
    using c1 cut(2) assms(5) by (auto simp: rb_def tb_ok_def padded_def)
  have "pre \<le> tb_off b" using lo assms(5) by (simp add: laid_out_def padded_def)
  then have o: "n + (tb_off b - pre) = tb_off b + k" "tb_len b + pre - n = tb_len b - k" using n(1) cut(2) by linarith+
  have "drop n f = take (tb_len b + pre - n) (drop (n + (tb_off b - pre)) (tb_mem c1))"
    unfolding wb(3) [symmetric] by (simp add: wb_def tb_bytes_def drop_take c1 add.commute)
  then have "tb_bytes rb = drop n f" unfolding o by (simp add: rb_def tb_bytes_def)
  moreover have "libwebsocket_write env v rb protocol = send_raw env v rb 0 (tb_len rb) protocol"
    by (rule write_resumes [OF n(5,4,6,7) direct(1) rb(1,2)])
  then have rest': "send_raw env v rb 0 (tb_len rb) protocol = Some (Inr (int (tb_len rb), u, b2))"
    using rest n(2) by (simp add: rb_def)
  have "stream u = stream v @ tb_bytes rb \<and> \<not> inside_frame u"
  proof (cases rule: send_data [OF n(5,6) direct(1) rb(3,1,2), of "tb_len rb", case_names whole part failed])
    case (whole v')
    with rest' show ?thesis by simp
  qed (use rest' in simp_all)
  ultimately have "stream u = stream v @ drop n f \<and> \<not> inside_frame u" by simp
  then show ?thesis using n(3) key f_def by (metis append.assoc append_take_drop_id)
qed

theorem cut_write_resumes_witness:
  "\<exists>u b2. stream u = [0x81, 2, 5, 6] \<and>
     libwebsocket_write (all_env\<lparr>send_sock := (\<lambda>t bs. if length bs = 4 then Sent 3 else Sent (length bs))\<rparr>)
       ((new_tx LWS_CONNMODE_WS_SERVING)\<lparr>clean_buffer := True, inside_frame := True, wire := [0x81, 2, 5], tx_clock := 4\<rparr>)
       \<lparr>tb_id = 2, tb_mem = replicate 16 0 @ [0x81, 2, 5, 6] @ replicate 4 0, tb_off = 19, tb_len = 1\<rparr>
       LWS_WRITE_TEXT = Some (Inr (1, u, b2))"
proof -
  let ?w = "new_tx LWS_CONNMODE_WS_SERVING"
  let ?e = "all_env\<lparr>send_sock := (\<lambda>t bs. if length bs = 4 then Sent 3 else Sent (length bs))\<rparr>"
  let ?v = "?w\<lparr>clean_buffer := True, inside_frame := True, wire := [0x81, 2, 5], tx_clock := 4\<rparr>"
  let ?b1 = "\<lparr>tb_id = 2, tb_mem = replicate 16 0 @ [0x81, 2, 5, 6] @ replicate 4 0, tb_off = 18, tb_len = 2\<rparr>"
  let ?u = "?v\<lparr>inside_frame := False, wire := [0x81, 2, 5, 6], tx_clock := 7\<rparr>"
  let ?b2 = "?b1\<lparr>tb_off := tb_off (user_buf [5, 6]) + 1, tb_len := tb_len (user_buf [5, 6]) - 1\<rparr>"
  have e: "tx_idle ?e ?w" "random_ok ?e"
    by (auto simp: tx_idle_def tx_ok_def send_ok_def new_tx_def all_env_def random_ok_def)
  have r1: "libwebsocket_write ?e ?w (user_buf [5, 6]) LWS_WRITE_TEXT = Some (Inr (int 1, ?v, ?b1))"
    by (simp add: write_eval all_env_def new_tx_def user_buf_def)
  have r2: "libwebsocket_write ?e ?v ?b2 LWS_WRITE_TEXT = Some (Inr (int (tb_len (user_buf [5, 6]) - 1), ?u, ?b2))"
    by (simp add: write_eval all_env_def new_tx_def user_buf_def)
  have "\<exists>key. key_ok key \<and> (key = None \<longleftrightarrow> tx_mode ?w \<noteq> LWS_CONNMODE_WS_CLIENT) \<and> \<not> inside_frame ?u \<and>
      stream ?u = wire ?w @ frame (LWS_WRITE_TEXT AND LWS_WRITE_NO_FIN = 0) 0 1 (shortest (tb_len (user_buf [5, 6]))) key
        (tb_bytes (user_buf [5, 6]))"
    using r1 r2 e
    by (intro cut_write_resumes [where env = ?e and k = 1 and v = ?v and ?b1.0 = ?b1 and ?b2.0 = ?b2])
       (simp_all add: write_opcode_def data_opcode_def tx_instances, simp_all add: new_tx_def user_buf_def)
  then have "stream ?u = [0x81, 2, 5, 6]"
    by (auto simp: new_tx_def tx_instances frame_def first_of_def len_bytes_def shortest_def mask_bit_def)
  then show ?thesis using r2 by (auto simp: user_buf_def)
qed


text \<open>
  C27. Without active extensions a write ends and stays inside the caller's memory: given the documented
  padding before and after the payload, every write of every kind of a buffer of the caller (also with
  a close reason, inside a frame, for an unknown protocol, with a random device that reads short)
  ends with a return value, or, only while bytes of an earlier write are stored, in the assertion of
  \<open>lws_issue_raw\<close> against new data.
\<close>

theorem write_stays_in_padding:
  assumes "tx_ok w" "tx_extensions env = []" "send_ok env" "padded b" "tb_id b \<noteq> 1" "\<forall>t n. length (get_random env t n) \<le> n"
  shows "(\<exists>c v b1. libwebsocket_write env w b protocol = Some (Inr (c, v, b1))) \<or>
    truncated_send_len w \<noteq> 0 \<and> libwebsocket_write env w b protocol = Some (Inl Tx_abort)"
  using write_ends [of env w b protocol] assms by (simp add: tx_plain_def ends_def)

theorem write_stays_in_padding_witness:
  "(\<exists>c v b1. libwebsocket_write all_env ((new_tx LWS_CONNMODE_WS_CLIENT)\<lparr>close_reason := 1000\<rparr>) (user_buf []) LWS_WRITE_CLOSE =
     Some (Inr (c, v, b1))) \<and>
   libwebsocket_write all_env ((new_tx LWS_CONNMODE_WS_SERVING)\<lparr>truncated_send_malloc := Some [7], truncated_send_allocation := 1,
       truncated_send_len := 1\<rparr>) (user_buf [1]) LWS_WRITE_TEXT = Some (Inl Tx_abort)"
proof (intro conjI)
  let ?w = "(new_tx LWS_CONNMODE_WS_CLIENT)\<lparr>close_reason := 1000\<rparr>"
  have "truncated_send_len ?w = 0" "tx_ok ?w" "padded (user_buf [])" "tb_id (user_buf []) \<noteq> 1"
    by (simp_all add: new_tx_def tx_ok_def padded_def user_buf_def)
  moreover have "tx_extensions all_env = []" "send_ok all_env" "\<forall>t n. length (get_random all_env t n) \<le> n"
    by (simp_all add: all_env_def send_ok_def)
  ultimately show "\<exists>c v b1. libwebsocket_write all_env ?w (user_buf []) LWS_WRITE_CLOSE = Some (Inr (c, v, b1))"
    using write_stays_in_padding [of ?w all_env "user_buf []" LWS_WRITE_CLOSE] by blast
qed (simp add: write_eval all_env_def new_tx_def user_buf_def in_truncated_def)

text \<open>
  The close frame of a client never carries its reason: the key is stored over the two bytes of
  the status code and the two bytes before them go out as they were in the buffer, so that the
  peer reads a key and a status code that were never sent.
\<close>

theorem client_close_reason_lost:
  assumes "tx_idle env w" "tx_state w = WSI_STATE_ESTABLISHED" "tx_spec_revision w = 13" "\<not> inside_frame w"
    "tx_mode w = LWS_CONNMODE_WS_CLIENT" "close_reason w \<noteq> 0" "padded b" "tb_len b = 0"
    "get_random env (tx_clock w) 4 = [k0, k1, k2, k3]" "\<forall>t bs. send_sock env t bs = Sent (length bs)"
  shows "\<exists>v b1. libwebsocket_write env w b LWS_WRITE_CLOSE = Some (Inr (8, v, b1)) \<and>
    wire v = wire w @ [0x88, 0x82, tb_mem b ! (tb_off b - 6), tb_mem b ! (tb_off b - 5), k0, k1, k2, k3]"
proof -
  let ?o = "tb_off b"
  have o: "18 \<le> ?o" "?o + 4 \<le> length (tb_mem b)" "length (tb_mem b) < 2 ^ 31"
    using assms(7,8) by (simp_all add: padded_def)
  define xs where "xs = take (?o - 8) (tb_mem b)"
  define ds where "ds = drop (?o - 8) (tb_mem b)"
  have "10 \<le> length ds" using o by (simp add: ds_def)
  then obtain h0 h1 g0 g1 y0 y1 y2 y3 z0 z1 zs where
    d: "ds = h0 # h1 # g0 # g1 # y0 # y1 # y2 # y3 # z0 # z1 # zs"
    by (auto simp: Suc_le_length_iff numeral_eq_Suc)
  have mem: "tb_mem b = xs @ h0 # h1 # g0 # g1 # y0 # y1 # y2 # y3 # z0 # z1 # zs"
    unfolding d [symmetric] xs_def ds_def by (rule append_take_drop_id [symmetric])
  have off: "?o = length xs + 8" using o by (simp add: xs_def)
  have g: "tb_mem b ! (?o - 6) = g0" "tb_mem b ! (?o - 5) = g1" by (simp_all add: off mem nth_append)
  define r :: "byte list" where "r = [ucast (drop_bit 8 (close_reason w)), ucast (close_reason w)]"
  define w1 where "w1 = w\<lparr>clean_buffer := True\<rparr>"
  let ?b2 = "b\<lparr>tb_off := length xs + 6, tb_len := 2, tb_mem := xs @ 0x88 # 0x82 # g0 # g1 # y0 # y1 # r @ z0 # z1 # zs\<rparr>"
  have ph: "put_header w1 b LWS_WRITE_CLOSE = Some (Some (?b2, Some (length xs + 4), 6))"
    using assms(5,6,8) off
    by (simp add: put_header_def Let_def write_opcode_def add_close_reason_def poke_def mem frame_header_def
        w1_def r_def)
  define w2 where "w2 = (tick w1)\<lparr>tx_nonce := [k0, k1, k2, k3], tx_mask_index := 0\<rparr>"
  have gen: "libwebsocket_0405_frame_mask_generate env w1 = (False, w2)"
    using assms(1,9)
    by (simp add: libwebsocket_0405_frame_mask_generate_def w1_def w2_def tick_def tx_idle_def tx_ok_def)
  let ?b3 = "?b2\<lparr>tb_mem := xs @ 0x88 # 0x82 # g0 # g1 # k0 # k1 # k2 # k3 # (z0 XOR k0) # (z1 XOR k1) # zs\<rparr>"
  have mip: "mask_in_place w2 ?b2 (length xs + 4) = Some (w2\<lparr>tx_mask_index := 2\<rparr>, ?b3)"
    by (simp add: mask_in_place_def w2_def r_def poke_def)
  have more: "do_more_inside_frame env w1 ?b2 (Some (length xs + 4)) = Some (False, w2\<lparr>tx_mask_index := 2\<rparr>, ?b3)"
    using assms(4,5) gen mip by (simp add: do_more_inside_frame_def w1_def)
  have wr: "libwebsocket_write env w b LWS_WRITE_CLOSE = send_raw env (w2\<lparr>tx_mask_index := 2\<rparr>) ?b3 6 0 LWS_WRITE_CLOSE"
    using assms(2,3,4,8) ph more by (simp add: libwebsocket_write_def Let_def w1_def same_ptr_def)
  have "tx_idle env (w2\<lparr>tx_mask_index := 2\<rparr>)"
    using assms(1) by (simp add: tx_idle_def tx_ok_def w2_def w1_def split: option.splits)
  then have "\<exists>v. lws_issue_raw env (w2\<lparr>tx_mask_index := 2\<rparr>) (?b3\<lparr>tb_off := length xs, tb_len := 8\<rparr>) = Inr (8, v) \<and>
      wire v = wire w @ [0x88, 0x82, g0, g1, k0, k1, k2, k3]"
    using assms(10)
    by (simp add: lws_issue_raw_def Let_def tx_idle_def tx_ext_callback_none lws_ssl_capable_write_no_ssl_def
        handle_truncated_send_def) (simp add: w2_def w1_def)
  then obtain v where "lws_issue_raw env (w2\<lparr>tx_mask_index := 2\<rparr>) (?b3\<lparr>tb_off := length xs, tb_len := 8\<rparr>) = Inr (8, v)"
    "wire v = wire w @ [0x88, 0x82, g0, g1, k0, k1, k2, k3]" by blast
  then show ?thesis unfolding wr g by (simp add: send_raw_def sends_directly_def Let_def)
qed

theorem client_close_reason_lost_witness:
  "\<exists>v b1. libwebsocket_write all_env ((new_tx LWS_CONNMODE_WS_CLIENT)\<lparr>close_reason := 1000\<rparr>) (user_buf []) LWS_WRITE_CLOSE =
       Some (Inr (8, v, b1)) \<and>
     wire v = [0x88, 0x82, 0, 0, 1, 2, 3, 4]"
proof -
  let ?w = "(new_tx LWS_CONNMODE_WS_CLIENT)\<lparr>close_reason := 1000\<rparr>"
  have "tx_idle all_env ?w" "padded (user_buf [])" "get_random all_env (tx_clock ?w) 4 = [1, 2, 3, 4]"
    by (auto simp: tx_idle_def tx_ok_def send_ok_def new_tx_def all_env_def padded_def user_buf_def upt_rec)
  from client_close_reason_lost [OF this(1) _ _ _ _ _ this(2) _ this(3)] show ?thesis
    by (simp add: new_tx_def all_env_def user_buf_def nth_append)
qed

text \<open>
  A control frame the socket takes only a part of is not completed: the return value counts what
  went out, nothing is stored, and the connection does not know that it is inside a frame.
\<close>

theorem cut_control_frame_lost:
  assumes "tx_idle env w" "tx_state w = WSI_STATE_ESTABLISHED" "tx_spec_revision w = 13" "\<not> inside_frame w"
    "padded b" "random_ok env" "protocol = LWS_WRITE_PING \<or> protocol = LWS_WRITE_PONG"
    "\<forall>t bs. bs \<noteq> [] \<longrightarrow> send_sock env t bs = Sent 1"
  shows "\<exists>v b1 key. libwebsocket_write env w b protocol = Some (Inr (1, v, b1)) \<and>
    wire v = wire w @ take 1 (frame True 0 (if protocol = LWS_WRITE_PING then 9 else 0xa) (shortest (tb_len b)) key (tb_bytes b)) \<and>
    pending v = [] \<and> \<not> inside_frame v"
proof -
  let ?opc = "if protocol = LWS_WRITE_PING then 9 else 0xa"
  have opc: "write_opcode protocol = Some ?opc" "protocol AND LWS_WRITE_NO_FIN = 0"
    "protocol AND 0xf \<noteq> LWS_WRITE_CLOSE" "sends_directly protocol"
    using assms(7) by (auto simp: write_opcode_def sends_directly_def)
  have reason: "protocol AND 0xf = LWS_WRITE_CLOSE \<longrightarrow> close_reason w = 0" using opc by simp
  obtain w1 b1 key pre where r: "libwebsocket_write env w b protocol = send_raw env w1 b1 pre (tb_len b) protocol"
    and lo: "laid_out env w b protocol ?opc key w1 b1 pre"
    using write_frame [OF assms(1-5) opc(1) reason assms(6)] assms(7) by blast
  define f where "f = frame (protocol AND LWS_WRITE_NO_FIN = 0) 0 ?opc (shortest (tb_len b)) key (tb_bytes b)"
  define wb where "wb = b1\<lparr>tb_off := tb_off b1 - pre, tb_len := tb_len b1 + pre\<rparr>"
  note wb = laid_out_whole [OF lo assms(5) wb_def, folded f_def]
  have w1: "tx_idle env w1" "clean_buffer w1" "wire w1 = wire w" "\<not> inside_frame w1"
    using lo assms(4) by (auto simp: laid_out_def)
  have "length f = tb_len wb" using lo wb(4) by (simp add: laid_out_def f_def)
  moreover have "2 \<le> length f" by (auto simp: f_def frame_def len_bytes_def split: len_form.split)
  ultimately have len: "tb_len wb \<noteq> 1" "f \<noteq> []" by auto
  have "\<exists>v. lws_issue_raw env w1 wb = Inr (1, v) \<and> wire v = wire w @ take 1 f \<and> pending v = [] \<and> \<not> inside_frame v"
    using w1 assms(8) wb(1,2,3) len
    by (simp add: lws_issue_raw_def Let_def tx_idle_def tx_ext_callback_none lws_ssl_capable_write_no_ssl_def
        handle_truncated_send_def tb_ok_def not_less tb_bytes_def pending_empty)
  then obtain v where v: "lws_issue_raw env w1 wb = Inr (1, v)" "wire v = wire w @ take 1 f" "pending v = []"
    "\<not> inside_frame v" by blast
  have "f = frame True 0 ?opc (shortest (tb_len b)) key (tb_bytes b)" unfolding f_def opc(2) by (simp only: refl)
  moreover have "libwebsocket_write env w b protocol = Some (Inr (1, v, b1))"
    using r v(1) opc(4) by (simp add: send_raw_def wb_def [symmetric] Let_def)
  ultimately show ?thesis using v(2-4) by blast
qed

theorem cut_control_frame_lost_witness:
  "\<exists>v b1. libwebsocket_write slow_env (new_tx LWS_CONNMODE_WS_SERVING) (user_buf [9]) LWS_WRITE_PONG = Some (Inr (1, v, b1)) \<and>
     pending v = []"
  using cut_control_frame_lost [OF tx_instances(2) _ _ _ tx_instances(5) tx_instances(4), of LWS_CONNMODE_WS_SERVING "[9]" LWS_WRITE_PONG]
  by (auto simp: new_tx_def slow_env_def)

end
