(* ===== verification/Handshake.thy ===== *)
theory Handshake
  imports Sha1 Base64 Headers Output
begin

text \<open>
  The opening handshake. Server side: \<open>handshake_0405\<close> and \<open>lws_extension_server_handshake\<close> of
  \<^verbatim>\<open>lib/server-handshake.c\<close>, which compute the accept key from the key of the request and build the
  response in the service buffer of the context. Client side: the request and the expected answer
  of \<open>libwebsockets_generate_client_handshake\<close> and the check of the answer in
  \<open>lws_client_interpret_server_handshake\<close>, both of \<^verbatim>\<open>lib/client.c\<close>.
\<close>

unbundle bit_operations_syntax

section \<open>The accept key\<close>

abbreviation (input) WSI_TOKEN_EXTENSIONS :: nat where "WSI_TOKEN_EXTENSIONS \<equiv> 9"
abbreviation (input) WSI_TOKEN_PROTOCOL :: nat where "WSI_TOKEN_PROTOCOL \<equiv> 12"
abbreviation (input) WSI_TOKEN_ACCEPT :: nat where "WSI_TOKEN_ACCEPT \<equiv> 13"
abbreviation (input) WSI_TOKEN_CLIENT_SENT_PROTOCOLS :: nat where "WSI_TOKEN_CLIENT_SENT_PROTOCOLS \<equiv> 74"
abbreviation (input) WSI_TOKEN_CLIENT_URI :: nat where "WSI_TOKEN_CLIENT_URI \<equiv> 76"
abbreviation (input) WSI_TOKEN_CLIENT_HOST :: nat where "WSI_TOKEN_CLIENT_HOST \<equiv> 77"
abbreviation (input) WSI_TOKEN_CLIENT_ORIGIN :: nat where "WSI_TOKEN_CLIENT_ORIGIN \<equiv> 78"
abbreviation (input) MAX_WEBSOCKET_04_KEY_LEN :: nat where "MAX_WEBSOCKET_04_KEY_LEN \<equiv> 128"
abbreviation (input) LWS_MAX_EXTENSIONS_ACTIVE :: nat where "LWS_MAX_EXTENSIONS_ACTIVE \<equiv> 3"

definition websocket_guid :: "byte list" where
  "websocket_guid = bytes ''258EAFA5-E914-47DA-95CA-C5AB0DC85B11''"

text \<open>The C string a header pointer points to: \<open>None\<close> for a string without end.\<close>

definition hdr_string :: "allocated_headers \<Rightarrow> nat \<Rightarrow> byte list option option" where
  "hdr_string a h = map_option (c_string (ah_data a)) (lws_hdr_simple_ptr a h)"

definition crlf :: "byte list" where
  "crlf = [0x0d, 0x0a]"

section \<open>Extensions of the server\<close>

text \<open>
  The context of a handshake: the names of the supported extensions, the answer of the user to
  each, what \<open>malloc\<close> says for the n-th instance, whether user space could be had and whether an
  extension sends the reply itself.
\<close>

record hs_env =
  hs_ext_names :: "byte list list"
  hs_confirm :: "byte list \<Rightarrow> int"
  hs_ext_malloc :: "nat \<Rightarrow> bool"
  hs_user_space_ok :: bool
  hs_reply_handled :: bool
  hs_byte_order :: byte_order

text \<open>
  The service buffer, the place \<open>p\<close> in it and the extensions that are active: indices into the list
  of the context.
\<close>

record hs_state =
  sb :: "byte list"
  sb_p :: nat
  hs_active :: "nat list"

text \<open>Memory out of bounds, and the label \<open>bail\<close> with the extensions that are active by then.\<close>

datatype hs_stop = Hs_overrun | Hs_bail "nat list"

text \<open>\<open>LWS_CPYAPP\<close>, and a single character.\<close>

definition cpyapp :: "hs_state \<Rightarrow> byte list \<Rightarrow> hs_stop + hs_state" where
  "cpyapp s str =
     (case strcpy (sb s) (sb_p s) str of None \<Rightarrow> Inl Hs_overrun
      | Some m \<Rightarrow> Inr (s\<lparr>sb := m, sb_p := sb_p s + length str\<rparr>))"

definition putch :: "hs_state \<Rightarrow> byte \<Rightarrow> hs_stop + hs_state" where
  "putch s c =
     (if length (sb s) \<le> sb_p s then Inl Hs_overrun
      else Inr (s\<lparr>sb := (sb s)[sb_p s := c], sb_p := sb_p s + 1\<rparr>))"

text \<open>
  The inner loop: a name of the client against the supported extensions from the i-th on.
\<close>

fun match_exts :: "hs_env \<Rightarrow> byte list \<Rightarrow> nat \<Rightarrow> byte list list \<Rightarrow> nat \<Rightarrow> hs_state \<Rightarrow> hs_stop + nat \<times> hs_state" where
  "match_exts env name i [] ext_count s = Inr (ext_count, s)"
| "match_exts env name i (e # es) ext_count s =
     (if name \<noteq> e then match_exts env name (i + 1) es ext_count s
      else if hs_confirm env name \<noteq> 0 then match_exts env name (i + 1) es ext_count s
      else
        case (if ext_count \<noteq> 0 then putch s 0x2c
              else cpyapp s ([0x0d, 0x0a] @ bytes ''Sec-WebSocket-Extensions: '')) of
          Inl x \<Rightarrow> Inl x
        | Inr s1 \<Rightarrow>
            (case cpyapp s1 name of
               Inl x \<Rightarrow> Inl x
             | Inr s2 \<Rightarrow>
                 if LWS_MAX_EXTENSIONS_ACTIVE \<le> length (hs_active s2) then Inl Hs_overrun
                 else if \<not> hs_ext_malloc env (length (hs_active s2)) then Inl (Hs_bail (hs_active s2))
                 else match_exts env name (i + 1) es (ext_count + 1) (s2\<lparr>hs_active := hs_active s2 @ [i]\<rparr>)))"

text \<open>
  The outer loop: \<open>k\<close> bytes of the service buffer are left from the place \<open>c\<close> on; reading beyond them
  is out of bounds. The name holds at most 127 characters.
\<close>

fun scan_exts :: "hs_env \<Rightarrow> nat \<Rightarrow> byte list \<Rightarrow> nat \<Rightarrow> hs_state \<Rightarrow> hs_stop + nat \<times> hs_state" where
  "scan_exts env 0 name ext_count s = Inl Hs_overrun"
| "scan_exts env (Suc k) name ext_count s =
     (let c = sb s ! (length (sb s) - Suc k)
      in if c \<noteq> 0 \<and> c \<noteq> 0x2c \<and> c \<noteq> 0x20 \<and> c \<noteq> 0x09
         then scan_exts env k (if length name < 127 then name @ [c] else name) ext_count s
         else if c \<noteq> 0 \<and> name = [] then scan_exts env k [] ext_count s
         else
           case match_exts env name 0 (hs_ext_names env) ext_count s of
             Inl x \<Rightarrow> Inl x
           | Inr (ext_count', s1) \<Rightarrow>
               if c = 0 then Inr (ext_count', s1) else scan_exts env k [] ext_count' s1)"

definition lws_extension_server_handshake ::
    "hs_env \<Rightarrow> allocated_headers \<Rightarrow> hs_state \<Rightarrow> hs_stop + hs_state" where
  "lws_extension_server_handshake env a s =
     (case lws_hdr_total_length a WSI_TOKEN_EXTENSIONS of
        None \<Rightarrow> Inl Hs_overrun
      | Some n \<Rightarrow>
          if n = 0 then Inr s
          else case lws_hdr_copy a (sb s) WSI_TOKEN_EXTENSIONS of
                 Inl Reject \<Rightarrow> Inl (Hs_bail (hs_active s))
               | Inl Overrun \<Rightarrow> Inl Hs_overrun
               | Inr (_, m) \<Rightarrow>
                   map_sum id snd (scan_exts env (length m) [] 0 (s\<lparr>sb := m, hs_active := []\<rparr>)))"

section \<open>The response of the server\<close>

definition response_head :: "byte list" where
  "response_head = bytes ''HTTP/1.1 101 Switching Protocols'' @ [0x0d, 0x0a] @
     bytes ''Upgrade: WebSocket'' @ [0x0d, 0x0a] @ bytes ''Connection: Upgrade'' @ [0x0d, 0x0a] @
     bytes ''Sec-WebSocket-Accept: ''"

abbreviation (input) RESPONSE :: nat where "RESPONSE \<equiv> MAX_WEBSOCKET_04_KEY_LEN + LWS_SEND_BUFFER_PRE_PADDING"

text \<open>The key with the GUID in the buffer, hashed and encoded over itself.\<close>

definition put_accept :: "hs_env \<Rightarrow> byte list \<Rightarrow> byte list \<Rightarrow> hs_stop + int \<times> byte list" where
  "put_accept env key m =
     (case strcpy m 0 (key @ websocket_guid) of
        None \<Rightarrow> Inl Hs_overrun
      | Some m1 \<Rightarrow>
          let n = length key + length websocket_guid;
              hash = libwebsockets_SHA1 (hs_byte_order env) (take n m1)
          in case lws_b64_encode_string hash (int (length m1)) of
               (accept_len, txt) \<Rightarrow>
                 if accept_len < 0 then Inl (Hs_bail []) else Inr (accept_len, txt @ drop (length txt) m1))"

definition put_protocol :: "allocated_headers \<Rightarrow> hs_state \<Rightarrow> hs_stop + hs_state" where
  "put_protocol a s =
     (case lws_hdr_total_length a WSI_TOKEN_PROTOCOL of
        None \<Rightarrow> Inl Hs_overrun
      | Some n \<Rightarrow>
          if n = 0 then Inr s
          else case cpyapp s ([0x0d, 0x0a] @ bytes ''Sec-WebSocket-Protocol: '') of
                 Inl x \<Rightarrow> Inl x
               | Inr s1 \<Rightarrow>
                   (case lws_hdr_copy a (take 128 (drop (sb_p s1) (sb s1))) WSI_TOKEN_PROTOCOL of
                      Inl Reject \<Rightarrow> Inl (Hs_bail [])
                    | Inl Overrun \<Rightarrow> Inl Hs_overrun
                    | Inr (k, d) \<Rightarrow>
                        Inr (s1\<lparr>sb := take (sb_p s1) (sb s1) @ d @ drop (sb_p s1 + length d) (sb s1),
                                sb_p := sb_p s1 + k\<rparr>)))"

text \<open>The response in the buffer, ready to send.\<close>

definition make_response :: "hs_env \<Rightarrow> allocated_headers \<Rightarrow> byte list \<Rightarrow> hs_stop + hs_state" where
  "make_response env a m =
     (case (lws_hdr_total_length a WSI_TOKEN_HOST, lws_hdr_total_length a WSI_TOKEN_KEY) of
        (Some host, Some keylen) \<Rightarrow>
          if host = 0 \<or> keylen = 0 then Inl (Hs_bail [])
          else if MAX_WEBSOCKET_04_KEY_LEN \<le> keylen then Inl (Hs_bail [])
          else case hdr_string a WSI_TOKEN_KEY of
                 Some (Some key) \<Rightarrow>
                   (case put_accept env key m of
                      Inl x \<Rightarrow> Inl x
                    | Inr (accept_len, m1) \<Rightarrow>
                        if \<not> hs_user_space_ok env then Inl (Hs_bail [])
                        else
                          case cpyapp \<lparr>sb = m1, sb_p = RESPONSE, hs_active = []\<rparr> response_head of
                            Inl x \<Rightarrow> Inl x
                          | Inr s1 \<Rightarrow>
                              (case c_string (sb s1) 0 of
                                 None \<Rightarrow> Inl Hs_overrun
                               | Some accept \<Rightarrow>
                                   (case strcpy (sb s1) (sb_p s1) accept of
                                      None \<Rightarrow> Inl Hs_overrun
                                    | Some m2 \<Rightarrow>
                                        (case put_protocol a (s1\<lparr>sb := m2, sb_p := sb_p s1 + nat accept_len\<rparr>) of
                                           Inl x \<Rightarrow> Inl x
                                         | Inr s2 \<Rightarrow>
                                             (case lws_extension_server_handshake env a s2 of
                                                Inl x \<Rightarrow> Inl x
                                              | Inr s3 \<Rightarrow> cpyapp s3 [0x0d, 0x0a, 0x0d, 0x0a])))))
               | _ \<Rightarrow> Inl Hs_overrun
      | _ \<Rightarrow> Inl Hs_overrun)"

text \<open>
  \<open>handshake_0405\<close>: the result is the return value, the connection and the extensions; \<open>None\<close> would be
  a write that does not return.
\<close>

definition handshake_0405 ::
    "hs_env \<Rightarrow> tx_env \<Rightarrow> allocated_headers \<Rightarrow> byte list \<Rightarrow> tx_wsi \<Rightarrow>
       (hs_stop + int \<times> tx_wsi \<times> nat list) option" where
  "handshake_0405 env tenv a m w =
     (case make_response env a m of
        Inl (Hs_bail active) \<Rightarrow> Some (Inr (-1, w, active))
      | Inl Hs_overrun \<Rightarrow> Some (Inl Hs_overrun)
      | Inr s \<Rightarrow>
          let len = sb_p s - RESPONSE;
              established = (\<lambda>w. Some (Inr (0, w\<lparr>tx_state := WSI_STATE_ESTABLISHED\<rparr>, hs_active s)))
          in if hs_reply_handled env then established w
             else case libwebsocket_write tenv w \<lparr>tb_id = 3, tb_mem = sb s, tb_off = RESPONSE, tb_len = len\<rparr>
                         LWS_WRITE_HTTP_HEADERS of
                    None \<Rightarrow> None
                  | Some (Inl e) \<Rightarrow> Some (Inl Hs_overrun)
                  | Some (Inr (n, w1, _)) \<Rightarrow>
                      if n \<noteq> int len then Some (Inr (-1, w1, hs_active s)) else established w1)"

section \<open>The client\<close>

text \<open>
  What a client finds in its context: sixteen random bytes (fewer when the device fails), the
  supported extensions, whether another extension vetoes one or the user refuses it (non-zero
  answers), what the user appends to the request, the names of its protocols, and whether the
  resources for the connection can be had.
\<close>

record client_env =
  cl_random :: "byte list"
  cl_append :: "byte list"
  cl_ext_names :: "byte list list"
  cl_veto :: "byte list \<Rightarrow> int"
  cl_confirm :: "byte list \<Rightarrow> int"
  cl_protocols :: "byte list list"
  cl_ext_malloc :: "nat \<Rightarrow> bool"
  cl_user_space_ok :: bool
  cl_rx_buffer_ok :: bool
  cl_setsockopt_ok :: bool
  cl_byte_order :: byte_order

fun join_comma :: "byte list list \<Rightarrow> byte list" where
  "join_comma [] = []"
| "join_comma [e] = e"
| "join_comma (e # es) = e @ [0x2c] @ join_comma es"

text \<open>\<open>sprintf ("%d")\<close> of the revision, a byte.\<close>

definition decimal_byte :: "byte \<Rightarrow> byte list" where
  "decimal_byte b =
     (let n = unat b; digit = (\<lambda>k. word_of_nat (0x30 + k))
      in (if 100 \<le> n then [digit (n div 100)] else []) @
         (if 10 \<le> n then [digit (n div 10 mod 10)] else []) @ [digit (n mod 10)])"

definition optional_line :: "byte list option option \<Rightarrow> byte list \<Rightarrow> byte list option" where
  "optional_line v name =
     (case v of None \<Rightarrow> Some [] | Some None \<Rightarrow> None | Some (Some s) \<Rightarrow> Some (name @ s @ crlf))"

definition request_text ::
    "client_env \<Rightarrow> byte list \<Rightarrow> byte list \<Rightarrow> byte list \<Rightarrow> byte list \<Rightarrow> byte list \<Rightarrow> byte \<Rightarrow> byte list" where
  "request_text env uri host key_b64 origin protocols revision =
     bytes ''GET '' @ uri @ bytes '' HTTP/1.1'' @ crlf @
     bytes ''Pragma: no-cache'' @ crlf @ bytes ''Cache-Control: no-cache'' @ crlf @
     bytes ''Host: '' @ host @ crlf @
     bytes ''Upgrade: websocket'' @ crlf @ bytes ''Connection: Upgrade'' @ crlf @
     bytes ''Sec-WebSocket-Key: '' @ key_b64 @ crlf @ origin @ protocols @
     bytes ''Sec-WebSocket-Extensions: '' @
       join_comma (filter (\<lambda>e. cl_veto env e = 0 \<and> cl_confirm env e = 0) (cl_ext_names env)) @ crlf @
     (if revision \<noteq> 0 then bytes ''Sec-WebSocket-Version: '' @ decimal_byte revision @ crlf else []) @
     cl_append env @ crlf"

text \<open>
  The request and \<open>initial_handshake_hash_base64\<close>; \<open>Hs_bail\<close> when the connection is closed,
  \<open>Hs_overrun\<close> when a needed header is missing.
\<close>

definition libwebsockets_generate_client_handshake ::
    "client_env \<Rightarrow> allocated_headers \<Rightarrow> byte \<Rightarrow> hs_stop + byte list \<times> byte list" where
  "libwebsockets_generate_client_handshake env a revision =
     (if length (cl_random env) \<noteq> 16 then Inl (Hs_bail [])
      else
        let key_b64 = butlast (snd (lws_b64_encode_string (cl_random env) 40));
            hash = libwebsockets_SHA1 (cl_byte_order env) (key_b64 @ websocket_guid);
            initial_hash = butlast (snd (lws_b64_encode_string hash 30))
        in case (hdr_string a WSI_TOKEN_CLIENT_URI, hdr_string a WSI_TOKEN_CLIENT_HOST,
                 optional_line (hdr_string a WSI_TOKEN_CLIENT_ORIGIN) (bytes ''Origin: http://''),
                 optional_line (hdr_string a WSI_TOKEN_CLIENT_SENT_PROTOCOLS) (bytes ''Sec-WebSocket-Protocol: '')) of
             (Some (Some uri), Some (Some host), Some origin, Some protocols) \<Rightarrow>
               Inr (request_text env uri host key_b64 origin protocols revision, initial_hash)
           | _ \<Rightarrow> Inl Hs_overrun)"

text \<open>
  How the client refuses an answer, or goes wrong on it. At \<open>bail2\<close> the protocol may be NULL, and
  extensions may have been instantiated.
\<close>

datatype client_stop = Client_bail2 "nat option" "nat list" | Client_bail3 | Client_overrun | Client_null

definition strtolower :: "byte list \<Rightarrow> byte list" where
  "strtolower s = map (\<lambda>c. if 0x41 \<le> c \<and> c \<le> 0x5a then c + 0x20 else c) s"

text \<open>A header whose value, in lower case, has to be a given word.\<close>

definition require_word :: "allocated_headers \<Rightarrow> nat \<Rightarrow> byte list \<Rightarrow> client_stop + unit" where
  "require_word a h word =
     (case hdr_string a h of
        None \<Rightarrow> Inl Client_bail3
      | Some None \<Rightarrow> Inl Client_overrun
      | Some (Some s) \<Rightarrow> if strtolower s \<noteq> word then Inl Client_bail3 else Inr ())"

text \<open>
  The loop that looks for the protocol of the answer in the list the client sent; \<open>pc\<close> is the rest
  of that list.
\<close>

definition skip_to :: "byte \<Rightarrow> byte list \<Rightarrow> byte list" where
  "skip_to x pc = dropWhile (\<lambda>c. c \<noteq> x) pc"

lemma skip_shorter: "pc \<noteq> [] \<Longrightarrow> length (skip_to 0x20 (skip_to 0x2c pc)) < length pc"
  using length_dropWhile_le [of "\<lambda>c. c \<noteq> 0x2c" "tl pc"] length_dropWhile_le [of "\<lambda>c. c \<noteq> 0x20" "tl pc"]
    length_dropWhile_le [of "\<lambda>c. c \<noteq> 0x20" "dropWhile (\<lambda>c. c \<noteq> 0x2c) (tl pc)"]
  by (cases pc) (auto simp: skip_to_def)

function protocol_offered :: "byte list \<Rightarrow> byte list \<Rightarrow> bool" where
  "protocol_offered p pc =
     (if pc = [] then False
      else if take (length p) pc = p \<and> (length pc = length p \<or> pc ! length p = 0x2c) then True
      else protocol_offered p (skip_to 0x20 (skip_to 0x2c pc)))"
  by pat_completeness auto
termination by (relation "measure (\<lambda>(p, pc). length pc)") (simp_all add: skip_shorter)

declare protocol_offered.simps [simp del]

definition select_protocol :: "client_env \<Rightarrow> allocated_headers \<Rightarrow> client_stop + nat" where
  "select_protocol env a =
     (case lws_hdr_total_length a WSI_TOKEN_PROTOCOL of
        None \<Rightarrow> Inl Client_overrun
      | Some len \<Rightarrow>
          if len = 0 then Inr 0
          else case (hdr_string a WSI_TOKEN_PROTOCOL, hdr_string a WSI_TOKEN_CLIENT_SENT_PROTOCOLS) of
                 (Some (Some p), Some (Some pc)) \<Rightarrow>
                   if \<not> protocol_offered p pc then Inl (Client_bail2 (Some 0) [])
                   else if p \<in> set (cl_protocols env)
                     then Inr (length (takeWhile (\<lambda>name. name \<noteq> p) (cl_protocols env)))
                   else Inl (Client_bail2 None [])
               | (Some (Some p), None) \<Rightarrow> Inl Client_null
               | _ \<Rightarrow> Inl Client_overrun)"

text \<open>
  The extensions the server accepted: every name has to be a supported one. The code has no test of
  their number, as on the side of the server: \<open>Client_overrun\<close> stands for the write past the three
  slots of the connection.
\<close>

fun client_match_exts ::
    "client_env \<Rightarrow> nat \<Rightarrow> byte list \<Rightarrow> nat \<Rightarrow> byte list list \<Rightarrow> nat list \<Rightarrow> client_stop + nat list" where
  "client_match_exts env pr name i [] active = Inr active"
| "client_match_exts env pr name i (e # es) active =
     (if name \<noteq> e then client_match_exts env pr name (i + 1) es active
      else if LWS_MAX_EXTENSIONS_ACTIVE \<le> length active then Inl Client_overrun
      else if \<not> cl_ext_malloc env (length active) then Inl (Client_bail2 (Some pr) active)
      else client_match_exts env pr name (i + 1) es (active @ [i]))"

fun client_scan_exts ::
    "client_env \<Rightarrow> nat \<Rightarrow> byte list \<Rightarrow> byte list \<Rightarrow> nat list \<Rightarrow> client_stop + nat list" where
  "client_scan_exts env pr [] name active = Inl Client_overrun"
| "client_scan_exts env pr (c # cs) name active =
     (if c \<noteq> 0 \<and> c \<noteq> 0x2c \<and> c \<noteq> 0x20 \<and> c \<noteq> 0x09
      then client_scan_exts env pr cs (if length name < 127 then name @ [c] else name) active
      else if c \<noteq> 0 \<and> name = [] then client_scan_exts env pr cs [] active
      else
        case client_match_exts env pr name 0 (cl_ext_names env) active of
          Inl x \<Rightarrow> Inl x
        | Inr active' \<Rightarrow>
            if name \<notin> set (cl_ext_names env) then Inl (Client_bail2 (Some pr) active')
            else if c = 0 then Inr active'
            else client_scan_exts env pr cs [] active')"

definition check_extensions ::
    "client_env \<Rightarrow> nat \<Rightarrow> allocated_headers \<Rightarrow> byte list \<Rightarrow> client_stop + nat list" where
  "check_extensions env pr a m =
     (case lws_hdr_total_length a WSI_TOKEN_EXTENSIONS of
        None \<Rightarrow> Inl Client_overrun
      | Some n \<Rightarrow>
          if n = 0 then Inr []
          else case lws_hdr_copy a m WSI_TOKEN_EXTENSIONS of
                 Inl Reject \<Rightarrow> Inl (Client_bail2 (Some pr) [])
               | Inl Overrun \<Rightarrow> Inl Client_overrun
               | Inr (_, m1) \<Rightarrow> client_scan_exts env pr m1 [] [])"

text \<open>The label \<open>check_accept\<close> and what has to be had for the connection.\<close>

definition check_accept ::
    "client_env \<Rightarrow> allocated_headers \<Rightarrow> byte list \<Rightarrow> nat \<Rightarrow> nat list \<Rightarrow> client_stop + unit" where
  "check_accept env a initial_hash protocol active =
     (case hdr_string a WSI_TOKEN_ACCEPT of
        None \<Rightarrow> Inl Client_null
      | Some None \<Rightarrow> Inl Client_overrun
      | Some (Some p) \<Rightarrow>
          if p \<noteq> initial_hash then Inl (Client_bail2 (Some protocol) active)
          else if \<not> cl_user_space_ok env then Inl (Client_bail2 (Some protocol) active)
          else if \<not> cl_rx_buffer_ok env then Inl (Client_bail2 (Some protocol) active)
          else if \<not> cl_setsockopt_ok env then Inl Client_bail3
          else Inr ())"

text \<open>
  The answer of the server against \<open>initial_handshake_hash_base64\<close>: the number of the protocol and
  the active extensions of the established connection. \<open>m\<close> is the service buffer.
\<close>

definition lws_client_interpret_server_handshake ::
    "client_env \<Rightarrow> allocated_headers \<Rightarrow> byte list \<Rightarrow> byte list \<Rightarrow> client_stop + nat \<times> nat list" where
  "lws_client_interpret_server_handshake env a initial_hash m =
     (case (lws_hdr_total_length a WSI_TOKEN_ACCEPT, lws_hdr_simple_ptr a WSI_TOKEN_HTTP) of
        (None, _) \<Rightarrow> Inl Client_overrun
      | (Some 0, _) \<Rightarrow> Inl Client_bail3
      | (_, None) \<Rightarrow> Inl Client_bail3
      | (_, Some p) \<Rightarrow>
          if take 3 (drop p (ah_data a)) \<noteq> bytes ''101'' then Inl Client_bail3
          else case require_word a WSI_TOKEN_UPGRADE (bytes ''websocket'') of
            Inl x \<Rightarrow> Inl x
          | Inr _ \<Rightarrow>
              (case require_word a WSI_TOKEN_CONNECTION (bytes ''upgrade'') of
                 Inl x \<Rightarrow> Inl x
               | Inr _ \<Rightarrow>
                   (case select_protocol env a of
                      Inl x \<Rightarrow> Inl x
                    | Inr protocol \<Rightarrow>
                        (case check_extensions env protocol a m of
                           Inl x \<Rightarrow> Inl x
                         | Inr active \<Rightarrow>
                             map_sum id (\<lambda>_. (protocol, active)) (check_accept env a initial_hash protocol active)))))"


section \<open>Strings in the service buffer\<close>

text \<open>A header of the table: its length, its string and its copies are those of one value.\<close>

definition holds :: "allocated_headers \<Rightarrow> nat \<Rightarrow> byte list \<Rightarrow> bool" where
  "holds a h v \<longleftrightarrow> v \<noteq> [] \<and> 0 \<notin> set v \<and> hdr_string a h = Some (Some v) \<and> lws_hdr_total_length a h = Some (length v) \<and>
     (\<forall>dest. length v < length dest \<longrightarrow>
        lws_hdr_copy a dest h = Inr (length v, v @ [0] @ drop (length v + 1) dest))"

text \<open>The headers the parser and \<open>lws_hdr_simple_create\<close> file are of that kind.\<close>

lemma files_cur_holds:
  assumes "files_cur a h v" "0 \<notin> set v" "v \<noteq> []"
  shows "holds a h v"
  using assms files_cur_copy [OF assms(1,2)] c_string_uri_text [of a v]
  by (auto simp: holds_def hdr_string_def lws_hdr_simple_ptr_def files_cur_def Let_def)

lemma encode_quad_nonzero:
  "0 \<notin> set (encode_quad 1 t0 0 0)" "0 \<notin> set (encode_quad 2 t0 t1 0)" "0 \<notin> set (encode_quad 3 t0 t1 t2)"
proof -
  have "\<forall>c\<in>set encode_tab. c \<noteq> 0" by (simp add: encode_tab_eq)
  then have tab: "encode_tab ! i \<noteq> 0" if "i < 64" for i using that by (metis length_encode_tab nth_mem)
  note char = tab [OF unat_idx_less(1)] tab [OF unat_idx_less(2)] tab [OF unat_idx_less(3)] tab [OF unat_idx_less(4)]
  show "0 \<notin> set (encode_quad 1 t0 0 0)" "0 \<notin> set (encode_quad 2 t0 t1 0)" "0 \<notin> set (encode_quad 3 t0 t1 t2)"
    unfolding encode_quad_idx using char [of t0 0 0] char [of t0 t1 0] char [of t0 t1 t2]
    by (auto simp: pad_char_def)
qed

lemma rfc_b64_nonzero: "0 \<notin> set (rfc_b64 xs)"
  by (induction xs rule: induct_list3) (simp_all add: rfc_b64_simps encode_quad_nonzero [simplified])

lemma b64_room:
  assumes "int (length (rfc_b64 d)) + 1 < out_size"
  shows "lws_b64_encode_string d out_size = (int (length (rfc_b64 d)), rfc_b64 d @ [0])"
  using encode_loop_ok [of 0 d out_size "[]"] assms by (simp add: lws_b64_encode_string_def length_rfc_b64)

lemma c_string_prefix: "0 \<notin> set v \<Longrightarrow> c_string (v @ 0 # r) 0 = Some v"
  by (simp add: c_string_def takeWhile_append)

text \<open>
  The response that has been put together so far stands in the service buffer behind the place for
  the accept key, whose content stays.
\<close>

definition responded :: "byte list \<Rightarrow> byte list \<Rightarrow> hs_state \<Rightarrow> bool" where
  "responded front t s \<longleftrightarrow> length front = RESPONSE \<and> hs_active s = [] \<and> sb_p s = RESPONSE + length t \<and>
     (\<exists>rest. sb s = front @ t @ rest \<and> length (sb s) = 4096)"

lemma responded_cpyapp:
  assumes "responded front t s" "RESPONSE + length t + length str < 4096"
  obtains s' where "cpyapp s str = Inr s'" "responded front (t @ str) s'"
proof -
  obtain rest where r: "sb s = front @ t @ rest" "length (sb s) = 4096" "length front = RESPONSE"
    "sb_p s = RESPONSE + length t" "hs_active s = []"
    using assms(1) by (auto simp: responded_def)
  let ?s = "s\<lparr>sb := front @ t @ str @ [0] @ drop (length str + 1) rest, sb_p := RESPONSE + length (t @ str)\<rparr>"
  have "cpyapp s str = Inr ?s" using r assms(2) by (simp add: cpyapp_def strcpy_def)
  moreover have "responded front (t @ str) ?s" using r assms(2) by (auto simp: responded_def)
  ultimately show thesis by (rule that)
qed

section \<open>The response\<close>

text \<open>What RFC 6455 asks of the answer, in terms of FIPS 180 and RFC 4648.\<close>

definition accept_key :: "byte list \<Rightarrow> byte list" where
  "accept_key key = rfc_b64 (fips_sha1 (key @ websocket_guid))"

definition protocol_line :: "byte list option \<Rightarrow> byte list" where
  "protocol_line proto =
     (case proto of None \<Rightarrow> [] | Some p \<Rightarrow> crlf @ bytes ''Sec-WebSocket-Protocol: '' @ p)"

definition response :: "byte list \<Rightarrow> byte list option \<Rightarrow> byte list" where
  "response key proto = response_head @ accept_key key @ protocol_line proto @ crlf @ crlf"

lemma response_lengths:
  "length (accept_key key) = 28" "length response_head = 97" "length websocket_guid = 36" "length crlf = 2"
  "length (bytes ''Sec-WebSocket-Protocol: '') = 24"
  using length_SHA1 [of BIG_ENDIAN]
  by (simp_all add: accept_key_def length_rfc_b64 response_head_def websocket_guid_def crlf_def
      libwebsockets_SHA1_fips)

lemma accept_key_nonzero: "0 \<notin> set (accept_key key)"
  by (simp add: accept_key_def rfc_b64_nonzero)

lemma put_accept_key:
  assumes "length m = 4096" "length key < 128"
  obtains r where "put_accept env key m = Inr (28, accept_key key @ 0 # r)" "length r = 4067"
proof -
  let ?m = "(key @ websocket_guid) @ [0] @ drop (length key + 36 + 1) m"
  have m1: "strcpy m 0 (key @ websocket_guid) = Some ?m"
    using assms by (simp add: strcpy_def response_lengths)
  have "lws_b64_encode_string (fips_sha1 (key @ websocket_guid)) 4096 = (28, accept_key key @ [0])"
    using b64_room [of "fips_sha1 (key @ websocket_guid)" 4096] response_lengths(1) [of key]
    by (simp add: accept_key_def)
  then have "put_accept env key m = Inr (28, accept_key key @ [0] @ drop 29 ?m)"
    using assms response_lengths(1) [of key]
    by (simp add: put_accept_def m1 libwebsockets_SHA1_fips Let_def response_lengths(3))
  then show thesis using assms that [of "drop 29 ?m"] by (simp add: response_lengths)
qed

lemma put_protocol_line:
  assumes s: "responded front t s" "length t < 1000"
    and p: "case proto of None \<Rightarrow> lws_hdr_total_length a WSI_TOKEN_PROTOCOL = Some 0
            | Some v \<Rightarrow> holds a WSI_TOKEN_PROTOCOL v \<and> length v < 128"
  obtains s' where "put_protocol a s = Inr s'" "responded front (t @ protocol_line proto) s'"
proof (cases proto)
  case None
  then show thesis using s p that [of s] by (simp add: put_protocol_def protocol_line_def)
next
  case (Some v)
  then have v: "v \<noteq> []" "length v < 128" "lws_hdr_total_length a WSI_TOKEN_PROTOCOL = Some (length v)"
    "lws_hdr_copy a d WSI_TOKEN_PROTOCOL = Inr (length v, v @ [0] @ drop (length v + 1) d)" if "length d = 128" for d
    using p that by (auto simp: holds_def)
  let ?l = "crlf @ bytes ''Sec-WebSocket-Protocol: ''"
  obtain s1 where s1: "cpyapp s ?l = Inr s1" "responded front (t @ ?l) s1"
    using responded_cpyapp [OF s(1), of ?l] s(2) by (auto simp: response_lengths)
  then obtain rest where r: "sb s1 = front @ (t @ ?l) @ rest" "length (sb s1) = 4096" "length front = RESPONSE"
    "sb_p s1 = RESPONSE + length (t @ ?l)" "hs_active s1 = []"
    by (auto simp: responded_def)
  then have rest: "drop (sb_p s1) (sb s1) = rest" "take (sb_p s1) (sb s1) = front @ t @ ?l" "128 \<le> length rest"
    using s(2) by (simp_all add: response_lengths)
  let ?d = "v @ [0] @ drop (length v + 1) (take 128 rest)"
  have d: "length ?d = 128" using v(2) [of "take 128 rest"] rest(3) by simp
  let ?s = "s1\<lparr>sb := (front @ t @ ?l) @ ?d @ drop (sb_p s1 + length ?d) (sb s1), sb_p := sb_p s1 + length v\<rparr>"
  have "put_protocol a s = Inr ?s"
    using s1(1) v [of "take 128 rest"] rest d
    by (simp add: put_protocol_def crlf_def [symmetric] del: length_append length_drop)
  moreover have "responded front (t @ protocol_line proto) ?s"
    using r d s(2) Some by (auto simp: responded_def protocol_line_def response_lengths)
  ultimately show thesis by (rule that)
qed

text \<open>A request the server answers: a host, a key that is short enough, at most one protocol of that kind.\<close>

definition request_core :: "allocated_headers \<Rightarrow> byte list \<Rightarrow> byte list option \<Rightarrow> bool" where
  "request_core a key proto \<longleftrightarrow>
     (\<exists>n>0. lws_hdr_total_length a WSI_TOKEN_HOST = Some n) \<and>
     holds a WSI_TOKEN_KEY key \<and> length key < MAX_WEBSOCKET_04_KEY_LEN \<and>
     (case proto of None \<Rightarrow> lws_hdr_total_length a WSI_TOKEN_PROTOCOL = Some 0
      | Some v \<Rightarrow> holds a WSI_TOKEN_PROTOCOL v \<and> length v < 128)"

definition request_ok :: "allocated_headers \<Rightarrow> byte list \<Rightarrow> byte list option \<Rightarrow> bool" where
  "request_ok a key proto \<longleftrightarrow> request_core a key proto \<and> lws_hdr_total_length a WSI_TOKEN_EXTENSIONS = Some 0"

lemma cpyapp_strcpy:
  "cpyapp s str = Inr s' \<Longrightarrow> strcpy (sb s) (sb_p s) str = Some (sb s') \<and>
     s\<lparr>sb := sb s', sb_p := sb_p s + length str\<rparr> = s'"
  by (auto simp: cpyapp_def split: option.splits)

lemma crlf_twice: "crlf @ crlf = [0x0d, 0x0a, 0x0d, 0x0a]"
  by (simp add: crlf_def)

text \<open>The response up to the place where the extensions come.\<close>

lemma make_response_core:
  assumes req: "request_core a key proto" and m: "length m = 4096" and user: "hs_user_space_ok env"
  obtains s front where
    "make_response env a m = (case lws_extension_server_handshake env a s of Inl x \<Rightarrow> Inl x | Inr s' \<Rightarrow> cpyapp s' (crlf @ crlf))"
    "responded front (response_head @ accept_key key @ protocol_line proto) s"
proof -
  obtain n where host: "lws_hdr_total_length a WSI_TOKEN_HOST = Some n" "0 < n" using req by (auto simp: request_core_def)
  have key: "key \<noteq> []" "hdr_string a WSI_TOKEN_KEY = Some (Some key)" "lws_hdr_total_length a WSI_TOKEN_KEY = Some (length key)"
    "length key < 128"
    using req by (auto simp: request_core_def holds_def)
  obtain r where acc: "put_accept env key m = Inr (28, accept_key key @ 0 # r)" "length r = 4067"
    by (rule put_accept_key [OF m key(4)])
  let ?m1 = "accept_key key @ 0 # r" and ?front = "accept_key key @ 0 # take 117 r"
  let ?s0 = "\<lparr>sb = ?m1, sb_p = RESPONSE, hs_active = []\<rparr>"
  have s0: "responded ?front [] ?s0"
    using acc(2) exI [of "\<lambda>rest. r = take 117 r @ rest" "drop 117 r"]
    by (simp add: responded_def response_lengths)
  obtain s1 where s1: "cpyapp ?s0 response_head = Inr s1" "responded ?front response_head s1"
    using responded_cpyapp [OF s0, of response_head] by (auto simp: response_lengths)
  have str: "c_string (sb s1) 0 = Some (accept_key key)"
    using s1(2) c_string_prefix [OF accept_key_nonzero] by (auto simp: responded_def)
  obtain s2 where s2: "cpyapp s1 (accept_key key) = Inr s2" "responded ?front (response_head @ accept_key key) s2"
    using responded_cpyapp [OF s1(2), of "accept_key key"] by (auto simp: response_lengths)
  have s2': "strcpy (sb s1) (sb_p s1) (accept_key key) = Some (sb s2)" "s1\<lparr>sb := sb s2, sb_p := sb_p s1 + 28\<rparr> = s2"
    using cpyapp_strcpy [OF s2(1)] by (simp_all add: response_lengths)
  obtain s3 where s3: "put_protocol a s2 = Inr s3"
    "responded ?front ((response_head @ accept_key key) @ protocol_line proto) s3"
    using put_protocol_line [OF s2(2), where proto = proto and a = a] req by (auto simp: request_core_def response_lengths)
  have "make_response env a m =
      (case lws_extension_server_handshake env a s3 of Inl x \<Rightarrow> Inl x | Inr s' \<Rightarrow> cpyapp s' (crlf @ crlf))"
    unfolding crlf_twice using host key acc(1) user s1(1) str s2' s3(1) by (simp add: make_response_def)
  then show thesis using s3(2) that by simp
qed

lemma make_response_text:
  assumes req: "request_ok a key proto" and m: "length m = 4096" and user: "hs_user_space_ok env"
  obtains s front where "make_response env a m = Inr s" "responded front (response key proto) s"
proof -
  have core: "request_core a key proto" using req by (simp add: request_ok_def)
  obtain s3 front where s3:
    "make_response env a m = (case lws_extension_server_handshake env a s3 of Inl x \<Rightarrow> Inl x | Inr s' \<Rightarrow> cpyapp s' (crlf @ crlf))"
    "responded front (response_head @ accept_key key @ protocol_line proto) s3"
    by (rule make_response_core [OF core m user])
  have "length (protocol_line proto) \<le> 154"
    using core by (auto simp: request_core_def protocol_line_def response_lengths split: option.splits)
  then obtain s4 where s4: "cpyapp s3 (crlf @ crlf) = Inr s4" "responded front (response key proto) s4"
    using responded_cpyapp [OF s3(2), of "crlf @ crlf"] by (auto simp: response_lengths response_def)
  have "make_response env a m = Inr s4"
    using s3(1) s4(1) req by (simp add: request_ok_def lws_extension_server_handshake_def)
  then show thesis using s4(2) by (rule that)
qed

text \<open>A table that holds given values, one fragment each, as the parser leaves it.\<close>

definition hdr_table :: "(nat \<times> byte list) list \<Rightarrow> allocated_headers" where
  "hdr_table hs =
     (let strings = map (\<lambda>(h, v). v @ [0]) hs;
          frag = (\<lambda>i. \<lparr>frag_offset = length (concat (take i strings)), frag_len = length (snd (hs ! i)), next_frag = 0\<rparr>)
      in \<lparr>ah_next_frag_index = length hs, ah_pos = length (concat strings),
          ah_frag_index = map (\<lambda>h. case map_of (zip (map fst hs) (map Suc [0..<length hs])) h of None \<Rightarrow> 0 | Some i \<Rightarrow> i) [0..<79],
          ah_frags = \<lparr>frag_offset = 0, frag_len = 0, next_frag = 0\<rparr> # map frag [0..<length hs],
          ah_data = concat strings\<rparr>)"

lemma hdr_table_index:
  assumes "h < 79" "distinct (map fst hs)"
  shows "i < length hs \<Longrightarrow> fst (hs ! i) = h \<Longrightarrow> ah_frag_index (hdr_table hs) ! h = Suc i"
    and "h \<notin> fst ` set hs \<Longrightarrow> ah_frag_index (hdr_table hs) ! h = 0"
proof -
  show "ah_frag_index (hdr_table hs) ! h = Suc i" if "i < length hs" "fst (hs ! i) = h"
  proof -
    have "map_of (zip (map fst hs) (map Suc [0..<length hs])) (map fst hs ! i) = Some ((map Suc [0..<length hs]) ! i)"
      using that(1) assms(2) by (intro map_of_zip_nth) simp_all
    then show ?thesis using that assms(1) by (simp add: hdr_table_def Let_def)
  qed
  show "ah_frag_index (hdr_table hs) ! h = 0" if "h \<notin> fst ` set hs"
  proof -
    have none: "map_of (zip (map fst hs) (map Suc [0..<length hs])) h = None"
      using that by (simp add: map_of_zip_is_None)
    show ?thesis unfolding hdr_table_def Let_def using assms(1) by (simp only: nth_map allocated_headers.simps length_upt) (simp add: none)
  qed
qed

lemma concat_drop_nth:
  "i < length xs \<Longrightarrow> drop (length (concat (take i xs))) (concat xs) = xs ! i @ concat (drop (Suc i) xs)"
  by (metis append_eq_conv_conj append_take_drop_id concat.simps(2) concat_append Cons_nth_drop_Suc)

lemma hdr_table_holds:
  assumes "(h, v) \<in> set hs" "h < 79" "distinct (map fst hs)" "v \<noteq> []" "0 \<notin> set v"
  shows "holds (hdr_table hs) h v"
proof -
  obtain i where i: "i < length hs" "hs ! i = (h, v)" using assms(1) by (auto simp: in_set_conv_nth)
  let ?a = "hdr_table hs"
  have ix: "ah_frag_index ?a ! h = Suc i" using hdr_table_index(1) [OF assms(2,3) i(1)] i(2) by simp
  let ?s = "map (\<lambda>(h, v). v @ [0]) hs"
  have fr: "ah_frags ?a ! Suc i = \<lparr>frag_offset = length (concat (take i ?s)), frag_len = length v, next_frag = 0\<rparr>"
    using i by (simp add: hdr_table_def Let_def)
  have len: "Suc i < length (ah_frags ?a)" using i(1) by (simp add: hdr_table_def Let_def)
  then have chain: "frag_chain 158 (ah_frags ?a) (Suc i) = Some [Suc i]"
    using fr by (simp add: numeral_eq_Suc)
  have "drop (length (concat (take i ?s))) (concat ?s) = v @ 0 # concat (drop (Suc i) ?s)"
    using concat_drop_nth [of i ?s] i by simp
  then have s: "c_string (ah_data ?a) (length (concat (take i ?s))) = Some v"
    using assms(5) by (simp add: c_string_def hdr_table_def Let_def takeWhile_append)
  have l: "lws_hdr_total_length ?a h = Some (length v)" using ix chain fr by (simp add: lws_hdr_total_length_def)
  show ?thesis
    using assms(4,5) ix fr s l chain
    by (auto simp: holds_def hdr_string_def lws_hdr_simple_ptr_def lws_hdr_copy_def strcpy_def)
qed

lemma hdr_table_absent:
  assumes "h \<notin> fst ` set hs" "h < 79" "distinct (map fst hs)"
  shows "lws_hdr_total_length (hdr_table hs) h = Some 0" "hdr_string (hdr_table hs) h = None"
  using hdr_table_index(2) [OF assms(2,3,1)]
  by (simp_all add: lws_hdr_total_length_def hdr_string_def lws_hdr_simple_ptr_def)

lemma write_headers:
  assumes "tx_idle env w" "\<not> clean_buffer w" "tb_ok b" "tb_len b \<noteq> 0"
  shows "(\<exists>v. libwebsocket_write env w b LWS_WRITE_HTTP_HEADERS = Some (Inr (int (tb_len b), v, b)) \<and>
             stream v = wire w @ tb_bytes b) \<or>
         (\<exists>v. libwebsocket_write env w b LWS_WRITE_HTTP_HEADERS = Some (Inr (-1, v, b)) \<and>
             gives_up env (tx_clock w) (tb_bytes b))"
proof -
  have w: "libwebsocket_write env w b LWS_WRITE_HTTP_HEADERS =
      Some (map_sum id (\<lambda>(n, w1). (n, w1, b)) (lws_issue_raw env w b))"
    using assms(4) by (simp add: libwebsocket_write_def Let_def send_raw_def sends_directly_def)
  have "stream w = wire w" using assms(1) by (simp add: stream_def tx_idle_def pending_empty)
  then show ?thesis
    using length_tb_bytes [OF assms(3)] assms(2)
    by (cases rule: issue_raw_new [OF assms(1,3,4), case_names took failed]) (auto simp: w)
qed

lemma handshake_response:
  assumes "request_ok a key proto" "length m = 4096" "hs_user_space_ok env" "\<not> hs_reply_handled env"
    and "tx_idle tenv w" "\<not> clean_buffer w"
  shows "\<exists>v. handshake_0405 env tenv a m w = Some (Inr (-1, v, [])) \<and> gives_up tenv (tx_clock w) (response key proto) \<or>
           (handshake_0405 env tenv a m w = Some (Inr (0, v, [])) \<and> tx_state v = WSI_STATE_ESTABLISHED \<and>
            stream v = wire w @ response key proto)"
proof -
  obtain s front where s: "make_response env a m = Inr s" "responded front (response key proto) s"
    by (rule make_response_text [OF assms(1-3)])
  let ?b = "\<lparr>tb_id = 3, tb_mem = sb s, tb_off = RESPONSE, tb_len = sb_p s - RESPONSE\<rparr>"
  have b: "tb_ok ?b" "tb_len ?b \<noteq> 0" "tb_bytes ?b = response key proto" "hs_active s = []"
    using s(2) by (auto simp: responded_def tb_ok_def tb_bytes_def response_def response_lengths)
  have e: "handshake_0405 env tenv a m w =
     (case libwebsocket_write tenv w ?b LWS_WRITE_HTTP_HEADERS of
        None \<Rightarrow> None | Some (Inl e) \<Rightarrow> Some (Inl Hs_overrun)
      | Some (Inr (n, w1, _)) \<Rightarrow> if n \<noteq> int (tb_len ?b) then Some (Inr (-1, w1, []))
          else Some (Inr (0, w1\<lparr>tx_state := WSI_STATE_ESTABLISHED\<rparr>, [])))"
    using s(1) b(4) assms(4) by (auto simp: handshake_0405_def Let_def split: option.splits sum.splits)
  have st: "stream (v\<lparr>tx_state := x\<rparr>) = stream v" for v x
    by (simp add: stream_def pending_def truncated_buf_def)
  show ?thesis
    using write_headers [OF assms(5,6) b(1,2)]
  proof (elim disjE exE conjE)
    fix v assume v: "libwebsocket_write tenv w ?b LWS_WRITE_HTTP_HEADERS = Some (Inr (int (tb_len ?b), v, ?b))"
      "stream v = wire w @ tb_bytes ?b"
    then show ?thesis
      unfolding e by (intro exI [of _ "v\<lparr>tx_state := WSI_STATE_ESTABLISHED\<rparr>"])
        (simp add: b(3) [simplified] st)
  next
    fix v assume v: "libwebsocket_write tenv w ?b LWS_WRITE_HTTP_HEADERS = Some (Inr (-1, v, ?b))"
      "gives_up tenv (tx_clock w) (tb_bytes ?b)"
    show ?thesis unfolding e v(1) using v(2) by (intro exI [of _ v]) (simp add: b(3) [simplified])
  qed
qed

text \<open>
  C6. The server answers a websocket request as RFC 6455 asks. A request with a host, a key of less
  than 128 characters, at most one value of less than 128 characters for the protocol, and no list of
  extensions, on a connection with nothing stored to send and no active extension, met with user space
  to be had and no extension that sends the reply itself, gets the
  complete response on the stream, with the Base 64 encoding of the SHA-1 digest of the key and the
  GUID as its accept key and the protocol echoed, and the connection is established. The handshake
  reports failure only when sending those very bytes failed: the socket refused them with an error
  that is not a matter of time, or memory for what it did not take could not be had. (A request with a
  list of extensions has its own theorem below.)
\<close>

theorem handshake_answers_request:
  assumes "request_ok a key proto" "length m = 4096" "hs_user_space_ok env" "\<not> hs_reply_handled env"
    and "tx_idle tenv w" "\<not> clean_buffer w"
  shows "let answer = response_head @ rfc_b64 (fips_sha1 (key @ websocket_guid)) @
           (case proto of None \<Rightarrow> [] | Some p \<Rightarrow> crlf @ bytes ''Sec-WebSocket-Protocol: '' @ p) @ crlf @ crlf
         in \<exists>v. handshake_0405 env tenv a m w = Some (Inr (-1, v, [])) \<and> gives_up tenv (tx_clock w) answer \<or>
           handshake_0405 env tenv a m w = Some (Inr (0, v, [])) \<and> tx_state v = WSI_STATE_ESTABLISHED \<and>
             stream v = wire w @ answer"
  unfolding Let_def using handshake_response [OF assms] by (simp only: response_def accept_key_def protocol_line_def append_assoc)

definition sample_env :: hs_env where
  "sample_env = \<lparr>hs_ext_names = [bytes ''deflate-frame''], hs_confirm = (\<lambda>e. 0), hs_ext_malloc = (\<lambda>n. True),
     hs_user_space_ok = True, hs_reply_handled = False, hs_byte_order = LITTLE_ENDIAN\<rparr>"

theorem handshake_answers_request_witness:
  "\<exists>v. handshake_0405 sample_env all_env (hdr_table [(3, bytes ''a''), (32, bytes ''dGhlIHNhbXBsZSBub25jZQ=='')])
         (replicate 4096 0) ((new_tx LWS_CONNMODE_WS_SERVING)\<lparr>tx_state := WSI_STATE_HTTP\<rparr>) = Some (Inr (0, v, [])) \<and>
     tx_state v = WSI_STATE_ESTABLISHED \<and>
     stream v = response_head @ rfc_b64 (fips_sha1 (bytes ''dGhlIHNhbXBsZSBub25jZQ=='' @ websocket_guid)) @ crlf @ crlf"
proof -
  let ?a = "hdr_table [(3, bytes ''a''), (32, bytes ''dGhlIHNhbXBsZSBub25jZQ=='')]"
  let ?w = "(new_tx LWS_CONNMODE_WS_SERVING)\<lparr>tx_state := WSI_STATE_HTTP\<rparr>"
  have "holds ?a 3 (bytes ''a'')" "holds ?a 32 (bytes ''dGhlIHNhbXBsZSBub25jZQ=='')"
    by (rule hdr_table_holds; simp add: bytes_def)+
  then have "request_ok ?a (bytes ''dGhlIHNhbXBsZSBub25jZQ=='') None"
    by (simp add: request_ok_def request_core_def holds_def hdr_table_absent bytes_def)
  moreover have "tx_idle all_env ?w" "\<not> clean_buffer ?w"
    by (simp_all add: tx_idle_def tx_ok_def send_ok_def all_env_def new_tx_def)
  ultimately show ?thesis
    using handshake_answers_request [of ?a "bytes ''dGhlIHNhbXBsZSBub25jZQ==''" None "replicate 4096 0" sample_env all_env ?w]
    by (fastforce simp: sample_env_def new_tx_def all_env_takes Let_def)
qed

section \<open>The client checks the answer\<close>

lemma request_text_key:
  "sublist (bytes ''Sec-WebSocket-Key: '' @ key @ crlf) (request_text env uri host key origin protocols revision)"
proof -
  let ?pre = "bytes ''GET '' @ uri @ bytes '' HTTP/1.1'' @ crlf @ bytes ''Pragma: no-cache'' @ crlf @
     bytes ''Cache-Control: no-cache'' @ crlf @ bytes ''Host: '' @ host @ crlf @
     bytes ''Upgrade: websocket'' @ crlf @ bytes ''Connection: Upgrade'' @ crlf"
  obtain post where "request_text env uri host key origin protocols revision =
      ?pre @ (bytes ''Sec-WebSocket-Key: '' @ key @ crlf) @ post"
    unfolding request_text_def append_assoc by metis
  then show ?thesis by (metis sublist_appendI)
qed

lemma client_request:
  assumes "libwebsockets_generate_client_handshake env a revision = Inr (req, hash)"
  shows "length (cl_random env) = 16" "hash = accept_key (rfc_b64 (cl_random env))"
    "sublist (bytes ''Sec-WebSocket-Key: '' @ rfc_b64 (cl_random env) @ crlf) req"
proof -
  let ?r = "cl_random env"
  show r: "length ?r = 16" using assms by (simp add: libwebsockets_generate_client_handshake_def split: if_splits)
  have k: "lws_b64_encode_string ?r 40 = (24, rfc_b64 ?r @ [0])"
    using b64_room [of ?r 40] r by (simp add: length_rfc_b64)
  have h: "lws_b64_encode_string (fips_sha1 (key @ websocket_guid)) 30 = (28, accept_key key @ [0])" for key
    using b64_room [of "fips_sha1 (key @ websocket_guid)" 30] response_lengths(1) [of key]
    by (simp add: accept_key_def)
  have "\<exists>uri host origin protocols. req = request_text env uri host (rfc_b64 ?r) origin protocols revision \<and>
      hash = accept_key (rfc_b64 ?r)"
    using assms r by (auto simp: libwebsockets_generate_client_handshake_def Let_def k h libwebsockets_SHA1_fips
        split: option.splits)
  then show "hash = accept_key (rfc_b64 ?r)" "sublist (bytes ''Sec-WebSocket-Key: '' @ rfc_b64 ?r @ crlf) req"
    using request_text_key by auto
qed

lemma takeWhile_less: "x \<in> set xs \<Longrightarrow> length (takeWhile (\<lambda>y. y \<noteq> x) xs) < length xs"
  by (induction xs) auto

lemma select_protocol_range: "select_protocol env a = Inr n \<Longrightarrow> n = 0 \<or> n < length (cl_protocols env)"
  by (auto simp: select_protocol_def split: option.splits if_splits intro: takeWhile_less)

lemma require_word_Inr: "require_word a h word = Inr u \<longleftrightarrow> (\<exists>s. hdr_string a h = Some (Some s) \<and> strtolower s = word)"
  by (auto simp: require_word_def split: option.splits)

lemma check_accept_Inr:
  "check_accept env a hash protocol active = Inr u \<longleftrightarrow>
     hdr_string a WSI_TOKEN_ACCEPT = Some (Some hash) \<and> cl_user_space_ok env \<and> cl_rx_buffer_ok env \<and> cl_setsockopt_ok env"
  by (auto simp: check_accept_def split: option.splits)

lemma interpret_Inr:
  "lws_client_interpret_server_handshake env a hash m = Inr (protocol, active) \<longleftrightarrow>
     (\<exists>n p. lws_hdr_total_length a WSI_TOKEN_ACCEPT = Some (Suc n) \<and> lws_hdr_simple_ptr a WSI_TOKEN_HTTP = Some p \<and>
        take 3 (drop p (ah_data a)) = bytes ''101'') \<and>
     require_word a WSI_TOKEN_UPGRADE (bytes ''websocket'') = Inr () \<and>
     require_word a WSI_TOKEN_CONNECTION (bytes ''upgrade'') = Inr () \<and>
     select_protocol env a = Inr protocol \<and> check_extensions env protocol a m = Inr active \<and>
     check_accept env a hash protocol active = Inr ()"
  by (auto simp: lws_client_interpret_server_handshake_def map_sum_def split: option.splits sum.splits nat.splits)



definition sample_client :: client_env where
  "sample_client = \<lparr>cl_random = replicate 16 0x41, cl_append = [], cl_ext_names = [], cl_veto = (\<lambda>e. 0), cl_confirm = (\<lambda>e. 0),
     cl_protocols = [bytes ''chat''], cl_ext_malloc = (\<lambda>n. True), cl_user_space_ok = True, cl_rx_buffer_ok = True,
     cl_setsockopt_ok = True, cl_byte_order = LITTLE_ENDIAN\<rparr>"

text \<open>Lists of names as the headers hold them, and the name of an extension that such a list may hold.\<close>

fun protocol_list :: "byte list \<Rightarrow> byte list list \<Rightarrow> byte list" where
  "protocol_list sep [] = []"
| "protocol_list sep [n] = n"
| "protocol_list sep (n # ns) = n @ sep @ protocol_list sep ns"

definition list_tail :: "byte list \<Rightarrow> byte list list \<Rightarrow> byte list" where
  "list_tail sep ns = (if ns = [] then [] else sep @ protocol_list sep ns)"

lemma protocol_list_Cons: "protocol_list sep (n # ns) = n @ list_tail sep ns"
  by (cases ns) (simp_all add: list_tail_def)

definition ext_name_ok :: "byte list \<Rightarrow> bool" where
  "ext_name_ok e \<longleftrightarrow> e \<noteq> [] \<and> length e \<le> 127 \<and> set e \<inter> {0, 0x2c, 0x20, 0x09} = {}"

abbreviation (input) position :: "'a \<Rightarrow> 'a list \<Rightarrow> nat" where
  "position x xs \<equiv> length (takeWhile (\<lambda>y. y \<noteq> x) xs)"

text \<open>
  The headers of an answer that opens a connection, in the header table of the client. The accept key
  comes from the request; protocol and extensions are apart.
\<close>

definition good_answer :: "allocated_headers \<Rightarrow> byte list \<Rightarrow> bool" where
  "good_answer a accept \<longleftrightarrow>
     (\<exists>status. holds a WSI_TOKEN_HTTP status \<and> take 3 status = bytes ''101'') \<and>
     (\<exists>u. holds a WSI_TOKEN_UPGRADE u \<and> strtolower u = bytes ''websocket'') \<and>
     (\<exists>c. holds a WSI_TOKEN_CONNECTION c \<and> strtolower c = bytes ''upgrade'') \<and>
     holds a WSI_TOKEN_ACCEPT accept"

text \<open>
  The protocol the answer names: none, which stands for the first of the client, or the first name of
  the list the client sent; \<open>pr\<close> is its place among the protocols of the client.
\<close>

definition answers_protocol :: "client_env \<Rightarrow> allocated_headers \<Rightarrow> nat \<Rightarrow> bool" where
  "answers_protocol env a pr \<longleftrightarrow>
     lws_hdr_total_length a WSI_TOKEN_PROTOCOL = Some 0 \<and> pr = 0 \<or>
     (\<exists>p rest. holds a WSI_TOKEN_PROTOCOL p \<and> hdr_string a WSI_TOKEN_CLIENT_SENT_PROTOCOLS = Some (Some (p @ rest)) \<and>
        (rest = [] \<or> hd rest = 0x2c) \<and> p \<in> set (cl_protocols env) \<and> pr = position p (cl_protocols env))"

text \<open>
  The extensions the answer turns on: none, or up to three that the client supports and can set up,
  in a list that fits the buffer it is copied to.
\<close>

definition answers_extensions :: "client_env \<Rightarrow> allocated_headers \<Rightarrow> byte list \<Rightarrow> nat list \<Rightarrow> bool" where
  "answers_extensions env a m active \<longleftrightarrow>
     lws_hdr_total_length a WSI_TOKEN_EXTENSIONS = Some 0 \<and> active = [] \<or>
     (\<exists>sep names. sep \<in> {[0x2c], [0x2c, 0x20]} \<and> names \<noteq> [] \<and> length names \<le> LWS_MAX_EXTENSIONS_ACTIVE \<and>
        holds a WSI_TOKEN_EXTENSIONS (protocol_list sep names) \<and> length (protocol_list sep names) < length m \<and>
        (\<forall>e\<in>set names. ext_name_ok e \<and> e \<in> set (cl_ext_names env)) \<and> distinct (cl_ext_names env) \<and>
        (\<forall>i<length names. cl_ext_malloc env i) \<and> active = map (\<lambda>e. position e (cl_ext_names env)) names)"

lemma protocol_selected:
  assumes "answers_protocol env a pr"
  shows "select_protocol env a = Inr pr"
proof -
  have o: "protocol_offered p (p @ rest)" if "p \<noteq> []" "rest = [] \<or> hd rest = 0x2c" for p rest
    using that by (subst protocol_offered.simps) (cases rest; simp)
  then have "protocol_offered p p" if "p \<noteq> []" for p using that o [of p "[]"] by simp
  then show ?thesis using assms o by (auto simp: answers_protocol_def select_protocol_def holds_def)
qed

lemma match_one:
  "distinct es \<Longrightarrow> client_match_exts env pr e i es active =
     (if e \<notin> set es then Inr active
      else if LWS_MAX_EXTENSIONS_ACTIVE \<le> length active then Inl Client_overrun
      else if \<not> cl_ext_malloc env (length active) then Inl (Client_bail2 (Some pr) active)
      else Inr (active @ [i + position e es]))"
  by (induction es arbitrary: i active) auto

lemma client_scan_name:
  "set e \<inter> {0, 0x2c, 0x20, 0x09} = {} \<Longrightarrow> length name + length e \<le> 127 \<Longrightarrow>
     client_scan_exts env pr (e @ r) name active = client_scan_exts env pr r (name @ e) active"
  by (induction e arbitrary: name) auto

lemma client_scan_list:
  assumes "sep \<in> {[0x2c], [0x2c, 0x20]}" "distinct (cl_ext_names env)"
  shows "\<forall>e\<in>set names. ext_name_ok e \<and> e \<in> set (cl_ext_names env) \<Longrightarrow> names \<noteq> [] \<Longrightarrow>
    length active + length names \<le> 3 \<Longrightarrow> \<forall>i<length active + length names. cl_ext_malloc env i \<Longrightarrow>
    client_scan_exts env pr (protocol_list sep names @ 0 # r) [] active =
      Inr (active @ map (\<lambda>e. position e (cl_ext_names env)) names)"
proof (induction names arbitrary: active)
  case Nil
  then show ?case by simp
next
  case (Cons e names)
  have e: "e \<noteq> []" "e \<in> set (cl_ext_names env)" "length active < 3" "cl_ext_malloc env (length active)"
    using Cons.prems by (auto simp: ext_name_ok_def)
  let ?a = "active @ [position e (cl_ext_names env)]"
  have s: "client_scan_exts env pr (e @ t) [] active = client_scan_exts env pr t e active" for t
    using Cons.prems(1) by (simp add: client_scan_name ext_name_ok_def)
  show ?case
  proof (cases "names = []")
    case True
    then show ?thesis using e by (simp add: s match_one [OF assms(2)])
  next
    case False
    have "client_scan_exts env pr (sep @ t) e active = client_scan_exts env pr t [] ?a" for t
      using assms(1) e by (auto simp: match_one [OF assms(2)])
    then show ?thesis
      using Cons.IH [of ?a] Cons.prems False by (simp add: protocol_list_Cons list_tail_def s)
  qed
qed

lemma extensions_checked:
  assumes "answers_extensions env a m active"
  shows "check_extensions env pr a m = Inr active"
  using assms unfolding answers_extensions_def
proof (elim disjE exE conjE)
  fix sep names
  assume *: "sep \<in> {[0x2c], [0x2c, 0x20]}" "names \<noteq> []" "length names \<le> 3"
    "holds a WSI_TOKEN_EXTENSIONS (protocol_list sep names)" "length (protocol_list sep names) < length m"
    "\<forall>e\<in>set names. ext_name_ok e \<and> e \<in> set (cl_ext_names env)" "distinct (cl_ext_names env)"
    "\<forall>i<length names. cl_ext_malloc env i" "active = map (\<lambda>e. position e (cl_ext_names env)) names"
  then show ?thesis
    using client_scan_list [OF *(1,7,6,2), of "[]" pr] by (simp add: check_extensions_def holds_def)
qed (simp add: check_extensions_def)

lemma take_c_string: "c_string d p = Some s \<Longrightarrow> take (length s) (drop p d) = s"
  by (auto simp: c_string_def takeWhile_eq_take [symmetric] split: if_splits)

lemma holds_take:
  assumes "holds a h s" "n \<le> length s"
  obtains p where "lws_hdr_simple_ptr a h = Some p" "take n (drop p (ah_data a)) = take n s"
proof -
  obtain p where p: "lws_hdr_simple_ptr a h = Some p" "c_string (ah_data a) p = Some s"
    using assms(1) by (auto simp: holds_def hdr_string_def)
  have "take n (drop p (ah_data a)) = take n (take (length s) (drop p (ah_data a)))"
    using assms(2) by (simp add: min_def)
  then show thesis using that [OF p(1)] take_c_string [OF p(2)] by simp
qed

lemma interpret_good:
  assumes good: "good_answer a accept" "answers_protocol env a pr" "answers_extensions env a m active"
    and env: "cl_user_space_ok env" "cl_rx_buffer_ok env" "cl_setsockopt_ok env"
  shows "lws_client_interpret_server_handshake env a hash m = Inr (pr, active) \<longleftrightarrow> accept = hash"
proof -
  obtain status where st: "holds a WSI_TOKEN_HTTP status" "take 3 status = bytes ''101''"
    using good(1) by (auto simp: good_answer_def)
  have "3 \<le> length status" using arg_cong [OF st(2), of length] by simp
  then obtain p where p: "lws_hdr_simple_ptr a WSI_TOKEN_HTTP = Some p" "take 3 (drop p (ah_data a)) = bytes ''101''"
    using holds_take [OF st(1)] st(2) by metis
  have "\<exists>n. length accept = Suc n"
    using good(1) by (auto simp: good_answer_def holds_def gr0_conv_Suc [symmetric])
  then show ?thesis
    using good(1) env p protocol_selected [OF good(2)] extensions_checked [OF good(3)]
    by (auto simp: interpret_Inr good_answer_def holds_def require_word_Inr check_accept_Inr)
qed

definition sample_request :: allocated_headers where
  "sample_request = hdr_table [(76, bytes ''/''), (77, bytes ''a'')]"

definition sample_answer :: allocated_headers where
  "sample_answer = hdr_table [(4, bytes ''Upgrade''), (5, bytes ''WebSocket''), (13, accept_key (rfc_b64 (cl_random sample_client))),
     (15, bytes ''101'')]"

lemma sample_generated:
  obtains req hash where "libwebsockets_generate_client_handshake sample_client sample_request 13 = Inr (req, hash)"
proof -
  have "holds sample_request 76 (bytes ''/'')" "holds sample_request 77 (bytes ''a'')"
    unfolding sample_request_def by (rule hdr_table_holds; simp add: bytes_def)+
  moreover have "hdr_string sample_request 78 = None" "hdr_string sample_request 74 = None"
    unfolding sample_request_def by (rule hdr_table_absent; simp)+
  ultimately show thesis
    using that by (simp add: libwebsockets_generate_client_handshake_def Let_def holds_def optional_line_def sample_client_def)
qed

lemma sample_answer_good:
  "good_answer sample_answer (accept_key (rfc_b64 (cl_random sample_client)))"
  "answers_protocol sample_client sample_answer 0" "answers_extensions sample_client sample_answer m []"
proof -
  let ?k = "accept_key (rfc_b64 (cl_random sample_client))"
  have k: "?k \<noteq> []" "0 \<notin> set ?k" using response_lengths(1) [of "rfc_b64 (cl_random sample_client)"] accept_key_nonzero by auto
  have h: "holds sample_answer 4 (bytes ''Upgrade'')" "holds sample_answer 5 (bytes ''WebSocket'')"
    "holds sample_answer 13 ?k" "holds sample_answer 15 (bytes ''101'')"
    unfolding sample_answer_def by (rule hdr_table_holds; simp add: bytes_def k)+
  have "lws_hdr_total_length sample_answer 12 = Some 0" "lws_hdr_total_length sample_answer 9 = Some 0"
    unfolding sample_answer_def by (rule hdr_table_absent; simp)+
  moreover have "strtolower (bytes ''Upgrade'') = bytes ''upgrade''" "strtolower (bytes ''WebSocket'') = bytes ''websocket''"
    by (simp_all add: strtolower_def bytes_def)
  ultimately show "good_answer sample_answer ?k" "answers_protocol sample_client sample_answer 0"
    "answers_extensions sample_client sample_answer m []"
    using h by (auto simp: bytes_def good_answer_def answers_protocol_def answers_extensions_def)
qed

text \<open>
  C20. A client is never talked into a connection: whatever the answer, the handshake succeeds only
  with status 101, the two upgrade headers and the accept key that belongs to the key the client
  itself sent, and on a protocol of its own. Nothing is said of the number of extensions the answer
  turns on: the code does not limit it, and the overflow of the three slots by a fourth is the outcome
  \<open>Client_overrun\<close> of \<open>client_match_exts\<close>.
\<close>

theorem client_accepts_only_its_key:
  assumes "libwebsockets_generate_client_handshake env a0 revision = Inr (req, hash)"
    and "lws_client_interpret_server_handshake env a hash m = Inr (protocol, active)"
  shows "sublist (bytes ''Sec-WebSocket-Key: '' @ rfc_b64 (cl_random env) @ crlf) req \<and>
     hdr_string a WSI_TOKEN_ACCEPT = Some (Some (rfc_b64 (fips_sha1 (rfc_b64 (cl_random env) @ websocket_guid)))) \<and>
     (\<exists>p. lws_hdr_simple_ptr a WSI_TOKEN_HTTP = Some p \<and> take 3 (drop p (ah_data a)) = bytes ''101'') \<and>
     (\<exists>u. hdr_string a WSI_TOKEN_UPGRADE = Some (Some u) \<and> strtolower u = bytes ''websocket'') \<and>
     (\<exists>c. hdr_string a WSI_TOKEN_CONNECTION = Some (Some c) \<and> strtolower c = bytes ''upgrade'') \<and>
     (protocol = 0 \<or> protocol < length (cl_protocols env))"
  using assms(2) client_request [OF assms(1)] select_protocol_range
  by (fastforce simp: interpret_Inr require_word_Inr check_accept_Inr accept_key_def)

theorem client_accepts_only_its_key_witness:
  "\<exists>req hash. libwebsockets_generate_client_handshake sample_client sample_request 13 = Inr (req, hash) \<and>
     lws_client_interpret_server_handshake sample_client sample_answer hash [] = Inr (0, []) \<and>
     hdr_string sample_answer 13 = Some (Some (rfc_b64 (fips_sha1 (rfc_b64 (cl_random sample_client) @ websocket_guid))))"
proof -
  obtain req hash where g: "libwebsockets_generate_client_handshake sample_client sample_request 13 = Inr (req, hash)"
    by (rule sample_generated)
  moreover have i: "lws_client_interpret_server_handshake sample_client sample_answer hash [] = Inr (0, [])"
    using interpret_good [OF sample_answer_good] client_request(2) [OF g] by (simp add: sample_client_def)
  ultimately show ?thesis using client_accepts_only_its_key [OF g i] by auto
qed

text \<open>
  Client and server of this library understand each other: an answer with the headers the server
  puts in its response establishes the connection, on the protocol and with the extensions it names,
  exactly when its accept key is the one \<open>handshake_0405\<close> computes from the key in the client's request.
\<close>

theorem client_accepts_its_server:
  assumes "libwebsockets_generate_client_handshake env a0 revision = Inr (req, hash)"
    and "good_answer a accept" "answers_protocol env a pr" "answers_extensions env a m active"
    and "cl_user_space_ok env" "cl_rx_buffer_ok env" "cl_setsockopt_ok env"
  shows "\<exists>key. sublist (bytes ''Sec-WebSocket-Key: '' @ key @ crlf) req \<and>
     (lws_client_interpret_server_handshake env a hash m = Inr (pr, active) \<longleftrightarrow>
        (\<exists>r. put_accept senv key (replicate 4096 0) = Inr (28, accept @ 0 # r)))"
proof (intro exI conjI)
  let ?key = "rfc_b64 (cl_random env)"
  note req = client_request [OF assms(1)]
  show "sublist (bytes ''Sec-WebSocket-Key: '' @ ?key @ crlf) req" by (rule req(3))
  have acc: "0 \<notin> set accept" using assms(2) by (auto simp: good_answer_def holds_def)
  have key: "length ?key < 128" using req(1) by (simp add: length_rfc_b64)
  obtain r where r: "put_accept senv ?key (replicate 4096 0) = Inr (28, accept_key ?key @ 0 # r)"
    by (rule put_accept_key [OF _ key, of "replicate 4096 0" senv]) simp_all
  show "lws_client_interpret_server_handshake env a hash m = Inr (pr, active) \<longleftrightarrow>
        (\<exists>r. put_accept senv ?key (replicate 4096 0) = Inr (28, accept @ 0 # r))"
    unfolding interpret_good [OF assms(2-7)] req(2) r using c_string_prefix [OF accept_key_nonzero] c_string_prefix [OF acc]
    by (metis Pair_inject option.inject sum.inject(2))
qed

theorem client_accepts_its_server_witness:
  "\<exists>req hash key. libwebsockets_generate_client_handshake sample_client sample_request 13 = Inr (req, hash) \<and>
     sublist (bytes ''Sec-WebSocket-Key: '' @ key @ crlf) req \<and>
     (lws_client_interpret_server_handshake sample_client sample_answer hash [] = Inr (0, []) \<longleftrightarrow>
       (\<exists>r. put_accept sample_env key (replicate 4096 0) =
              Inr (28, accept_key (rfc_b64 (cl_random sample_client)) @ 0 # r)))"
proof -
  obtain req hash where g: "libwebsockets_generate_client_handshake sample_client sample_request 13 = Inr (req, hash)"
    by (rule sample_generated)
  then show ?thesis
    using client_accepts_its_server [OF g sample_answer_good, where senv = sample_env] by (auto simp: sample_client_def)
qed


section \<open>The list of protocols\<close>

definition plain_name :: "byte list \<Rightarrow> bool" where
  "plain_name n \<longleftrightarrow> n \<noteq> [] \<and> 0x2c \<notin> set n \<and> 0x20 \<notin> set n"

lemma skip_comma: "0x2c \<notin> set n \<Longrightarrow> skip_to 0x2c (n @ t) = skip_to 0x2c t"
  by (induction n) (auto simp: skip_to_def)

lemma skip_tail:
  assumes "sep \<in> {[0x2c], [0x2c, 0x20]}" "\<forall>n\<in>set ns. plain_name n"
  shows "skip_to 0x2c (list_tail sep ns) = list_tail sep ns"
  using assms by (auto simp: list_tail_def skip_to_def)

lemma no_space_list: "\<forall>n\<in>set ns. plain_name n \<Longrightarrow> 0x20 \<notin> set (protocol_list [0x2c] ns)"
  by (induction "[0x2c :: byte]" ns rule: protocol_list.induct) (auto simp: plain_name_def)

lemma skip_both:
  assumes "sep \<in> {[0x2c], [0x2c, 0x20]}" "\<forall>n\<in>set (m # ns). plain_name n" "x \<in> {[], [0x20]}"
  shows "skip_to 0x20 (skip_to 0x2c (x @ m @ list_tail sep ns)) \<in> {[], 0x20 # protocol_list sep ns}"
proof -
  have "skip_to 0x2c (x @ m @ list_tail sep ns) = list_tail sep ns"
    using assms skip_comma [of "x @ m"] skip_tail [of sep ns] by (auto simp: plain_name_def)
  moreover have "skip_to 0x20 (list_tail sep ns) \<in> {[], 0x20 # protocol_list sep ns}"
    using assms no_space_list [of ns] by (auto simp: list_tail_def skip_to_def dropWhile_eq_Nil_conv)
  ultimately show ?thesis by simp
qed

text \<open>From a space on, no protocol is found any more.\<close>

lemma offered_after_space:
  assumes "plain_name p" "sep \<in> {[0x2c], [0x2c, 0x20]}" "\<forall>n\<in>set ns. plain_name n"
  shows "\<not> protocol_offered p (0x20 # protocol_list sep ns)"
  using assms(3)
proof (induction ns)
  case Nil
  have "take (length p) [0x20] \<noteq> p" using assms(1) by (cases p) (auto simp: plain_name_def)
  then show ?case
    by (simp add: protocol_offered.simps [of p "[0x20]"] protocol_offered.simps [of p "[]"] skip_to_def)
next
  case (Cons n ns)
  let ?pc = "0x20 # protocol_list sep (n # ns)"
  have m: "take (length p) ?pc \<noteq> p" using assms(1) by (cases p) (auto simp: plain_name_def)
  have "skip_to 0x20 (skip_to 0x2c ?pc) \<in> {[], 0x20 # protocol_list sep ns}"
    using skip_both [OF assms(2) Cons.prems, of "[0x20]"] by (simp add: protocol_list_Cons)
  then show ?case using Cons m
    by (subst protocol_offered.simps) (auto simp: protocol_offered.simps [of p "[]"])
qed

lemma before_comma: "0x2c \<notin> set p \<Longrightarrow> r = [] \<or> hd r = 0x2c \<Longrightarrow> takeWhile (\<lambda>c. c \<noteq> 0x2c) (p @ r) = (p :: byte list)"
  by (induction p) (cases r; auto)+

lemma offered_first:
  assumes "plain_name p" "sep \<in> {[0x2c], [0x2c, 0x20]}" "\<forall>m\<in>set (n # ns). plain_name m"
  shows "protocol_offered p (protocol_list sep (n # ns)) \<longleftrightarrow> p = n"
proof -
  let ?pc = "protocol_list sep (n # ns)"
  have ne: "?pc \<noteq> []" using assms(3) by (auto simp: protocol_list_Cons plain_name_def)
  have "take (length p) ?pc = p \<and> (length ?pc = length p \<or> ?pc ! length p = 0x2c) \<longleftrightarrow> p = n"
  proof
    assume p: "take (length p) ?pc = p \<and> (length ?pc = length p \<or> ?pc ! length p = 0x2c)"
    then obtain r where r: "n @ list_tail sep ns = p @ r" "r = [] \<or> hd r = 0x2c"
      using append_take_drop_id [of "length p" ?pc] hd_drop_conv_nth [of "length p" ?pc]
      by (metis append.right_neutral drop_all le_less_linear order_refl protocol_list_Cons take_all)
    have t: "list_tail sep ns = [] \<or> hd (list_tail sep ns) = 0x2c" using assms(2) by (auto simp: list_tail_def)
    have "0x2c \<notin> set p" "0x2c \<notin> set n" using assms by (auto simp: plain_name_def)
    with r t show "p = n" using before_comma [of p r] before_comma [of n "list_tail sep ns"] by simp
  next
    assume "p = n"
    then show "take (length p) ?pc = p \<and> (length ?pc = length p \<or> ?pc ! length p = 0x2c)"
      using assms(2) by (auto simp: protocol_list_Cons list_tail_def nth_append)
  qed
  moreover have "\<not> protocol_offered p (skip_to 0x20 (skip_to 0x2c ?pc))"
    using skip_both [OF assms(2,3), of "[]"] offered_after_space [OF assms(1,2), of ns] assms(3)
    by (auto simp: protocol_list_Cons protocol_offered.simps [of p "[]"])
  ultimately show ?thesis using ne by (subst protocol_offered.simps) auto
qed

text \<open>
  A client that offers several protocols can only ever use the first: whether the names are
  separated by a comma or by a comma and a space, the check of the server's choice finds the first
  name of the list and no other, so a server that picks a later one is refused.
\<close>

theorem only_first_protocol_matches:
  assumes "plain_name p" "sep = [0x2c] \<or> sep = [0x2c, 0x20]" "\<forall>m\<in>set (n # ns). plain_name m"
    and "holds a WSI_TOKEN_PROTOCOL p" "hdr_string a WSI_TOKEN_CLIENT_SENT_PROTOCOLS = Some (Some (protocol_list sep (n # ns)))"
  shows "select_protocol env a =
    (if p \<noteq> n then Inl (Client_bail2 (Some 0) [])
     else if p \<in> set (cl_protocols env) then Inr (length (takeWhile (\<lambda>x. x \<noteq> p) (cl_protocols env)))
     else Inl (Client_bail2 None []))"
  using offered_first [of p sep n ns] assms by (auto simp: select_protocol_def holds_def)

theorem only_first_protocol_matches_witness:
  "select_protocol sample_client
     (hdr_table [(12, bytes ''chat''), (74, bytes ''echo, chat'')]) = Inl (Client_bail2 (Some 0) [])"
proof -
  let ?a = "hdr_table [(12, bytes ''chat''), (74, bytes ''echo, chat'')]"
  have "holds ?a 12 (bytes ''chat'')" "holds ?a 74 (bytes ''echo, chat'')"
    by (rule hdr_table_holds; simp add: bytes_def)+
  then show ?thesis
    using only_first_protocol_matches [of "bytes ''chat''" "[0x2c, 0x20]" "bytes ''echo''" "[bytes ''chat'']" ?a sample_client]
    by (simp add: plain_name_def holds_def bytes_def)
qed


section \<open>The list of extensions\<close>

text \<open>The steps of the server leave the list in front of the response alone.\<close>

definition grown :: "hs_state \<Rightarrow> hs_state \<Rightarrow> bool" where
  "grown s s' \<longleftrightarrow> take RESPONSE (sb s') = take RESPONSE (sb s) \<and> length (sb s') = length (sb s) \<and>
     RESPONSE \<le> sb_p s' \<and> length (hs_active s) \<le> length (hs_active s')"

lemma cpyapp_grown: "cpyapp s str = Inr s' \<Longrightarrow> RESPONSE \<le> sb_p s \<Longrightarrow> grown s s' \<and> hs_active s' = hs_active s"
  by (auto simp: cpyapp_def strcpy_def grown_def split: option.splits if_splits)

lemma putch_grown: "putch s c = Inr s' \<Longrightarrow> RESPONSE \<le> sb_p s \<Longrightarrow> grown s s' \<and> hs_active s' = hs_active s"
  by (auto simp: putch_def grown_def split: if_splits)

lemma grown_trans: "grown s t \<Longrightarrow> grown t u \<Longrightarrow> grown s u"
  by (auto simp: grown_def)

lemma match_exts_grown:
  assumes "\<forall>n. hs_ext_malloc env n" "hs_confirm env e = 0"
  shows "RESPONSE \<le> sb_p s \<Longrightarrow> length (hs_active s) \<le> 3 \<Longrightarrow>
    match_exts env e i es cnt s = Inl Hs_overrun \<or>
    (\<exists>cnt' s'. match_exts env e i es cnt s = Inr (cnt', s') \<and> grown s s' \<and> length (hs_active s') \<le> 3 \<and>
       (e \<in> set es \<longrightarrow> length (hs_active s) < length (hs_active s')))"
proof (induction es arbitrary: i cnt s)
  case Nil
  then show ?case by (simp add: grown_def)
next
  case (Cons x es)
  show ?case
  proof (cases "e = x")
    case False
    then show ?thesis using Cons.IH [OF Cons.prems] by auto
  next
    case True
    define r where "r = (if cnt \<noteq> 0 then putch s 0x2c
              else cpyapp s ([0x0d, 0x0a] @ bytes ''Sec-WebSocket-Extensions: ''))"
    show ?thesis
    proof (cases r)
      case (Inl y)
      then have "y = Hs_overrun" by (auto simp: r_def putch_def cpyapp_def split: if_splits option.splits)
      then show ?thesis using Inl True assms(2) by (simp add: r_def)
    next
      case (Inr s1)
      then have s1: "grown s s1" "hs_active s1 = hs_active s"
        using cpyapp_grown [OF _ Cons.prems(1)] putch_grown [OF _ Cons.prems(1)] by (auto simp: r_def split: if_splits)
      show ?thesis
      proof (cases "cpyapp s1 e")
        case (Inl y)
        then have "y = Hs_overrun" by (auto simp: cpyapp_def split: option.splits)
        then show ?thesis using Inl Inr True assms(2) by (simp add: r_def)
      next
        case s2: (Inr s2)
        have g: "grown s s2" "hs_active s2 = hs_active s" "RESPONSE \<le> sb_p s2"
          using cpyapp_grown [OF s2] s1 grown_trans by (auto simp: grown_def)
        let ?s3 = "s2\<lparr>hs_active := hs_active s2 @ [i]\<rparr>"
        have m: "match_exts env e i (x # es) cnt s =
            (if 3 \<le> length (hs_active s) then Inl Hs_overrun else match_exts env e (i + 1) es (cnt + 1) ?s3)"
          using Inr s2 True assms g(2) by (simp add: r_def)
        show ?thesis
        proof (cases "3 \<le> length (hs_active s)")
          case True
          then show ?thesis using m by simp
        next
          case False
          then have "grown s ?s3" "RESPONSE \<le> sb_p ?s3" "length (hs_active ?s3) \<le> 3"
            using g Cons.prems by (auto simp: grown_def)
          then show ?thesis using Cons.IH [of ?s3 "i + 1" "cnt + 1"] m False g(2) grown_trans
            by (fastforce simp: grown_def)
        qed
      qed
    qed
  qed
qed

text \<open>A name of the list is read up to its separator.\<close>

lemma scan_name:
  assumes "drop (length (sb s) - k) (sb s) = e @ r" "k \<le> length (sb s)" "set e \<inter> {0, 0x2c, 0x20, 0x09} = {}"
    "length name + length e \<le> 127"
  shows "scan_exts env k name cnt s = scan_exts env (k - length e) (name @ e) cnt s"
  using assms
proof (induction e arbitrary: k name)
  case Nil
  then show ?case by simp
next
  case (Cons c e)
  then obtain k' where k: "k = Suc k'" by (cases k) auto
  have c: "sb s ! (length (sb s) - Suc k') = c"
    using Cons.prems(1,2) unfolding k by (metis append_Cons hd_drop_conv_nth list.sel(1) Suc_diff_Suc diff_less diff_less_Suc zero_less_Suc less_le_trans)
  have "drop (length (sb s) - k') (sb s) = e @ r"
    using Cons.prems(1,2) unfolding k by (metis append_Cons drop_Suc_Cons drop0 drop_drop Suc_diff_le plus_1_eq_Suc diff_Suc_Suc)
  then show ?case using Cons.IH [of k' "name @ [c]"] Cons.prems c by (simp add: k)
qed


lemma take_drop_front: "off + n \<le> b \<Longrightarrow> take b xs = take b ys \<Longrightarrow> take n (drop off xs) = take n (drop off ys)"
  by (metis add.commute drop_take min.absorb1 take_drop take_take)

lemma take_prefix: "take n xs = a \<Longrightarrow> \<exists>r. xs = a @ r"
  by (metis append_take_drop_id)

lemma last_places: "k - m = Suc k' \<Longrightarrow> k \<le> n \<Longrightarrow> n - Suc k' = n - k + m" for k m n :: nat
  by simp

lemma scan_repeated:
  assumes "\<forall>n. hs_ext_malloc env n" "hs_confirm env e = 0" "e \<in> set (hs_ext_names env)" "ext_name_ok e"
  shows "take (length l + 1) (drop (length (sb s) - k) (sb s)) = l @ [0] \<Longrightarrow>
    l = protocol_list [0x2c] (replicate (Suc n) e) \<Longrightarrow>
    k \<le> length (sb s) \<Longrightarrow> length (sb s) - k + length l + 1 \<le> RESPONSE \<Longrightarrow> RESPONSE \<le> sb_p s \<Longrightarrow>
    length (hs_active s) \<le> 3 \<Longrightarrow> 3 < length (hs_active s) + Suc n \<Longrightarrow>
    scan_exts env k [] cnt s = Inl Hs_overrun"
proof (induction n arbitrary: k cnt s l)
  case (0 k cnt s l)
  have l: "l = e" using 0 by simp
  obtain r where r: "drop (length (sb s) - k) (sb s) = e @ 0 # r"
    using take_prefix [OF 0(1)] by (auto simp: l)
  have len: "length e < k" using arg_cong [OF r, of length] 0(3) by simp
  then obtain k' where k': "k - length e = Suc k'" by (cases "k - length e") auto
  have c: "sb s ! (length (sb s) - Suc k') = 0"
    using arg_cong [OF r, of "\<lambda>x. x ! length e"] last_places [OF k' 0(3)] 0(3) len by (simp add: nth_append)
  have "scan_exts env k [] cnt s = scan_exts env (Suc k') e cnt s"
    using scan_name [OF r 0(3), of "[]"] assms(4) k' by (simp add: ext_name_ok_def)
  then show ?case
    using match_exts_grown [OF assms(1,2) 0(5,6), of 0 "hs_ext_names env" cnt] assms(3) 0(7) c by auto
next
  case (Suc n k cnt s l)
  let ?l = "protocol_list [0x2c] (replicate (Suc n) e)"
  have l: "l = e @ 0x2c # ?l" using Suc.prems(2) by (simp add: protocol_list_Cons list_tail_def)
  obtain r where r: "drop (length (sb s) - k) (sb s) = e @ 0x2c # ?l @ 0 # r"
    using take_prefix [OF Suc.prems(1)] by (auto simp: l)
  have len: "length e + length ?l + 1 < k" using arg_cong [OF r, of length] Suc.prems(3) by simp
  then obtain k' where k': "k - length e = Suc k'" by (cases "k - length e") auto
  have c: "sb s ! (length (sb s) - Suc k') = 0x2c"
    using arg_cong [OF r, of "\<lambda>x. x ! length e"] last_places [OF k' Suc.prems(3)] Suc.prems(3) len by (simp add: nth_append)
  have e: "scan_exts env k [] cnt s = scan_exts env (Suc k') e cnt s"
    using scan_name [OF r Suc.prems(3), of "[]"] assms(4) k' by (simp add: ext_name_ok_def)
  consider "match_exts env e 0 (hs_ext_names env) cnt s = Inl Hs_overrun"
    | cnt' s' where "match_exts env e 0 (hs_ext_names env) cnt s = Inr (cnt', s')" "grown s s'"
        "length (hs_active s') \<le> 3" "length (hs_active s) < length (hs_active s')"
    using match_exts_grown [OF assms(1,2) Suc.prems(5,6), of 0 "hs_ext_names env" cnt] assms(3) by blast
  then show ?case
  proof cases
    case 1
    then show ?thesis using e c assms(4) by (simp add: ext_name_ok_def)
  next
    case 2
    have off: "length (sb s) - k' = length (sb s) - k + length e + 1" using k' len Suc.prems(3) by simp
    have "drop (length (sb s) - k') (sb s) = ?l @ 0 # r"
      unfolding off using arg_cong [OF r, of "drop (length e + 1)"] by (simp add: add.commute)
    then have "take (length ?l + 1) (drop (length (sb s) - k') (sb s)) = ?l @ [0]" by simp
    moreover have "take (length ?l + 1) (drop (length (sb s) - k') (sb s')) = take (length ?l + 1) (drop (length (sb s) - k') (sb s))"
      using Suc.prems(4) off 2(2) by (intro take_drop_front [of _ _ RESPONSE]) (simp_all add: l grown_def)
    moreover have "length (sb s') = length (sb s)" "RESPONSE \<le> sb_p s'" using 2(2) by (simp_all add: grown_def)
    ultimately have "scan_exts env k' [] cnt' s' = Inl Hs_overrun"
      using Suc.prems(3,4,7) off k' 2(3,4) by (intro Suc.IH [of ?l]) (simp_all add: l)
    then show ?thesis using e c assms(4) 2(1) by (simp add: ext_name_ok_def)
  qed
qed

lemma ext_handshake_eq:
  assumes "lws_hdr_total_length a WSI_TOKEN_EXTENSIONS = Some n" "n \<noteq> 0"
    "lws_hdr_copy a (sb s) WSI_TOKEN_EXTENSIONS = Inr (k, m)"
  shows "lws_extension_server_handshake env a s = map_sum id snd (scan_exts env (length m) [] 0 (s\<lparr>sb := m, hs_active := []\<rparr>))"
  using assms by (simp add: lws_extension_server_handshake_def)

lemma extensions_overrun:
  assumes hold: "holds a WSI_TOKEN_EXTENSIONS (protocol_list [0x2c] (replicate 4 e))" and e: "ext_name_ok e" "length e \<le> 34"
    and env: "e \<in> set (hs_ext_names env)" "hs_confirm env e = 0" "\<forall>n. hs_ext_malloc env n"
    and s: "length (sb s) = 4096" "RESPONSE \<le> sb_p s"
  shows "lws_extension_server_handshake env a s = Inl Hs_overrun"
proof -
  let ?l = "protocol_list [0x2c] (replicate (Suc 3) e)"
  have l: "protocol_list [0x2c] (replicate 4 e) = ?l" by (simp add: numeral_eq_Suc)
  have len: "length ?l = 4 * length e + 3" by (simp add: numeral_eq_Suc)
  have h: "lws_hdr_total_length a WSI_TOKEN_EXTENSIONS = Some (length ?l)"
    "lws_hdr_copy a (sb s) WSI_TOKEN_EXTENSIONS = Inr (length ?l, ?l @ [0] @ drop (length ?l + 1) (sb s))"
    using hold e(2) s(1) len unfolding l holds_def by auto
  let ?m = "?l @ [0] @ drop (length ?l + 1) (sb s)"
  let ?s = "s\<lparr>sb := ?m, hs_active := []\<rparr>"
  have m: "length ?m = 4096" "length ?l \<noteq> 0" using s(1) e(2) len by simp_all
  have sc: "scan_exts env (length ?m) [] 0 ?s = Inl Hs_overrun"
    using s(2) e(2) len m by (intro scan_repeated [OF env(3,2,1) e(1), of ?l _ _ 3]) simp_all
  show ?thesis unfolding ext_handshake_eq [OF h(1) m(2) h(2)] sc by simp
qed

text \<open>
  A request can make the server write past its three extension slots: when it lists one supported
  extension four times, the extension is instantiated four times, with no check against
  \<open>LWS_MAX_EXTENSIONS_ACTIVE\<close> and none for repetition.
\<close>

theorem repeated_extension_overruns:
  assumes "request_core a key proto" "length m = 4096" "hs_user_space_ok env"
    and "holds a WSI_TOKEN_EXTENSIONS (protocol_list [0x2c] [e, e, e, e])" "ext_name_ok e" "length e \<le> 34"
    and "e \<in> set (hs_ext_names env)" "hs_confirm env e = 0" "\<forall>n. hs_ext_malloc env n"
  shows "handshake_0405 env tenv a m w = Some (Inl Hs_overrun)"
proof -
  obtain s front where s:
    "make_response env a m = (case lws_extension_server_handshake env a s of Inl x \<Rightarrow> Inl x | Inr s' \<Rightarrow> cpyapp s' (crlf @ crlf))"
    "responded front (response_head @ accept_key key @ protocol_line proto) s"
    by (rule make_response_core [OF assms(1-3)])
  have "replicate 4 e = [e, e, e, e]" by (simp add: numeral_eq_Suc)
  then have "lws_extension_server_handshake env a s = Inl Hs_overrun"
    using assms s(2) by (intro extensions_overrun) (auto simp: responded_def)
  then show ?thesis using s(1) by (simp add: handshake_0405_def)
qed

theorem repeated_extension_overruns_witness:
  "handshake_0405 sample_env all_env
     (hdr_table [(3, bytes ''a''), (32, bytes ''k''),
        (9, bytes ''deflate-frame,deflate-frame,deflate-frame,deflate-frame'')]) (replicate 4096 0)
     (new_tx LWS_CONNMODE_WS_SERVING) = Some (Inl Hs_overrun)"
proof -
  let ?e = "bytes ''deflate-frame''"
  let ?a = "hdr_table [(3, bytes ''a''), (32, bytes ''k''), (9, bytes ''deflate-frame,deflate-frame,deflate-frame,deflate-frame'')]"
  have h: "holds ?a 3 (bytes ''a'')" "holds ?a 32 (bytes ''k'')"
    "holds ?a 9 (bytes ''deflate-frame,deflate-frame,deflate-frame,deflate-frame'')"
    by (rule hdr_table_holds; simp add: bytes_def)+
  have "request_core ?a (bytes ''k'') None"
    using h(1,2) by (simp add: request_core_def holds_def hdr_table_absent)
  moreover have "holds ?a 9 (protocol_list [0x2c] [?e, ?e, ?e, ?e])" using h(3) by (simp add: bytes_def)
  moreover have "ext_name_ok ?e" by (simp add: ext_name_ok_def bytes_def)
  ultimately show ?thesis
    using repeated_extension_overruns [of ?a "bytes ''k''" None "replicate 4096 0" sample_env ?e]
    by (simp add: sample_env_def)
qed

end
