(* ===== verification/Pollfd.thy ===== *)
theory Pollfd
  imports Rx_Sm
begin

text \<open>
  The table of polled sockets: \<^verbatim>\<open>lib/pollfd.c\<close>, with the platform part of \<^verbatim>\<open>lib/lws-plat-unix.c\<close> and the
  receive flow control of \<^verbatim>\<open>lib/libwebsockets.c\<close> and \<^verbatim>\<open>lib/server.c\<close> that works on it. A connection is a
  pointer (a number) into the store \<open>pwsi\<close>; the table, the lookup from descriptors to connections
  and the position each connection remembers have to agree.
\<close>

unbundle bit_operations_syntax

section \<open>State\<close>

abbreviation (input) LWS_POLLIN :: u16 where "LWS_POLLIN \<equiv> 1"
abbreviation (input) LWS_POLLOUT :: u16 where "LWS_POLLOUT \<equiv> 4"
abbreviation (input) LWS_RXFLOW_ALLOW :: byte where "LWS_RXFLOW_ALLOW \<equiv> 1"
abbreviation (input) LWS_RXFLOW_PENDING_CHANGE :: byte where "LWS_RXFLOW_PENDING_CHANGE \<equiv> 2"

record libwebsocket_pollfd =
  fd :: nat
  events :: u16
  revents :: u16

record poll_wsi =
  sock :: int
  position_in_fds_table :: int
  pw_protocol :: nat
  rxflow_change_to :: byte
  rxflow_buffer :: "byte list option"
  rxflow_len :: nat
  rxflow_pos :: nat

text \<open>The calls of protocol 0 by which an external poll loop follows the table.\<close>

datatype poll_event =
    LOCK_POLL int
  | ADD_POLL_FD int u16
  | DEL_POLL_FD int
  | CHANGE_MODE_POLL_FD int u16 u16
  | UNLOCK_POLL int

record poll_ctx =
  fds :: "libwebsocket_pollfd list"
  fds_count :: nat
  max_fds :: nat
  lws_lookup :: "nat option list"
  pwsi :: "nat \<Rightarrow> poll_wsi"
  service_tid :: int
  poll_log :: "poll_event list"
  cancels :: nat

text \<open>The failed assertion, an index outside an array, a NULL dereferenced.\<close>

datatype poll_stop = Poll_abort | Poll_overrun | Poll_null

type_synonym poll_result = "poll_stop + int \<times> poll_ctx"

definition poll_callback :: "poll_event \<Rightarrow> poll_ctx \<Rightarrow> poll_ctx" where
  "poll_callback e c = c\<lparr>poll_log := poll_log c @ [e]\<rparr>"

definition upd_wsi :: "nat \<Rightarrow> (poll_wsi \<Rightarrow> poll_wsi) \<Rightarrow> poll_ctx \<Rightarrow> poll_ctx" where
  "upd_wsi p f c = c\<lparr>pwsi := (pwsi c)(p := f (pwsi c p))\<rparr>"

section \<open>Operations\<close>

definition lws_plat_insert_socket_into_fds :: "poll_ctx \<Rightarrow> poll_ctx" where
  "lws_plat_insert_socket_into_fds c =
     c\<lparr>fds := (fds c)[fds_count c := (fds c ! fds_count c)\<lparr>revents := 0\<rparr>], fds_count := fds_count c + 1\<rparr>"

definition insert_wsi_socket_into_fds :: "poll_ctx \<Rightarrow> nat \<Rightarrow> poll_result" where
  "insert_wsi_socket_into_fds c p =
     (let s = sock (pwsi c p); n = fds_count c
      in if max_fds c \<le> n then Inr (1, c)
         else if int (max_fds c) \<le> s then Inr (1, c)
         else if s < 0 then Inl Poll_abort
         else if length (lws_lookup c) \<le> nat s \<or> length (fds c) \<le> n then Inl Poll_overrun
         else
           let c1 = poll_callback (LOCK_POLL s) c;
               c2 = c1\<lparr>lws_lookup := (lws_lookup c1)[nat s := Some p]\<rparr>;
               c3 = upd_wsi p (\<lambda>w. w\<lparr>position_in_fds_table := int n\<rparr>) c2;
               c4 = c3\<lparr>fds := (fds c3)[n := (fds c3 ! n)\<lparr>fd := nat s, events := LWS_POLLIN\<rparr>]\<rparr>;
               c5 = lws_plat_insert_socket_into_fds c4;
               c6 = poll_callback (ADD_POLL_FD s LWS_POLLIN) c5
           in Inr (0, poll_callback (UNLOCK_POLL s) c6))"

text \<open>The label \<open>do_ext\<close>.\<close>

definition do_ext :: "poll_ctx \<Rightarrow> int \<Rightarrow> poll_ctx" where
  "do_ext c s =
     poll_callback (UNLOCK_POLL s) (if s \<noteq> 0 then poll_callback (DEL_POLL_FD s) c else c)"

definition remove_wsi_socket_from_fds :: "poll_ctx \<Rightarrow> nat \<Rightarrow> poll_result" where
  "remove_wsi_socket_from_fds c p =
     (let s = sock (pwsi c p); n = fds_count c - 1; m = position_in_fds_table (pwsi c p)
      in if fds_count c = 0 then Inl Poll_overrun
         else
           let c1 = c\<lparr>fds_count := n\<rparr>
           in if n = 0 then Inr (0, do_ext (poll_callback (LOCK_POLL s) c1) s)
              else if int (max_fds c) < s then Inr (1, c1)
              else if m < 0 \<or> int (length (fds c)) \<le> m \<or> length (fds c) \<le> n \<or>
                      length (lws_lookup c) \<le> fd (fds c ! n) \<or> s < 0 \<or> int (length (lws_lookup c)) \<le> s
                then Inl Poll_overrun
              else
                let c2 = poll_callback (LOCK_POLL s) c1;
                    c3 = c2\<lparr>fds := (fds c2)[nat m := fds c2 ! n]\<rparr>
                in case lws_lookup c3 ! fd (fds c3 ! n) of
                     None \<Rightarrow> Inl Poll_null
                   | Some q \<Rightarrow>
                       let c4 = upd_wsi q (\<lambda>w. w\<lparr>position_in_fds_table := m\<rparr>) c3;
                           c5 = c4\<lparr>lws_lookup := (lws_lookup c4)[nat s := None]\<rparr>;
                           c6 = upd_wsi p (\<lambda>w. w\<lparr>position_in_fds_table := -1\<rparr>) c5
                       in Inr (0, do_ext c6 s))"

definition libwebsocket_cancel_service :: "poll_ctx \<Rightarrow> poll_ctx" where
  "libwebsocket_cancel_service c = c\<lparr>cancels := cancels c + 1\<rparr>"

text \<open>\<open>tid\<close> is what the callback answers for the identity of the running thread.\<close>

definition lws_change_pollfd :: "int \<Rightarrow> poll_ctx \<Rightarrow> nat \<Rightarrow> u16 \<Rightarrow> u16 \<Rightarrow> poll_result" where
  "lws_change_pollfd tid c p and_mask or_mask =
     (let s = sock (pwsi c p); m = position_in_fds_table (pwsi c p)
      in if m < 0 \<or> int (length (fds c)) \<le> m then Inl Poll_overrun
         else
           let c1 = poll_callback (LOCK_POLL s) c;
               prev = events (fds c1 ! nat m);
               new = (prev AND NOT and_mask) OR or_mask;
               c2 = c1\<lparr>fds := (fds c1)[nat m := (fds c1 ! nat m)\<lparr>events := new\<rparr>]\<rparr>;
               c3 = poll_callback (CHANGE_MODE_POLL_FD s prev new) c2;
               c4 = (if prev \<noteq> new \<and> service_tid c3 \<noteq> 0 \<and> tid \<noteq> service_tid c3
                     then libwebsocket_cancel_service c3 else c3)
           in Inr (0, poll_callback (UNLOCK_POLL s) c4))"

text \<open>\<open>ext\<close> is the answer of the active extensions to \<open>LWS_EXT_CALLBACK_REQUEST_ON_WRITEABLE\<close>.\<close>

definition libwebsocket_callback_on_writable :: "int \<Rightarrow> int \<Rightarrow> poll_ctx \<Rightarrow> nat \<Rightarrow> poll_result" where
  "libwebsocket_callback_on_writable ext tid c p =
     (if ext \<noteq> 0 then Inr (1, c)
      else if position_in_fds_table (pwsi c p) < 0 then Inr (-1, c)
      else case lws_change_pollfd tid c p 0 LWS_POLLOUT of
             Inl e \<Rightarrow> Inl e
           | Inr (r, c1) \<Rightarrow> if r \<noteq> 0 then Inr (-1, c1) else Inr (1, c1))"

text \<open>
  The loops over all connections of a protocol; their bodies leave \<open>fds_count\<close> as it is. One turn of
  the loop:
\<close>

definition slot_step ::
    "(poll_ctx \<Rightarrow> nat \<Rightarrow> poll_result) \<Rightarrow> nat \<Rightarrow> poll_ctx \<Rightarrow> nat \<Rightarrow> poll_stop + poll_ctx" where
  "slot_step f protocol c n =
     (if length (fds c) \<le> n \<or> length (lws_lookup c) \<le> fd (fds c ! n) then Inl Poll_overrun
      else case lws_lookup c ! fd (fds c ! n) of
             None \<Rightarrow> Inr c
           | Some p \<Rightarrow> if pw_protocol (pwsi c p) = protocol then map_sum id snd (f c p) else Inr c)"

definition libwebsocket_callback_on_writable_all_protocol ::
    "int \<Rightarrow> int \<Rightarrow> nat \<Rightarrow> poll_ctx \<Rightarrow> poll_stop + poll_ctx" where
  "libwebsocket_callback_on_writable_all_protocol ext tid protocol c =
     run_bytes (slot_step (libwebsocket_callback_on_writable ext tid) protocol) c [0..<fds_count c]"

section \<open>Receive flow control\<close>

definition libwebsocket_rx_flow_control :: "poll_ctx \<Rightarrow> nat \<Rightarrow> int \<Rightarrow> poll_result" where
  "libwebsocket_rx_flow_control c p enable =
     (if enable = uint (rxflow_change_to (pwsi c p) AND LWS_RXFLOW_ALLOW) then Inr (0, c)
      else Inr (0, upd_wsi p (\<lambda>w. w\<lparr>rxflow_change_to :=
                     LWS_RXFLOW_PENDING_CHANGE OR (if enable \<noteq> 0 then 1 else 0)\<rparr>) c))"

definition libwebsocket_rx_flow_allow_all_protocol :: "nat \<Rightarrow> poll_ctx \<Rightarrow> poll_stop + poll_ctx" where
  "libwebsocket_rx_flow_allow_all_protocol protocol c =
     run_bytes (slot_step (\<lambda>c p. libwebsocket_rx_flow_control c p 1) protocol) c [0..<fds_count c]"

text \<open>\<open>_libwebsocket_rx_flow_control\<close>: applying a pending change to the table.\<close>

definition apply_rx_flow_control :: "int \<Rightarrow> int \<Rightarrow> poll_ctx \<Rightarrow> nat \<Rightarrow> poll_result" where
  "apply_rx_flow_control ext tid c p =
     (let w = pwsi c p
      in if rxflow_change_to w AND LWS_RXFLOW_PENDING_CHANGE = 0 then Inr (0, c)
         else if rxflow_buffer w \<noteq> None then
           map_sum id (\<lambda>(r, c1). (0, c1)) (libwebsocket_callback_on_writable ext tid c p)
         else
           let c1 = upd_wsi p (\<lambda>w. w\<lparr>rxflow_change_to := rxflow_change_to w AND NOT LWS_RXFLOW_PENDING_CHANGE\<rparr>) c;
               allow = (rxflow_change_to (pwsi c1 p) AND LWS_RXFLOW_ALLOW \<noteq> 0)
           in case (if allow then lws_change_pollfd tid c1 p 0 LWS_POLLIN
                    else lws_change_pollfd tid c1 p LWS_POLLIN 0) of
                Inl e \<Rightarrow> Inl e
              | Inr (r, c2) \<Rightarrow> Inr (if r \<noteq> 0 then -1 else 0, c2))"

definition lws_rxflow_cache :: "poll_ctx \<Rightarrow> nat \<Rightarrow> byte list \<Rightarrow> nat \<Rightarrow> int \<times> poll_ctx" where
  "lws_rxflow_cache c p buf n =
     (if rxflow_buffer (pwsi c p) \<noteq> None then (1, c)
      else (0, upd_wsi p (\<lambda>w. w\<lparr>rxflow_buffer := Some (drop n buf), rxflow_len := length buf - n, rxflow_pos := 0\<rparr>) c))"

section \<open>The table as a map from descriptors to events\<close>

definition live :: "poll_ctx \<Rightarrow> libwebsocket_pollfd list" where
  "live c = take (fds_count c) (fds c)"

definition poll_map :: "poll_ctx \<Rightarrow> nat \<rightharpoonup> u16" where
  "poll_map c = map_of (map (\<lambda>e. (fd e, events e)) (live c))"

text \<open>The connection of slot \<open>n\<close>, by all three ways to find it.\<close>

definition slot_ok :: "poll_ctx \<Rightarrow> nat \<Rightarrow> bool" where
  "slot_ok c n \<longleftrightarrow>
     (let s = fd (fds c ! n)
      in s < max_fds c \<and>
         (case lws_lookup c ! s of None \<Rightarrow> False
          | Some p \<Rightarrow> sock (pwsi c p) = int s \<and> position_in_fds_table (pwsi c p) = int n))"

definition poll_ok :: "poll_ctx \<Rightarrow> bool" where
  "poll_ok c \<longleftrightarrow> length (fds c) = max_fds c \<and> length (lws_lookup c) = max_fds c \<and>
     fds_count c \<le> max_fds c \<and> (\<forall>n<fds_count c. slot_ok c n)"

text \<open>A connection that is in the table.\<close>

definition polled :: "poll_ctx \<Rightarrow> nat \<Rightarrow> bool" where
  "polled c p \<longleftrightarrow> (\<exists>n<fds_count c. lws_lookup c ! fd (fds c ! n) = Some p)"

lemma slot_conn:
  assumes "poll_ok c" "n < fds_count c"
  obtains p where "lws_lookup c ! fd (fds c ! n) = Some p" "sock (pwsi c p) = int (fd (fds c ! n))"
    "position_in_fds_table (pwsi c p) = int n" "fd (fds c ! n) < max_fds c"
  using assms by (auto simp: poll_ok_def slot_ok_def Let_def split: option.splits)

lemma slot_inj:
  assumes "poll_ok c" "n < fds_count c" "m < fds_count c" "fd (fds c ! n) = fd (fds c ! m)"
  shows "n = m"
proof -
  obtain p where "lws_lookup c ! fd (fds c ! n) = Some p" "position_in_fds_table (pwsi c p) = int n"
    using slot_conn [OF assms(1,2)] .
  moreover obtain q where "lws_lookup c ! fd (fds c ! m) = Some q" "position_in_fds_table (pwsi c q) = int m"
    using slot_conn [OF assms(1,3)] .
  ultimately show ?thesis using assms(4) by simp
qed

lemma live_nth: "n < fds_count c \<Longrightarrow> poll_ok c \<Longrightarrow> live c ! n = fds c ! n"
  by (simp add: live_def poll_ok_def)

lemma length_live: "poll_ok c \<Longrightarrow> length (live c) = fds_count c"
  by (simp add: live_def poll_ok_def)

lemma distinct_live: "poll_ok c \<Longrightarrow> distinct (map fd (live c))"
  using slot_inj [of c] by (fastforce simp: distinct_conv_nth length_live live_nth)

lemma poll_map_Some:
  assumes "poll_ok c"
  shows "poll_map c s = Some v \<longleftrightarrow> (\<exists>n<fds_count c. fd (fds c ! n) = s \<and> events (fds c ! n) = v)"
proof -
  have d: "distinct (map fst (map (\<lambda>e. (fd e, events e)) (live c)))"
    using distinct_live [OF assms] by (simp add: comp_def)
  note len = length_live [OF assms]
  have "poll_map c s = Some v \<longleftrightarrow> (s, v) \<in> set (map (\<lambda>e. (fd e, events e)) (live c))"
    unfolding poll_map_def by (rule map_of_eq_Some_iff [OF d, symmetric, THEN sym])
  also have "\<dots> \<longleftrightarrow> (\<exists>n<fds_count c. fd (live c ! n) = s \<and> events (live c ! n) = v)"
    by (auto simp: in_set_conv_nth len image_iff) (use len nth_mem in fastforce)
  finally show ?thesis using live_nth [OF _ assms] by auto
qed

section \<open>Each operation on the map\<close>

lemma callback_simps [simp]:
  "fds (poll_callback e c) = fds c" "fds_count (poll_callback e c) = fds_count c"
  "max_fds (poll_callback e c) = max_fds c" "lws_lookup (poll_callback e c) = lws_lookup c"
  "pwsi (poll_callback e c) = pwsi c" "service_tid (poll_callback e c) = service_tid c"
  "poll_log (poll_callback e c) = poll_log c @ [e]"
  by (simp_all add: poll_callback_def)

lemma upd_wsi_simps [simp]:
  "fds (upd_wsi p f c) = fds c" "fds_count (upd_wsi p f c) = fds_count c"
  "max_fds (upd_wsi p f c) = max_fds c" "lws_lookup (upd_wsi p f c) = lws_lookup c"
  "pwsi (upd_wsi p f c) = (pwsi c)(p := f (pwsi c p))" "poll_log (upd_wsi p f c) = poll_log c"
  "service_tid (upd_wsi p f c) = service_tid c"
  by (simp_all add: upd_wsi_def)

lemma poll_map_eqI:
  assumes "poll_ok c'" "\<And>s v. (\<exists>n<fds_count c'. fd (fds c' ! n) = s \<and> events (fds c' ! n) = v) \<longleftrightarrow> m s = Some v"
  shows "poll_map c' = m"
proof
  fix s
  show "poll_map c' s = m s"
    using poll_map_Some [OF assms(1), of s] assms(2) [of s] by (metis option.exhaust)
qed

lemma insert_spec:
  assumes ok: "poll_ok c" and s: "sock (pwsi c p) = int s" "poll_map c s = None"
  shows "insert_wsi_socket_into_fds c p =
      (if fds_count c < max_fds c \<and> s < max_fds c then Inr (0, snd (projr (insert_wsi_socket_into_fds c p)))
       else Inr (1, c))"
    and "fds_count c < max_fds c \<Longrightarrow> s < max_fds c \<Longrightarrow> insert_wsi_socket_into_fds c p = Inr (0, c') \<Longrightarrow>
      poll_ok c' \<and> poll_map c' = (poll_map c)(s \<mapsto> LWS_POLLIN) \<and>
      poll_log c' = poll_log c @ [LOCK_POLL (int s), ADD_POLL_FD (int s) LWS_POLLIN, UNLOCK_POLL (int s)] \<and>
      pwsi c' = (pwsi c)(p := (pwsi c p)\<lparr>position_in_fds_table := int (fds_count c)\<rparr>) \<and> max_fds c' = max_fds c"
proof -
  have len: "length (fds c) = max_fds c" "length (lws_lookup c) = max_fds c" using ok by (simp_all add: poll_ok_def)
  show "insert_wsi_socket_into_fds c p =
      (if fds_count c < max_fds c \<and> s < max_fds c then Inr (0, snd (projr (insert_wsi_socket_into_fds c p)))
       else Inr (1, c))"
    using s(1) len by (simp add: insert_wsi_socket_into_fds_def Let_def)
  assume room: "fds_count c < max_fds c" "s < max_fds c" and res: "insert_wsi_socket_into_fds c p = Inr (0, c')"
  let ?n = "fds_count c"
  let ?e = "(fds c ! ?n)\<lparr>fd := s, events := LWS_POLLIN, revents := 0\<rparr>"
  have c': "fds c' = (fds c)[?n := ?e]" "fds_count c' = ?n + 1" "max_fds c' = max_fds c"
    "lws_lookup c' = (lws_lookup c)[s := Some p]"
    "pwsi c' = (pwsi c)(p := (pwsi c p)\<lparr>position_in_fds_table := int ?n\<rparr>)"
    "poll_log c' = poll_log c @ [LOCK_POLL (int s), ADD_POLL_FD (int s) LWS_POLLIN, UNLOCK_POLL (int s)]"
    using res room s(1) len
    by (auto simp: insert_wsi_socket_into_fds_def Let_def lws_plat_insert_socket_into_fds_def)
  have other: "fd (fds c ! k) \<noteq> s" if "k < ?n" for k
    using poll_map_Some [OF ok, of s] s(2) that by auto
  have ok': "poll_ok c'"
  proof -
    have "slot_ok c' k" if k: "k < ?n + 1" for k
    proof (cases "k = ?n")
      case True
      then show ?thesis using room len c' s(1) by (simp add: slot_ok_def Let_def)
    next
      case False
      then have kn: "k < ?n" using k by simp
      obtain q where q: "lws_lookup c ! fd (fds c ! k) = Some q" "sock (pwsi c q) = int (fd (fds c ! k))"
        "position_in_fds_table (pwsi c q) = int k" "fd (fds c ! k) < max_fds c"
        by (rule slot_conn [OF ok kn])
      have "q \<noteq> p" using q(2) s(1) other [OF kn] by auto
      then show ?thesis using q other [OF kn] False c' by (simp add: slot_ok_def Let_def)
    qed
    then show ?thesis using room len c' by (simp add: poll_ok_def)
  qed
  have "poll_map c' = (poll_map c)(s \<mapsto> LWS_POLLIN)"
  proof (rule poll_map_eqI [OF ok'])
    fix t v
    have "(\<exists>n<fds_count c'. fd (fds c' ! n) = t \<and> events (fds c' ! n) = v) \<longleftrightarrow>
        (\<exists>n<?n. fd (fds c ! n) = t \<and> events (fds c ! n) = v) \<or> t = s \<and> v = LWS_POLLIN"
      using c' room len by (auto simp: less_Suc_eq)
    then show "(\<exists>n<fds_count c'. fd (fds c' ! n) = t \<and> events (fds c' ! n) = v) \<longleftrightarrow>
        ((poll_map c)(s \<mapsto> LWS_POLLIN)) t = Some v"
      using poll_map_Some [OF ok, of t v] other by auto
  qed
  then show "poll_ok c' \<and> poll_map c' = (poll_map c)(s \<mapsto> LWS_POLLIN) \<and>
      poll_log c' = poll_log c @ [LOCK_POLL (int s), ADD_POLL_FD (int s) LWS_POLLIN, UNLOCK_POLL (int s)] \<and>
      pwsi c' = (pwsi c)(p := (pwsi c p)\<lparr>position_in_fds_table := int (fds_count c)\<rparr>) \<and> max_fds c' = max_fds c"
    using ok' c' by simp
qed

lemma polled_slot:
  assumes "poll_ok c" "polled c p"
  obtains n s where "n < fds_count c" "fd (fds c ! n) = s" "lws_lookup c ! s = Some p" "sock (pwsi c p) = int s"
    "position_in_fds_table (pwsi c p) = int n" "s < max_fds c"
  using assms(2) slot_conn [OF assms(1)] unfolding polled_def by (metis option.inject)

lemma remove_spec:
  assumes ok: "poll_ok c" and p: "polled c p" "sock (pwsi c p) = int s"
  shows "\<exists>c'. remove_wsi_socket_from_fds c p = Inr (0, c') \<and> poll_ok c' \<and> poll_map c' = (poll_map c)(s := None) \<and>
    poll_log c' = poll_log c @ [LOCK_POLL (int s)] @ (if s \<noteq> 0 then [DEL_POLL_FD (int s)] else []) @ [UNLOCK_POLL (int s)] \<and>
    (\<forall>q. sock (pwsi c' q) = sock (pwsi c q)) \<and> max_fds c' = max_fds c \<and> \<not> polled c' p"
proof -
  obtain m where m: "m < fds_count c" "fd (fds c ! m) = s" "lws_lookup c ! s = Some p"
    "position_in_fds_table (pwsi c p) = int m" "s < max_fds c"
    using polled_slot [OF ok p(1)] p(2) by (metis of_nat_eq_iff)
  define n where "n = fds_count c - 1"
  have n: "n < fds_count c" "m \<le> n" "fds_count c = Suc n" using m(1) by (auto simp: n_def)
  have len: "length (fds c) = max_fds c" "length (lws_lookup c) = max_fds c" "n < max_fds c"
    using ok n by (auto simp: poll_ok_def)
  obtain q where q: "lws_lookup c ! fd (fds c ! n) = Some q" "sock (pwsi c q) = int (fd (fds c ! n))"
    "position_in_fds_table (pwsi c q) = int n" "fd (fds c ! n) < max_fds c"
    by (rule slot_conn [OF ok n(1)])
  show ?thesis
  proof (cases "n = 0")
    case True
    define c' where "c' = do_ext (poll_callback (LOCK_POLL (int s)) (c\<lparr>fds_count := 0\<rparr>)) (int s)"
    have r: "remove_wsi_socket_from_fds c p = Inr (0, c')"
      using True n p(2) by (simp add: remove_wsi_socket_from_fds_def Let_def c'_def)
    have c': "fds_count c' = 0" "fds c' = fds c" "lws_lookup c' = lws_lookup c" "max_fds c' = max_fds c" "pwsi c' = pwsi c"
      "poll_log c' = poll_log c @ [LOCK_POLL (int s)] @ (if s \<noteq> 0 then [DEL_POLL_FD (int s)] else []) @ [UNLOCK_POLL (int s)]"
      by (simp_all add: c'_def do_ext_def)
    have ok': "poll_ok c'" using c' len by (simp add: poll_ok_def)
    have "poll_map c' = (poll_map c)(s := None)"
      using poll_map_Some [OF ok] True n m(1,2) c'
      by (intro poll_map_eqI [OF ok']) auto
    then show ?thesis using r ok' c' by (auto simp: polled_def)
  next
    case False
    let ?f = "(pwsi c)(q := (pwsi c q)\<lparr>position_in_fds_table := int m\<rparr>)"
    define w where "w = ?f(p := (?f p)\<lparr>position_in_fds_table := -1\<rparr>)"
    have "\<exists>c'. remove_wsi_socket_from_fds c p = Inr (0, c') \<and> fds_count c' = n \<and> fds c' = (fds c)[m := fds c ! n] \<and>
        lws_lookup c' = (lws_lookup c)[s := None] \<and> max_fds c' = max_fds c \<and> pwsi c' = w \<and>
        poll_log c' = poll_log c @ [LOCK_POLL (int s)] @ (if s \<noteq> 0 then [DEL_POLL_FD (int s)] else []) @ [UNLOCK_POLL (int s)]"
      using False n len m p(2) q(1,4)
      by (auto simp: remove_wsi_socket_from_fds_def Let_def do_ext_def w_def nth_list_update)
    then obtain c' where c': "remove_wsi_socket_from_fds c p = Inr (0, c')" "fds_count c' = n"
      "fds c' = (fds c)[m := fds c ! n]" "lws_lookup c' = (lws_lookup c)[s := None]" "max_fds c' = max_fds c" "pwsi c' = w"
      "poll_log c' = poll_log c @ [LOCK_POLL (int s)] @ (if s \<noteq> 0 then [DEL_POLL_FD (int s)] else []) @ [UNLOCK_POLL (int s)]"
      by blast
    have ne: "fd (fds c ! k) \<noteq> s" if "k < fds_count c" "k \<noteq> m" for k
      using slot_inj [OF ok that(1) m(1)] that(2) m(2) by auto
    have new: "fd (fds c' ! k) \<noteq> s \<and> (\<exists>j \<le> n. j \<noteq> m \<and> fds c' ! k = fds c ! j \<and> (j = k \<or> j = n \<and> k = m))" if "k < n" for k
    proof (cases "k = m")
      case True
      then have "n \<noteq> m" using that by simp
      then show ?thesis using True c'(3) ne [OF n(1)] len m(1) n by auto
    next
      case False
      then show ?thesis using ne [of k] that c'(3) n by auto
    qed
    have ok': "poll_ok c'"
    proof -
      have "slot_ok c' k" if k: "k < n" for k
      proof -
        obtain j where j: "j \<le> n" "j \<noteq> m" "fds c' ! k = fds c ! j" "j = k \<or> j = n \<and> k = m" "fd (fds c' ! k) \<noteq> s"
          using new [OF k] by blast
        obtain t where t: "lws_lookup c ! fd (fds c ! j) = Some t" "sock (pwsi c t) = int (fd (fds c ! j))"
          "position_in_fds_table (pwsi c t) = int j" "fd (fds c ! j) < max_fds c"
          using slot_conn [OF ok, of j] j(1) n(3) by (metis le_imp_less_Suc)
        have "t \<noteq> p" using t(3) m(4) j(2) by auto
        moreover have "t = q \<longleftrightarrow> j = n" using t(1,3) q(1,3) by auto
        ultimately show ?thesis using t j k c'(4,5,6) by (auto simp: slot_ok_def Let_def w_def)
      qed
      then show ?thesis using c' len by (simp add: poll_ok_def)
    qed
    have "poll_map c' = (poll_map c)(s := None)"
    proof (rule poll_map_eqI [OF ok'])
      fix t v
      have "(\<exists>k<n. fd (fds c' ! k) = t \<and> events (fds c' ! k) = v) \<longleftrightarrow>
          (t \<noteq> s \<and> (\<exists>j<fds_count c. fd (fds c ! j) = t \<and> events (fds c ! j) = v))"
      proof
        assume "\<exists>k<n. fd (fds c' ! k) = t \<and> events (fds c' ! k) = v"
        then obtain k where k: "k < n" "fd (fds c' ! k) = t" "events (fds c' ! k) = v" by blast
        with new [OF k(1)] show "t \<noteq> s \<and> (\<exists>j<fds_count c. fd (fds c ! j) = t \<and> events (fds c ! j) = v)"
          using n(3) by (metis le_imp_less_Suc)
      next
        assume "t \<noteq> s \<and> (\<exists>j<fds_count c. fd (fds c ! j) = t \<and> events (fds c ! j) = v)"
        then obtain j where j: "j < fds_count c" "fd (fds c ! j) = t" "events (fds c ! j) = v" "t \<noteq> s" by blast
        then have "j \<noteq> m" using m(2) by auto
        then show "\<exists>k<n. fd (fds c' ! k) = t \<and> events (fds c' ! k) = v"
        proof (cases "j = n")
          case True
          then show ?thesis using j \<open>j \<noteq> m\<close> c'(3) n len by (intro exI [of _ m]) auto
        next
          case False
          then show ?thesis using j \<open>j \<noteq> m\<close> c'(3) n by (intro exI [of _ j]) auto
        qed
      qed
      then show "(\<exists>k<fds_count c'. fd (fds c' ! k) = t \<and> events (fds c' ! k) = v) \<longleftrightarrow>
          ((poll_map c)(s := None)) t = Some v"
        using poll_map_Some [OF ok, of t v] c'(2) by auto
    qed
    moreover have "\<not> polled c' p"
    proof
      assume "polled c' p"
      then obtain k where "k < n" "lws_lookup c' ! fd (fds c' ! k) = Some p" using c'(2) by (auto simp: polled_def)
      moreover have "position_in_fds_table (pwsi c' p) = -1" using c'(6) by (simp add: w_def)
      moreover obtain t where "lws_lookup c' ! fd (fds c' ! k) = Some t" "position_in_fds_table (pwsi c' t) = int k"
        using slot_conn [OF ok', of k] \<open>k < n\<close> c'(2) by auto
      ultimately show False by simp
    qed
    moreover have "sock (pwsi c' t) = sock (pwsi c t)" for t using c'(6) by (simp add: w_def)
    ultimately show ?thesis using c' ok' by auto
  qed
qed


lemma change_spec:
  assumes ok: "poll_ok c" and p: "polled c p" "sock (pwsi c p) = int s"
  shows "\<exists>c' v. lws_change_pollfd tid c p a b = Inr (0, c') \<and> poll_ok c' \<and> poll_map c s = Some v \<and>
    poll_map c' = (poll_map c)(s \<mapsto> ((v AND NOT a) OR b)) \<and>
    poll_log c' = poll_log c @ [LOCK_POLL (int s), CHANGE_MODE_POLL_FD (int s) v ((v AND NOT a) OR b), UNLOCK_POLL (int s)] \<and>
    pwsi c' = pwsi c \<and> max_fds c' = max_fds c \<and> fds_count c' = fds_count c \<and>
    map fd (live c') = map fd (live c) \<and> lws_lookup c' = lws_lookup c"
proof -
  obtain m where m: "m < fds_count c" "fd (fds c ! m) = s" "lws_lookup c ! s = Some p"
    "position_in_fds_table (pwsi c p) = int m" "s < max_fds c"
    using polled_slot [OF ok p(1)] p(2) by (metis of_nat_eq_iff)
  have len: "length (fds c) = max_fds c" "length (lws_lookup c) = max_fds c" "m < length (fds c)"
    using ok m(1) by (simp_all add: poll_ok_def)
  define v where "v = events (fds c ! m)"
  let ?e = "(fds c ! m)\<lparr>events := (v AND NOT a) OR b\<rparr>"
  obtain c' where c': "lws_change_pollfd tid c p a b = Inr (0, c')" "fds c' = (fds c)[m := ?e]"
    "fds_count c' = fds_count c" "max_fds c' = max_fds c" "lws_lookup c' = lws_lookup c" "pwsi c' = pwsi c"
    "poll_log c' = poll_log c @ [LOCK_POLL (int s), CHANGE_MODE_POLL_FD (int s) v ((v AND NOT a) OR b), UNLOCK_POLL (int s)]"
    using m(4) len(3) p(2)
    by (auto simp: lws_change_pollfd_def Let_def libwebsocket_cancel_service_def v_def)
  have f: "fd (fds c' ! k) = fd (fds c ! k)" for k using c'(2) len(3) by (cases "k = m") simp_all
  have "slot_ok c' k = slot_ok c k" for k by (simp only: slot_ok_def f c'(4,5,6))
  then have ok': "poll_ok c'" using ok c'(2,3,4,5) by (simp add: poll_ok_def)
  have ne: "fd (fds c ! k) = s \<longleftrightarrow> k = m" if "k < fds_count c" for k
    using slot_inj [OF ok that m(1)] m(2) by auto
  have "poll_map c' = (poll_map c)(s \<mapsto> ((v AND NOT a) OR b))"
  proof (rule poll_map_eqI [OF ok'])
    fix t x
    show "(\<exists>k<fds_count c'. fd (fds c' ! k) = t \<and> events (fds c' ! k) = x) \<longleftrightarrow>
        ((poll_map c)(s \<mapsto> ((v AND NOT a) OR b))) t = Some x"
    proof (cases "t = s")
      case True
      have "(\<exists>k<fds_count c'. fd (fds c' ! k) = s \<and> events (fds c' ! k) = x) \<longleftrightarrow> events (fds c' ! m) = x"
        using ne m(1) c'(3) by (auto simp: f)
      moreover have "events (fds c' ! m) = (v AND NOT a) OR b" using c'(2) len(3) by simp
      ultimately show ?thesis using True by auto
    next
      case False
      have "events (fds c' ! k) = events (fds c ! k)" if "k \<noteq> m" for k using that c'(2) by simp
      then show ?thesis using False f c'(3) m(2) poll_map_Some [OF ok, of t x] by auto (metis f m(2))+
    qed
  qed
  moreover have "poll_map c s = Some v" using poll_map_Some [OF ok, of s v] m(1,2) v_def by auto
  moreover have "map fd (live c') = map fd (live c)"
    using f c'(3) by (auto simp: live_def c'(2) list_eq_iff_nth_eq)
  ultimately show ?thesis using c' ok' by auto
qed

lemma polled_cong:
  "fds_count c' = fds_count c \<Longrightarrow> lws_lookup c' = lws_lookup c \<Longrightarrow> map fd (live c') = map fd (live c) \<Longrightarrow>
   poll_ok c \<Longrightarrow> poll_ok c' \<Longrightarrow> polled c' p = polled c p"
proof -
  assume a: "fds_count c' = fds_count c" "lws_lookup c' = lws_lookup c" "map fd (live c') = map fd (live c)"
    "poll_ok c" "poll_ok c'"
  have "fd (fds c' ! n) = fd (fds c ! n)" if "n < fds_count c" for n
  proof -
    have "map fd (live c') ! n = map fd (live c) ! n" by (simp only: a(3))
    then show ?thesis
      using that a(1) live_nth [OF _ a(4)] live_nth [OF _ a(5)] length_live [OF a(4)] length_live [OF a(5)] by simp
  qed
  then show ?thesis using a(1,2) by (auto simp: polled_def)
qed

section \<open>The interface of the table\<close>

text \<open>
  What the rest of the library relies on: a table of watched descriptors with an abstract view, and
  the record of callbacks by which an external loop can follow it.
\<close>

definition mirror_step :: "(nat \<rightharpoonup> u16) \<Rightarrow> poll_event \<Rightarrow> nat \<rightharpoonup> u16" where
  "mirror_step m e =
     (case e of ADD_POLL_FD s v \<Rightarrow> m(nat s \<mapsto> v) | DEL_POLL_FD s \<Rightarrow> m(nat s := None)
      | CHANGE_MODE_POLL_FD s prev v \<Rightarrow> m(nat s \<mapsto> v) | _ \<Rightarrow> m)"

definition mirror :: "poll_event list \<Rightarrow> nat \<rightharpoonup> u16" where
  "mirror es = foldl mirror_step Map.empty es"

datatype poll_op = Op_insert nat | Op_remove nat | Op_change nat u16 u16

locale poll_table =
  fixes inv :: "'c \<Rightarrow> bool" and view :: "'c \<Rightarrow> nat \<rightharpoonup> u16" and descr :: "'c \<Rightarrow> nat \<Rightarrow> nat"
    and watched :: "'c \<Rightarrow> nat \<Rightarrow> bool" and log :: "'c \<Rightarrow> poll_event list"
    and ins :: "'c \<Rightarrow> nat \<Rightarrow> 'e + int \<times> 'c" and del :: "'c \<Rightarrow> nat \<Rightarrow> 'e + int \<times> 'c"
    and chg :: "'c \<Rightarrow> nat \<Rightarrow> u16 \<Rightarrow> u16 \<Rightarrow> 'e + int \<times> 'c"
  assumes ins_law: "inv c \<Longrightarrow> 0 < descr c p \<Longrightarrow> view c (descr c p) = None \<Longrightarrow>
      \<exists>r c'. ins c p = Inr (r, c') \<and> inv c' \<and> (r \<noteq> 0 \<longrightarrow> c' = c) \<and>
        (r = 0 \<longrightarrow> view c' = (view c)(descr c p \<mapsto> LWS_POLLIN) \<and>
           mirror (log c') = (mirror (log c))(descr c p \<mapsto> LWS_POLLIN))"
    and del_law: "inv c \<Longrightarrow> watched c p \<Longrightarrow> 0 < descr c p \<Longrightarrow>
      \<exists>c'. del c p = Inr (0, c') \<and> inv c' \<and> view c' = (view c)(descr c p := None) \<and>
        mirror (log c') = (mirror (log c))(descr c p := None)"
    and chg_law: "inv c \<Longrightarrow> watched c p \<Longrightarrow>
      \<exists>c' v. chg c p a b = Inr (0, c') \<and> inv c' \<and> view c (descr c p) = Some v \<and>
        view c' = (view c)(descr c p \<mapsto> ((v AND NOT a) OR b)) \<and>
        mirror (log c') = (mirror (log c))(descr c p \<mapsto> ((v AND NOT a) OR b))"
begin

definition apply_op :: "'c \<Rightarrow> poll_op \<Rightarrow> 'e + int \<times> 'c" where
  "apply_op c oper = (case oper of Op_insert p \<Rightarrow> ins c p | Op_remove p \<Rightarrow> del c p | Op_change p a b \<Rightarrow> chg c p a b)"

definition legal :: "'c \<Rightarrow> poll_op \<Rightarrow> bool" where
  "legal c oper = (case oper of Op_insert p \<Rightarrow> 0 < descr c p \<and> view c (descr c p) = None
     | Op_remove p \<Rightarrow> 0 < descr c p \<and> watched c p | Op_change p a b \<Rightarrow> watched c p)"

text \<open>Sequences of operations, each called as the library calls it.\<close>

inductive reaches :: "'c \<Rightarrow> 'c \<Rightarrow> bool" for c0 where
  reaches_refl: "reaches c0 c0"
| reaches_step: "reaches c0 c \<Longrightarrow> legal c oper \<Longrightarrow> apply_op c oper = Inr (r, c') \<Longrightarrow> reaches c0 c'"

lemma legal_total:
  assumes "inv c" "legal c oper"
  shows "\<exists>r c'. apply_op c oper = Inr (r, c') \<and> inv c' \<and>
    (mirror (log c) = view c \<longrightarrow> mirror (log c') = view c')"
proof (cases oper)
  case (Op_insert p)
  then show ?thesis using ins_law [OF assms(1), of p] assms(2) by (auto simp: apply_op_def legal_def)
next
  case (Op_remove p)
  then show ?thesis using del_law [OF assms(1), of p] assms(2) by (auto simp: apply_op_def legal_def)
next
  case (Op_change p a b)
  then show ?thesis using chg_law [OF assms(1), of p a b] assms(2) by (auto simp: apply_op_def legal_def)
qed

lemma reaches_inv:
  assumes "reaches c0 c" "inv c0" "mirror (log c0) = view c0"
  shows "inv c \<and> mirror (log c) = view c"
  using assms
proof (induction rule: reaches.induct)
  case (reaches_step c oper r c')
  then show ?case using legal_total [of c oper] by auto
qed simp

end

definition wsi_fd :: "poll_ctx \<Rightarrow> nat \<Rightarrow> nat" where
  "wsi_fd c p = nat (sock (pwsi c p))"

definition polled_conn :: "poll_ctx \<Rightarrow> nat \<Rightarrow> bool" where
  "polled_conn c p \<longleftrightarrow> poll_ok c \<and> polled c p"

lemma mirror_append: "mirror (es @ fs) = foldl mirror_step (mirror es) fs"
  by (simp add: mirror_def)

lemma polled_sock: "poll_ok c \<Longrightarrow> polled c p \<Longrightarrow> sock (pwsi c p) = int (wsi_fd c p)"
  by (rule polled_slot) (auto simp: wsi_fd_def)

interpretation lws_poll: poll_table poll_ok poll_map wsi_fd polled poll_log
  insert_wsi_socket_into_fds remove_wsi_socket_from_fds "lws_change_pollfd tid" for tid
proof
  fix c p
  assume a: "poll_ok c" "0 < wsi_fd c p" "poll_map c (wsi_fd c p) = None"
  have s: "sock (pwsi c p) = int (wsi_fd c p)" using a(2) by (simp add: wsi_fd_def)
  note spec = insert_spec [OF a(1) s a(3)]
  show "\<exists>r c'. insert_wsi_socket_into_fds c p = Inr (r, c') \<and> poll_ok c' \<and> (r \<noteq> 0 \<longrightarrow> c' = c) \<and>
      (r = 0 \<longrightarrow> poll_map c' = (poll_map c)(wsi_fd c p \<mapsto> LWS_POLLIN) \<and>
         mirror (poll_log c') = (mirror (poll_log c))(wsi_fd c p \<mapsto> LWS_POLLIN))"
  proof (cases "fds_count c < max_fds c \<and> wsi_fd c p < max_fds c")
    case True
    then obtain c' where c': "insert_wsi_socket_into_fds c p = Inr (0, c')" using spec(1) by auto
    then show ?thesis using spec(2) [OF _ _ c'] True by (auto simp: mirror_append mirror_step_def)
  next
    case False
    then show ?thesis using spec(1) a(1) by auto
  qed
next
  fix c p
  assume a: "poll_ok c" "polled c p" "0 < wsi_fd c p"
  then show "\<exists>c'. remove_wsi_socket_from_fds c p = Inr (0, c') \<and> poll_ok c' \<and>
      poll_map c' = (poll_map c)(wsi_fd c p := None) \<and>
      mirror (poll_log c') = (mirror (poll_log c))(wsi_fd c p := None)"
    using remove_spec [OF a(1,2) polled_sock [OF a(1,2)]] by (auto simp: mirror_append mirror_step_def)
next
  fix c p a b
  assume x: "poll_ok c" "polled c p"
  then show "\<exists>c' v. lws_change_pollfd tid c p a b = Inr (0, c') \<and> poll_ok c' \<and> poll_map c (wsi_fd c p) = Some v \<and>
      poll_map c' = (poll_map c)(wsi_fd c p \<mapsto> ((v AND NOT a) OR b)) \<and>
      mirror (poll_log c') = (mirror (poll_log c))(wsi_fd c p \<mapsto> ((v AND NOT a) OR b))"
    using change_spec [OF x polled_sock [OF x], of tid a b] by (auto simp: mirror_append mirror_step_def)
qed


section \<open>Properties\<close>

definition empty_poll :: "nat \<Rightarrow> (nat \<Rightarrow> poll_wsi) \<Rightarrow> poll_ctx" where
  "empty_poll n w = \<lparr>fds = replicate n \<lparr>fd = 0, events = 0, revents = 0\<rparr>, fds_count = 0, max_fds = n,
     lws_lookup = replicate n None, pwsi = w, service_tid = 0, poll_log = [], cancels = 0\<rparr>"

definition plain_wsi :: "nat \<Rightarrow> poll_wsi" where
  "plain_wsi s = \<lparr>sock = int s, position_in_fds_table = -1, pw_protocol = 0, rxflow_change_to = 1,
     rxflow_buffer = None, rxflow_len = 0, rxflow_pos = 0\<rparr>"

lemma empty_poll_ok: "poll_ok (empty_poll n w) \<and> mirror (poll_log (empty_poll n w)) = poll_map (empty_poll n w)"
  by (simp add: empty_poll_def poll_ok_def mirror_def poll_map_def live_def)

text \<open>
  The entries of the lookup that stay behind, from the record of callbacks: the descriptors that are
  watched, and those that were the only ones left when they were removed and have not been used since.
\<close>

definition left_step :: "nat list \<times> nat list \<Rightarrow> poll_event \<Rightarrow> nat list \<times> nat list" where
  "left_step = (\<lambda>(ws, ls) e.
     case e of
       ADD_POLL_FD s v \<Rightarrow> (nat s # ws, removeAll (nat s) ls)
     | DEL_POLL_FD s \<Rightarrow>
         let rest = removeAll (nat s) ws
         in (rest, if rest = [] then nat s # ls else removeAll (nat s) ls)
     | _ \<Rightarrow> (ws, ls))"

definition left_behind :: "poll_event list \<Rightarrow> nat list" where
  "left_behind es = snd (foldl left_step ([], []) es)"

definition lookup_exact :: "poll_ctx \<Rightarrow> bool" where
  "lookup_exact c \<longleftrightarrow>
     (case foldl left_step ([], []) (poll_log c) of (ws, ls) \<Rightarrow>
        set ws = dom (poll_map c) \<and> (\<forall>s<max_fds c. lws_lookup c ! s \<noteq> None \<longleftrightarrow> s \<in> set ws \<or> s \<in> set ls))"

lemma insert_lookup:
  assumes "insert_wsi_socket_into_fds c p = Inr (0, c')"
  shows "lws_lookup c' = (lws_lookup c)[wsi_fd c p := Some p]"
  using assms by (auto simp: insert_wsi_socket_into_fds_def Let_def lws_plat_insert_socket_into_fds_def wsi_fd_def split: if_splits)

lemma remove_lookup:
  assumes "remove_wsi_socket_from_fds c p = Inr (0, c')"
  shows "lws_lookup c' = (if fds_count c = 1 then lws_lookup c else (lws_lookup c)[wsi_fd c p := None])"
    and "position_in_fds_table (pwsi c' p) = (if fds_count c = 1 then position_in_fds_table (pwsi c p) else -1)"
  using assms by (auto simp: remove_wsi_socket_from_fds_def Let_def do_ext_def wsi_fd_def split: if_splits option.splits)

lemma poll_map_empty:
  assumes "poll_ok c"
  shows "dom (poll_map c) = {} \<longleftrightarrow> fds_count c = 0"
proof -
  have "dom (poll_map c) = fd ` set (live c)" by (force simp: poll_map_def dom_map_of_conv_image_fst)
  then show ?thesis using length_live [OF assms] by auto
qed

lemma removed_count:
  assumes "remove_wsi_socket_from_fds c p = Inr (0, c')"
  shows "fds_count c' = 0 \<longleftrightarrow> fds_count c = 1"
  using assms by (auto simp: remove_wsi_socket_from_fds_def Let_def do_ext_def split: if_splits option.splits)

lemma lookup_insert:
  assumes "poll_ok c" "lookup_exact c" "0 < wsi_fd c p" "poll_map c (wsi_fd c p) = None"
    and "insert_wsi_socket_into_fds c p = Inr (r, c')"
  shows "lookup_exact c'"
proof -
  let ?s = "wsi_fd c p"
  have s: "sock (pwsi c p) = int ?s" using assms(3) by (simp add: wsi_fd_def)
  show ?thesis
  proof (cases "fds_count c < max_fds c \<and> ?s < max_fds c")
    case True
    then have r: "insert_wsi_socket_into_fds c p = Inr (0, c')"
      using insert_spec(1) [OF assms(1) s assms(4)] assms(5) by auto
    note c' = insert_spec(2) [OF assms(1) s assms(4) _ _ r] insert_lookup [OF r]
    have "length (lws_lookup c) = max_fds c" using assms(1) by (simp add: poll_ok_def)
    then show ?thesis
      using c' True assms(2) by (auto simp: lookup_exact_def left_step_def nth_list_update split: prod.splits)
  next
    case False
    then have "c' = c" using insert_spec(1) [OF assms(1) s assms(4)] assms(5) by auto
    then show ?thesis using assms(2) by simp
  qed
qed

lemma lookup_remove:
  assumes "poll_ok c" "lookup_exact c" "polled c p" "0 < wsi_fd c p" "remove_wsi_socket_from_fds c p = Inr (r, c')"
  shows "lookup_exact c'"
proof -
  let ?s = "wsi_fd c p"
  obtain ws ls where f: "foldl left_step ([], []) (poll_log c) = (ws, ls)" "set ws = dom (poll_map c)"
    "\<forall>s<max_fds c. lws_lookup c ! s \<noteq> None \<longleftrightarrow> s \<in> set ws \<or> s \<in> set ls"
    using assms(2) by (auto simp: lookup_exact_def split: prod.splits)
  have r: "remove_wsi_socket_from_fds c p = Inr (0, c')" and c': "poll_ok c'" "poll_map c' = (poll_map c)(?s := None)"
    "poll_log c' = poll_log c @ [LOCK_POLL (int ?s), DEL_POLL_FD (int ?s), UNLOCK_POLL (int ?s)]" "max_fds c' = max_fds c"
    using remove_spec [OF assms(1,3) polled_sock [OF assms(1,3)]] assms(4,5) by auto
  have "?s < max_fds c" by (rule polled_slot [OF assms(1,3)]) (auto simp: wsi_fd_def)
  moreover have "lws_lookup c ! ?s \<noteq> None" by (rule polled_slot [OF assms(1,3)]) (auto simp: wsi_fd_def)
  moreover have len: "length (lws_lookup c) = max_fds c" using assms(1) by (simp add: poll_ok_def)
  moreover have rest: "set (removeAll ?s ws) = dom (poll_map c')" using f(2) c'(2) by auto
  moreover from rest have "removeAll ?s ws = [] \<longleftrightarrow> fds_count c = 1"
    using poll_map_empty [OF c'(1)] removed_count [OF r] by (metis set_empty)
  ultimately show ?thesis
    using f(1,3) c'(3,4) remove_lookup(1) [OF r]
    by (auto simp: lookup_exact_def left_step_def nth_list_update Let_def)
qed

lemma reaches_lookup:
  assumes "lws_poll.reaches tid c0 c" "poll_ok c0" "lookup_exact c0" "mirror (poll_log c0) = poll_map c0"
  shows "lookup_exact c"
  using assms
proof (induction rule: lws_poll.reaches.induct)
  case (reaches_step c oper r c')
  then have c: "poll_ok c" "lookup_exact c" using lws_poll.reaches_inv [of tid c0 c] by auto
  show ?case
  proof (cases oper)
    case (Op_change p a b)
    then have p: "polled c p" "lws_change_pollfd tid c p a b = Inr (r, c')"
      using reaches_step.hyps by (simp_all add: lws_poll.legal_def lws_poll.apply_op_def)
    have "dom (poll_map c') = dom (poll_map c)" "lws_lookup c' = lws_lookup c" "max_fds c' = max_fds c"
      "foldl left_step ([], []) (poll_log c') = foldl left_step ([], []) (poll_log c)"
      using change_spec [OF c(1) p(1) polled_sock [OF c(1) p(1)], of tid a b] p(2)
      by (auto simp: left_step_def split: prod.splits if_splits)
    then show ?thesis using c(2) by (simp add: lookup_exact_def)
  qed (use reaches_step.hyps lookup_insert [OF c] lookup_remove [OF c] in \<open>auto simp: lws_poll.legal_def lws_poll.apply_op_def\<close>)
qed



text \<open>
  Receive flow control reaches the poll table: where the events agree with what is allowed and no
  input is held back, asking for a state and applying it sets \<open>POLLIN\<close> exactly when receiving is
  allowed, and changes no other event and no other connection.
\<close>

theorem rx_flow_control_applied:
  assumes "poll_ok c" "polled c p" "sock (pwsi c p) = int s" "rxflow_buffer (pwsi c p) = None"
    "rxflow_change_to (pwsi c p) = (if bit v 0 then 1 else 0)" "poll_map c s = Some v"
  shows "\<exists>c1 c2. libwebsocket_rx_flow_control c p (if on then 1 else 0) = Inr (0, c1) \<and>
    apply_rx_flow_control ext tid c1 p = Inr (0, c2) \<and> poll_ok c2 \<and>
    poll_map c2 = (poll_map c)(s \<mapsto> if on then v OR LWS_POLLIN else v AND NOT LWS_POLLIN)"
proof (cases "on = bit v 0")
  case True
  have "libwebsocket_rx_flow_control c p (if on then 1 else 0) = Inr (0, c)"
    using True assms(5) by (simp add: libwebsocket_rx_flow_control_def)
  moreover have "apply_rx_flow_control ext tid c p = Inr (0, c)"
    using assms(5) by (simp add: apply_rx_flow_control_def Let_def)
  moreover have "(if on then v OR LWS_POLLIN else v AND NOT LWS_POLLIN) = v"
    using True by (intro bit_word_eqI) (auto simp: bit_or_iff bit_and_iff bit_not_iff bit_1_iff intro!: gr0I)
  ultimately show ?thesis using assms(1,6) by (auto simp: map_upd_triv)
next
  case False
  let ?w = "\<lambda>x. upd_wsi p (\<lambda>w. w\<lparr>rxflow_change_to := x\<rparr>) c"
  let ?x = "2 OR (if on then 1 else 0) :: byte" and ?y = "if on then 1 else 0 :: byte"
  have r1: "libwebsocket_rx_flow_control c p (if on then 1 else 0) = Inr (0, ?w ?x)"
    using False assms(5) by (auto simp: libwebsocket_rx_flow_control_def)
  have upd: "upd_wsi p (\<lambda>w. w\<lparr>rxflow_change_to := rxflow_change_to w AND NOT 2\<rparr>) (?w ?x) = ?w ?y"
    by (simp add: upd_wsi_def)
  have ok: "poll_ok (?w ?y)" "polled (?w ?y) p" "sock (pwsi (?w ?y) p) = int s" "poll_map (?w ?y) = poll_map c"
  proof -
    have "slot_ok (?w ?y) n = slot_ok c n" for n by (simp add: slot_ok_def Let_def split: option.split)
    then show "poll_ok (?w ?y)" using assms(1) by (simp add: poll_ok_def)
  qed (use assms(2,3) in \<open>simp_all add: polled_def poll_map_def live_def\<close>)
  obtain c2 where c2: "lws_change_pollfd tid (?w ?y) p (if on then 0 else LWS_POLLIN) (if on then LWS_POLLIN else 0) = Inr (0, c2)"
    "poll_ok c2" "poll_map c2 = (poll_map c)(s \<mapsto> ((v AND NOT (if on then 0 else LWS_POLLIN)) OR (if on then LWS_POLLIN else 0)))"
    using change_spec [OF ok(1-3), of tid "if on then 0 else LWS_POLLIN" "if on then LWS_POLLIN else 0"] ok(4) assms(6) by auto
  have "apply_rx_flow_control ext tid (?w ?x) p = Inr (0, c2)"
    unfolding apply_rx_flow_control_def Let_def upd using c2(1) assms(4) by (cases on) simp_all
  then show ?thesis using r1 c2(2,3) by (cases on) auto
qed

theorem rx_flow_control_applied_witness:
  "\<exists>c c1 c2. libwebsocket_rx_flow_control c 5 0 = Inr (0, c1) \<and> apply_rx_flow_control 0 0 c1 5 = Inr (0, c2) \<and>
     poll_map c 5 = Some 1 \<and> poll_map c2 5 = Some 0"
proof -
  let ?c0 = "empty_poll 8 plain_wsi"
  obtain c where c: "insert_wsi_socket_into_fds ?c0 5 = Inr (0, c)"
    by (simp add: insert_wsi_socket_into_fds_def empty_poll_def plain_wsi_def Let_def)
  have "poll_ok c" "poll_map c 5 = Some 1" "sock (pwsi c 5) = int 5" "rxflow_buffer (pwsi c 5) = None" "rxflow_change_to (pwsi c 5) = 1"
    using insert_spec(2) [of ?c0 5 5 c] c empty_poll_ok
    by (simp_all add: empty_poll_def plain_wsi_def poll_map_def live_def)
  moreover have "polled c 5"
    using c by (auto simp: polled_def insert_wsi_socket_into_fds_def empty_poll_def plain_wsi_def Let_def lws_plat_insert_socket_into_fds_def)
  ultimately obtain c1 c2 where "libwebsocket_rx_flow_control c 5 0 = Inr (0, c1)"
    "apply_rx_flow_control 0 0 c1 5 = Inr (0, c2)" "poll_map c2 = (poll_map c)(5 \<mapsto> 0)"
    using rx_flow_control_applied [of c 5 5 1 False 0 0] by auto
  then show ?thesis using \<open>poll_map c 5 = Some 1\<close> by (metis fun_upd_same)
qed

text \<open>
  Removing the last connection leaves it reachable: the entry of the lookup by descriptor and the
  position the connection remembers stay as they were, although the connection is freed next.
\<close>

theorem last_removal_leaves_lookup:
  assumes "poll_ok c" "polled c p" "fds_count c = 1"
  shows "\<exists>c'. remove_wsi_socket_from_fds c p = Inr (0, c') \<and> fds_count c' = 0 \<and>
    lws_lookup c' ! wsi_fd c p = Some p \<and> position_in_fds_table (pwsi c' p) = 0"
proof -
  obtain n s where s: "n < fds_count c" "lws_lookup c ! s = Some p" "sock (pwsi c p) = int s"
    "position_in_fds_table (pwsi c p) = int n"
    by (rule polled_slot [OF assms(1,2)])
  then show ?thesis using assms(3)
    by (auto simp: remove_wsi_socket_from_fds_def Let_def do_ext_def wsi_fd_def)
qed

theorem last_removal_leaves_lookup_witness:
  "\<exists>c c'. remove_wsi_socket_from_fds c 5 = Inr (0, c') \<and> fds_count c' = 0 \<and> lws_lookup c' ! 5 = Some 5"
proof -
  let ?c0 = "empty_poll 8 plain_wsi"
  obtain c where c: "insert_wsi_socket_into_fds ?c0 5 = Inr (0, c)"
    by (simp add: insert_wsi_socket_into_fds_def empty_poll_def plain_wsi_def Let_def)
  have "poll_ok c" "polled c 5" "fds_count c = 1" "wsi_fd c 5 = 5"
    using insert_spec(2) [of ?c0 5 5 c] c empty_poll_ok
    by (auto simp: polled_def insert_wsi_socket_into_fds_def empty_poll_def plain_wsi_def Let_def poll_map_def live_def
        lws_plat_insert_socket_into_fds_def wsi_fd_def)
  then show ?thesis using last_removal_leaves_lookup [of c 5] by metis
qed

end
