(* ===== verification/Rx_Flow.thy ===== *)
theory Rx_Flow
  imports Frames Pollfd
begin

text \<open>
  Receiving under flow control: \<open>libwebsocket_interpret_incoming_packet\<close> of \<^verbatim>\<open>lib/server.c\<close>, which
  feeds the frame parser until the user stops it and then keeps the rest in \<open>rxflow_buffer\<close>, and the
  drain of that buffer in \<open>libwebsocket_service_fd\<close> of \<^verbatim>\<open>lib/service.c\<close>. The frame parser comes from
  \<open>Rx_Sm\<close>, the flow control state and the poll table from \<open>Pollfd\<close>.
\<close>

unbundle bit_operations_syntax

section \<open>Operations\<close>

text \<open>
  What the receive callback of the user asks for, given the history of callbacks: \<open>None\<close> for no call
  of \<open>libwebsocket_rx_flow_control\<close>. \<open>fl_ext\<close> and \<open>fl_tid\<close> are what the poll table asks of the
  extensions and of the thread.
\<close>

record flow_env =
  fl_rx :: rx_env
  fl_ask :: "rx_event list \<Rightarrow> int option"
  fl_ext :: int
  fl_tid :: int

datatype flow_stop = Flow_closed | Flow_overrun | Flow_poll poll_stop

text \<open>
  After a step of the parser that gave \<open>log\<close>: where it called the user, the request of the user is
  recorded, and \<open>user_callback_handle_rxflow\<close> applies it when the callback answered 0.
\<close>

definition flow_callback :: "flow_env \<Rightarrow> nat \<Rightarrow> rx_event list \<Rightarrow> poll_ctx \<Rightarrow> flow_stop + poll_ctx" where
  "flow_callback env p log c =
     (case (last log, callback (fl_rx env)) of
        (Ev_receive b, Some cb) \<Rightarrow>
          (case (case fl_ask env log of None \<Rightarrow> Inr (0, c) | Some e \<Rightarrow> libwebsocket_rx_flow_control c p e) of
             Inl x \<Rightarrow> Inl (Flow_poll x)
           | Inr (_, c1) \<Rightarrow>
               if cb (butlast log) b \<noteq> 0 then Inr c1
               else case apply_rx_flow_control (fl_ext env) (fl_tid env) c1 p of
                      Inl x \<Rightarrow> Inl (Flow_poll x)
                    | Inr (_, c2) \<Rightarrow> Inr c2)
      | _ \<Rightarrow> Inr c)"

text \<open>A byte that comes from the flow buffer is counted.\<close>

definition count_rxflow :: "nat \<Rightarrow> poll_ctx \<Rightarrow> poll_ctx" where
  "count_rxflow p c =
     (if rxflow_buffer (pwsi c p) \<noteq> None then upd_wsi p (\<lambda>w. w\<lparr>rxflow_pos := rxflow_pos w + 1\<rparr>) c else c)"

text \<open>
  The loop of \<open>libwebsocket_interpret_incoming_packet\<close>: \<open>bs\<close> are the bytes of \<open>buf\<close> that are left. The
  result is the return value, the context and the connection.
\<close>

fun incoming_loop ::
    "flow_env \<Rightarrow> nat \<Rightarrow> byte list \<Rightarrow> byte list \<Rightarrow> poll_ctx \<Rightarrow> ws_wsi \<Rightarrow> flow_stop + int \<times> poll_ctx \<times> ws_wsi" where
  "incoming_loop env p buf [] c w = Inr (0, c, w)"
| "incoming_loop env p buf (b # bs) c w =
     (if rxflow_change_to (pwsi c p) AND LWS_RXFLOW_ALLOW = 0 then
        Inr (1, snd (lws_rxflow_cache c p buf (length buf - length (b # bs))), w)
      else
        let c1 = count_rxflow p c
        in case libwebsocket_rx_sm (fl_rx env) w b of
             Inl (Rx_closed _) \<Rightarrow> Inl Flow_closed
           | Inl Rx_overrun \<Rightarrow> Inl Flow_overrun
           | Inr w1 \<Rightarrow>
               (case (if rx_log w1 = rx_log w then Inr c1 else flow_callback env p (rx_log w1) c1) of
                  Inl x \<Rightarrow> Inl x
                | Inr c2 \<Rightarrow> incoming_loop env p buf bs c2 w1))"

definition libwebsocket_interpret_incoming_packet ::
    "flow_env \<Rightarrow> nat \<Rightarrow> byte list \<Rightarrow> poll_ctx \<Rightarrow> ws_wsi \<Rightarrow> flow_stop + int \<times> poll_ctx \<times> ws_wsi" where
  "libwebsocket_interpret_incoming_packet env p buf c w = incoming_loop env p buf buf c w"

text \<open>
  The drain in \<open>libwebsocket_service_fd\<close>, when the buffer is held and receiving is allowed: the rest of
  the buffer is read, and a buffer that is used up is freed and receiving is armed again.
\<close>

definition drain_rxflow :: "flow_env \<Rightarrow> nat \<Rightarrow> poll_ctx \<Rightarrow> ws_wsi \<Rightarrow> flow_stop + poll_ctx \<times> ws_wsi" where
  "drain_rxflow env p c w =
     (case rxflow_buffer (pwsi c p) of
        None \<Rightarrow> Inr (c, w)
      | Some buf \<Rightarrow>
          if rxflow_change_to (pwsi c p) AND LWS_RXFLOW_ALLOW = 0 then Inr (c, w)
          else
            let rest = take (rxflow_len (pwsi c p) - rxflow_pos (pwsi c p)) (drop (rxflow_pos (pwsi c p)) buf)
            in case (if rest = [] then Inr (0, c, w) else libwebsocket_interpret_incoming_packet env p rest c w) of
                 Inl x \<Rightarrow> Inl x
               | Inr (_, c1, w1) \<Rightarrow>
                   if rxflow_buffer (pwsi c1 p) \<noteq> None \<and> rxflow_pos (pwsi c1 p) = rxflow_len (pwsi c1 p) then
                     (case apply_rx_flow_control (fl_ext env) (fl_tid env)
                             (upd_wsi p (\<lambda>w. w\<lparr>rxflow_buffer := None\<rparr>) c1) p of
                        Inl x \<Rightarrow> Inl (Flow_poll x)
                      | Inr (_, c2) \<Rightarrow> Inr (c2, w1))
                   else Inr (c1, w1))"

section \<open>What waits\<close>

definition held :: "poll_ctx \<Rightarrow> nat \<Rightarrow> byte list" where
  "held c p = (case rxflow_buffer (pwsi c p) of None \<Rightarrow> [] | Some buf \<Rightarrow> drop (rxflow_pos (pwsi c p)) buf)"

text \<open>The bookkeeping of the buffer.\<close>

definition flow_ok :: "poll_ctx \<Rightarrow> nat \<Rightarrow> bool" where
  "flow_ok c p \<longleftrightarrow>
     (case rxflow_buffer (pwsi c p) of None \<Rightarrow> True
      | Some buf \<Rightarrow> rxflow_len (pwsi c p) = length buf \<and> rxflow_pos (pwsi c p) \<le> length buf)"

text \<open>Flow control and the poll table leave buffer, length and position alone.\<close>

definition same_buffer :: "poll_ctx \<Rightarrow> poll_ctx \<Rightarrow> nat \<Rightarrow> bool" where
  "same_buffer c d p \<longleftrightarrow> rxflow_buffer (pwsi d p) = rxflow_buffer (pwsi c p) \<and>
     rxflow_len (pwsi d p) = rxflow_len (pwsi c p) \<and> rxflow_pos (pwsi d p) = rxflow_pos (pwsi c p)"

lemma same_buffer_refl [simp]: "same_buffer c c p"
  by (simp add: same_buffer_def)

lemma same_buffer_trans: "same_buffer c d p \<Longrightarrow> same_buffer d e p \<Longrightarrow> same_buffer c e p"
  by (simp add: same_buffer_def)

lemma same_buffer_held: "same_buffer c d p \<Longrightarrow> held d p = held c p \<and> flow_ok d p = flow_ok c p"
  by (auto simp: same_buffer_def held_def flow_ok_def split: option.splits)

lemma change_pollfd_buffer: "lws_change_pollfd tid c p a b = Inr (r, d) \<Longrightarrow> same_buffer c d p"
  by (auto simp: lws_change_pollfd_def Let_def same_buffer_def libwebsocket_cancel_service_def split: if_splits)

lemma on_writable_buffer: "libwebsocket_callback_on_writable ext tid c p = Inr (r, d) \<Longrightarrow> same_buffer c d p"
  by (auto simp: libwebsocket_callback_on_writable_def dest!: change_pollfd_buffer
      split: if_splits sum.splits)

lemma apply_buffer: "apply_rx_flow_control ext tid c p = Inr (r, d) \<Longrightarrow> same_buffer c d p"
  by (cases "libwebsocket_callback_on_writable ext tid c p")
     (auto simp: apply_rx_flow_control_def Let_def same_buffer_def dest!: change_pollfd_buffer on_writable_buffer
      split: if_splits sum.splits)

lemma flow_control_buffer: "libwebsocket_rx_flow_control c p e = Inr (r, d) \<Longrightarrow> same_buffer c d p"
  by (auto simp: libwebsocket_rx_flow_control_def same_buffer_def split: if_splits)

lemma flow_callback_buffer: "flow_callback env p log c = Inr d \<Longrightarrow> same_buffer c d p"
  by (auto simp: flow_callback_def split: option.splits sum.splits rx_event.splits if_splits
      dest!: apply_buffer flow_control_buffer intro: same_buffer_trans)

section \<open>No byte is lost or read twice\<close>

text \<open>
  What a run of the loop over the rest of a buffer has done: a prefix went through the parser, and the
  position counts it when the bytes come from the flow buffer; the loop stops early only by putting
  the rest of a fresh packet into the flow buffer.
\<close>

lemma incoming_loop_spec:
  assumes "incoming_loop env p buf bs c w = Inr (r, d, v)" "length bs \<le> length buf" "drop (length buf - length bs) buf = bs"
  shows "\<exists>k \<le> length bs. run_bytes (libwebsocket_rx_sm (fl_rx env)) w (take k bs) = Inr v \<and>
     (case rxflow_buffer (pwsi c p) of
        None \<Rightarrow> (if k = length bs then rxflow_buffer (pwsi d p) = None
                 else rxflow_buffer (pwsi d p) = Some (drop k bs) \<and> rxflow_len (pwsi d p) = length bs - k \<and> rxflow_pos (pwsi d p) = 0)
      | Some b \<Rightarrow> rxflow_buffer (pwsi d p) = Some b \<and> rxflow_len (pwsi d p) = rxflow_len (pwsi c p) \<and>
          rxflow_pos (pwsi d p) = rxflow_pos (pwsi c p) + k)"
  using assms
proof (induction bs arbitrary: c w)
  case Nil
  then show ?case by (auto split: option.splits)
next
  case (Cons b bs)
  show ?case
  proof (cases "rxflow_change_to (pwsi c p) AND LWS_RXFLOW_ALLOW = 0")
    case True
    then show ?thesis
      using Cons.prems by (intro exI [of _ 0]) (auto simp: lws_rxflow_cache_def split: option.splits)
  next
    case False
    obtain w1 c2 where s: "libwebsocket_rx_sm (fl_rx env) w b = Inr w1"
      "(if rx_log w1 = rx_log w then Inr (count_rxflow p c) else flow_callback env p (rx_log w1) (count_rxflow p c)) = Inr c2"
      "incoming_loop env p buf bs c2 w1 = Inr (r, d, v)"
      using Cons.prems(1) False by (simp add: Let_def split: sum.splits rx_stop.splits)
    have same: "same_buffer (count_rxflow p c) c2 p"
      using s(2) by (auto dest: flow_callback_buffer split: if_splits)
    have "length buf - length bs = Suc (length buf - length (b # bs))" using Cons.prems(2) by simp
    then have d: "drop (length buf - length bs) buf = bs" using Cons.prems(3) by (metis drop_Suc list.sel(3) tl_drop)
    obtain k where k: "k \<le> length bs" "run_bytes (libwebsocket_rx_sm (fl_rx env)) w1 (take k bs) = Inr v"
      "case rxflow_buffer (pwsi c2 p) of
        None \<Rightarrow> (if k = length bs then rxflow_buffer (pwsi d p) = None
                 else rxflow_buffer (pwsi d p) = Some (drop k bs) \<and> rxflow_len (pwsi d p) = length bs - k \<and> rxflow_pos (pwsi d p) = 0)
      | Some b \<Rightarrow> rxflow_buffer (pwsi d p) = Some b \<and> rxflow_len (pwsi d p) = rxflow_len (pwsi c2 p) \<and>
          rxflow_pos (pwsi d p) = rxflow_pos (pwsi c2 p) + k"
      using Cons.IH [OF s(3) _ d] Cons.prems(2) by auto
    then show ?thesis using s(1) same
      by (intro exI [of _ "Suc k"]) (auto simp: same_buffer_def count_rxflow_def split: option.splits if_splits)
  qed
qed

text \<open>
  The service loop takes a packet from the socket unless it drains the flow buffer instead: also when
  a buffer is held and receiving is not allowed. Such a packet finds the buffer in use.
\<close>

definition reads_socket :: "poll_ctx \<Rightarrow> nat \<Rightarrow> bool" where
  "reads_socket c p \<longleftrightarrow> \<not> (rxflow_buffer (pwsi c p) \<noteq> None \<and> rxflow_change_to (pwsi c p) AND LWS_RXFLOW_ALLOW \<noteq> 0)"

lemma packet_dropped:
  assumes "reads_socket c p" "rxflow_buffer (pwsi c p) \<noteq> None"
    "libwebsocket_interpret_incoming_packet env p buf c w = Inr (r, d, v)"
  shows "d = c" "v = w"
  using assms by (cases buf; auto simp: reads_socket_def libwebsocket_interpret_incoming_packet_def lws_rxflow_cache_def)+

text \<open>
  The life of a connection between the handshake and its end: packets arrive, the service loop drains
  what is held, and the user asks for a state and has it applied at any time. Each packet that arrived
  is recorded, and whether a buffer was free for it.
\<close>

inductive flow_run :: "flow_env \<Rightarrow> nat \<Rightarrow> poll_ctx \<Rightarrow> ws_wsi \<Rightarrow> (bool \<times> byte list) list \<Rightarrow> poll_ctx \<Rightarrow> ws_wsi \<Rightarrow> bool"
  for env p c0 w0 where
  flow_start: "flow_run env p c0 w0 [] c0 w0"
| flow_packet: "flow_run env p c0 w0 bs c w \<Longrightarrow> reads_socket c p \<Longrightarrow>
    libwebsocket_interpret_incoming_packet env p buf c w = Inr (r, d, v) \<Longrightarrow>
    flow_run env p c0 w0 (bs @ [(rxflow_buffer (pwsi c p) = None, buf)]) d v"
| flow_drain: "flow_run env p c0 w0 bs c w \<Longrightarrow> drain_rxflow env p c w = Inr (d, v) \<Longrightarrow> flow_run env p c0 w0 bs d v"
| flow_ask: "flow_run env p c0 w0 bs c w \<Longrightarrow> libwebsocket_rx_flow_control c p e = Inr (r, d) \<Longrightarrow>
    flow_run env p c0 w0 bs d w"
| flow_apply: "flow_run env p c0 w0 bs c w \<Longrightarrow> apply_rx_flow_control ext tid c p = Inr (r, d) \<Longrightarrow>
    flow_run env p c0 w0 bs d w"

lemma packet_exact:
  assumes "rxflow_buffer (pwsi c p) = None" "libwebsocket_interpret_incoming_packet env p buf c w = Inr (r, d, v)"
  shows "flow_ok d p \<and> (\<exists>k. run_bytes (libwebsocket_rx_sm (fl_rx env)) w (take k buf) = Inr v \<and> held d p = drop k buf)"
proof -
  obtain k where k: "k \<le> length buf" "run_bytes (libwebsocket_rx_sm (fl_rx env)) w (take k buf) = Inr v"
    "if k = length buf then rxflow_buffer (pwsi d p) = None
     else rxflow_buffer (pwsi d p) = Some (drop k buf) \<and> rxflow_len (pwsi d p) = length buf - k \<and> rxflow_pos (pwsi d p) = 0"
    using incoming_loop_spec [of env p buf buf c w r d v] assms
    by (auto simp: libwebsocket_interpret_incoming_packet_def)
  have "flow_ok d p" "held d p = drop k buf" using k(3) by (auto simp: flow_ok_def held_def split: if_splits)
  then show ?thesis using k(2) by auto
qed

lemma drain_exact:
  assumes "flow_ok c p" "drain_rxflow env p c w = Inr (d, v)"
  shows "flow_ok d p \<and> (\<exists>k. run_bytes (libwebsocket_rx_sm (fl_rx env)) w (take k (held c p)) = Inr v \<and>
           held d p = drop k (held c p))"
proof (cases "rxflow_buffer (pwsi c p)")
  case None
  then show ?thesis using assms by (auto simp: drain_rxflow_def intro: exI [of _ 0])
next
  case (Some buf)
  let ?i = "rxflow_pos (pwsi c p)"
  have ok: "rxflow_len (pwsi c p) = length buf" "?i \<le> length buf" "held c p = drop ?i buf"
    using assms(1) Some by (auto simp: flow_ok_def held_def)
  show ?thesis
  proof (cases "rxflow_change_to (pwsi c p) AND LWS_RXFLOW_ALLOW = 0")
    case True
    then show ?thesis using assms Some by (auto simp: drain_rxflow_def intro: exI [of _ 0])
  next
    case False
    define R where "R = (if drop ?i buf = [] then Inr (0, c, w)
        else libwebsocket_interpret_incoming_packet env p (drop ?i buf) c w)"
    have e: "drain_rxflow env p c w =
        (case R of Inl x \<Rightarrow> Inl x
         | Inr (_, c1, w1) \<Rightarrow>
             if rxflow_buffer (pwsi c1 p) \<noteq> None \<and> rxflow_pos (pwsi c1 p) = rxflow_len (pwsi c1 p) then
               (case apply_rx_flow_control (fl_ext env) (fl_tid env) (upd_wsi p (\<lambda>w. w\<lparr>rxflow_buffer := None\<rparr>) c1) p of
                  Inl x \<Rightarrow> Inl (Flow_poll x) | Inr (_, c2) \<Rightarrow> Inr (c2, w1))
             else Inr (c1, w1))"
      using Some False ok by (simp add: drain_rxflow_def Let_def R_def)
    obtain r c1 v1 where c1: "R = Inr (r, c1, v1)" using assms(2) unfolding e by (cases R) auto
    have v1: "v1 = v" and d: "d = c1 \<or> (rxflow_pos (pwsi c1 p) = rxflow_len (pwsi c1 p) \<and>
        (\<exists>r'. apply_rx_flow_control (fl_ext env) (fl_tid env) (upd_wsi p (\<lambda>w. w\<lparr>rxflow_buffer := None\<rparr>) c1) p = Inr (r', d)))"
      using assms(2) unfolding e c1 by (auto split: sum.splits if_splits)
    note c1 = c1 [unfolded R_def v1]
    obtain k where k: "k \<le> length (drop ?i buf)" "run_bytes (libwebsocket_rx_sm (fl_rx env)) w (take k (drop ?i buf)) = Inr v"
      "rxflow_buffer (pwsi c1 p) = Some buf" "rxflow_len (pwsi c1 p) = length buf" "rxflow_pos (pwsi c1 p) = ?i + k"
    proof (cases "drop ?i buf = []")
      case True
      then have "c1 = c" "v = w" using c1 by simp_all
      then show thesis by (intro that [of 0]) (simp_all only: Some ok, simp_all)
    next
      case False
      then show thesis
        using c1 that incoming_loop_spec [of env p "drop ?i buf" "drop ?i buf" c w r c1 v] Some ok
        by (auto simp: libwebsocket_interpret_incoming_packet_def)
    qed
    have h1: "flow_ok c1 p" "held c1 p = drop k (held c p)"
      using k ok by (auto simp: flow_ok_def held_def add.commute)
    from d show ?thesis
    proof
      assume "d = c1"
      then show ?thesis using h1 k(2) ok(3) by auto
    next
      assume a: "rxflow_pos (pwsi c1 p) = rxflow_len (pwsi c1 p) \<and>
        (\<exists>r'. apply_rx_flow_control (fl_ext env) (fl_tid env) (upd_wsi p (\<lambda>w. w\<lparr>rxflow_buffer := None\<rparr>) c1) p = Inr (r', d))"
      then have "rxflow_buffer (pwsi d p) = None"
        by (auto dest!: apply_buffer simp: same_buffer_def)
      then have "flow_ok d p" "held d p = []" by (simp_all add: flow_ok_def held_def)
      moreover have "k = length (held c p)" using a k(4,5) ok by auto
      ultimately show ?thesis using k(2) ok(3) by (intro conjI exI [of _ k]) simp_all
    qed
  qed
qed

text \<open>The bytes of the packets that found a buffer free.\<close>

definition taken :: "(bool \<times> byte list) list \<Rightarrow> byte list" where
  "taken ps = concat (map snd (filter fst ps))"

lemma taken_simps [simp]: "taken [] = []" "taken (ps @ [(free, buf)]) = taken ps @ (if free then buf else [])"
  by (simp_all add: taken_def)

lemma flow_run_exact:
  assumes "flow_run env p c0 w0 bs c w" "rxflow_buffer (pwsi c0 p) = None"
  shows "flow_ok c p \<and> (\<exists>read. taken bs = read @ held c p \<and> run_bytes (libwebsocket_rx_sm (fl_rx env)) w0 read = Inr w)"
  using assms
proof (induction rule: flow_run.induct)
  case flow_start
  then show ?case by (simp add: flow_ok_def held_def)
next
  case (flow_packet bs c w buf r d v)
  show ?case
  proof (cases "rxflow_buffer (pwsi c p) = None")
    case False
    then show ?thesis using packet_dropped [OF flow_packet.hyps(2) False flow_packet.hyps(3)] flow_packet by auto
  next
    case True
    then obtain k where "flow_ok d p" "run_bytes (libwebsocket_rx_sm (fl_rx env)) w (take k buf) = Inr v" "held d p = drop k buf"
      using packet_exact flow_packet.hyps(3) by blast
    moreover have "run_bytes (libwebsocket_rx_sm (fl_rx env)) w0 (taken bs) = Inr w"
      using flow_packet True by (auto simp: held_def)
    ultimately show ?thesis using True by (intro conjI exI [of _ "taken bs @ take k buf"]) (simp_all add: run_bytes_append)
  qed
next
  case (flow_drain bs c w d v)
  then obtain read where r: "flow_ok c p" "taken bs = read @ held c p" "run_bytes (libwebsocket_rx_sm (fl_rx env)) w0 read = Inr w"
    by auto
  obtain k where "flow_ok d p" "run_bytes (libwebsocket_rx_sm (fl_rx env)) w (take k (held c p)) = Inr v"
    "held d p = drop k (held c p)"
    using drain_exact [OF r(1) flow_drain.hyps(2)] by blast
  then show ?case using r by (intro conjI exI [of _ "read @ take k (held c p)"]) (simp_all add: run_bytes_append)
next
  case (flow_ask bs c w e r d)
  then show ?case using same_buffer_held [OF flow_control_buffer [OF flow_ask.hyps(2)]] by simp
next
  case (flow_apply bs c w ext tid r d)
  then show ?case using same_buffer_held [OF apply_buffer [OF flow_apply.hyps(2)]] by simp
qed

section \<open>Property\<close>

text \<open>
  C7. Receive flow control repeats nothing, and loses just the packets the service loop reads while the
  flow buffer is in use: however packets, stops, restarts and drains follow each other, the frame
  parser has read exactly the bytes of the packets that found the buffer free, in order, up to those
  that wait in the flow buffer, and its state is the one reading them in one piece gives. A packet
  finds the buffer in use when a stop that was asked for is not applied to the poll table yet.
\<close>

theorem flow_control_exact:
  assumes "flow_run env p c0 w0 ps c w" "rxflow_buffer (pwsi c0 p) = None"
  shows "\<exists>read. concat (map snd (filter fst ps)) = read @ held c p \<and>
    run_bytes (libwebsocket_rx_sm (fl_rx env)) w0 read = Inr w"
  using flow_run_exact [OF assms] by (auto simp: taken_def)

text \<open>A connection that was told to stop: a packet waits, and the next one is lost.\<close>

theorem flow_control_exact_witness:
  "\<exists>c w. flow_run \<lparr>fl_rx = plain_env, fl_ask = (\<lambda>_. None), fl_ext = 0, fl_tid = 0\<rparr> 5 (empty_poll 8 plain_wsi) new_ws
       [(True, [0x81, 0x01, 0x61]), (False, [0x81, 0x01, 0x62])] c w \<and> rxflow_buffer (pwsi c 5) = Some [0x81, 0x01, 0x61] \<and>
     (\<exists>read. [0x81, 0x01, 0x61] = read @ held c 5 \<and> run_bytes (libwebsocket_rx_sm plain_env) new_ws read = Inr w)"
proof -
  let ?env = "\<lparr>fl_rx = plain_env, fl_ask = (\<lambda>_. None), fl_ext = 0, fl_tid = 0\<rparr> :: flow_env"
  let ?c0 = "empty_poll 8 plain_wsi"
  obtain c1 where c1: "libwebsocket_rx_flow_control ?c0 5 0 = Inr (0, c1)" "rxflow_buffer (pwsi c1 5) = None"
    "rxflow_change_to (pwsi c1 5) = 2"
    by (simp add: libwebsocket_rx_flow_control_def empty_poll_def plain_wsi_def)
  obtain c2 where c2: "libwebsocket_interpret_incoming_packet ?env 5 [0x81, 0x01, 0x61] c1 new_ws = Inr (1, c2, new_ws)"
    "rxflow_buffer (pwsi c2 5) = Some [0x81, 0x01, 0x61]" "rxflow_change_to (pwsi c2 5) = 2"
    using c1(2,3) by (simp add: libwebsocket_interpret_incoming_packet_def lws_rxflow_cache_def)
  have c3: "libwebsocket_interpret_incoming_packet ?env 5 [0x81, 0x01, 0x62] c2 new_ws = Inr (1, c2, new_ws)"
    using c2(2,3) by (simp add: libwebsocket_interpret_incoming_packet_def lws_rxflow_cache_def)
  have f: "reads_socket c1 5" "reads_socket c2 5" using c1(2) c2(3) by (simp_all add: reads_socket_def)
  have r: "flow_run ?env 5 ?c0 new_ws [(True, [0x81, 0x01, 0x61]), (False, [0x81, 0x01, 0x62])] c2 new_ws"
    using flow_packet [OF flow_packet [OF flow_ask [OF flow_start c1(1)] f(1) c2(1)] f(2) c3] c1(2) c2(2) by simp
  have "rxflow_buffer (pwsi ?c0 5) = None" by (simp add: empty_poll_def plain_wsi_def)
  from flow_control_exact [OF r this] show ?thesis using r c2(2) by auto
qed

end
