(* ===== verification/Http_Server.thy ===== *)
theory Http_Server
  imports Handshake Rx_Flow
begin

text \<open>
  The server side of a connection from its first byte: \<open>lws_http_action\<close> and \<open>lws_handshake_server\<close> of
  \<^verbatim>\<open>lib/server.c\<close> and \<open>libwebsocket_read\<close> of \<^verbatim>\<open>lib/handshake.c\<close>, which run the header parser, answer
  websocket and plain HTTP requests, collect the body of a POST and start over on a kept-alive
  connection. The header table is a heap block with an owner: it can be missing, live or freed.
\<close>

unbundle bit_operations_syntax

section \<open>State\<close>

abbreviation (input) WSI_TOKEN_HTTP_CONTENT_LENGTH :: nat where "WSI_TOKEN_HTTP_CONTENT_LENGTH \<equiv> 27"

text \<open>
  The pointer \<open>u.hdr.ah\<close>: NULL, a live block, a freed one. In the union \<open>u.http.ah\<close> lies at the same
  place, and so does \<open>u.ws.rx_user_buffer\<close>, the receive buffer of a websocket connection.
\<close>

datatype ah_block = Ah_null | Ah_live | Ah_freed | Ah_rx_buffer

datatype pending_timeout =
    NO_PENDING_TIMEOUT
  | PENDING_TIMEOUT_AWAITING_PROXY_RESPONSE
  | PENDING_TIMEOUT_AWAITING_CONNECT_RESPONSE
  | PENDING_TIMEOUT_ESTABLISH_WITH_SERVER
  | PENDING_TIMEOUT_AWAITING_SERVER_RESPONSE
  | PENDING_TIMEOUT_AWAITING_PING
  | PENDING_TIMEOUT_CLOSE_ACK
  | PENDING_TIMEOUT_AWAITING_EXTENSION_CONNECT_RESPONSE
  | PENDING_TIMEOUT_SENT_CLIENT_HANDSHAKE
  | PENDING_TIMEOUT_SSL_ACCEPT
  | PENDING_TIMEOUT_HTTP_CONTENT
  | PENDING_TIMEOUT_AWAITING_CLIENT_HS_SEND

text \<open>The callbacks made here, with the string of the URI (\<open>None\<close> when it has no end) and its length.\<close>

datatype http_event =
    LWS_CALLBACK_FILTER_HTTP_CONNECTION "byte list option" nat
  | LWS_CALLBACK_HTTP "byte list option" nat
  | LWS_CALLBACK_HTTP_BODY "byte list"
  | LWS_CALLBACK_HTTP_BODY_COMPLETION
  | LWS_CALLBACK_FILTER_PROTOCOL_CONNECTION

record http_wsi =
  hw_tx :: tx_wsi
  hw_hdr :: hdr_wsi
  hw_ah :: ah_block
  hw_protocol :: nat
  http_1_1 :: bool
  keep_alive :: bool
  content_length :: int
  content_remain :: int
  hw_timeout :: pending_timeout
  hw_active :: "nat list"
  hw_id :: nat
  hw_poll :: poll_ctx
  hw_ws :: ws_wsi
  hw_log :: "http_event list"

abbreviation hw_state :: "http_wsi \<Rightarrow> lws_connection_states" where
  "hw_state w \<equiv> tx_state (hw_tx w)"

abbreviation hw_table :: "http_wsi \<Rightarrow> allocated_headers" where
  "hw_table w \<equiv> hdr_ah (hw_hdr w)"

definition set_state :: "lws_connection_states \<Rightarrow> http_wsi \<Rightarrow> http_wsi" where
  "set_state s w = w\<lparr>hw_tx := (hw_tx w)\<lparr>tx_state := s\<rparr>\<rparr>"

definition set_mode :: "connection_mode \<Rightarrow> http_wsi \<Rightarrow> http_wsi" where
  "set_mode m w = w\<lparr>hw_tx := (hw_tx w)\<lparr>tx_mode := m\<rparr>\<rparr>"

text \<open>
  What the server calls: the answers of the user callback, given the calls so far with the present
  one last, and the state an HTTP callback leaves (\<open>WSI_STATE_HTTP_ISSUING_FILE\<close> when it starts to
  send a file); the names of the protocols, whether memory and socket options can be had, the
  memory a new header table gets, what the header view of the union holds after HTTP, and the
  bytes local arrays (the longest has 128) hold before they are written.
\<close>

record srv_env =
  sv_hs :: hs_env
  sv_tx :: tx_env
  sv_flow :: flow_env
  sv_limits :: "nat list option"
  sv_answer :: "http_event list \<Rightarrow> int"
  sv_http_state :: "http_event list \<Rightarrow> lws_connection_states"
  sv_protocols :: "byte list list"
  sv_user_space :: bool
  sv_rx_buffer :: bool
  sv_setsockopt :: bool
  sv_new_table :: "allocated_headers option"
  sv_union :: "hdr_wsi \<Rightarrow> hdr_wsi"
  sv_stack :: "byte list"
  sv_service_buffer :: "byte list"

text \<open>
  How a server goes wrong: memory out of bounds, a block freed twice, the header parser run on a
  connection without a header table, a loop that does not end, a failure in the poll table.
\<close>

datatype srv_stop = Srv_overrun | Srv_double_free | Srv_no_table | Srv_diverges | Srv_flow flow_stop

definition free_ah :: "http_wsi \<Rightarrow> srv_stop + http_wsi" where
  "free_ah w =
     (case hw_ah w of Ah_null \<Rightarrow> Inr w | Ah_freed \<Rightarrow> Inl Srv_double_free
      | _ \<Rightarrow> Inr (w\<lparr>hw_ah := Ah_freed\<rparr>))"

definition call_user :: "srv_env \<Rightarrow> http_event \<Rightarrow> http_wsi \<Rightarrow> int \<times> http_wsi" where
  "call_user env e w = (sv_answer env (hw_log w @ [e]), w\<lparr>hw_log := hw_log w @ [e]\<rparr>)"

section \<open>Plain HTTP\<close>

text \<open>
  \<open>lws_hdr_copy\<close> into a local array of which \<open>n\<close> bytes may be used: the return value is not looked at,
  so an array that is too small keeps what it held.
\<close>

definition copy_unchecked :: "srv_env \<Rightarrow> allocated_headers \<Rightarrow> nat \<Rightarrow> nat \<Rightarrow> srv_stop + byte list" where
  "copy_unchecked env a n h =
     (case lws_hdr_copy a (take n (sv_stack env)) h of
        Inl Reject \<Rightarrow> Inr (sv_stack env)
      | Inl Overrun \<Rightarrow> Inl Srv_overrun
      | Inr (_, d) \<Rightarrow> Inr (d @ drop n (sv_stack env)))"

definition present :: "allocated_headers \<Rightarrow> nat \<Rightarrow> bool option" where
  "present a h = map_option (\<lambda>n. n \<noteq> 0) (lws_hdr_total_length a h)"

definition http_content_length :: "srv_env \<Rightarrow> allocated_headers \<Rightarrow> srv_stop + int" where
  "http_content_length env a =
     (case (present a WSI_TOKEN_POST_URI, present a WSI_TOKEN_HTTP_CONTENT_LENGTH) of
        (Some post, Some given) \<Rightarrow>
          if \<not> given then Inr (if post then 100 * 1024 * 1024 else 0)
          else (case copy_unchecked env a 31 WSI_TOKEN_HTTP_CONTENT_LENGTH of
                  Inl x \<Rightarrow> Inl x
                | Inr d \<Rightarrow> (case atoi (take 32 d) of None \<Rightarrow> Inl Srv_overrun | Some n \<Rightarrow> Inr n))
      | _ \<Rightarrow> Inl Srv_overrun)"

definition http_request_version :: "srv_env \<Rightarrow> allocated_headers \<Rightarrow> srv_stop + bool" where
  "http_request_version env a =
     (case lws_hdr_total_length a WSI_TOKEN_HTTP of
        None \<Rightarrow> Inl Srv_overrun
      | Some n \<Rightarrow>
          if n \<le> 7 then Inr False
          else map_sum id (\<lambda>d. d ! 5 = 0x31 \<and> d ! 7 = 0x31) (copy_unchecked env a 9 WSI_TOKEN_HTTP))"

definition http_connection_type :: "srv_env \<Rightarrow> allocated_headers \<Rightarrow> bool \<Rightarrow> srv_stop + bool" where
  "http_connection_type env a version_1_1 =
     (case present a WSI_TOKEN_CONNECTION of
        None \<Rightarrow> Inl Srv_overrun
      | Some False \<Rightarrow> Inr version_1_1
      | Some True \<Rightarrow>
          (case copy_unchecked env a 19 WSI_TOKEN_CONNECTION of
             Inl x \<Rightarrow> Inl x
           | Inr d \<Rightarrow>
               let s = strtolower (takeWhile (\<lambda>c. c \<noteq> 0) (take 19 d))
               in Inr (if s = bytes ''keep-alive'' then True
                       else if s \<noteq> bytes ''close'' then False
                       else version_1_1)))"

text \<open>The header that has the URI, in the order of the tests.\<close>

definition uri_token :: "bool \<Rightarrow> bool \<Rightarrow> nat" where
  "uri_token options post =
     (if options then WSI_TOKEN_OPTIONS_URI else if post then WSI_TOKEN_POST_URI else WSI_TOKEN_GET_URI)"

text \<open>The label \<open>bail_nuke_ah\<close> of \<open>lws_http_action\<close>.\<close>

definition nuke_ah :: "http_wsi \<Rightarrow> srv_stop + int \<times> http_wsi" where
  "nuke_ah w = map_sum id (\<lambda>w1. (1, w1\<lparr>hw_ah := Ah_null\<rparr>)) (free_ah w)"

definition http_callbacks :: "srv_env \<Rightarrow> http_wsi \<Rightarrow> byte list option \<Rightarrow> nat \<Rightarrow> int \<times> http_wsi" where
  "http_callbacks env w uri len =
     (case call_user env (LWS_CALLBACK_FILTER_HTTP_CONNECTION uri len) w of (n, w1) \<Rightarrow>
        if n \<noteq> 0 then (n, w1)
        else case call_user env (LWS_CALLBACK_HTTP uri len) (w1\<lparr>hw_timeout := PENDING_TIMEOUT_HTTP_CONTENT\<rparr>) of
               (n, w2) \<Rightarrow> (n, set_state (sv_http_state env (hw_log w2)) w2))"

definition lws_http_action :: "srv_env \<Rightarrow> http_wsi \<Rightarrow> srv_stop + int \<times> http_wsi" where
  "lws_http_action env w =
     (let a = hw_table w
      in case (present a WSI_TOKEN_GET_URI, present a WSI_TOKEN_POST_URI, present a WSI_TOKEN_OPTIONS_URI) of
           (Some get, Some post, Some options) \<Rightarrow>
             if \<not> get \<and> \<not> post \<and> \<not> options then nuke_ah w
             else if get \<and> post then nuke_ah w
             else if \<not> sv_user_space env then nuke_ah w
             else
               let h = uri_token options post
               in case (http_content_length env a, http_request_version env a, lws_hdr_total_length a h) of
                    (Inr len, Inr version, Some uri_len) \<Rightarrow>
                      (case http_connection_type env a version of
                         Inl x \<Rightarrow> Inl x
                       | Inr ka \<Rightarrow>
                           (case http_callbacks env
                                   (w\<lparr>content_length := len, http_1_1 := version, keep_alive := ka\<rparr>)
                                   (Option.bind (hdr_string a h) id) uri_len of
                              (n, w1) \<Rightarrow>
                                (case free_ah w1 of
                                   Inl x \<Rightarrow> Inl x
                                 | Inr w2 \<Rightarrow>
                                     let w3 = w2\<lparr>hw_ah := Ah_null\<rparr>
                                     in if n \<noteq> 0 then Inr (1, w3)
                                        else if hw_state w3 \<noteq> WSI_STATE_HTTP_ISSUING_FILE \<and> 0 < content_length w3
                                          then Inr (0, set_state WSI_STATE_HTTP_BODY w3)
                                        else Inr (0, w3))))
                  | _ \<Rightarrow> Inl Srv_overrun
         | _ \<Rightarrow> Inl Srv_overrun)"

section \<open>The upgrade to websocket\<close>

text \<open>
  The first protocol of the client's list that the server has. A name ends at a comma or after 31
  characters, and the character behind it is skipped.
\<close>

definition list_name :: "byte list \<Rightarrow> byte list" where
  "list_name s = takeWhile (\<lambda>c. c \<noteq> 0x2c) (take 31 s)"

function match_protocol :: "byte list list \<Rightarrow> byte list \<Rightarrow> nat option" where
  "match_protocol names s =
     (if s = [] then None
      else if list_name s \<in> set names then Some (length (takeWhile (\<lambda>n. n \<noteq> list_name s) names))
      else match_protocol names (drop (length (list_name s) + 1) s))"
  by pat_completeness auto
termination by (relation "measure (\<lambda>(names, s). length s)") auto

declare match_protocol.simps [simp del]

definition negotiate_protocol :: "srv_env \<Rightarrow> allocated_headers \<Rightarrow> srv_stop + nat option" where
  "negotiate_protocol env a =
     (case lws_hdr_copy a (take 127 (sv_stack env)) WSI_TOKEN_PROTOCOL of
        Inl Reject \<Rightarrow> Inr None
      | Inl Overrun \<Rightarrow> Inl Srv_overrun
      | Inr (len, d) \<Rightarrow>
          (case match_protocol (sv_protocols env) (takeWhile (\<lambda>c. c \<noteq> 0) (take len d)) of
             Some n \<Rightarrow> Inr (Some n)
           | None \<Rightarrow> Inr (if lws_hdr_simple_ptr a WSI_TOKEN_PROTOCOL = None then Some 0 else None)))"

text \<open>
  The label \<open>bail_nuke_ah\<close> of \<open>lws_handshake_server\<close>, and the handshake, which frees the table itself
  where it fails.
\<close>

definition bail_nuke_ah :: "http_wsi \<Rightarrow> srv_stop + int \<times> http_wsi" where
  "bail_nuke_ah w = map_sum id (\<lambda>w1. (1, w1)) (free_ah w)"

definition do_handshake :: "srv_env \<Rightarrow> http_wsi \<Rightarrow> srv_stop + int \<times> http_wsi" where
  "do_handshake env w =
     (case handshake_0405 (sv_hs env) (sv_tx env) (hw_table w) (sv_service_buffer env) (hw_tx w) of
        None \<Rightarrow> Inl Srv_diverges
      | Some (Inl _) \<Rightarrow> Inl Srv_overrun
      | Some (Inr (n, t, active)) \<Rightarrow>
          let w1 = w\<lparr>hw_tx := t, hw_active := active\<rparr>
          in if n = 0 then Inr (0, w1) else map_sum id (\<lambda>w2. (n, w2)) (free_ah w1))"

text \<open>The union cleared for websocket use.\<close>

definition to_websocket :: "http_wsi \<Rightarrow> http_wsi" where
  "to_websocket w = (set_mode LWS_CONNMODE_WS_SERVING w)\<lparr>hw_ah := Ah_null\<rparr>"

definition bail_upgrade :: "http_wsi \<Rightarrow> srv_stop + int option \<times> http_wsi" where
  "bail_upgrade w = map_sum id (\<lambda>(n, w1). (Some n, w1)) (bail_nuke_ah w)"

text \<open>The part behind \<open>upgrade_ws\<close>, first from the handshake on: the return value, where the function returns.\<close>

definition finish_upgrade :: "srv_env \<Rightarrow> http_wsi \<Rightarrow> srv_stop + int option \<times> http_wsi" where
  "finish_upgrade env w =
     (case do_handshake env w of
        Inl x \<Rightarrow> Inl x
      | Inr (n, w1) \<Rightarrow>
          if n \<noteq> 0 then bail_upgrade w1
          else (case free_ah w1 of
                  Inl x \<Rightarrow> Inl x
                | Inr w2 \<Rightarrow>
                    let w3 = to_websocket w2
                    in if \<not> sv_rx_buffer env then Inr (Some 1, w3)
                       else
                         let w4 = w3\<lparr>hw_ah := Ah_rx_buffer\<rparr>
                         in if \<not> sv_setsockopt env then Inr (Some 1, w4)
                            else Inr (None, w4)))"

definition upgrade_ws :: "srv_env \<Rightarrow> http_wsi \<Rightarrow> srv_stop + int option \<times> http_wsi" where
  "upgrade_ws env w =
     (case negotiate_protocol env (hw_table w) of
        Inl x \<Rightarrow> Inl x
      | Inr None \<Rightarrow> bail_upgrade w
      | Inr (Some p) \<Rightarrow>
          let w1 = w\<lparr>hw_protocol := p\<rparr>
          in if \<not> sv_user_space env then bail_upgrade w1
             else case call_user env LWS_CALLBACK_FILTER_PROTOCOL_CONNECTION w1 of
               (n, w2) \<Rightarrow>
                 if n \<noteq> 0 then bail_upgrade w2
                 else if ietf_spec_revision (hw_hdr w2) \<noteq> 13 then bail_upgrade w2
                 else finish_upgrade env w2)"

text \<open>\<open>strcasecmp (upgrade, "websocket")\<close>.\<close>

definition wants_websocket :: "allocated_headers \<Rightarrow> srv_stop + bool" where
  "wants_websocket a =
     (case hdr_string a WSI_TOKEN_UPGRADE of
        Some (Some s) \<Rightarrow> Inr (strtolower s = bytes ''websocket'')
      | _ \<Rightarrow> Inl Srv_overrun)"

text \<open>The union cleared for HTTP use.\<close>

definition to_http :: "http_wsi \<Rightarrow> http_wsi" where
  "to_http w = (set_state WSI_STATE_HTTP (set_mode LWS_CONNMODE_HTTP_SERVING_ACCEPTED w))
     \<lparr>content_length := 0, content_remain := 0, http_1_1 := False, keep_alive := False\<rparr>"

definition headers_complete :: "srv_env \<Rightarrow> http_wsi \<Rightarrow> srv_stop + int option \<times> http_wsi" where
  "headers_complete env w =
     (let w1 = (set_mode LWS_CONNMODE_PRE_WS_SERVING_ACCEPT w)\<lparr>hw_timeout := NO_PENDING_TIMEOUT\<rparr>
      in case (present (hw_table w1) WSI_TOKEN_UPGRADE, present (hw_table w1) WSI_TOKEN_CONNECTION) of
           (Some up, Some conn) \<Rightarrow>
             if \<not> up \<or> \<not> conn then
               map_sum id (\<lambda>(n, w2). (Some n, w2))
                 (lws_http_action env (to_http w1))
             else (case wants_websocket (hw_table w1) of
                     Inl x \<Rightarrow> Inl x
                   | Inr False \<Rightarrow> bail_upgrade w1
                   | Inr True \<Rightarrow> upgrade_ws env w1)
         | _ \<Rightarrow> Inl Srv_overrun)"

text \<open>
  \<open>lws_handshake_server\<close>: the return value, the connection and the bytes that are left. The loop goes
  on after an upgrade.
\<close>

fun lws_handshake_server :: "srv_env \<Rightarrow> http_wsi \<Rightarrow> byte list \<Rightarrow> srv_stop + int \<times> http_wsi \<times> byte list" where
  "lws_handshake_server env w [] = Inr (0, w, [])"
| "lws_handshake_server env w (c # cs) =
     (if hw_ah w \<noteq> Ah_live then Inl Srv_no_table
      else case libwebsocket_parse (sv_limits env) (hw_hdr w) c of
        Inl Overrun \<Rightarrow> Inl Srv_overrun
      | Inl Reject \<Rightarrow> map_sum id (\<lambda>(n, w1). (n, w1, cs)) (bail_nuke_ah w)
      | Inr h \<Rightarrow>
          if parser_state h \<noteq> WSI_PARSING_COMPLETE then lws_handshake_server env (w\<lparr>hw_hdr := h\<rparr>) cs
          else case headers_complete env (w\<lparr>hw_hdr := h\<rparr>) of
            Inl x \<Rightarrow> Inl x
          | Inr (Some n, w1) \<Rightarrow> Inr (n, w1, cs)
          | Inr (None, w1) \<Rightarrow> lws_handshake_server env w1 cs)"

section \<open>Reading\<close>

text \<open>What \<open>libwebsocket_read\<close> comes to: it returns 0, or it has closed the connection and returns -1.\<close>

datatype read_result = Read_ok http_wsi | Read_closed http_wsi

text \<open>The start of new headers: the cases \<open>WSI_STATE_HTTP\<close> and \<open>WSI_STATE_HTTP_ISSUING_FILE\<close>.\<close>

definition start_headers :: "http_wsi \<Rightarrow> http_wsi" where
  "start_headers w =
     (let h = hw_hdr w;
          h1 = (if hw_state w = WSI_STATE_HTTP then h\<lparr>hdr_parsing_completed := False\<rparr> else h)
      in if hw_state w = WSI_STATE_HTTP \<or> hw_state w = WSI_STATE_HTTP_ISSUING_FILE
         then (set_state WSI_STATE_HTTP_HEADERS w)
                \<lparr>hw_hdr := h1\<lparr>parser_state := WSI_TOKEN_NAME_PART, lextable_pos := 0\<rparr>\<rparr>
         else w)"

text \<open>
  The loop at \<open>http_postbody\<close>, which runs at most once: either the body is complete then, or the bytes
  are used up. The smaller of an \<open>int\<close> and a \<open>size_t\<close> is taken in unsigned
  arithmetic. The boolean tells that the request is complete, \<open>None\<close> that the user refused.
\<close>

definition http_postbody :: "srv_env \<Rightarrow> http_wsi \<Rightarrow> byte list \<Rightarrow> (bool \<times> byte list) option \<times> http_wsi" where
  "http_postbody env w bs =
     (if bs = [] \<or> content_remain w = 0 then (Some (False, bs), w)
      else
        let chunk = min (nat (content_remain w mod 2 ^ 64)) (length bs);
            w1 = w\<lparr>content_remain := content_remain w - int chunk\<rparr>
        in case call_user env (LWS_CALLBACK_HTTP_BODY (take chunk bs)) w1 of
             (n, w2) \<Rightarrow>
               if n \<noteq> 0 then (None, w2)
               else if content_remain w2 \<noteq> 0
                 then (Some (False, drop chunk bs), w2\<lparr>hw_timeout := PENDING_TIMEOUT_HTTP_CONTENT\<rparr>)
               else case call_user env LWS_CALLBACK_HTTP_BODY_COMPLETION (w2\<lparr>hw_timeout := NO_PENDING_TIMEOUT\<rparr>) of
                      (n, w3) \<Rightarrow> if n \<noteq> 0 then (None, w3) else (Some (True, drop chunk bs), w3))"

text \<open>The label \<open>http_complete\<close>: the connection ready for the next request, \<open>None\<close> for one to close.\<close>

definition http_complete :: "srv_env \<Rightarrow> http_wsi \<Rightarrow> http_wsi option" where
  "http_complete env w =
     (if \<not> keep_alive w then None
      else
        let w1 = (set_state WSI_STATE_HTTP (set_mode LWS_CONNMODE_HTTP_SERVING w))\<lparr>hw_timeout := NO_PENDING_TIMEOUT\<rparr>
        in case lws_allocate_header_table (sv_new_table env) (sv_union env (hw_hdr w1)) of
             Inl _ \<Rightarrow> None
           | Inr h \<Rightarrow> Some (w1\<lparr>hw_hdr := h\<lparr>ues := URIES_IDLE\<rparr>, hw_ah := Ah_live\<rparr>))"

text \<open>The end of a file that was served.\<close>

definition lws_http_transaction_completed :: "http_wsi \<Rightarrow> int \<times> http_wsi" where
  "lws_http_transaction_completed w = (if \<not> keep_alive w then (1, w) else (0, set_state WSI_STATE_HTTP w))"

text \<open>
  The first half of \<open>libwebsocket_read\<close>, up to \<open>read_ok\<close>, \<open>http_complete\<close> or \<open>bail\<close>: the boolean tells
  that a request is complete, \<open>None\<close> that the connection is to be closed; the bytes are those left.
\<close>

definition read_body :: "srv_env \<Rightarrow> http_wsi \<Rightarrow> byte list \<Rightarrow> srv_stop + (bool \<times> byte list) option \<times> http_wsi" where
  "read_body env w bs =
     (let w1 = start_headers w
      in if hw_state w1 = WSI_STATE_HTTP_HEADERS then
           (case lws_handshake_server env w1 bs of
              Inl x \<Rightarrow> Inl x
            | Inr (n, w2, rest) \<Rightarrow>
                if n \<noteq> 0 then Inr (None, w2)
                else if \<not> hdr_parsing_completed (hw_hdr w2) then Inr (Some (False, rest), w2)
                else if hw_state w2 = WSI_STATE_HTTP \<or> hw_state w2 = WSI_STATE_HTTP_HEADERS
                  then Inr (Some (True, rest), w2)
                else if hw_state w2 = WSI_STATE_HTTP_BODY
                  then Inr (http_postbody env (w2\<lparr>content_remain := content_length w2\<rparr>) rest)
                else Inr (Some (False, rest), w2))
         else if hw_state w1 = WSI_STATE_HTTP_BODY then Inr (http_postbody env w1 bs)
         else if (hw_state w1 = WSI_STATE_ESTABLISHED \<or> hw_state w1 = WSI_STATE_AWAITING_CLOSE_ACK) \<and>
                 tx_mode (hw_tx w1) = LWS_CONNMODE_WS_SERVING then
           (case libwebsocket_interpret_incoming_packet (sv_flow env) (hw_id w1) bs (hw_poll w1) (hw_ws w1) of
              Inl Flow_closed \<Rightarrow> Inr (None, w1)
            | Inl x \<Rightarrow> Inl (Srv_flow x)
            | Inr (_, c, v) \<Rightarrow> Inr (Some (False, []), w1\<lparr>hw_poll := c, hw_ws := v\<rparr>))
         else Inr (Some (False, bs), w1))"

lemma handshake_server_rest: "lws_handshake_server env w bs = Inr (n, v, rest) \<Longrightarrow> length rest \<le> length bs - 1"
proof (induction bs arbitrary: w)
  case Nil
  then show ?case by simp
next
  case (Cons c cs)
  have IH: "length rest \<le> length cs" if "lws_handshake_server env u cs = Inr (n, v, rest)" for u
    using Cons.IH [OF that] by simp
  show ?case
  proof (cases "libwebsocket_parse (sv_limits env) (hw_hdr w) c")
    case (Inl e)
    then show ?thesis using Cons.prems
      by (cases e; cases "bail_nuke_ah w") (auto split: if_splits prod.splits)
  next
    case (Inr h)
    show ?thesis
    proof (cases "parser_state h = WSI_PARSING_COMPLETE")
      case False
      then show ?thesis using Cons.prems Inr IH by (simp split: if_splits)
    next
      case True
      then show ?thesis using Cons.prems Inr IH
        by (auto split: if_splits sum.splits option.splits)
    qed
  qed
qed

lemma postbody_rest:
  "http_postbody env w bs = (Some (True, rest), v) \<Longrightarrow> length rest \<le> length bs - 1"
  by (auto simp: http_postbody_def Let_def call_user_def split: if_splits prod.splits)

lemma read_body_rest: "read_body env w bs = Inr (Some (True, rest), v) \<Longrightarrow> length rest \<le> length bs - 1"
proof -
  assume a: "read_body env w bs = Inr (Some (True, rest), v)"
  let ?w = "start_headers w"
  consider "hw_state ?w = WSI_STATE_HTTP_HEADERS" | "http_postbody env ?w bs = (Some (True, rest), v)"
    using a by (auto simp: read_body_def Let_def split: if_splits sum.splits flow_stop.splits)
  then show "length rest \<le> length bs - 1"
  proof cases
    case 1
    then obtain n u r where h: "lws_handshake_server env ?w bs = Inr (n, u, r)"
      using a by (auto simp: read_body_def Let_def split: sum.splits)
    then have "rest = r \<or> http_postbody env (u\<lparr>content_remain := content_length u\<rparr>) r = (Some (True, rest), v)"
      using a 1 by (auto simp: read_body_def Let_def split: if_splits)
    then show ?thesis using handshake_server_rest [OF h] postbody_rest by fastforce
  next
    case 2
    then show ?thesis by (rule postbody_rest)
  qed
qed

function libwebsocket_read :: "srv_env \<Rightarrow> http_wsi \<Rightarrow> byte list \<Rightarrow> srv_stop + read_result" where
  "libwebsocket_read env w bs =
     (case read_body env w bs of
        Inl x \<Rightarrow> Inl x
      | Inr (None, w1) \<Rightarrow> Inr (Read_closed w1)
      | Inr (Some (complete, rest), w1) \<Rightarrow>
          if \<not> complete then Inr (Read_ok w1)
          else case http_complete env w1 of
                 None \<Rightarrow> Inr (Read_closed w1)
               | Some w2 \<Rightarrow> if rest = [] then Inr (Read_ok w2) else libwebsocket_read env w2 rest)"
  by pat_completeness auto
termination
proof (relation "measure (\<lambda>(env, w, bs). length bs)", goal_cases)
  case 1
  then show ?case by simp
next
  case (2 env w bs)
  then show ?case using read_body_rest [of env w bs] by (cases bs) (auto simp: less_Suc_eq_le)
qed

declare libwebsocket_read.simps [simp del]

section \<open>Sample connections\<close>

definition sample_srv :: srv_env where
  "sample_srv = \<lparr>sv_hs = sample_env, sv_tx = all_env,
     sv_flow = \<lparr>fl_rx = plain_env, fl_ask = (\<lambda>_. None), fl_ext = 0, fl_tid = 0\<rparr>, sv_limits = None,
     sv_answer = (\<lambda>_. 0), sv_http_state = (\<lambda>_. WSI_STATE_HTTP), sv_protocols = [bytes ''chat''], sv_user_space = True,
     sv_rx_buffer = True, sv_setsockopt = True, sv_new_table = None, sv_union = (\<lambda>h. h),
     sv_stack = replicate 128 0, sv_service_buffer = replicate 4096 0\<rparr>"

definition sample_srv_wsi :: "(nat \<times> byte list) list \<Rightarrow> http_wsi" where
  "sample_srv_wsi hs = \<lparr>hw_tx = (new_tx LWS_CONNMODE_HTTP_SERVING)\<lparr>tx_state := WSI_STATE_HTTP_HEADERS\<rparr>,
     hw_hdr = zero_hdr\<lparr>hdr_ah := hdr_table hs, parser_state := WSI_PARSING_COMPLETE, ietf_spec_revision := 13\<rparr>,
     hw_ah = Ah_live, hw_protocol = 0, http_1_1 = False, keep_alive = False, content_length = 0, content_remain = 0,
     hw_timeout = NO_PENDING_TIMEOUT, hw_active = [], hw_id = 0, hw_poll = empty_poll 8 plain_wsi, hw_ws = new_ws, hw_log = []\<rparr>"

definition sample_body :: "nat \<Rightarrow> http_wsi" where
  "sample_body n = (set_state WSI_STATE_HTTP_BODY (sample_srv_wsi []))\<lparr>content_remain := int n, hw_ah := Ah_null\<rparr>"

section \<open>The body of a request\<close>

text \<open>A connection read packet by packet.\<close>

definition read_step :: "srv_env \<Rightarrow> http_wsi \<Rightarrow> byte list \<Rightarrow> (srv_stop + read_result) + http_wsi" where
  "read_step env w bs = (case libwebsocket_read env w bs of Inr (Read_ok w1) \<Rightarrow> Inr w1 | r \<Rightarrow> Inl r)"

definition accepts_all :: "srv_env \<Rightarrow> bool" where
  "accepts_all env \<longleftrightarrow> (\<forall>log. sv_answer env log = 0)"

lemma body_state: "hw_state w = WSI_STATE_HTTP_BODY \<Longrightarrow> read_body env w bs = Inr (http_postbody env w bs)"
  by (simp add: read_body_def Let_def start_headers_def)

lemma postbody_part:
  assumes "accepts_all env" "bs \<noteq> []" "int (length bs) < content_remain w" "content_remain w < 2 ^ 31"
  shows "http_postbody env w bs = (Some (False, []),
    w\<lparr>content_remain := content_remain w - int (length bs), hw_log := hw_log w @ [LWS_CALLBACK_HTTP_BODY bs],
      hw_timeout := PENDING_TIMEOUT_HTTP_CONTENT\<rparr>)"
proof -
  have "content_remain w mod 2 ^ 64 = content_remain w" using assms(3,4) by (intro mod_pos_pos_trivial) simp_all
  then have "min (nat (content_remain w mod 2 ^ 64)) (length bs) = length bs" using assms(3) by simp
  then show ?thesis using assms by (simp add: http_postbody_def Let_def call_user_def accepts_all_def)
qed

lemma postbody_end:
  assumes "accepts_all env" "content_remain w = int n" "0 < n" "n \<le> length bs" "n < 2 ^ 31"
  shows "http_postbody env w bs = (Some (True, drop n bs),
    w\<lparr>content_remain := 0, hw_log := hw_log w @ [LWS_CALLBACK_HTTP_BODY (take n bs), LWS_CALLBACK_HTTP_BODY_COMPLETION],
      hw_timeout := NO_PENDING_TIMEOUT\<rparr>)"
proof -
  have "content_remain w mod 2 ^ 64 = int n" using assms(2,5) by (simp add: mod_pos_pos_trivial)
  then have "min (nat (content_remain w mod 2 ^ 64)) (length bs) = n" using assms(4) by simp
  then show ?thesis using assms by (auto simp: http_postbody_def Let_def call_user_def accepts_all_def)
qed

lemma read_parts:
  assumes "accepts_all env" "\<forall>q\<in>set qs. q \<noteq> []" "hw_state w = WSI_STATE_HTTP_BODY"
    "int (length (concat qs)) < content_remain w" "content_remain w < 2 ^ 31"
  shows "\<exists>w1. run_bytes (read_step env) w qs = Inr w1 \<and> hw_state w1 = WSI_STATE_HTTP_BODY \<and>
    content_remain w1 = content_remain w - int (length (concat qs)) \<and> keep_alive w1 = keep_alive w \<and>
    hw_log w1 = hw_log w @ map LWS_CALLBACK_HTTP_BODY qs"
  using assms(2-)
proof (induction qs arbitrary: w)
  case Nil
  then show ?case by simp
next
  case (Cons q qs)
  let ?w = "w\<lparr>content_remain := content_remain w - int (length q), hw_log := hw_log w @ [LWS_CALLBACK_HTTP_BODY q],
      hw_timeout := PENDING_TIMEOUT_HTTP_CONTENT\<rparr>"
  have "read_step env w q = Inr ?w"
    using postbody_part [OF assms(1), of q w] Cons.prems
    by (simp add: read_step_def libwebsocket_read.simps body_state)
  moreover have "\<exists>w1. run_bytes (read_step env) ?w qs = Inr w1 \<and> hw_state w1 = WSI_STATE_HTTP_BODY \<and>
    content_remain w1 = content_remain ?w - int (length (concat qs)) \<and> keep_alive w1 = keep_alive ?w \<and>
    hw_log w1 = hw_log ?w @ map LWS_CALLBACK_HTTP_BODY qs"
    using Cons.prems by (intro Cons.IH) simp_all
  ultimately show ?case by (simp add: diff_diff_eq)
qed

text \<open>
  C9. The body of a request reaches the user whole: however its bytes are cut into packets, the user
  gets exactly the announced number of them, in order, then one notice of completion, and what
  follows them is read as the next request on a connection that is kept alive.
\<close>

theorem http_body_delivered:
  assumes "accepts_all env" "hw_state w = WSI_STATE_HTTP_BODY" "content_remain w = int n" "n < 2 ^ 31"
    and "\<forall>q\<in>set qs. q \<noteq> []" "length (concat qs) < n" "n \<le> length (concat qs @ q)"
  shows "\<exists>w1 w2 parts. run_bytes (read_step env) w qs = Inr w1 \<and>
     hw_log w2 = hw_log w @ map LWS_CALLBACK_HTTP_BODY parts @ [LWS_CALLBACK_HTTP_BODY_COMPLETION] \<and>
     concat parts = take n (concat qs @ q) \<and> keep_alive w2 = keep_alive w \<and>
     libwebsocket_read env w1 q =
       (case http_complete env w2 of None \<Rightarrow> Inr (Read_closed w2)
        | Some w3 \<Rightarrow> if drop n (concat qs @ q) = [] then Inr (Read_ok w3)
                     else libwebsocket_read env w3 (drop n (concat qs @ q)))"
proof -
  obtain w1 where w1: "run_bytes (read_step env) w qs = Inr w1" "hw_state w1 = WSI_STATE_HTTP_BODY"
    "content_remain w1 = int n - int (length (concat qs))" "hw_log w1 = hw_log w @ map LWS_CALLBACK_HTTP_BODY qs"
    "keep_alive w1 = keep_alive w"
    using read_parts [OF assms(1,5,2)] assms(3,4,6) by auto
  let ?m = "n - length (concat qs)"
  let ?w2 = "w1\<lparr>content_remain := 0, hw_log := hw_log w1 @ [LWS_CALLBACK_HTTP_BODY (take ?m q), LWS_CALLBACK_HTTP_BODY_COMPLETION],
      hw_timeout := NO_PENDING_TIMEOUT\<rparr>"
  have "content_remain w1 = int ?m" using w1(3) assms(6) by simp
  then have "http_postbody env w1 q = (Some (True, drop ?m q), ?w2)"
    using assms(4,6,7) by (intro postbody_end [OF assms(1)]) simp_all
  then have r: "libwebsocket_read env w1 q =
       (case http_complete env ?w2 of None \<Rightarrow> Inr (Read_closed ?w2)
        | Some w3 \<Rightarrow> if drop ?m q = [] then Inr (Read_ok w3) else libwebsocket_read env w3 (drop ?m q))"
    using w1(2) by (simp add: libwebsocket_read.simps [of env w1 q] body_state)
  have log: "hw_log ?w2 = hw_log w @ map LWS_CALLBACK_HTTP_BODY (qs @ [take ?m q]) @ [LWS_CALLBACK_HTTP_BODY_COMPLETION]"
    using w1(4) by simp
  have ka: "keep_alive ?w2 = keep_alive w" using w1(5) by simp
  have cat: "concat (qs @ [take ?m q]) = take n (concat qs @ q)" and rest: "drop n (concat qs @ q) = drop ?m q"
    using assms(6) by simp_all
  show ?thesis
    unfolding rest by (intro exI conjI) (rule w1(1), rule log, rule cat, rule ka, rule r)
qed

theorem http_body_delivered_witness:
  "\<exists>w1 w2 parts. run_bytes (read_step sample_srv) (sample_body 5) [[1, 2], [3]] = Inr w1 \<and>
     hw_log w2 = map LWS_CALLBACK_HTTP_BODY parts @ [LWS_CALLBACK_HTTP_BODY_COMPLETION] \<and>
     concat parts = [1, 2, 3, 4, 5] \<and> libwebsocket_read sample_srv w1 [4, 5, 6] = Inr (Read_closed w2)"
proof -
  have "accepts_all sample_srv" by (simp add: accepts_all_def sample_srv_def)
  moreover have "hw_state (sample_body 5) = WSI_STATE_HTTP_BODY" "content_remain (sample_body 5) = int 5"
    "hw_log (sample_body 5) = []" "\<not> keep_alive (sample_body 5)"
    by (simp_all add: sample_body_def sample_srv_wsi_def set_state_def)
  ultimately show ?thesis
    using http_body_delivered [of sample_srv "sample_body 5" 5 "[[1, 2], [3]]" "[4, 5, 6]"]
    by (auto simp: http_complete_def)
qed

section \<open>How a request ends\<close>

text \<open>
  Whether a connection is kept alive: with no Connection header HTTP/1.1 requests are and HTTP/1.0
  requests are not, \<open>keep-alive\<close> always is, any other value never, except that \<open>close\<close>, in whatever
  case, leaves the decision to the version, so an HTTP/1.1 client that asks for the connection to be
  closed has it kept open.
\<close>

theorem close_header_keeps_alive:
  assumes "holds a WSI_TOKEN_CONNECTION v" "length v < 19" "20 \<le> length (sv_stack env)"
  shows "http_connection_type env a version =
    Inr (strtolower v = bytes ''keep-alive'' \<or> strtolower v = bytes ''close'' \<and> version)"
proof -
  have t: "length (take 19 (sv_stack env)) = 19" using assms(3) by simp
  have c: "lws_hdr_copy a (take 19 (sv_stack env)) WSI_TOKEN_CONNECTION =
      Inr (length v, v @ [0] @ drop (length v + 1) (take 19 (sv_stack env)))"
    using assms(1,2) t by (simp add: holds_def)
  have p: "present a WSI_TOKEN_CONNECTION = Some True" "0 \<notin> set v"
    using assms(1) by (simp_all add: present_def holds_def)
  have s: "takeWhile (\<lambda>c. c \<noteq> 0) (take 19 (v @ 0 # r)) = v" for r
    using p(2) assms(2) by (simp add: takeWhile_append take_Cons')
  show ?thesis
    using p(1) c s by (auto simp: http_connection_type_def copy_unchecked_def Let_def)
qed

theorem close_header_keeps_alive_witness:
  "http_connection_type sample_srv (hdr_table [(4, bytes ''Close'')]) True = Inr True"
proof -
  have "holds (hdr_table [(4, bytes ''Close'')]) 4 (bytes ''Close'')"
    by (rule hdr_table_holds) (simp_all add: bytes_def)
  moreover have "strtolower (bytes ''Close'') = bytes ''close''" by (simp add: strtolower_def bytes_def)
  ultimately show ?thesis
    using close_header_keeps_alive [of "hdr_table [(4, bytes ''Close'')]" "bytes ''Close''" sample_srv True]
    by (simp add: sample_srv_def)
qed

section \<open>The choice of the protocol\<close>

text \<open>A list of names as clients write it, with a separator.\<close>

fun name_list :: "byte list \<Rightarrow> byte list list \<Rightarrow> byte list" where
  "name_list sep [] = []"
| "name_list sep [n] = n"
| "name_list sep (n # ns) = n @ sep @ name_list sep ns"

definition plain_name :: "byte list \<Rightarrow> bool" where
  "plain_name n \<longleftrightarrow> n \<noteq> [] \<and> length n \<le> 31 \<and> 0x2c \<notin> set n \<and> 0 \<notin> set n"

definition protocol_index :: "byte list list \<Rightarrow> byte list \<Rightarrow> nat" where
  "protocol_index names n = length (takeWhile (\<lambda>m. m \<noteq> n) names)"

lemma list_name_first:
  assumes "plain_name n"
  shows "list_name n = n" "list_name (n @ 0x2c # s) = n"
proof -
  have n: "length n \<le> 31" "\<forall>c\<in>set n. c \<noteq> 0x2c" using assms by (auto simp: plain_name_def)
  show "list_name n = n" using n by (simp add: list_name_def)
  show "list_name (n @ 0x2c # s) = n" using n by (cases "31 - length n") (auto simp: list_name_def takeWhile_append)
qed

lemma match_name_list:
  assumes "\<forall>n\<in>set ns. plain_name n"
  shows "match_protocol names (name_list [0x2c] ns) = map_option (protocol_index names) (find (\<lambda>n. n \<in> set names) ns)"
  using assms
proof (induction "[0x2c] :: byte list" ns rule: name_list.induct)
  case 1
  then show ?case by (simp add: match_protocol.simps)
next
  case (2 n)
  then have "list_name n = n" "n \<noteq> []" using list_name_first(1) [of n] by (auto simp: plain_name_def)
  then show ?case
    by (simp add: match_protocol.simps [of names n] match_protocol.simps [of names "[]"] protocol_index_def)
next
  case (3 n m ns)
  let ?r = "name_list [0x2c] (m # ns)"
  have n: "plain_name n" and r: "list_name (n @ 0x2c # ?r) = n" using "3.prems" list_name_first(2) [of n] by auto
  have "match_protocol names (n @ 0x2c # ?r) = (if n \<in> set names then Some (protocol_index names n) else match_protocol names ?r)"
    unfolding match_protocol.simps [of names "n @ 0x2c # ?r"] r by (simp add: protocol_index_def)
  then show ?case using "3.hyps" "3.prems" by simp
qed

lemma name_list_zero: "\<forall>n\<in>set ns. plain_name n \<Longrightarrow> 0 \<notin> set (name_list [0x2c] ns)"
  by (induction "[0x2c] :: byte list" ns rule: name_list.induct) (auto simp: plain_name_def)

text \<open>
  The choice of the protocol: of a list of names that are separated by commas, each of at most 31
  characters, the server takes the first it has; it refuses the connection when it has none of
  them.
\<close>

theorem first_known_protocol_chosen:
  assumes "holds a WSI_TOKEN_PROTOCOL (name_list [0x2c] ns)" "\<forall>n\<in>set ns. plain_name n"
    and "length (name_list [0x2c] ns) < 127" "128 \<le> length (sv_stack env)"
  shows "negotiate_protocol env a =
    Inr (map_option (protocol_index (sv_protocols env)) (find (\<lambda>n. n \<in> set (sv_protocols env)) ns))"
proof -
  let ?l = "name_list [0x2c] ns"
  have t: "length (take 127 (sv_stack env)) = 127" using assms(4) by simp
  have c: "lws_hdr_copy a (take 127 (sv_stack env)) WSI_TOKEN_PROTOCOL =
      Inr (length ?l, ?l @ [0] @ drop (length ?l + 1) (take 127 (sv_stack env)))"
    using assms(1,3) t by (simp add: holds_def)
  have z: "takeWhile (\<lambda>c. c \<noteq> 0) ?l = ?l" using name_list_zero [OF assms(2)] by (auto simp: takeWhile_eq_all_conv)
  have p: "lws_hdr_simple_ptr a WSI_TOKEN_PROTOCOL \<noteq> None"
    using assms(1) by (auto simp: holds_def hdr_string_def)
  show ?thesis
    using p by (simp add: negotiate_protocol_def c z match_name_list [OF assms(2)] split: option.split)
qed

theorem first_known_protocol_chosen_witness:
  "negotiate_protocol (sample_srv\<lparr>sv_protocols := [bytes ''http'', bytes ''chat'', bytes ''echo'']\<rparr>)
     (hdr_table [(12, bytes ''dumb,echo,chat'')]) = Inr (Some 2)"
proof -
  let ?ns = "[bytes ''dumb'', bytes ''echo'', bytes ''chat'']"
  have "name_list [0x2c] ?ns = bytes ''dumb,echo,chat''" by (simp add: bytes_def)
  moreover have "holds (hdr_table [(12, bytes ''dumb,echo,chat'')]) 12 (bytes ''dumb,echo,chat'')"
    by (rule hdr_table_holds) (simp_all add: bytes_def)
  ultimately show ?thesis
    using first_known_protocol_chosen [of "hdr_table [(12, bytes ''dumb,echo,chat'')]" ?ns
        "sample_srv\<lparr>sv_protocols := [bytes ''http'', bytes ''chat'', bytes ''echo'']\<rparr>"]
    by (simp add: plain_name_def protocol_index_def sample_srv_def bytes_def)
qed

section \<open>A websocket request\<close>

text \<open>A websocket request as the parser leaves it: what comes before the handshake agrees to it.\<close>

definition upgrade_request :: "srv_env \<Rightarrow> hdr_wsi \<Rightarrow> nat \<Rightarrow> bool" where
  "upgrade_request env h p \<longleftrightarrow> parser_state h = WSI_PARSING_COMPLETE \<and> ietf_spec_revision h = 13 \<and>
     (\<exists>u. holds (hdr_ah h) WSI_TOKEN_UPGRADE u \<and> strtolower u = bytes ''websocket'') \<and>
     (\<exists>c. holds (hdr_ah h) WSI_TOKEN_CONNECTION c) \<and>
     negotiate_protocol env (hdr_ah h) = Inr (Some p) \<and> accepts_all env \<and> sv_user_space env"

lemma sample_parse:
  "libwebsocket_parse (sv_limits sample_srv) (hw_hdr (sample_srv_wsi hs)) 10 = Inr (hw_hdr (sample_srv_wsi hs))"
  by (simp add: sample_srv_wsi_def sample_srv_def zero_hdr_def libwebsocket_parse_def parse_body_def)

lemma sample_upgrade:
  assumes "(4, bytes ''Upgrade'') \<in> set hs" "(5, bytes ''WebSocket'') \<in> set hs" "12 \<notin> fst ` set hs" "distinct (map fst hs)"
  shows "upgrade_request sample_srv (hw_hdr (sample_srv_wsi hs)) 0"
proof -
  let ?a = "hdr_table hs"
  have h: "holds ?a 4 (bytes ''Upgrade'')" "holds ?a 5 (bytes ''WebSocket'')"
    using assms by (auto intro!: hdr_table_holds simp: bytes_def)
  have p: "lws_hdr_total_length ?a 12 = Some 0" "ah_frag_index ?a ! 12 = 0"
    using hdr_table_absent(1) [OF assms(3)] hdr_table_index(2) [OF _ assms(4,3)] assms(4) by simp_all
  have "lws_hdr_copy ?a (take 127 (sv_stack sample_srv)) 12 = Inr (0, take 127 (sv_stack sample_srv))"
    using p by (simp add: lws_hdr_copy_def sample_srv_def)
  then have "negotiate_protocol sample_srv ?a = Inr (Some 0)"
    using p by (simp add: negotiate_protocol_def match_protocol.simps lws_hdr_simple_ptr_def)
  moreover have "strtolower (bytes ''WebSocket'') = bytes ''websocket''" by (simp add: strtolower_def bytes_def)
  ultimately show ?thesis
    using h by (auto simp: upgrade_request_def sample_srv_wsi_def zero_hdr_def accepts_all_def sample_srv_def)
qed

lemma upgrade_reaches_handshake:
  assumes "upgrade_request env h p" "hw_hdr w = h"
  obtains w2 where "hw_hdr w2 = h" "hw_ah w2 = hw_ah w" "hw_protocol w2 = p"
    "hw_tx w2 = (hw_tx w)\<lparr>tx_mode := LWS_CONNMODE_PRE_WS_SERVING_ACCEPT\<rparr>"
    "hw_log w2 = hw_log w @ [LWS_CALLBACK_FILTER_PROTOCOL_CONNECTION]"
    "headers_complete env w = finish_upgrade env w2"
proof -
  let ?w1 = "(set_mode LWS_CONNMODE_PRE_WS_SERVING_ACCEPT w)\<lparr>hw_timeout := NO_PENDING_TIMEOUT\<rparr>"
  let ?w2 = "?w1\<lparr>hw_protocol := p, hw_log := hw_log w @ [LWS_CALLBACK_FILTER_PROTOCOL_CONNECTION]\<rparr>"
  have "present (hdr_ah h) WSI_TOKEN_UPGRADE = Some True" "present (hdr_ah h) WSI_TOKEN_CONNECTION = Some True"
    "wants_websocket (hdr_ah h) = Inr True"
    using assms(1) by (auto simp: upgrade_request_def present_def holds_def wants_websocket_def)
  then have "headers_complete env w = upgrade_ws env ?w1"
    using assms(2) by (simp add: headers_complete_def Let_def set_mode_def)
  moreover have "call_user env LWS_CALLBACK_FILTER_PROTOCOL_CONNECTION (?w1\<lparr>hw_protocol := p\<rparr>) = (0, ?w2)"
    using assms(1) by (simp add: call_user_def upgrade_request_def accepts_all_def set_mode_def)
  ultimately show thesis
    using assms
    by (intro that [of ?w2])
       (simp_all add: upgrade_ws_def Let_def upgrade_request_def set_mode_def)
qed

text \<open>The byte that completes the headers runs the request.\<close>

lemma handshake_server_completes:
  assumes "hw_ah w = Ah_live" "libwebsocket_parse (sv_limits env) (hw_hdr w) c = Inr h" "parser_state h = WSI_PARSING_COMPLETE"
  shows "lws_handshake_server env w (c # cs) =
    (case headers_complete env (w\<lparr>hw_hdr := h\<rparr>) of
       Inl x \<Rightarrow> Inl x | Inr (Some n, w1) \<Rightarrow> Inr (n, w1, cs) | Inr (None, w1) \<Rightarrow> lws_handshake_server env w1 cs)"
  using assms by simp

lemma refused_frees_twice:
  assumes "hw_ah w = Ah_live" "libwebsocket_parse (sv_limits env) (hw_hdr w) c = Inr h" "upgrade_request env h p"
    and fails: "handshake_0405 (sv_hs env) (sv_tx env) (hdr_ah h) (sv_service_buffer env)
      ((hw_tx w)\<lparr>tx_mode := LWS_CONNMODE_PRE_WS_SERVING_ACCEPT\<rparr>) = Some (Inr (-1, v, as))"
  shows "lws_handshake_server env w (c # cs) = Inl Srv_double_free"
proof -
  let ?w = "w\<lparr>hw_hdr := h\<rparr>"
  obtain w2 where w2: "hw_hdr w2 = h" "hw_ah w2 = Ah_live" "hw_tx w2 = (hw_tx w)\<lparr>tx_mode := LWS_CONNMODE_PRE_WS_SERVING_ACCEPT\<rparr>"
    and e: "headers_complete env ?w = finish_upgrade env w2"
    using upgrade_reaches_handshake [OF assms(3), of ?w] assms(1) by auto
  have "do_handshake env w2 = Inr (-1, w2\<lparr>hw_tx := v, hw_active := as, hw_ah := Ah_freed\<rparr>)"
    using w2 fails by (simp add: do_handshake_def free_ah_def Let_def)
  then have "headers_complete env ?w = Inl Srv_double_free"
    unfolding e by (simp add: finish_upgrade_def bail_upgrade_def bail_nuke_ah_def free_ah_def)
  then show ?thesis
    using assms(3) by (simp only: handshake_server_completes [OF assms(1,2)] upgrade_request_def) simp
qed

text \<open>
  C29. A websocket request that the server does not answer corrupts the heap: without a host or a key
  the handshake fails and frees the header table, and its caller, told of the failure, frees the
  same table again.
\<close>

theorem refused_handshake_frees_twice:
  assumes "hw_ah w = Ah_live" "libwebsocket_parse (sv_limits env) (hw_hdr w) c = Inr h" "upgrade_request env h p"
    and "lws_hdr_total_length (hdr_ah h) WSI_TOKEN_HOST = Some n" "lws_hdr_total_length (hdr_ah h) WSI_TOKEN_KEY = Some m"
    and "n = 0 \<or> m = 0"
  shows "lws_handshake_server env w (c # cs) = Inl Srv_double_free"
proof -
  have "make_response (sv_hs env) (hdr_ah h) b = Inl (Hs_bail [])" for b
    using assms(4-6) by (auto simp: make_response_def)
  then show ?thesis by (intro refused_frees_twice [OF assms(1-3)]) (simp add: handshake_0405_def)
qed

theorem refused_handshake_frees_twice_witness:
  "lws_handshake_server sample_srv (sample_srv_wsi [(3, bytes ''a''), (4, bytes ''Upgrade''), (5, bytes ''WebSocket'')]) [10] =
     Inl Srv_double_free"
proof -
  let ?hs = "[(3, bytes ''a''), (4, bytes ''Upgrade''), (5, bytes ''WebSocket'')]"
  have "holds (hdr_table ?hs) 3 (bytes ''a'')" by (rule hdr_table_holds) (simp_all add: bytes_def)
  then have "lws_hdr_total_length (hdr_table ?hs) 3 = Some 1" by (simp add: holds_def bytes_def)
  moreover have "lws_hdr_total_length (hdr_table ?hs) 32 = Some 0" by (rule hdr_table_absent) simp_all
  moreover have "hdr_ah (hw_hdr (sample_srv_wsi ?hs)) = hdr_table ?hs" "hw_ah (sample_srv_wsi ?hs) = Ah_live"
    by (simp_all add: sample_srv_wsi_def)
  ultimately show ?thesis
    using refused_handshake_frees_twice [OF _ sample_parse sample_upgrade] by simp
qed

text \<open>
  C8. From the last byte of a websocket request to the open connection: the protocol is chosen, the
  user asked once, and the complete answer put on the stream; the connection is then established in
  websocket mode with its receive buffer. The request is of revision 13, asks for an upgrade to
  websocket on a protocol the server has, and the user refuses nothing; it has a host, a key of less
  than 128 characters, at most one value of less than 128 characters for the protocol, and no list of
  extensions; user space, receive buffer and socket option can be had, and no extension sends the
  reply itself. Two
  things go wrong at the edges: where sending that very answer fails (the socket refuses it with an
  error that is not a matter of time, or memory for what it did not take cannot be had) the header
  table is freed twice, and bytes that follow the request in the same packet are given to the header
  parser, which takes the receive buffer for its table.
\<close>

theorem upgrade_opens_websocket:
  assumes "hw_ah w = Ah_live" "libwebsocket_parse (sv_limits env) (hw_hdr w) c = Inr h" "upgrade_request env h p"
    and "request_ok (hdr_ah h) key proto" "length (sv_service_buffer env) = 4096"
    and "hs_user_space_ok (sv_hs env)" "\<not> hs_reply_handled (sv_hs env)" "sv_rx_buffer env" "sv_setsockopt env"
    and "tx_idle (sv_tx env) (hw_tx w)" "\<not> clean_buffer (hw_tx w)"
  shows "lws_handshake_server env w (c # cs) = Inl Srv_double_free \<and>
      gives_up (sv_tx env) (tx_clock (hw_tx w)) (response key proto) \<or>
    (\<exists>w1. lws_handshake_server env w (c # cs) = (if cs = [] then Inr (0, w1, []) else Inl Srv_no_table) \<and>
       hw_ah w1 = Ah_rx_buffer \<and> hw_state w1 = WSI_STATE_ESTABLISHED \<and> tx_mode (hw_tx w1) = LWS_CONNMODE_WS_SERVING \<and>
       hw_protocol w1 = p \<and> hw_log w1 = hw_log w @ [LWS_CALLBACK_FILTER_PROTOCOL_CONNECTION] \<and>
       stream (hw_tx w1) = wire (hw_tx w) @ response key proto)"
proof -
  let ?w = "w\<lparr>hw_hdr := h\<rparr>" and ?t = "(hw_tx w)\<lparr>tx_mode := LWS_CONNMODE_PRE_WS_SERVING_ACCEPT\<rparr>"
  have t: "tx_idle (sv_tx env) ?t" "\<not> clean_buffer ?t"
    using assms(10,11) by (auto simp: tx_idle_def tx_ok_def split: option.splits)
  obtain v where "handshake_0405 (sv_hs env) (sv_tx env) (hdr_ah h) (sv_service_buffer env) ?t = Some (Inr (-1, v, [])) \<and>
       gives_up (sv_tx env) (tx_clock ?t) (response key proto) \<or>
      (handshake_0405 (sv_hs env) (sv_tx env) (hdr_ah h) (sv_service_buffer env) ?t = Some (Inr (0, v, [])) \<and>
       tx_state v = WSI_STATE_ESTABLISHED \<and> stream v = wire ?t @ response key proto)"
    using handshake_response [OF assms(4-7) t] by blast
  then show ?thesis
  proof (elim disjE conjE)
    assume "handshake_0405 (sv_hs env) (sv_tx env) (hdr_ah h) (sv_service_buffer env) ?t = Some (Inr (-1, v, []))"
      "gives_up (sv_tx env) (tx_clock ?t) (response key proto)"
    then show ?thesis using refused_frees_twice [OF assms(1-3)] by simp
  next
    assume hs: "handshake_0405 (sv_hs env) (sv_tx env) (hdr_ah h) (sv_service_buffer env) ?t = Some (Inr (0, v, []))"
      and v: "tx_state v = WSI_STATE_ESTABLISHED" "stream v = wire ?t @ response key proto"
    obtain w2 where w2: "hw_hdr w2 = h" "hw_ah w2 = Ah_live" "hw_protocol w2 = p" "hw_tx w2 = ?t"
      "hw_log w2 = hw_log w @ [LWS_CALLBACK_FILTER_PROTOCOL_CONNECTION]"
      and e: "headers_complete env ?w = finish_upgrade env w2"
      using upgrade_reaches_handshake [OF assms(3), of ?w] assms(1) by auto
    let ?w3 = "w2\<lparr>hw_tx := v, hw_active := [], hw_ah := Ah_freed\<rparr>"
    let ?w1 = "(to_websocket ?w3)\<lparr>hw_ah := Ah_rx_buffer\<rparr>"
    have "do_handshake env w2 = Inr (0, w2\<lparr>hw_tx := v, hw_active := []\<rparr>)"
      using hs w2 by (simp add: do_handshake_def)
    then have "headers_complete env ?w = Inr (None, ?w1)"
      unfolding e using w2 assms(8,9) by (simp add: finish_upgrade_def Let_def free_ah_def)
    then have "lws_handshake_server env w (c # cs) = lws_handshake_server env ?w1 cs"
      using assms(3) by (simp only: handshake_server_completes [OF assms(1,2)] upgrade_request_def) simp
    moreover have "lws_handshake_server env ?w1 cs = (if cs = [] then Inr (0, ?w1, []) else Inl Srv_no_table)"
      by (cases cs) simp_all
    moreover have "stream (v\<lparr>tx_mode := m\<rparr>) = stream v" for m
      by (simp add: stream_def pending_def truncated_buf_def)
    ultimately show ?thesis
      using v w2 by (intro disjI2 exI [of _ ?w1]) (simp add: to_websocket_def set_mode_def)
  qed
qed

theorem upgrade_opens_websocket_witness:
  "let w = sample_srv_wsi [(3, bytes ''a''), (4, bytes ''Upgrade''), (5, bytes ''WebSocket''), (32, bytes ''dGhlIHNhbXBsZSBub25jZQ=='')]
   in (\<exists>w1. lws_handshake_server sample_srv w [10] = Inr (0, w1, []) \<and> hw_state w1 = WSI_STATE_ESTABLISHED \<and>
            stream (hw_tx w1) = response (bytes ''dGhlIHNhbXBsZSBub25jZQ=='') None)"
proof -
  let ?hs = "[(3, bytes ''a''), (4, bytes ''Upgrade''), (5, bytes ''WebSocket''), (32, bytes ''dGhlIHNhbXBsZSBub25jZQ=='')]"
  let ?w = "sample_srv_wsi ?hs"
  have "holds (hdr_table ?hs) 3 (bytes ''a'')" "holds (hdr_table ?hs) 32 (bytes ''dGhlIHNhbXBsZSBub25jZQ=='')"
    by (rule hdr_table_holds; simp add: bytes_def)+
  then have "request_ok (hdr_table ?hs) (bytes ''dGhlIHNhbXBsZSBub25jZQ=='') None"
    by (simp add: request_ok_def request_core_def holds_def hdr_table_absent bytes_def)
  moreover have "tx_idle all_env (hw_tx ?w)" "\<not> clean_buffer (hw_tx ?w)" "wire (hw_tx ?w) = []"
    by (simp_all add: sample_srv_wsi_def tx_idle_def tx_ok_def send_ok_def all_env_def new_tx_def)
  moreover have "hdr_ah (hw_hdr ?w) = hdr_table ?hs" "hw_ah ?w = Ah_live" by (simp_all add: sample_srv_wsi_def)
  moreover have "upgrade_request sample_srv (hw_hdr ?w) 0" by (rule sample_upgrade) simp_all
  moreover have "sv_tx sample_srv = all_env" "sv_hs sample_srv = sample_env" "length (sv_service_buffer sample_srv) = 4096"
    "sv_rx_buffer sample_srv" "sv_setsockopt sample_srv"
    by (simp_all add: sample_srv_def)
  moreover have "hs_user_space_ok sample_env" "\<not> hs_reply_handled sample_env" by (simp_all add: sample_env_def)
  ultimately have "(\<exists>w1. lws_handshake_server sample_srv ?w [10] = Inr (0, w1, []) \<and> hw_state w1 = WSI_STATE_ESTABLISHED \<and>
       stream (hw_tx w1) = response (bytes ''dGhlIHNhbXBsZSBub25jZQ=='') None)"
    using upgrade_opens_websocket [OF _ sample_parse, of ?hs 0 "bytes ''dGhlIHNhbXBsZSBub25jZQ==''" None "[]"]
    by (auto simp: all_env_takes)
  then show ?thesis unfolding Let_def .
qed

end
