(* ===== verification/Closing.thy ===== *)
theory Closing
  imports Http_Server
begin

text \<open>
  The end of a connection: \<open>libwebsocket_close_and_free_session\<close> and \<open>libwebsocket_set_timeout\<close> of
  \<^verbatim>\<open>lib/libwebsockets.c\<close>, with the handler of writable sockets and the timeout check of
  \<^verbatim>\<open>lib/service.c\<close>, which call it. What a connection owns is explicit, and so is what is given
  back; the sends are those of the sending side and the poll table is the one of \<^verbatim>\<open>lib/pollfd.c\<close>.
\<close>

unbundle bit_operations_syntax

section \<open>State\<close>

abbreviation (input) LWS_CLOSE_STATUS_NOSTATUS :: "16 word" where "LWS_CLOSE_STATUS_NOSTATUS \<equiv> 0"

text \<open>What a connection can own.\<close>

datatype resource =
    Res_headers
  | Res_rx_buffer
  | Res_truncated
  | Res_ping
  | Res_rxflow
  | Res_extension nat
  | Res_user_space
  | Res_file int
  | Res_socket int
  | Res_wsi

text \<open>
  The union by mode: whether there is a header table; that and the open file; whether there are a
  receive buffer and a stashed ping with its length.
\<close>

datatype conn_union = U_hdr bool | U_http bool "int option" | U_ws bool "byte list option" nat

datatype close_event =
    LWS_CALLBACK_CLIENT_CONNECTION_ERROR
  | LWS_CALLBACK_CLOSED_HTTP
  | LWS_CALLBACK_CLOSED
  | LWS_CALLBACK_WSI_DESTROY
  | LWS_CALLBACK_CLIENT_WRITEABLE
  | LWS_CALLBACK_SERVER_WRITEABLE
  | LWS_CALLBACK_HTTP_WRITEABLE

record conn =
  cn_tx :: tx_wsi
  cn_poll :: poll_ctx
  cn_id :: nat
  cn_u :: conn_union
  cn_protocol :: bool
  cn_extensions :: nat
  cn_user_space :: bool
  cn_timeout :: pending_timeout
  cn_timeout_limit :: int
  cn_log :: "close_event list"
  cn_freed :: "resource list"

text \<open>
  What it calls: the sending environment, whose extensions are the active ones; the time; the
  answers of the extensions to the requests for leave to close, for a writable callback and at each
  second; the thread; the answer of the user to a writable callback, given the calls so far.
\<close>

record close_env =
  ce_tx :: tx_env
  ce_now :: int
  ce_ok_to_close :: int
  ce_request_writeable :: int
  ce_1hz :: int
  ce_tid :: int
  ce_writeable :: "close_event list \<Rightarrow> int"

text \<open>A failure in the sending side or the poll table, the union read in a form it does not have.\<close>

datatype close_stop = Close_tx tx_stop | Close_poll poll_stop | Close_union

type_synonym close_result = "(close_stop + conn) option"

abbreviation cn_state :: "conn \<Rightarrow> lws_connection_states" where
  "cn_state c \<equiv> tx_state (cn_tx c)"

abbreviation cn_mode :: "conn \<Rightarrow> connection_mode" where
  "cn_mode c \<equiv> tx_mode (cn_tx c)"

definition set_conn_state :: "lws_connection_states \<Rightarrow> conn \<Rightarrow> conn" where
  "set_conn_state s c = c\<lparr>cn_tx := (cn_tx c)\<lparr>tx_state := s\<rparr>\<rparr>"

definition tell :: "close_event \<Rightarrow> conn \<Rightarrow> conn" where
  "tell e c = c\<lparr>cn_log := cn_log c @ [e]\<rparr>"

definition give_back :: "resource list \<Rightarrow> conn \<Rightarrow> conn" where
  "give_back rs c = c\<lparr>cn_freed := cn_freed c @ rs\<rparr>"

text \<open>The pointer at the start of the union, and the ping buffer, which lies behind the other forms.\<close>

fun union_head :: "conn_union \<Rightarrow> resource list" where
  "union_head (U_hdr ah) = (if ah then [Res_headers] else [])"
| "union_head (U_http ah f) = (if ah then [Res_headers] else [])"
| "union_head (U_ws rx ping n) = (if rx then [Res_rx_buffer] else [])"

fun clear_head :: "conn_union \<Rightarrow> conn_union" where
  "clear_head (U_hdr ah) = U_hdr False"
| "clear_head (U_http ah f) = U_http False f"
| "clear_head (U_ws rx ping n) = U_ws False ping n"

fun union_ping :: "conn_union \<Rightarrow> resource list" where
  "union_ping (U_ws rx (Some b) n) = [Res_ping]"
| "union_ping u = []"

fun clear_ping :: "conn_union \<Rightarrow> conn_union" where
  "clear_ping (U_ws rx (Some b) n) = U_ws rx None 0"
| "clear_ping u = u"

definition free_head :: "conn \<Rightarrow> conn" where
  "free_head c = (give_back (union_head (cn_u c)) c)\<lparr>cn_u := clear_head (cn_u c)\<rparr>"

section \<open>Closing\<close>

definition libwebsocket_set_timeout :: "close_env \<Rightarrow> pending_timeout \<Rightarrow> int \<Rightarrow> conn \<Rightarrow> conn" where
  "libwebsocket_set_timeout env reason secs c = c\<lparr>cn_timeout_limit := ce_now env + secs, cn_timeout := reason\<rparr>"

text \<open>The buffers that are freed for websocket connections.\<close>

definition free_ws_buffers :: "conn \<Rightarrow> conn" where
  "free_ws_buffers c =
     (let c1 = free_head c;
          c2 = (if truncated_send_malloc (cn_tx c1) \<noteq> None
                then (give_back [Res_truncated] c1)
                       \<lparr>cn_tx := (cn_tx c1)\<lparr>truncated_send_malloc := None, truncated_send_len := 0\<rparr>\<rparr>
                else c1)
      in (give_back (union_ping (cn_u c2)) c2)\<lparr>cn_u := clear_ping (cn_u c2)\<rparr>)"

definition free_rxflow :: "conn \<Rightarrow> conn" where
  "free_rxflow c =
     (if rxflow_buffer (pwsi (cn_poll c) (cn_id c)) \<noteq> None
      then (give_back [Res_rxflow] c)\<lparr>cn_poll := upd_wsi (cn_id c) (\<lambda>w. w\<lparr>rxflow_buffer := None\<rparr>) (cn_poll c)\<rparr>
      else c)"

text \<open>Which callback tells that the connection is over.\<close>

definition tell_closed :: "lws_connection_states \<Rightarrow> conn \<Rightarrow> conn" where
  "tell_closed old_state c =
     (if cn_protocol c \<and>
         (old_state = WSI_STATE_ESTABLISHED \<or> old_state = WSI_STATE_RETURNED_CLOSE_ALREADY \<or>
          old_state = WSI_STATE_AWAITING_CLOSE_ACK \<or> old_state = WSI_STATE_FLUSHING_STORED_SEND_BEFORE_CLOSE)
      then tell LWS_CALLBACK_CLOSED c
      else if cn_mode c = LWS_CONNMODE_HTTP_SERVING_ACCEPTED then tell LWS_CALLBACK_CLOSED_HTTP c
      else c)"

text \<open>The extensions, the socket, the user space and the connection itself.\<close>

definition destroy_wsi :: "conn \<Rightarrow> conn" where
  "destroy_wsi c =
     (let c1 = give_back (map Res_extension [0..<cn_extensions c]) c;
          s = sock (pwsi (cn_poll c1) (cn_id c1));
          c2 = (if 0 \<le> s then give_back [Res_socket s] c1 else c1);
          c3 = tell LWS_CALLBACK_WSI_DESTROY c2;
          c4 = (if cn_protocol c3 \<and> cn_user_space c3 then give_back [Res_user_space] c3 else c3)
      in give_back [Res_wsi] c4)"

text \<open>The label \<open>just_kill_connection\<close>.\<close>

definition just_kill_connection :: "lws_connection_states \<Rightarrow> conn \<Rightarrow> close_stop + conn" where
  "just_kill_connection old_state c =
     (case remove_wsi_socket_from_fds (cn_poll c) (cn_id c) of
        Inl e \<Rightarrow> Inl (Close_poll e)
      | Inr (_, p) \<Rightarrow>
          let c1 = free_rxflow (set_conn_state WSI_STATE_DEAD_SOCKET (c\<lparr>cn_poll := p\<rparr>));
              c2 = (if cn_mode c1 = LWS_CONNMODE_HTTP2_SERVING then free_head c1 else c1);
              c3 = (if old_state = WSI_STATE_ESTABLISHED \<or> cn_mode c2 = LWS_CONNMODE_WS_SERVING \<or>
                       cn_mode c2 = LWS_CONNMODE_WS_CLIENT
                    then free_ws_buffers c2 else c2);
              c4 = tell_closed old_state c3
          in Inr (destroy_wsi c4))"

text \<open>The loop that flushes the extensions: the boolean tells that closing goes on politely.\<close>

partial_function (option) flush_extensions :: "tx_env \<Rightarrow> tx_wsi \<Rightarrow> (tx_stop + bool \<times> tx_wsi) option" where
  "flush_extensions env w =
     (case tx_ext_callback env w LWS_EXT_CALLBACK_FLUSH_PENDING_TX tb_null of (m, eff) \<Rightarrow>
        if m < 0 then Some (Inr (False, tick w))
        else
          case (if tb_len eff \<noteq> 0 then lws_issue_raw env (tick w) eff else Inr (0, tick w)) of
            Inl e \<Rightarrow> Some (Inl e)
          | Inr (n, w1) \<Rightarrow>
              if n \<noteq> int (tb_len eff) then Some (Inr (False, w1))
              else if m = 0 then Some (Inr (True, w1))
              else flush_extensions env w1)"

text \<open>The file of an HTTP connection.\<close>

definition close_http_file :: "conn \<Rightarrow> close_stop + conn" where
  "close_http_file c =
     (if cn_mode c = LWS_CONNMODE_HTTP_SERVING_ACCEPTED then
        (case cn_u c of
           U_http ah (Some f) \<Rightarrow>
             Inr (tell LWS_CALLBACK_CLOSED_HTTP ((give_back [Res_file f] c)\<lparr>cn_u := U_http ah None\<rparr>))
         | U_http ah None \<Rightarrow> Inr c
         | _ \<Rightarrow> Inl Close_union)
      else Inr c)"

text \<open>The close frame, written behind \<open>LWS_SEND_BUFFER_PRE_PADDING + 2\<close> bytes of a cleared local array.\<close>

definition close_buf :: tx_buf where
  "close_buf = \<lparr>tb_id = 4, tb_mem = replicate 24 0, tb_off = 20, tb_len = 0\<rparr>"

definition send_close_indication :: "close_env \<Rightarrow> conn \<Rightarrow> close_result" where
  "send_close_indication env c =
     (case libwebsocket_write (ce_tx env) (cn_tx c) close_buf LWS_WRITE_CLOSE of
        None \<Rightarrow> None
      | Some (Inl e) \<Rightarrow> Some (Inl (Close_tx e))
      | Some (Inr (n, t, _)) \<Rightarrow>
          let c1 = c\<lparr>cn_tx := t\<rparr>
          in if 0 \<le> n
             then Some (Inr (libwebsocket_set_timeout env PENDING_TIMEOUT_CLOSE_ACK 1
                               (set_conn_state WSI_STATE_AWAITING_CLOSE_ACK c1)))
             else Some (just_kill_connection WSI_STATE_ESTABLISHED c1))"

text \<open>From the file on: the part that is run in states other than those of a close under way.\<close>

definition close_politely :: "close_env \<Rightarrow> conn \<Rightarrow> 16 word \<Rightarrow> close_result" where
  "close_politely env c reason =
     (case close_http_file c of
        Inl e \<Rightarrow> Some (Inl e)
      | Inr c1 \<Rightarrow>
          if 0 < ce_ok_to_close env then Some (Inr c1)
          else case flush_extensions (ce_tx env) (cn_tx c1) of
            None \<Rightarrow> None
          | Some (Inl e) \<Rightarrow> Some (Inl (Close_tx e))
          | Some (Inr (ok, t)) \<Rightarrow>
              let c2 = c1\<lparr>cn_tx := t\<rparr>
              in if ok \<and> cn_state c = WSI_STATE_ESTABLISHED \<and> reason \<noteq> LWS_CLOSE_STATUS_NOSTATUS
                 then send_close_indication env c2
                 else Some (just_kill_connection (cn_state c) c2))"

definition libwebsocket_close_and_free_session :: "close_env \<Rightarrow> conn \<Rightarrow> 16 word \<Rightarrow> close_result" where
  "libwebsocket_close_and_free_session env c reason =
     (let t = cn_tx c; s = cn_state c
      in if socket_is_permanently_unusable t then Some (just_kill_connection s c)
         else if s = WSI_STATE_DEAD_SOCKET then Some (Inr c)
         else if s = WSI_STATE_AWAITING_CLOSE_ACK then Some (just_kill_connection s c)
         else if s = WSI_STATE_FLUSHING_STORED_SEND_BEFORE_CLOSE then
           if truncated_send_len t \<noteq> 0 then
             Some (map_sum Close_poll (\<lambda>(_, p). c\<lparr>cn_poll := p\<rparr>)
               (libwebsocket_callback_on_writable (ce_request_writeable env) (ce_tid env) (cn_poll c) (cn_id c)))
           else Some (just_kill_connection s c)
         else if truncated_send_len t \<noteq> 0 then
           Some (Inr (set_conn_state WSI_STATE_FLUSHING_STORED_SEND_BEFORE_CLOSE c))
         else
           let c1 = c\<lparr>cn_tx := t\<lparr>close_reason := reason\<rparr>\<rparr>
           in if tx_mode t = LWS_CONNMODE_WS_CLIENT_WAITING_CONNECT \<or> tx_mode t = LWS_CONNMODE_WS_CLIENT_ISSUE_HANDSHAKE
              then Some (just_kill_connection s (free_head (tell LWS_CALLBACK_CLIENT_CONNECTION_ERROR c1)))
              else close_politely env c1 reason)"

section \<open>Service\<close>

definition lws_calllback_as_writeable :: "close_env \<Rightarrow> conn \<Rightarrow> close_stop + int \<times> conn" where
  "lws_calllback_as_writeable env c =
     (let e = (case cn_mode c of
                 LWS_CONNMODE_WS_CLIENT \<Rightarrow> LWS_CALLBACK_CLIENT_WRITEABLE
               | LWS_CONNMODE_WS_SERVING \<Rightarrow> LWS_CALLBACK_SERVER_WRITEABLE
               | _ \<Rightarrow> LWS_CALLBACK_HTTP_WRITEABLE);
          c1 = tell e c;
          n = ce_writeable env (cn_log c1)
      in if n \<noteq> 0 then Inr (n, c1)
         else map_sum Close_poll (\<lambda>(n, p). (n, c1\<lparr>cn_poll := p\<rparr>))
                (apply_rx_flow_control (ce_request_writeable env) (ce_tid env) (cn_poll c1) (cn_id c1)))"

text \<open>
  The extensions spill what they hold: \<open>Some True\<close> that nothing is left, \<open>Some False\<close> that the socket is
  choked, \<open>None\<close> the failure.
\<close>

partial_function (option) spill_extensions :: "tx_env \<Rightarrow> tx_wsi \<Rightarrow> (tx_stop + bool option \<times> tx_wsi) option" where
  "spill_extensions env w =
     (case tx_ext_callback env w LWS_EXT_CALLBACK_PACKET_TX_PRESEND tb_null of (m, eff) \<Rightarrow>
        if m < 0 then Some (Inr (None, tick w))
        else if tb_len eff = 0 then
          (if m \<noteq> 0 then spill_extensions env (tick w) else Some (Inr (Some True, tick w)))
        else
          case lws_issue_raw env (tick w) eff of
            Inl e \<Rightarrow> Some (Inl e)
          | Inr (n, w1) \<Rightarrow>
              if n \<noteq> int (tb_len eff) then Some (Inr (None, w1))
              else if m = 0 then Some (Inr (Some True, w1))
              else
                case lws_send_pipe_choked env w1 of (choked, w2) \<Rightarrow>
                  if choked then Some (Inr (Some False, w2)) else spill_extensions env w2)"

text \<open>The stashed ping answered.\<close>

definition send_pong :: "close_env \<Rightarrow> conn \<Rightarrow> bool \<Rightarrow> byte list \<Rightarrow> nat \<Rightarrow> (close_stop + int \<times> conn) option" where
  "send_pong env c rx m n =
     (case libwebsocket_write (ce_tx env) (cn_tx c)
             \<lparr>tb_id = 5, tb_mem = m, tb_off = LWS_SEND_BUFFER_PRE_PADDING, tb_len = n\<rparr> LWS_WRITE_PONG of
        None \<Rightarrow> None
      | Some (Inl e) \<Rightarrow> Some (Inl (Close_tx e))
      | Some (Inr (r, t, b)) \<Rightarrow>
          if r < 0 then Some (Inr (-1, c\<lparr>cn_tx := t, cn_u := U_ws rx (Some (tb_mem b)) n\<rparr>))
          else Some (Inr (0, c\<lparr>cn_tx := t, cn_u := U_ws rx (Some (tb_mem b)) 0\<rparr>)))"

text \<open>From \<open>user_service\<close> on: the request for writability is taken back and the user is called.\<close>

definition user_service :: "close_env \<Rightarrow> conn \<Rightarrow> close_stop + int \<times> conn" where
  "user_service env c =
     (case lws_change_pollfd (ce_tid env) (cn_poll c) (cn_id c) LWS_POLLOUT 0 of
        Inl e \<Rightarrow> Inl (Close_poll e)
      | Inr (n, p) \<Rightarrow>
          if n \<noteq> 0 then Inr (1, c\<lparr>cn_poll := p\<rparr>) else lws_calllback_as_writeable env (c\<lparr>cn_poll := p\<rparr>))"

definition ping_waits :: "conn_union \<Rightarrow> bool" where
  "ping_waits u = (case u of U_ws rx m n \<Rightarrow> n \<noteq> 0 | _ \<Rightarrow> False)"

definition lws_handle_POLLOUT_event :: "close_env \<Rightarrow> conn \<Rightarrow> (close_stop + int \<times> conn) option" where
  "lws_handle_POLLOUT_event env c =
     (let t = cn_tx c
      in if truncated_send_len t \<noteq> 0 then
           Some (map_sum Close_tx (\<lambda>(n, t1). (if n < 0 then -1 else 0, c\<lparr>cn_tx := t1\<rparr>)) (flush_truncated (ce_tx env) t))
         else if tx_state t = WSI_STATE_FLUSHING_STORED_SEND_BEFORE_CLOSE then Some (Inr (-1, c))
         else if tx_state t = WSI_STATE_ESTABLISHED \<and> ping_waits (cn_u c) then
           (case cn_u c of U_ws rx (Some m) n \<Rightarrow> send_pong env c rx m n | _ \<Rightarrow> Some (Inl Close_union))
         else if \<not> extension_data_pending t then Some (user_service env (c\<lparr>cn_tx := tick t\<rparr>))
         else
           case spill_extensions (ce_tx env) (tick t) of
             None \<Rightarrow> None
           | Some (Inl e) \<Rightarrow> Some (Inl (Close_tx e))
           | Some (Inr (None, t1)) \<Rightarrow> Some (Inr (-1, c\<lparr>cn_tx := t1\<rparr>))
           | Some (Inr (Some False, t1)) \<Rightarrow> Some (Inr (0, c\<lparr>cn_tx := t1\<rparr>))
           | Some (Inr (Some True, t1)) \<Rightarrow> Some (user_service env (c\<lparr>cn_tx := t1\<lparr>extension_data_pending := False\<rparr>\<rparr>)))"

text \<open>
  What \<open>libwebsocket_service_fd\<close> does on \<open>POLLOUT\<close>: for websocket connections, and, while something is
  stored, for HTTP connections.
\<close>

definition service_pollout :: "close_env \<Rightarrow> conn \<Rightarrow> close_result" where
  "service_pollout env c =
     (if cn_state c = WSI_STATE_ESTABLISHED \<or> cn_state c = WSI_STATE_HTTP2_ESTABLISHED \<or>
         cn_state c = WSI_STATE_HTTP2_ESTABLISHED_PRE_SETTINGS \<or>
         cn_state c = WSI_STATE_FLUSHING_STORED_SEND_BEFORE_CLOSE
      then (case lws_handle_POLLOUT_event env c of
              None \<Rightarrow> None
            | Some (Inl e) \<Rightarrow> Some (Inl e)
            | Some (Inr (n, c1)) \<Rightarrow>
                if n \<noteq> 0 then libwebsocket_close_and_free_session env c1 LWS_CLOSE_STATUS_NOSTATUS
                else Some (Inr c1))
      else Some (Inr c))"

definition http_pollout :: "close_env \<Rightarrow> conn \<Rightarrow> close_result" where
  "http_pollout env c =
     (case flush_truncated (ce_tx env) (cn_tx c) of
        Inl e \<Rightarrow> Some (Inl (Close_tx e))
      | Inr (n, t) \<Rightarrow>
          if n < 0 then libwebsocket_close_and_free_session env (c\<lparr>cn_tx := t\<rparr>) LWS_CLOSE_STATUS_NOSTATUS
          else Some (Inr (c\<lparr>cn_tx := t\<rparr>)))"

definition libwebsocket_service_timeout_check :: "close_env \<Rightarrow> conn \<Rightarrow> int \<Rightarrow> (close_stop + int \<times> conn) option" where
  "libwebsocket_service_timeout_check env c sec =
     (if ce_1hz env < 0 then Some (Inr (0, c))
      else if cn_timeout c = NO_PENDING_TIMEOUT then Some (Inr (0, c))
      else if cn_timeout_limit c < sec then
        map_option (map_sum id (\<lambda>c1. (1, c1))) (libwebsocket_close_and_free_session env c LWS_CLOSE_STATUS_NOSTATUS)
      else Some (Inr (0, c)))"

section \<open>What a connection owns\<close>

fun union_file :: "conn_union \<Rightarrow> resource list" where
  "union_file (U_http ah (Some f)) = [Res_file f]"
| "union_file u = []"

definition truncated_store :: "conn \<Rightarrow> resource list" where
  "truncated_store c = (if truncated_send_malloc (cn_tx c) \<noteq> None then [Res_truncated] else [])"

definition rxflow_store :: "conn \<Rightarrow> resource list" where
  "rxflow_store c = (if rxflow_buffer (pwsi (cn_poll c) (cn_id c)) \<noteq> None then [Res_rxflow] else [])"

definition common_resources :: "conn \<Rightarrow> resource list" where
  "common_resources c =
     map Res_extension [0..<cn_extensions c] @
     (let s = sock (pwsi (cn_poll c) (cn_id c)) in if 0 \<le> s then [Res_socket s] else []) @
     (if cn_protocol c \<and> cn_user_space c then [Res_user_space] else []) @ [Res_wsi]"

definition owned :: "conn \<Rightarrow> resource set" where
  "owned c = set (union_head (cn_u c)) \<union> set (union_ping (cn_u c)) \<union> set (union_file (cn_u c)) \<union>
     set (truncated_store c) \<union> set (rxflow_store c) \<union> set (common_resources c)"

text \<open>What \<open>just_kill_connection\<close> gives back, and the callbacks it makes.\<close>

definition is_ws :: "connection_mode \<Rightarrow> bool" where
  "is_ws m \<longleftrightarrow> m = LWS_CONNMODE_WS_SERVING \<or> m = LWS_CONNMODE_WS_CLIENT"

definition was_open :: "lws_connection_states \<Rightarrow> bool" where
  "was_open s \<longleftrightarrow> s = WSI_STATE_ESTABLISHED \<or> s = WSI_STATE_RETURNED_CLOSE_ALREADY \<or>
     s = WSI_STATE_AWAITING_CLOSE_ACK \<or> s = WSI_STATE_FLUSHING_STORED_SEND_BEFORE_CLOSE"

definition kill_frees :: "lws_connection_states \<Rightarrow> conn \<Rightarrow> resource list" where
  "kill_frees s c = rxflow_store c @
     (if s = WSI_STATE_ESTABLISHED \<or> is_ws (cn_mode c)
      then union_head (cn_u c) @ truncated_store c @ union_ping (cn_u c) else []) @ common_resources c"

lemma give_back_simps [simp]:
  "cn_freed (give_back rs c) = cn_freed c @ rs" "cn_tx (give_back rs c) = cn_tx c" "cn_poll (give_back rs c) = cn_poll c"
  "cn_id (give_back rs c) = cn_id c" "cn_u (give_back rs c) = cn_u c" "cn_protocol (give_back rs c) = cn_protocol c"
  "cn_extensions (give_back rs c) = cn_extensions c" "cn_user_space (give_back rs c) = cn_user_space c"
  "cn_log (give_back rs c) = cn_log c"
  by (simp_all add: give_back_def)

lemma tell_simps [simp]:
  "cn_freed (tell e c) = cn_freed c" "cn_tx (tell e c) = cn_tx c" "cn_poll (tell e c) = cn_poll c"
  "cn_id (tell e c) = cn_id c" "cn_u (tell e c) = cn_u c" "cn_protocol (tell e c) = cn_protocol c"
  "cn_extensions (tell e c) = cn_extensions c" "cn_user_space (tell e c) = cn_user_space c"
  "cn_log (tell e c) = cn_log c @ [e]"
  by (simp_all add: tell_def)

lemma clear_head_ping [simp]: "union_ping (clear_head u) = union_ping u"
  by (induction u rule: union_ping.induct) auto

lemma free_ws_buffers_spec:
  "cn_freed (free_ws_buffers c) = cn_freed c @ union_head (cn_u c) @ truncated_store c @ union_ping (cn_u c)"
  "tx_state (cn_tx (free_ws_buffers c)) = tx_state (cn_tx c)" "tx_mode (cn_tx (free_ws_buffers c)) = tx_mode (cn_tx c)"
  "cn_poll (free_ws_buffers c) = cn_poll c" "cn_id (free_ws_buffers c) = cn_id c"
  "cn_protocol (free_ws_buffers c) = cn_protocol c" "cn_extensions (free_ws_buffers c) = cn_extensions c"
  "cn_user_space (free_ws_buffers c) = cn_user_space c" "cn_log (free_ws_buffers c) = cn_log c"
  "wire (cn_tx (free_ws_buffers c)) = wire (cn_tx c)"
  by (auto simp: free_ws_buffers_def free_head_def truncated_store_def Let_def)

lemma free_rxflow_spec:
  "cn_freed (free_rxflow c) = cn_freed c @ rxflow_store c" "cn_tx (free_rxflow c) = cn_tx c" "cn_id (free_rxflow c) = cn_id c"
  "cn_u (free_rxflow c) = cn_u c" "cn_protocol (free_rxflow c) = cn_protocol c" "cn_extensions (free_rxflow c) = cn_extensions c"
  "cn_user_space (free_rxflow c) = cn_user_space c" "cn_log (free_rxflow c) = cn_log c"
  "sock (pwsi (cn_poll (free_rxflow c)) q) = sock (pwsi (cn_poll c) q)"
  "poll_map (cn_poll (free_rxflow c)) = poll_map (cn_poll c)"
  by (auto simp: free_rxflow_def rxflow_store_def upd_wsi_def poll_map_def live_def)

lemma remove_rxflow:
  "remove_wsi_socket_from_fds c p = Inr (r, c') \<Longrightarrow> rxflow_buffer (pwsi c' q) = rxflow_buffer (pwsi c q)"
  by (auto simp: remove_wsi_socket_from_fds_def Let_def do_ext_def poll_callback_def upd_wsi_def split: if_splits option.splits)

lemma destroy_wsi_spec:
  "cn_freed (destroy_wsi c) = cn_freed c @ common_resources c" "cn_tx (destroy_wsi c) = cn_tx c"
  "cn_poll (destroy_wsi c) = cn_poll c" "cn_log (destroy_wsi c) = cn_log c @ [LWS_CALLBACK_WSI_DESTROY]"
  by (simp_all add: destroy_wsi_def common_resources_def Let_def)

lemma kill_spec:
  assumes "polled_conn (cn_poll c) (cn_id c)" "cn_mode c \<noteq> LWS_CONNMODE_HTTP2_SERVING"
  shows "\<exists>c'. just_kill_connection s c = Inr c' \<and> cn_freed c' = cn_freed c @ kill_frees s c \<and> cn_state c' = WSI_STATE_DEAD_SOCKET \<and>
    wire (cn_tx c') = wire (cn_tx c) \<and>
    poll_map (cn_poll c') = (poll_map (cn_poll c))(wsi_fd (cn_poll c) (cn_id c) := None) \<and>
    cn_log c' = cn_log c @
      (if cn_protocol c \<and> was_open s then [LWS_CALLBACK_CLOSED]
       else if cn_mode c = LWS_CONNMODE_HTTP_SERVING_ACCEPTED then [LWS_CALLBACK_CLOSED_HTTP] else []) @ [LWS_CALLBACK_WSI_DESTROY]"
proof -
  have ok: "poll_ok (cn_poll c)" "polled (cn_poll c) (cn_id c)" using assms(1) by (simp_all add: polled_conn_def)
  obtain p where p: "remove_wsi_socket_from_fds (cn_poll c) (cn_id c) = Inr (0, p)"
    "poll_map p = (poll_map (cn_poll c))(wsi_fd (cn_poll c) (cn_id c) := None)" "\<And>q. sock (pwsi p q) = sock (pwsi (cn_poll c) q)"
    using remove_spec [OF ok polled_sock [OF ok]] by blast
  define c1 where "c1 = free_rxflow (set_conn_state WSI_STATE_DEAD_SOCKET (c\<lparr>cn_poll := p\<rparr>))"
  have c1: "cn_freed c1 = cn_freed c @ rxflow_store c" "tx_state (cn_tx c1) = WSI_STATE_DEAD_SOCKET" "cn_mode c1 = cn_mode c"
    "cn_id c1 = cn_id c" "cn_u c1 = cn_u c" "cn_protocol c1 = cn_protocol c" "cn_extensions c1 = cn_extensions c"
    "cn_user_space c1 = cn_user_space c" "cn_log c1 = cn_log c" "wire (cn_tx c1) = wire (cn_tx c)"
    "truncated_store c1 = truncated_store c" "sock (pwsi (cn_poll c1) (cn_id c)) = sock (pwsi (cn_poll c) (cn_id c))"
    "poll_map (cn_poll c1) = (poll_map (cn_poll c))(wsi_fd (cn_poll c) (cn_id c) := None)"
    using remove_rxflow [OF p(1)] p(2,3)
    by (simp_all add: c1_def free_rxflow_spec set_conn_state_def rxflow_store_def truncated_store_def)
  define c3 where "c3 = (if s = WSI_STATE_ESTABLISHED \<or> is_ws (cn_mode c) then free_ws_buffers c1 else c1)"
  have c3: "cn_freed c3 = cn_freed c @ rxflow_store c @
      (if s = WSI_STATE_ESTABLISHED \<or> is_ws (cn_mode c) then union_head (cn_u c) @ truncated_store c @ union_ping (cn_u c) else [])"
    "tx_state (cn_tx c3) = WSI_STATE_DEAD_SOCKET" "cn_mode c3 = cn_mode c" "cn_id c3 = cn_id c"
    "cn_protocol c3 = cn_protocol c" "cn_extensions c3 = cn_extensions c" "cn_user_space c3 = cn_user_space c"
    "cn_log c3 = cn_log c" "wire (cn_tx c3) = wire (cn_tx c)" "cn_poll c3 = cn_poll c1"
    using c1 by (simp_all add: c3_def free_ws_buffers_spec)
  have k: "just_kill_connection s c = Inr (destroy_wsi (tell_closed s c3))"
    using assms(2) c1(3)
    by (simp only: just_kill_connection_def p(1) sum.case prod.case Let_def c1_def [symmetric] c3_def is_ws_def if_False)
  define c4 where "c4 = tell_closed s c3"
  have c4: "cn_freed c4 = cn_freed c3" "cn_tx c4 = cn_tx c3" "cn_poll c4 = cn_poll c3" "cn_id c4 = cn_id c3"
    "cn_protocol c4 = cn_protocol c3" "cn_extensions c4 = cn_extensions c3" "cn_user_space c4 = cn_user_space c3"
    "cn_log c4 = cn_log c @ (if cn_protocol c \<and> was_open s then [LWS_CALLBACK_CLOSED]
       else if cn_mode c = LWS_CONNMODE_HTTP_SERVING_ACCEPTED then [LWS_CALLBACK_CLOSED_HTTP] else [])"
    using c3(3,5,8) unfolding c4_def tell_closed_def was_open_def by simp_all
  have common: "common_resources c4 = common_resources c"
    using c4 c3 c1(12) by (simp add: common_resources_def)
  show ?thesis
    unfolding k c4_def [symmetric] using c4 c3 c1(13) destroy_wsi_spec [of c4] common by (simp add: kill_frees_def)
qed

section \<open>Websocket connections\<close>

definition ws_conn :: "conn \<Rightarrow> bool" where
  "ws_conn c \<longleftrightarrow> is_ws (cn_mode c) \<and> (\<exists>rx m n. cn_u c = U_ws rx m n) \<and> cn_protocol c \<and>
     polled_conn (cn_poll c) (cn_id c)"

text \<open>The calls that end a websocket connection at once.\<close>

definition ends_now :: "close_env \<Rightarrow> conn \<Rightarrow> 16 word \<Rightarrow> bool" where
  "ends_now env c reason \<longleftrightarrow>
     cn_state c = WSI_STATE_AWAITING_CLOSE_ACK \<or>
     was_open (cn_state c) \<and> socket_is_permanently_unusable (cn_tx c) \<or>
     cn_state c = WSI_STATE_FLUSHING_STORED_SEND_BEFORE_CLOSE \<and> truncated_send_len (cn_tx c) = 0 \<or>
     (cn_state c = WSI_STATE_RETURNED_CLOSE_ALREADY \<or> cn_state c = WSI_STATE_ESTABLISHED \<and> reason = LWS_CLOSE_STATUS_NOSTATUS) \<and>
       truncated_send_len (cn_tx c) = 0 \<and> ce_ok_to_close env \<le> 0 \<and> tx_extensions (ce_tx env) = []"

lemma flush_no_extensions: "tx_extensions env = [] \<Longrightarrow> flush_extensions env w = Some (Inr (True, tick w))"
  by (simp add: flush_extensions.simps tx_ext_callback_none tb_null_def)

lemma ends_now_kills:
  assumes "ends_now env c reason" "is_ws (cn_mode c)"
  obtains t where "libwebsocket_close_and_free_session env c reason = Some (just_kill_connection (cn_state c) (c\<lparr>cn_tx := t\<rparr>))"
    "tx_mode t = tx_mode (cn_tx c)" "wire t = wire (cn_tx c)" "truncated_send_malloc t = truncated_send_malloc (cn_tx c)"
proof (cases "cn_state c = WSI_STATE_AWAITING_CLOSE_ACK \<or> socket_is_permanently_unusable (cn_tx c) \<or>
     cn_state c = WSI_STATE_FLUSHING_STORED_SEND_BEFORE_CLOSE \<and> truncated_send_len (cn_tx c) = 0")
  case True
  then have "libwebsocket_close_and_free_session env c reason = Some (just_kill_connection (cn_state c) c)"
    by (elim disjE) (simp_all add: libwebsocket_close_and_free_session_def Let_def)
  then show thesis using that [of "cn_tx c"] by simp
next
  case False
  then have r: "cn_state c = WSI_STATE_RETURNED_CLOSE_ALREADY \<or> cn_state c = WSI_STATE_ESTABLISHED \<and> reason = LWS_CLOSE_STATUS_NOSTATUS"
    "truncated_send_len (cn_tx c) = 0" "ce_ok_to_close env \<le> 0" "tx_extensions (ce_tx env) = []"
    using assms(1) by (auto simp: ends_now_def)
  let ?c1 = "c\<lparr>cn_tx := (cn_tx c)\<lparr>close_reason := reason\<rparr>\<rparr>"
  have modes: "cn_mode c \<noteq> LWS_CONNMODE_WS_CLIENT_WAITING_CONNECT" "cn_mode c \<noteq> LWS_CONNMODE_WS_CLIENT_ISSUE_HANDSHAKE"
    "cn_mode c \<noteq> LWS_CONNMODE_HTTP_SERVING_ACCEPTED"
    using assms(2) by (auto simp: is_ws_def)
  then have "libwebsocket_close_and_free_session env c reason = close_politely env ?c1 reason"
    using r False by (auto simp: libwebsocket_close_and_free_session_def Let_def)
  also have "\<dots> = Some (just_kill_connection (cn_state c) (c\<lparr>cn_tx := tick ((cn_tx c)\<lparr>close_reason := reason\<rparr>)\<rparr>))"
    using r modes by (auto simp: close_politely_def close_http_file_def flush_no_extensions)
  finally show thesis using that [of "tick ((cn_tx c)\<lparr>close_reason := reason\<rparr>)"] by simp
qed

lemma distinct_ws_frees: "cn_u c = U_ws rx m n \<Longrightarrow> is_ws (cn_mode c) \<Longrightarrow> distinct (kill_frees s c) \<and> set (kill_frees s c) = owned c"
  by (cases m) (auto simp: kill_frees_def rxflow_store_def truncated_store_def common_resources_def owned_def Let_def distinct_map inj_on_def)

lemma ws_close:
  assumes "ws_conn c" "ends_now env c reason"
  shows "\<exists>c' rs. libwebsocket_close_and_free_session env c reason = Some (Inr c') \<and> cn_state c' = WSI_STATE_DEAD_SOCKET \<and>
    cn_freed c' = cn_freed c @ rs \<and> distinct rs \<and> set rs = owned c \<and> wire (cn_tx c') = wire (cn_tx c) \<and>
    cn_log c' = cn_log c @ [LWS_CALLBACK_CLOSED, LWS_CALLBACK_WSI_DESTROY] \<and>
    poll_map (cn_poll c') = (poll_map (cn_poll c))(wsi_fd (cn_poll c) (cn_id c) := None)"
proof -
  obtain rx m n where c: "is_ws (cn_mode c)" "cn_u c = U_ws rx m n" "cn_protocol c" "polled_conn (cn_poll c) (cn_id c)"
    using assms(1) by (auto simp: ws_conn_def)
  obtain t where t: "libwebsocket_close_and_free_session env c reason = Some (just_kill_connection (cn_state c) (c\<lparr>cn_tx := t\<rparr>))"
    "tx_mode t = cn_mode c" "wire t = wire (cn_tx c)" "truncated_send_malloc t = truncated_send_malloc (cn_tx c)"
    by (rule ends_now_kills [OF assms(2) c(1)])
  let ?c = "c\<lparr>cn_tx := t\<rparr>"
  have was: "was_open (cn_state c)" using assms(2) by (auto simp: ends_now_def was_open_def)
  have own: "owned ?c = owned c" using t(4)
    by (simp add: owned_def truncated_store_def rxflow_store_def common_resources_def)
  have k: "distinct (kill_frees (cn_state c) ?c)" "set (kill_frees (cn_state c) ?c) = owned c"
    using distinct_ws_frees [of ?c rx m n "cn_state c"] c(1,2) t(2) own by simp_all
  show ?thesis
    using kill_spec [of ?c "cn_state c"] c t k was by (auto simp: is_ws_def)
qed

text \<open>
  C10. A websocket connection ends cleanly: when it is closed after the peer's answer, after a failed
  socket, after its stored bytes are flushed, or without a status to send, every buffer, the
  extensions' data, the socket, the user space and the connection itself are given back exactly
  once, the socket leaves the poll table, and the user is told once that it is closed and then that
  it is destroyed.
\<close>

theorem ws_close_releases_all:
  assumes "ws_conn c" "ends_now env c reason"
  shows "\<exists>c' rs. libwebsocket_close_and_free_session env c reason = Some (Inr c') \<and> cn_state c' = WSI_STATE_DEAD_SOCKET \<and>
    cn_freed c' = cn_freed c @ rs \<and> distinct rs \<and> set rs = owned c \<and>
    cn_log c' = cn_log c @ [LWS_CALLBACK_CLOSED, LWS_CALLBACK_WSI_DESTROY] \<and>
    poll_map (cn_poll c') = (poll_map (cn_poll c))(wsi_fd (cn_poll c) (cn_id c) := None)"
  using ws_close [OF assms] by blast

section \<open>Closing with bytes in the store\<close>

text \<open>Writable events, one after the other, until the connection is destroyed.\<close>

fun pollouts :: "(conn \<Rightarrow> close_result) \<Rightarrow> nat \<Rightarrow> conn \<Rightarrow> close_result" where
  "pollouts step 0 c = Some (Inr c)"
| "pollouts step (Suc n) c =
     (case step c of Some (Inr c1) \<Rightarrow> if cn_state c1 = WSI_STATE_DEAD_SOCKET then Some (Inr c1) else pollouts step n c1 | r \<Rightarrow> r)"

text \<open>A flush leaves the rest of the connection alone, and reports when the store of a closing one is empty.\<close>

lemma flush_frame:
  assumes "flush_truncated env w = Inr (r, v)" "truncated_send_len w \<noteq> 0" "tx_extensions env = []"
    "\<And>t bs. send_sock env t bs \<noteq> Send_failed E_other"
  shows "tx_mode v = tx_mode w" "truncated_send_malloc v = truncated_send_malloc w"
    "socket_is_permanently_unusable v = socket_is_permanently_unusable w"
    "tx_state w = WSI_STATE_FLUSHING_STORED_SEND_BEFORE_CLOSE \<Longrightarrow> r < 0 \<longleftrightarrow> truncated_send_len v = 0"
proof -
  let ?b = "truncated_buf w"
  obtain n w1 where n: "lws_ssl_capable_write_no_ssl env (tick w) (take (tb_len ?b) (drop (tb_off ?b) (tb_mem ?b))) = (n, w1)"
    by fastforce
  have w1: "n \<noteq> -1" "w1\<lparr>wire := []\<rparr> = (tick (tick w))\<lparr>wire := []\<rparr>"
    using n assms(4) by (auto simp: lws_ssl_capable_write_no_ssl_def split: send_res.splits if_splits) (metis errno_t.exhaust)+
  have f: "tx_mode w1 = tx_mode w" "truncated_send_malloc w1 = truncated_send_malloc w"
    "socket_is_permanently_unusable w1 = socket_is_permanently_unusable w" "truncated_send_len w1 = truncated_send_len w"
    "tx_state w1 = tx_state w"
    using arg_cong [OF w1(2), of tx_mode] arg_cong [OF w1(2), of truncated_send_malloc]
      arg_cong [OF w1(2), of socket_is_permanently_unusable] arg_cong [OF w1(2), of truncated_send_len]
      arg_cong [OF w1(2), of tx_state] by (simp_all add: tick_def)
  have in_t: "in_truncated w ?b" "tb_len ?b = truncated_send_len w" by (simp_all add: in_truncated_def truncated_buf_def)
  have h: "handle_truncated_send env w1 ?b (truncated_send_len w) (if n = -2 then 0 else nat n) = Inr (r, v)"
    using assms(1-3) in_t n w1(1)
    by (simp add: flush_truncated_def lws_issue_raw_def Let_def tx_ext_callback_none split: if_splits)
  show "tx_mode v = tx_mode w" "truncated_send_malloc v = truncated_send_malloc w"
    "socket_is_permanently_unusable v = socket_is_permanently_unusable w"
    using h f assms(2) by (auto simp: handle_truncated_send_def Let_def libwebsocket_callback_on_writable_tx_def split: if_splits)
  show "r < 0 \<longleftrightarrow> truncated_send_len v = 0" if "tx_state w = WSI_STATE_FLUSHING_STORED_SEND_BEFORE_CLOSE"
    using h f assms(2) that by (auto simp: handle_truncated_send_def Let_def libwebsocket_callback_on_writable_tx_def split: if_splits)
qed

text \<open>A connection that is to be closed once its store is empty.\<close>

definition flushing :: "close_env \<Rightarrow> conn \<Rightarrow> bool" where
  "flushing env c \<longleftrightarrow> polled_conn (cn_poll c) (cn_id c) \<and> cn_protocol c \<and> cn_mode c \<noteq> LWS_CONNMODE_HTTP2_SERVING \<and>
     cn_state c = WSI_STATE_FLUSHING_STORED_SEND_BEFORE_CLOSE \<and> tx_ok (cn_tx c) \<and>
     truncated_send_len (cn_tx c) \<noteq> 0 \<and> tx_extensions (ce_tx env) = [] \<and> send_ok (ce_tx env) \<and>
     (\<forall>t bs. send_sock (ce_tx env) t bs \<noteq> Send_failed E_other)"

lemma kill_frees_tx:
  "truncated_send_malloc v = truncated_send_malloc (cn_tx c) \<Longrightarrow> tx_mode v = cn_mode c \<Longrightarrow>
     kill_frees s (c\<lparr>cn_tx := v\<rparr>) = kill_frees s c"
  by (simp add: kill_frees_def truncated_store_def rxflow_store_def common_resources_def)

text \<open>
  What the two handlers of a writable socket promise for such a connection, and what follows from
  it.
\<close>

locale store_flusher =
  fixes env :: close_env and step :: "conn \<Rightarrow> close_result"
  assumes step_flushes: "flushing env c \<Longrightarrow> flush_truncated (ce_tx env) (cn_tx c) = Inr (r, v) \<Longrightarrow>
    step c = (if r < 0 then libwebsocket_close_and_free_session env (c\<lparr>cn_tx := v\<rparr>) LWS_CLOSE_STATUS_NOSTATUS
              else Some (Inr (c\<lparr>cn_tx := v\<rparr>)))"
begin

lemma flushing_step:
  assumes "flushing env c"
  obtains v where "drain (Suc m) (ce_tx env) (cn_tx c) = drain m (ce_tx env) v" "stream v = stream (cn_tx c)"
    "truncated_send_malloc v = truncated_send_malloc (cn_tx c)" "tx_mode v = cn_mode c"
    "tx_state v = WSI_STATE_FLUSHING_STORED_SEND_BEFORE_CLOSE" "tx_ok v"
    "truncated_send_len v \<noteq> 0 \<longrightarrow> step c = Some (Inr (c\<lparr>cn_tx := v\<rparr>))"
    "truncated_send_len v = 0 \<longrightarrow> step c = libwebsocket_close_and_free_session env (c\<lparr>cn_tx := v\<rparr>) LWS_CLOSE_STATUS_NOSTATUS"
proof -
  have a: "cn_state c = WSI_STATE_FLUSHING_STORED_SEND_BEFORE_CLOSE" "tx_ok (cn_tx c)"
     "truncated_send_len (cn_tx c) \<noteq> 0" "tx_extensions (ce_tx env) = []" "send_ok (ce_tx env)"
     "\<And>t bs. send_sock (ce_tx env) t bs \<noteq> Send_failed E_other"
    using assms by (auto simp: flushing_def)
  obtain r v k where v: "flush_truncated (ce_tx env) (cn_tx c) = Inr (r, v)" "tx_ok v" "tx_state v = cn_state c"
    "pending v = drop k (pending (cn_tx c))" "wire v = wire (cn_tx c) @ take k (pending (cn_tx c))"
    using flush_ex [OF a(2-5)] by blast
  note f = flush_frame [OF v(1) a(3,4,6)]
  have "drain (Suc m) (ce_tx env) (cn_tx c) = drain m (ce_tx env) v" using a(3) v(1) by simp
  moreover have "stream v = stream (cn_tx c)" using v by (simp add: stream_def)
  ultimately show thesis
    using that [of v] f v a(1) step_flushes [OF assms v(1)] by simp
qed

lemma flushing_completes:
  assumes "flushing env c" "truncated_send_len (drain m (ce_tx env) (cn_tx c)) = 0"
  shows "\<exists>c'. pollouts step m c = Some (Inr c') \<and> cn_state c' = WSI_STATE_DEAD_SOCKET \<and>
    wire (cn_tx c') = stream (cn_tx c) \<and> cn_freed c' = cn_freed c @ kill_frees WSI_STATE_FLUSHING_STORED_SEND_BEFORE_CLOSE c \<and>
    cn_log c' = cn_log c @ [LWS_CALLBACK_CLOSED, LWS_CALLBACK_WSI_DESTROY]"
  using assms
proof (induction m arbitrary: c)
  case 0
  then show ?case by (simp add: flushing_def)
next
  case (Suc m)
  obtain v where v: "drain (Suc m) (ce_tx env) (cn_tx c) = drain m (ce_tx env) v" "stream v = stream (cn_tx c)"
    "truncated_send_malloc v = truncated_send_malloc (cn_tx c)" "tx_mode v = cn_mode c"
    "tx_state v = WSI_STATE_FLUSHING_STORED_SEND_BEFORE_CLOSE" "tx_ok v"
    "truncated_send_len v \<noteq> 0 \<longrightarrow> step c = Some (Inr (c\<lparr>cn_tx := v\<rparr>))"
    "truncated_send_len v = 0 \<longrightarrow> step c = libwebsocket_close_and_free_session env (c\<lparr>cn_tx := v\<rparr>) LWS_CLOSE_STATUS_NOSTATUS"
    by (rule flushing_step [OF Suc.prems(1), of m])
  let ?c = "c\<lparr>cn_tx := v\<rparr>" and ?s = "WSI_STATE_FLUSHING_STORED_SEND_BEFORE_CLOSE"
  have fr: "kill_frees ?s ?c = kill_frees ?s c" by (rule kill_frees_tx [OF v(3,4)])
  show ?case
  proof (cases "truncated_send_len v = 0")
    case True
    then have w: "wire v = stream (cn_tx c)" using v(2) by (simp add: stream_def pending_empty)
    have "step c = Some (just_kill_connection ?s ?c)"
      using v(5,8) True by (simp add: libwebsocket_close_and_free_session_def Let_def)
    moreover have "polled_conn (cn_poll ?c) (cn_id ?c)" "cn_mode ?c \<noteq> LWS_CONNMODE_HTTP2_SERVING" "cn_protocol ?c"
      using Suc.prems(1) v(4) by (simp_all add: flushing_def)
    ultimately show ?thesis
      using kill_spec [of ?c ?s] fr w by (auto simp: was_open_def)
  next
    case False
    then have "flushing env ?c" using Suc.prems(1) v by (simp add: flushing_def)
    then show ?thesis using Suc.IH [of ?c] Suc.prems(2) v(1,2,5,7) False fr by auto
  qed
qed

text \<open>The close that finds bytes in the store, and the writable events behind it.\<close>

lemma close_then_pollouts:
  assumes "polled_conn (cn_poll c) (cn_id c)" "cn_protocol c" "cn_mode c \<noteq> LWS_CONNMODE_HTTP2_SERVING"
    and "cn_state c = WSI_STATE_ESTABLISHED \<or> cn_state c = WSI_STATE_HTTP_ISSUING_FILE" "tx_ok (cn_tx c)" "truncated_send_len (cn_tx c) \<noteq> 0"
    and "\<not> socket_is_permanently_unusable (cn_tx c)" "tx_extensions (ce_tx env) = []" "send_ok (ce_tx env)" "progress k (ce_tx env)"
  shows "\<exists>c1 m c2. libwebsocket_close_and_free_session env c reason = Some (Inr c1) \<and> cn_freed c1 = cn_freed c \<and>
    m \<le> k * truncated_send_len (cn_tx c) \<and> pollouts step m c1 = Some (Inr c2) \<and>
    cn_state c2 = WSI_STATE_DEAD_SOCKET \<and> wire (cn_tx c2) = stream (cn_tx c) \<and>
    cn_freed c2 = cn_freed c @ kill_frees WSI_STATE_FLUSHING_STORED_SEND_BEFORE_CLOSE c \<and>
    cn_log c2 = cn_log c @ [LWS_CALLBACK_CLOSED, LWS_CALLBACK_WSI_DESTROY]"
proof -
  let ?s = "WSI_STATE_FLUSHING_STORED_SEND_BEFORE_CLOSE"
  let ?t = "(cn_tx c)\<lparr>tx_state := ?s\<rparr>" and ?c1 = "set_conn_state ?s c"
  have close: "libwebsocket_close_and_free_session env c reason = Some (Inr ?c1)"
    using assms(4,6,7) by (auto simp: libwebsocket_close_and_free_session_def Let_def)
  have t: "tx_ok ?t" "stream ?t = stream (cn_tx c)"
    using assms(5) by (auto simp: tx_ok_def stream_def pending_def truncated_buf_def split: option.splits)
  have fl: "flushing env ?c1"
    using assms t(1) by (auto simp: flushing_def set_conn_state_def progress_def)
  have fr: "kill_frees ?s ?c1 = kill_frees ?s c"
    unfolding set_conn_state_def by (rule kill_frees_tx) simp_all
  obtain m where m: "m \<le> k * truncated_send_len (cn_tx c)" "truncated_send_len (drain m (ce_tx env) ?t) = 0"
    using drain_all [OF t(1) assms(8-10)] by auto
  have "truncated_send_len (drain m (ce_tx env) (cn_tx ?c1)) = 0" using m(2) by (simp add: set_conn_state_def)
  from flushing_completes [OF fl this] show ?thesis
    using close m(1) fr t(2) by (auto simp: set_conn_state_def)
qed

end

interpretation ws_flush: store_flusher env "service_pollout env" for env
  by unfold_locales (simp add: flushing_def service_pollout_def lws_handle_POLLOUT_event_def)

interpretation http_flush: store_flusher env "http_pollout env" for env
  by unfold_locales (simp add: http_pollout_def)

text \<open>
  C11. Nothing that was accepted for sending is lost by a close: an open websocket connection that is
  closed with bytes in its store goes on flushing, and on a socket that makes progress it takes a
  bounded number of writable events until every byte is on the wire, in order, and only then is the
  connection destroyed, with all that it owns given back and the user told.
\<close>

theorem close_flushes_store_first:
  assumes "ws_conn c" "cn_state c = WSI_STATE_ESTABLISHED" "tx_ok (cn_tx c)" "truncated_send_len (cn_tx c) \<noteq> 0"
    and "\<not> socket_is_permanently_unusable (cn_tx c)" "tx_extensions (ce_tx env) = []" "send_ok (ce_tx env)" "progress k (ce_tx env)"
  shows "\<exists>c1 m c2 rs. libwebsocket_close_and_free_session env c reason = Some (Inr c1) \<and> cn_freed c1 = cn_freed c \<and>
    m \<le> k * truncated_send_len (cn_tx c) \<and> pollouts (service_pollout env) m c1 = Some (Inr c2) \<and>
    cn_state c2 = WSI_STATE_DEAD_SOCKET \<and> wire (cn_tx c2) = stream (cn_tx c) \<and>
    cn_freed c2 = cn_freed c @ rs \<and> distinct rs \<and> set rs = owned c \<and>
    cn_log c2 = cn_log c @ [LWS_CALLBACK_CLOSED, LWS_CALLBACK_WSI_DESTROY]"
proof -
  obtain rx u n where c: "is_ws (cn_mode c)" "cn_u c = U_ws rx u n" "cn_protocol c" "polled_conn (cn_poll c) (cn_id c)"
    using assms(1) by (auto simp: ws_conn_def)
  have "cn_mode c \<noteq> LWS_CONNMODE_HTTP2_SERVING" using c(1) by (auto simp: is_ws_def)
  from ws_flush.close_then_pollouts [OF c(4,3) this disjI1 [OF assms(2)] assms(3-8)] show ?thesis
    using distinct_ws_frees [OF c(2,1)] by blast
qed

section \<open>HTTP connections\<close>

text \<open>
  An HTTP connection that is closed while it sends a file and has bytes in its store leaks: the
  bytes are flushed, but then neither the file nor the memory of the store are given back, and the
  user is told that a websocket connection was closed instead of the HTTP one.
\<close>

theorem http_close_leaks_file_and_store:
  assumes "cn_mode c = LWS_CONNMODE_HTTP_SERVING_ACCEPTED" "cn_u c = U_http False (Some f)" "cn_state c = WSI_STATE_HTTP_ISSUING_FILE"
    and "polled_conn (cn_poll c) (cn_id c)" "cn_protocol c" "tx_ok (cn_tx c)" "truncated_send_len (cn_tx c) \<noteq> 0"
    and "\<not> socket_is_permanently_unusable (cn_tx c)" "tx_extensions (ce_tx env) = []" "send_ok (ce_tx env)" "progress k (ce_tx env)"
  shows "\<exists>c1 m c2 rs. libwebsocket_close_and_free_session env c reason = Some (Inr c1) \<and>
    pollouts (http_pollout env) m c1 = Some (Inr c2) \<and> cn_state c2 = WSI_STATE_DEAD_SOCKET \<and>
    wire (cn_tx c2) = stream (cn_tx c) \<and> cn_freed c2 = cn_freed c @ rs \<and>
    {Res_file f, Res_truncated} \<subseteq> owned c \<and> set rs = owned c - {Res_file f, Res_truncated} \<and>
    cn_log c2 = cn_log c @ [LWS_CALLBACK_CLOSED, LWS_CALLBACK_WSI_DESTROY]"
proof -
  have "truncated_send_malloc (cn_tx c) \<noteq> None" using assms(6,7) by (auto simp: tx_ok_def split: option.splits)
  then have own: "{Res_file f, Res_truncated} \<subseteq> owned c"
    and set: "set (kill_frees WSI_STATE_FLUSHING_STORED_SEND_BEFORE_CLOSE c) = owned c - {Res_file f, Res_truncated}"
    using assms(1,2)
    by (auto simp: owned_def kill_frees_def is_ws_def truncated_store_def rxflow_store_def common_resources_def Let_def split: if_splits)
  have "cn_mode c \<noteq> LWS_CONNMODE_HTTP2_SERVING" using assms(1) by simp
  from http_flush.close_then_pollouts [OF assms(4,5) this disjI2 [OF assms(3)] assms(6-11)] show ?thesis
    using own set by blast
qed

section \<open>The closing handshake\<close>

text \<open>A server's close frame with its status, on a socket that takes it.\<close>

lemma write_close_frame:
  assumes "tx_idle env w" "tx_state w = WSI_STATE_ESTABLISHED" "tx_spec_revision w = 13" "\<not> inside_frame w"
    "tx_mode w = LWS_CONNMODE_WS_SERVING" "close_reason w \<noteq> 0" "\<forall>t bs. send_sock env t bs = Sent (length bs)"
  shows "\<exists>v b. libwebsocket_write env w close_buf LWS_WRITE_CLOSE = Some (Inr (4, v, b)) \<and>
    wire v = wire w @ [0x88, 2, ucast (drop_bit 8 (close_reason w)), ucast (close_reason w)] \<and>
    tx_mode v = tx_mode w \<and> truncated_send_malloc v = truncated_send_malloc w \<and>
    socket_is_permanently_unusable v = socket_is_permanently_unusable w"
proof -
  define r :: "byte list" where "r = [ucast (drop_bit 8 (close_reason w)), ucast (close_reason w)]"
  define w1 where "w1 = w\<lparr>clean_buffer := True\<rparr>"
  let ?b = "\<lparr>tb_id = 4, tb_mem = replicate 16 0 @ [0x88, 2] @ r @ replicate 4 0, tb_off = 18, tb_len = 2\<rparr>"
  have mem: "replicate 24 0 = replicate 16 0 @ [0, 0] @ [0, 0] @ replicate 4 (0 :: byte)" by (simp add: numeral_eq_Suc)
  have ph: "put_header w1 close_buf LWS_WRITE_CLOSE = Some (Some (?b, None, 2))"
    unfolding close_buf_def mem using assms(5,6)
    by (simp add: put_header_def Let_def write_opcode_def add_close_reason_def poke_def frame_header_def w1_def r_def)
  have wr: "libwebsocket_write env w close_buf LWS_WRITE_CLOSE = send_raw env w1 ?b 2 0 LWS_WRITE_CLOSE"
    using assms(2-5) ph
    by (simp add: libwebsocket_write_def Let_def w1_def same_ptr_def do_more_inside_frame_def close_buf_def)
  let ?wb = "?b\<lparr>tb_off := 16, tb_len := 4\<rparr>"
  let ?v = "(tick (tick w1))\<lparr>wire := wire w @ [0x88, 2] @ r\<rparr>"
  have "lws_issue_raw env w1 ?wb = Inr (4, ?v)"
    using assms(1,2,7)
    by (simp add: lws_issue_raw_def Let_def tx_idle_def tx_ext_callback_none lws_ssl_capable_write_no_ssl_def
        handle_truncated_send_def r_def w1_def)
  then show ?thesis unfolding wr
    by (simp add: send_raw_def sends_directly_def Let_def r_def w1_def) (simp add: tick_def)
qed

text \<open>
  C12. The closing handshake of a server: closing an open connection with a status sends one close
  frame with that status and keeps the connection; when the peer has not answered a second later,
  the timeout check ends it, with all that it owns given back and the user told once.
\<close>

theorem close_handshake_times_out:
  assumes "ws_conn c" "cn_mode c = LWS_CONNMODE_WS_SERVING" "cn_state c = WSI_STATE_ESTABLISHED" "reason \<noteq> LWS_CLOSE_STATUS_NOSTATUS"
    and "tx_idle (ce_tx env) (cn_tx c)" "tx_spec_revision (cn_tx c) = 13" "\<not> inside_frame (cn_tx c)"
    and "\<not> socket_is_permanently_unusable (cn_tx c)" "ce_ok_to_close env \<le> 0" "\<forall>t bs. send_sock (ce_tx env) t bs = Sent (length bs)"
    and later: "ce_now env + 1 < sec" "0 \<le> ce_1hz env'"
  shows "\<exists>c1 c2 rs. libwebsocket_close_and_free_session env c reason = Some (Inr c1) \<and>
    cn_state c1 = WSI_STATE_AWAITING_CLOSE_ACK \<and> cn_freed c1 = cn_freed c \<and> cn_log c1 = cn_log c \<and>
    wire (cn_tx c1) = wire (cn_tx c) @ [0x88, 2, ucast (drop_bit 8 reason), ucast reason] \<and>
    libwebsocket_service_timeout_check env' c1 sec = Some (Inr (1, c2)) \<and> cn_state c2 = WSI_STATE_DEAD_SOCKET \<and>
    wire (cn_tx c2) = wire (cn_tx c1) \<and> cn_freed c2 = cn_freed c @ rs \<and> distinct rs \<and> set rs = owned c \<and>
    cn_log c2 = cn_log c @ [LWS_CALLBACK_CLOSED, LWS_CALLBACK_WSI_DESTROY]"
proof -
  let ?t = "tick ((cn_tx c)\<lparr>close_reason := reason\<rparr>)"
  have idle: "tx_idle (ce_tx env) ?t" "tx_extensions (ce_tx env) = []" "truncated_send_len (cn_tx c) = 0"
    using assms(5) by (auto simp: tx_idle_def tx_ok_def split: option.splits)
  obtain v b where v: "libwebsocket_write (ce_tx env) ?t close_buf LWS_WRITE_CLOSE = Some (Inr (4, v, b))"
    "wire v = wire ?t @ [0x88, 2, ucast (drop_bit 8 reason), ucast reason]" "tx_mode v = tx_mode ?t"
    "truncated_send_malloc v = truncated_send_malloc ?t"
    using write_close_frame [OF idle(1)] assms(2-4,6,7,10) by (auto simp: tick_def)
  define c1 where "c1 = libwebsocket_set_timeout env PENDING_TIMEOUT_CLOSE_ACK 1
     (set_conn_state WSI_STATE_AWAITING_CLOSE_ACK (c\<lparr>cn_tx := v\<rparr>))"
  have "libwebsocket_close_and_free_session env c reason = send_close_indication env (c\<lparr>cn_tx := ?t\<rparr>)"
    using assms(2,3,4,8,9) idle(2,3)
    by (simp add: libwebsocket_close_and_free_session_def Let_def close_politely_def close_http_file_def flush_no_extensions)
  also have "\<dots> = Some (Inr c1)" using v(1) by (simp add: send_close_indication_def c1_def)
  finally have close: "libwebsocket_close_and_free_session env c reason = Some (Inr c1)" .
  have c1: "cn_state c1 = WSI_STATE_AWAITING_CLOSE_ACK" "cn_freed c1 = cn_freed c" "cn_log c1 = cn_log c"
    "wire (cn_tx c1) = wire (cn_tx c) @ [0x88, 2, ucast (drop_bit 8 reason), ucast reason]"
    "cn_timeout c1 = PENDING_TIMEOUT_CLOSE_ACK" "cn_timeout_limit c1 = ce_now env + 1" "owned c1 = owned c" "ws_conn c1"
    using v assms(1)
    by (simp_all add: c1_def libwebsocket_set_timeout_def set_conn_state_def owned_def truncated_store_def rxflow_store_def
        common_resources_def ws_conn_def)
  have "ends_now env' c1 LWS_CLOSE_STATUS_NOSTATUS" using c1(1) by (simp add: ends_now_def)
  from ws_close [OF c1(8) this] obtain c2 rs where
    c2: "libwebsocket_close_and_free_session env' c1 LWS_CLOSE_STATUS_NOSTATUS = Some (Inr c2)" "cn_state c2 = WSI_STATE_DEAD_SOCKET"
      "cn_freed c2 = cn_freed c @ rs" "distinct rs" "set rs = owned c" "wire (cn_tx c2) = wire (cn_tx c1)"
      "cn_log c2 = cn_log c @ [LWS_CALLBACK_CLOSED, LWS_CALLBACK_WSI_DESTROY]"
    using c1(2,3,7) by auto
  then have "libwebsocket_service_timeout_check env' c1 sec = Some (Inr (1, c2))"
    using c1(5,6) later by (simp add: libwebsocket_service_timeout_check_def)
  then show ?thesis using close c1(1-4) c2(2-7) by blast
qed

section \<open>Sample connections\<close>

definition sample_poll :: poll_ctx where
  "sample_poll = (empty_poll 8 plain_wsi)
     \<lparr>fds := (replicate 8 \<lparr>fd = 0, events = 0, revents = 0\<rparr>)[0 := \<lparr>fd = 5, events = LWS_POLLIN, revents = 0\<rparr>], fds_count := 1,
      lws_lookup := (replicate 8 None)[5 := Some 5], pwsi := plain_wsi(5 := (plain_wsi 5)\<lparr>position_in_fds_table := 0\<rparr>)\<rparr>"

lemma sample_polled: "polled_conn sample_poll 5"
  by (simp add: polled_conn_def sample_poll_def empty_poll_def poll_ok_def slot_ok_def polled_def plain_wsi_def)

definition sample_conn :: "tx_wsi \<Rightarrow> conn_union \<Rightarrow> conn" where
  "sample_conn t u = \<lparr>cn_tx = t, cn_poll = sample_poll, cn_id = 5, cn_u = u, cn_protocol = True, cn_extensions = 1,
     cn_user_space = True, cn_timeout = NO_PENDING_TIMEOUT, cn_timeout_limit = 0, cn_log = [], cn_freed = []\<rparr>"

definition sample_close :: "tx_env \<Rightarrow> close_env" where
  "sample_close e = \<lparr>ce_tx = e, ce_now = 100, ce_ok_to_close = 0, ce_request_writeable = 0, ce_1hz = 0, ce_tid = 0,
     ce_writeable = (\<lambda>_. 0)\<rparr>"

definition stored_tx :: "connection_mode \<Rightarrow> tx_wsi" where
  "stored_tx m = (new_tx m)\<lparr>truncated_send_malloc := Some [7, 8], truncated_send_allocation := 2, truncated_send_len := 2\<rparr>"

lemma stored_tx_ok: "tx_ok (stored_tx m)" "truncated_send_len (stored_tx m) = 2" "stream (stored_tx m) = [7, 8]"
  by (simp_all add: stored_tx_def new_tx_def tx_ok_def stream_def pending_def truncated_buf_def tb_bytes_def)

lemma slow_progress: "progress 1 slow_env" "tx_extensions slow_env = []" "send_ok slow_env"
  by (auto simp: progress_def slow_env_def all_env_def send_ok_def Suc_le_eq split: if_splits)


lemma sample_ws_conn: "is_ws (tx_mode t) \<Longrightarrow> ws_conn (sample_conn t (U_ws rx m n))"
  by (simp add: ws_conn_def sample_conn_def sample_polled)

lemma sample_conn_simps [simp]:
  "cn_tx (sample_conn t u) = t" "cn_u (sample_conn t u) = u" "cn_poll (sample_conn t u) = sample_poll" "cn_id (sample_conn t u) = 5"
  "cn_protocol (sample_conn t u)" "cn_log (sample_conn t u) = []" "cn_freed (sample_conn t u) = []"
  by (simp_all add: sample_conn_def)

lemma sample_owned:
  "owned (sample_conn t u) = set (union_head u) \<union> set (union_ping u) \<union> set (union_file u) \<union>
     (if truncated_send_malloc t = None then {} else {Res_truncated}) \<union> {Res_extension 0, Res_socket 5, Res_user_space, Res_wsi}"
  by (auto simp: owned_def truncated_store_def rxflow_store_def common_resources_def sample_conn_def sample_poll_def plain_wsi_def)

theorem ws_close_releases_all_witness:
  "\<exists>c' rs. libwebsocket_close_and_free_session (sample_close all_env)
       (sample_conn (new_tx LWS_CONNMODE_WS_CLIENT) (U_ws True (Some [1]) 0)) 0 = Some (Inr c') \<and>
     cn_freed c' = rs \<and> distinct rs \<and>
     set rs = {Res_rx_buffer, Res_ping, Res_extension 0, Res_socket 5, Res_user_space, Res_wsi} \<and>
     cn_log c' = [LWS_CALLBACK_CLOSED, LWS_CALLBACK_WSI_DESTROY]"
proof -
  let ?c = "sample_conn (new_tx LWS_CONNMODE_WS_CLIENT) (U_ws True (Some [1]) 0)"
  have "ws_conn ?c" by (rule sample_ws_conn) (simp add: is_ws_def new_tx_def)
  moreover have "ends_now (sample_close all_env) ?c 0" by (simp add: ends_now_def sample_close_def all_env_def new_tx_def)
  moreover have "owned ?c = {Res_rx_buffer, Res_ping, Res_extension 0, Res_socket 5, Res_user_space, Res_wsi}"
    by (auto simp: sample_owned new_tx_def)
  ultimately show ?thesis using ws_close_releases_all [of ?c "sample_close all_env" 0] by auto
qed

theorem close_flushes_store_first_witness:
  "\<exists>c1 m c2. libwebsocket_close_and_free_session (sample_close slow_env)
       (sample_conn (stored_tx LWS_CONNMODE_WS_SERVING) (U_ws True None 0)) 1000 = Some (Inr c1) \<and> m \<le> 2 \<and>
     pollouts (service_pollout (sample_close slow_env)) m c1 = Some (Inr c2) \<and> cn_state c2 = WSI_STATE_DEAD_SOCKET \<and>
     wire (cn_tx c2) = [7, 8]"
proof -
  let ?c = "sample_conn (stored_tx LWS_CONNMODE_WS_SERVING) (U_ws True None 0)"
  have "ws_conn ?c" by (rule sample_ws_conn) (simp add: is_ws_def stored_tx_def new_tx_def)
  moreover have "cn_state ?c = WSI_STATE_ESTABLISHED" "\<not> socket_is_permanently_unusable (cn_tx ?c)" "ce_tx (sample_close slow_env) = slow_env"
    by (simp_all add: stored_tx_def new_tx_def sample_close_def)
  ultimately show ?thesis
    using close_flushes_store_first [of ?c "sample_close slow_env" 1 1000] stored_tx_ok [of LWS_CONNMODE_WS_SERVING] slow_progress
    by auto
qed

theorem http_close_leaks_file_and_store_witness:
  "\<exists>c1 m c2. libwebsocket_close_and_free_session (sample_close slow_env)
       (sample_conn ((stored_tx LWS_CONNMODE_HTTP_SERVING_ACCEPTED)\<lparr>tx_state := WSI_STATE_HTTP_ISSUING_FILE\<rparr>) (U_http False (Some 9))) 0 =
       Some (Inr c1) \<and>
     pollouts (http_pollout (sample_close slow_env)) m c1 = Some (Inr c2) \<and> Res_wsi \<in> set (cn_freed c2) \<and>
     Res_file 9 \<notin> set (cn_freed c2) \<and> Res_truncated \<notin> set (cn_freed c2)"
proof -
  let ?t = "(stored_tx LWS_CONNMODE_HTTP_SERVING_ACCEPTED)\<lparr>tx_state := WSI_STATE_HTTP_ISSUING_FILE\<rparr>"
  let ?c = "sample_conn ?t (U_http False (Some 9))"
  have t: "tx_ok ?t" "tx_mode ?t = LWS_CONNMODE_HTTP_SERVING_ACCEPTED" "truncated_send_len ?t \<noteq> 0" "\<not> socket_is_permanently_unusable ?t"
    by (simp_all add: stored_tx_def new_tx_def tx_ok_def)
  moreover have "ce_tx (sample_close slow_env) = slow_env" by (simp add: sample_close_def)
  moreover have "Res_wsi \<in> owned ?c" by (simp add: sample_owned)
  ultimately show ?thesis
    using http_close_leaks_file_and_store [of ?c 9 "sample_close slow_env" 1 0] slow_progress sample_polled by auto
qed

theorem close_handshake_times_out_witness:
  "\<exists>c1 c2. libwebsocket_close_and_free_session (sample_close all_env)
       (sample_conn (new_tx LWS_CONNMODE_WS_SERVING) (U_ws True None 0)) 1000 = Some (Inr c1) \<and>
     wire (cn_tx c1) = [0x88, 2, 3, 0xe8] \<and>
     libwebsocket_service_timeout_check (sample_close all_env) c1 102 = Some (Inr (1, c2)) \<and> cn_state c2 = WSI_STATE_DEAD_SOCKET"
proof -
  let ?c = "sample_conn (new_tx LWS_CONNMODE_WS_SERVING) (U_ws True None 0)" and ?e = "sample_close all_env"
  have "ws_conn ?c" by (rule sample_ws_conn) (simp add: is_ws_def new_tx_def)
  moreover have "ce_tx ?e = all_env" "ce_ok_to_close ?e \<le> 0" "ce_now ?e + 1 < 102" "0 \<le> ce_1hz ?e" by (simp_all add: sample_close_def)
  moreover have "\<forall>t bs. send_sock all_env t bs = Sent (length bs)" by (simp add: all_env_def)
  ultimately show ?thesis
    using close_handshake_times_out [of ?c 1000 ?e 102 ?e] tx_instances(1) [of LWS_CONNMODE_WS_SERVING]
    by (auto simp: new_tx_def)
qed

end
