(* ===== verification/Service.thy ===== *)
theory Service
  imports Closing
begin

text \<open>
  The context with its connections: accepting a connection (\<open>lws_server_socket_service\<close> and
  \<open>libwebsocket_create_new_server_wsi\<close> of \<^verbatim>\<open>lib/server.c\<close>) and the check of all timeouts that
  \<open>libwebsocket_service_fd\<close> of \<^verbatim>\<open>lib/service.c\<close> makes once a second.
\<close>

unbundle bit_operations_syntax

section \<open>State\<close>

abbreviation (input) AWAITING_TIMEOUT :: int where "AWAITING_TIMEOUT \<equiv> 5"

datatype accept_event =
    LWS_CALLBACK_FILTER_NETWORK_CONNECTION int
  | LWS_CALLBACK_WSI_CREATE
  | LWS_CALLBACK_SERVER_NEW_CLIENT_INSTANTIATED

text \<open>
  Connections are named by numbers, the addresses of the code. The poll table is shared: a
  connection is taken out of the context together with the table and put back.
\<close>

record service_ctx =
  sx_poll :: poll_ctx
  sx_conns :: "nat \<Rightarrow> conn"
  sx_last_check :: int
  sx_closed :: "int list"
  sx_log :: "accept_event list"

definition conn_at :: "service_ctx \<Rightarrow> nat \<Rightarrow> conn" where
  "conn_at s p = (sx_conns s p)\<lparr>cn_poll := sx_poll s, cn_id := p\<rparr>"

definition put_conn :: "nat \<Rightarrow> conn \<Rightarrow> service_ctx \<Rightarrow> service_ctx" where
  "put_conn p c s = s\<lparr>sx_poll := cn_poll c,
     sx_conns := (sx_conns s)(p := c\<lparr>cn_poll := cn_poll (sx_conns s p), cn_id := cn_id (sx_conns s p)\<rparr>)\<rparr>"

section \<open>Accepting\<close>

text \<open>
  What accepting calls: \<open>accept\<close>, the filter of the user, given the calls so far, \<open>malloc\<close> for the
  connection and for its header table, and the time.
\<close>

record accept_env =
  ae_accept :: int
  ae_filter :: "accept_event list \<Rightarrow> int"
  ae_malloc_wsi :: bool
  ae_malloc_table :: bool
  ae_now :: int

definition new_server_conn :: conn where
  "new_server_conn =
     \<lparr>cn_tx = \<lparr>tx_mode = LWS_CONNMODE_HTTP_SERVING, tx_state = WSI_STATE_HTTP, tx_spec_revision = 0,
        tx_nonce = [0, 0, 0, 0], tx_mask_index = 0, close_reason = 0, inside_frame = False, clean_buffer = False,
        extension_data_pending = False, socket_is_permanently_unusable = False, truncated_send_malloc = None,
        truncated_send_allocation = 0, truncated_send_offset = 0, truncated_send_len = 0, wire = [],
        writable_asked = 0, tx_clock = 0\<rparr>,
      cn_poll = \<lparr>fds = [], fds_count = 0, max_fds = 0, lws_lookup = [], pwsi = (\<lambda>_. \<lparr>sock = 0, position_in_fds_table = 0,
          pw_protocol = 0, rxflow_change_to = 0, rxflow_buffer = None, rxflow_len = 0, rxflow_pos = 0\<rparr>),
        service_tid = 0, poll_log = [], cancels = 0\<rparr>,
      cn_id = 0, cn_u = U_hdr True, cn_protocol = True, cn_extensions = 0, cn_user_space = False,
      cn_timeout = NO_PENDING_TIMEOUT, cn_timeout_limit = 0, cn_log = [], cn_freed = []\<rparr>"

definition new_poll_wsi :: "int \<Rightarrow> poll_wsi" where
  "new_poll_wsi s = \<lparr>sock = s, position_in_fds_table = 0, pw_protocol = 0, rxflow_change_to = LWS_RXFLOW_ALLOW,
     rxflow_buffer = None, rxflow_len = 0, rxflow_pos = 0\<rparr>"

definition libwebsocket_create_new_server_wsi :: "accept_env \<Rightarrow> service_ctx \<Rightarrow> (conn \<times> service_ctx) option" where
  "libwebsocket_create_new_server_wsi env s =
     (if \<not> ae_malloc_wsi env then None
      else if \<not> ae_malloc_table env then None
      else Some (new_server_conn, s\<lparr>sx_log := sx_log s @ [LWS_CALLBACK_WSI_CREATE]\<rparr>))"

text \<open>The case \<open>LWS_CONNMODE_SERVER_LISTENER\<close>; the new connection is the one at \<open>p\<close>.\<close>

definition accept_connection :: "accept_env \<Rightarrow> u16 \<Rightarrow> nat \<Rightarrow> service_ctx \<Rightarrow> poll_stop + service_ctx" where
  "accept_connection env rev_events p s =
     (let f = ae_accept env; log = sx_log s @ [LWS_CALLBACK_FILTER_NETWORK_CONNECTION f]
      in if rev_events AND LWS_POLLIN = 0 then Inr s
         else if f < 0 then Inr s
         else if ae_filter env log \<noteq> 0 then Inr (s\<lparr>sx_log := log, sx_closed := sx_closed s @ [f]\<rparr>)
         else
           case libwebsocket_create_new_server_wsi env (s\<lparr>sx_log := log\<rparr>) of
             None \<Rightarrow> Inr (s\<lparr>sx_log := log, sx_closed := sx_closed s @ [f]\<rparr>)
           | Some (c, s1) \<Rightarrow>
               let c1 = c\<lparr>cn_timeout_limit := ae_now env + AWAITING_TIMEOUT, cn_timeout := PENDING_TIMEOUT_ESTABLISH_WITH_SERVER\<rparr>;
                   s2 = s1\<lparr>sx_conns := (sx_conns s1)(p := c1), sx_poll := upd_wsi p (\<lambda>_. new_poll_wsi f) (sx_poll s1),
                           sx_log := sx_log s1 @ [LWS_CALLBACK_SERVER_NEW_CLIENT_INSTANTIATED]\<rparr>
               in map_sum id (\<lambda>(_, q). s2\<lparr>sx_poll := q\<rparr>) (insert_wsi_socket_into_fds (sx_poll s2) p))"

section \<open>Timeouts\<close>

text \<open>The loop over the table; \<open>our\<close> is the socket the call was made for.\<close>

partial_function (option) timeout_sweep ::
    "close_env \<Rightarrow> nat \<Rightarrow> bool \<Rightarrow> nat \<Rightarrow> service_ctx \<Rightarrow> (close_stop + bool \<times> service_ctx) option" where
  "timeout_sweep env our timed_out n s =
     (let c = sx_poll s; m = fd (fds c ! n)
      in if fds_count c \<le> n then Some (Inr (timed_out, s))
         else if length (fds c) \<le> n \<or> length (lws_lookup c) \<le> m then Some (Inl (Close_poll Poll_overrun))
         else
           case lws_lookup c ! m of
             None \<Rightarrow> timeout_sweep env our timed_out (Suc n) s
           | Some p \<Rightarrow>
               (case libwebsocket_service_timeout_check env (conn_at s p) (ce_now env) of
                  None \<Rightarrow> None
                | Some (Inl e) \<Rightarrow> Some (Inl e)
                | Some (Inr (r, c1)) \<Rightarrow>
                    timeout_sweep env our (timed_out \<or> r \<noteq> 0 \<and> m = our) (Suc n) (put_conn p c1 s)))"

definition service_timeouts :: "close_env \<Rightarrow> nat \<Rightarrow> service_ctx \<Rightarrow> (close_stop + bool \<times> service_ctx) option" where
  "service_timeouts env our s =
     (if sx_last_check s \<noteq> ce_now env then timeout_sweep env our False 0 (s\<lparr>sx_last_check := ce_now env\<rparr>)
      else Some (Inr (False, s)))"

section \<open>The slots of the table\<close>

definition slots :: "poll_ctx \<Rightarrow> nat list" where
  "slots c = map (\<lambda>e. the (lws_lookup c ! fd e)) (live c)"

lemma length_slots: "poll_ok c \<Longrightarrow> length (slots c) = fds_count c"
  by (simp add: slots_def length_live)

lemma slots_nth:
  assumes "poll_ok c" "n < fds_count c"
  shows "lws_lookup c ! fd (fds c ! n) = Some (slots c ! n)"
proof -
  obtain p where p: "lws_lookup c ! fd (fds c ! n) = Some p" by (rule slot_conn [OF assms])
  have "slots c ! n = the (lws_lookup c ! fd (live c ! n))"
    using assms by (simp only: slots_def nth_map length_live)
  then show ?thesis using p live_nth [OF assms(2,1)] by simp
qed

lemma slots_position: "poll_ok c \<Longrightarrow> n < fds_count c \<Longrightarrow> position_in_fds_table (pwsi c (slots c ! n)) = int n"
  using slot_conn [of c n] slots_nth [of c n] by (metis option.inject)

lemma distinct_slots: "poll_ok c \<Longrightarrow> distinct (slots c)"
  unfolding distinct_conv_nth using slots_position [of c] by (metis length_slots of_nat_eq_iff)

lemma slots_polled: "poll_ok c \<Longrightarrow> polled c p \<longleftrightarrow> p \<in> set (slots c)"
  using slots_nth [of c] by (auto simp: polled_def in_set_conv_nth length_slots)

text \<open>A removal moves the last slot to the place that becomes free.\<close>

definition take_out :: "nat \<Rightarrow> 'a list \<Rightarrow> 'a list" where
  "take_out n xs = (butlast xs)[n := last xs]"

lemma remove_slots:
  assumes ok: "poll_ok c" and m: "m < fds_count c"
  obtains c' where "remove_wsi_socket_from_fds c (slots c ! m) = Inr (0, c')" "poll_ok c'" "slots c' = take_out m (slots c)"
proof -
  let ?p = "slots c ! m"
  define n where "n = fds_count c - 1"
  have n: "fds_count c = Suc n" "m \<le> n" using m by (simp_all add: n_def)
  have len: "length (fds c) = max_fds c" "length (lws_lookup c) = max_fds c" "n < max_fds c"
    using ok n by (simp_all add: poll_ok_def)
  obtain s where s: "s = fd (fds c ! m)" "sock (pwsi c ?p) = int s" "lws_lookup c ! s = Some ?p" "s < max_fds c"
    "position_in_fds_table (pwsi c ?p) = int m"
    using slot_conn [OF ok m] slots_nth [OF ok m] by (metis option.inject)
  have pol: "polled c ?p" using s(1,3) m by (auto simp: polled_def)
  obtain c' where c': "remove_wsi_socket_from_fds c ?p = Inr (0, c')" "poll_ok c'"
    using remove_spec [OF ok pol s(2)] by blast
  have q: "lws_lookup c ! fd (fds c ! n) = Some (slots c ! n)" "fd (fds c ! n) < max_fds c"
    using slots_nth [OF ok, of n] slot_conn [OF ok, of n] n(1) by auto
  have "slots c' = take_out m (slots c)"
  proof (cases "n = 0")
    case True
    then have "fds_count c' = 0" "length (slots c) = 1"
      using c'(1) n s(2) length_slots [OF ok] by (auto simp: remove_wsi_socket_from_fds_def Let_def do_ext_def)
    then show ?thesis using length_slots [OF c'(2)] by (auto simp: take_out_def length_Suc_conv)
  next
    case False
    have lay: "fds_count c' = n" "fds c' = (fds c)[m := fds c ! n]" "lws_lookup c' = (lws_lookup c)[s := None]"
      using c'(1) False n s len q
      by (auto simp: remove_wsi_socket_from_fds_def Let_def do_ext_def nth_list_update split: if_splits)
    have other: "fd (fds c ! k) \<noteq> s" if "k < fds_count c" "k \<noteq> m" for k
      using slot_inj [OF ok that(1) m] that(2) s(1) by auto
    have "slots c' ! k = take_out m (slots c) ! k" if k: "k < n" for k
    proof -
      have "last (slots c) = slots c ! n" using length_slots [OF ok] n by (simp add: last_conv_nth flip: length_0_conv)
      moreover have "lws_lookup c ! fd (fds c ! k) = Some (slots c ! k)" using slots_nth [OF ok] k n by simp
      moreover have "lws_lookup c' ! fd (fds c' ! k) = Some (slots c' ! k)" using slots_nth [OF c'(2)] lay(1) k by simp
      moreover have "fds c' ! k = (if k = m then fds c ! n else fds c ! k)" using lay(2) len n k by simp
      moreover have "fd (fds c' ! k) \<noteq> s" using other [of n] other [of k] calculation(4) k n by auto
      ultimately have "slots c' ! k = (if k = m then slots c ! n else slots c ! k)" "last (slots c) = slots c ! n"
        using lay(3) q(1) by auto
      then show ?thesis using length_slots [OF ok] n k by (simp add: take_out_def nth_list_update nth_butlast)
    qed
    then show ?thesis using length_slots [OF c'(2)] length_slots [OF ok] lay(1) n by (intro nth_equalityI) (auto simp: take_out_def)
  qed
  then show thesis using c' that by blast
qed

section \<open>The check of all timeouts\<close>

text \<open>A connection whose time is over, and one that a close ends at once.\<close>

definition due :: "close_env \<Rightarrow> conn \<Rightarrow> bool" where
  "due env c \<longleftrightarrow> cn_timeout c \<noteq> NO_PENDING_TIMEOUT \<and> cn_timeout_limit c < ce_now env"

definition ends_at_once :: "close_env \<Rightarrow> conn \<Rightarrow> bool" where
  "ends_at_once env c \<longleftrightarrow> cn_state c \<noteq> WSI_STATE_DEAD_SOCKET \<and> cn_mode c \<noteq> LWS_CONNMODE_HTTP2_SERVING \<and>
     truncated_send_len (cn_tx c) = 0 \<and> ce_ok_to_close env \<le> 0 \<and> tx_extensions (ce_tx env) = [] \<and>
     (cn_mode c = LWS_CONNMODE_HTTP_SERVING_ACCEPTED \<longrightarrow> (\<exists>ah f. cn_u c = U_http ah f))"

lemma close_http_file_frame:
  assumes "cn_mode c = LWS_CONNMODE_HTTP_SERVING_ACCEPTED \<longrightarrow> (\<exists>ah f. cn_u c = U_http ah f)"
  obtains d where "close_http_file c = Inr d" "cn_tx d = cn_tx c" "cn_poll d = cn_poll c" "cn_id d = cn_id c"
proof (cases "cn_mode c = LWS_CONNMODE_HTTP_SERVING_ACCEPTED")
  case True
  then obtain ah f where "cn_u c = U_http ah f" using assms by blast
  then show thesis using True that by (cases f) (simp_all add: close_http_file_def)
qed (use that in \<open>simp add: close_http_file_def\<close>)

lemma at_once_kills:
  assumes "ends_at_once env c"
  obtains d where "libwebsocket_close_and_free_session env c LWS_CLOSE_STATUS_NOSTATUS = Some (just_kill_connection (cn_state c) d)"
    "cn_poll d = cn_poll c" "cn_id d = cn_id c" "cn_mode d = cn_mode c"
proof -
  let ?c1 = "c\<lparr>cn_tx := (cn_tx c)\<lparr>close_reason := LWS_CLOSE_STATUS_NOSTATUS\<rparr>\<rparr>"
  note a = assms [unfolded ends_at_once_def]
  obtain d where d: "close_http_file ?c1 = Inr d" "cn_tx d = cn_tx ?c1" "cn_poll d = cn_poll c" "cn_id d = cn_id c"
    using close_http_file_frame [of ?c1] a by auto
  have polite: "close_politely env ?c1 LWS_CLOSE_STATUS_NOSTATUS = Some (just_kill_connection (cn_state c) (d\<lparr>cn_tx := tick (cn_tx ?c1)\<rparr>))"
    using a d by (simp add: close_politely_def flush_no_extensions)
  let ?f = "free_head (tell LWS_CALLBACK_CLIENT_CONNECTION_ERROR ?c1)"
  let ?r = "libwebsocket_close_and_free_session env c LWS_CLOSE_STATUS_NOSTATUS"
  have "?r = Some (just_kill_connection (cn_state c) c) \<or> ?r = Some (just_kill_connection (cn_state c) ?f) \<or>
      ?r = close_politely env ?c1 LWS_CLOSE_STATUS_NOSTATUS"
    using a by (auto simp: libwebsocket_close_and_free_session_def Let_def)
  then consider "?r = Some (just_kill_connection (cn_state c) c)" | "?r = Some (just_kill_connection (cn_state c) ?f)"
    | "?r = close_politely env ?c1 LWS_CLOSE_STATUS_NOSTATUS" by blast
  then show thesis
  proof cases
    case 1
    then show thesis by (rule that) simp_all
  next
    case 2
    then show thesis by (rule that) (simp_all add: free_head_def)
  next
    case 3
    then show thesis using polite d by (intro that [of "d\<lparr>cn_tx := tick (cn_tx ?c1)\<rparr>"]) simp_all
  qed
qed

lemma tell_closed_poll: "cn_poll (tell_closed s c) = cn_poll c"
  by (simp add: tell_closed_def)

lemma kill_poll:
  assumes "just_kill_connection s c = Inr c'" "remove_wsi_socket_from_fds (cn_poll c) (cn_id c) = Inr (r, p)" "poll_ok p"
  shows "poll_ok (cn_poll c') \<and> slots (cn_poll c') = slots p"
proof -
  define c1 where "c1 = free_rxflow (set_conn_state WSI_STATE_DEAD_SOCKET (c\<lparr>cn_poll := p\<rparr>))"
  have "cn_poll c' = cn_poll c1"
    using assms(1,2)
    by (auto simp: just_kill_connection_def Let_def c1_def [symmetric] destroy_wsi_spec(3) tell_closed_poll
        free_ws_buffers_spec(4) free_head_def split: if_splits)
  moreover have "fds (cn_poll c1) = fds p" "fds_count (cn_poll c1) = fds_count p" "lws_lookup (cn_poll c1) = lws_lookup p"
    "max_fds (cn_poll c1) = max_fds p" "sock (pwsi (cn_poll c1) q) = sock (pwsi p q)"
    "position_in_fds_table (pwsi (cn_poll c1) q) = position_in_fds_table (pwsi p q)" for q
    by (simp_all add: c1_def free_rxflow_def set_conn_state_def)
  ultimately show ?thesis
    using assms(3) by (auto simp: poll_ok_def slot_ok_def slots_def live_def Let_def split: option.splits)
qed

text \<open>What a check does to the connection in slot \<open>n\<close>.\<close>

lemma check_due:
  assumes "poll_ok (sx_poll s)" "n < fds_count (sx_poll s)" "p = slots (sx_poll s) ! n"
    and "due env (sx_conns s p)" "ends_at_once env (sx_conns s p)" "0 \<le> ce_1hz env"
  obtains c where "libwebsocket_service_timeout_check env (conn_at s p) (ce_now env) = Some (Inr (1, c))"
    "poll_ok (cn_poll c)" "slots (cn_poll c) = take_out n (slots (sx_poll s))" "cn_state c = WSI_STATE_DEAD_SOCKET" "Res_wsi \<in> set (cn_freed c)"
proof -
  let ?c = "conn_at s p"
  have "ends_at_once env ?c" using assms(5) by (simp add: ends_at_once_def conn_at_def)
  then obtain d where d: "libwebsocket_close_and_free_session env ?c LWS_CLOSE_STATUS_NOSTATUS = Some (just_kill_connection (cn_state ?c) d)"
    "cn_poll d = sx_poll s" "cn_id d = p" "cn_mode d = cn_mode ?c"
    by (rule at_once_kills) (auto simp: conn_at_def)
  have "polled (sx_poll s) p" using slots_polled [OF assms(1)] length_slots [OF assms(1)] assms(2,3) by auto
  then have "polled_conn (cn_poll d) (cn_id d)" "cn_mode d \<noteq> LWS_CONNMODE_HTTP2_SERVING"
    using d assms(1,5) by (simp_all add: polled_conn_def ends_at_once_def conn_at_def)
  then obtain c where c: "just_kill_connection (cn_state ?c) d = Inr c" "cn_freed c = cn_freed d @ kill_frees (cn_state ?c) d"
    "cn_state c = WSI_STATE_DEAD_SOCKET"
    using kill_spec [of d "cn_state ?c"] by blast
  obtain q where q: "remove_wsi_socket_from_fds (sx_poll s) p = Inr (0, q)" "poll_ok q" "slots q = take_out n (slots (sx_poll s))"
    unfolding assms(3) by (rule remove_slots [OF assms(1,2)])
  have "poll_ok (cn_poll c) \<and> slots (cn_poll c) = slots q"
    using kill_poll [OF c(1)] q d(2,3) by simp
  moreover have "libwebsocket_service_timeout_check env ?c (ce_now env) = Some (Inr (1, c))"
    using assms(4,6) d(1) c(1) by (simp add: libwebsocket_service_timeout_check_def due_def conn_at_def)
  moreover have "Res_wsi \<in> set (cn_freed c)" using c(2) by (simp add: kill_frees_def common_resources_def)
  ultimately show thesis using that q(3) c(3) by simp
qed

lemma check_not_due:
  "\<not> due env (sx_conns s p) \<Longrightarrow>
     libwebsocket_service_timeout_check env (conn_at s p) (ce_now env) = Some (Inr (0, conn_at s p))"
  by (auto simp: libwebsocket_service_timeout_check_def due_def conn_at_def)

lemma put_conn_at: "put_conn p (conn_at s p) s = s"
  by (simp add: put_conn_def conn_at_def)

text \<open>The effect on the slots: the last one takes the place of one that goes, and is passed over.\<close>

fun swept :: "('a \<Rightarrow> bool) \<Rightarrow> 'a list \<Rightarrow> 'a list" where
  "swept dead [] = []"
| "swept dead (x # xs) =
     (if \<not> dead x then x # swept dead xs else if xs = [] then [] else last xs # swept dead (butlast xs))"

lemma set_swept: "set (swept dead xs) \<subseteq> set xs"
  by (induction dead xs rule: swept.induct) (auto dest: in_set_butlastD)

lemma take_out_next:
  assumes "n < length xs"
  shows "take (Suc n) (take_out n xs) @ swept dead (drop (Suc n) (take_out n xs)) =
    take n xs @ (if drop (Suc n) xs = [] then [] else last (drop (Suc n) xs) # swept dead (butlast (drop (Suc n) xs)))"
proof (cases "Suc n = length xs")
  case True
  then have "take_out n xs = take n xs" by (simp add: take_out_def butlast_conv_take list_update_beyond flip: True)
  then show ?thesis using True by simp
next
  case False
  then have n: "Suc n < length xs" "n < length (butlast xs)" using assms by simp_all
  then have "take (Suc n) (take_out n xs) = take n xs @ [last xs]"
    by (simp add: take_out_def take_Suc_conv_app_nth take_butlast)
  moreover have "drop (Suc n) (take_out n xs) = butlast (drop (Suc n) xs)"
    using n by (simp add: take_out_def drop_butlast)
  ultimately show ?thesis using n by (simp add: last_drop)
qed

lemma swept_cong: "\<forall>x\<in>set xs. d x = e x \<Longrightarrow> swept d xs = swept e xs"
  by (induction d xs rule: swept.induct) (auto dest: in_set_butlastD)

lemma swept_none: "swept (\<lambda>_. False) xs = xs"
  by (induction xs) simp_all

lemma take_out_sets:
  assumes "n < length xs" "distinct xs"
  shows "set (take_out n xs) = set xs - {xs ! n}" "set (drop (Suc n) (take_out n xs)) \<subseteq> set (drop (Suc n) xs)"
proof -
  let ?d = "drop (Suc n) xs"
  have "set (if ?d = [] then [] else last ?d # butlast ?d) = set ?d"
    by (cases ?d rule: rev_cases) auto
  moreover have "take_out n xs = take n xs @ (if ?d = [] then [] else last ?d # butlast ?d)"
    using take_out_next [OF assms(1), of "\<lambda>_. False"] unfolding swept_none append_take_drop_id .
  ultimately have out: "set (take_out n xs) = set (take n xs) \<union> set ?d" by (simp only: set_append)
  have xs: "xs = take n xs @ xs ! n # ?d" by (rule id_take_nth_drop [OF assms(1)])
  then have "distinct (take n xs @ xs ! n # ?d)" using assms(2) by metis
  then have "xs ! n \<notin> set (take n xs) \<union> set ?d" unfolding distinct_append distinct.simps by auto
  moreover have "set xs = insert (xs ! n) (set (take n xs) \<union> set ?d)"
    using arg_cong [OF xs, of set] unfolding set_append list.set by blast
  ultimately show "set (take_out n xs) = set xs - {xs ! n}" using out by auto
  have "drop (Suc n) (take_out n xs) = drop (Suc n) (butlast xs)" by (simp add: take_out_def)
  then show "set (drop (Suc n) (take_out n xs)) \<subseteq> set ?d" by (auto simp: drop_butlast dest: in_set_butlastD)
qed

lemma sweep_slots:
  assumes "poll_ok (sx_poll s)" "0 \<le> ce_1hz env"
    "\<forall>p\<in>set (drop n (slots (sx_poll s))). due env (sx_conns s p) \<longrightarrow> ends_at_once env (sx_conns s p)"
  shows "\<exists>b s'. timeout_sweep env our t n s = Some (Inr (b, s')) \<and> poll_ok (sx_poll s') \<and>
    slots (sx_poll s') = take n (slots (sx_poll s)) @ swept (\<lambda>p. due env (sx_conns s p)) (drop n (slots (sx_poll s))) \<and>
    (\<forall>p. p \<in> set (slots (sx_poll s)) - set (slots (sx_poll s')) \<longrightarrow>
       cn_state (sx_conns s' p) = WSI_STATE_DEAD_SOCKET \<and> Res_wsi \<in> set (cn_freed (sx_conns s' p))) \<and>
    (\<forall>p. p \<notin> set (slots (sx_poll s)) - set (slots (sx_poll s')) \<longrightarrow> sx_conns s' p = sx_conns s p)"
  using assms(1,3)
proof (induction "fds_count (sx_poll s) - n" arbitrary: n s t rule: less_induct)
  case less
  let ?l = "slots (sx_poll s)" and ?p = "slots (sx_poll s) ! n"
  show ?case
  proof (cases "n < fds_count (sx_poll s)")
    case False
    then show ?thesis using length_slots [OF less.prems(1)] less.prems(1) by (simp add: timeout_sweep.simps)
  next
    case True
    note n = True
    have nl: "n < length ?l" using True length_slots [OF less.prems(1)] by simp
    have dr: "drop n ?l = ?p # drop (Suc n) ?l" using nl by (rule Cons_nth_drop_Suc [symmetric])
    have tk: "take (Suc n) ?l = take n ?l @ [?p]" using nl by (rule take_Suc_conv_app_nth)
    have ix: "length (fds (sx_poll s)) > n" "length (lws_lookup (sx_poll s)) > fd (fds (sx_poll s) ! n)"
      "lws_lookup (sx_poll s) ! fd (fds (sx_poll s) ! n) = Some ?p"
      using less.prems(1) n slots_nth [OF less.prems(1) n] slot_conn [OF less.prems(1) n] by (auto simp: poll_ok_def)
    show ?thesis
    proof (cases "due env (sx_conns s ?p)")
      case False
      then have step: "timeout_sweep env our t n s = timeout_sweep env our t (Suc n) s"
        using n ix check_not_due [OF False] by (simp add: timeout_sweep.simps [of env our t n] put_conn_at)
      have "fds_count (sx_poll s) - Suc n < fds_count (sx_poll s) - n" using n by simp
      note IH = less.hyps [OF this less.prems(1), of t]
      show ?thesis using IH less.prems(2) step False dr tk by simp
    next
      case True
      obtain c where c: "libwebsocket_service_timeout_check env (conn_at s ?p) (ce_now env) = Some (Inr (1, c))"
        "poll_ok (cn_poll c)" "slots (cn_poll c) = take_out n ?l" "cn_state c = WSI_STATE_DEAD_SOCKET" "Res_wsi \<in> set (cn_freed c)"
        using check_due [OF less.prems(1) n refl True] less.prems(2) True dr assms(2) by auto
      define s1 where "s1 = put_conn ?p c s"
      have s1: "sx_poll s1 = cn_poll c" "cn_state (sx_conns s1 ?p) = WSI_STATE_DEAD_SOCKET" "Res_wsi \<in> set (cn_freed (sx_conns s1 ?p))"
        "\<And>q. q \<noteq> ?p \<Longrightarrow> sx_conns s1 q = sx_conns s q"
        using c(4,5) by (auto simp: s1_def put_conn_def)
      let ?m = "slots (sx_poll s1)"
      have sets: "set ?m = set ?l - {?p}" "set (drop (Suc n) ?m) \<subseteq> set (drop (Suc n) ?l)"
        using take_out_sets [OF nl distinct_slots [OF less.prems(1)]] c(3) s1(1) by simp_all
      have np: "?p \<notin> set (drop (Suc n) ?m)" using sets(1) in_set_dropD by fastforce
      define t1 where "t1 = (t \<or> fd (fds (sx_poll s) ! n) = our)"
      have step: "timeout_sweep env our t n s = timeout_sweep env our t1 (Suc n) s1"
        using n ix c(1) by (simp add: timeout_sweep.simps [of env our t n] s1_def t1_def Let_def)
      have "fds_count (sx_poll s1) = fds_count (sx_poll s) - 1"
        using length_slots [OF c(2)] length_slots [OF less.prems(1)] c(3) s1(1) by (simp add: take_out_def)
      then have lt: "fds_count (sx_poll s1) - Suc n < fds_count (sx_poll s) - n" using n by simp
      have ok1: "poll_ok (sx_poll s1)" using c(2) s1(1) by simp
      have pre: "\<forall>p\<in>set (drop (Suc n) ?m). due env (sx_conns s1 p) \<longrightarrow> ends_at_once env (sx_conns s1 p)"
        using less.prems(2) sets(2) np s1(4) dr by (metis list.set_intros(2) subsetD)
      have cong: "swept (\<lambda>p. due env (sx_conns s1 p)) (drop (Suc n) ?m) = swept (\<lambda>p. due env (sx_conns s p)) (drop (Suc n) ?m)"
        using np s1(4) by (intro swept_cong) metis
      have next_l: "take (Suc n) ?m @ swept (\<lambda>p. due env (sx_conns s p)) (drop (Suc n) ?m) =
          take n ?l @ swept (\<lambda>p. due env (sx_conns s p)) (drop n ?l)"
        using take_out_next [OF nl] c(3) s1(1) True dr by simp
      obtain b s' where s': "timeout_sweep env our t1 (Suc n) s1 = Some (Inr (b, s'))" "poll_ok (sx_poll s')"
        "slots (sx_poll s') = take n ?l @ swept (\<lambda>p. due env (sx_conns s p)) (drop n ?l)"
        and dead: "\<forall>p. p \<in> set ?m - set (slots (sx_poll s')) \<longrightarrow>
          cn_state (sx_conns s' p) = WSI_STATE_DEAD_SOCKET \<and> Res_wsi \<in> set (cn_freed (sx_conns s' p))"
        and same: "\<forall>p. p \<notin> set ?m - set (slots (sx_poll s')) \<longrightarrow> sx_conns s' p = sx_conns s1 p"
        using less.hyps [OF lt ok1 pre, of t1] cong next_l by auto
      have sub: "set (slots (sx_poll s')) \<subseteq> set ?m"
        using set_swept [of "\<lambda>p. due env (sx_conns s p)" "drop (Suc n) ?m"] s'(3) next_l
        by (metis (no_types, lifting) Un_subset_iff set_append set_drop_subset set_take_subset subset_trans)
      have "cn_state (sx_conns s' p) = WSI_STATE_DEAD_SOCKET \<and> Res_wsi \<in> set (cn_freed (sx_conns s' p))"
        if "p \<in> set ?l - set (slots (sx_poll s'))" for p
        using that dead same sets(1) s1(2,3) by (cases "p = ?p") auto
      moreover have "sx_conns s' p = sx_conns s p" if "p \<notin> set ?l - set (slots (sx_poll s'))" for p
        using that same sets(1) sub s1(4) nl by (cases "p = ?p") auto
      ultimately show ?thesis using s' step by auto
    qed
  qed
qed

text \<open>
  The check of all timeouts, once a second: it ends connections whose time is over and no others,
  every connection that leaves the table is destroyed and every other one is left as it was; but the
  connection that moves from the end of the table into the place of one that was ended is not
  looked at, so that of several whose time is over some stay for another second.
\<close>

theorem timeout_check_skips_moved:
  assumes "poll_ok (sx_poll s)" "0 \<le> ce_1hz env" "sx_last_check s \<noteq> ce_now env"
    and "\<forall>p\<in>set (slots (sx_poll s)). due env (sx_conns s p) \<longrightarrow> ends_at_once env (sx_conns s p)"
  shows "\<exists>b s'. service_timeouts env our s = Some (Inr (b, s')) \<and> poll_ok (sx_poll s') \<and>
    slots (sx_poll s') = swept (\<lambda>p. due env (sx_conns s p)) (slots (sx_poll s)) \<and>
    (\<forall>p. p \<in> set (slots (sx_poll s)) - set (slots (sx_poll s')) \<longrightarrow>
       cn_state (sx_conns s' p) = WSI_STATE_DEAD_SOCKET \<and> Res_wsi \<in> set (cn_freed (sx_conns s' p))) \<and>
    (\<forall>p. p \<notin> set (slots (sx_poll s)) - set (slots (sx_poll s')) \<longrightarrow> sx_conns s' p = sx_conns s p)"
  using sweep_slots [of "s\<lparr>sx_last_check := ce_now env\<rparr>" env 0 our False] assms by (simp add: service_timeouts_def)

definition two_polled :: poll_ctx where
  "two_polled = sample_poll
     \<lparr>fds := (fds sample_poll)[1 := \<lparr>fd = 6, events = LWS_POLLIN, revents = 0\<rparr>], fds_count := 2,
      lws_lookup := (lws_lookup sample_poll)[6 := Some 6],
      pwsi := (pwsi sample_poll)(6 := (plain_wsi 6)\<lparr>position_in_fds_table := 1\<rparr>)\<rparr>"

lemma two_polled_ok: "poll_ok two_polled" "slots two_polled = [5, 6]"
proof -
  show "poll_ok two_polled"
    by (simp add: two_polled_def sample_poll_def empty_poll_def poll_ok_def slot_ok_def plain_wsi_def less_Suc_eq numeral_2_eq_2)
  show "slots two_polled = [5, 6]"
    by (simp add: two_polled_def sample_poll_def slots_def live_def numeral_eq_Suc)
qed

definition late_conn :: conn where
  "late_conn = (sample_conn (new_tx LWS_CONNMODE_WS_SERVING) (U_ws True None 0))
     \<lparr>cn_timeout := PENDING_TIMEOUT_CLOSE_ACK, cn_timeout_limit := 7\<rparr>"

definition late_ctx :: service_ctx where
  "late_ctx = \<lparr>sx_poll = two_polled, sx_conns = (\<lambda>_. late_conn), sx_last_check = 0, sx_closed = [], sx_log = []\<rparr>"

theorem timeout_check_skips_moved_witness:
  "\<exists>b s'. service_timeouts (sample_close all_env) 0 late_ctx = Some (Inr (b, s')) \<and> slots (sx_poll s') = [6] \<and>
     cn_state (sx_conns s' 5) = WSI_STATE_DEAD_SOCKET \<and> sx_conns s' 6 = late_conn"
proof -
  have "due (sample_close all_env) late_conn" "ends_at_once (sample_close all_env) late_conn"
    by (simp_all add: due_def ends_at_once_def late_conn_def sample_close_def new_tx_def all_env_def)
  moreover have "sx_last_check late_ctx \<noteq> ce_now (sample_close all_env)" "0 \<le> ce_1hz (sample_close all_env)"
    "sx_poll late_ctx = two_polled" "sx_conns late_ctx = (\<lambda>_. late_conn)"
    by (simp_all add: late_ctx_def sample_close_def)
  ultimately show ?thesis
    using timeout_check_skips_moved [of late_ctx "sample_close all_env" 0] two_polled_ok by auto
qed

section \<open>New connections\<close>

lemma upd_unpolled:
  assumes "poll_ok c" "\<not> polled c p"
  shows "poll_ok (upd_wsi p g c)" "poll_map (upd_wsi p g c) = poll_map c" "polled (upd_wsi p g c) q = polled c q"
proof -
  have "slot_ok (upd_wsi p g c) n" if n: "n < fds_count c" for n
  proof -
    obtain q where q: "lws_lookup c ! fd (fds c ! n) = Some q" "sock (pwsi c q) = int (fd (fds c ! n))"
      "position_in_fds_table (pwsi c q) = int n" "fd (fds c ! n) < max_fds c"
      by (rule slot_conn [OF assms(1) n])
    then have "q \<noteq> p" using assms(2) n unfolding polled_def by blast
    then show ?thesis using q by (simp add: slot_ok_def)
  qed
  then show "poll_ok (upd_wsi p g c)" using assms(1) by (simp add: poll_ok_def)
qed (simp_all add: poll_map_def live_def polled_def)

text \<open>
  C30. Accepting: a connection the user lets in is set up for HTTP with a header table and five
  seconds to send its request, and is polled for input. When the table is full, or the descriptor
  is beyond it, nothing of this is undone: the socket stays open, and no one will ever serve or
  close the connection.
\<close>

theorem accept_full_table_strands:
  assumes "poll_ok (sx_poll s)" "\<not> polled (sx_poll s) p" "ae_accept env = int f" "poll_map (sx_poll s) f = None"
    and "rev_events AND LWS_POLLIN \<noteq> 0" "\<forall>log. ae_filter env log = 0" "ae_malloc_wsi env" "ae_malloc_table env"
  shows "\<exists>s'. accept_connection env rev_events p s = Inr s' \<and> poll_ok (sx_poll s') \<and> sx_closed s' = sx_closed s \<and>
    sx_conns s' p = new_server_conn
      \<lparr>cn_timeout_limit := ae_now env + 5, cn_timeout := PENDING_TIMEOUT_ESTABLISH_WITH_SERVER\<rparr> \<and>
    Res_headers \<in> owned (conn_at s' p) \<and> Res_socket (int f) \<in> owned (conn_at s' p) \<and>
    (if fds_count (sx_poll s) < max_fds (sx_poll s) \<and> f < max_fds (sx_poll s)
     then poll_map (sx_poll s') = (poll_map (sx_poll s))(f \<mapsto> LWS_POLLIN)
     else poll_map (sx_poll s') = poll_map (sx_poll s) \<and> \<not> polled (sx_poll s') p)"
proof -
  let ?q = "upd_wsi p (\<lambda>_. new_poll_wsi (int f)) (sx_poll s)"
  let ?c = "new_server_conn\<lparr>cn_timeout_limit := ae_now env + 5, cn_timeout := PENDING_TIMEOUT_ESTABLISH_WITH_SERVER\<rparr>"
  note up = upd_unpolled [OF assms(1,2), of "\<lambda>_. new_poll_wsi (int f)"]
  have sock: "sock (pwsi ?q p) = int f" by (simp add: new_poll_wsi_def)
  have own: "Res_headers \<in> owned (c\<lparr>cn_poll := r, cn_id := p\<rparr>)" "Res_socket (int f) \<in> owned (c\<lparr>cn_poll := r, cn_id := p\<rparr>)"
    if "sock (pwsi r p) = int f" "cn_u c = U_hdr True" for r c
    using that by (simp_all add: owned_def common_resources_def)
  have acc: "accept_connection env rev_events p s =
      map_sum id (\<lambda>(_, q). s\<lparr>sx_conns := (sx_conns s)(p := ?c),
        sx_log := sx_log s @ [LWS_CALLBACK_FILTER_NETWORK_CONNECTION (int f), LWS_CALLBACK_WSI_CREATE, LWS_CALLBACK_SERVER_NEW_CLIENT_INSTANTIATED],
        sx_poll := q\<rparr>)
        (insert_wsi_socket_into_fds ?q p)"
    using assms(3,5-8) by (simp add: accept_connection_def Let_def libwebsocket_create_new_server_wsi_def)
  have none: "poll_map ?q f = None" using assms(4) up(2) by simp
  have u: "cn_u ?c = U_hdr True" by (simp add: new_server_conn_def)
  note ins = insert_spec [OF up(1) sock none]
  show ?thesis
  proof (cases "fds_count (sx_poll s) < max_fds (sx_poll s) \<and> f < max_fds (sx_poll s)")
    case True
    then obtain r where r: "insert_wsi_socket_into_fds ?q p = Inr (0, r)" using ins(1) by auto
    then have "poll_ok r \<and> poll_map r = (poll_map (sx_poll s))(f \<mapsto> LWS_POLLIN) \<and> sock (pwsi r p) = int f"
      using ins(2) [OF _ _ r] True up(2) by (simp add: new_poll_wsi_def)
    then show ?thesis using acc r True own [OF _ u] by (simp add: conn_at_def)
  next
    case False
    then have "insert_wsi_socket_into_fds ?q p = Inr (1, ?q)" using ins(1) by auto
    then show ?thesis using acc False own [OF sock u] up assms(2) by (simp only: if_False) (simp add: conn_at_def)
  qed
qed

definition full_ctx :: service_ctx where
  "full_ctx = late_ctx\<lparr>sx_poll := sample_poll\<rparr>"

definition sample_accept :: "int \<Rightarrow> accept_env" where
  "sample_accept f = \<lparr>ae_accept = f, ae_filter = (\<lambda>_. 0), ae_malloc_wsi = True, ae_malloc_table = True, ae_now = 100\<rparr>"

theorem accept_full_table_strands_witness:
  "\<exists>s'. accept_connection (sample_accept 9) LWS_POLLIN 3 full_ctx = Inr s' \<and> Res_socket 9 \<in> owned (conn_at s' 3) \<and>
     sx_closed s' = [] \<and> \<not> polled (sx_poll s') 3"
proof -
  have p: "poll_ok sample_poll" "\<not> polled sample_poll 3" "poll_map sample_poll 9 = None" "max_fds sample_poll = 8"
    using sample_polled
    by (simp_all add: polled_conn_def)
       (simp_all add: sample_poll_def polled_def poll_map_def live_def empty_poll_def numeral_eq_Suc)
  moreover have "sx_poll full_ctx = sample_poll" "sx_closed full_ctx = []" by (simp_all add: full_ctx_def late_ctx_def)
  ultimately show ?thesis
    using accept_full_table_strands [of full_ctx 3 "sample_accept 9" 9 LWS_POLLIN] by (auto simp: sample_accept_def)
qed

end
