(* ===== verification/Http_File.thy ===== *)
theory Http_File
  imports Output
begin

text \<open>
  Serving a file over HTTP: \<open>libwebsockets_serve_http_file_fragment\<close> of \<^verbatim>\<open>lib/output.c\<close>, called each time
  the socket is writable. The loop is a partial function: not returning is \<open>None\<close>.
\<close>

section \<open>Model\<close>

text \<open>
  The file members of \<^verbatim>\<open>struct _lws_http_mode_related\<close>; \<open>seek_at\<close> is the offset the kernel keeps for the
  descriptor, and \<open>completions\<close> counts the callbacks \<open>LWS_CALLBACK_HTTP_FILE_COMPLETION\<close>.
\<close>

record http_file =
  filepos :: nat
  filelen :: nat
  seek_at :: nat
  completions :: nat

text \<open>\<open>read\<close> on the descriptor: the clock, the offset and the size asked for; \<open>None\<close> is an error.\<close>

type_synonym file_reader = "nat \<Rightarrow> nat \<Rightarrow> nat \<Rightarrow> byte list option"

definition service_buffer :: "byte list \<Rightarrow> tx_buf" where
  "service_buffer bs = \<lparr>tb_id = 3, tb_mem = bs @ replicate (LWS_MAX_SOCKET_IO_BUF - length bs) 0,
     tb_off = 0, tb_len = length bs\<rparr>"

text \<open>\<open>all_sent\<close>: \<open>None\<close> to stay in the loop.\<close>

definition all_sent :: "tx_wsi \<Rightarrow> http_file \<Rightarrow> (tx_wsi \<times> http_file) option" where
  "all_sent w f =
     (if truncated_send_len w = 0 \<and> filepos f = filelen f
      then Some (w\<lparr>tx_state := WSI_STATE_HTTP\<rparr>, f\<lparr>completions := completions f + 1\<rparr>) else None)"

partial_function (option) libwebsockets_serve_http_file_fragment ::
    "tx_env \<Rightarrow> file_reader \<Rightarrow> tx_wsi \<Rightarrow> http_file \<Rightarrow> (tx_stop + int \<times> tx_wsi \<times> http_file) option" where
  "libwebsockets_serve_http_file_fragment env rd w f =
     (case lws_send_pipe_choked env w of (choked, w0) \<Rightarrow>
        if choked then Some (Inr (0, libwebsocket_callback_on_writable_tx w0, f))
        else if truncated_send_len w0 \<noteq> 0 then
          (case flush_truncated env w0 of
             Inl e \<Rightarrow> Some (Inl e)
           | Inr (n, w1) \<Rightarrow>
               if n < 0 then Some (Inr (-1, w1, f))
               else libwebsockets_serve_http_file_fragment env rd w1 f)
        else
          case (if filepos f = filelen f then (Some [], w0)
                else (rd (tx_clock w0) (seek_at f) LWS_MAX_SOCKET_IO_BUF, tick w0)) of
            (None, w1) \<Rightarrow> Some (Inr (-1, w1, f))
          | (Some bs, w1) \<Rightarrow>
              let f1 = f\<lparr>filepos := filepos f + length bs, seek_at := seek_at f + length bs\<rparr>
              in case (if bs = [] then Some (Inr (0, w1, service_buffer []))
                       else libwebsocket_write env w1 (service_buffer bs)
                              (if filepos f1 = filelen f1 then LWS_WRITE_HTTP_FINAL else LWS_WRITE_HTTP)) of
                   None \<Rightarrow> None
                 | Some (Inl e) \<Rightarrow> Some (Inl e)
                 | Some (Inr (m, w2, _)) \<Rightarrow>
                     if m < 0 then Some (Inr (-1, w2, f1))
                     else
                       let f2 = (if m \<noteq> int (length bs)
                                 then f1\<lparr>seek_at := nat (int (seek_at f1) + m - int (length bs))\<rparr> else f1)
                       in case all_sent w2 f2 of
                            Some (w3, f3) \<Rightarrow> Some (Inr (1, w3, f3))
                          | None \<Rightarrow> libwebsockets_serve_http_file_fragment env rd w2 f2)"

section \<open>Correctness\<close>

text \<open>A descriptor of a file with content \<open>data\<close>: a read gives at least a byte before the end.\<close>

definition reads :: "byte list \<Rightarrow> file_reader \<Rightarrow> bool" where
  "reads data rd \<longleftrightarrow> (\<forall>t p n. \<exists>k \<le> n. rd t p n = Some (take k (drop p data)) \<and>
     (p < length data \<and> 0 < n \<longrightarrow> 0 < k))"

text \<open>
  Between two calls: the first \<open>filepos\<close> bytes of the file follow \<open>base\<close> on the stream. \<open>clean_buffer\<close> is
  false: it lies over a zero byte of \<open>connection_type\<close> in the union while the connection is in its
  HTTP mode.
\<close>

definition file_inv :: "tx_env \<Rightarrow> byte list \<Rightarrow> byte list \<Rightarrow> tx_wsi \<Rightarrow> http_file \<Rightarrow> bool" where
  "file_inv env base data w f \<longleftrightarrow> tx_ok w \<and> tx_extensions env = [] \<and> send_ok env \<and> \<not> clean_buffer w \<and>
     tx_state w \<noteq> WSI_STATE_FLUSHING_STORED_SEND_BEFORE_CLOSE \<and>
     filelen f = length data \<and> seek_at f = filepos f \<and> filepos f \<le> length data \<and>
     stream w = base @ take (filepos f) data"

lemma file_inv_tick: "file_inv env base data (tick w) f \<longleftrightarrow> file_inv env base data w f"
  by (simp add: file_inv_def tx_ok_wire stream_def)

lemma write_http:
  assumes "tx_idle env w" "\<not> clean_buffer w" "bs \<noteq> []" "length bs \<le> LWS_MAX_SOCKET_IO_BUF"
    "protocol = LWS_WRITE_HTTP \<or> protocol = LWS_WRITE_HTTP_FINAL"
  obtains (sent) v where "libwebsocket_write env w (service_buffer bs) protocol =
      Some (Inr (int (length bs), v, service_buffer bs))" "tx_ok v" "stream v = stream w @ bs"
      "tx_state v = tx_state w" "\<not> clean_buffer v"
  | (failed) v where "libwebsocket_write env w (service_buffer bs) protocol = Some (Inr (-1, v, service_buffer bs))"
      "gives_up env (tx_clock w) bs"
proof -
  have b: "tb_ok (service_buffer bs)" "tb_len (service_buffer bs) = length bs" "tb_bytes (service_buffer bs) = bs"
    "tb_len (service_buffer bs) \<noteq> 0"
    using assms(3,4) by (simp_all add: service_buffer_def tb_ok_def tb_bytes_def)
  have "tb_len (service_buffer bs) \<noteq> 0 \<Longrightarrow> libwebsocket_write env w (service_buffer bs) protocol =
      Some (map_sum id (\<lambda>(n, w1). (n, w1, service_buffer bs)) (lws_issue_raw env w (service_buffer bs)))"
    using assms(5) by (auto simp: libwebsocket_write_def send_raw_def sends_directly_def Let_def)
  then have r: "libwebsocket_write env w (service_buffer bs) protocol =
      Some (map_sum id (\<lambda>(n, w1). (n, w1, service_buffer bs)) (lws_issue_raw env w (service_buffer bs)))"
    using b(4) by blast
  show thesis
  proof (cases rule: issue_raw_new [OF assms(1) b(1,4), case_names took failed])
    case (took c v)
    then have "c = length bs" using assms(2) b(2) by auto
    then show thesis using took r b assms(2) by (intro sent [of v]) auto
  next
    case (failed k v)
    then show thesis using r b(3) by (intro that(2) [of v]) simp_all
  qed
qed

lemma serve_total:
  assumes "file_inv env base data w f" "reads data rd"
  shows "\<exists>c v f'. libwebsockets_serve_http_file_fragment env rd w f = Some (Inr (c, v, f')) \<and>
    (c = 1 \<and> wire v = base @ data \<and> pending v = [] \<and> tx_state v = WSI_STATE_HTTP \<and> completions f' = completions f + 1 \<or>
     c = 0 \<and> file_inv env base data v f' \<and> completions f' = completions f \<or>
     c = -1 \<and> completions f' = completions f \<and>
       (\<exists>i n. take n (drop i data) \<noteq> [] \<and> gives_up env 0 (take n (drop i data))))"
  using assms(1)
proof (induction "filelen f - filepos f" arbitrary: w f rule: less_induct)
  case less
  note inv = less.prems
  obtain choked w0 where ch: "lws_send_pipe_choked env w = (choked, w0)" by force
  have w0: "file_inv env base data w0 f" "\<not> choked \<Longrightarrow> truncated_send_len w0 = 0"
    using ch inv by (auto simp: lws_send_pipe_choked_def file_inv_tick split: if_splits)
  show ?case
  proof (cases choked)
    case True
    have "file_inv env base data (libwebsocket_callback_on_writable_tx w0) f"
      using w0(1) by (simp add: file_inv_def tx_ok_wire stream_def)
    then show ?thesis using ch True by (subst libwebsockets_serve_http_file_fragment.simps) simp
  next
    case False
    have t0: "truncated_send_len w0 = 0" using w0(2) False by simp
    then have idle: "tx_idle env w0" using w0(1) by (simp add: tx_idle_def file_inv_def)
    show ?thesis
    proof (cases "filepos f = filelen f")
      case True
      then have "wire w0 = base @ data" "pending w0 = []"
        using w0(1) t0 by (simp_all add: file_inv_def stream_def pending_empty)
      then show ?thesis using ch False t0 True
        by (subst libwebsockets_serve_http_file_fragment.simps) (simp add: all_sent_def pending_def truncated_buf_def)
    next
      case ne: False
      then have lt: "filepos f < length data" "seek_at f = filepos f" using w0(1) by (auto simp: file_inv_def)
      obtain k where k: "k \<le> LWS_MAX_SOCKET_IO_BUF" "0 < k"
        "rd (tx_clock w0) (seek_at f) LWS_MAX_SOCKET_IO_BUF = Some (take k (drop (seek_at f) data))"
        using assms(2) lt unfolding reads_def by (metis zero_less_numeral)
      define bs where "bs = take k (drop (seek_at f) data)"
      have bs: "bs \<noteq> []" "length bs \<le> LWS_MAX_SOCKET_IO_BUF" "take (filepos f) data @ bs = take (filepos f + length bs) data"
        "filepos f + length bs \<le> length data"
        using k lt by (auto simp: bs_def take_add min_def)
      let ?f1 = "f\<lparr>filepos := filepos f + length bs, seek_at := seek_at f + length bs\<rparr>"
      let ?p = "if filepos ?f1 = filelen ?f1 then LWS_WRITE_HTTP_FINAL else LWS_WRITE_HTTP"
      have idle': "tx_idle env (tick w0)" "\<not> clean_buffer (tick w0)"
        using idle w0(1) by (simp_all add: tx_idle_upd file_inv_def)
      have step: "libwebsockets_serve_http_file_fragment env rd w f =
          (case libwebsocket_write env (tick w0) (service_buffer bs) ?p of
             None \<Rightarrow> None
           | Some (Inl e) \<Rightarrow> Some (Inl e)
           | Some (Inr (m, w2, _)) \<Rightarrow>
               if m < 0 then Some (Inr (-1, w2, ?f1))
               else
                 let f2 = (if m \<noteq> int (length bs) then ?f1\<lparr>seek_at := nat (int (seek_at ?f1) + m - int (length bs))\<rparr> else ?f1)
                 in case all_sent w2 f2 of
                      Some (w3, f3) \<Rightarrow> Some (Inr (1, w3, f3))
                    | None \<Rightarrow> libwebsockets_serve_http_file_fragment env rd w2 f2)"
        using ch False t0 ne k(3) bs(1)
        by (subst libwebsockets_serve_http_file_fragment.simps) (simp add: Let_def bs_def [symmetric])
      show ?thesis
      proof (cases rule: write_http [OF idle' bs(1,2), of ?p, case_names p sent failed])
        case (sent v)
        have "stream v = stream w0 @ bs" using sent(3) by (simp add: stream_def)
        also have "\<dots> = base @ take (filepos f + length bs) data"
          using w0(1) unfolding file_inv_def bs(3) [symmetric] by simp
        finally have inv1: "file_inv env base data v ?f1"
          using sent(2,4,5) w0(1) bs(4) lt(2) by (simp add: file_inv_def)
        show ?thesis
        proof (cases "all_sent v ?f1")
          case None
          have "filelen ?f1 - filepos ?f1 < filelen f - filepos f"
            using bs(1,4) lt w0(1) by (cases bs) (auto simp: file_inv_def)
          from less.hyps [OF this inv1] show ?thesis using step sent(1) None by (simp add: Let_def)
        next
          case (Some x)
          then have x: "truncated_send_len v = 0" "filepos ?f1 = length data"
            "x = (v\<lparr>tx_state := WSI_STATE_HTTP\<rparr>, ?f1\<lparr>completions := completions ?f1 + 1\<rparr>)"
            using inv1 by (auto simp: all_sent_def file_inv_def split: if_splits)
          then have "wire v = base @ data" using inv1 by (simp add: file_inv_def stream_def pending_empty)
          moreover have "pending (v\<lparr>tx_state := WSI_STATE_HTTP\<rparr>) = []" using x(1) by (simp add: pending_empty)
          ultimately show ?thesis using step sent(1) Some x by (simp add: Let_def)
        qed
      next
        case (failed v)
        have "\<exists>i n. take n (drop i data) \<noteq> [] \<and> gives_up env 0 (take n (drop i data))"
          using gives_up_later [OF failed(2), of 0] bs(1) unfolding bs_def by blast
        then show ?thesis using step failed(1) by (simp add: Let_def)
      qed simp
    qed
  qed
qed

section \<open>Properties\<close>

definition reader_of :: "byte list \<Rightarrow> file_reader" where
  "reader_of data = (\<lambda>t p n. Some (take n (drop p data)))"

lemma file_instance:
  "reads data (reader_of data)"
  "file_inv all_env [] data ((new_tx LWS_CONNMODE_HTTP_SERVING)\<lparr>tx_state := WSI_STATE_HTTP_ISSUING_FILE\<rparr>)
     \<lparr>filepos = 0, filelen = length data, seek_at = 0, completions = 0\<rparr>"
  by (auto simp: reads_def reader_of_def file_inv_def tx_ok_def new_tx_def all_env_def send_ok_def stream_def
      pending_def truncated_buf_def tb_bytes_def)

text \<open>
  C28. Serving a file returns, and is exact: with a file that reads as long as its length says, each
  call ends; what is on the wire and in the store is the beginning of the file up to \<open>filepos\<close>, the
  call reports completion only when the whole file is on the wire, and it does so once, with the
  connection back in its HTTP state. It fails with -1, and without reporting completion, only when
  sending some piece of the file failed: the socket refused it with an error that is not a matter of
  time, or memory for what it did not take could not be had.
\<close>

theorem file_is_served:
  assumes "file_inv env base data w f" "reads data rd"
  shows "\<exists>c v f'. libwebsockets_serve_http_file_fragment env rd w f = Some (Inr (c, v, f')) \<and>
    (c = 1 \<and> wire v = base @ data \<and> pending v = [] \<and> tx_state v = WSI_STATE_HTTP \<and> completions f' = completions f + 1 \<or>
     c = 0 \<and> file_inv env base data v f' \<and> completions f' = completions f \<or>
     c = -1 \<and> completions f' = completions f \<and>
       (\<exists>i n. take n (drop i data) \<noteq> [] \<and> gives_up env 0 (take n (drop i data))))"
  by (rule serve_total [OF assms])

theorem file_is_served_witness:
  "\<exists>c v f'. libwebsockets_serve_http_file_fragment all_env (reader_of [1, 2, 3])
      ((new_tx LWS_CONNMODE_HTTP_SERVING)\<lparr>tx_state := WSI_STATE_HTTP_ISSUING_FILE\<rparr>)
      \<lparr>filepos = 0, filelen = length [1, 2, 3 :: byte], seek_at = 0, completions = 0\<rparr> = Some (Inr (c, v, f')) \<and>
    (c = 1 \<and> wire v = [1, 2, 3] \<or> c = 0 \<and> file_inv all_env [] [1, 2, 3] v f')"
  using file_is_served [OF file_instance(2) file_instance(1), of "[1, 2, 3]"] by (auto simp: all_env_takes)

text \<open>
  A file that has become shorter than \<open>filelen\<close> hangs the server: while the socket stays
  writable, the loop reads nothing and never ends.
\<close>

theorem shrunk_file_hangs:
  assumes "truncated_send_len w = 0" "\<forall>t. poll_out env t" "filepos f \<noteq> filelen f"
    "\<forall>t n. rd t (seek_at f) n = Some []"
  shows "libwebsockets_serve_http_file_fragment env rd w f = None"
proof (cases "libwebsockets_serve_http_file_fragment env rd w f")
  case (Some r)
  define stuck where "stuck = (\<lambda>(env :: tx_env) (rd :: file_reader) (w :: tx_wsi) (f :: http_file). truncated_send_len w = 0 \<and> (\<forall>t. poll_out env t) \<and>
      filepos f \<noteq> filelen f \<and> (\<forall>t n. rd t (seek_at f) n = Some []))"
  have "\<not> stuck env rd w f"
    using Some
  proof (induction rule: libwebsockets_serve_http_file_fragment.raw_induct [rotated, consumes 1, case_names step])
    case (step serve env rd w f y)
    show ?case
    proof
      assume st: "stuck env rd w f"
      then have "serve env rd (tick (tick w)) f = Some y"
        using step(2) by (simp add: stuck_def lws_send_pipe_choked_def all_sent_def Let_def)
      then have "\<not> stuck env rd (tick (tick w)) f" by (rule step(1))
      then show False using st by (simp add: stuck_def)
    qed
  qed
  then show ?thesis using assms by (simp add: stuck_def)
qed

theorem shrunk_file_hangs_witness:
  "libwebsockets_serve_http_file_fragment all_env (reader_of [1, 2, 3])
     ((new_tx LWS_CONNMODE_HTTP_SERVING)\<lparr>tx_state := WSI_STATE_HTTP_ISSUING_FILE\<rparr>)
     \<lparr>filepos = 3, filelen = 5, seek_at = 3, completions = 0\<rparr> = None"
  by (rule shrunk_file_hangs) (simp_all add: new_tx_def all_env_def reader_of_def)

end
