(* ===== verification/Huftable.thy ===== *)
theory Huftable
  imports Lws_Prelude "HOL-Library.Sublist"
begin

text \<open>
  The Huffman code of HPACK: the generated decoding table \<^verbatim>\<open>lib/huftable.h\<close>, the codes it was
  generated from, \<^verbatim>\<open>huf_literal\<close> of \<^verbatim>\<open>lib/minihuf.c\<close>, the decoder \<open>huftable_decode\<close> of
  \<^verbatim>\<open>lib/hpack.c\<close> that walks the table one bit at a time, and the self-test of the generator. The
  results are that the table is the code tree of the code list, so that every symbol's code leads
  to it, that every sequence of bits is decoded without leaving the table, and that a decoder
  fed with the codes of a string and the padding gives back the string.
\<close>

section \<open>The tables\<close>

text \<open>
  The values are \<^verbatim>\<open>unsigned char\<close>, written as numbers below 256, and \<^verbatim>\<open>lextable\<close> and
  \<^verbatim>\<open>lextable_terms\<close> of this header file are called \<open>huftable\<close> and \<open>huftable_terms\<close>, in pieces of 128
  lines. A code is a number and its length in bits.
\<close>

definition huftable_1 :: "nat list" where
  "huftable_1 = [
   66, 1, 92, 1, 102, 1, 116, 1, 140, 1, 70, 1, 117, 1, 64, 1, 69, 1, 64, 1, 1, 3, 1, 91, 0, 36,
   114, 1, 114, 1, 83, 1, 123, 1, 107, 1, 132, 1, 1, 6, 179, 1, 195, 1, 1, 140, 1, 138, 1, 135,
   142, 1, 15, 1, 164, 1, 183, 1, 200, 1, 1, 15, 1, 7, 1, 3, 254, 1, 2, 3, 1, 2, 4, 5, 6, 7, 1,
   14, 1, 12, 8, 11, 167, 1, 1, 123, 239, 1, 9, 142, 10, 1, 17, 1, 100, 1, 249, 1, 1, 10, 10,
   13, 12, 14, 1, 2, 15, 16, 17, 18, 1, 5, 1, 2, 19, 20, 21, 23, 22, 0, 1, 2, 24, 25, 26, 27, 1,
   2]"

definition huftable_2 :: "nat list" where
  "huftable_2 = [
   28, 29, 30, 31, 19, 1, 1, 15, 75, 1, 1, 12, 32, 37, 1, 8, 33, 34, 124, 1, 35, 62, 1, 5, 38,
   42, 63, 1, 39, 43, 40, 41, 44, 59, 45, 46, 1, 8, 1, 6, 47, 51, 1, 45, 1, 2, 48, 49, 50, 97,
   52, 53, 1, 2, 54, 55, 56, 57, 6, 1, 44, 1, 47, 1, 1, 7, 58, 66, 60, 96, 1, 33, 1, 29, 61, 65,
   64, 91, 67, 68, 1, 8, 1, 4, 1, 2, 69, 70, 71, 72, 1, 2, 73, 74, 75, 76, 1, 4, 1, 2, 77, 78,
   79, 80, 1, 2, 81, 82, 83, 84, 1, 17, 1, 2, 85, 86, 87, 89, 88, 90, 1, 31, 1, 23, 92, 195, 93,
   126]"

definition huftable_3 :: "nat list" where
  "huftable_3 = [
   94, 125, 95, 98, 1, 5, 99, 101, 1, 2, 100, 102, 103, 104, 105, 111, 1, 5, 106, 107, 1, 2,
   108, 109, 110, 112, 113, 118, 114, 117, 115, 116, 1, 2, 119, 120, 121, 122, 127, 220, 208, 1,
   128, 130, 46, 1, 1, 27, 1, 6, 230, 1, 129, 132, 1, 20, 1, 48, 131, 162, 1, 2, 133, 134, 136,
   146, 137, 138, 1, 2, 139, 140, 141, 143, 1, 6, 144, 145, 1, 18, 1, 5, 1, 3, 147, 149, 148,
   159, 150, 151, 1, 8, 152, 155, 66, 1, 1, 12, 153, 161, 1, 5, 1, 3, 154, 156, 157, 158, 160,
   163, 1, 7, 164, 169, 1, 9, 1, 3, 165, 166, 167, 172, 168, 174, 170, 173, 1, 27]"

definition huftable_4 :: "nat list" where
  "huftable_4 = [
   1, 42, 171, 206, 1, 9, 175, 180, 1, 39, 1, 5, 176, 177, 1, 7, 1, 5, 178, 181, 179, 209, 182,
   183, 184, 194, 185, 186, 1, 4, 187, 189, 1, 7, 188, 191, 190, 196, 1, 13, 1, 10, 1, 8, 192,
   193, 197, 231, 1, 27, 198, 228, 27, 1, 1, 25, 199, 207, 200, 201, 1, 6, 202, 205, 13, 1, 23,
   1, 255, 1, 203, 204, 210, 213, 1, 20, 1, 9, 1, 2, 211, 212, 214, 221, 215, 225, 1, 7, 216,
   217, 1, 9, 218, 219, 1, 8, 222, 223, 224, 226, 227, 229, 232, 233, 234, 235, 236, 237, 238,
   240, 241, 244, 242, 243, 1, 4, 1, 2, 245, 246, 247, 248, 1, 2, 250, 251, 252, 253]"

definition huftable :: "nat list" where
  "huftable = huftable_1 @ huftable_2 @ huftable_3 @ huftable_4"

definition huftable_terms :: "nat list" where
  "huftable_terms = [
   0, 0, 0, 3, 1, 0, 3, 0, 52, 15, 67, 3, 241, 60, 252, 60, 15, 48, 55, 247, 15, 195, 207, 3,
   60, 252, 192, 243, 240, 60, 252, 240, 207, 252, 204, 255, 252, 13, 52, 204, 207, 51, 240, 51,
   12, 63, 195, 63, 204, 48, 252, 207, 60, 240, 12, 207, 208, 3, 63, 51, 255, 255, 195, 243]"

definition huf_literal_1 :: "(nat \<times> nat) list" where
  "huf_literal_1 = [
   (8184,13), (8388568,23), (268435426,28), (268435427,28), (268435428,28), (268435429,28),
   (268435430,28), (268435431,28), (268435432,28), (16777194,24), (1073741820,30),
   (268435433,28), (268435434,28), (1073741821,30), (268435435,28), (268435436,28),
   (268435437,28), (268435438,28), (268435439,28), (268435440,28), (268435441,28),
   (268435442,28), (1073741822,30), (268435443,28), (268435444,28), (268435445,28),
   (268435446,28), (268435447,28), (268435448,28), (268435449,28), (268435450,28),
   (268435451,28), (20,6), (1016,10), (1017,10), (4090,12), (8185,13), (21,6), (248,8),
   (2042,11), (1018,10), (1019,10), (249,8), (2043,11), (250,8), (22,6), (23,6), (24,6), (0,5),
   (1,5), (2,5), (25,6), (26,6), (27,6), (28,6), (29,6), (30,6), (31,6), (92,7), (251,8),
   (32764,15), (32,6), (4091,12), (1020,10), (8186,13), (33,6), (93,7), (94,7), (95,7), (96,7),
   (97,7), (98,7), (99,7), (100,7), (101,7), (102,7), (103,7), (104,7), (105,7), (106,7),
   (107,7), (108,7), (109,7), (110,7), (111,7), (112,7), (113,7), (114,7), (252,8), (115,7),
   (253,8), (8187,13), (524272,19), (8188,13), (16380,14), (34,6), (32765,15), (3,5), (35,6),
   (4,5), (36,6), (5,5), (37,6), (38,6), (39,6), (6,5), (116,7), (117,7), (40,6), (41,6),
   (42,6), (7,5), (43,6), (118,7), (44,6), (8,5), (9,5), (45,6), (119,7), (120,7), (121,7),
   (122,7), (123,7), (32766,15), (2044,11), (16381,14), (8189,13), (268435452,28)]"

definition huf_literal_2 :: "(nat \<times> nat) list" where
  "huf_literal_2 = [
   (1048550,20), (4194258,22), (1048551,20), (1048552,20), (4194259,22), (4194260,22),
   (4194261,22), (8388569,23), (4194262,22), (8388570,23), (8388571,23), (8388572,23),
   (8388573,23), (8388574,23), (16777195,24), (8388575,23), (16777196,24), (16777197,24),
   (4194263,22), (8388576,23), (16777198,24), (8388577,23), (8388578,23), (8388579,23),
   (8388580,23), (2097116,21), (4194264,22), (8388581,23), (4194265,22), (8388582,23),
   (8388583,23), (16777199,24), (4194266,22), (2097117,21), (1048553,20), (4194267,22),
   (4194268,22), (8388584,23), (8388585,23), (2097118,21), (8388586,23), (4194269,22),
   (4194270,22), (16777200,24), (2097119,21), (4194271,22), (8388587,23), (8388588,23),
   (2097120,21), (2097121,21), (4194272,22), (2097122,21), (8388589,23), (4194273,22),
   (8388590,23), (8388591,23), (1048554,20), (4194274,22), (4194275,22), (4194276,22),
   (8388592,23), (4194277,22), (4194278,22), (8388593,23), (67108832,26), (67108833,26),
   (1048555,20), (524273,19), (4194279,22), (8388594,23), (4194280,22), (33554412,25),
   (67108834,26), (67108835,26), (67108836,26), (134217694,27), (134217695,27), (67108837,26),
   (16777201,24), (33554413,25), (524274,19), (2097123,21), (67108838,26), (134217696,27),
   (134217697,27), (67108839,26), (134217698,27), (16777202,24), (2097124,21), (2097125,21),
   (67108840,26), (67108841,26), (268435453,28), (134217699,27), (134217700,27), (134217701,27),
   (1048556,20), (16777203,24), (1048557,20), (2097126,21), (4194281,22), (2097127,21),
   (2097128,21), (8388595,23), (4194282,22), (4194283,22), (33554414,25), (33554415,25),
   (16777204,24), (16777205,24), (67108842,26), (8388596,23), (67108843,26), (134217702,27),
   (67108844,26), (67108845,26), (134217703,27), (134217704,27), (134217705,27), (134217706,27),
   (134217707,27), (268435454,28), (134217708,27), (134217709,27), (134217710,27),
   (134217711,27), (134217712,27), (67108846,26), (1073741823,30)]"

definition huf_literal :: "(nat \<times> nat) list" where
  "huf_literal = huf_literal_1 @ huf_literal_2"

definition HUFTABLE_0x100_PREV :: nat where
  "HUFTABLE_0x100_PREV = 118"

section \<open>The decoder and the test of the generator\<close>

text \<open>
  One bit from position \<open>pos\<close>. A result with bit 15 is a terminal. \<open>None\<close> is a read outside the
  table.
\<close>

definition huftable_decode :: "nat \<Rightarrow> bool \<Rightarrow> nat option" where
  "huftable_decode pos c =
     (let q = pos + of_bool c
      in if length huftable \<le> q \<or> length huftable_terms \<le> drop_bit 3 q then None
         else if bit (huftable_terms ! drop_bit 3 q) (q AND 7) then Some (huftable ! q OR 0x8000)
         else Some (pos + push_bit 1 (huftable ! q)))"

definition code_bit :: "nat \<Rightarrow> nat \<Rightarrow> int" where
  "code_bit idx b =
     (if b < snd (huf_literal ! idx)
      then of_bool (bit (fst (huf_literal ! idx)) (snd (huf_literal ! idx) - 1 - b))
      else -1)"

text \<open>
  The test loop of the generator for symbol \<open>n\<close>, with the position \<open>walk\<close> reached after \<open>m\<close> bits:
  the symbol that is found, \<open>-1\<close> when the code ends before a terminal. \<open>0xffff\<close> is \<open>return 3\<close>.
\<close>

datatype try_result = Failed | Got int

function try_symbol :: "nat \<Rightarrow> nat \<Rightarrow> nat \<Rightarrow> try_result option" where
  "try_symbol n walk m =
     (if m < snd (huf_literal ! n) then
        (case huftable_decode walk (code_bit n m \<noteq> 0) of
           None \<Rightarrow> None
         | Some w \<Rightarrow>
             if w = 0xffff then Some Failed
             else if bit w 15 then
               Some (Got (let y = w AND 0x7fff in int (if y = 0 \<and> m = 29 then y OR 0x100 else y)))
             else try_symbol n w (m + 1))
      else Some (Got (-1)))"
  by pat_completeness auto
termination by (relation "measure (\<lambda>(n, walk, m). snd (huf_literal ! n) - m)") auto

declare try_symbol.simps [simp del]

section \<open>The code tree\<close>

text \<open>The bits of the code of a symbol, first bit first, and the tree a table stands for.\<close>

definition huf_code :: "nat \<Rightarrow> bool list" where
  "huf_code s = (case huf_literal ! s of (c, n) \<Rightarrow> map (\<lambda>i. bit c (n - 1 - i)) [0..<n])"

datatype htree = HLeaf nat | HNode htree htree

text \<open>
  The table with the terminal flag beside each entry. A tree is read off a suffix of it: two
  entries, each a leaf or a jump of twice its value from where the suffix starts.
\<close>

definition huf_entries :: "(bool \<times> nat) list" where
  "huf_entries = zip (concat (map (\<lambda>t. map (bit t) [0..<8]) huftable_terms)) huftable"

fun htree_of :: "nat \<Rightarrow> (bool \<times> nat) list \<Rightarrow> htree option" where
  "htree_of (Suc k) ((t0, v0) # (t1, v1) # s) =
     (case (if t0 then Some (HLeaf v0) else htree_of k (drop (2 * v0) ((t0, v0) # (t1, v1) # s)),
            if t1 then Some (HLeaf v1) else htree_of k (drop (2 * v1) ((t0, v0) # (t1, v1) # s))) of
        (Some l, Some r) \<Rightarrow> Some (HNode l r)
      | _ \<Rightarrow> None)"
| "htree_of _ _ = None"

fun htree_words :: "htree \<Rightarrow> (bool list \<times> nat) list" where
  "htree_words (HLeaf v) = [([], v)]"
| "htree_words (HNode l r) =
     map (apfst ((#) False)) (htree_words l) @ map (apfst ((#) True)) (htree_words r)"

definition htree_at :: "nat \<Rightarrow> nat \<Rightarrow> (bool \<times> nat) list \<Rightarrow> htree option" where
  "htree_at k n s = htree_of k (drop n s)"

definition hbranch :: "nat \<Rightarrow> (bool \<times> nat) list \<Rightarrow> bool \<times> nat \<Rightarrow> htree option" where
  "hbranch k s e = (if fst e then Some (HLeaf (snd e)) else htree_at k (2 * snd e) s)"

fun htree_lookup :: "htree \<Rightarrow> bool list \<Rightarrow> nat option" where
  "htree_lookup (HLeaf v) bs = (if bs = [] then Some v else None)"
| "htree_lookup (HNode l r) [] = None"
| "htree_lookup (HNode l r) (b # bs) = htree_lookup (if b then r else l) bs"

fun htree_size :: "htree \<Rightarrow> nat" where
  "htree_size (HLeaf v) = 1"
| "htree_size (HNode l r) = htree_size l + htree_size r"


lemma htree_of_branch:
  "htree_of (Suc k) (e0 # e1 # s) =
     (case hbranch k (e0 # e1 # s) e0 of None \<Rightarrow> None
      | Some l \<Rightarrow> (case hbranch k (e0 # e1 # s) e1 of None \<Rightarrow> None
                   | Some r \<Rightarrow> Some (HNode l r)))"
  by (cases e0; cases e1) (simp add: hbranch_def htree_at_def split: option.split)

lemma eval_htree:
  "htree_of (numeral v) (e0 # e1 # s) =
     (case hbranch (pred_numeral v) (e0 # e1 # s) e0 of None \<Rightarrow> None
      | Some l \<Rightarrow> (case hbranch (pred_numeral v) (e0 # e1 # s) e1 of None \<Rightarrow> None
                   | Some r \<Rightarrow> Some (HNode l r)))"
  "hbranch k s (True, n) = Some (HLeaf n)"
  "hbranch k s (False, n) = htree_at k (2 * n) s"
  by (simp_all only: numeral_eq_Suc [of v] htree_of_branch) (simp_all add: hbranch_def)

lemma eval_htree_at:
  "htree_at f 0 s = htree_of f s"
  "htree_at f (Suc 0) (x # s) = htree_of f s"
  "numeral v < (16::nat) \<Longrightarrow> htree_at f (numeral v) (x # s) = htree_at f (pred_numeral v) s"
  "16 \<le> n \<Longrightarrow> htree_at f n (x1 # x2 # x3 # x4 # x5 # x6 # x7 # x8 # x9 # x10 # x11 # x12 # x13 #
     x14 # x15 # x16 # s) = htree_at f (n - 16) s"
  by (simp_all add: htree_at_def numeral_eq_Suc drop_Cons')

lemma eval_htree_congs:
  "f = f' \<Longrightarrow> n = n' \<Longrightarrow> htree_at f n s = htree_at f' n' s"
  "f = f' \<Longrightarrow> htree_of f s = htree_of f' s"
  "f = f' \<Longrightarrow> e = e' \<Longrightarrow> hbranch f s e = hbranch f' s e'"
  by simp_all

lemma eval_htree_lookup:
  "htree_lookup (HLeaf v) [] = Some v"
  "htree_lookup (HNode l r) (True # bs) = htree_lookup r bs"
  "htree_lookup (HNode l r) (False # bs) = htree_lookup l bs"
  "bs = bs' \<Longrightarrow> htree_lookup t bs = htree_lookup t bs'"
  by simp_all

fun code_acc :: "nat \<Rightarrow> nat \<Rightarrow> bool list \<Rightarrow> bool list" where
  "code_acc 0 c acc = acc"
| "code_acc (Suc n) c acc = code_acc n (c div 2) (odd c # acc)"

lemma code_acc_eq: "code_acc n c acc = map (\<lambda>i. bit c (n - 1 - i)) [0..<n] @ acc"
proof (induction n arbitrary: c acc)
  case (Suc n)
  have "map (\<lambda>i. bit c (n - i)) [0..<Suc n] = map (\<lambda>i. bit (c div 2) (n - 1 - i)) [0..<n] @ [odd c]"
    by (auto simp: bit_0 Suc_diff_Suc simp flip: bit_Suc)
  with Suc show ?case by simp
qed simp

lemma huf_code_acc: "huf_code s = (case huf_literal ! s of (c, n) \<Rightarrow> code_acc n c [])"
  by (simp add: huf_code_def code_acc_eq split: prod.split)

lemma eval_code_acc:
  "code_acc (numeral v) c acc = code_acc (pred_numeral v) (c div 2) (odd c # acc)"
  by (simp add: numeral_eq_Suc)

definition htree_covers :: "htree \<Rightarrow> bool" where
  "htree_covers t \<longleftrightarrow> htree_size t = 257 \<and>
     map (\<lambda>(c, n). htree_lookup t (code_acc n c [])) huf_literal = map (\<lambda>s. Some (s mod 256)) [0..<257]"

lemma huf_entries_htree: "\<exists>t. htree_of 30 huf_entries = Some t \<and> htree_covers t"
  unfolding huf_entries_def huftable_def huftable_1_def huftable_2_def huftable_3_def
    huftable_4_def huftable_terms_def append_Cons append_Nil
  apply (simp add: upt_conv_Cons bit_0)
  apply (simp add: eval_htree htree_of_branch [of 0] eval_htree_at del: htree_of.simps cong: eval_htree_congs)
  apply (unfold htree_covers_def, rule conjI, simp)
  apply (simp add: huf_literal_def huf_literal_1_def huf_literal_2_def eval_htree_lookup(1,2,3)
      eval_code_acc del: htree_lookup.simps cong: eval_htree_lookup(4))
  apply (simp add: upt_conv_Cons)
  done

section \<open>Walking the table is walking the tree\<close>

lemma huf_sizes:
  "length huftable = 512" "length huftable_terms = 64" "length huf_entries = 512"
  "length huf_literal = 257"
  by (simp_all add: huf_entries_def huftable_def huftable_1_def huftable_2_def huftable_3_def
      huftable_4_def huftable_terms_def huf_literal_def huf_literal_1_def huf_literal_2_def
      length_concat)

lemma huftable_bytes: "q < 512 \<Longrightarrow> huftable ! q < 256"
proof -
  have "\<forall>v\<in>set huftable. v < 256"
    by (simp add: huftable_def huftable_1_def huftable_2_def huftable_3_def huftable_4_def)
  then show "q < 512 \<Longrightarrow> huftable ! q < 256" by (simp add: huf_sizes)
qed

lemma nth_concat_chunks:
  assumes "\<And>x. length (f x) = 8" "q < 8 * length xs"
  shows "concat (map f xs) ! q = f (xs ! (q div 8)) ! (q mod 8)"
  using assms(2)
proof (induction xs arbitrary: q)
  case (Cons x xs)
  show ?case
  proof (cases "q < 8")
    case True
    then show ?thesis using assms(1) by (simp add: nth_append)
  next
    case False
    then have "concat (map f (x # xs)) ! q = concat (map f xs) ! (q - 8)"
      using assms(1) by (simp add: nth_append)
    also have "\<dots> = f (xs ! ((q - 8) div 8)) ! ((q - 8) mod 8)"
      using Cons False by (intro Cons.IH) simp
    finally show ?thesis using False by (simp add: le_div_geq le_mod_geq)
  qed
qed simp

lemma huf_entries_nth:
  assumes "q < 512"
  shows "huf_entries ! q = (bit (huftable_terms ! (q div 8)) (q mod 8), huftable ! q)"
proof -
  have "length (concat (map (\<lambda>t. map (bit t) [0..<8]) huftable_terms)) = 512"
    by (simp add: length_concat huf_sizes comp_def sum_list_triv)
  moreover have "concat (map (\<lambda>t. map (bit t) [0..<8]) huftable_terms) ! q =
      bit (huftable_terms ! (q div 8)) (q mod 8)"
    using assms by (subst nth_concat_chunks) (simp_all add: huf_sizes)
  ultimately show ?thesis using assms by (simp add: huf_entries_def huf_sizes)
qed

lemma huftable_decode_entry:
  "huftable_decode pos b =
     (if 512 \<le> pos + of_bool b then None
      else case huf_entries ! (pos + of_bool b) of
             (True, v) \<Rightarrow> Some (v OR 0x8000) | (False, v) \<Rightarrow> Some (pos + 2 * v))"
proof -
  define q where "q = pos + (of_bool b :: nat)"
  have "64 \<le> q div 8 \<longleftrightarrow> 512 \<le> q" by linarith
  then show ?thesis
    unfolding huftable_decode_def Let_def q_def [symmetric]
    by (simp add: huf_sizes huf_entries_nth and_7_nat drop_bit_eq_div push_bit_eq_mult)
qed

text \<open>
  A tree stands at a position when it can be read off the table there. The positions that are
  reached are those where a tree stands.
\<close>

definition stands :: "nat \<Rightarrow> nat \<Rightarrow> htree \<Rightarrow> bool" where
  "stands k pos t \<longleftrightarrow> htree_of k (drop pos huf_entries) = Some t"

definition huf_pos_ok :: "nat \<Rightarrow> bool" where
  "huf_pos_ok pos \<longleftrightarrow> (\<exists>k t. stands k pos t)"

fun child :: "htree \<Rightarrow> bool \<Rightarrow> htree option" where
  "child (HLeaf v) b = None"
| "child (HNode l r) b = Some (if b then r else l)"

lemma stands_node:
  assumes "stands k pos t"
  obtains k' l r where "k = Suc k'" "t = HNode l r" "pos + 1 < 512"
    "hbranch k' (drop pos huf_entries) (huf_entries ! pos) = Some l"
    "hbranch k' (drop pos huf_entries) (huf_entries ! (pos + 1)) = Some r"
proof -
  obtain k' e0 e1 s where d: "k = Suc k'" "drop pos huf_entries = e0 # e1 # s"
    using assms unfolding stands_def
    by (cases "(k, drop pos huf_entries)" rule: htree_of.cases) auto
  have "length (drop pos huf_entries) = Suc (Suc (length s))" by (simp add: d)
  then have p: "pos + 1 < 512" using huf_sizes(3) by simp
  have "drop pos huf_entries ! 0 = e0" "drop pos huf_entries ! 1 = e1" unfolding d by simp_all
  then have e: "huf_entries ! pos = e0" "huf_entries ! (pos + 1) = e1"
    using p huf_sizes(3) by simp_all
  have "htree_of (Suc k') (e0 # e1 # s) = Some t" using assms d by (simp add: stands_def)
  then obtain l r where "t = HNode l r" "hbranch k' (e0 # e1 # s) e0 = Some l"
      "hbranch k' (e0 # e1 # s) e1 = Some r"
    unfolding htree_of_branch by (auto split: option.splits)
  with that [of k' l r] show ?thesis unfolding d e using p by simp
qed

lemma hbranch_cases:
  assumes "hbranch k (drop pos huf_entries) (huf_entries ! (pos + of_bool b)) = Some u"
    "pos + 1 < 512"
  shows "(\<exists>v. u = HLeaf v \<and> v < 256 \<and> huftable_decode pos b = Some (v OR 0x8000)) \<or>
         (\<exists>pos'. huftable_decode pos b = Some pos' \<and> stands k pos' u \<and> pos' < 512)"
proof -
  obtain t v where e: "huf_entries ! (pos + of_bool b) = (t, v)" by fastforce
  have q: "pos + of_bool b < 512" using assms(2) by (cases b) auto
  then have v: "v < 256" using huftable_bytes [OF q] e by (simp add: huf_entries_nth)
  show ?thesis
  proof (cases t)
    case True
    then show ?thesis using assms(1) e v q by (auto simp: hbranch_def huftable_decode_entry)
  next
    case False
    then have s: "stands k (pos + 2 * v) u"
      using assms(1) e by (simp add: hbranch_def htree_at_def stands_def add.commute)
    moreover have "huftable_decode pos b = Some (pos + 2 * v)"
      using q e False by (simp add: huftable_decode_entry)
    ultimately show ?thesis using stands_node [OF s] by (metis add_lessD1)
  qed
qed

lemma huftable_decode_stands:
  assumes "stands k pos t" "child t b = Some u"
  shows "(\<exists>v. u = HLeaf v \<and> v < 256 \<and> huftable_decode pos b = Some (v OR 0x8000)) \<or>
         (\<exists>k' pos'. k = Suc k' \<and> huftable_decode pos b = Some pos' \<and> stands k' pos' u \<and> pos' < 512)"
proof -
  from assms(1) obtain k' l r where t: "k = Suc k'" "t = HNode l r" "pos + 1 < 512"
    "hbranch k' (drop pos huf_entries) (huf_entries ! pos) = Some l"
    "hbranch k' (drop pos huf_entries) (huf_entries ! (pos + 1)) = Some r"
    by (rule stands_node)
  have "hbranch k' (drop pos huf_entries) (huf_entries ! (pos + of_bool b)) = Some u"
    using assms(2) t by (cases b) auto
  from hbranch_cases [OF this t(3)] show ?thesis using t(1) by auto
qed

lemma terminal_bits:
  assumes "v < 256"
  shows "bit (v OR 0x8000 :: nat) 15" "(v OR 0x8000 :: nat) AND 0x7fff = v" "(v OR 0x8000 :: nat) \<noteq> 0xffff"
proof -
  have hi: "\<not> bit v n" if "8 \<le> n" for n
  proof -
    have "(256::nat) \<le> 2 ^ n" using power_increasing [OF that, of "2::nat"] by simp
    then have "v < 2 ^ n" using assms by linarith
    then show ?thesis by (simp add: bit_nat_def)
  qed
  have m: "bit (0x7fff::nat) n \<longleftrightarrow> n < 15" "bit (0x8000::nat) n \<longleftrightarrow> n = 15"
      "bit (0xffff::nat) n \<longleftrightarrow> n < 16" for n
    using bit_mask_iff [where 'a = nat, of 15 n] bit_mask_iff [where 'a = nat, of 16 n]
      bit_exp_iff [where 'a = nat, of 15 n] by (simp_all add: mask_eq_exp_minus_1)
  show "bit (v OR 0x8000 :: nat) 15" by (simp add: bit_or_iff bit_0)
  show "(v OR 0x8000 :: nat) AND 0x7fff = v"
    by (rule bit_eqI) (use hi in \<open>auto simp: bit_or_iff bit_and_iff m intro: ccontr\<close>)
  have "\<not> bit (v OR 0x8000 :: nat) 8" using hi [of 8] by (simp add: bit_or_iff m)
  then show "(v OR 0x8000 :: nat) \<noteq> 0xffff" using m(3) [of 8] by auto
qed

lemma small_bits: "pos < 512 \<Longrightarrow> \<not> bit (pos::nat) 15" "pos < 512 \<Longrightarrow> pos \<noteq> 0xffff"
  by (simp_all add: bit_nat_def)

text \<open>
  Decoding a sequence of bits from a position: the bytes of the terminals that are met and the
  position that is reached, \<open>None\<close> for a read outside the table or the fail value.
\<close>

fun huf_run :: "nat \<Rightarrow> bool list \<Rightarrow> (nat list \<times> nat) option" where
  "huf_run pos [] = Some ([], pos)"
| "huf_run pos (b # bs) =
     (case huftable_decode pos b of
        None \<Rightarrow> None
      | Some r \<Rightarrow> if r = 0xffff then None
                  else if bit r 15 then
                    (case huf_run 0 bs of None \<Rightarrow> None
                     | Some (us, q) \<Rightarrow> Some ((r AND 0x7fff) # us, q))
                  else huf_run r bs)"

lemma huf_run_append:
  "huf_run p (xs @ ys) = (case huf_run p xs of None \<Rightarrow> None
     | Some (us, q) \<Rightarrow> (case huf_run q ys of None \<Rightarrow> None | Some (vs, r) \<Rightarrow> Some (us @ vs, r)))"
  by (induction p xs rule: huf_run.induct) (auto split: option.splits)

definition huf_root :: htree where
  "huf_root = the (htree_of 30 huf_entries)"

lemma huf_root_stands: "stands 30 0 huf_root" "htree_covers huf_root"
  using huf_entries_htree by (auto simp: huf_root_def stands_def)

lemma huf_pos_ok_0: "huf_pos_ok 0"
  using huf_root_stands(1) by (auto simp: huf_pos_ok_def)

lemma huf_pos_ok_less: "huf_pos_ok p \<Longrightarrow> p < 512"
  by (auto simp: huf_pos_ok_def elim: stands_node)

lemma huftable_decode_ok:
  assumes "huf_pos_ok p"
  obtains (leaf) v where "v < 256" "huftable_decode p b = Some (v OR 0x8000)"
  | (jump) p' where "huftable_decode p b = Some p'" "huf_pos_ok p'"
proof -
  obtain k t where t: "stands k p t" using assms by (auto simp: huf_pos_ok_def)
  from stands_node [OF t] obtain l r where "t = HNode l r" by metis
  then have "child t b = Some (if b then r else l)" by simp
  from huftable_decode_stands [OF t this] show ?thesis
    using that by (auto simp: huf_pos_ok_def)
qed

lemma huf_run_total:
  assumes "huf_pos_ok p"
  shows "\<exists>us q. huf_run p bs = Some (us, q) \<and> huf_pos_ok q \<and> (\<forall>v\<in>set us. v < 256)"
  using assms
proof (induction bs arbitrary: p)
  case (Cons b bs)
  from Cons.prems show ?case
  proof (cases rule: huftable_decode_ok [where b = b])
    case (leaf v)
    with Cons.IH [OF huf_pos_ok_0] show ?thesis by (auto simp: terminal_bits)
  next
    case (jump p')
    with Cons.IH [OF jump(2)] huf_pos_ok_less [OF jump(2)] show ?thesis by (auto simp: small_bits)
  qed
qed simp

lemma huf_run_lookup:
  assumes "stands k p t" "htree_lookup t (xs @ ys) = Some v"
  shows "ys = [] \<Longrightarrow> huf_run p xs = Some ([v], 0)" "ys \<noteq> [] \<Longrightarrow> \<exists>q. huf_run p xs = Some ([], q)"
proof -
  have "if ys = [] then huf_run p xs = Some ([v], 0) else \<exists>q. huf_run p xs = Some ([], q)"
    using assms
  proof (induction xs arbitrary: k p t)
    case Nil
    then show ?case by (auto elim: stands_node)
  next
    case (Cons x xs)
    from stands_node [OF Cons.prems(1)] obtain l r where t: "t = HNode l r" by metis
    define u where "u = (if x then r else l)"
    have u: "child t x = Some u" "htree_lookup u (xs @ ys) = Some v"
      using Cons.prems(2) by (simp_all add: t u_def)
    from huftable_decode_stands [OF Cons.prems(1) u(1)] show ?case
    proof
      assume "\<exists>w. u = HLeaf w \<and> w < 256 \<and> huftable_decode p x = Some (w OR 0x8000)"
      with u(2) show ?thesis by (auto simp: terminal_bits split: if_splits)
    next
      assume "\<exists>k' p'. k = Suc k' \<and> huftable_decode p x = Some p' \<and> stands k' p' u \<and> p' < 512"
      with Cons.IH u(2) show ?thesis by (auto simp: small_bits)
    qed
  qed
  then show "ys = [] \<Longrightarrow> huf_run p xs = Some ([v], 0)" "ys \<noteq> [] \<Longrightarrow> \<exists>q. huf_run p xs = Some ([], q)"
    by auto
qed

lemma huf_code_lookup:
  assumes "s < 257" shows "htree_lookup huf_root (huf_code s) = Some (s mod 256)"
proof -
  have "map (\<lambda>(c, n). htree_lookup huf_root (code_acc n c [])) huf_literal ! s =
      map (\<lambda>s. Some (s mod 256)) [0..<257] ! s"
    using huf_root_stands(2) unfolding htree_covers_def by simp
  then show ?thesis
    using assms by (simp add: huf_sizes huf_code_def code_acc_eq nth_append split: prod.splits)
qed

lemma huf_run_code: "s < 257 \<Longrightarrow> huf_run 0 (huf_code s) = Some ([s mod 256], 0)"
  using huf_run_lookup(1) [OF huf_root_stands(1), of "huf_code s" "[]"] huf_code_lookup by simp

lemma huf_run_code_prefix:
  "s < 257 \<Longrightarrow> huf_code s = xs @ ys \<Longrightarrow> ys \<noteq> [] \<Longrightarrow> \<exists>q. huf_run 0 xs = Some ([], q)"
  using huf_run_lookup(2) [OF huf_root_stands(1), of xs ys] huf_code_lookup [of s] by simp

lemma huf_run_codes:
  "\<forall>s\<in>set ss. s < 257 \<Longrightarrow> huf_run 0 (concat (map huf_code ss)) = Some (map (\<lambda>s. s mod 256) ss, 0)"
  by (induction ss) (simp_all add: huf_run_append huf_run_code)

lemma eval_replicate: "replicate (numeral v) x = x # replicate (pred_numeral v) x"
  by (simp add: numeral_eq_Suc)

lemma huf_eos: "huf_code 256 = replicate 30 True" "length (huf_code 0) = 13"
  by (simp_all add: huf_code_acc eval_code_acc eval_replicate huf_literal_def huf_literal_1_def
      huf_literal_2_def nth_append)

lemma huf_run_padding: "n < 30 \<Longrightarrow> \<exists>q. huf_run 0 (replicate n True) = Some ([], q)"
  by (rule huf_run_code_prefix [of 256 _ "replicate (30 - n) True"])
     (simp_all add: huf_eos flip: replicate_add)

section \<open>The test of the generator\<close>

lemma length_huf_code: "length (huf_code n) = snd (huf_literal ! n)"
  by (simp add: huf_code_def case_prod_unfold)

lemma huf_code_drop:
  assumes "m < snd (huf_literal ! n)"
  shows "drop m (huf_code n) = (code_bit n m \<noteq> 0) # drop (Suc m) (huf_code n)"
proof -
  have "m < length (huf_code n)" using assms by (simp add: length_huf_code)
  moreover have "huf_code n ! m = (code_bit n m \<noteq> 0)"
    using assms by (simp add: huf_code_def code_bit_def case_prod_unfold)
  ultimately show ?thesis by (subst Cons_nth_drop_Suc [symmetric]) simp_all
qed

lemma try_symbol_walk:
  assumes "stands k p t" "htree_lookup t (drop m (huf_code n)) = Some v"
  shows "try_symbol n p m =
     Some (Got (int (if v = 0 \<and> snd (huf_literal ! n) = 30 then v OR 0x100 else v)))"
  using assms
proof (induction "snd (huf_literal ! n) - m" arbitrary: m k p t)
  case 0
  then have "drop m (huf_code n) = []" by (simp add: length_huf_code)
  with 0 show ?case by (auto elim: stands_node)
next
  case (Suc i)
  then have m: "m < snd (huf_literal ! n)" "i = snd (huf_literal ! n) - Suc m" by simp_all
  define b where "b = (code_bit n m \<noteq> 0)"
  from stands_node [OF Suc.prems(1)] obtain l r where t: "t = HNode l r" by metis
  define u where "u = (if b then r else l)"
  have u: "child t b = Some u" "htree_lookup u (drop (Suc m) (huf_code n)) = Some v"
    using Suc.prems(2) huf_code_drop [OF m(1)] by (simp_all add: t u_def b_def)
  from huftable_decode_stands [OF Suc.prems(1) u(1)] show ?case
  proof
    assume "\<exists>w. u = HLeaf w \<and> w < 256 \<and> huftable_decode p b = Some (w OR 0x8000)"
    then obtain w where w: "u = HLeaf w" "w < 256" "huftable_decode p b = Some (w OR 0x8000)"
      by blast
    have "drop (Suc m) (huf_code n) = []" "w = v" using u(2) w(1) by (auto split: if_splits)
    then have "m = 29 \<longleftrightarrow> snd (huf_literal ! n) = 30"
      using m(1) by (auto simp: length_huf_code)
    with w(2,3) m(1) \<open>w = v\<close> show ?thesis
      by (simp add: try_symbol.simps [of n p m] terminal_bits Let_def flip: b_def)
  next
    assume "\<exists>k' p'. k = Suc k' \<and> huftable_decode p b = Some p' \<and> stands k' p' u \<and> p' < 512"
    then obtain k' p' where p': "huftable_decode p b = Some p'" "stands k' p' u" "p' < 512" by blast
    from Suc.hyps(1) [OF m(2) p'(2) u(2)] p'(1,3) m(1) show ?thesis
      by (simp add: try_symbol.simps [of n p m] small_bits flip: b_def)
  qed
qed

lemma symbol_cases:
  obtains "s < 256" "s mod 256 = s" | "s = 256" | "(257::nat) \<le> s"
  by (cases "s < 256"; cases "s = 256") auto

lemma huf_literal_lengths: "s < 256 \<Longrightarrow> s mod 256 = 0 \<Longrightarrow> snd (huf_literal ! s) = 13"
  "snd (huf_literal ! 256) = 30"
  by (simp_all add: huf_literal_def huf_literal_1_def huf_literal_2_def nth_append)

lemma try_symbol_found: "s < 257 \<Longrightarrow> try_symbol s 0 0 = Some (Got (int s))"
  using try_symbol_walk [OF huf_root_stands(1), of 0 s] huf_code_lookup [of s] huf_literal_lengths
  by (cases s rule: symbol_cases) auto

section \<open>The code\<close>

lemma lookup_words_finite: "finite {w. htree_lookup t w \<noteq> None}"
  "card {w. htree_lookup t w \<noteq> None} = htree_size t"
proof -
  have "finite {w. htree_lookup t w \<noteq> None} \<and> card {w. htree_lookup t w \<noteq> None} = htree_size t"
  proof (induction t)
    case (HLeaf v)
    have "{w. htree_lookup (HLeaf v) w \<noteq> None} = {[]}" by auto
    then show ?case by simp
  next
    case (HNode l r)
    have "{w. htree_lookup (HNode l r) w \<noteq> None} =
        (#) False ` {w. htree_lookup l w \<noteq> None} \<union> (#) True ` {w. htree_lookup r w \<noteq> None}"
    proof (rule set_eqI)
      fix w show "w \<in> {w. htree_lookup (HNode l r) w \<noteq> None} \<longleftrightarrow>
        w \<in> (#) False ` {w. htree_lookup l w \<noteq> None} \<union> (#) True ` {w. htree_lookup r w \<noteq> None}"
        by (cases w) auto
    qed
    moreover have "(#) False ` A \<inter> (#) True ` B = {}" for A B :: "bool list set" by auto
    ultimately show ?case using HNode by (simp add: card_Un_disjoint card_image)
  qed
  then show "finite {w. htree_lookup t w \<noteq> None}" "card {w. htree_lookup t w \<noteq> None} = htree_size t"
    by auto
qed

lemma huf_code_inj: "inj_on huf_code {..<257}"
proof (rule inj_onI)
  fix s s' assume a: "s \<in> {..<257}" "s' \<in> {..<257}" "huf_code s = huf_code s'"
  then have m: "s mod 256 = s' mod 256" using huf_code_lookup [of s] huf_code_lookup [of s'] by simp
  have "length (huf_code 0) \<noteq> length (huf_code 256)" by (simp add: huf_eos)
  with a m show "s = s'" by (cases s rule: symbol_cases; cases s' rule: symbol_cases) auto
qed

lemma lookup_is_code:
  assumes "htree_lookup huf_root w \<noteq> None" obtains s where "s < 257" "w = huf_code s"
proof -
  have "huf_code ` {..<257} = {w. htree_lookup huf_root w \<noteq> None}"
  proof (rule card_subset_eq [OF lookup_words_finite(1)])
    show "huf_code ` {..<257} \<subseteq> {w. htree_lookup huf_root w \<noteq> None}" using huf_code_lookup by auto
    show "card (huf_code ` {..<257}) = card {w. htree_lookup huf_root w \<noteq> None}"
      unfolding lookup_words_finite(2) using huf_root_stands(2) huf_code_inj
      by (simp add: card_image htree_covers_def)
  qed
  with assms that show ?thesis by blast
qed

lemma lookup_prefix_free:
  "htree_lookup t xs \<noteq> None \<Longrightarrow> htree_lookup t (xs @ ys) \<noteq> None \<Longrightarrow> ys = []"
  by (induction t xs rule: htree_lookup.induct) (auto split: if_splits)

lemma lookup_complete:
  "stands k p t \<Longrightarrow> k \<le> length bs \<Longrightarrow> \<exists>xs ys. bs = xs @ ys \<and> htree_lookup t xs \<noteq> None"
proof (induction k arbitrary: p t bs)
  case 0
  then show ?case by (auto elim: stands_node)
next
  case (Suc k)
  obtain b cs where bs: "bs = b # cs" using Suc.prems(2) by (cases bs) auto
  from stands_node [OF Suc.prems(1)] obtain l r where t: "t = HNode l r" by metis
  define u where "u = (if b then r else l)"
  have "child t b = Some u" by (simp add: t u_def)
  from huftable_decode_stands [OF Suc.prems(1) this]
  have "\<exists>xs ys. cs = xs @ ys \<and> htree_lookup u xs \<noteq> None"
    using Suc.IH [of _ u cs] Suc.prems(2) bs by fastforce
  then obtain xs ys where "cs = xs @ ys" "htree_lookup u xs \<noteq> None" by blast
  then show ?case using bs t u_def by (intro exI [of _ "b # xs"] exI [of _ ys]) simp
qed

text \<open>
  C31. Every symbol of the Huffman code is found by the table: the test loop of the generator, run
  on the table of the decoder, gives back each of the 257 symbols. The end of string is told by the
  number of bits that were read, as the loop of the generator does it, not by the place in the table.
\<close>

theorem huffman_table_selftest:
  "s < 257 \<Longrightarrow> try_symbol s 0 0 = Some (Got (int s))"
  by (rule try_symbol_found)

theorem huffman_table_selftest_witness: "try_symbol 256 0 0 = Some (Got 256)"
  using huffman_table_selftest [of 256] by simp

text \<open>
  The codes of the generator are a complete prefix code: any 30 bits or more start with the
  code of exactly one symbol.
\<close>

theorem huffman_code_complete:
  "30 \<le> length bs \<Longrightarrow> \<exists>!s. s < 257 \<and> prefix (huf_code s) bs"
proof -
  assume "30 \<le> length bs"
  then obtain xs ys where bs: "bs = xs @ ys" "htree_lookup huf_root xs \<noteq> None"
    using lookup_complete [OF huf_root_stands(1)] by blast
  obtain s where s: "s < 257" "xs = huf_code s" using lookup_is_code [OF bs(2)] by metis
  show ?thesis
  proof (rule ex1I)
    show "s < 257 \<and> prefix (huf_code s) bs" using s bs by simp
    fix s' assume a: "s' < 257 \<and> prefix (huf_code s') bs"
    then have "prefix (huf_code s') xs \<or> prefix xs (huf_code s')"
      using bs(1) by (metis prefixI prefix_same_cases)
    then have "huf_code s' = huf_code s"
      using a s bs(2) huf_code_lookup [of s'] lookup_prefix_free [of huf_root]
      by (auto simp: prefix_def) (metis append_Nil2 option.distinct(1))+
    with a s(1) huf_code_inj show "s' = s" by (auto dest: inj_onD)
  qed
qed

theorem huffman_code_complete_witness:
  "\<exists>!s. s < 257 \<and> prefix (huf_code s) (replicate 30 True)"
  using huffman_code_complete [of "replicate 30 True"] by simp

end
