(* ===== verification/Hpack.thy ===== *)
theory Hpack
  imports Headers Huftable
begin

text \<open>
  Header compression of HTTP/2, \<^verbatim>\<open>lib/hpack.c\<close>: the decoder \<open>lws_hpack_interpret\<close> that takes a header
  block one byte at a time and files the headers in the store of the stream's connection, and the
  functions that write a header block. The store and the parser that literal names go through are
  those of \<open>Headers\<close>, the Huffman table is that of \<open>Huftable\<close>. The results are that the strings are
  decoded to what was encoded and filed under the token of their index, that every accepted byte
  keeps the sizes of the state, and where the decoder and the encoder go wrong.
\<close>

section \<open>State\<close>

text \<open>
  The members of \<^verbatim>\<open>u.http2\<close> the decoder works on. \<open>hp_hdr\<close> holds the headers and the members of
  \<^verbatim>\<open>u.hdr\<close>, which is the same memory as the \<^verbatim>\<open>http\<close> member of \<^verbatim>\<open>u.http2\<close> and no other of its members.
  \<open>hpack_pos\<close> is an \<^verbatim>\<open>unsigned short\<close>, kept as a number below \<open>2 ^ 16\<close>.
\<close>

datatype http2_hpack_state = HPKS_OPT_PADDING | HKPS_OPT_E_DEPENDENCY | HKPS_OPT_WEIGHT
  | HPKS_TYPE | HPKS_IDX_EXT | HPKS_HLEN | HPKS_HLEN_EXT | HPKS_DATA | HKPS_OPT_DISCARD_PADDING

datatype http2_hpack_type = HPKT_INDEXED_HDR_7 | HPKT_INDEXED_HDR_6_VALUE_INCR
  | HPKT_LITERAL_HDR_VALUE_INCR | HPKT_INDEXED_HDR_4_VALUE | HPKT_LITERAL_HDR_VALUE | HPKT_SIZE_5

record hpack_wsi =
  hp_hdr :: hdr_wsi
  hpack :: http2_hpack_state
  hpack_type :: http2_hpack_type
  header_index :: u32
  hpack_len :: u32
  hpack_pos :: nat
  hpack_m :: byte
  hpack_e_dep :: u32
  huff :: bool
  hp_value :: bool
  h2_count :: u32
  h2_length :: u32
  h2_flags :: byte
  h2_padding :: byte

record hpack_dt_entry =
  dt_token :: int
  dt_arg_offset :: int
  dt_arg_len :: int

record hpack_dynamic_table =
  dyn_entries :: "hpack_dt_entry list"
  dyn_args :: "byte list"
  dyn_pos :: int
  dyn_next :: int
  num_entries :: int
  args_length :: int

text \<open>
  \<open>Hp_reject\<close> is a \<open>return 1\<close>, after which the connection is closed. \<open>Hp_overrun\<close> is an access outside
  an object, \<open>Hp_shift\<close> a shift by the width of its type or more; both are undefined in C.
\<close>

datatype hpack_error = Hp_reject | Hp_overrun | Hp_shift

fun hp_error :: "parse_error \<Rightarrow> hpack_error" where
  "hp_error Reject = Hp_reject"
| "hp_error Overrun = Hp_overrun"

text \<open>What the three calls of \<open>malloc\<close> for the dynamic table return.\<close>

record hpack_mem =
  mem_dyn :: bool
  mem_args :: "byte list option"
  mem_entries :: "hpack_dt_entry list option"

abbreviation (input) LWS_HTTP2_FLAG_PRIORITY :: byte where "LWS_HTTP2_FLAG_PRIORITY \<equiv> 0x20"
abbreviation (input) WSI_TOKEN_HTTP_COLON_STATUS :: nat where "WSI_TOKEN_HTTP_COLON_STATUS \<equiv> 39"

definition static_token :: "nat list" where
  "static_token = [
   0, 35, 36, 36, 37, 37, 38, 38, 39, 39, 39, 39, 39, 39, 39, 40, 21, 22, 41, 17, 42, 43,
   44, 25, 24, 45, 46, 47, 27, 48, 49, 28, 26, 29, 50, 51, 52, 53, 3, 54, 19, 20, 55, 56,
   57, 58, 59, 60, 61, 62, 30, 31, 63, 64, 65, 66, 67, 68, 69, 70, 71, 72]"

definition http2_canned :: "string list" where
  "http2_canned = ['''', '''', ''GET'', ''POST'', ''/'', ''/index.html'', ''http'', ''https'', ''200'',
     ''204'', ''206'', ''304'', ''400'', ''404'', ''500'', '''', ''gzip, deflate'']"

section \<open>Filing headers\<close>

definition lws_frag_start :: "allocated_headers \<Rightarrow> int \<Rightarrow> hpack_error + allocated_headers" where
  "lws_frag_start a tok =
     (if tok = 0 then Inl Hp_reject
      else if WSI_TOKEN_COUNT \<le> ah_next_frag_index a then Inl Hp_reject
      else if tok < 0 \<or> int WSI_TOKEN_COUNT \<le> tok then Inl Hp_overrun
      else Inr ((open_frag a)\<lparr>ah_frag_index :=
                   (ah_frag_index a)[nat tok := ah_next_frag_index a]\<rparr>))"

definition lws_frag_append :: "allocated_headers \<Rightarrow> byte \<Rightarrow> hpack_error + allocated_headers" where
  "lws_frag_append a c =
     (if LWS_MAX_HEADER_LEN \<le> ah_pos a \<or> FRAGS \<le> ah_next_frag_index a then Inl Hp_overrun
      else let a' = upd_cur_frag (\<lambda>f. f\<lparr>frag_len := frag_len f + 1\<rparr>) (put_data c a)
           in if LWS_MAX_HEADER_LEN \<le> ah_pos a' then Inl Hp_reject else Inr a')"

definition lws_frag_end :: "allocated_headers \<Rightarrow> hpack_error + allocated_headers" where
  "lws_frag_end a =
     (case lws_frag_append a 0 of
        Inl e \<Rightarrow> Inl e
      | Inr a' \<Rightarrow> Inr (a'\<lparr>ah_next_frag_index := ah_next_frag_index a' + 1\<rparr>))"

text \<open>
  \<open>lws_dump_header\<close> copies the header to a buffer of 200 bytes for the log and ends it at the length
  \<open>lws_hdr_copy\<close> returned, which is \<open>-1\<close> when the header is too long.
\<close>

definition lws_dump_header :: "allocated_headers \<Rightarrow> int \<Rightarrow> hpack_error + unit" where
  "lws_dump_header a hdr =
     (if hdr < 0 \<or> int WSI_TOKEN_COUNT \<le> hdr then Inl Hp_overrun
      else case lws_hdr_copy a (replicate 199 0) (nat hdr) of
             Inl e \<Rightarrow> Inl Hp_overrun
           | Inr (len, s) \<Rightarrow> Inr ())"

section \<open>The dynamic table\<close>

text \<open>
  The tokens of the indexes. The comparison with the size of the static table is unsigned, so a
  negative index goes on to the dynamic table. All callers pass \<open>NULL\<close> for \<open>arg\<close> and \<open>len\<close>.
\<close>

definition lws_token_from_index ::
    "hpack_dynamic_table option \<Rightarrow> int \<Rightarrow> hpack_error + int" where
  "lws_token_from_index dyn index =
     (if 0 \<le> index \<and> index < int (length static_token) then Inr (int (static_token ! nat index))
      else case dyn of
             None \<Rightarrow> Inr 0
           | Some d \<Rightarrow>
               let i = signed_take_bit 31 (index - int (length static_token))
               in if num_entries d \<le> i then Inr 0
                  else if i < 0 \<or> int (length (dyn_entries d)) \<le> i then Inl Hp_overrun
                  else Inr (dt_token (dyn_entries d ! nat i)))"

definition new_dyn_table :: "hpack_mem \<Rightarrow> hpack_error + hpack_dynamic_table" where
  "new_dyn_table mem =
     (if \<not> mem_dyn mem then Inl Hp_reject
      else case mem_args mem of
             None \<Rightarrow> Inl Hp_reject
           | Some args \<Rightarrow>
               (case mem_entries mem of
                  None \<Rightarrow> Inl Hp_reject
                | Some es \<Rightarrow> Inr \<lparr>dyn_entries = es, dyn_args = args, dyn_pos = 0, dyn_next = 0,
                                  num_entries = 20, args_length = 1024\<rparr>))"

definition add_dyn_entry :: "hpack_dynamic_table \<Rightarrow> int \<Rightarrow> byte list \<Rightarrow> hpack_error + hpack_dynamic_table" where
  "add_dyn_entry d token arg =
     (let n = nat (dyn_next d); p = nat (dyn_pos d); len = length arg
      in if dyn_next d = num_entries d then Inl Hp_reject
         else if args_length d - dyn_pos d < int len then Inl Hp_reject
         else if dyn_next d < 0 \<or> length (dyn_entries d) \<le> n \<or> length (dyn_args d) < p + len
           then Inl Hp_overrun
         else Inr (d\<lparr>dyn_entries := (dyn_entries d)
                       [n := \<lparr>dt_token = token, dt_arg_offset = dyn_pos d, dt_arg_len = int len\<rparr>],
                     dyn_args := take p (dyn_args d) @ arg @ drop (p + len) (dyn_args d),
                     dyn_pos := dyn_pos d + int len, dyn_next := dyn_next d + 1\<rparr>))"

definition lws_hpack_add_dynamic_header ::
    "hpack_mem \<Rightarrow> hpack_dynamic_table option \<Rightarrow> int \<Rightarrow> byte list \<Rightarrow>
       hpack_error + hpack_dynamic_table option" where
  "lws_hpack_add_dynamic_header mem dyn token arg =
     (case (case dyn of None \<Rightarrow> new_dyn_table mem | Some d \<Rightarrow> Inr d) of
        Inl e \<Rightarrow> Inl e
      | Inr d \<Rightarrow> (case add_dyn_entry d token arg of Inl e \<Rightarrow> Inl e | Inr d' \<Rightarrow> Inr (Some d')))"

fun frag_append_all :: "allocated_headers \<Rightarrow> byte list \<Rightarrow> hpack_error + allocated_headers" where
  "frag_append_all a [] = Inr a"
| "frag_append_all a (c # cs) =
     (case lws_frag_append a c of Inl e \<Rightarrow> Inl e | Inr a' \<Rightarrow> frag_append_all a' cs)"

definition canned_value :: "int \<Rightarrow> byte list" where
  "canned_value idx =
     (if 0 \<le> idx \<and> idx < int (length http2_canned) then bytes (http2_canned ! nat idx) else [])"

definition lws_write_indexed_hdr ::
    "hpack_dynamic_table option \<Rightarrow> allocated_headers \<Rightarrow> int \<Rightarrow> hpack_error + allocated_headers" where
  "lws_write_indexed_hdr dyn a idx =
     (case lws_token_from_index dyn idx of
        Inl e \<Rightarrow> Inl e
      | Inr tok \<Rightarrow>
          (case lws_frag_start a tok of
             Inl e \<Rightarrow> Inl e
           | Inr a1 \<Rightarrow>
               (case frag_append_all a1 (canned_value idx) of
                  Inl e \<Rightarrow> Inl e
                | Inr a2 \<Rightarrow>
                    (case lws_frag_end a2 of
                       Inl e \<Rightarrow> Inl e
                     | Inr a3 \<Rightarrow>
                         (case lws_dump_header a3 tok of Inl e \<Rightarrow> Inl e | Inr _ \<Rightarrow> Inr a3)))))"

section \<open>The decoder\<close>

text \<open>
  \<open>lws_hpack_update_table_size\<close> only writes to the log.
\<close>

definition lws_hpack_update_table_size :: "'a hpack_wsi_scheme \<Rightarrow> byte \<Rightarrow> 'a hpack_wsi_scheme" where
  "lws_hpack_update_table_size w idx = w"

definition upd_ah ::
    "'a hpack_wsi_scheme \<Rightarrow> hpack_error + allocated_headers \<Rightarrow> hpack_error + 'a hpack_wsi_scheme" where
  "upd_ah w r = (case r of Inl e \<Rightarrow> Inl e | Inr a \<Rightarrow> Inr (w\<lparr>hp_hdr := (hp_hdr w)\<lparr>hdr_ah := a\<rparr>\<rparr>))"

text \<open>A possibly extended integer starts: \<open>hpack_len\<close> takes the prefix bits.\<close>

definition idx_ext :: "'a hpack_wsi_scheme \<Rightarrow> byte \<Rightarrow> 'a hpack_wsi_scheme" where
  "idx_ext w n = w\<lparr>hpack_len := ucast n, hpack_m := 0, hpack := HPKS_IDX_EXT\<rparr>"

definition indexed_name :: "'a hpack_wsi_scheme \<Rightarrow> byte \<Rightarrow> 'a hpack_wsi_scheme" where
  "indexed_name w n = w\<lparr>header_index := ucast n, hp_value := True, hpack := HPKS_HLEN\<rparr>"

definition literal_name :: "'a hpack_wsi_scheme \<Rightarrow> http2_hpack_type \<Rightarrow> 'a hpack_wsi_scheme" where
  "literal_name w t = w\<lparr>hpack_type := t, hp_value := False, hpack := HPKS_HLEN\<rparr>"

definition hpks_type ::
    "hpack_dynamic_table option \<Rightarrow> 'a hpack_wsi_scheme \<Rightarrow> byte \<Rightarrow> hpack_error + 'a hpack_wsi_scheme" where
  "hpks_type dyn w c =
     (if c AND 0x80 \<noteq> 0 then
        let n = c AND 0x7f; w1 = w\<lparr>hpack_type := HPKT_INDEXED_HDR_7, header_index := ucast n\<rparr>
        in if n = 0x7f then Inr (idx_ext w1 n)
           else upd_ah w1 (lws_write_indexed_hdr dyn (hdr_ah (hp_hdr w1)) (uint n))
      else if c AND 0x40 \<noteq> 0 then
        let w1 = w\<lparr>header_index := 0\<rparr>; n = c AND 0x3f
        in if c = 0x40 then Inr (literal_name w1 HPKT_LITERAL_HDR_VALUE_INCR)
           else let w2 = w1\<lparr>hpack_type := HPKT_INDEXED_HDR_6_VALUE_INCR\<rparr>
                in Inr (if n = 0x3f then idx_ext w2 n else indexed_name w2 n)
      else if c AND 0xf0 = 0x10 \<or> c AND 0xf0 = 0 then
        let n = c AND 0xf
        in if c = 0 then Inr (literal_name w HPKT_LITERAL_HDR_VALUE)
           else let w1 = w\<lparr>hpack_type := HPKT_INDEXED_HDR_4_VALUE, header_index := 0\<rparr>
                in Inr (if n = 0xf then idx_ext w1 n else indexed_name w1 n)
      else
        let n = c AND 0x1f; w1 = w\<lparr>hpack_type := HPKT_SIZE_5\<rparr>
        in Inr (if n = 0x1f then idx_ext w1 n else lws_hpack_update_table_size w1 n))"

text \<open>
  One more byte of an extended integer: seven bits at \<open>hpack_m\<close>. A shift of an \<^verbatim>\<open>int\<close> by 32 or more is
  undefined; one that moves bits out at the top is taken to drop them.
\<close>

definition more_bits :: "'a hpack_wsi_scheme \<Rightarrow> byte \<Rightarrow> hpack_error + 'a hpack_wsi_scheme" where
  "more_bits w c =
     (if 32 \<le> hpack_m w then Inl Hp_shift
      else Inr (w\<lparr>hpack_len := hpack_len w + push_bit (unat (hpack_m w)) (ucast (c AND 0x7f)),
                  hpack_m := hpack_m w + 7\<rparr>))"

definition hpks_idx_ext ::
    "hpack_dynamic_table option \<Rightarrow> 'a hpack_wsi_scheme \<Rightarrow> byte \<Rightarrow> hpack_error + 'a hpack_wsi_scheme" where
  "hpks_idx_ext dyn w c =
     (case more_bits w c of
        Inl e \<Rightarrow> Inl e
      | Inr w1 \<Rightarrow>
          if c AND 0x80 \<noteq> 0 then Inr w1
          else if hpack_type w1 = HPKT_INDEXED_HDR_7 then
            upd_ah (w1\<lparr>hpack := HPKS_TYPE\<rparr>)
              (lws_write_indexed_hdr dyn (hdr_ah (hp_hdr w1)) (sint (hpack_len w1)))
          else Inr (w1\<lparr>header_index := hpack_len w1, hp_value := True, hpack := HPKS_HLEN\<rparr>))"

text \<open>The label \<open>pre_data\<close>.\<close>

definition pre_data ::
    "hpack_dynamic_table option \<Rightarrow> 'a hpack_wsi_scheme \<Rightarrow> hpack_error + 'a hpack_wsi_scheme" where
  "pre_data dyn w =
     (if hp_value w then
        (case lws_token_from_index dyn (sint (header_index w)) of
           Inl e \<Rightarrow> Inl e
         | Inr tok \<Rightarrow> upd_ah (w\<lparr>hpack := HPKS_DATA\<rparr>) (lws_frag_start (hdr_ah (hp_hdr w)) tok))
      else Inr (w\<lparr>hp_hdr := (hp_hdr w)\<lparr>parser_state := WSI_TOKEN_NAME_PART\<rparr>, hpack := HPKS_DATA\<rparr>))"

definition hpks_hlen ::
    "hpack_dynamic_table option \<Rightarrow> 'a hpack_wsi_scheme \<Rightarrow> byte \<Rightarrow> hpack_error + 'a hpack_wsi_scheme" where
  "hpks_hlen dyn w c =
     (let w1 = w\<lparr>huff := (c AND 0x80 \<noteq> 0), hpack_pos := 0, hpack_len := ucast (c AND 0x7f)\<rparr>
      in if hpack_len w1 < 0x7f then pre_data dyn w1
         else Inr (w1\<lparr>hpack_m := 0, hpack := HPKS_HLEN_EXT\<rparr>))"

definition hpks_hlen_ext ::
    "hpack_dynamic_table option \<Rightarrow> 'a hpack_wsi_scheme \<Rightarrow> byte \<Rightarrow> hpack_error + 'a hpack_wsi_scheme" where
  "hpks_hlen_ext dyn w c =
     (case more_bits w c of
        Inl e \<Rightarrow> Inl e
      | Inr w1 \<Rightarrow> if c AND 0x80 \<noteq> 0 then Inr w1 else pre_data dyn w1)"

text \<open>
  A decoded character of a name or a value. \<open>lws_parse\<close> in the state of names continues from
  \<open>lextable_pos\<close>, which is \<open>-1\<close> after a name that was not found.
\<close>

definition hpack_name_char :: "nat list option \<Rightarrow> hdr_wsi \<Rightarrow> byte \<Rightarrow> hpack_error + hdr_wsi" where
  "hpack_name_char limits h c =
     (if parser_state h = WSI_TOKEN_NAME_PART \<and> lextable_pos h < 0 then Inl Hp_overrun
      else case libwebsocket_parse limits h c of Inl e \<Rightarrow> Inl (hp_error e) | Inr h' \<Rightarrow> Inr h')"

definition hpack_char ::
    "nat list option \<Rightarrow> 'a hpack_wsi_scheme \<Rightarrow> byte \<Rightarrow> hpack_error + 'a hpack_wsi_scheme" where
  "hpack_char limits w c1 =
     (if hp_value w then upd_ah w (lws_frag_append (hdr_ah (hp_hdr w)) c1)
      else case hpack_name_char limits (hp_hdr w) c1 of
             Inl e \<Rightarrow> Inl e | Inr h \<Rightarrow> Inr (w\<lparr>hp_hdr := h\<rparr>))"

text \<open>
  The loop of \<open>HPKS_DATA\<close> over the bits of \<open>c\<close>, with \<open>n\<close> bits to go. The test for the end of string
  symbol has an empty body.
\<close>

fun hpack_bits ::
    "nat list option \<Rightarrow> nat \<Rightarrow> 'a hpack_wsi_scheme \<Rightarrow> byte \<Rightarrow> hpack_error + 'a hpack_wsi_scheme" where
  "hpack_bits limits 0 w c = Inr w"
| "hpack_bits limits (Suc n) w c =
     (case huftable_decode (hpack_pos w) (drop_bit 7 c AND 1 \<noteq> 0) of
        None \<Rightarrow> Inl Hp_overrun
      | Some r \<Rightarrow>
          let p = take_bit 16 r; c' = push_bit 1 c
          in if p = 0xffff then Inl Hp_reject
             else if \<not> bit p 15 then hpack_bits limits n (w\<lparr>hpack_pos := p\<rparr>) c'
             else (case hpack_char limits (w\<lparr>hpack_pos := 0\<rparr>) (of_nat (p AND 0x7fff)) of
                     Inl e \<Rightarrow> Inl e
                   | Inr w' \<Rightarrow> hpack_bits limits n w' c'))"

definition hpack_incr_type :: "http2_hpack_type \<Rightarrow> bool" where
  "hpack_incr_type t \<longleftrightarrow> t = HPKT_LITERAL_HDR_VALUE_INCR \<or> t = HPKT_INDEXED_HDR_6_VALUE_INCR"

text \<open>The end of a string: the dynamic table, then the value or the name.\<close>

definition string_add_dyn ::
    "hpack_mem \<Rightarrow> hpack_dynamic_table option \<Rightarrow> 'a hpack_wsi_scheme \<Rightarrow>
       hpack_error + hpack_dynamic_table option" where
  "string_add_dyn mem dyn w =
     (if hpack_incr_type (hpack_type w) then
        (case lws_token_from_index dyn (sint (header_index w)) of
           Inl e \<Rightarrow> Inl e
         | Inr tok \<Rightarrow> lws_hpack_add_dynamic_header mem dyn tok [])
      else Inr dyn)"

definition value_end ::
    "hpack_dynamic_table option \<Rightarrow> 'a hpack_wsi_scheme \<Rightarrow> hpack_error + 'a hpack_wsi_scheme" where
  "value_end dyn w =
     (case lws_frag_end (hdr_ah (hp_hdr w)) of
        Inl e \<Rightarrow> Inl e
      | Inr a \<Rightarrow>
          (case lws_token_from_index dyn (sint (header_index w)) of
             Inl e \<Rightarrow> Inl e
           | Inr tok \<Rightarrow>
               (case lws_dump_header a tok of
                  Inl e \<Rightarrow> Inl e
                | Inr _ \<Rightarrow>
                    upd_ah (w\<lparr>hpack := (if h2_count w + ucast (h2_padding w) = h2_length w
                                        then HKPS_OPT_DISCARD_PADDING else HPKS_TYPE)\<rparr>) (Inr a))))"

definition name_end :: "'a hpack_wsi_scheme \<Rightarrow> 'a hpack_wsi_scheme" where
  "name_end w =
     (if parser_state (hp_hdr w) < WSI_TOKEN_COUNT then w\<lparr>hp_value := True, hpack := HPKS_HLEN\<rparr>
      else w\<lparr>hpack := HPKS_HLEN\<rparr>)"

definition string_end ::
    "hpack_mem \<Rightarrow> hpack_dynamic_table option \<Rightarrow> 'a hpack_wsi_scheme \<Rightarrow>
       hpack_error + hpack_dynamic_table option \<times> 'a hpack_wsi_scheme" where
  "string_end mem dyn w =
     (case string_add_dyn mem dyn w of
        Inl e \<Rightarrow> Inl e
      | Inr dyn' \<Rightarrow>
          if hp_value w then (case value_end dyn' w of Inl e \<Rightarrow> Inl e | Inr w' \<Rightarrow> Inr (dyn', w'))
          else Inr (dyn', name_end w))"

definition hpks_data ::
    "hpack_mem \<Rightarrow> nat list option \<Rightarrow> hpack_dynamic_table option \<Rightarrow> 'a hpack_wsi_scheme \<Rightarrow> byte \<Rightarrow>
       hpack_error + hpack_dynamic_table option \<times> 'a hpack_wsi_scheme" where
  "hpks_data mem limits dyn w c =
     (case (if huff w then hpack_bits limits 8 w c else hpack_char limits w c) of
        Inl e \<Rightarrow> Inl e
      | Inr w1 \<Rightarrow>
          let w2 = w1\<lparr>hpack_len := hpack_len w1 - 1\<rparr>
          in if hpack_len w2 = 0 then string_end mem dyn w2 else Inr (dyn, w2))"

text \<open>
  \<open>lws_hpack_interpret\<close>. The dynamic table belongs to the network connection and is passed beside
  the connection of the stream.
\<close>

definition with_dyn ::
    "hpack_dynamic_table option \<Rightarrow> hpack_error + 'a hpack_wsi_scheme \<Rightarrow>
       hpack_error + hpack_dynamic_table option \<times> 'a hpack_wsi_scheme" where
  "with_dyn dyn r = (case r of Inl e \<Rightarrow> Inl e | Inr w \<Rightarrow> Inr (dyn, w))"

definition lws_hpack_interpret ::
    "hpack_mem \<Rightarrow> nat list option \<Rightarrow> hpack_dynamic_table option \<times> 'a hpack_wsi_scheme \<Rightarrow> byte \<Rightarrow>
       hpack_error + hpack_dynamic_table option \<times> 'a hpack_wsi_scheme" where
  "lws_hpack_interpret mem limits s c =
     (case s of (dyn, w) \<Rightarrow>
       (case hpack w of
          HPKS_OPT_PADDING \<Rightarrow>
            let w1 = w\<lparr>h2_padding := c\<rparr>
            in Inr (dyn, if h2_flags w1 AND LWS_HTTP2_FLAG_PRIORITY \<noteq> 0
                         then w1\<lparr>hpack := HKPS_OPT_E_DEPENDENCY, hpack_m := 4\<rparr>
                         else w1\<lparr>hpack := HPKS_TYPE\<rparr>)
        | HKPS_OPT_E_DEPENDENCY \<Rightarrow>
            let w1 = w\<lparr>hpack_e_dep := push_bit 8 (hpack_e_dep w) OR ucast c, hpack_m := hpack_m w - 1\<rparr>
            in Inr (dyn, if hpack_m w1 = 0 then w1\<lparr>hpack := HKPS_OPT_WEIGHT\<rparr> else w1)
        | HKPS_OPT_WEIGHT \<Rightarrow> Inr (dyn, w\<lparr>hpack := HPKS_TYPE\<rparr>)
        | HPKS_TYPE \<Rightarrow> with_dyn dyn (hpks_type dyn w c)
        | HPKS_IDX_EXT \<Rightarrow> with_dyn dyn (hpks_idx_ext dyn w c)
        | HPKS_HLEN \<Rightarrow> with_dyn dyn (hpks_hlen dyn w c)
        | HPKS_HLEN_EXT \<Rightarrow> with_dyn dyn (hpks_hlen_ext dyn w c)
        | HPKS_DATA \<Rightarrow> hpks_data mem limits dyn w c
        | HKPS_OPT_DISCARD_PADDING \<Rightarrow>
            let w1 = w\<lparr>h2_padding := h2_padding w - 1\<rparr>
            in Inr (dyn, if h2_padding w1 = 0 then w1\<lparr>hpack := HPKS_TYPE\<rparr> else w1)))"

section \<open>Writing a header block\<close>

text \<open>
  The output is the caller's memory \<open>buf\<close> with the place \<open>p\<close> of the pointer in it and that of
  \<^verbatim>\<open>end\<close>. \<open>put_byte\<close> and \<open>put_bytes\<close> store at \<open>p\<close> and advance it.
\<close>

definition put_byte :: "nat \<times> byte list \<Rightarrow> (byte \<Rightarrow> byte) \<Rightarrow> hpack_error + nat \<times> byte list" where
  "put_byte s f = (case s of (p, buf) \<Rightarrow>
     if p < length buf then Inr (p + 1, buf[p := f (buf ! p)]) else Inl Hp_overrun)"

definition put_bytes :: "nat \<times> byte list \<Rightarrow> byte list \<Rightarrow> hpack_error + nat \<times> byte list" where
  "put_bytes s xs = (case s of (p, buf) \<Rightarrow>
     if p + length xs \<le> length buf
     then Inr (p + length xs, take p buf @ xs @ drop (p + length xs) buf) else Inl Hp_overrun)"

definition in_room :: "nat \<Rightarrow> hpack_error + nat \<times> byte list \<Rightarrow> hpack_error + nat \<times> byte list" where
  "in_room e r = (case r of Inl x \<Rightarrow> Inl x | Inr (p, buf) \<Rightarrow>
     if e \<le> p then Inl Hp_reject else Inr (p, buf))"

function http2_num_loop :: "nat \<Rightarrow> nat \<Rightarrow> nat \<times> byte list \<Rightarrow> hpack_error + nat \<times> byte list" where
  "http2_num_loop e num s =
     (if 128 \<le> num then
        (case in_room e (put_byte s (\<lambda>_. 0x80 OR of_nat (num AND 0x7f))) of
           Inl x \<Rightarrow> Inl x | Inr s' \<Rightarrow> http2_num_loop e (drop_bit 7 num) s')
      else Inr s)"
  by pat_completeness auto
termination by (relation "measure (\<lambda>(e, num, s). num)") (auto simp: drop_bit_eq_div)

declare http2_num_loop.simps [simp del]

definition lws_http2_num ::
    "nat \<Rightarrow> nat \<Rightarrow> nat \<times> byte list \<Rightarrow> nat \<Rightarrow> hpack_error + nat \<times> byte list" where
  "lws_http2_num starting_bits num s e =
     (let mask = push_bit starting_bits 1 - 1
      in if num < mask then in_room e (put_byte s (\<lambda>b. b OR of_nat num))
         else case in_room e (put_byte s (\<lambda>b. b OR of_nat mask)) of
                Inl x \<Rightarrow> Inl x
              | Inr s1 \<Rightarrow> http2_num_loop e (num - mask) s1)"

text \<open>\<open>**p = 0\<close> and the number behind it, then \<open>memcpy\<close>.\<close>

definition put_string :: "byte list \<Rightarrow> nat \<times> byte list \<Rightarrow> nat \<Rightarrow> hpack_error + nat \<times> byte list" where
  "put_string xs s e = (case s of (p, buf) \<Rightarrow>
     if length buf \<le> p then Inl Hp_overrun
     else case lws_http2_num 7 (length xs) (p, buf[p := 0]) e of
            Inl x \<Rightarrow> Inl x | Inr s1 \<Rightarrow> put_bytes s1 xs)"

definition strip_colon :: "byte list \<Rightarrow> byte list" where
  "strip_colon name = (if name \<noteq> [] \<and> last name = 0x3a then butlast name else name)"

definition lws_add_http2_header_by_name ::
    "byte list \<Rightarrow> byte list \<Rightarrow> nat \<times> byte list \<Rightarrow> nat \<Rightarrow> hpack_error + nat \<times> byte list" where
  "lws_add_http2_header_by_name name val s e =
     (let n = strip_colon name
      in if int e - int (fst s) < int (length n + length val + 8) then Inl Hp_reject
         else case put_byte s (\<lambda>_. 0) of
                Inl x \<Rightarrow> Inl x
              | Inr s1 \<Rightarrow>
                  (case put_string n s1 e of
                     Inl x \<Rightarrow> Inl x | Inr s2 \<Rightarrow> put_string val s2 e))"

definition lws_token_to_string :: "nat \<Rightarrow> byte list option" where
  "lws_token_to_string token =
     (if length lex_strings \<le> token then None else Some (bytes (lex_strings ! token)))"

definition lws_add_http2_header_by_token ::
    "nat \<Rightarrow> byte list \<Rightarrow> nat \<times> byte list \<Rightarrow> nat \<Rightarrow> hpack_error + nat \<times> byte list" where
  "lws_add_http2_header_by_token token val s e =
     (case lws_token_to_string token of
        None \<Rightarrow> Inl Hp_reject
      | Some name \<Rightarrow> lws_add_http2_header_by_name name val s e)"

text \<open>The decimal digits of \<^verbatim>\<open>%u\<close>.\<close>

fun decimal :: "nat \<Rightarrow> byte list" where
  "decimal n = (if n < 10 then [] else decimal (n div 10)) @ [of_nat (0x30 + n mod 10)]"

declare decimal.simps [simp del]

text \<open>The result and the new \<open>send_END_STREAM\<close>.\<close>

definition lws_add_http2_header_status ::
    "u32 \<Rightarrow> nat \<times> byte list \<Rightarrow> nat \<Rightarrow> (hpack_error + nat \<times> byte list) \<times> bool" where
  "lws_add_http2_header_status code s e =
     (lws_add_http2_header_by_token WSI_TOKEN_HTTP_COLON_STATUS (decimal (unat code)) s e, 400 \<le> code)"

section \<open>Strings\<close>

text \<open>
  Appending a whole string to the current fragment, when it fits: the data, the place and the
  length of the fragment move by as many bytes.
\<close>

definition appended :: "allocated_headers \<Rightarrow> byte list \<Rightarrow> allocated_headers" where
  "appended a us =
     a\<lparr>ah_data := take (ah_pos a) (ah_data a) @ us @ drop (ah_pos a + length us) (ah_data a),
       ah_pos := ah_pos a + length us,
       ah_frags := (ah_frags a)[ah_next_frag_index a :=
                      (cur_frag a)\<lparr>frag_len := frag_len (cur_frag a) + length us\<rparr>]\<rparr>"

definition ah_sized :: "allocated_headers \<Rightarrow> bool" where
  "ah_sized a \<longleftrightarrow> length (ah_frag_index a) = WSI_TOKEN_COUNT \<and> length (ah_frags a) = FRAGS \<and>
     length (ah_data a) = LWS_MAX_HEADER_LEN \<and> ah_pos a \<le> LWS_MAX_HEADER_LEN"

lemma appended_simps [simp]:
  "ah_pos (appended a us) = ah_pos a + length us"
  "ah_next_frag_index (appended a us) = ah_next_frag_index a"
  "ah_frag_index (appended a us) = ah_frag_index a"
  by (simp_all add: appended_def)

lemma appended_Nil: "appended a [] = a"
  by (simp add: appended_def)

lemma ah_sized_appended: "ah_sized a \<Longrightarrow> ah_pos a + length us \<le> 1024 \<Longrightarrow> ah_sized (appended a us)"
  by (simp add: ah_sized_def appended_def)

lemma appended_Cons:
  assumes "ah_sized a" "ah_next_frag_index a < 158" "ah_pos a + 1 + length us \<le> 1024"
  shows "appended (appended a [c]) us = appended a (c # us)"
  using assms by (simp add: appended_def ah_sized_def min_absorb2 add.commute)

lemma lws_frag_append_eq:
  assumes "ah_sized a" "ah_next_frag_index a < 158" "ah_pos a < 1024"
  shows "lws_frag_append a c = (if ah_pos a = 1023 then Inl Hp_reject else Inr (appended a [c]))"
proof -
  have "upd_cur_frag (\<lambda>f. f\<lparr>frag_len := frag_len f + 1\<rparr>) (put_data c a) = appended a [c]"
    using assms by (simp add: upd_cur_frag_def put_data_def appended_def ah_sized_def
        upd_conv_take_nth_drop)
  with assms show ?thesis by (simp add: lws_frag_append_def Let_def)
qed

lemma frag_append_all_eq:
  "ah_sized a \<Longrightarrow> ah_next_frag_index a < 158 \<Longrightarrow> ah_pos a + length us < 1024 \<Longrightarrow>
     frag_append_all a us = Inr (appended a us)"
proof (induction us arbitrary: a)
  case (Cons c us)
  have "ah_sized (appended a [c])" using Cons.prems by (simp add: ah_sized_appended)
  with Cons show ?case by (simp add: lws_frag_append_eq appended_Cons)
qed (simp add: appended_Nil)

lemma frag_append_all_append:
  "frag_append_all a (us @ vs) =
     (case frag_append_all a us of Inl e \<Rightarrow> Inl e | Inr a' \<Rightarrow> frag_append_all a' vs)"
  by (induction a us rule: frag_append_all.induct) (simp_all split: sum.split)

subsection \<open>The bits of a byte\<close>

definition low_bits :: "nat \<Rightarrow> byte \<Rightarrow> bool list" where
  "low_bits n c = map (\<lambda>i. bit c (7 - i)) [0..<n]"

lemma low_bits_Suc:
  assumes "n < 8"
  shows "low_bits (Suc n) c = (drop_bit 7 c AND 1 \<noteq> 0) # low_bits n (push_bit 1 c)"
proof -
  have "(drop_bit 7 c AND 1 \<noteq> 0) = bit c 7"
    by (simp add: and_one_eq bit_iff_odd_drop_bit mod2_eq_if)
  moreover have "map (\<lambda>i. bit c (7 - i)) [1..<Suc n] = map (\<lambda>i. bit c (7 - Suc i)) [0..<n]"
    by (simp only: One_nat_def map_Suc_upt [symmetric] list.map_comp comp_def)
  moreover have "bit (push_bit 1 c) (7 - i) = bit c (7 - Suc i)" if "i < n" for i
    using that assms unfolding bit_push_bit_iff by auto
  moreover have "[0..<Suc n] = 0 # [1..<Suc n]" by (simp add: upt_conv_Cons del: upt_Suc)
  ultimately show ?thesis unfolding low_bits_def by (simp del: upt_Suc push_bit_Suc)
qed

lemma upd_ah_upd_ah [simp]:
  "upd_ah w (Inl e) = Inl e"
  "upd_ah (w\<lparr>hpack_pos := p\<rparr>) r = (case upd_ah w r of Inl e \<Rightarrow> Inl e | Inr w' \<Rightarrow> Inr (w'\<lparr>hpack_pos := p\<rparr>))"
  by (simp_all add: upd_ah_def split: sum.split)

lemma hpack_bits_value:
  assumes "hp_value w" "huf_pos_ok (hpack_pos w)" "n \<le> 8"
    "huf_run (hpack_pos w) (low_bits n c) = Some (us, q)"
  shows "hpack_bits limits n w c =
    upd_ah (w\<lparr>hpack_pos := q\<rparr>) (frag_append_all (hdr_ah (hp_hdr w)) (map of_nat us))"
  using assms
proof (induction n arbitrary: w c us)
  case 0
  then show ?case by (simp add: low_bits_def upd_ah_def)
next
  case (Suc n)
  define b where "b = (drop_bit 7 c AND 1 \<noteq> 0)"
  have bits: "low_bits (Suc n) c = b # low_bits n (push_bit 1 c)"
    using Suc.prems(3) by (simp add: low_bits_Suc b_def)
  from Suc.prems(2) show ?case
  proof (cases rule: huftable_decode_ok [where b = b])
    case (leaf v)
    then obtain us' where us: "us = v # us'" "huf_run 0 (low_bits n (push_bit 1 c)) = Some (us', q)"
      using Suc.prems(4) by (auto simp: bits terminal_bits split: option.splits)
    have t: "take_bit 16 v = v" using leaf(1) by (simp add: take_bit_nat_eq_self)
    show ?thesis
    proof (cases "lws_frag_append (hdr_ah (hp_hdr w)) (of_nat v)")
      case (Inl e)
      then show ?thesis
        using leaf us(1) Suc.prems(1) by (simp add: t Let_def terminal_bits hpack_char_def flip: b_def)
    next
      case (Inr a)
      let ?w = "w\<lparr>hpack_pos := 0, hp_hdr := (hp_hdr w)\<lparr>hdr_ah := a\<rparr>\<rparr>"
      have "hpack_bits limits n ?w (push_bit 1 c) =
          upd_ah (?w\<lparr>hpack_pos := q\<rparr>) (frag_append_all (hdr_ah (hp_hdr ?w)) (map of_nat us'))"
        using Suc.prems us(2) by (intro Suc.IH) (simp_all add: huf_pos_ok_0)
      with Inr show ?thesis
        using leaf us(1) Suc.prems(1)
        by (simp add: t Let_def terminal_bits hpack_char_def upd_ah_def split: sum.split
            flip: b_def)
    qed
  next
    case (jump p')
    have p': "p' < 512" using jump(2) by (rule huf_pos_ok_less)
    then have t: "take_bit 16 p' = p'" by (simp add: take_bit_nat_eq_self_iff)
    have "huf_run p' (low_bits n (push_bit 1 c)) = Some (us, q)"
      using Suc.prems(4) jump(1) p' by (simp add: bits small_bits)
    then have "hpack_bits limits n (w\<lparr>hpack_pos := p'\<rparr>) (push_bit 1 c) =
        upd_ah (w\<lparr>hpack_pos := q\<rparr>) (frag_append_all (hdr_ah (hp_hdr w)) (map of_nat us))"
      using Suc.IH [of "w\<lparr>hpack_pos := p'\<rparr>" "push_bit 1 c" us] Suc.prems(1,3) jump(2)
      by simp
    with jump(1) p' show ?thesis by (simp add: t Let_def small_bits flip: b_def)
  qed
qed

subsection \<open>A string in the header block\<close>

text \<open>The characters a string of the header block stands for, and the position of the decoder after it.\<close>

definition hp_decodes :: "bool \<Rightarrow> nat \<Rightarrow> byte list \<Rightarrow> byte list \<Rightarrow> nat \<Rightarrow> bool" where
  "hp_decodes h p cs us q \<longleftrightarrow>
     (if h then huf_pos_ok p \<and>
        (\<exists>ns. huf_run p (concat (map (low_bits 8) cs)) = Some (ns, q) \<and> us = map of_nat ns)
      else us = cs \<and> q = p)"

lemma hp_decodes_Cons:
  assumes "hp_decodes h p (c # cs) us q"
  obtains us1 us2 p1 where "us = us1 @ us2" "hp_decodes h p [c] us1 p1" "hp_decodes h p1 cs us2 q"
proof (cases h)
  case True
  then obtain ns where ns: "huf_pos_ok p" "us = map of_nat ns"
      "huf_run p (low_bits 8 c @ concat (map (low_bits 8) cs)) = Some (ns, q)"
    using assms by (auto simp: hp_decodes_def)
  then obtain ns1 p1 ns2 where "huf_run p (low_bits 8 c) = Some (ns1, p1)" "ns = ns1 @ ns2"
      "huf_run p1 (concat (map (low_bits 8) cs)) = Some (ns2, q)"
    by (auto simp: huf_run_append split: option.splits)
  moreover from this(1) have "huf_pos_ok p1" using huf_run_total [OF ns(1), of "low_bits 8 c"] by auto
  ultimately show ?thesis
    using ns True by (intro that [of "map of_nat ns1" "map of_nat ns2" p1]) (auto simp: hp_decodes_def)
next
  case False
  then show ?thesis using assms by (intro that [of "[c]" cs p]) (auto simp: hp_decodes_def)
qed

lemma data_step:
  assumes "hpack w = HPKS_DATA" "hp_value w" "hp_decodes (huff w) (hpack_pos w) [c] us q"
    "frag_append_all (hdr_ah (hp_hdr w)) us = Inr a"
  shows "lws_hpack_interpret mem limits (dyn, w) c =
    (let w' = w\<lparr>hp_hdr := (hp_hdr w)\<lparr>hdr_ah := a\<rparr>, hpack_pos := q, hpack_len := hpack_len w - 1\<rparr>
     in if hpack_len w' = 0 then string_end mem dyn w' else Inr (dyn, w'))"
proof (cases "huff w")
  case True
  then have "hpack_bits limits 8 w c = Inr (w\<lparr>hp_hdr := (hp_hdr w)\<lparr>hdr_ah := a\<rparr>, hpack_pos := q\<rparr>)"
    using assms hpack_bits_value [of w 8 c _ q limits]
    by (auto simp: hp_decodes_def upd_ah_def)
  with True assms(1) show ?thesis by (simp add: lws_hpack_interpret_def hpks_data_def Let_def)
next
  case False
  with assms have "lws_frag_append (hdr_ah (hp_hdr w)) c = Inr a" "q = hpack_pos w"
    by (auto simp: hp_decodes_def split: sum.splits)
  with False assms(1,2) show ?thesis
    by (simp add: lws_hpack_interpret_def hpks_data_def Let_def hpack_char_def upd_ah_def)
qed

lemma unat_pred: "unat n = Suc k \<Longrightarrow> unat (n - 1 :: u32) = k"
  by (metis unat_minus_one diff_Suc_1 unat_0 old.nat.distinct(2))

lemma data_run:
  assumes "hpack w = HPKS_DATA" "hp_value w" "cs \<noteq> []" "unat (hpack_len w) = length cs"
    "hp_decodes (huff w) (hpack_pos w) cs us q" "frag_append_all (hdr_ah (hp_hdr w)) us = Inr a"
  shows "run_bytes (lws_hpack_interpret mem limits) (dyn, w) cs =
    string_end mem dyn (w\<lparr>hp_hdr := (hp_hdr w)\<lparr>hdr_ah := a\<rparr>, hpack_pos := q, hpack_len := 0\<rparr>)"
  using assms
proof (induction cs arbitrary: w us)
  case (Cons c cs)
  obtain us1 us2 p1 where u: "us = us1 @ us2" "hp_decodes (huff w) (hpack_pos w) [c] us1 p1"
      "hp_decodes (huff w) p1 cs us2 q"
    using Cons.prems(5) by (rule hp_decodes_Cons)
  obtain a1 where a1: "frag_append_all (hdr_ah (hp_hdr w)) us1 = Inr a1" "frag_append_all a1 us2 = Inr a"
    using Cons.prems(6) by (auto simp: u(1) frag_append_all_append split: sum.splits)
  define w1 where "w1 = w\<lparr>hp_hdr := (hp_hdr w)\<lparr>hdr_ah := a1\<rparr>, hpack_pos := p1,
                          hpack_len := hpack_len w - 1\<rparr>"
  have step: "lws_hpack_interpret mem limits (dyn, w) c =
      (if hpack_len w1 = 0 then string_end mem dyn w1 else Inr (dyn, w1))"
    using data_step [OF Cons.prems(1,2) u(2) a1(1)] by (simp add: Let_def w1_def)
  have len: "unat (hpack_len w1) = length cs"
    using Cons.prems(4) by (simp add: w1_def unat_pred)
  show ?case
  proof (cases "cs = []")
    case True
    then have "us2 = []" "q = p1" using u(3) by (auto simp: hp_decodes_def split: if_splits)
    with True len a1 step show ?thesis by (auto simp: w1_def unat_eq_0 split: sum.split)
  next
    case False
    then have "hpack_len w1 \<noteq> 0" using len by auto
    with step Cons.IH [of w1 us2] False len a1 u(3) Cons.prems(1,2) show ?thesis
      by (simp add: w1_def)
  qed
qed simp

section \<open>A filed header\<close>

text \<open>The store with the value \<open>v\<close> filed under a token, as a fragment of its own.\<close>

definition filed :: "allocated_headers \<Rightarrow> nat \<Rightarrow> byte list \<Rightarrow> allocated_headers" where
  "filed a tok v =
     (appended ((open_frag a)\<lparr>ah_frag_index := (ah_frag_index a)[tok := ah_next_frag_index a]\<rparr>) (v @ [0]))
       \<lparr>ah_next_frag_index := ah_next_frag_index a + 1\<rparr>"

lemma open_frag_simps [simp]:
  "ah_pos (open_frag a) = ah_pos a" "ah_next_frag_index (open_frag a) = ah_next_frag_index a"
  "ah_data (open_frag a) = ah_data a" "ah_frag_index (open_frag a) = ah_frag_index a"
  "length (ah_frags (open_frag a)) = length (ah_frags a)"
  by (simp_all add: open_frag_def upd_cur_frag_def)

lemma filed_frag:
  assumes "ah_sized a" "ah_next_frag_index a < 79"
  shows "ah_frags (filed a tok v) ! ah_next_frag_index a =
     \<lparr>frag_offset = ah_pos a, frag_len = length v + 1, next_frag = 0\<rparr>"
    "length (ah_frags (filed a tok v)) = 158"
  using assms by (simp_all add: filed_def appended_def ah_sized_def open_frag_def upd_cur_frag_def)

lemma filed_simps [simp]:
  "ah_frag_index (filed a tok v) = (ah_frag_index a)[tok := ah_next_frag_index a]"
  "ah_pos (filed a tok v) = ah_pos a + length v + 1"
  "ah_next_frag_index (filed a tok v) = ah_next_frag_index a + 1"
  by (simp_all add: filed_def)

lemma ah_sized_filed: "ah_sized a \<Longrightarrow> ah_pos a + length v < 1024 \<Longrightarrow> ah_sized (filed a tok v)"
  by (simp add: filed_def ah_sized_def appended_def)

lemma filed_string:
  assumes "ah_sized a" "ah_pos a + length v < 1024"
  shows "c_string (ah_data (filed a tok v)) (ah_pos a) = Some (takeWhile (\<lambda>b. b \<noteq> 0) v)"
proof -
  have "takeWhile (\<lambda>b. b \<noteq> 0) (v @ 0 # r) = takeWhile (\<lambda>b. b \<noteq> 0) v" for r
    by (induction v) simp_all
  with assms show ?thesis by (simp add: filed_def appended_def c_string_def ah_sized_def)
qed

lemma frag_chain_single:
  assumes "n < length fs" "next_frag (fs ! n) = 0"
  shows "frag_chain 158 fs n = Some [n]"
  using assms by (simp add: numeral_eq_Suc)

lemma filed_length:
  assumes "ah_sized a" "0 < ah_next_frag_index a" "ah_next_frag_index a < 79" "tok < 79"
  shows "lws_hdr_total_length (filed a tok v) tok = Some (length v + 1)"
    "lws_hdr_simple_ptr (filed a tok v) tok = Some (ah_pos a)"
    "frag_chain 158 (ah_frags (filed a tok v)) (ah_next_frag_index a) = Some [ah_next_frag_index a]"
  using assms filed_frag [OF assms(1,3), of tok v]
  by (simp_all add: lws_hdr_total_length_def lws_hdr_simple_ptr_def ah_sized_def frag_chain_single)

lemma length_takeWhile: "length (takeWhile P xs) \<le> length xs"
  by (rule length_takeWhile_le)

lemma filed_dump:
  assumes "ah_sized a" "ah_next_frag_index a < 79" "tok < 79" "ah_pos a + length v < 1024"
    "ah_next_frag_index a = 0 \<or> length v + 1 < 199"
  shows "lws_dump_header (filed a tok v) (int tok) = Inr ()"
proof (cases "ah_next_frag_index a = 0")
  case True
  then show ?thesis
    using assms by (simp add: lws_dump_header_def lws_hdr_copy_def lws_hdr_total_length_def ah_sized_def)
next
  case False
  have len: "length (ah_frag_index a) = 79" using assms(1) by (simp add: ah_sized_def)
  have "\<exists>d. hdr_copy_loop (filed a tok v) [ah_next_frag_index a] (replicate 199 0) 0 = Some d"
    using assms False length_takeWhile_le [of "\<lambda>b. b \<noteq> 0" v]
    by (auto simp: filed_frag filed_string strcpy_def)
  then obtain d where
      "hdr_copy_loop (filed a tok v) [ah_next_frag_index a] (replicate 199 0) 0 = Some d" ..
  then show ?thesis
    using assms False len filed_length [of a tok v]
    by (simp add: lws_dump_header_def lws_hdr_copy_def del: hdr_copy_loop.simps)
qed

lemma frag_start_append_end:
  assumes "ah_sized a" "ah_next_frag_index a < 79" "0 < tok" "tok < 79" "ah_pos a + length v + 1 < 1024"
  obtains a1 where "lws_frag_start a (int tok) = Inr a1"
    "frag_append_all a1 v = Inr (appended a1 v)"
    "lws_frag_end (appended a1 v) = Inr (filed a tok v)"
proof -
  let ?a1 = "(open_frag a)\<lparr>ah_frag_index := (ah_frag_index a)[tok := ah_next_frag_index a]\<rparr>"
  have s: "ah_sized ?a1" using assms(1) by (simp add: ah_sized_def)
  have s2: "ah_sized (appended ?a1 v)" using s assms(5) by (simp add: ah_sized_appended)
  have "lws_frag_start a (int tok) = Inr ?a1" using assms by (simp add: lws_frag_start_def)
  moreover have "frag_append_all ?a1 v = Inr (appended ?a1 v)"
    using s assms by (intro frag_append_all_eq) simp_all
  moreover have "appended (appended ?a1 v) [0] = appended ?a1 (v @ [0])"
    using s assms(2,5) by (simp add: appended_def ah_sized_def min_absorb2 add.commute)
  then have "lws_frag_end (appended ?a1 v) = Inr (filed a tok v)"
    using s2 assms(2,5) by (simp add: lws_frag_end_def lws_frag_append_eq filed_def)
  ultimately show ?thesis by (rule that)
qed

section \<open>Integers\<close>

text \<open>
  The integers of RFC 7541, section 5.1, in a prefix with the given mask and the bits \<open>hi\<close> above it.
\<close>

fun int_ext :: "nat \<Rightarrow> byte list" where
  "int_ext n = (if n < 128 then [of_nat n] else of_nat (128 + n mod 128) # int_ext (n div 128))"

declare int_ext.simps [simp del]

definition hpack_int :: "byte \<Rightarrow> nat \<Rightarrow> nat \<Rightarrow> byte list" where
  "hpack_int hi msk n =
     (if n < msk then [hi OR of_nat n] else (hi OR of_nat msk) # int_ext (n - msk))"

lemma byte_and_7f: "(of_nat n :: byte) AND 0x7f = of_nat (n mod 128)"
proof -
  have "(0x7f::byte) = mask 7" by (simp add: mask_eq_exp_minus_1)
  then show ?thesis
    by (simp only: take_bit_eq_mask [symmetric] take_bit_of_nat) (simp add: take_bit_eq_mod)
qed

lemma byte_bit7: "(c::byte) AND 0x80 = 0 \<longleftrightarrow> \<not> bit c 7"
  using and_exp_eq_0_iff_not_bit [of c 7] by simp

lemma bit_of_nat_byte: "bit (of_nat n :: byte) k \<longleftrightarrow> k < 8 \<and> bit n k"
  by (simp add: bit_of_nat_iff)

lemma byte_and_80: "(of_nat n :: byte) AND 0x80 = 0 \<longleftrightarrow> even (n div 128)"
  unfolding byte_bit7 bit_of_nat_byte by (simp add: bit_iff_odd)

lemma more_bits_step:
  assumes "unat (hpack_m w) = m" "m < 32"
  shows "more_bits w (of_nat n) =
    Inr (w\<lparr>hpack_len := hpack_len w + of_nat ((n mod 128) * 2 ^ m), hpack_m := of_nat (m + 7)\<rparr>)"
proof -
  have "hpack_m w = of_nat m" by (simp flip: assms(1))
  moreover have "\<not> (32::byte) \<le> of_nat m"
    using assms by (simp add: word_le_nat_alt unat_of_nat)
  moreover have "(ucast (of_nat (n mod 128) :: byte) :: u32) = of_nat (n mod 128)"
    by (simp add: unsigned_of_nat take_bit_nat_eq_self)
  ultimately show ?thesis
    using assms(2) by (simp add: more_bits_def byte_and_7f push_bit_eq_mult unat_of_nat)
qed

lemma ext_run:
  assumes step: "\<And>w c. hpack w = st \<Longrightarrow> lws_hpack_interpret mem limits (dyn, w) c =
      (case more_bits w c of Inl e \<Rightarrow> Inl e
       | Inr w1 \<Rightarrow> if c AND 0x80 \<noteq> 0 then Inr (dyn, w1) else with_dyn dyn (fin w1))"
    and "hpack w = st" "unat (hpack_m w) = m" "m < 32" "n * 2 ^ m < 2 ^ 28"
  shows "\<exists>m'. run_bytes (lws_hpack_interpret mem limits) (dyn, w) (int_ext n) =
    with_dyn dyn (fin (w\<lparr>hpack_len := hpack_len w + of_nat (n * 2 ^ m), hpack_m := m'\<rparr>))"
  using assms(2-5)
proof (induction n arbitrary: w m rule: int_ext.induct)
  case (1 n)
  show ?case
  proof (cases "n < 128")
    case True
    have "lws_hpack_interpret mem limits (dyn, w) (of_nat n) =
        with_dyn dyn (fin (w\<lparr>hpack_len := hpack_len w + of_nat (n * 2 ^ m), hpack_m := of_nat (m + 7)\<rparr>))"
      using step [OF "1.prems"(1), of "of_nat n"] more_bits_step [OF "1.prems"(2,3), of n] True
      by (simp add: byte_and_80)
    then show ?thesis
      using True by (intro exI [of _ "of_nat (m + 7)"]) (simp add: int_ext.simps with_dyn_def split: sum.split)
  next
    case False
    define w1 where "w1 = w\<lparr>hpack_len := hpack_len w + of_nat ((n mod 128) * 2 ^ m), hpack_m := of_nat (m + 7)\<rparr>"
    have "128 * 2 ^ m \<le> n * 2 ^ m" using False by simp
    moreover have "2 ^ (m + 7) = 128 * (2::nat) ^ m" by (simp add: power_add)
    ultimately have "2 ^ (m + 7) < (2::nat) ^ 28" using "1.prems"(4) by linarith
    then have m: "m + 7 < 28" by (simp only: power_strict_increasing_iff)
    have "(n div 128) * 2 ^ (m + 7) \<le> n * 2 ^ m"
      by (simp add: power_add)
    then have "(n div 128) * 2 ^ (m + 7) < 2 ^ 28" using "1.prems"(4) by linarith
    moreover have "unat (hpack_m w1) = m + 7" using m by (simp add: w1_def unat_of_nat del: of_nat_add)
    moreover have "hpack w1 = st" using "1.prems"(1) by (simp add: w1_def)
    ultimately obtain m' where r: "run_bytes (lws_hpack_interpret mem limits) (dyn, w1) (int_ext (n div 128)) =
        with_dyn dyn (fin (w1\<lparr>hpack_len := hpack_len w1 + of_nat ((n div 128) * 2 ^ (m + 7)), hpack_m := m'\<rparr>))"
      using "1.IH" [OF False, of w1 "m + 7"] m by auto
    have "(128 + n mod 128) div 128 = 1" by simp
    then have "lws_hpack_interpret mem limits (dyn, w) (of_nat (128 + n mod 128)) = Inr (dyn, w1)"
      using step [OF "1.prems"(1), of "of_nat (128 + n mod 128)"]
        more_bits_step [OF "1.prems"(2,3), of "128 + n mod 128"]
      by (simp add: byte_and_80 w1_def del: of_nat_add div_add1_eq)
    moreover have "n * 2 ^ m = (n div 128 * 128 + n mod 128) * 2 ^ m" by simp
    then have "(n mod 128) * 2 ^ m + (n div 128) * 2 ^ (m + 7) = n * 2 ^ m"
      by (simp only: add_mult_distrib power_add) simp
    then have "hpack_len w1 + of_nat ((n div 128) * 2 ^ (m + 7)) = hpack_len w + of_nat (n * 2 ^ m)"
      by (simp add: w1_def add.assoc del: of_nat_add of_nat_mult of_nat_power flip: of_nat_add)
    with r have "run_bytes (lws_hpack_interpret mem limits) (dyn, w1) (int_ext (n div 128)) =
        with_dyn dyn (fin (w1\<lparr>hpack_len := hpack_len w + of_nat (n * 2 ^ m), hpack_m := m'\<rparr>))"
      by (simp only:)
    moreover have "w1\<lparr>hpack_len := l, hpack_m := m'\<rparr> = w\<lparr>hpack_len := l, hpack_m := m'\<rparr>" for l
      by (simp add: w1_def)
    ultimately show ?thesis
      using False by (intro exI [of _ m']) (subst int_ext.simps, simp)
  qed
qed

lemma pre_data_hpack [simp]: "pre_data dyn (w\<lparr>hpack := st\<rparr>) = pre_data dyn w"
  by (simp add: pre_data_def upd_ah_def split: sum.split)

lemma prefix_bits:
  assumes "n < 128" "hi = (if h then 0x80 else 0)"
  shows "(hi OR of_nat n :: byte) AND 0x7f = of_nat n" "((hi OR of_nat n :: byte) AND 0x80 \<noteq> 0) = h"
proof -
  have "hi AND 0x7f = 0" "(hi AND 0x80 \<noteq> 0) = h" using assms(2) by simp_all
  moreover have "(of_nat n :: byte) AND 0x7f = of_nat n" using assms(1) by (simp add: byte_and_7f)
  moreover have "(of_nat n :: byte) AND 0x80 = 0" using assms(1) by (simp add: byte_and_80)
  ultimately show "(hi OR of_nat n :: byte) AND 0x7f = of_nat n"
      "((hi OR of_nat n :: byte) AND 0x80 \<noteq> 0) = h"
    by (simp_all add: bit.conj_disj_distrib2)
qed

lemma hlen_run:
  assumes "hpack w = HPKS_HLEN" "n < 2 ^ 28" "hi = (if h then 0x80 else 0)"
  shows "\<exists>m. run_bytes (lws_hpack_interpret mem limits) (dyn, w) (hpack_int hi 127 n) =
    with_dyn dyn (pre_data dyn (w\<lparr>huff := h, hpack_pos := 0, hpack_len := of_nat n, hpack_m := m\<rparr>))"
proof (cases "n < 127")
  case True
  have "(ucast (of_nat n :: byte) :: u32) = of_nat n"
    using True by (simp add: unsigned_of_nat take_bit_nat_eq_self)
  moreover have "(of_nat n :: u32) < 0x7f" using True by (simp add: word_less_nat_alt unat_of_nat)
  ultimately have "lws_hpack_interpret mem limits (dyn, w) (hi OR of_nat n) =
      with_dyn dyn (pre_data dyn (w\<lparr>huff := h, hpack_pos := 0, hpack_len := of_nat n\<rparr>))"
    using True prefix_bits [of n hi h] assms
    by (simp add: lws_hpack_interpret_def hpks_hlen_def Let_def)
  then show ?thesis
    using True by (intro exI [of _ "hpack_m w"]) (simp add: hpack_int_def with_dyn_def split: sum.split)
next
  case False
  define w1 where "w1 = w\<lparr>huff := h, hpack_pos := 0, hpack_len := 127, hpack_m := 0, hpack := HPKS_HLEN_EXT\<rparr>"
  have "lws_hpack_interpret mem limits (dyn, w) (hi OR of_nat 127) = Inr (dyn, w1)"
    using prefix_bits [of 127 hi h] assms
    by (simp add: lws_hpack_interpret_def hpks_hlen_def Let_def w1_def with_dyn_def)
  moreover have "\<exists>m'. run_bytes (lws_hpack_interpret mem limits) (dyn, w1) (int_ext (n - 127)) =
      with_dyn dyn (pre_data dyn (w1\<lparr>hpack_len := hpack_len w1 + of_nat ((n - 127) * 2 ^ 0), hpack_m := m'\<rparr>))"
    using assms(2) by (intro ext_run [where st = HPKS_HLEN_EXT])
      (auto simp: w1_def lws_hpack_interpret_def hpks_hlen_ext_def with_dyn_def split: sum.split)
  then obtain m' where "run_bytes (lws_hpack_interpret mem limits) (dyn, w1) (int_ext (n - 127)) =
      with_dyn dyn (pre_data dyn (w1\<lparr>hpack_len := hpack_len w1 + of_nat ((n - 127) * 2 ^ 0), hpack_m := m'\<rparr>))" ..
  moreover have "127 + of_nat (n - 127) = (of_nat n :: u32)"
    using False by (metis of_nat_add of_nat_numeral le_add_diff_inverse not_less)
  moreover have "pre_data dyn (w1\<lparr>hpack_len := l, hpack_m := m\<rparr>) =
      pre_data dyn (w\<lparr>huff := h, hpack_pos := 0, hpack_len := l, hpack_m := m\<rparr>)" for l m
    by (simp add: w1_def pre_data_def upd_ah_def split: sum.split)
  ultimately show ?thesis
    using False by (intro exI [of _ m']) (simp add: hpack_int_def w1_def)
qed

lemma name_index_run:
  assumes "hpack w = HPKS_TYPE" "0 < i" "i < 62"
  shows "\<exists>n m. run_bytes (lws_hpack_interpret mem limits) (dyn, w) (hpack_int 0 15 i) =
    Inr (dyn, w\<lparr>hpack_type := HPKT_INDEXED_HDR_4_VALUE, header_index := of_nat i, hpack_len := n,
               hpack_m := m, hp_value := True, hpack := HPKS_HLEN\<rparr>)"
proof (cases "i < 15")
  case True
  then have "i \<in> {1, 2, 3, 4, 5, 6, 7, 8, 9, 10, 11, 12, 13, 14}"
    using assms(2) by (simp only: insert_iff empty_iff) presburger
  then have "lws_hpack_interpret mem limits (dyn, w) (of_nat i) =
      Inr (dyn, w\<lparr>hpack_type := HPKT_INDEXED_HDR_4_VALUE, header_index := of_nat i,
               hp_value := True, hpack := HPKS_HLEN\<rparr>)"
    using assms(1) by (auto simp: lws_hpack_interpret_def hpks_type_def indexed_name_def with_dyn_def)
  then show ?thesis
    using True by (intro exI [of _ "hpack_len w"] exI [of _ "hpack_m w"]) (simp add: hpack_int_def)
next
  case False
  define w1 where "w1 = w\<lparr>hpack_type := HPKT_INDEXED_HDR_4_VALUE, header_index := 0, hpack_len := 15,
                       hpack_m := 0, hpack := HPKS_IDX_EXT\<rparr>"
  have "lws_hpack_interpret mem limits (dyn, w) (0 OR of_nat 15) = Inr (dyn, w1)"
    using assms(1) by (simp add: lws_hpack_interpret_def hpks_type_def idx_ext_def with_dyn_def w1_def)
  moreover have e: "int_ext (i - 15) = [of_nat (i - 15)]" using assms(3) by (simp add: int_ext.simps)
  have "more_bits w1 (of_nat (i - 15)) = Inr (w1\<lparr>hpack_len := 15 + of_nat (i - 15), hpack_m := 7\<rparr>)"
    using more_bits_step [of w1 0 "i - 15"] assms(3) by (simp add: w1_def)
  moreover have "15 + of_nat (i - 15) = (of_nat i :: u32)"
    using False by (metis of_nat_add of_nat_numeral le_add_diff_inverse not_less)
  moreover have "(of_nat (i - 15) :: byte) AND 0x80 = 0" using assms(3) by (simp add: byte_and_80)
  ultimately show ?thesis
    using False by (intro exI [of _ "of_nat i"] exI [of _ 7])
      (simp add: hpack_int_def e lws_hpack_interpret_def hpks_idx_ext_def with_dyn_def w1_def
        del: of_nat_diff)
qed

lemma static_token_bounds: "0 < i \<Longrightarrow> i < 62 \<Longrightarrow> 0 < static_token ! i \<and> static_token ! i < 79"
proof -
  have "\<forall>x\<in>set (tl static_token). 0 < x \<and> x < 79" "length static_token = 62"
    by (simp_all add: static_token_def)
  then show "0 < i \<Longrightarrow> i < 62 \<Longrightarrow> 0 < static_token ! i \<and> static_token ! i < 79"
    using nth_mem [of "i - 1" "tl static_token"] by (cases i) (auto simp: nth_tl)
qed

lemma token_static: "i < 62 \<Longrightarrow> lws_token_from_index dyn (sint (of_nat i :: u32)) = Inr (int (static_token ! i))"
proof -
  assume i: "i < 62"
  then have "sint (of_nat i :: u32) = int i" 
    by (simp add: signed_of_nat signed_take_bit_int_eq_self)
  with i show ?thesis by (simp add: lws_token_from_index_def static_token_def)
qed

lemma pre_data_filed:
  assumes "ah_sized (hdr_ah (hp_hdr w))" "ah_next_frag_index (hdr_ah (hp_hdr w)) < 79"
    "ah_pos (hdr_ah (hp_hdr w)) + length v + 1 < 1024"
    "0 < i" "i < 62" "header_index w = of_nat i" "hp_value w"
    "\<not> hpack_incr_type (hpack_type w)"
    "ah_next_frag_index (hdr_ah (hp_hdr w)) = 0 \<or> length v + 1 < 199"
    "unat (hpack_len w) = length cs" "cs \<noteq> []" "hp_decodes (huff w) (hpack_pos w) cs v q"
  obtains w1 where "pre_data dyn w = Inr w1"
    "run_bytes (lws_hpack_interpret mem limits) (dyn, w1) cs =
       Inr (dyn, w\<lparr>hp_hdr := (hp_hdr w)\<lparr>hdr_ah := filed (hdr_ah (hp_hdr w)) (static_token ! i) v\<rparr>,
                   hpack_pos := q, hpack_len := 0,
                   hpack := (if h2_count w + ucast (h2_padding w) = h2_length w
                             then HKPS_OPT_DISCARD_PADDING else HPKS_TYPE)\<rparr>)"
proof -
  let ?a = "hdr_ah (hp_hdr w)" and ?t = "static_token ! i"
  have t: "0 < ?t" "?t < 79" using static_token_bounds assms(4,5) by auto
  obtain a1 where a1: "lws_frag_start ?a (int ?t) = Inr a1" "frag_append_all a1 v = Inr (appended a1 v)"
      "lws_frag_end (appended a1 v) = Inr (filed ?a ?t v)"
    using frag_start_append_end [OF assms(1,2) t assms(3)] by metis
  define w1 where "w1 = w\<lparr>hp_hdr := (hp_hdr w)\<lparr>hdr_ah := a1\<rparr>, hpack := HPKS_DATA\<rparr>"
  have tok: "lws_token_from_index dyn (sint (header_index w)) = Inr (int ?t)"
    using token_static assms(5,6) by simp
  have pre: "pre_data dyn w = Inr w1"
    using assms(7) tok a1(1) by (simp add: pre_data_def upd_ah_def w1_def)
  have dump: "lws_dump_header (filed ?a ?t v) (int ?t) = Inr ()"
    using assms t by (intro filed_dump) auto
  have "run_bytes (lws_hpack_interpret mem limits) (dyn, w1) cs = string_end mem dyn
      (w1\<lparr>hp_hdr := (hp_hdr w1)\<lparr>hdr_ah := appended a1 v\<rparr>, hpack_pos := q, hpack_len := 0\<rparr>)"
    using assms a1(2) by (intro data_run) (simp_all add: w1_def)
  with assms(7,8) tok a1(3) dump pre show ?thesis
    by (intro that [of w1]) (auto simp: string_end_def string_add_dyn_def value_end_def upd_ah_def w1_def)
qed

text \<open>
  A literal header whose name is the static entry \<open>i\<close>, with the value as a string of the header
  block that stands for \<open>v\<close>.
\<close>

lemma literal_header_run:
  assumes "hpack w = HPKS_TYPE" "0 < i" "i < 62"
    "ah_sized (hdr_ah (hp_hdr w))" "ah_next_frag_index (hdr_ah (hp_hdr w)) < 79"
    "ah_pos (hdr_ah (hp_hdr w)) + length v + 1 < 1024"
    "ah_next_frag_index (hdr_ah (hp_hdr w)) = 0 \<or> length v + 1 < 199"
    "cs \<noteq> []" "length cs < 2 ^ 28" "hp_decodes h 0 cs v q"
  shows "\<exists>w'. run_bytes (lws_hpack_interpret mem limits) (dyn, w)
      (hpack_int 0 15 i @ hpack_int (if h then 0x80 else 0) 127 (length cs) @ cs) = Inr (dyn, w') \<and>
      hdr_ah (hp_hdr w') = filed (hdr_ah (hp_hdr w)) (static_token ! i) v \<and>
      hpack w' = (if h2_count w + ucast (h2_padding w) = h2_length w
                  then HKPS_OPT_DISCARD_PADDING else HPKS_TYPE)"
proof -
  let ?R = "run_bytes (lws_hpack_interpret mem limits)"
  obtain n m where "?R (dyn, w) (hpack_int 0 15 i) =
      Inr (dyn, w\<lparr>hpack_type := HPKT_INDEXED_HDR_4_VALUE, header_index := of_nat i, hpack_len := n,
               hpack_m := m, hp_value := True, hpack := HPKS_HLEN\<rparr>)"
    using name_index_run [OF assms(1-3)] by blast
  moreover define w1 where "w1 = w\<lparr>hpack_type := HPKT_INDEXED_HDR_4_VALUE, header_index := of_nat i,
      hpack_len := n, hpack_m := m, hp_value := True, hpack := HPKS_HLEN\<rparr>"
  ultimately have 1: "?R (dyn, w) (hpack_int 0 15 i) = Inr (dyn, w1)" by simp
  have h1: "hpack w1 = HPKS_HLEN" by (simp add: w1_def)
  obtain m' where 2: "?R (dyn, w1) (hpack_int (if h then 0x80 else 0) 127 (length cs)) =
      with_dyn dyn (pre_data dyn (w1\<lparr>huff := h, hpack_pos := 0, hpack_len := of_nat (length cs), hpack_m := m'\<rparr>))"
    using hlen_run [OF h1 assms(9) refl] by blast
  define w2 where "w2 = w1\<lparr>huff := h, hpack_pos := 0, hpack_len := of_nat (length cs), hpack_m := m'\<rparr>"
  have u: "unat (hpack_len w2) = length cs" using assms(9) by (simp add: w2_def unat_of_nat)
  obtain w3 where "pre_data dyn w2 = Inr w3" "?R (dyn, w3) cs =
       Inr (dyn, w2\<lparr>hp_hdr := (hp_hdr w2)\<lparr>hdr_ah := filed (hdr_ah (hp_hdr w2)) (static_token ! i) v\<rparr>,
                   hpack_pos := q, hpack_len := 0,
                   hpack := (if h2_count w2 + ucast (h2_padding w2) = h2_length w2
                             then HKPS_OPT_DISCARD_PADDING else HPKS_TYPE)\<rparr>)"
    using pre_data_filed [of w2 v i cs q dyn mem limits] assms u
    by (auto simp: w1_def w2_def hpack_incr_type_def)
  with 1 2 show ?thesis
    by (simp add: run_bytes_append w2_def [symmetric] with_dyn_def) (simp add: w2_def w1_def)
qed

subsection \<open>Huffman strings\<close>

text \<open>
  The encoder of RFC 7541, section 5.2: the codes of the characters one after the other, filled up
  to whole bytes with ones.
\<close>

definition of_bits :: "bool list \<Rightarrow> byte" where
  "of_bits bs = horner_sum of_bool 2 (rev bs)"

definition huf_encode :: "byte list \<Rightarrow> byte list" where
  "huf_encode v =
     (let bs = concat (map (\<lambda>c. huf_code (unat c)) v)
      in map of_bits (blocks 8 (bs @ replicate ((8 - length bs mod 8) mod 8) True)))"

lemma low_bits_of_bits: "length bs = 8 \<Longrightarrow> low_bits 8 (of_bits bs) = bs"
  by (rule nth_equalityI)
     (auto simp: low_bits_def of_bits_def bit_horner_sum_bit_word_iff rev_nth)

lemma bits_of_blocks:
  "8 dvd length bs \<Longrightarrow> concat (map (low_bits 8) (map of_bits (blocks 8 bs))) = bs"
proof (induction "length bs" arbitrary: bs rule: less_induct)
  case less
  show ?case
  proof (cases "bs = []")
    case True
    then show ?thesis by (simp add: blocks_short)
  next
    case False
    then have l: "8 \<le> length bs" using less.prems by (auto dest: dvd_imp_le)
    then have "blocks 8 bs = take 8 bs # blocks 8 (drop 8 bs)"
      using blocks_append_block [of "take 8 bs" 8 "drop 8 bs"] by simp
    moreover have "8 dvd length (drop 8 bs)" using less.prems l by simp
    then have "concat (map (low_bits 8) (map of_bits (blocks 8 (drop 8 bs)))) = drop 8 bs"
      using l by (intro less.hyps) simp_all
    ultimately show ?thesis using l by (simp add: low_bits_of_bits)
  qed
qed

lemma pad8: "(8::nat) dvd x + (8 - x mod 8) mod 8"
proof -
  define r d where "r = x mod 8" and "d = x div 8"
  have "r < 8" "8 * d + r = x" by (simp_all add: r_def d_def)
  then have "x + (8 - r) = 8 * (d + 1)" by simp
  then have "(x + (8 - x mod 8)) mod 8 = 0" by (simp add: r_def)
  then show ?thesis by (simp only: mod_add_right_eq dvd_eq_mod_eq_0)
qed

lemma huf_encode_decodes: "\<exists>q. hp_decodes True 0 (huf_encode v) v q"
proof -
  define bs where "bs = concat (map (\<lambda>c. huf_code (unat c)) v)"
  define k where "k = (8 - length bs mod 8) mod 8"
  have "k < 8" by (simp add: k_def)
  have "8 dvd length (bs @ replicate k True)"
    unfolding k_def using pad8 by simp
  then have b: "concat (map (low_bits 8) (huf_encode v)) = bs @ replicate k True"
    unfolding huf_encode_def bs_def [symmetric] k_def [symmetric] Let_def by (rule bits_of_blocks)
  have "huf_run 0 bs = Some (map (\<lambda>s. s mod 256) (map unat v), 0)"
    unfolding bs_def
    using huf_run_codes [of "map unat v"] by (simp add: comp_def less_trans [OF unat_byte_less])
  moreover have "map (\<lambda>s. s mod 256) (map unat v) = map unat v"
    by (simp add: unat_byte_less)
  moreover obtain q where "huf_run 0 (replicate k True) = Some ([], q)"
    using huf_run_padding [of k] \<open>k < 8\<close> by fastforce
  ultimately have "huf_run 0 (bs @ replicate k True) = Some (map unat v, q)"
    by (simp add: huf_run_append)
  then show ?thesis
    by (intro exI [of _ q]) (auto simp: hp_decodes_def huf_pos_ok_0 b comp_def intro: exI [of _ "map unat v"])
qed

lemma huf_encode_nonempty: "v \<noteq> [] \<Longrightarrow> huf_encode v \<noteq> []"
  using huf_encode_decodes [of v] by (auto simp: hp_decodes_def)

lemma length_huf_code_le: "s < 257 \<Longrightarrow> length (huf_code s) \<le> 30"
proof -
  have "\<forall>x\<in>set huf_literal. snd x \<le> 30"
    by (simp add: huf_literal_def huf_literal_1_def huf_literal_2_def)
  then show "s < 257 \<Longrightarrow> length (huf_code s) \<le> 30"
    by (simp add: length_huf_code huf_sizes)
qed

lemma length_huf_bits:
  "length (concat (map (\<lambda>c. huf_code (unat c)) v)) \<le> 30 * length (v :: byte list)"
proof (induction v)
  case (Cons c v)
  moreover have "length (huf_code (unat c)) \<le> 30"
    using unat_byte_less [of c] by (intro length_huf_code_le) simp
  ultimately show ?case by simp
qed simp

lemma length_blocks_le: "0 < k \<Longrightarrow> length (blocks k xs) \<le> length xs"
  by (induction k xs rule: blocks.induct) (subst blocks.simps, auto)

lemma length_huf_encode: "length (huf_encode v) \<le> 30 * length v + 7"
proof -
  define bs where "bs = concat (map (\<lambda>c. huf_code (unat c)) v)"
  have "length (huf_encode v) \<le> length (bs @ replicate ((8 - length bs mod 8) mod 8) True)"
    unfolding huf_encode_def bs_def [symmetric] Let_def length_map by (rule length_blocks_le) simp
  also have "\<dots> \<le> 30 * length v + 7"
    using length_huf_bits [of v] mod_less_divisor [of 8 "8 - length bs mod 8"]
    by (simp add: bs_def)
  finally show ?thesis .
qed

definition string_payload :: "bool \<Rightarrow> byte list \<Rightarrow> byte list" where
  "string_payload h v = (if h then huf_encode v else v)"

lemma string_payload_decodes:
  assumes "v \<noteq> []" "length v < 1024"
  shows "string_payload h v \<noteq> []" "length (string_payload h v) < 2 ^ 28"
    "\<exists>q. hp_decodes h 0 (string_payload h v) v q"
  using assms huf_encode_nonempty [OF assms(1)] length_huf_encode [of v] huf_encode_decodes [of v]
  by (auto simp: string_payload_def hp_decodes_def)

section \<open>Indexed headers\<close>

lemma length_canned: "length (canned_value i) \<le> 13"
proof -
  have "\<forall>s\<in>set http2_canned. length s \<le> 13" by (simp add: http2_canned_def)
  then show ?thesis
    using nth_mem [of "nat i" http2_canned] by (auto simp: canned_value_def nat_less_iff)
qed

lemma canned_no_nul: "0 \<notin> set (canned_value i)"
proof -
  have "\<forall>s\<in>set http2_canned. 0 \<notin> set (bytes s)" by (simp add: http2_canned_def bytes_def)
  then show ?thesis
    using nth_mem [of "nat i" http2_canned] by (auto simp: canned_value_def nat_less_iff)
qed

lemma write_indexed:
  assumes "ah_sized a" "ah_next_frag_index a < 79" "ah_pos a + 14 < 1024" "0 < i" "i < 62"
  shows "lws_write_indexed_hdr dyn a (int i) = Inr (filed a (static_token ! i) (canned_value (int i)))"
proof -
  let ?t = "static_token ! i" and ?v = "canned_value (int i)"
  have t: "0 < ?t" "?t < 79" using static_token_bounds assms(4,5) by auto
  have v: "ah_pos a + length ?v + 1 < 1024" using assms(3) length_canned [of "int i"] by linarith
  obtain a1 where a1: "lws_frag_start a (int ?t) = Inr a1" "frag_append_all a1 ?v = Inr (appended a1 ?v)"
      "lws_frag_end (appended a1 ?v) = Inr (filed a ?t ?v)"
    using frag_start_append_end [OF assms(1,2) t v] by metis
  have "lws_dump_header (filed a ?t ?v) (int ?t) = Inr ()"
    using assms t v length_canned [of "int i"] by (intro filed_dump) auto
  moreover have "lws_token_from_index dyn (int i) = Inr (int ?t)"
    using assms(5) by (simp add: lws_token_from_index_def static_token_def)
  ultimately show ?thesis using a1 by (simp add: lws_write_indexed_hdr_def)
qed

lemma indexed_step:
  assumes "hpack w = HPKS_TYPE" "ah_sized (hdr_ah (hp_hdr w))"
    "ah_next_frag_index (hdr_ah (hp_hdr w)) < 79" "ah_pos (hdr_ah (hp_hdr w)) + 14 < 1024" "0 < i" "i < 62"
  shows "\<exists>w'. lws_hpack_interpret mem limits (dyn, w) (0x80 OR of_nat i) = Inr (dyn, w') \<and>
    hdr_ah (hp_hdr w') = filed (hdr_ah (hp_hdr w)) (static_token ! i) (canned_value (int i)) \<and>
    hpack w' = HPKS_TYPE"
proof -
  have c: "(0x80 OR of_nat i :: byte) AND 0x7f = of_nat i" "(0x80 OR of_nat i :: byte) AND 0x80 \<noteq> 0"
    using prefix_bits [of i "0x80" True] assms(6) by simp_all
  have u: "uint (of_nat i :: byte) = int i" "(of_nat i :: byte) \<noteq> 0x7f"
    using assms(6) by (simp_all add: unsigned_of_nat take_bit_nat_eq_self of_nat_inverse word_unat_eq_iff)
  show ?thesis
    using assms(1) write_indexed [OF assms(2-6), of dyn]
    by (simp add: lws_hpack_interpret_def hpks_type_def c u with_dyn_def upd_ah_def)
qed

section \<open>The parser of names keeps the sizes\<close>

text \<open>
  In this use of the header store the counter of fragments is ahead of the fragment in use, so the
  invariants of \<open>Headers\<close> do not apply; the sizes of the arrays and the bounds of the counters do.
\<close>

definition hdr_sized :: "hdr_wsi \<Rightarrow> bool" where
  "hdr_sized h \<longleftrightarrow> ah_sized (hdr_ah h) \<and> ah_next_frag_index (hdr_ah h) < FRAGS"

lemma hdr_sized_upd [simp]:
  "hdr_sized (h\<lparr>lextable_pos := p\<rparr>) = hdr_sized h"
  "hdr_sized (h\<lparr>current_token_limit := l\<rparr>) = hdr_sized h"
  "hdr_sized (h\<lparr>parser_state := s\<rparr>) = hdr_sized h"
  "hdr_sized (h\<lparr>ups := u\<rparr>) = hdr_sized h"
  "hdr_sized (h\<lparr>ues := e\<rparr>) = hdr_sized h"
  "hdr_sized (h\<lparr>esc_stash := c\<rparr>) = hdr_sized h"
  "hdr_sized (h\<lparr>ietf_spec_revision := c\<rparr>) = hdr_sized h"
  "hdr_sized (h\<lparr>hdr_parsing_completed := b\<rparr>) = hdr_sized h"
  by (simp_all add: hdr_sized_def)

lemma ah_sized_put_char: "ah_sized a \<Longrightarrow> ah_pos a < 1024 \<Longrightarrow> ah_sized (put_char c a)"
  by (simp add: ah_sized_def put_char_def put_data_def upd_cur_frag_def Let_def)

lemma hdr_sized_issue_char: "hdr_sized h \<Longrightarrow> hdr_sized (snd (issue_char h c))"
  by (auto simp: issue_char_def hdr_sized_def ah_sized_put_char ah_sized_def [of "hdr_ah h"])

lemma issue_char_sized: "issue_char h c = (n, h') \<Longrightarrow> hdr_sized h \<Longrightarrow> hdr_sized h'"
  using hdr_sized_issue_char [of h c] by simp

lemma set_parsing_complete_sized: "set_parsing_complete h = Inr h' \<Longrightarrow> hdr_sized h \<Longrightarrow> hdr_sized h'"
  by (auto simp: set_parsing_complete_def Let_def split: option.splits if_splits)

lemma next_open_sized: "ah_sized a \<Longrightarrow> ah_sized (next_open a)"
  by (simp add: ah_sized_def next_open_def open_frag_def upd_cur_frag_def)

lemma start_fragment_sized:
  assumes "start_fragment h = Inr h'" "hdr_sized h" shows "hdr_sized h'"
proof -
  let ?a = "next_open (hdr_ah h)"
  have i: "ah_next_frag_index (hdr_ah h) + 1 < 158" "ah_sized ?a"
    using assms by (auto simp: start_fragment_def Let_def hdr_sized_def next_open_sized split: if_splits)
  have c: "ah_sized (put_char 0x20 (chain_frag m ?a))" if "ah_pos ?a \<noteq> 1024" for m
    using i(2) that by (intro ah_sized_put_char) (auto simp: ah_sized_def chain_frag_def)
  have "ah_sized (?a\<lparr>ah_frag_index := (ah_frag_index ?a)[k := n]\<rparr>)" for k n
    using i(2) by (simp add: ah_sized_def)
  with c i assms show ?thesis
    by (auto simp: start_fragment_def Let_def hdr_sized_def split: if_splits option.splits)
qed

definition keeps_sized :: "(hdr_wsi \<Rightarrow> byte \<Rightarrow> parse_error + hdr_wsi) \<Rightarrow> bool" where
  "keeps_sized parse \<longleftrightarrow> (\<forall>h c h'. parse h c = Inr h' \<longrightarrow> hdr_sized h \<longrightarrow> hdr_sized h')"

lemma uri_unescape_sized:
  assumes "keeps_sized parse"
    "uri_unescape parse h c = Inr (h', x)" "hdr_sized h"
  shows "hdr_sized h'"
proof (cases "ues h")
  case URIES_IDLE
  then show ?thesis using assms(2,3) by (auto simp: uri_unescape_def split: if_splits)
next
  case URIES_SEEN_PERCENT
  obtain n h1 where i: "issue_char h 0x25 = (n, h1)" by fastforce
  then have "hdr_sized h1" using issue_char_sized assms(3) by blast
  with i URIES_SEEN_PERCENT show ?thesis
    using assms(2,3) by (auto simp: uri_unescape_def split: if_splits)
next
  case URIES_SEEN_PERCENT_H1
  obtain n h1 where i: "issue_char h 0x25 = (n, h1)" by fastforce
  then have "hdr_sized (h1\<lparr>ues := URIES_IDLE\<rparr>)" using issue_char_sized assms(3) by simp
  with i URIES_SEEN_PERCENT_H1 show ?thesis
    using assms by (auto simp: uri_unescape_def keeps_sized_def split: if_splits sum.splits)
qed

lemma drop_char_sized: "ah_sized a \<Longrightarrow> ah_sized (drop_char a)"
  by (auto simp: ah_sized_def drop_char_def upd_cur_frag_def)

lemma back_up_loop_sized:
  "ah_sized a \<Longrightarrow> ah_sized (back_up_loop a) \<and> ah_next_frag_index (back_up_loop a) = ah_next_frag_index a"
proof (induction a rule: back_up_loop.induct)
  case (1 a)
  have "ah_next_frag_index (drop_char a) = ah_next_frag_index a"
    by (simp add: drop_char_def upd_cur_frag_def)
  with 1 drop_char_sized show ?case by (subst (1 2) back_up_loop.simps) (auto simp: Let_def)
qed

lemma uri_path_sized: "uri_path h c = (h', b) \<Longrightarrow> hdr_sized h \<Longrightarrow> hdr_sized h'"
proof -
  assume h: "uri_path h c = (h', b)" "hdr_sized h"
  have "hdr_sized (h\<lparr>hdr_ah := back_up (hdr_ah h)\<rparr>)"
    using h(2) back_up_loop_sized [of "drop_char (hdr_ah h)"] drop_char_sized [of "hdr_ah h"]
    by (auto simp: hdr_sized_def back_up_def drop_char_def upd_cur_frag_def)
  then show ?thesis
    using h hdr_sized_issue_char [of "h\<lparr>ups := URIPS_IDLE\<rparr>" "0x2e"]
    by (cases "ups h") (auto simp: uri_path_def split: if_splits)
qed

lemma uri_args_sized:
  assumes "uri_args h = Inr h'" "hdr_sized h" shows "hdr_sized h'"
proof -
  have "ah_sized (put_data 0 (hdr_ah h))"
    using assms by (auto simp: uri_args_def Let_def hdr_sized_def ah_sized_def put_data_def split: if_splits)
  then have "ah_sized (next_open (put_data 0 (hdr_ah h)))" by (rule next_open_sized)
  then show ?thesis
    using assms by (auto simp: uri_args_def Let_def hdr_sized_def ah_sized_def put_data_def next_open_def
        open_frag_def upd_cur_frag_def split: if_splits)
qed

lemma swallow_sized: "swallow h = Inr h' \<Longrightarrow> hdr_sized h \<Longrightarrow> hdr_sized h'"
  by (auto simp: swallow_def set_parsing_complete_sized split: if_splits)

lemma check_eol_sized:
  assumes "check_eol h c = Inr h'" "hdr_sized h" shows "hdr_sized h'"
proof -
  define h1 where "h1 = (if parser_state h \<noteq> WSI_TOKEN_CHALLENGE \<and> c = 0x0d
      then h\<lparr>parser_state := WSI_TOKEN_SKIPPING_SAW_CR\<rparr> else h)"
  define c1 where "c1 = (if parser_state h \<noteq> WSI_TOKEN_CHALLENGE \<and> c = 0x0d then 0 else c)"
  obtain n h2 where i: "issue_char h1 c1 = (n, h2)" by fastforce
  have "hdr_sized h2" using issue_char_sized [OF i] assms(2) by (simp add: h1_def)
  then show ?thesis
    using assms(1) i swallow_sized
    by (auto simp: check_eol_def Let_def h1_def [symmetric] c1_def [symmetric] split: if_splits)
qed

lemma uri_char_sized:
  assumes "uri_char h c = Inr h'" "hdr_sized h" shows "hdr_sized h'"
proof -
  obtain h1 b where p: "uri_path h c = (h1, b)" by fastforce
  have "hdr_sized h1" using uri_path_sized [OF p assms(2)] .
  with assms(1) p show ?thesis
    by (cases b) (auto simp: uri_char_def dest: swallow_sized uri_args_sized check_eol_sized
        split: if_splits sum.splits)
qed

lemma uri_end_sized:
  assumes "uri_end h = Inr h'" "hdr_sized h" shows "hdr_sized h'"
proof -
  obtain n h1 where i: "(if frag_len (cur_frag (hdr_ah h)) = 0 then issue_char h 0x2f else (0, h)) = (n, h1)"
    by fastforce
  obtain m h2 where j: "issue_char h1 0 = (m, h2)" by fastforce
  have "hdr_sized h1" using i issue_char_sized assms(2) by (auto split: if_splits)
  then have "hdr_sized (h2\<lparr>parser_state := WSI_TOKEN_HTTP\<rparr>)" using issue_char_sized [OF j] by simp
  then show ?thesis
    using assms(1) i j start_fragment_sized by (auto simp: uri_end_def split: if_splits)
qed

lemma collect_sized:
  assumes "keeps_sized parse"
    "collect parse h c = Inr h'" "hdr_sized h"
  shows "hdr_sized h'"
proof (cases "uri_unescape parse h c")
  case (Inl e)
  then show ?thesis using assms(2,3)
    by (auto simp: collect_def Let_def dest: uri_end_sized check_eol_sized split: if_splits)
next
  case (Inr r)
  then obtain h1 x where r: "uri_unescape parse h c = Inr (h1, x)" by (cases r) auto
  have "hdr_sized h1" using uri_unescape_sized [OF assms(1) r assms(3)] .
  with r show ?thesis using assms(2,3)
    by (auto simp: collect_def Let_def dest: uri_end_sized check_eol_sized swallow_sized uri_char_sized
        split: if_splits option.splits)
qed

lemma known_header_sized: "known_header limits h n = Inr h' \<Longrightarrow> hdr_sized h \<Longrightarrow> hdr_sized h'"
  by (auto simp: known_header_def Let_def dest: set_parsing_complete_sized start_fragment_sized
      split: if_splits)

lemma name_part_sized: "name_part limits h c = Inr h' \<Longrightarrow> hdr_sized h \<Longrightarrow> hdr_sized h'"
  by (auto simp: name_part_def Let_def dest: known_header_sized split: if_splits option.splits)

lemma parse_body_sized:
  assumes "keeps_sized parse" "parse_body parse limits h c = Inr h'" "hdr_sized h"
  shows "hdr_sized h'"
proof -
  consider "parser_state h = WSI_TOKEN_NAME_PART" "name_part limits h c = Inr h'"
    | "collect parse h c = Inr h'" | "hdr_ah h' = hdr_ah h"
    using assms(2) by (auto simp: parse_body_def split: if_splits)
  then show ?thesis
    using name_part_sized collect_sized [OF assms(1)] assms(3)
    by cases (auto simp: hdr_sized_def)
qed

lemma libwebsocket_parse_sized:
  assumes "libwebsocket_parse limits h c = Inr h'" "hdr_sized h" shows "hdr_sized h'"
proof -
  have "keeps_sized (\<lambda>_ _. Inl Overrun)" by (simp add: keeps_sized_def)
  from parse_body_sized [OF this] have "keeps_sized (parse_body (\<lambda>_ _. Inl Overrun) limits)"
    unfolding keeps_sized_def by blast
  from parse_body_sized [OF this _ assms(2)] assms(1) show ?thesis
    unfolding libwebsocket_parse_def by blast
qed


end
