(* ===== verification/Hpack_Correct.thy ===== *)
theory Hpack_Correct
  imports Hpack
begin

text \<open>
  What holds of the header compression of \<open>Hpack\<close>: the decoder keeps its state well-formed on every
  byte it accepts, files what was encoded, and the encoder writes the bytes of RFC 7541 for short
  strings. Also the inputs on which they do not: the first field of a new table, values longer than
  the buffer of the log, literal names, empty strings, extended table size updates and long
  strings in the encoder.
\<close>

section \<open>Well-formed states\<close>

text \<open>
  What \<open>malloc\<close> promises, the dynamic table, and the state between two bytes. The Huffman position is
  one of the table. While a value is collected, the fragment in use is one \<open>lws_frag_start\<close> took.
\<close>

definition hp_mem_ok :: "hpack_mem \<Rightarrow> bool" where
  "hp_mem_ok mem \<longleftrightarrow> (\<forall>args. mem_args mem = Some args \<longrightarrow> length args = 1024) \<and>
     (\<forall>es. mem_entries mem = Some es \<longrightarrow> length es = 20)"

definition dyn_ok :: "hpack_dynamic_table \<Rightarrow> bool" where
  "dyn_ok d \<longleftrightarrow> int (length (dyn_entries d)) = num_entries d \<and> int (length (dyn_args d)) = args_length d \<and>
     0 \<le> dyn_pos d \<and> dyn_pos d \<le> args_length d \<and> 0 \<le> dyn_next d \<and> dyn_next d \<le> num_entries d"

definition hpack_ok :: "hpack_dynamic_table option \<times> 'a hpack_wsi_scheme \<Rightarrow> bool" where
  "hpack_ok s \<longleftrightarrow> (\<forall>d. fst s = Some d \<longrightarrow> dyn_ok d) \<and> hdr_sized (hp_hdr (snd s)) \<and>
     huf_pos_ok (hpack_pos (snd s)) \<and>
     (hpack (snd s) = HPKS_DATA \<and> hp_value (snd s) \<longrightarrow>
        ah_next_frag_index (hdr_ah (hp_hdr (snd s))) < WSI_TOKEN_COUNT)"

lemma hpack_okI:
  "(\<And>d. dyn = Some d \<Longrightarrow> dyn_ok d) \<Longrightarrow> hdr_sized (hp_hdr w) \<Longrightarrow> huf_pos_ok (hpack_pos w) \<Longrightarrow>
   (hpack w = HPKS_DATA \<Longrightarrow> hp_value w \<Longrightarrow> ah_next_frag_index (hdr_ah (hp_hdr w)) < WSI_TOKEN_COUNT) \<Longrightarrow>
   hpack_ok (dyn, w)"
  by (simp add: hpack_ok_def)

lemma hpack_okD:
  assumes "hpack_ok (dyn, w)"
  shows "\<forall>d. dyn = Some d \<longrightarrow> dyn_ok d" "hdr_sized (hp_hdr w)" "huf_pos_ok (hpack_pos w)"
    "hpack w = HPKS_DATA \<Longrightarrow> hp_value w \<Longrightarrow> ah_next_frag_index (hdr_ah (hp_hdr w)) < WSI_TOKEN_COUNT"
  using assms by (simp_all add: hpack_ok_def)

lemma upd_ah_Inr: "upd_ah w r = Inr w' \<longleftrightarrow> (\<exists>a. r = Inr a \<and> w' = w\<lparr>hp_hdr := (hp_hdr w)\<lparr>hdr_ah := a\<rparr>\<rparr>)"
  by (auto simp: upd_ah_def split: sum.splits)

lemma with_dyn_Inr: "with_dyn dyn r = Inr s \<longleftrightarrow> (\<exists>w. r = Inr w \<and> s = (dyn, w))"
  by (auto simp: with_dyn_def split: sum.splits)

lemmas hp_results = upd_ah_Inr with_dyn_Inr

lemma hdr_sized_ah [simp]:
  "hdr_sized (h\<lparr>hdr_ah := a\<rparr>) \<longleftrightarrow> ah_sized a \<and> ah_next_frag_index a < FRAGS"
  by (simp add: hdr_sized_def)

lemma frag_start_ok:
  assumes "lws_frag_start a tok = Inr a'" "ah_sized a"
  shows "ah_sized a'" "ah_next_frag_index a' < WSI_TOKEN_COUNT"
  using assms by (auto simp: lws_frag_start_def ah_sized_def split: if_splits)

lemma frag_append_ok:
  "lws_frag_append a c = Inr a' \<Longrightarrow> ah_sized a \<Longrightarrow>
     ah_sized a' \<and> ah_next_frag_index a' = ah_next_frag_index a"
  by (auto simp: lws_frag_append_def ah_sized_def put_data_def upd_cur_frag_def Let_def
      split: if_splits)

lemma frag_append_all_ok:
  "frag_append_all a us = Inr a' \<Longrightarrow> ah_sized a \<Longrightarrow>
     ah_sized a' \<and> ah_next_frag_index a' = ah_next_frag_index a"
  by (induction a us rule: frag_append_all.induct) (auto dest!: frag_append_ok split: sum.splits)

lemma frag_end_ok:
  assumes "lws_frag_end a = Inr a'" "ah_sized a" "ah_next_frag_index a < WSI_TOKEN_COUNT"
  shows "ah_sized a'" "ah_next_frag_index a' < FRAGS"
proof -
  obtain b where b: "lws_frag_append a 0 = Inr b" "a' = b\<lparr>ah_next_frag_index := ah_next_frag_index b + 1\<rparr>"
    using assms(1) by (auto simp: lws_frag_end_def split: sum.splits)
  then show "ah_sized a'" "ah_next_frag_index a' < FRAGS"
    using frag_append_ok [OF b(1) assms(2)] assms(3) by (simp_all add: ah_sized_def)
qed

lemma write_indexed_ok:
  assumes "lws_write_indexed_hdr dyn a idx = Inr a'" "ah_sized a"
  shows "ah_sized a'" "ah_next_frag_index a' < FRAGS"
proof -
  obtain tok a1 a2 where r: "lws_frag_start a tok = Inr a1" "frag_append_all a1 (canned_value idx) = Inr a2"
      "lws_frag_end a2 = Inr a'"
    using assms(1) by (auto simp: lws_write_indexed_hdr_def split: sum.splits)
  note a1 = frag_start_ok [OF r(1) assms(2)]
  have "ah_sized a2" "ah_next_frag_index a2 < WSI_TOKEN_COUNT"
    using frag_append_all_ok [OF r(2) a1(1)] a1(2) by simp_all
  from frag_end_ok [OF r(3) this] show "ah_sized a'" "ah_next_frag_index a' < FRAGS" .
qed

lemma hpack_char_ok:
  assumes "hpack_char limits w c = Inr w'" "hdr_sized (hp_hdr w)"
  shows "\<exists>h. w' = w\<lparr>hp_hdr := h\<rparr> \<and> hdr_sized h \<and>
    (hp_value w \<longrightarrow> ah_next_frag_index (hdr_ah h) = ah_next_frag_index (hdr_ah (hp_hdr w)))"
proof (cases "hp_value w")
  case True
  then obtain a where a: "lws_frag_append (hdr_ah (hp_hdr w)) c = Inr a"
      "w' = w\<lparr>hp_hdr := (hp_hdr w)\<lparr>hdr_ah := a\<rparr>\<rparr>"
    using assms(1) by (auto simp: hpack_char_def upd_ah_Inr)
  have "hdr_sized ((hp_hdr w)\<lparr>hdr_ah := a\<rparr>)" "ah_next_frag_index a = ah_next_frag_index (hdr_ah (hp_hdr w))"
    using frag_append_ok [OF a(1)] assms(2) by (simp_all add: hdr_sized_def)
  with a(2) show ?thesis by (intro exI [of _ "(hp_hdr w)\<lparr>hdr_ah := a\<rparr>"]) simp
next
  case False
  then obtain h where "libwebsocket_parse limits (hp_hdr w) c = Inr h" "w' = w\<lparr>hp_hdr := h\<rparr>"
    using assms(1) by (auto simp: hpack_char_def hpack_name_char_def split: sum.splits if_splits)
  with libwebsocket_parse_sized [OF this(1) assms(2)] False show ?thesis by blast
qed

lemma hpack_bits_ok:
  assumes "hpack_bits limits n w c = Inr w'" "hdr_sized (hp_hdr w)" "huf_pos_ok (hpack_pos w)"
  shows "\<exists>h p. w' = w\<lparr>hp_hdr := h, hpack_pos := p\<rparr> \<and> hdr_sized h \<and> huf_pos_ok p \<and>
    (hp_value w \<longrightarrow> ah_next_frag_index (hdr_ah h) = ah_next_frag_index (hdr_ah (hp_hdr w)))"
  using assms
proof (induction n arbitrary: w c)
  case 0
  then show ?case by (intro exI [of _ "hp_hdr w"] exI [of _ "hpack_pos w"]) simp
next
  case (Suc n)
  define b where "b = (drop_bit 7 c AND 1 \<noteq> 0)"
  from Suc.prems(3) show ?case
  proof (cases rule: huftable_decode_ok [where b = b])
    case (leaf v)
    have t: "take_bit 16 v = v" using leaf(1) by (simp add: take_bit_nat_eq_self)
    obtain w1 where w1: "hpack_char limits (w\<lparr>hpack_pos := 0\<rparr>) (of_nat v) = Inr w1"
        "hpack_bits limits n w1 (push_bit 1 c) = Inr w'"
      using Suc.prems(1) leaf
      by (auto simp: t Let_def terminal_bits b_def [symmetric] split: sum.splits)
    obtain h where h: "w1 = w\<lparr>hpack_pos := 0, hp_hdr := h\<rparr>" "hdr_sized h"
        "hp_value w \<longrightarrow> ah_next_frag_index (hdr_ah h) = ah_next_frag_index (hdr_ah (hp_hdr w))"
      using hpack_char_ok [OF w1(1)] Suc.prems(2) by auto
    obtain h' p where "w' = w1\<lparr>hp_hdr := h', hpack_pos := p\<rparr>" "hdr_sized h'" "huf_pos_ok p"
        "hp_value w1 \<longrightarrow> ah_next_frag_index (hdr_ah h') = ah_next_frag_index (hdr_ah (hp_hdr w1))"
      using Suc.IH [OF w1(2)] h huf_pos_ok_0 by auto
    with h show ?thesis by (intro exI [of _ h'] exI [of _ p]) simp
  next
    case (jump p')
    have p': "p' < 512" using jump(2) by (rule huf_pos_ok_less)
    then have t: "take_bit 16 p' = p'" by (simp add: take_bit_nat_eq_self)
    have "hpack_bits limits n (w\<lparr>hpack_pos := p'\<rparr>) (push_bit 1 c) = Inr w'"
      using Suc.prems(1) jump(1) p' by (simp add: t Let_def small_bits flip: b_def)
    from Suc.IH [OF this] Suc.prems(2) jump(2) show ?thesis by simp
  qed
qed

lemma add_dyn_ok:
  assumes "lws_hpack_add_dynamic_header mem dyn tok arg = Inr dyn'" "hp_mem_ok mem"
    "\<forall>d. dyn = Some d \<longrightarrow> dyn_ok d"
  shows "\<forall>d. dyn' = Some d \<longrightarrow> dyn_ok d"
proof -
  obtain d d' where d: "(case dyn of None \<Rightarrow> new_dyn_table mem | Some d \<Rightarrow> Inr d) = Inr d"
      "add_dyn_entry d tok arg = Inr d'" "dyn' = Some d'"
    using assms(1) by (auto simp: lws_hpack_add_dynamic_header_def split: sum.splits)
  have "dyn_ok d"
    using d(1) assms(2,3)
    by (auto simp: new_dyn_table_def hp_mem_ok_def dyn_ok_def split: option.splits if_splits)
  with d(2,3) show ?thesis
    by (auto simp: add_dyn_entry_def Let_def dyn_ok_def split: if_splits)
qed

lemma string_end_ok:
  assumes "string_end mem dyn w = Inr s" "hp_mem_ok mem" "\<forall>d. dyn = Some d \<longrightarrow> dyn_ok d"
    "hdr_sized (hp_hdr w)" "huf_pos_ok (hpack_pos w)"
    "hp_value w \<longrightarrow> ah_next_frag_index (hdr_ah (hp_hdr w)) < WSI_TOKEN_COUNT"
  shows "hpack_ok s"
proof -
  obtain dyn' where d: "string_add_dyn mem dyn w = Inr dyn'"
      "(if hp_value w then (case value_end dyn' w of Inl e \<Rightarrow> Inl e | Inr w' \<Rightarrow> Inr (dyn', w'))
        else Inr (dyn', name_end w)) = Inr s"
    using assms(1) by (auto simp: string_end_def split: sum.splits)
  have dyn: "\<forall>d. dyn' = Some d \<longrightarrow> dyn_ok d"
    using d(1) add_dyn_ok [OF _ assms(2,3)] assms(3)
    by (auto simp: string_add_dyn_def split: if_splits sum.splits)
  show ?thesis
  proof (cases "hp_value w")
    case True
    then obtain w' where w': "value_end dyn' w = Inr w'" "s = (dyn', w')"
      using d(2) by (auto split: sum.splits)
    then obtain a where a: "lws_frag_end (hdr_ah (hp_hdr w)) = Inr a" "hpack w' \<noteq> HPKS_DATA"
        "hp_hdr w' = (hp_hdr w)\<lparr>hdr_ah := a\<rparr>" "hpack_pos w' = hpack_pos w"
      by (auto simp: value_end_def upd_ah_Inr split: sum.splits)
    have "hdr_sized (hp_hdr w')"
      using frag_end_ok [OF a(1)] assms(4,6) True by (simp add: a(3) hdr_sized_def)
    with a w'(2) dyn assms(5) show ?thesis by (auto intro!: hpack_okI)
  next
    case False
    then have "s = (dyn', name_end w)" using d(2) by simp
    with dyn assms(4,5) show ?thesis by (auto simp: name_end_def intro!: hpack_okI)
  qed
qed

lemma hpks_data_ok:
  assumes "hpks_data mem limits dyn w c = Inr s" "hp_mem_ok mem" "hpack_ok (dyn, w)" "hpack w = HPKS_DATA"
  shows "hpack_ok s"
proof -
  note ok = hpack_okD [OF assms(3)]
  obtain w1 where w1: "(if huff w then hpack_bits limits 8 w c else hpack_char limits w c) = Inr w1"
      "(if hpack_len w1 - 1 = 0 then string_end mem dyn (w1\<lparr>hpack_len := hpack_len w1 - 1\<rparr>)
        else Inr (dyn, w1\<lparr>hpack_len := hpack_len w1 - 1\<rparr>)) = Inr s"
    using assms(1) by (auto simp: hpks_data_def Let_def split: sum.splits)
  have "\<exists>h p. w1 = w\<lparr>hp_hdr := h, hpack_pos := p\<rparr> \<and> hdr_sized h \<and> huf_pos_ok p \<and>
      (hp_value w \<longrightarrow> ah_next_frag_index (hdr_ah h) = ah_next_frag_index (hdr_ah (hp_hdr w)))"
  proof (cases "huff w")
    case True
    then show ?thesis using w1(1) hpack_bits_ok ok(2,3) by auto
  next
    case False
    then have "hpack_char limits w c = Inr w1" using w1(1) by simp
    from hpack_char_ok [OF this ok(2)] obtain h where "w1 = w\<lparr>hp_hdr := h\<rparr>" "hdr_sized h"
        "hp_value w \<longrightarrow> ah_next_frag_index (hdr_ah h) = ah_next_frag_index (hdr_ah (hp_hdr w))"
      by blast
    then show ?thesis using ok(3) by (intro exI [of _ h] exI [of _ "hpack_pos w"]) simp
  qed
  then obtain h p where h: "w1 = w\<lparr>hp_hdr := h, hpack_pos := p\<rparr>" "hdr_sized h" "huf_pos_ok p"
      "hp_value w \<longrightarrow> ah_next_frag_index (hdr_ah h) < WSI_TOKEN_COUNT"
    using ok(4) assms(4) by auto
  show ?thesis
  proof (cases "hpack_len w1 - 1 = 0")
    case True
    then have "string_end mem dyn (w1\<lparr>hpack_len := hpack_len w1 - 1\<rparr>) = Inr s" using w1(2) by simp
    from string_end_ok [OF this assms(2) ok(1)] show ?thesis using h by simp
  next
    case False
    then show ?thesis using w1(2) ok(1) h by (auto intro!: hpack_okI)
  qed
qed

lemma pre_data_ok:
  assumes "pre_data dyn w = Inr w'" "hdr_sized (hp_hdr w)" "huf_pos_ok (hpack_pos w)"
    "\<forall>d. dyn = Some d \<longrightarrow> dyn_ok d"
  shows "hpack_ok (dyn, w')"
proof (cases "hp_value w")
  case True
  then obtain tok a where "lws_frag_start (hdr_ah (hp_hdr w)) tok = Inr a"
      "w' = w\<lparr>hpack := HPKS_DATA, hp_hdr := (hp_hdr w)\<lparr>hdr_ah := a\<rparr>\<rparr>"
    using assms(1) by (auto simp: pre_data_def upd_ah_Inr split: sum.splits)
  with frag_start_ok [OF this(1)] assms(2-4) show ?thesis
    by (auto simp: hdr_sized_def intro!: hpack_okI)
next
  case False
  then show ?thesis using assms by (auto simp: pre_data_def intro!: hpack_okI)
qed

lemma more_bits_ok:
  "more_bits w c = Inr w' \<Longrightarrow>
     hp_hdr w' = hp_hdr w \<and> hpack_pos w' = hpack_pos w \<and> hpack w' = hpack w \<and> hp_value w' = hp_value w"
  by (auto simp: more_bits_def split: if_splits)

lemma hpks_type_ok:
  assumes "hpks_type dyn w c = Inr w'" "hpack_ok (dyn, w)" "hpack w = HPKS_TYPE"
  shows "hpack_ok (dyn, w')"
proof -
  note ok = hpack_okD [OF assms(2)]
  consider (indexed) a where "lws_write_indexed_hdr dyn (hdr_ah (hp_hdr w)) (uint (c AND 0x7f)) = Inr a"
      "hp_hdr w' = (hp_hdr w)\<lparr>hdr_ah := a\<rparr>" "hpack_pos w' = hpack_pos w" "hpack w' \<noteq> HPKS_DATA"
    | (other) "hp_hdr w' = hp_hdr w" "hpack_pos w' = hpack_pos w" "hpack w' \<noteq> HPKS_DATA"
    using assms(1,3) unfolding hpks_type_def Let_def
    by (auto simp: upd_ah_Inr idx_ext_def indexed_name_def literal_name_def
        lws_hpack_update_table_size_def split: if_splits)
  then show ?thesis
  proof cases
    case indexed
    then show ?thesis
      using ok write_indexed_ok [OF indexed(1)] by (auto simp: hdr_sized_def intro!: hpack_okI)
  next
    case other
    with ok show ?thesis by (auto intro!: hpack_okI)
  qed
qed

lemma hpks_idx_ext_ok:
  assumes "hpks_idx_ext dyn w c = Inr w'" "hpack_ok (dyn, w)" "hpack w = HPKS_IDX_EXT"
  shows "hpack_ok (dyn, w')"
proof -
  note ok = hpack_okD [OF assms(2)]
  obtain w1 where w1: "more_bits w c = Inr w1"
    using assms(1) by (auto simp: hpks_idx_ext_def split: sum.splits)
  note m = more_bits_ok [OF w1]
  consider (indexed) a where "lws_write_indexed_hdr dyn (hdr_ah (hp_hdr w)) (sint (hpack_len w1)) = Inr a"
      "hp_hdr w' = (hp_hdr w)\<lparr>hdr_ah := a\<rparr>" "hpack_pos w' = hpack_pos w" "hpack w' \<noteq> HPKS_DATA"
    | (other) "hp_hdr w' = hp_hdr w" "hpack_pos w' = hpack_pos w" "hpack w' \<noteq> HPKS_DATA"
    using assms(1,3) m by (auto simp: hpks_idx_ext_def w1 upd_ah_Inr split: if_splits)
  then show ?thesis
  proof cases
    case indexed
    then show ?thesis
      using ok write_indexed_ok [OF indexed(1)] by (auto simp: hdr_sized_def intro!: hpack_okI)
  next
    case other
    with ok show ?thesis by (auto intro!: hpack_okI)
  qed
qed

lemma hpks_hlen_ok:
  assumes "hpks_hlen dyn w c = Inr w'" "hpack_ok (dyn, w)" shows "hpack_ok (dyn, w')"
  using assms(1) hpack_okD(1,2) [OF assms(2)] pre_data_ok [of dyn _ w']
  by (auto simp: hpks_hlen_def Let_def huf_pos_ok_0 intro!: hpack_okI split: if_splits)

lemma hpks_hlen_ext_ok:
  assumes "hpks_hlen_ext dyn w c = Inr w'" "hpack_ok (dyn, w)" "hpack w = HPKS_HLEN_EXT"
  shows "hpack_ok (dyn, w')"
proof -
  note ok = hpack_okD [OF assms(2)]
  obtain w1 where w1: "more_bits w c = Inr w1"
    using assms(1) by (auto simp: hpks_hlen_ext_def split: sum.splits)
  note m = more_bits_ok [OF w1]
  show ?thesis
    using assms(1,3) ok m pre_data_ok [of dyn w1 w']
    by (auto simp: hpks_hlen_ext_def w1 intro!: hpack_okI split: if_splits)
qed

lemma hpack_interpret_ok:
  assumes "hp_mem_ok mem" "hpack_ok s" "lws_hpack_interpret mem limits s c = Inr s'"
  shows "hpack_ok s'"
proof -
  obtain dyn w where s: "s = (dyn, w)" by fastforce
  note ok = hpack_okD [OF assms(2) [unfolded s]]
  show ?thesis
  proof (cases "hpack w")
    case HPKS_TYPE
    then show ?thesis using assms by (auto simp: s lws_hpack_interpret_def with_dyn_Inr hpks_type_ok)
  next
    case HPKS_IDX_EXT
    then show ?thesis using assms by (auto simp: s lws_hpack_interpret_def with_dyn_Inr hpks_idx_ext_ok)
  next
    case HPKS_HLEN
    then show ?thesis using assms by (auto simp: s lws_hpack_interpret_def with_dyn_Inr hpks_hlen_ok)
  next
    case HPKS_HLEN_EXT
    then show ?thesis using assms by (auto simp: s lws_hpack_interpret_def with_dyn_Inr hpks_hlen_ext_ok)
  next
    case HPKS_DATA
    then show ?thesis using assms by (auto simp: s lws_hpack_interpret_def dest: hpks_data_ok)
  qed (use assms(3) ok in \<open>auto simp: s lws_hpack_interpret_def Let_def intro!: hpack_okI split: if_splits\<close>)
qed

interpretation hpk: byte_machine "lws_hpack_interpret mem limits" "\<lambda>s. hp_mem_ok mem \<and> hpack_ok s"
  for mem limits
  by unfold_locales (use hpack_interpret_ok in blast)

section \<open>Integers that are misread or cut\<close>

text \<open>An extended size update of the table.\<close>

lemma size_update_run:
  assumes "hpack w = HPKS_TYPE" "31 \<le> n" "n < 2 ^ 28"
  shows "\<exists>w'. run_bytes (lws_hpack_interpret mem limits) (dyn, w) (hpack_int 0x20 31 n) = Inr (dyn, w') \<and>
    hpack w' = HPKS_HLEN \<and> hp_value w' \<and> header_index w' = of_nat n \<and> hp_hdr w' = hp_hdr w"
proof -
  define w1 where "w1 = w\<lparr>hpack_type := HPKT_SIZE_5, hpack_len := 31, hpack_m := 0, hpack := HPKS_IDX_EXT\<rparr>"
  define fin where "fin w = (if hpack_type w = HPKT_INDEXED_HDR_7
      then upd_ah (w\<lparr>hpack := HPKS_TYPE\<rparr>) (lws_write_indexed_hdr dyn (hdr_ah (hp_hdr w)) (sint (hpack_len w)))
      else Inr (w\<lparr>header_index := hpack_len w, hp_value := True, hpack := HPKS_HLEN\<rparr>))"
    for w :: "'a hpack_wsi_scheme"
  have "lws_hpack_interpret mem limits (dyn, w) (0x20 OR of_nat 31) = Inr (dyn, w1)"
    using assms(1) by (simp add: lws_hpack_interpret_def hpks_type_def idx_ext_def with_dyn_def w1_def)
  moreover have "\<exists>m'. run_bytes (lws_hpack_interpret mem limits) (dyn, w1) (int_ext (n - 31)) =
      with_dyn dyn (fin (w1\<lparr>hpack_len := hpack_len w1 + of_nat ((n - 31) * 2 ^ 0), hpack_m := m'\<rparr>))"
    using assms(3) by (intro ext_run [where st = HPKS_IDX_EXT])
      (auto simp: w1_def lws_hpack_interpret_def hpks_idx_ext_def with_dyn_def fin_def split: sum.split)
  then obtain m' where "run_bytes (lws_hpack_interpret mem limits) (dyn, w1) (int_ext (n - 31)) =
      with_dyn dyn (fin (w1\<lparr>hpack_len := hpack_len w1 + of_nat (n - 31), hpack_m := m'\<rparr>))" by auto
  moreover have "31 + of_nat (n - 31) = (of_nat n :: u32)"
    using assms(2) by (metis of_nat_add of_nat_numeral le_add_diff_inverse)
  ultimately show ?thesis
    using assms(2) by (simp add: hpack_int_def fin_def w1_def with_dyn_def del: of_nat_diff)
qed

text \<open>The encoder of numbers leaves the last byte of the extension out.\<close>

lemma num_byte: "0x80 OR (of_nat (n AND 0x7f) :: byte) = of_nat (128 + n mod 128)"
proof -
  have "n AND 0x7f = n mod 128" by (rule and_0x7f)
  moreover have "(0x80::byte) AND of_nat (n mod 128) = 0"
    using byte_and_80 [of "n mod 128"] by (simp add: and.commute)
  then have "0x80 OR of_nat (n mod 128) = (0x80 + of_nat (n mod 128) :: byte)"
    by (simp add: disjunctive_add bit_eq_iff bit_and_iff)
  ultimately show ?thesis by simp
qed

lemma num_loop_eq:
  assumes "e \<le> length buf" "p + length (int_ext n) \<le> e"
  shows "http2_num_loop e n (p, buf) =
    Inr (p + length (butlast (int_ext n)),
         take p buf @ butlast (int_ext n) @ drop (p + length (butlast (int_ext n))) buf)"
  using assms
proof (induction n arbitrary: p buf rule: int_ext.induct)
  case (1 n)
  show ?case
  proof (cases "n < 128")
    case True
    then show ?thesis by (simp add: http2_num_loop.simps int_ext.simps)
  next
    case False
    define x where "x = (of_nat (128 + n mod 128) :: byte)"
    have e: "int_ext n = x # int_ext (n div 128)" using False by (subst int_ext.simps) (simp add: x_def)
    have ne: "int_ext (n div 128) \<noteq> []" by (subst int_ext.simps) simp
    then have l: "0 < length (int_ext (n div 128))" by simp
    have "p + Suc (length (int_ext (n div 128))) \<le> e" using "1.prems"(2) by (simp add: e)
    with l "1.prems"(1) have p: "p < length buf" "p + 1 < e" by linarith+
    have "in_room e (put_byte (p, buf) (\<lambda>_. 0x80 OR of_nat (n AND 0x7f))) = Inr (p + 1, buf[p := x])"
      using p by (simp add: in_room_def put_byte_def num_byte x_def)
    then have "http2_num_loop e n (p, buf) = http2_num_loop e (n div 128) (p + 1, buf[p := x])"
      using False by (subst http2_num_loop.simps) (simp add: drop_bit_eq_div)
    also have "\<dots> = Inr (p + 1 + length (butlast (int_ext (n div 128))),
         take (p + 1) (buf[p := x]) @ butlast (int_ext (n div 128)) @
         drop (p + 1 + length (butlast (int_ext (n div 128)))) (buf[p := x]))"
      using "1.prems" e False by (intro "1.IH") simp_all
    also have "take (p + 1) (buf[p := x]) = take p buf @ [x]"
      using p by (simp add: take_Suc_conv_app_nth)
    finally show ?thesis using ne by (cases "int_ext (n div 128)") (simp_all add: e)
  qed
qed

lemma http2_num_cut:
  assumes "127 \<le> n" "e \<le> length buf" "p + length (hpack_int 0 127 n) \<le> e" "buf ! p = 0"
  shows "lws_http2_num 7 n (p, buf) e =
    Inr (p + length (hpack_int 0 127 n) - 1,
         take p buf @ butlast (hpack_int 0 127 n) @ drop (p + length (hpack_int 0 127 n) - 1) buf)"
proof -
  have ne: "int_ext (n - 127) \<noteq> []" by (subst int_ext.simps) simp
  then have l: "0 < length (int_ext (n - 127))" by simp
  have h: "hpack_int 0 127 n = 0x7f # int_ext (n - 127)" using assms(1) by (simp add: hpack_int_def)
  have "p + Suc (length (int_ext (n - 127))) \<le> e" using assms(3) by (simp add: h)
  with l assms(2) have p: "p < length buf" "p + 1 < e" by linarith+
  have "in_room e (put_byte (p, buf) (\<lambda>b. b OR of_nat 127)) = Inr (p + 1, buf[p := 0x7f])"
    using p assms(4) by (simp add: in_room_def put_byte_def)
  then have "lws_http2_num 7 n (p, buf) e = http2_num_loop e (n - 127) (p + 1, buf[p := 0x7f])"
    using assms(1) by (simp add: lws_http2_num_def)
  also have "\<dots> = Inr (p + 1 + length (butlast (int_ext (n - 127))),
       take (p + 1) (buf[p := 0x7f]) @ butlast (int_ext (n - 127)) @
       drop (p + 1 + length (butlast (int_ext (n - 127)))) (buf[p := 0x7f]))"
    using assms(2,3) by (intro num_loop_eq) (simp_all add: h)
  also have "take (p + 1) (buf[p := 0x7f]) = take p buf @ [0x7f]"
    using p by (simp add: take_Suc_conv_app_nth)
  finally show ?thesis using ne l by (simp add: h)
qed

section \<open>Empty strings and literal names\<close>

lemma empty_value_run:
  assumes "hpack w = HPKS_HLEN" "hp_value w" "0 < i" "i < 62" "header_index w = of_nat i"
    "hdr_sized (hp_hdr w)" "ah_next_frag_index (hdr_ah (hp_hdr w)) < 79" "ah_pos (hdr_ah (hp_hdr w)) < 1023"
  shows "\<exists>w'. run_bytes (lws_hpack_interpret mem limits) (dyn, w) [0, c] = Inr (dyn, w') \<and>
    hpack w' = HPKS_DATA \<and> unat (hpack_len w') = 2 ^ 32 - 1 \<and>
    ah_pos (hdr_ah (hp_hdr w')) = ah_pos (hdr_ah (hp_hdr w)) + 1"
proof -
  let ?a = "hdr_ah (hp_hdr w)" and ?t = "static_token ! i"
  have t: "0 < ?t" "?t < 79" using static_token_bounds assms(3,4) by auto
  have s: "ah_sized ?a" using assms(6) by (simp add: hdr_sized_def)
  obtain a1 where a1: "lws_frag_start ?a (int ?t) = Inr a1" using t assms(7) by (simp add: lws_frag_start_def)
  have a1s: "ah_sized a1" "ah_pos a1 = ah_pos ?a" "ah_next_frag_index a1 < 79"
    using frag_start_ok [OF a1 s] a1 by (auto simp: lws_frag_start_def split: if_splits)
  define w1 where "w1 = w\<lparr>huff := False, hpack_pos := 0, hpack_len := 0,
      hp_hdr := (hp_hdr w)\<lparr>hdr_ah := a1\<rparr>, hpack := HPKS_DATA\<rparr>"
  have "lws_hpack_interpret mem limits (dyn, w) 0 = Inr (dyn, w1)"
    using assms(1,2,5) a1 token_static [OF assms(4), of dyn]
    by (simp add: lws_hpack_interpret_def hpks_hlen_def pre_data_def upd_ah_def with_dyn_def w1_def Let_def)
  moreover have "lws_frag_append a1 c = Inr (appended a1 [c])"
    using a1s assms(8) by (simp add: lws_frag_append_eq)
  then have "lws_hpack_interpret mem limits (dyn, w1) c =
      Inr (dyn, w1\<lparr>hp_hdr := (hp_hdr w1)\<lparr>hdr_ah := appended a1 [c]\<rparr>, hpack_len := - 1\<rparr>)"
    using assms(2) by (simp add: lws_hpack_interpret_def hpks_data_def hpack_char_def upd_ah_def w1_def Let_def)
  ultimately show ?thesis using a1s(2) by (simp add: w1_def unsigned_minus_1_eq_mask mask_eq_exp_minus_1)
qed

text \<open>
  A name without the character that ends the strings of the lexer: each string but the empty line
  ends in a colon or a space.
\<close>

definition plain_name :: "byte list \<Rightarrow> bool" where
  "plain_name nm \<longleftrightarrow> 0x3a \<notin> set nm \<and> 0x20 \<notin> set nm \<and> 0x0a \<notin> set nm"

lemma lex_strings_end:
  "\<forall>s\<in>set (take 73 lex_strings). s \<noteq> [] \<and> last s \<in> {CHR '':'', CHR '' '', CHR 0x0a}"
  by (simp add: lex_strings_def)

lemma lex_codes_end: "n < 73 \<Longrightarrow> lex_codes n \<noteq> [] \<and> last (lex_codes n) \<in> {0x3a, 0x20, 0x0a}"
proof -
  assume n: "n < 73"
  moreover have "length lex_strings = 74" by (simp add: lex_strings_def)
  ultimately have "lex_strings ! n \<in> set (take 73 lex_strings)"
    using nth_mem [of n "take 73 lex_strings"] by simp
  with lex_strings_end have "lex_strings ! n \<noteq> []" "last (lex_strings ! n) \<in> {CHR '':'', CHR '' '', CHR 0x0a}"
    by blast+
  then show ?thesis by (auto simp: lex_codes_def last_map)
qed

lemma tolower_end: "tolower x \<in> {0x3a, 0x20, 0x0a} \<Longrightarrow> x < 256 \<Longrightarrow> x \<in> {0x3a, 0x20, 0x0a}"
  by (auto simp: tolower_def split: if_splits)

lemma plain_name_no_hit:
  assumes "plain_name nm" shows "lex_run 0 (map unat nm) \<noteq> Some (Lex_hit n rest)"
proof
  assume "lex_run 0 (map unat nm) = Some (Lex_hit n rest)"
  then obtain w where w: "n < 73" "map unat nm = w @ rest" "map tolower w = lex_codes n"
    using lex_run_hit by blast
  have "map tolower w \<noteq> []" "last (map tolower w) \<in> {0x3a, 0x20, 0x0a}"
    using lex_codes_end [OF w(1)] w(3) by simp_all
  then have ne: "w \<noteq> []" and "tolower (last w) \<in> {0x3a, 0x20, 0x0a}"
    by (simp_all only: last_map list.map_disc_iff not_False_eq_True)
  moreover obtain b where b: "b \<in> set nm" "last w = unat b"
    using ne w(2) by (metis (no_types, opaque_lifting) append_is_Nil_conv imageE in_set_conv_decomp last_in_set list.set_map Un_iff set_append)
  ultimately have "unat b \<in> {0x3a, 0x20, 0x0a}"
    using tolower_end [of "unat b"] unat_byte_less [of b] by metis
  then have "b \<in> {0x3a, 0x20, 0x0a}" by (auto simp: word_unat_eq_iff)
  with b(1) assms show False by (auto simp: plain_name_def)
qed

text \<open>The four tokens whose presence lets the parser skip an unknown name.\<close>

definition no_request_line :: "allocated_headers \<Rightarrow> bool" where
  "no_request_line a \<longleftrightarrow> ah_frag_index a ! WSI_TOKEN_GET_URI = 0 \<and> ah_frag_index a ! WSI_TOKEN_POST_URI = 0 \<and>
     ah_frag_index a ! WSI_TOKEN_OPTIONS_URI = 0 \<and> ah_frag_index a ! WSI_TOKEN_HTTP = 0"

lemma name_char_step:
  assumes "lex_run p (unat c # cs) = Some r" "\<nexists>n rest. r = Lex_hit n rest"
    "parser_state h = 80" "lextable_pos h = int p" "no_request_line (hdr_ah h)"
  shows "(hpack_name_char limits h c = Inl Hp_reject \<and> r = Lex_fail) \<or>
    (\<exists>q. hpack_name_char limits h c = Inr (h\<lparr>lextable_pos := int q\<rparr>) \<and> lex_run q cs = Some r)"
proof -
  have h: "hpack_name_char limits h c =
      (case name_part limits h c of Inl e \<Rightarrow> Inl (hp_error e) | Inr h' \<Rightarrow> Inr h')"
    using assms(3,4) by (simp add: hpack_name_char_def libwebsocket_parse_def parse_body_def)
  obtain q where q: "lextable_decode p (unat c) = Some q"
    using assms(1) by (auto split: option.splits)
  show ?thesis
  proof (cases "q < 0")
    case True
    then show ?thesis
      using assms q h by (auto simp: name_part_def no_request_line_def Let_def)
  next
    case False
    then have "nat q < length lextable" "\<not> lextable ! nat q < FAIL_CHAR" "lex_run (nat q) cs = Some r"
      using assms(1,2) q by (auto split: if_splits)
    with False q assms(4) h show ?thesis
      by (intro disjI2 exI [of _ "nat q"]) (simp add: name_part_def Let_def)
  qed
qed

lemma name_run:
  assumes "hpack w = HPKS_DATA" "\<not> hp_value w" "\<not> huff w" "cs \<noteq> []" "unat (hpack_len w) = length cs"
    "lex_run p (map unat cs) = Some r" "\<nexists>n rest. r = Lex_hit n rest"
    "parser_state (hp_hdr w) = 80" "lextable_pos (hp_hdr w) = int p" "no_request_line (hdr_ah (hp_hdr w))"
  shows "run_bytes (lws_hpack_interpret mem limits) (dyn, w) cs = Inl Hp_reject \<or>
    (\<exists>q. run_bytes (lws_hpack_interpret mem limits) (dyn, w) cs =
       string_end mem dyn (w\<lparr>hp_hdr := (hp_hdr w)\<lparr>lextable_pos := int q\<rparr>, hpack_len := 0\<rparr>))"
  using assms
proof (induction cs arbitrary: w p)
  case (Cons c cs)
  have lex: "lex_run p (unat c # map unat cs) = Some r" using Cons.prems(6) by simp
  from name_char_step [OF lex Cons.prems(7-10), of limits] show ?case
  proof
    assume "hpack_name_char limits (hp_hdr w) c = Inl Hp_reject \<and> r = Lex_fail"
    then show ?thesis
      using Cons.prems(1-3) by (simp add: lws_hpack_interpret_def hpks_data_def hpack_char_def)
  next
    assume "\<exists>q. hpack_name_char limits (hp_hdr w) c = Inr ((hp_hdr w)\<lparr>lextable_pos := int q\<rparr>) \<and>
        lex_run q (map unat cs) = Some r"
    then obtain q where q: "hpack_name_char limits (hp_hdr w) c = Inr ((hp_hdr w)\<lparr>lextable_pos := int q\<rparr>)"
        "lex_run q (map unat cs) = Some r" by blast
    define w1 where "w1 = w\<lparr>hp_hdr := (hp_hdr w)\<lparr>lextable_pos := int q\<rparr>, hpack_len := hpack_len w - 1\<rparr>"
    have step: "lws_hpack_interpret mem limits (dyn, w) c =
        (if hpack_len w1 = 0 then string_end mem dyn w1 else Inr (dyn, w1))"
      using Cons.prems(1-3) q(1)
      by (simp add: lws_hpack_interpret_def hpks_data_def hpack_char_def w1_def Let_def)
    have len: "unat (hpack_len w1) = length cs" using Cons.prems(5) by (simp add: w1_def unat_pred)
    show ?thesis
    proof (cases "cs = []")
      case True
      with len step have "run_bytes (lws_hpack_interpret mem limits) (dyn, w) (c # cs) =
          string_end mem dyn (w\<lparr>hp_hdr := (hp_hdr w)\<lparr>lextable_pos := int q\<rparr>, hpack_len := 0\<rparr>)"
        by (auto simp: w1_def unat_eq_0 split: sum.split)
      then show ?thesis by blast
    next
      case False
      then have "hpack_len w1 \<noteq> 0" using len by auto
      with step have r: "run_bytes (lws_hpack_interpret mem limits) (dyn, w) (c # cs) =
          run_bytes (lws_hpack_interpret mem limits) (dyn, w1) cs" by simp
      show ?thesis
        using Cons.IH [of w1 q] Cons.prems(1-3,7-10) False len q(2) unfolding r by (simp add: w1_def)
    qed
  qed
qed simp

lemma literal_name_run:
  assumes "hpack w = HPKS_TYPE" "plain_name nm" "nm \<noteq> []" "length nm < 127"
    "lextable_pos (hp_hdr w) = 0" "no_request_line (hdr_ah (hp_hdr w))"
  shows "run_bytes (lws_hpack_interpret mem limits) (dyn, w) (0 # of_nat (length nm) # nm) = Inl Hp_reject \<or>
    (\<exists>w'. run_bytes (lws_hpack_interpret mem limits) (dyn, w) (0 # of_nat (length nm) # nm) = Inr (dyn, w') \<and>
       hpack w' = HPKS_HLEN \<and> \<not> hp_value w' \<and> hdr_ah (hp_hdr w') = hdr_ah (hp_hdr w))"
proof -
  define w1 where "w1 = literal_name w HPKT_LITERAL_HDR_VALUE"
  have 1: "lws_hpack_interpret mem limits (dyn, w) 0 = Inr (dyn, w1)"
    using assms(1) by (simp add: lws_hpack_interpret_def hpks_type_def with_dyn_def w1_def)
  define w2 where "w2 = w1\<lparr>huff := False, hpack_pos := 0, hpack_len := of_nat (length nm),
      hp_hdr := (hp_hdr w1)\<lparr>parser_state := WSI_TOKEN_NAME_PART\<rparr>, hpack := HPKS_DATA\<rparr>"
  have "(of_nat (length nm) :: byte) AND 0x80 = 0" "(of_nat (length nm) :: byte) AND 0x7f = of_nat (length nm)"
    using assms(4) by (simp_all add: byte_and_80 byte_and_7f)
  moreover have "(ucast (of_nat (length nm) :: byte) :: u32) = of_nat (length nm)"
    using assms(4) by (simp add: unsigned_of_nat take_bit_nat_eq_self)
  moreover have "(of_nat (length nm) :: u32) < 0x7f"
    using assms(4) by (simp add: word_less_nat_alt unat_of_nat)
  ultimately have 2: "lws_hpack_interpret mem limits (dyn, w1) (of_nat (length nm)) = Inr (dyn, w2)"
    by (simp add: lws_hpack_interpret_def hpks_hlen_def pre_data_def with_dyn_def w1_def w2_def
        literal_name_def Let_def)
  obtain r where r: "lex_run 0 (map unat nm) = Some r" using lex_run_total by blast
  have nohit: "\<nexists>n rest. r = Lex_hit n rest" using plain_name_no_hit [OF assms(2)] r by auto
  have "unat (hpack_len w2) = length nm" using assms(4) by (simp add: w2_def unat_of_nat)
  then have "run_bytes (lws_hpack_interpret mem limits) (dyn, w2) nm = Inl Hp_reject \<or>
    (\<exists>q. run_bytes (lws_hpack_interpret mem limits) (dyn, w2) nm =
       string_end mem dyn (w2\<lparr>hp_hdr := (hp_hdr w2)\<lparr>lextable_pos := int q\<rparr>, hpack_len := 0\<rparr>))"
    using r nohit assms by (intro name_run [where p = 0 and r = r]) (simp_all add: w2_def w1_def literal_name_def)
  then show ?thesis
  proof
    assume "run_bytes (lws_hpack_interpret mem limits) (dyn, w2) nm = Inl Hp_reject"
    then show ?thesis using 1 2 by simp
  next
    assume "\<exists>q. run_bytes (lws_hpack_interpret mem limits) (dyn, w2) nm =
       string_end mem dyn (w2\<lparr>hp_hdr := (hp_hdr w2)\<lparr>lextable_pos := int q\<rparr>, hpack_len := 0\<rparr>)"
    then obtain q where q: "run_bytes (lws_hpack_interpret mem limits) (dyn, w2) nm =
       string_end mem dyn (w2\<lparr>hp_hdr := (hp_hdr w2)\<lparr>lextable_pos := int q\<rparr>, hpack_len := 0\<rparr>)" ..
    then show ?thesis
      using 1 2 by (simp add: string_end_def string_add_dyn_def hpack_incr_type_def name_end_def
          w2_def w1_def literal_name_def)
  qed
qed

section \<open>What goes wrong\<close>

text \<open>A value that does not fit the buffer of the log.\<close>

lemma filed_dump_long:
  assumes "ah_sized a" "0 < ah_next_frag_index a" "ah_next_frag_index a < 79" "tok < 79" "198 \<le> length v"
  shows "lws_dump_header (filed a tok v) (int tok) = Inl Hp_overrun"
  using assms filed_length(1) [OF assms(1-4), of v]
  by (simp add: lws_dump_header_def lws_hdr_copy_def)

lemma long_value_run:
  assumes "hpack w = HPKS_DATA" "hp_value w" "\<not> huff w" "v \<noteq> []" "unat (hpack_len w) = length v"
    "\<not> hpack_incr_type (hpack_type w)" "0 < i" "i < 62" "header_index w = of_nat i"
    "ah_sized a" "0 < ah_next_frag_index a" "ah_next_frag_index a < 79"
    "ah_pos a + length v + 1 < 1024" "198 \<le> length v"
    "lws_frag_start a (int (static_token ! i)) = Inr (hdr_ah (hp_hdr w))"
  shows "run_bytes (lws_hpack_interpret mem limits) (dyn, w) v = Inl Hp_overrun"
proof -
  let ?t = "static_token ! i"
  have t: "0 < ?t" "?t < 79" using static_token_bounds assms(7,8) by auto
  obtain a1 where "lws_frag_start a (int ?t) = Inr a1" "frag_append_all a1 v = Inr (appended a1 v)"
      "lws_frag_end (appended a1 v) = Inr (filed a ?t v)"
    using frag_start_append_end [OF assms(10,12) t assms(13)] by metis
  with assms(15) have a1: "frag_append_all (hdr_ah (hp_hdr w)) v = Inr (appended (hdr_ah (hp_hdr w)) v)"
      "lws_frag_end (appended (hdr_ah (hp_hdr w)) v) = Inr (filed a ?t v)" by simp_all
  have "run_bytes (lws_hpack_interpret mem limits) (dyn, w) v = string_end mem dyn
      (w\<lparr>hp_hdr := (hp_hdr w)\<lparr>hdr_ah := appended (hdr_ah (hp_hdr w)) v\<rparr>, hpack_pos := hpack_pos w, hpack_len := 0\<rparr>)"
    using assms(1-5) a1(1) by (intro data_run) (simp_all add: hp_decodes_def)
  then show ?thesis
    using assms(2,6) a1(2) token_static [OF assms(8), of dyn] filed_dump_long [OF assms(10-12) t(2) assms(14)]
    by (simp add: string_end_def string_add_dyn_def value_end_def assms(9))
qed

lemma literal_long_run:
  assumes "hpack w = HPKS_TYPE" "0 < i" "i < 62"
    "a = hdr_ah (hp_hdr w)" "ah_sized a" "0 < ah_next_frag_index a" "ah_next_frag_index a < 79"
    "ah_pos a + length v + 1 < 1024" "198 \<le> length v"
  shows "run_bytes (lws_hpack_interpret mem limits) (dyn, w)
      (hpack_int 0 15 i @ hpack_int 0 127 (length v) @ v) = Inl Hp_overrun"
proof -
  let ?R = "run_bytes (lws_hpack_interpret mem limits)"
  obtain n m where 1: "?R (dyn, w) (hpack_int 0 15 i) =
      Inr (dyn, w\<lparr>hpack_type := HPKT_INDEXED_HDR_4_VALUE, header_index := of_nat i, hpack_len := n,
               hpack_m := m, hp_value := True, hpack := HPKS_HLEN\<rparr>)"
    using name_index_run [OF assms(1-3)] by blast
  define w1 where "w1 = w\<lparr>hpack_type := HPKT_INDEXED_HDR_4_VALUE, header_index := of_nat i,
      hpack_len := n, hpack_m := m, hp_value := True, hpack := HPKS_HLEN\<rparr>"
  have h1: "hpack w1 = HPKS_HLEN" "length v < 2 ^ 28" using assms(8) by (simp_all add: w1_def)
  obtain m' where 2: "?R (dyn, w1) (hpack_int 0 127 (length v)) =
      with_dyn dyn (pre_data dyn (w1\<lparr>huff := False, hpack_pos := 0, hpack_len := of_nat (length v), hpack_m := m'\<rparr>))"
    using hlen_run [OF h1, of 0 False] by fastforce
  have "0 < static_token ! i" "static_token ! i < 79" using static_token_bounds assms(2,3) by auto
  then obtain a1 where a1: "lws_frag_start a (int (static_token ! i)) = Inr a1"
    using assms(7) by (simp add: lws_frag_start_def)
  define w2 where "w2 = w1\<lparr>huff := False, hpack_pos := 0, hpack_len := of_nat (length v), hpack_m := m',
      hp_hdr := (hp_hdr w1)\<lparr>hdr_ah := a1\<rparr>, hpack := HPKS_DATA\<rparr>"
  have "pre_data dyn (w1\<lparr>huff := False, hpack_pos := 0, hpack_len := of_nat (length v), hpack_m := m'\<rparr>) = Inr w2"
    using a1 token_static [OF assms(3), of dyn] assms(4)
    by (simp add: pre_data_def w1_def w2_def upd_ah_def)
  moreover have "?R (dyn, w2) v = Inl Hp_overrun"
    using assms h1(2) a1 by (intro long_value_run [of _ _ i a]) (auto simp: w1_def w2_def unat_of_nat hpack_incr_type_def)
  ultimately show ?thesis using 1 2 by (simp add: run_bytes_append w1_def [symmetric] with_dyn_def)
qed

section \<open>The encoder\<close>

lemma put_string_short:
  assumes "p + length xs + 1 < e" "e \<le> length buf" "length xs < 127"
  shows "put_string xs (p, buf) e =
    Inr (p + 1 + length xs,
         take p buf @ of_nat (length xs) # xs @ drop (p + 1 + length xs) buf)"
proof -
  have "lws_http2_num 7 (length xs) (p, buf[p := 0]) e = Inr (p + 1, buf[p := of_nat (length xs)])"
    using assms by (simp add: lws_http2_num_def put_byte_def in_room_def)
  then show ?thesis
    using assms by (simp add: put_string_def put_bytes_def upd_conv_take_nth_drop add.commute)
qed

lemma add_header_short:
  assumes "length (strip_colon name) < 127" "length val < 127" "e \<le> length buf"
    "p + length (strip_colon name) + length val + 8 \<le> e"
  shows "lws_add_http2_header_by_name name val (p, buf) e =
    Inr (p + 3 + length (strip_colon name) + length val,
         take p buf @ [0, of_nat (length (strip_colon name))] @ strip_colon name @
         [of_nat (length val)] @ val @
         drop (p + 3 + length (strip_colon name) + length val) buf)"
proof -
  let ?n = "strip_colon name"
  define buf1 where "buf1 = buf[p := 0]"
  define buf2 where "buf2 = take (p + 1) buf1 @ of_nat (length ?n) # ?n @ drop (p + 2 + length ?n) buf1"
  have l: "length buf1 = length buf" "length buf2 = length buf"
    using assms by (simp_all add: buf1_def buf2_def)
  have "put_byte (p, buf) (\<lambda>_. 0) = Inr (p + 1, buf1)"
    using assms by (simp add: put_byte_def buf1_def)
  moreover have "put_string ?n (p + 1, buf1) e = Inr (p + 2 + length ?n, buf2)"
    using put_string_short [of "p + 1" ?n e buf1] assms l by (simp add: buf2_def)
  moreover have "put_string val (p + 2 + length ?n, buf2) e =
      Inr (p + 3 + length ?n + length val,
           take (p + 2 + length ?n) buf2 @ of_nat (length val) # val @ drop (p + 3 + length ?n + length val) buf2)"
    using put_string_short [of "p + 2 + length ?n" val e buf2] assms l by (simp add: numeral_3_eq_3)
  moreover have "take (p + 2 + length ?n) buf2 = take p buf @ [0, of_nat (length ?n)] @ ?n"
    using assms by (simp add: buf2_def buf1_def upd_conv_take_nth_drop)
  moreover have "drop (p + 3 + length ?n + length val) buf2 = drop (p + 3 + length ?n + length val) buf"
    using assms by (simp add: buf2_def buf1_def eval_nat_numeral add_ac)
  ultimately show ?thesis using assms by (simp add: lws_add_http2_header_by_name_def Let_def)
qed

section \<open>Properties\<close>

text \<open>A concrete connection: zeroed memory, one header already filed.\<close>

definition zero_hpack :: hpack_wsi where
  "zero_hpack =
     \<lparr>hp_hdr = zero_hdr\<lparr>hdr_ah := (hdr_ah zero_hdr)\<lparr>ah_next_frag_index := 1\<rparr>\<rparr>,
      hpack = HPKS_TYPE, hpack_type = HPKT_INDEXED_HDR_7, header_index = 0, hpack_len = 0, hpack_pos = 0,
      hpack_m = 0, hpack_e_dep = 0, huff = False, hp_value = False, h2_count = 0, h2_length = 0,
      h2_flags = 0, h2_padding = 0\<rparr>"

lemma zero_hpack_simps [simp]:
  "hpack zero_hpack = HPKS_TYPE" "hp_hdr zero_hpack = zero_hdr\<lparr>hdr_ah := (hdr_ah zero_hdr)\<lparr>ah_next_frag_index := 1\<rparr>\<rparr>"
  "hpack_pos zero_hpack = 0"
  by (simp_all add: zero_hpack_def)

lemma zero_hdr_sized: "ah_sized ((hdr_ah zero_hdr)\<lparr>ah_next_frag_index := n\<rparr>)" "ah_pos (hdr_ah zero_hdr) = 0"
  by (simp_all add: ah_sized_def zero_hdr_def)

definition no_mem :: hpack_mem where
  "no_mem = \<lparr>mem_dyn = False, mem_args = None, mem_entries = None\<rparr>"

text \<open>
  C32. A header with a literal value is decoded and filed: for every name of the static table and
  every value of fewer than 198 bytes without NULs, plain or Huffman-coded, the bytes RFC 7541
  writes for it take the decoder from the start of a field to its end, and the value is then found
  under the token of the name, NUL-terminated, with a length that counts the NUL; the other
  headers are where they were. The header table must already hold a header.
\<close>

theorem hpack_literal_filed:
  assumes "hpack w = HPKS_TYPE" "0 < i" "i < 62"
    and "a = hdr_ah (hp_hdr w)" "ah_sized a" "0 < ah_next_frag_index a" "ah_next_frag_index a < 79"
    and "v \<noteq> []" "0 \<notin> set v" "length v < 198" "ah_pos a + length v + 1 < 1024"
  shows "\<exists>w' b. run_bytes (lws_hpack_interpret mem limits) (dyn, w)
      (hpack_int 0 15 i @ hpack_int (if h then 0x80 else 0) 127 (length (string_payload h v)) @
       string_payload h v) = Inr (dyn, w') \<and>
    b = hdr_ah (hp_hdr w') \<and>
    lws_hdr_total_length b (static_token ! i) = Some (length v + 1) \<and>
    lws_hdr_simple_ptr b (static_token ! i) = Some (ah_pos a) \<and>
    c_string (ah_data b) (ah_pos a) = Some v \<and>
    (\<forall>t. t \<noteq> static_token ! i \<longrightarrow> ah_frag_index b ! t = ah_frag_index a ! t)"
proof -
  obtain q where "hp_decodes h 0 (string_payload h v) v q" using string_payload_decodes(3) assms by fastforce
  then obtain w' where w': "run_bytes (lws_hpack_interpret mem limits) (dyn, w)
      (hpack_int 0 15 i @ hpack_int (if h then 0x80 else 0) 127 (length (string_payload h v)) @
       string_payload h v) = Inr (dyn, w')" "hdr_ah (hp_hdr w') = filed a (static_token ! i) v"
    using literal_header_run [of w i v "string_payload h v" h q mem limits dyn] assms
      string_payload_decodes(1,2) [of v h] by auto
  have "takeWhile (\<lambda>b. b \<noteq> 0) v = v" using assms(9) by (auto simp: takeWhile_eq_all_conv)
  then have "c_string (ah_data (filed a (static_token ! i) v)) (ah_pos a) = Some v"
    using filed_string [of a v] assms by simp
  moreover have "static_token ! i < 79" using static_token_bounds assms(2,3) by blast
  ultimately show ?thesis using w' filed_length [of a "static_token ! i" v] assms by auto
qed


theorem hpack_literal_filed_witness:
  "\<exists>w' b. run_bytes (lws_hpack_interpret no_mem None) (None, zero_hpack)
      (hpack_int 0 15 32 @ hpack_int 0x80 127 (length (string_payload True (bytes ''a=b''))) @
       string_payload True (bytes ''a=b'')) = Inr (None, w') \<and>
    b = hdr_ah (hp_hdr w') \<and>
    lws_hdr_total_length b 26 = Some 4 \<and>
    lws_hdr_simple_ptr b 26 = Some 0 \<and>
    c_string (ah_data b) 0 = Some (bytes ''a=b'') \<and>
    (\<forall>t. t \<noteq> 26 \<longrightarrow> ah_frag_index b ! t = 0 \<or> 79 \<le> t)"
proof -
  have "static_token ! 32 = 26" by (simp add: static_token_def)
  moreover have "ah_frag_index (hdr_ah zero_hdr) ! t = 0 \<or> 79 \<le> t" for t
    by (cases "t < 79") (simp_all add: zero_hdr_def)
  ultimately show ?thesis
    using hpack_literal_filed [of zero_hpack 32 _ "bytes ''a=b''" no_mem None None True, OF _ _ _ refl]
    by (auto simp: zero_hdr_sized bytes_def)
qed

text \<open>
  An indexed field of the static table files the name and the value of its entry, unless the
  header table is empty: the first field of a block that is decoded into a new table is given
  fragment 0, which the header functions take for absent, so it is lost.
\<close>

theorem hpack_first_field_lost:
  assumes "hpack w = HPKS_TYPE" "a = hdr_ah (hp_hdr w)" "ah_sized a"
    "ah_next_frag_index a < 79" "ah_pos a + 14 < 1024" "0 < i" "i < 62"
  shows "\<exists>w' b. lws_hpack_interpret mem limits (dyn, w) (0x80 OR of_nat i) = Inr (dyn, w') \<and>
    b = hdr_ah (hp_hdr w') \<and> ah_next_frag_index b = ah_next_frag_index a + 1 \<and>
    (if ah_next_frag_index a = 0
     then lws_hdr_total_length b (static_token ! i) = Some 0 \<and>
          lws_hdr_simple_ptr b (static_token ! i) = None
     else lws_hdr_simple_ptr b (static_token ! i) = Some (ah_pos a) \<and>
          c_string (ah_data b) (ah_pos a) = Some (canned_value (int i)))"
proof -
  let ?t = "static_token ! i" and ?v = "canned_value (int i)"
  obtain w' where w': "lws_hpack_interpret mem limits (dyn, w) (0x80 OR of_nat i) = Inr (dyn, w')"
      "hdr_ah (hp_hdr w') = filed a ?t ?v"
    using indexed_step [of w i mem limits dyn] assms by auto
  have t: "?t < 79" using static_token_bounds assms(6,7) by blast
  have l: "length (ah_frag_index a) = 79" using assms(3) by (simp add: ah_sized_def)
  have "takeWhile (\<lambda>b. b \<noteq> 0) ?v = ?v" using canned_no_nul by (auto simp: takeWhile_eq_all_conv)
  then have "c_string (ah_data (filed a ?t ?v)) (ah_pos a) = Some ?v"
    using filed_string [of a ?v] assms(3,5) length_canned [of "int i"] by simp
  then show ?thesis
    using w' t l filed_length(2) [OF assms(3) _ assms(4) t, of ?v]
    by (auto simp: lws_hdr_total_length_def lws_hdr_simple_ptr_def)
qed

theorem hpack_first_field_lost_witness:
  "\<exists>w' b. lws_hpack_interpret no_mem None (None, zero_hpack\<lparr>hp_hdr := zero_hdr\<rparr>) 0x82 = Inr (None, w') \<and>
    b = hdr_ah (hp_hdr w') \<and> lws_hdr_total_length b 36 = Some 0 \<and> lws_hdr_simple_ptr b 36 = None"
proof -
  have "ah_sized (hdr_ah zero_hdr)" "ah_next_frag_index (hdr_ah zero_hdr) = 0" "static_token ! 2 = 36"
    by (simp_all add: ah_sized_def zero_hdr_def static_token_def)
  then show ?thesis
    using hpack_first_field_lost [of "zero_hpack\<lparr>hp_hdr := zero_hdr\<rparr>" _ 2 no_mem None None, OF _ refl]
    by (auto simp: zero_hdr_sized)
qed

text \<open>
  C33. The decoder keeps its state well-formed over any bytes it accepts, with whatever token limits:
  the arrays of the header store keep their sizes and the counters stay inside them, the position
  in the Huffman table is always one where a subtree of the code starts, and the dynamic table stays
  within what was allocated for it.
\<close>

theorem hpack_state_well_formed:
  assumes "hp_mem_ok mem" "hpack_ok s" "run_bytes (lws_hpack_interpret mem limits) s cs = Inr s'"
  shows "hpack_ok s'"
  using hpk.run_invar [OF _ assms(3)] assms(1,2) by blast

theorem hpack_state_well_formed_witness:
  "\<exists>s'. run_bytes (lws_hpack_interpret no_mem None) (None, zero_hpack) [0x82] = Inr s' \<and> hpack_ok s'"
proof -
  have ok: "hpack_ok (None, zero_hpack)"
    by (rule hpack_okI) (simp_all add: hdr_sized_def zero_hdr_sized huf_pos_ok_0)
  obtain w' where r: "run_bytes (lws_hpack_interpret no_mem None) (None, zero_hpack) [0x82] = Inr (None, w')"
    using indexed_step [of zero_hpack 2 no_mem None None] by (auto simp: zero_hdr_sized)
  have "hp_mem_ok no_mem" by (simp add: hp_mem_ok_def no_mem_def)
  from hpack_state_well_formed [OF this ok r] r show ?thesis by blast
qed

text \<open>
  A value of 198 bytes or more, in a table that already holds a header, makes the decoder write
  outside an object: \<open>lws_dump_header\<close> ends its copy at the length that \<open>lws_hdr_copy\<close> returned, and that
  is \<open>-1\<close>. Every accepted value of that size does it, whatever the log level.
\<close>

theorem hpack_long_value_underflows:
  assumes "hpack w = HPKS_TYPE" "0 < i" "i < 62"
    and "a = hdr_ah (hp_hdr w)" "ah_sized a" "0 < ah_next_frag_index a" "ah_next_frag_index a < 79"
    and "198 \<le> length v" "ah_pos a + length v + 1 < 1024"
  shows "run_bytes (lws_hpack_interpret mem limits) (dyn, w)
      (hpack_int 0 15 i @ hpack_int 0 127 (length v) @ v) = Inl Hp_overrun"
  using literal_long_run assms by blast

theorem hpack_long_value_underflows_witness:
  "run_bytes (lws_hpack_interpret no_mem None) (None, zero_hpack)
     (hpack_int 0 15 32 @ hpack_int 0 127 (length (replicate 200 (0x61::byte))) @ replicate 200 0x61) = Inl Hp_overrun"
  by (rule hpack_long_value_underflows [OF _ _ _ refl]) (simp_all add: zero_hdr_sized)

text \<open>
  A field with a literal name is never filed under its name: for a name without colon, space or
  line feed (as the names of HTTP/2 are), the decoder either refuses the name or goes on to the next
  string with the same header store and takes it for more of the name, because the strings of the
  lexer all end in one of those characters.
\<close>

theorem hpack_literal_name_not_filed:
  assumes "hpack w = HPKS_TYPE" "plain_name nm" "nm \<noteq> []" "length nm < 127"
    "lextable_pos (hp_hdr w) = 0" "no_request_line (hdr_ah (hp_hdr w))"
  shows "case run_bytes (lws_hpack_interpret mem limits) (dyn, w) (0 # of_nat (length nm) # nm) of
      Inl e \<Rightarrow> e = Hp_reject
    | Inr (dyn', w') \<Rightarrow> dyn' = dyn \<and> hpack w' = HPKS_HLEN \<and> \<not> hp_value w' \<and>
                         hdr_ah (hp_hdr w') = hdr_ah (hp_hdr w)"
  using literal_name_run [OF assms, of mem limits dyn] by auto

theorem hpack_literal_name_not_filed_witness:
  "case run_bytes (lws_hpack_interpret no_mem None) (None, zero_hpack) (0 # of_nat (length (bytes ''cookie'')) # bytes ''cookie'') of
      Inl e \<Rightarrow> e = Hp_reject
    | Inr (dyn', w') \<Rightarrow> dyn' = None \<and> hpack w' = HPKS_HLEN \<and> \<not> hp_value w' \<and>
                         hdr_ah (hp_hdr w') = hdr_ah (hp_hdr zero_hpack)"
  by (rule hpack_literal_name_not_filed)
     (simp_all add: plain_name_def bytes_def no_request_line_def zero_hdr_def)

text \<open>
  An empty value leaves the decoder with a length of 0 that the next byte takes below it: that byte
  is filed as data and \<open>2 ^ 32 - 1\<close> more are expected.
\<close>

theorem hpack_empty_value_desyncs:
  assumes "hpack w = HPKS_HLEN" "hp_value w" "0 < i" "i < 62" "header_index w = of_nat i"
    "hdr_sized (hp_hdr w)" "ah_next_frag_index (hdr_ah (hp_hdr w)) < 79" "ah_pos (hdr_ah (hp_hdr w)) < 1023"
  shows "\<exists>w'. run_bytes (lws_hpack_interpret mem limits) (dyn, w) [0, c] = Inr (dyn, w') \<and>
    hpack w' = HPKS_DATA \<and> unat (hpack_len w') = 2 ^ 32 - 1 \<and>
    ah_pos (hdr_ah (hp_hdr w')) = ah_pos (hdr_ah (hp_hdr w)) + 1"
  using empty_value_run [OF assms] .

text \<open>
  A size update of the dynamic table to 31 bytes or more is taken for a header: the decoder goes
  on to read a value for the header whose index is the size.
\<close>

theorem hpack_size_update_misread:
  assumes "hpack w = HPKS_TYPE" "31 \<le> n" "n < 2 ^ 28"
  shows "\<exists>w'. run_bytes (lws_hpack_interpret mem limits) (dyn, w) (hpack_int 0x20 31 n) = Inr (dyn, w') \<and>
    hpack w' = HPKS_HLEN \<and> hp_value w' \<and> header_index w' = of_nat n \<and> hp_hdr w' = hp_hdr w"
  using size_update_run [OF assms] .

text \<open>
  C34. A header is written as RFC 7541 writes a literal field without indexing and without Huffman
  code, for names and values of fewer than 127 bytes: the colon of the name is dropped, the bytes
  before and behind stay as they were, and the pointer is behind the last byte.
\<close>

theorem http2_header_is_rfc7541:
  assumes "n = strip_colon name" "length n < 127" "length val < 127" "e \<le> length buf"
    "p + length n + length val + 8 \<le> e"
    "xs = 0 # hpack_int 0 127 (length n) @ n @ hpack_int 0 127 (length val) @ val"
  shows "lws_add_http2_header_by_name name val (p, buf) e =
    Inr (p + length xs, take p buf @ xs @ drop (p + length xs) buf)"
  using assms(2-5) add_header_short [of name val e buf p, folded assms(1)]
  by (simp add: hpack_int_def assms(6) eval_nat_numeral add_ac)

theorem http2_header_is_rfc7541_witness:
  "lws_add_http2_header_by_name (bytes ''server:'') (bytes ''lws'') (4, replicate 64 0) 64 =
    Inr (16, take 4 (replicate 64 0) @ (0 # 6 # bytes ''server'' @ 3 # bytes ''lws'') @ drop 16 (replicate 64 0))"
proof -
  have "strip_colon (bytes ''server:'') = bytes ''server''" by (simp add: strip_colon_def bytes_def)
  then show ?thesis
    using http2_header_is_rfc7541 [of _ "bytes ''server:''" "bytes ''lws''" 64 "replicate 64 0" 4, OF refl _ _ _ _ refl]
    by (simp add: hpack_int_def bytes_def)
qed

text \<open>
  The encoder of integers leaves out their last byte from 127 on: what it writes is what RFC
  7541 writes, without the byte that ends the integer, so a decoder reads the first byte of the
  string as the rest of its length.
\<close>

theorem http2_long_number_cut:
  assumes "127 \<le> n" "e \<le> length buf" "p + length (hpack_int 0 127 n) \<le> e" "buf ! p = 0"
    "xs = butlast (hpack_int 0 127 n)"
  shows "lws_http2_num 7 n (p, buf) e = Inr (p + length xs, take p buf @ xs @ drop (p + length xs) buf) \<and>
    length xs < length (hpack_int 0 127 n)"
proof -
  obtain k where k: "length (hpack_int 0 127 n) = Suc k"
    by (cases "hpack_int 0 127 n") (auto simp: hpack_int_def split: if_splits)
  then have "p + length (hpack_int 0 127 n) - 1 = p + length xs" by (simp add: assms(5))
  with http2_num_cut [OF assms(1-4)] k show ?thesis unfolding assms(5) by simp
qed

theorem http2_long_number_cut_witness:
  "lws_http2_num 7 200 (0, replicate 8 0) 8 = Inr (1, 0x7f # drop 1 (replicate 8 0))"
  using http2_long_number_cut [of 200 8 "replicate 8 0" 0, OF _ _ _ _ refl]
  by (simp add: hpack_int_def int_ext.simps)

end
