(* ===== verification/Http2.thy ===== *)
theory Http2
  imports Hpack Output
begin

text \<open>
  HTTP/2 connections, \<^verbatim>\<open>lib/http2.c\<close>: the settings and their frames, the list of the streams of a
  connection, the parser \<open>lws_http2_parser\<close> that takes what a client sends one byte at a time, the frames
  that are written and the protocol frames that are due. A stream is a connection of its own
  without a socket; its headers are decoded by \<open>Hpack\<close>, and frames go out through the raw sends of
  \<open>Output\<close>.
\<close>

section \<open>State\<close>

datatype lws_pending_protocol_send = LWS_PPS_NONE | LWS_PPS_HTTP2_MY_SETTINGS | LWS_PPS_HTTP2_ACK_SETTINGS

abbreviation (input) LWS_HTTP2_SETTINGS__MAX_CONCURRENT_STREAMS :: nat
  where "LWS_HTTP2_SETTINGS__MAX_CONCURRENT_STREAMS \<equiv> 3"
abbreviation (input) LWS_HTTP2_SETTINGS__INITIAL_WINDOW_SIZE :: nat
  where "LWS_HTTP2_SETTINGS__INITIAL_WINDOW_SIZE \<equiv> 4"
abbreviation (input) LWS_HTTP2_SETTINGS__COUNT :: nat where "LWS_HTTP2_SETTINGS__COUNT \<equiv> 7"
abbreviation (input) LWS_HTTP2_FRAME_TYPE_DATA :: byte where "LWS_HTTP2_FRAME_TYPE_DATA \<equiv> 0"
abbreviation (input) LWS_HTTP2_FRAME_TYPE_HEADERS :: byte where "LWS_HTTP2_FRAME_TYPE_HEADERS \<equiv> 1"
abbreviation (input) LWS_HTTP2_FRAME_TYPE_SETTINGS :: byte where "LWS_HTTP2_FRAME_TYPE_SETTINGS \<equiv> 4"
abbreviation (input) LWS_HTTP2_FRAME_TYPE_GOAWAY :: byte where "LWS_HTTP2_FRAME_TYPE_GOAWAY \<equiv> 7"
abbreviation (input) LWS_HTTP2_FRAME_TYPE_CONTINUATION :: byte where "LWS_HTTP2_FRAME_TYPE_CONTINUATION \<equiv> 9"
abbreviation (input) LWS_HTTP2_FLAG_END_STREAM :: byte where "LWS_HTTP2_FLAG_END_STREAM \<equiv> 1"
abbreviation (input) LWS_HTTP2_FLAG_SETTINGS_ACK :: byte where "LWS_HTTP2_FLAG_SETTINGS_ACK \<equiv> 1"
abbreviation (input) LWS_HTTP2_FLAG_END_HEADERS :: byte where "LWS_HTTP2_FLAG_END_HEADERS \<equiv> 4"
abbreviation (input) LWS_HTTP2_FLAG_PADDED :: byte where "LWS_HTTP2_FLAG_PADDED \<equiv> 8"
abbreviation (input) LWS_HTTP2_FRAME_HEADER_LENGTH :: nat where "LWS_HTTP2_FRAME_HEADER_LENGTH \<equiv> 9"
abbreviation (input) LWS_HTTP2_SETTINGS_LENGTH :: nat where "LWS_HTTP2_SETTINGS_LENGTH \<equiv> 6"

type_synonym http2_settings = "u32 list"

text \<open>
  The rest of \<^verbatim>\<open>struct _lws_http2_related\<close> and the members of \<^verbatim>\<open>struct libwebsocket\<close> that \<^verbatim>\<open>http2.c\<close> uses.
  Connections are named by numbers; \<open>None\<close> is NULL. \<open>ah_null\<close> says that the pointer to the header table
  is NULL. (The \<^verbatim>\<open>fd\<close> member that is invalidated with it shares its memory with the lexer position, which
  the network connection does not use again.)
\<close>

record http2_wsi = hpack_wsi +
  my_settings :: http2_settings
  peer_settings :: http2_settings
  parent_wsi :: "nat option"
  next_child_wsi :: "nat option"
  hpack_dyn_table :: "hpack_dynamic_table option"
  h2_state :: lws_connection_states
  h2_mode :: connection_mode
  pps :: lws_pending_protocol_send
  stream_id :: u32
  stream_wsi :: "nat option"
  h2_type :: byte
  frame_state :: nat
  END_STREAM :: bool
  END_HEADERS :: bool
  GOING_AWAY :: bool
  requested_POLLOUT :: bool
  tx_credit :: u32
  my_stream_id :: u32
  child_count :: u32
  my_priority :: int
  h2_initialized :: bool
  one_setting :: "byte list"
  ah_null :: bool
  send_END_STREAM :: bool
  h2_content_length :: "64 word"
  h2_content_remain :: "64 word"

text \<open>
  What the code does outside: the creation callback, requests for \<^verbatim>\<open>POLLOUT\<close> and receive flow control
  on the network connection, and the service of a request by \<open>lws_http_action\<close>.
\<close>

datatype h2_event = Ev_wsi_create nat | Ev_pollout nat | Ev_rx_flow nat bool | Ev_http_action nat
  | Ev_writeable nat | Ev_free nat

record h2_ctx =
  h2_conns :: "http2_wsi option list"
  h2_tx :: tx_wsi
  h2_log :: "h2_event list"

text \<open>
  \<open>H2_reject\<close> is \<open>return 1\<close>. \<open>H2_undefined\<close> is the use of a null or unknown pointer, an access outside an
  object or an undefined shift; \<open>H2_loops\<close> a walk that visits more connections than there are, so one
  that never ends.
\<close>

datatype h2_error = H2_reject | H2_undefined | H2_loops

fun h2_of_hpack :: "hpack_error \<Rightarrow> h2_error" where
  "h2_of_hpack Hp_reject = H2_reject"
| "h2_of_hpack Hp_overrun = H2_undefined"
| "h2_of_hpack Hp_shift = H2_undefined"

text \<open>
  What the environment answers: the memory for a new connection and its header table, that of the
  dynamic table, the token limits, whether the network connection has TLS, and what \<open>lws_http_action\<close>
  does with the connection of a stream and returns.
\<close>

record h2_env =
  he_malloc :: bool
  he_ah :: "allocated_headers option"
  he_mem :: hpack_mem
  he_limits :: "nat list option"
  he_ssl :: bool
  he_action :: "http2_wsi \<Rightarrow> int \<times> http2_wsi"
  he_tx :: tx_env

definition conn_at :: "h2_ctx \<Rightarrow> nat \<Rightarrow> http2_wsi option" where
  "conn_at c p = (if p < length (h2_conns c) then h2_conns c ! p else None)"

definition upd_conn :: "nat \<Rightarrow> (http2_wsi \<Rightarrow> http2_wsi) \<Rightarrow> h2_ctx \<Rightarrow> h2_ctx" where
  "upd_conn p f c =
     (case conn_at c p of None \<Rightarrow> c | Some w \<Rightarrow> c\<lparr>h2_conns := (h2_conns c)[p := Some (f w)]\<rparr>)"

definition log_h2 :: "h2_event \<Rightarrow> h2_ctx \<Rightarrow> h2_ctx" where
  "log_h2 e c = c\<lparr>h2_log := h2_log c @ [e]\<rparr>"

section \<open>Settings\<close>

definition lws_http2_default_settings :: http2_settings where
  "lws_http2_default_settings = [0, 4096, 1, 100, 65535, 16384, - 1]"

definition lws_http2_init :: http2_settings where
  "lws_http2_init = lws_http2_default_settings"

fun settings_loop :: "http2_settings \<Rightarrow> byte list \<Rightarrow> http2_settings \<times> byte list" where
  "settings_loop st (b0 # b1 # b2 # b3 # b4 # b5 # buf) =
     (let a = push_bit 8 (unat b0) OR unat b1
      in settings_loop (if a < LWS_HTTP2_SETTINGS__COUNT then st[a := of_be32 [b2, b3, b4, b5]] else st) buf)"
| "settings_loop st buf = (st, buf)"

definition lws_http2_interpret_settings_payload :: "http2_settings \<Rightarrow> byte list \<Rightarrow> int \<times> http2_settings" where
  "lws_http2_interpret_settings_payload st buf =
     (if buf = [] then (0, st)
      else if length buf < LWS_HTTP2_SETTINGS_LENGTH then (1, st)
      else case settings_loop st buf of (st', rest) \<Rightarrow> (if rest \<noteq> [] then 1 else 0, st'))"

definition lws_http2_settings_write :: "http2_wsi \<Rightarrow> nat \<Rightarrow> byte list" where
  "lws_http2_settings_write w n = [of_nat (n div 256), of_nat n] @ be32 (my_settings w ! n)"

section \<open>Streams\<close>

text \<open>
  The walks over connections, with a bound on the steps. The list of a connection is reached from
  it over \<open>next_child_wsi\<close>.
\<close>

fun from_id_walk :: "nat \<Rightarrow> h2_ctx \<Rightarrow> nat \<Rightarrow> u32 \<Rightarrow> h2_error + nat option" where
  "from_id_walk 0 c p sid = Inl H2_loops"
| "from_id_walk (Suc k) c p sid =
     (case conn_at c p of
        None \<Rightarrow> Inl H2_undefined
      | Some w \<Rightarrow>
          if my_stream_id w = sid then Inr (Some p)
          else (case next_child_wsi w of None \<Rightarrow> Inr None | Some q \<Rightarrow> from_id_walk k c q sid))"

definition lws_http2_wsi_from_id :: "h2_ctx \<Rightarrow> nat \<Rightarrow> u32 \<Rightarrow> h2_error + nat option" where
  "lws_http2_wsi_from_id c p sid = from_id_walk (length (h2_conns c)) c p sid"

fun network_walk :: "nat \<Rightarrow> h2_ctx \<Rightarrow> nat \<Rightarrow> h2_error + nat" where
  "network_walk 0 c p = Inl H2_loops"
| "network_walk (Suc k) c p =
     (case conn_at c p of
        None \<Rightarrow> Inl H2_undefined
      | Some w \<Rightarrow> (case parent_wsi w of None \<Rightarrow> Inr p | Some q \<Rightarrow> network_walk k c q))"

definition lws_http2_get_network_wsi :: "h2_ctx \<Rightarrow> nat \<Rightarrow> h2_error + nat" where
  "lws_http2_get_network_wsi c p = network_walk (length (h2_conns c)) c p"

fun lws_http2_get_nth_child :: "h2_ctx \<Rightarrow> nat \<Rightarrow> nat \<Rightarrow> h2_error + nat option" where
  "lws_http2_get_nth_child c p n =
     (case conn_at c p of
        None \<Rightarrow> Inl H2_undefined
      | Some w \<Rightarrow>
          (case next_child_wsi w of
             None \<Rightarrow> Inr None
           | Some q \<Rightarrow> if n = 0 then Inr (Some q) else lws_http2_get_nth_child c q (n - 1)))"

declare lws_http2_get_nth_child.simps [simp del]

text \<open>A connection whose memory is zeroed, with a new header table.\<close>

definition new_h2_wsi :: "allocated_headers \<Rightarrow> http2_wsi" where
  "new_h2_wsi a =
     \<lparr>hp_hdr = \<lparr>hdr_ah = a\<lparr>ah_frag_index := replicate WSI_TOKEN_COUNT 0, ah_next_frag_index := 0, ah_pos := 0\<rparr>,
                lextable_pos = 0, current_token_limit = 0, parser_state = 0, ups = URIPS_IDLE,
                ues = URIES_IDLE, esc_stash = 0, ietf_spec_revision = 0, hdr_parsing_completed = False\<rparr>,
      hpack = HPKS_OPT_PADDING, hpack_type = HPKT_INDEXED_HDR_7, header_index = 0, hpack_len = 0,
      hpack_pos = 0, hpack_m = 0, hpack_e_dep = 0, huff = False, hp_value = False, h2_count = 0,
      h2_length = 0, h2_flags = 0, h2_padding = 0,
      my_settings = replicate 7 0, peer_settings = replicate 7 0, parent_wsi = None, next_child_wsi = None,
      hpack_dyn_table = None, h2_state = WSI_STATE_HTTP, h2_mode = LWS_CONNMODE_HTTP_SERVING,
      pps = LWS_PPS_NONE, stream_id = 0, stream_wsi = None, h2_type = 0, frame_state = 0,
      END_STREAM = False, END_HEADERS = False, GOING_AWAY = False, requested_POLLOUT = False,
      tx_credit = 0, my_stream_id = 0, child_count = 0, my_priority = 0, h2_initialized = False,
      one_setting = replicate 6 0, ah_null = False,
      send_END_STREAM = False, h2_content_length = 0, h2_content_remain = 0\<rparr>"

text \<open>\<open>libwebsocket_create_new_server_wsi\<close>; the new connection gets the next number.\<close>

definition create_new_h2_wsi :: "h2_env \<Rightarrow> h2_ctx \<Rightarrow> nat option \<times> h2_ctx" where
  "create_new_h2_wsi env c =
     (if \<not> he_malloc env then (None, c)
      else case he_ah env of
             None \<Rightarrow> (None, c)
           | Some a \<Rightarrow>
               let p = length (h2_conns c)
               in (Some p, log_h2 (Ev_wsi_create p) (c\<lparr>h2_conns := h2_conns c @ [Some (new_h2_wsi a)]\<rparr>)))"

definition child_setup :: "nat \<Rightarrow> http2_wsi \<Rightarrow> u32 \<Rightarrow> http2_wsi \<Rightarrow> http2_wsi" where
  "child_setup parent pw sid w =
     w\<lparr>peer_settings := lws_http2_init, my_settings := lws_http2_init, stream_id := sid, my_stream_id := sid,
       parent_wsi := Some parent, next_child_wsi := next_child_wsi pw, my_priority := 16,
       h2_state := WSI_STATE_HTTP2_ESTABLISHED, h2_mode := h2_mode pw\<rparr>"

definition lws_create_server_child_wsi :: "h2_env \<Rightarrow> h2_ctx \<Rightarrow> nat \<Rightarrow> u32 \<Rightarrow> h2_error + nat option \<times> h2_ctx" where
  "lws_create_server_child_wsi env c parent sid =
     (case create_new_h2_wsi env c of
        (None, c1) \<Rightarrow> Inr (None, c1)
      | (Some p, c1) \<Rightarrow>
          (case conn_at c1 parent of
             None \<Rightarrow> Inl H2_undefined
           | Some pw \<Rightarrow>
               if child_count pw + 1 = peer_settings pw ! LWS_HTTP2_SETTINGS__MAX_CONCURRENT_STREAMS
               then Inr (None, c1)
               else Inr (Some p,
                      upd_conn parent (\<lambda>w. w\<lparr>next_child_wsi := Some p, child_count := child_count w + 1\<rparr>)
                        (upd_conn p (child_setup parent pw sid) c1))))"

text \<open>
  The loop of \<open>lws_remove_server_child_wsi\<close>: \<open>w\<close> points to the \<open>next_child_wsi\<close> of \<open>q\<close>. It starts as the
  address of the removed connection's own \<open>parent_wsi\<close>.
\<close>

fun remove_walk :: "nat \<Rightarrow> h2_ctx \<Rightarrow> nat \<Rightarrow> nat \<Rightarrow> h2_error + int \<times> h2_ctx" where
  "remove_walk 0 c p q = Inl H2_loops"
| "remove_walk (Suc k) c p q =
     (case conn_at c q of
        None \<Rightarrow> Inl H2_undefined
      | Some qw \<Rightarrow>
          (case next_child_wsi qw of
             None \<Rightarrow> Inr (1, c)
           | Some r \<Rightarrow>
               if r \<noteq> p then remove_walk k c p r
               else case conn_at c p of
                      None \<Rightarrow> Inl H2_undefined
                    | Some w \<Rightarrow>
                        let c1 = upd_conn q (\<lambda>x. x\<lparr>next_child_wsi := next_child_wsi w\<rparr>) c
                        in case parent_wsi w of
                             None \<Rightarrow> Inl H2_undefined
                           | Some m \<Rightarrow>
                               (case conn_at c1 m of
                                  None \<Rightarrow> Inl H2_undefined
                                | Some _ \<Rightarrow> Inr (0, upd_conn m (\<lambda>x. x\<lparr>child_count := child_count x - 1\<rparr>) c1))))"

definition lws_remove_server_child_wsi :: "h2_ctx \<Rightarrow> nat \<Rightarrow> h2_error + int \<times> h2_ctx" where
  "lws_remove_server_child_wsi c p =
     (case conn_at c p of
        None \<Rightarrow> Inl H2_undefined
      | Some w \<Rightarrow>
          (case parent_wsi w of
             None \<Rightarrow> Inl H2_undefined
           | Some q \<Rightarrow>
               if q = p then
                 (case next_child_wsi w of
                    None \<Rightarrow> Inl H2_undefined
                  | Some r \<Rightarrow>
                      (case conn_at c r of
                         None \<Rightarrow> Inl H2_undefined
                       | Some _ \<Rightarrow> Inr (0, upd_conn r (\<lambda>x. x\<lparr>child_count := child_count x - 1\<rparr>)
                                            (upd_conn p (\<lambda>x. x\<lparr>parent_wsi := Some r\<rparr>) c))))
               else remove_walk (length (h2_conns c)) c p q))"

section \<open>Writing frames\<close>

definition http2_frame_header :: "byte \<Rightarrow> byte \<Rightarrow> u32 \<Rightarrow> nat \<Rightarrow> byte list" where
  "http2_frame_header type flags sid len =
     [of_nat (len div 2 ^ 16), of_nat (len div 2 ^ 8), of_nat len, type, flags] @ be32 sid"

text \<open>
  \<open>lws_http2_frame_write\<close> puts the header in front of the payload, in the caller's memory, and sends both
  on the network connection.
\<close>

definition lws_http2_frame_write ::
    "h2_env \<Rightarrow> h2_ctx \<Rightarrow> nat \<Rightarrow> byte \<Rightarrow> byte \<Rightarrow> u32 \<Rightarrow> tx_buf \<Rightarrow> h2_error + int \<times> h2_ctx" where
  "lws_http2_frame_write env c p type flags sid buf =
     (case lws_http2_get_network_wsi c p of
        Inl e \<Rightarrow> Inl e
      | Inr _ \<Rightarrow>
          if tb_off buf < LWS_HTTP2_FRAME_HEADER_LENGTH then Inl H2_undefined
          else case poke buf (tb_off buf - LWS_HTTP2_FRAME_HEADER_LENGTH)
                      (http2_frame_header type flags sid (tb_len buf)) of
                 None \<Rightarrow> Inl H2_undefined
               | Some b \<Rightarrow>
                   (case lws_issue_raw (he_tx env) (h2_tx c)
                           (b\<lparr>tb_off := tb_off b - LWS_HTTP2_FRAME_HEADER_LENGTH,
                              tb_len := tb_len b + LWS_HTTP2_FRAME_HEADER_LENGTH\<rparr>) of
                      Inl _ \<Rightarrow> Inl H2_undefined
                    | Inr (n, t) \<Rightarrow>
                        Inr (if int LWS_HTTP2_FRAME_HEADER_LENGTH \<le> n
                             then n - int LWS_HTTP2_FRAME_HEADER_LENGTH else n, c\<lparr>h2_tx := t\<rparr>)))"

section \<open>Protocol frames that are due\<close>

text \<open>
  The branch of \<open>libwebsocket_callback_on_writable\<close> for HTTP/2: everybody above is marked, and the network
  connection asks for \<^verbatim>\<open>POLLOUT\<close> once.
\<close>

fun mark_walk :: "nat \<Rightarrow> h2_ctx \<Rightarrow> nat \<Rightarrow> h2_error + h2_ctx" where
  "mark_walk 0 c p = Inl H2_loops"
| "mark_walk (Suc k) c p =
     (case conn_at c p of
        None \<Rightarrow> Inl H2_undefined
      | Some w \<Rightarrow>
          let c1 = upd_conn p (\<lambda>w. w\<lparr>requested_POLLOUT := True\<rparr>) c
          in case parent_wsi w of None \<Rightarrow> Inr c1 | Some q \<Rightarrow> mark_walk k c1 q)"

definition h2_callback_on_writable :: "h2_ctx \<Rightarrow> nat \<Rightarrow> h2_error + h2_ctx" where
  "h2_callback_on_writable c p =
     (case (conn_at c p, lws_http2_get_network_wsi c p) of
        (Some w, Inr net) \<Rightarrow>
          if requested_POLLOUT w then Inr c
          else (case (conn_at c net, mark_walk (length (h2_conns c)) c p) of
                  (Some nw, Inr c1) \<Rightarrow> Inr (if requested_POLLOUT nw then c1 else log_h2 (Ev_pollout net) c1)
                | (_, Inl e) \<Rightarrow> Inl e
                | (None, _) \<Rightarrow> Inl H2_undefined)
      | (None, _) \<Rightarrow> Inl H2_undefined
      | (_, Inl e) \<Rightarrow> Inl e)"

definition lws_set_protocol_write_pending ::
    "h2_ctx \<Rightarrow> nat \<Rightarrow> lws_pending_protocol_send \<Rightarrow> h2_error + h2_ctx" where
  "lws_set_protocol_write_pending c p pend =
     h2_callback_on_writable (log_h2 (Ev_rx_flow p False) (upd_conn p (\<lambda>w. w\<lparr>pps := pend\<rparr>) c)) p"

text \<open>The settings that differ from the default ones, one after the other.\<close>

definition my_settings_payload :: "http2_wsi \<Rightarrow> byte list" where
  "my_settings_payload w =
     concat (map (lws_http2_settings_write w)
       (filter (\<lambda>n. my_settings w ! n \<noteq> lws_http2_default_settings ! n) [1..<LWS_HTTP2_SETTINGS__COUNT]))"

text \<open>\<open>stack\<close> is what the local array holds before; its first bytes are the room for headers.\<close>

definition pps_buf :: "byte list \<Rightarrow> byte list \<Rightarrow> tx_buf" where
  "pps_buf stack xs =
     \<lparr>tb_id = 2, tb_mem = take LWS_SEND_BUFFER_PRE_PADDING stack @ xs @
        drop (LWS_SEND_BUFFER_PRE_PADDING + length xs) stack,
      tb_off = LWS_SEND_BUFFER_PRE_PADDING, tb_len = length xs\<rparr>"

definition run_action :: "h2_env \<Rightarrow> h2_ctx \<Rightarrow> nat \<Rightarrow> h2_error + int \<times> h2_ctx" where
  "run_action env c p =
     (case conn_at c p of
        None \<Rightarrow> Inl H2_undefined
      | Some w \<Rightarrow>
          (case he_action env w of (n, w') \<Rightarrow>
             Inr (n, log_h2 (Ev_http_action p) (upd_conn p (\<lambda>_. w') c))))"

text \<open>The headers of the upgrade request become stream 1.\<close>

definition setup_sid_1 :: "h2_env \<Rightarrow> h2_ctx \<Rightarrow> nat \<Rightarrow> h2_error + int \<times> h2_ctx" where
  "setup_sid_1 env c p =
     (case lws_create_server_child_wsi env c p 1 of
        Inl e \<Rightarrow> Inl e
      | Inr (None, _) \<Rightarrow> Inl H2_undefined
      | Inr (Some s, c1) \<Rightarrow>
          (case conn_at c1 p of
             None \<Rightarrow> Inl H2_undefined
           | Some w \<Rightarrow>
               run_action env
                 (upd_conn s (\<lambda>x. x\<lparr>hp_hdr := (hp_hdr x)\<lparr>hdr_ah := hdr_ah (hp_hdr w)\<rparr>, ah_null := ah_null w,
                                    tx_credit := peer_settings w ! LWS_HTTP2_SETTINGS__INITIAL_WINDOW_SIZE,
                                    h2_initialized := True, END_STREAM := True\<rparr>)
                   (upd_conn p (\<lambda>x. x\<lparr>stream_wsi := Some s, ah_null := True\<rparr>) c1)) s))"

definition lws_http2_do_pps_send ::
    "h2_env \<Rightarrow> byte list \<Rightarrow> h2_ctx \<Rightarrow> nat \<Rightarrow> h2_error + int \<times> h2_ctx" where
  "lws_http2_do_pps_send env stack c p =
     (case conn_at c p of
        None \<Rightarrow> Inl H2_undefined
      | Some w \<Rightarrow>
          (case pps w of
             LWS_PPS_NONE \<Rightarrow> Inr (0, c)
           | LWS_PPS_HTTP2_MY_SETTINGS \<Rightarrow>
               (case lws_http2_frame_write env c p LWS_HTTP2_FRAME_TYPE_SETTINGS 0 0
                       (pps_buf stack (my_settings_payload w)) of
                  Inl e \<Rightarrow> Inl e
                | Inr (n, c1) \<Rightarrow> Inr (if n \<noteq> int (length (my_settings_payload w)) then 1 else 0, c1))
           | LWS_PPS_HTTP2_ACK_SETTINGS \<Rightarrow>
               (case lws_http2_frame_write env c p LWS_HTTP2_FRAME_TYPE_SETTINGS 1 0 (pps_buf stack []) of
                  Inl e \<Rightarrow> Inl e
                | Inr (n, c1) \<Rightarrow>
                    if n \<noteq> 0 then Inr (1, c1)
                    else if h2_state w \<noteq> WSI_STATE_HTTP2_ESTABLISHED_PRE_SETTINGS then Inr (0, c1)
                    else let c2 = upd_conn p (\<lambda>x. x\<lparr>h2_state := WSI_STATE_HTTP2_ESTABLISHED\<rparr>) c1
                         in if he_ssl env then Inr (0, c2) else setup_sid_1 env c2 p)))"

section \<open>The parser\<close>

definition https_client_preface :: "byte list" where
  "https_client_preface =
     bytes ''PRI * HTTP/2.0'' @ [0x0d, 0x0a, 0x0d, 0x0a] @ bytes ''SM'' @ [0x0d, 0x0a, 0x0d, 0x0a]"

definition preface_byte :: "h2_ctx \<Rightarrow> nat \<Rightarrow> http2_wsi \<Rightarrow> byte \<Rightarrow> h2_error + h2_ctx" where
  "preface_byte c p w b =
     (let n = unat (h2_count w)
      in if length https_client_preface \<le> n then Inl H2_undefined
         else if https_client_preface ! n \<noteq> b then Inl H2_reject
         else if n + 1 = length https_client_preface then
           lws_set_protocol_write_pending
             (upd_conn p (\<lambda>w. w\<lparr>h2_count := 0, h2_state := WSI_STATE_HTTP2_ESTABLISHED_PRE_SETTINGS\<rparr>) c)
             p LWS_PPS_HTTP2_MY_SETTINGS
         else Inr (upd_conn p (\<lambda>w. w\<lparr>h2_count := h2_count w + 1\<rparr>) c))"

text \<open>The label \<open>update_end_headers\<close>.\<close>

definition hpack_start :: "http2_wsi \<Rightarrow> http2_wsi \<Rightarrow> http2_wsi" where
  "hpack_start w s =
     (let s1 = s\<lparr>h2_flags := h2_flags w, h2_length := h2_length w, END_STREAM := END_STREAM w\<rparr>
      in if h2_flags s1 AND LWS_HTTP2_FLAG_PADDED \<noteq> 0 then s1\<lparr>hpack := HPKS_OPT_PADDING\<rparr>
         else if h2_flags s1 AND LWS_HTTP2_FLAG_PRIORITY \<noteq> 0
           then s1\<lparr>hpack := HKPS_OPT_E_DEPENDENCY, hpack_m := 4\<rparr>
         else s1\<lparr>hpack := HPKS_TYPE\<rparr>)"

definition update_end_headers :: "h2_ctx \<Rightarrow> nat \<Rightarrow> h2_error + h2_ctx" where
  "update_end_headers c p =
     (let c1 = upd_conn p (\<lambda>w. w\<lparr>END_HEADERS := (h2_flags w AND LWS_HTTP2_FLAG_END_HEADERS \<noteq> 0)\<rparr>) c
      in case conn_at c1 p of
           None \<Rightarrow> Inl H2_undefined
         | Some w \<Rightarrow>
             (case stream_wsi w of
                None \<Rightarrow> Inl H2_reject
              | Some s \<Rightarrow> (case conn_at c1 s of None \<Rightarrow> Inl H2_undefined
                           | Some _ \<Rightarrow> Inr (upd_conn s (hpack_start w) c1))))"

definition headers_stream :: "h2_env \<Rightarrow> h2_ctx \<Rightarrow> nat \<Rightarrow> http2_wsi \<Rightarrow> h2_error + h2_ctx" where
  "headers_stream env c p w =
     (case lws_http2_wsi_from_id c p (stream_id w) of
        Inl e \<Rightarrow> Inl e
      | Inr (Some s) \<Rightarrow> Inr (upd_conn p (\<lambda>w. w\<lparr>stream_wsi := Some s\<rparr>) c)
      | Inr None \<Rightarrow>
          (case lws_create_server_child_wsi env (upd_conn p (\<lambda>w. w\<lparr>stream_wsi := None\<rparr>) c) p (stream_id w) of
             Inl e \<Rightarrow> Inl e
           | Inr (s, c1) \<Rightarrow> Inr (upd_conn p (\<lambda>w. w\<lparr>stream_wsi := s\<rparr>) c1)))"

text \<open>The frame header is complete; \<open>w\<close> is the connection \<open>p\<close>.\<close>

definition frame_type_start :: "h2_env \<Rightarrow> h2_ctx \<Rightarrow> nat \<Rightarrow> http2_wsi \<Rightarrow> h2_error + h2_ctx" where
  "frame_type_start env c p w =
     (if h2_type w = LWS_HTTP2_FRAME_TYPE_SETTINGS then
        if stream_id w \<noteq> 0 then Inl H2_reject
        else if h2_flags w AND LWS_HTTP2_FLAG_SETTINGS_ACK \<noteq> 0 then Inr c
        else lws_set_protocol_write_pending c p LWS_PPS_HTTP2_ACK_SETTINGS
      else if h2_type w = LWS_HTTP2_FRAME_TYPE_CONTINUATION then
        if END_HEADERS w then Inl H2_reject else update_end_headers c p
      else if h2_type w = LWS_HTTP2_FRAME_TYPE_HEADERS then
        if stream_id w = 0 then Inl H2_reject
        else case headers_stream env c p w of
               Inl e \<Rightarrow> Inl e
             | Inr c1 \<Rightarrow>
                 update_end_headers
                   (upd_conn p (\<lambda>w. w\<lparr>END_STREAM := (h2_flags w AND LWS_HTTP2_FLAG_END_STREAM \<noteq> 0)\<rparr>) c1) p
      else Inr c)"

definition frame_header_complete :: "h2_env \<Rightarrow> h2_ctx \<Rightarrow> nat \<Rightarrow> h2_error + h2_ctx" where
  "frame_header_complete env c p =
     (let c1 = upd_conn p (\<lambda>w. w\<lparr>h2_count := 0\<rparr>) c
      in case conn_at c1 p of
           None \<Rightarrow> Inl H2_undefined
         | Some w \<Rightarrow>
             (case frame_type_start env c1 p w of
                Inl e \<Rightarrow> Inl e
              | Inr c2 \<Rightarrow>
                  Inr (if h2_length w = 0 then upd_conn p (\<lambda>w. w\<lparr>frame_state := 0\<rparr>) c2 else c2)))"

definition header_field :: "nat \<Rightarrow> http2_wsi \<Rightarrow> byte \<Rightarrow> http2_wsi" where
  "header_field p w b =
     (let n = frame_state w; w1 = w\<lparr>frame_state := n + 1\<rparr>
      in if n = 0 then w1\<lparr>h2_length := ucast b\<rparr>
         else if n = 1 \<or> n = 2 then w1\<lparr>h2_length := push_bit 8 (h2_length w) OR ucast b\<rparr>
         else if n = 3 then w1\<lparr>h2_type := b\<rparr>
         else if n = 4 then w1\<lparr>h2_flags := b\<rparr>
         else if n \<le> 8 then w1\<lparr>stream_id := push_bit 8 (stream_id w) OR ucast b, stream_wsi := Some p\<rparr>
         else w1)"

definition header_byte :: "h2_env \<Rightarrow> h2_ctx \<Rightarrow> nat \<Rightarrow> http2_wsi \<Rightarrow> byte \<Rightarrow> h2_error + h2_ctx" where
  "header_byte env c p w b =
     (let c1 = upd_conn p (\<lambda>w. header_field p w b) c
      in if frame_state w + 1 = LWS_HTTP2_FRAME_HEADER_LENGTH then frame_header_complete env c1 p else Inr c1)"

text \<open>
  A byte of the payload, after it was counted: \<open>w\<close> is the connection \<open>p\<close> and \<open>s\<close> its \<open>stream_wsi\<close>, with the
  connection \<open>sw\<close>.
\<close>

definition hpack_byte :: "h2_env \<Rightarrow> h2_ctx \<Rightarrow> nat \<Rightarrow> http2_wsi \<Rightarrow> byte \<Rightarrow> h2_error + h2_ctx" where
  "hpack_byte env c s sw b =
     (case lws_http2_get_network_wsi c s of
        Inl e \<Rightarrow> Inl e
      | Inr net \<Rightarrow>
          (case conn_at c net of
             None \<Rightarrow> Inl H2_undefined
           | Some nw \<Rightarrow>
               if ah_null sw then Inl H2_undefined
               else case lws_hpack_interpret (he_mem env) (he_limits env) (hpack_dyn_table nw, sw) b of
                      Inl e \<Rightarrow> Inl (h2_of_hpack e)
                    | Inr (dyn, sw') \<Rightarrow>
                        Inr (upd_conn net (\<lambda>x. x\<lparr>hpack_dyn_table := dyn\<rparr>) (upd_conn s (\<lambda>_. sw') c))))"

definition payload_type :: "h2_env \<Rightarrow> h2_ctx \<Rightarrow> nat \<Rightarrow> http2_wsi \<Rightarrow> nat \<Rightarrow> byte \<Rightarrow> h2_error + h2_ctx" where
  "payload_type env c p w s b =
     (let i = unat (h2_count w) mod LWS_HTTP2_SETTINGS_LENGTH
      in if h2_type w = LWS_HTTP2_FRAME_TYPE_SETTINGS then
           let c1 = upd_conn s (\<lambda>x. x\<lparr>one_setting := (one_setting x)[i := b]\<rparr>) c
           in if i \<noteq> LWS_HTTP2_SETTINGS_LENGTH - 1 then Inr c1
              else case (conn_at c1 p, conn_at c1 s) of
                     (Some w1, Some s1) \<Rightarrow>
                       (case lws_http2_interpret_settings_payload (peer_settings s1) (one_setting w1) of
                          (n, st) \<Rightarrow> if n \<noteq> 0 then Inl H2_reject
                                     else Inr (upd_conn s (\<lambda>x. x\<lparr>peer_settings := st\<rparr>) c1))
                   | _ \<Rightarrow> Inl H2_undefined
         else if h2_type w = LWS_HTTP2_FRAME_TYPE_HEADERS then
           (case conn_at c s of None \<Rightarrow> Inl H2_undefined | Some sw \<Rightarrow> hpack_byte env c s sw b)
         else if h2_type w = LWS_HTTP2_FRAME_TYPE_GOAWAY then
           Inr (upd_conn p (\<lambda>w. (if 5 \<le> h2_count w \<and> h2_count w \<le> 8
                                  then w\<lparr>hpack_e_dep := push_bit 8 (hpack_e_dep w) OR ucast b\<rparr> else w)
                                 \<lparr>GOING_AWAY := True\<rparr>) c)
         else Inr c)"

definition frame_end :: "h2_env \<Rightarrow> h2_ctx \<Rightarrow> nat \<Rightarrow> http2_wsi \<Rightarrow> h2_error + h2_ctx" where
  "frame_end env c p w =
     (let c1 = upd_conn p (\<lambda>w. w\<lparr>frame_state := 0, h2_count := 0\<rparr>) c;
          c2 = (if h2_initialized w then c1
                else upd_conn p (\<lambda>w. w\<lparr>tx_credit := peer_settings w ! LWS_HTTP2_SETTINGS__INITIAL_WINDOW_SIZE,
                                        h2_initialized := True\<rparr>) c1)
      in if h2_type w = LWS_HTTP2_FRAME_TYPE_HEADERS then
           (case stream_wsi w of
              None \<Rightarrow> Inl H2_undefined
            | Some s \<Rightarrow> map_sum id snd (run_action env c2 s))
         else Inr c2)"

definition h2_payload_byte :: "h2_env \<Rightarrow> h2_ctx \<Rightarrow> nat \<Rightarrow> http2_wsi \<Rightarrow> byte \<Rightarrow> h2_error + h2_ctx" where
  "h2_payload_byte env c p w0 b =
     (case stream_wsi w0 of
        None \<Rightarrow> Inl H2_undefined
      | Some s \<Rightarrow>
          let n = h2_count w0 + 1;
              c1 = upd_conn s (\<lambda>x. x\<lparr>h2_count := n\<rparr>) (upd_conn p (\<lambda>w. w\<lparr>h2_count := n\<rparr>) c)
          in case (conn_at c1 s, conn_at c1 p) of
               (Some _, Some w) \<Rightarrow>
                 (case payload_type env c1 p w s b of
                    Inl e \<Rightarrow> Inl e
                  | Inr c2 \<Rightarrow>
                      (case conn_at c2 p of
                         None \<Rightarrow> Inl H2_undefined
                       | Some w2 \<Rightarrow> if h2_count w2 \<noteq> h2_length w2 then Inr c2 else frame_end env c2 p w2))
             | _ \<Rightarrow> Inl H2_undefined)"

definition lws_http2_parser :: "h2_env \<Rightarrow> nat \<Rightarrow> h2_ctx \<Rightarrow> byte \<Rightarrow> h2_error + h2_ctx" where
  "lws_http2_parser env p c b =
     (case conn_at c p of
        None \<Rightarrow> Inl H2_undefined
      | Some w \<Rightarrow>
          if h2_state w = WSI_STATE_HTTP2_AWAIT_CLIENT_PREFACE then preface_byte c p w b
          else if h2_state w = WSI_STATE_HTTP2_ESTABLISHED_PRE_SETTINGS \<or> h2_state w = WSI_STATE_HTTP2_ESTABLISHED
          then if frame_state w = LWS_HTTP2_FRAME_HEADER_LENGTH then h2_payload_byte env c p w b
               else header_byte env c p w b
          else Inr c)"

section \<open>Connections in the context\<close>

lemma conn_upd [simp]:
  "conn_at (upd_conn p f c) p = map_option f (conn_at c p)"
  "q \<noteq> p \<Longrightarrow> conn_at (upd_conn p f c) q = conn_at c q"
  by (auto simp: conn_at_def upd_conn_def split: option.splits)

lemma conn_upd_some: "conn_at c p = Some w \<Longrightarrow> conn_at (upd_conn p f c) q = (if q = p then Some (f w) else conn_at c q)"
  by simp

lemma upd_conn_simps [simp]:
  "length (h2_conns (upd_conn p f c)) = length (h2_conns c)"
  "h2_tx (upd_conn p f c) = h2_tx c" "h2_log (upd_conn p f c) = h2_log c"
  by (simp_all add: upd_conn_def split: option.splits)

lemma conn_log [simp]: "conn_at (log_h2 e c) p = conn_at c p" "h2_conns (log_h2 e c) = h2_conns c"
  "h2_tx (log_h2 e c) = h2_tx c"
  by (simp_all add: log_h2_def conn_at_def)

lemma conn_tx [simp]: "conn_at (c\<lparr>h2_tx := t\<rparr>) p = conn_at c p"
  by (simp add: conn_at_def)

lemma upd_conn_upd [simp]: "upd_conn p f (upd_conn p g c) = upd_conn p (\<lambda>w. f (g w)) c"
  by (auto simp: upd_conn_def conn_at_def split: option.splits)

lemma conn_bound: "conn_at c p = Some w \<Longrightarrow> p < length (h2_conns c)"
  by (simp add: conn_at_def split: if_splits)

section \<open>Settings\<close>

lemma of_be32_be32: "of_be32 (be32 x) = x"
proof (rule bit_word_eqI)
  fix n assume "n < LENGTH(32)"
  then consider "n < 8" | "8 \<le> n" "n < 16" | "16 \<le> n" "n < 24" | "24 \<le> n" "n < 32" by fastforce
  then show "bit (of_be32 (be32 x)) n = bit x n"
    by cases (auto simp: of_be32_def be32_def bit_or_iff bit_push_bit_iff bit_unsigned_iff bit_drop_bit_eq)
qed

lemma of_be32_nth: "of_be32 [be32 x ! 0, be32 x ! Suc 0, be32 x ! 2, be32 x ! 3] = x"
  using of_be32_be32 [of x] by (simp add: be32_def)

lemma be32_list: "be32 x = [be32 x ! 0, be32 x ! 1, be32 x ! 2, be32 x ! 3]"
  by (simp add: be32_def)

lemma setting_id:
  assumes "n < 65536"
  shows "push_bit 8 (unat (of_nat (n div 256) :: byte)) OR unat (of_nat n :: byte) = n"
proof -
  have "unat (of_nat (n div 256) :: byte) = n div 256" "unat (of_nat n :: byte) = n mod 256"
    using assms by (simp_all add: unat_of_nat)
  moreover have "push_bit 8 (drop_bit 8 n) OR take_bit 8 n = n"
    by (rule bit_eqI) (auto simp: bit_or_iff bit_push_bit_iff bit_drop_bit_eq bit_take_bit_iff)
  then have "push_bit 8 (n div 256) OR n mod 256 = n" by (simp add: take_bit_eq_mod drop_bit_eq_div)
  ultimately show ?thesis by simp
qed

definition setting_bytes :: "nat \<Rightarrow> u32 \<Rightarrow> byte list" where
  "setting_bytes n v = [of_nat (n div 256), of_nat n] @ be32 v"

lemma settings_loop_entry:
  "n < 65536 \<Longrightarrow> settings_loop st (setting_bytes n v @ buf) =
     settings_loop (if n < 7 then st[n := v] else st) buf"
  unfolding setting_bytes_def
  by (subst be32_list) (simp add: setting_id of_be32_nth)

lemma settings_loop_entries:
  "\<forall>(n, v)\<in>set es. n < 65536 \<Longrightarrow>
   settings_loop st (concat (map (\<lambda>(n, v). setting_bytes n v) es) @ buf) =
   settings_loop (fold (\<lambda>(n, v) st. if n < 7 then st[n := v] else st) es st) buf"
  by (induction es arbitrary: st) (auto simp: settings_loop_entry)

lemma settings_write_eq: "lws_http2_settings_write w = (\<lambda>n. setting_bytes n (my_settings w ! n))"
  by (rule ext) (simp add: lws_http2_settings_write_def setting_bytes_def)

lemma my_settings_entries:
  "my_settings_payload w = concat (map (\<lambda>(n, v). setting_bytes n v)
     (map (\<lambda>n. (n, my_settings w ! n)) (filter (\<lambda>n. my_settings w ! n \<noteq> lws_http2_default_settings ! n) [1..<7])))"
  by (simp add: my_settings_payload_def settings_write_eq comp_def)

lemma fold_settings_nth:
  assumes "\<forall>n\<in>set ns. n < 7" "length st = 7" "i < 7"
  shows "fold (\<lambda>(n, v) st. if n < 7 then st[n := v] else st) (map (\<lambda>n. (n, xs ! n)) ns) st ! i =
    (if i \<in> set ns then xs ! i else st ! i) \<and>
    length (fold (\<lambda>(n, v) st. if n < 7 then st[n := v] else st) (map (\<lambda>n. (n, xs ! n)) ns) st) = 7"
  using assms by (induction ns arbitrary: st) (auto simp: nth_list_update)

lemma settings_payload_back:
  assumes "length (my_settings w) = 7" "my_settings w ! 0 = 0"
  shows "lws_http2_interpret_settings_payload lws_http2_default_settings (my_settings_payload w) =
    (0, my_settings w)"
proof -
  define ns where "ns = filter (\<lambda>n. my_settings w ! n \<noteq> lws_http2_default_settings ! n) [1..<7]"
  define es where "es = map (\<lambda>n. (n, my_settings w ! n)) ns"
  have pl: "my_settings_payload w = concat (map (\<lambda>(n, v). setting_bytes n v) es)"
    unfolding es_def ns_def by (rule my_settings_entries)
  let ?st = "fold (\<lambda>(n, v) st. if n < 7 then st[n := v] else st) es lws_http2_default_settings"
  have ns: "\<forall>n\<in>set ns. n < 7" "length lws_http2_default_settings = 7" "lws_http2_default_settings ! 0 = 0"
    by (simp_all add: ns_def lws_http2_default_settings_def)
  have st: "?st = my_settings w"
  proof (rule nth_equalityI)
    show "length ?st = length (my_settings w)"
      using fold_settings_nth [OF ns(1,2), of 0 "my_settings w"] assms(1) by (simp add: es_def)
    fix i assume "i < length ?st"
    then have i: "i < 7" using fold_settings_nth [OF ns(1,2), of 0 "my_settings w"] by (simp add: es_def)
    then have "i \<notin> set ns \<Longrightarrow> my_settings w ! i = lws_http2_default_settings ! i"
      using assms(2) ns(3) by (cases "i = 0") (auto simp: ns_def)
    with i show "?st ! i = my_settings w ! i"
      using fold_settings_nth [OF ns(1,2) i, of "my_settings w"] by (auto simp: es_def)
  qed
  have loop: "settings_loop lws_http2_default_settings (concat (map (\<lambda>(n, v). setting_bytes n v) es)) = (?st, [])"
    using settings_loop_entries [of es lws_http2_default_settings "[]"] ns(1)
    by (fastforce simp: es_def)
  show ?thesis
  proof (cases "es = []")
    case True
    then show ?thesis using st by (simp add: pl lws_http2_interpret_settings_payload_def)
  next
    case False
    then have "6 \<le> length (my_settings_payload w)"
      unfolding pl by (cases es) (auto simp: setting_bytes_def)
    then show ?thesis
      using loop st unfolding pl [symmetric] lws_http2_interpret_settings_payload_def by auto
  qed
qed

section \<open>Frames\<close>

lemma frame_header_length [simp]: "length (http2_frame_header t f sid n) = 9"
  by (simp add: http2_frame_header_def)

lemma network_self: "conn_at c p = Some w \<Longrightarrow> parent_wsi w = None \<Longrightarrow> lws_http2_get_network_wsi c p = Inr p"
  using conn_bound [of c p w] by (cases "length (h2_conns c)") (simp_all add: lws_http2_get_network_wsi_def)

lemma frame_write_sends:
  assumes "lws_http2_get_network_wsi c p = Inr m" "tx_idle (he_tx env) (h2_tx c)"
    "9 \<le> tb_off b" "tb_off b + tb_len b \<le> length (tb_mem b)" "tb_len b + 9 < 2 ^ 31" "\<not> clean_buffer (h2_tx c)"
  obtains t where "lws_http2_frame_write env c p ty fl sid b = Inr (int (tb_len b), c\<lparr>h2_tx := t\<rparr>)" "tx_ok t"
      "stream t = stream (h2_tx c) @ http2_frame_header ty fl sid (tb_len b) @ tb_bytes b"
  | t where "lws_http2_frame_write env c p ty fl sid b = Inr (-1, c\<lparr>h2_tx := t\<rparr>)" "tx_ok t"
      "gives_up (he_tx env) (tx_clock (h2_tx c)) (http2_frame_header ty fl sid (tb_len b) @ tb_bytes b)"
proof -
  let ?h = "http2_frame_header ty fl sid (tb_len b)"
  define b1 where "b1 = b\<lparr>tb_mem := take (tb_off b - 9) (tb_mem b) @ ?h @ drop (tb_off b) (tb_mem b),
      tb_off := tb_off b - 9, tb_len := tb_len b + 9\<rparr>"
  have poke: "poke b (tb_off b - 9) ?h = Some (b\<lparr>tb_mem := take (tb_off b - 9) (tb_mem b) @ ?h @ drop (tb_off b) (tb_mem b)\<rparr>)"
    using assms(3,4) by (simp add: poke_def)
  have ok: "tb_ok b1" "tb_len b1 \<noteq> 0" using assms(3-5) by (simp_all add: b1_def tb_ok_def)
  have bytes: "tb_bytes b1 = ?h @ tb_bytes b"
    using assms(3,4) by (simp add: b1_def tb_bytes_def min_absorb2)
  have fw: "lws_http2_frame_write env c p ty fl sid b =
      (case lws_issue_raw (he_tx env) (h2_tx c) b1 of
         Inl _ \<Rightarrow> Inl H2_undefined
       | Inr (n, t) \<Rightarrow> Inr (if 9 \<le> n then n - 9 else n, c\<lparr>h2_tx := t\<rparr>))"
    using assms(3) by (simp add: lws_http2_frame_write_def assms(1) poke b1_def
        split: sum.split)
  show ?thesis
  proof (cases rule: issue_raw_new [OF assms(2) ok, case_names took failed])
    case (took n t)
    then have "n = tb_len b1" using assms(6) by blast
    with took fw bytes length_tb_bytes [OF ok(1)] show ?thesis
      by (intro that(1) [of t]) (simp_all add: b1_def)
  next
    case (failed k t)
    then show ?thesis using fw bytes by (intro that(2) [of t]) simp_all
  qed
qed

section \<open>Parsing a frame header\<close>

definition h2_open :: "http2_wsi \<Rightarrow> bool" where
  "h2_open w \<longleftrightarrow> h2_state w = WSI_STATE_HTTP2_ESTABLISHED_PRE_SETTINGS \<or> h2_state w = WSI_STATE_HTTP2_ESTABLISHED"

lemma upd_conn_same: "conn_at c p = Some w \<Longrightarrow> f w = w \<Longrightarrow> upd_conn p f c = c"
proof -
  assume "conn_at c p = Some w" "f w = w"
  moreover from this have "(h2_conns c)[p := Some w] = h2_conns c"
    by (metis conn_at_def list_update_id option.distinct(1))
  ultimately show ?thesis by (simp add: upd_conn_def)
qed

lemma h2_count_same: "w\<lparr>h2_count := h2_count w\<rparr> = (w :: http2_wsi)"
  by simp

lemma parser_open:
  "conn_at c p = Some w \<Longrightarrow> h2_open w \<Longrightarrow> lws_http2_parser env p c b =
     (if frame_state w = 9 then h2_payload_byte env c p w b else header_byte env c p w b)"
  by (auto simp: lws_http2_parser_def h2_open_def)

lemma header_step:
  assumes "conn_at c p = Some w" "h2_open w" "frame_state w < 8"
  shows "lws_http2_parser env p c b = Inr (upd_conn p (\<lambda>_. header_field p w b) c)"
  using assms by (simp add: parser_open header_byte_def upd_conn_def)

lemma header_field_simps:
  "h2_open (header_field p w b) = h2_open w" "frame_state (header_field p w b) = frame_state w + 1"
  by (simp_all add: header_field_def h2_open_def Let_def)

lemma header_run:
  assumes "conn_at c p = Some w" "h2_open w" "frame_state w + length bs \<le> 8"
  shows "run_bytes (lws_http2_parser env p) c bs =
    Inr (upd_conn p (\<lambda>_. foldl (header_field p) w bs) c)"
  using assms
proof (induction bs arbitrary: c w)
  case Nil
  then show ?case by (simp add: upd_conn_same)
next
  case (Cons b bs)
  let ?c = "upd_conn p (\<lambda>_. header_field p w b) c"
  have "conn_at ?c p = Some (header_field p w b)" using Cons.prems(1) by simp
  then have "run_bytes (lws_http2_parser env p) ?c bs =
      Inr (upd_conn p (\<lambda>_. foldl (header_field p) (header_field p w b) bs) ?c)"
    using Cons.prems(2,3) by (intro Cons.IH) (simp_all add: header_field_simps)
  with Cons.prems show ?case by (simp add: header_step)
qed

lemma frame_length_word:
  assumes "n < 2 ^ 24"
  shows "push_bit 8 (push_bit 8 (ucast (of_nat (n div 2 ^ 16) :: byte)) OR ucast (of_nat (n div 2 ^ 8) :: byte)) OR
    ucast (of_nat n :: byte) = (of_nat n :: u32)"
proof (rule bit_word_eqI)
  have hi: "\<not> bit n k" if "24 \<le> k" for k
  proof -
    have "(2::nat) ^ 24 \<le> 2 ^ k" using that by (rule power_increasing) simp
    then have "n < 2 ^ k" using assms by linarith
    then show ?thesis by (simp add: bit_nat_def)
  qed
  have d: "n div 2 ^ 16 = drop_bit 16 n" "n div 2 ^ 8 = drop_bit 8 n" by (simp_all add: drop_bit_eq_div)
  fix k assume "k < LENGTH(32)"
  then consider "k < 8" | "8 \<le> k" "k < 16" | "16 \<le> k" "k < 24" | "24 \<le> k" "k < 32" by fastforce
  then show "bit (push_bit 8 (push_bit 8 (ucast (of_nat (n div 2 ^ 16) :: byte)) OR ucast (of_nat (n div 2 ^ 8) :: byte)) OR
    ucast (of_nat n :: byte) :: u32) k = bit (of_nat n :: u32) k"
    unfolding d
    by cases (auto simp: bit_or_iff bit_push_bit_iff bit_unsigned_iff bit_of_nat_iff bit_drop_bit_eq hi)
qed

lemma stream_id_word:
  "push_bit 8 (push_bit 8 (push_bit 8 (push_bit 8 s OR ucast (ucast (drop_bit 24 x) :: byte)) OR
     ucast (ucast (drop_bit 16 x) :: byte)) OR ucast (ucast (drop_bit 8 x) :: byte)) OR
     ucast (ucast x :: byte) = (x :: u32)"
proof (rule bit_word_eqI)
  fix k assume "k < LENGTH(32)"
  then consider "k < 8" | "8 \<le> k" "k < 16" | "16 \<le> k" "k < 24" | "24 \<le> k" "k < 32" by fastforce
  then show "bit (push_bit 8 (push_bit 8 (push_bit 8 (push_bit 8 s OR ucast (ucast (drop_bit 24 x) :: byte)) OR
     ucast (ucast (drop_bit 16 x) :: byte)) OR ucast (ucast (drop_bit 8 x) :: byte)) OR
     ucast (ucast x :: byte)) k = bit x k"
    by cases (auto simp: bit_or_iff bit_push_bit_iff bit_unsigned_iff bit_drop_bit_eq)
qed

lemma nine_fields:
  assumes "frame_state w = 0"
  shows "foldl (header_field p) w [b0, b1, b2, b3, b4, b5, b6, b7, b8] =
    w\<lparr>frame_state := 9,
      h2_length := push_bit 8 (push_bit 8 (ucast b0) OR ucast b1) OR ucast b2, h2_type := b3, h2_flags := b4,
      stream_id := push_bit 8 (push_bit 8 (push_bit 8 (push_bit 8 (stream_id w) OR ucast b5) OR ucast b6) OR ucast b7)
        OR ucast b8,
      stream_wsi := Some p\<rparr>"
  using assms by (simp add: header_field_def Let_def eval_nat_numeral)

lemma header_fields:
  assumes "frame_state w = 0" "n < 2 ^ 24"
  shows "foldl (header_field p) w (http2_frame_header ty fl sid n) =
    w\<lparr>frame_state := 9, h2_length := of_nat n, h2_type := ty, h2_flags := fl, stream_id := sid,
      stream_wsi := Some p\<rparr>"
  unfolding http2_frame_header_def be32_def append.simps nine_fields [OF assms(1)] stream_id_word
    frame_length_word [OF assms(2)] ..

lemma header_complete_run:
  assumes "conn_at c p = Some w" "h2_open w" "frame_state w = 0" "n < 2 ^ 24"
  shows "run_bytes (lws_http2_parser env p) c (http2_frame_header ty fl sid n) =
    frame_header_complete env
      (upd_conn p (\<lambda>w. w\<lparr>frame_state := 9, h2_length := of_nat n, h2_type := ty, h2_flags := fl,
                          stream_id := sid, stream_wsi := Some p\<rparr>) c) p"
proof -
  define hs where "hs = http2_frame_header ty fl sid n"
  have hs: "hs = butlast hs @ [last hs]" "length (butlast hs) = 8"
    by (simp_all add: hs_def http2_frame_header_def be32_def)
  define w1 where "w1 = foldl (header_field p) w (butlast hs)"
  have r1: "run_bytes (lws_http2_parser env p) c (butlast hs) = Inr (upd_conn p (\<lambda>_. w1) c)"
    unfolding w1_def using assms(1-3) hs(2) by (intro header_run) simp_all
  have fs: "frame_state (foldl (header_field p) w bs) = frame_state w + length bs \<and>
      h2_open (foldl (header_field p) w bs) = h2_open w" for bs
    by (induction bs arbitrary: w) (simp_all add: header_field_simps)
  have w1: "frame_state w1 = 8" "h2_open w1" using fs [of "butlast hs"] assms(2,3) hs(2) by (simp_all add: w1_def)
  have c1: "conn_at (upd_conn p (\<lambda>_. w1) c) p = Some w1" using assms(1) by simp
  have "lws_http2_parser env p (upd_conn p (\<lambda>_. w1) c) (last hs) =
      frame_header_complete env (upd_conn p (\<lambda>_. header_field p w1 (last hs)) c) p"
    using w1 by (simp add: parser_open [OF c1] header_byte_def)
  moreover have "header_field p w1 (last hs) = foldl (header_field p) w hs"
    unfolding w1_def by (subst hs(1)) (simp only: foldl_append foldl.simps)
  moreover have "upd_conn p (\<lambda>_. foldl (header_field p) w hs) c =
      upd_conn p (\<lambda>w. w\<lparr>frame_state := 9, h2_length := of_nat n, h2_type := ty, h2_flags := fl,
                          stream_id := sid, stream_wsi := Some p\<rparr>) c"
    unfolding hs_def header_fields [OF assms(3,4)] using assms(1) by (simp add: upd_conn_def)
  ultimately show ?thesis
    unfolding hs_def [symmetric] by (subst hs(1)) (simp add: run_bytes_append r1 split: sum.split)
qed

section \<open>The preface\<close>

lemma preface_length: "length https_client_preface = 24"
  by (simp add: https_client_preface_def)

lemma preface_step:
  assumes "conn_at c p = Some w" "h2_state w = WSI_STATE_HTTP2_AWAIT_CLIENT_PREFACE" "unat (h2_count w) < 23"
  shows "lws_http2_parser env p c b =
    (if https_client_preface ! unat (h2_count w) \<noteq> b then Inl H2_reject
     else Inr (upd_conn p (\<lambda>w. w\<lparr>h2_count := h2_count w + 1\<rparr>) c))"
  using assms by (simp add: lws_http2_parser_def preface_byte_def preface_length)

lemma preface_run:
  assumes "conn_at c p = Some w" "h2_state w = WSI_STATE_HTTP2_AWAIT_CLIENT_PREFACE" "h2_count w = of_nat n"
    "n + length bs \<le> 23"
  shows "run_bytes (lws_http2_parser env p) c bs =
    (if prefix bs (drop n https_client_preface)
     then Inr (upd_conn p (\<lambda>w. w\<lparr>h2_count := of_nat (n + length bs)\<rparr>) c) else Inl H2_reject)"
  using assms
proof (induction bs arbitrary: c w n)
  case Nil
  then have "w\<lparr>h2_count := of_nat n\<rparr> = w" by (metis h2_count_same)
  with Nil show ?case by (simp add: upd_conn_same)
next
  case (Cons b bs)
  have n: "n < 23" "unat (h2_count w) = n" using Cons.prems(3,4) by (simp_all add: unat_of_nat)
  have d: "drop n https_client_preface = https_client_preface ! n # drop (Suc n) https_client_preface"
    using n(1) by (simp add: Cons_nth_drop_Suc preface_length)
  let ?c = "upd_conn p (\<lambda>w. w\<lparr>h2_count := h2_count w + 1\<rparr>) c"
  have step: "lws_http2_parser env p c b =
      (if https_client_preface ! n \<noteq> b then Inl H2_reject else Inr ?c)"
    using preface_step [OF Cons.prems(1,2)] n by simp
  have "run_bytes (lws_http2_parser env p) ?c bs =
      (if prefix bs (drop (Suc n) https_client_preface)
       then Inr (upd_conn p (\<lambda>w. w\<lparr>h2_count := of_nat (Suc n + length bs)\<rparr>) ?c) else Inl H2_reject)"
    using Cons.prems by (intro Cons.IH [of _ "w\<lparr>h2_count := h2_count w + 1\<rparr>"]) (simp_all add: add.commute)
  then show ?case unfolding d by (simp add: step)
qed

text \<open>A protocol frame falls due on a connection with a socket of its own.\<close>

definition pending_ctx :: "h2_ctx \<Rightarrow> nat \<Rightarrow> http2_wsi \<Rightarrow> lws_pending_protocol_send \<Rightarrow> h2_ctx" where
  "pending_ctx c p w pend =
     (let c1 = log_h2 (Ev_rx_flow p False) (upd_conn p (\<lambda>w. w\<lparr>pps := pend\<rparr>) c)
      in if requested_POLLOUT w then c1
         else log_h2 (Ev_pollout p) (upd_conn p (\<lambda>w. w\<lparr>requested_POLLOUT := True\<rparr>) c1))"

lemma upd_conn_log: "upd_conn p f (log_h2 e c) = log_h2 e (upd_conn p f c)"
  by (simp add: upd_conn_def log_h2_def conn_at_def split: option.splits)

lemma mark_root:
  "conn_at c p = Some w \<Longrightarrow> parent_wsi w = None \<Longrightarrow>
   mark_walk (length (h2_conns c)) c p = Inr (upd_conn p (\<lambda>w. w\<lparr>requested_POLLOUT := True\<rparr>) c)"
  using conn_bound [of c p w] by (cases "length (h2_conns c)") simp_all

lemma writable_root:
  "conn_at c p = Some w \<Longrightarrow> parent_wsi w = None \<Longrightarrow> h2_callback_on_writable c p =
     Inr (if requested_POLLOUT w then c
          else log_h2 (Ev_pollout p) (upd_conn p (\<lambda>w. w\<lparr>requested_POLLOUT := True\<rparr>) c))"
  by (simp add: h2_callback_on_writable_def network_self mark_root)

lemma write_pending:
  assumes "conn_at c p = Some w" "parent_wsi w = None"
  shows "lws_set_protocol_write_pending c p pend = Inr (pending_ctx c p w pend)"
  unfolding lws_set_protocol_write_pending_def pending_ctx_def Let_def
  by (subst writable_root [of _ _ "w\<lparr>pps := pend\<rparr>"]) (simp_all add: assms)

lemma pending_ctx_conn [simp]:
  "conn_at c p = Some w \<Longrightarrow> conn_at (pending_ctx c p w pend) q =
     (if q = p then Some (w\<lparr>pps := pend, requested_POLLOUT := True\<rparr>) else conn_at c q)"
  by (auto simp: pending_ctx_def Let_def upd_conn_log)

lemma pending_ctx_tx [simp]: "h2_tx (pending_ctx c p w pend) = h2_tx c"
  by (simp add: pending_ctx_def Let_def upd_conn_log log_h2_def)

text \<open>The preface of a client is accepted when it is the preface, byte for byte: then the connection waits for
  the first settings and its own settings are due. As soon as a byte differs the parser refuses.\<close>

theorem http2_preface_accepted:
  assumes "conn_at c p = Some w" "parent_wsi w = None" "h2_state w = WSI_STATE_HTTP2_AWAIT_CLIENT_PREFACE"
    "h2_count w = 0" "length bs = 24"
  shows "run_bytes (lws_http2_parser env p) c bs =
    (if bs = https_client_preface
     then Inr (pending_ctx (upd_conn p (\<lambda>w. w\<lparr>h2_count := 0,
                 h2_state := WSI_STATE_HTTP2_ESTABLISHED_PRE_SETTINGS\<rparr>) c) p
                 (w\<lparr>h2_count := 0, h2_state := WSI_STATE_HTTP2_ESTABLISHED_PRE_SETTINGS\<rparr>) LWS_PPS_HTTP2_MY_SETTINGS)
     else Inl H2_reject)"
proof -
  have bs: "bs = butlast bs @ [last bs]" "length (butlast bs) = 23" using assms(5)
    by (metis append_butlast_last_id list.size(3) zero_neq_numeral, simp)
  have pre: "https_client_preface = butlast https_client_preface @ [last https_client_preface]"
    by (metis append_butlast_last_id list.size(3) preface_length zero_neq_numeral)
  have lastn: "https_client_preface ! 23 = last https_client_preface"
    by (simp add: last_conv_nth preface_length flip: length_0_conv)
  have run: "run_bytes (lws_http2_parser env p) c (butlast bs) =
      (if prefix (butlast bs) https_client_preface
       then Inr (upd_conn p (\<lambda>w. w\<lparr>h2_count := 23\<rparr>) c) else Inl H2_reject)"
    using preface_run [of c p w 0 "butlast bs" env] assms(1,3,4) bs(2) by simp
  have px: "prefix (butlast bs) https_client_preface \<longleftrightarrow> butlast bs = butlast https_client_preface"
  proof
    assume "prefix (butlast bs) https_client_preface"
    then have "butlast bs = take 23 https_client_preface" using bs(2) by (metis append_eq_conv_conj prefix_def)
    then show "butlast bs = butlast https_client_preface" by (simp add: butlast_conv_take preface_length)
  qed (metis pre prefixI)
  let ?c1 = "upd_conn p (\<lambda>w. w\<lparr>h2_count := 23\<rparr>) c"
  let ?w2 = "w\<lparr>h2_count := 0, h2_state := WSI_STATE_HTTP2_ESTABLISHED_PRE_SETTINGS\<rparr>"
  let ?c2 = "upd_conn p (\<lambda>w. w\<lparr>h2_count := 0, h2_state := WSI_STATE_HTTP2_ESTABLISHED_PRE_SETTINGS\<rparr>) c"
  have c2: "conn_at ?c2 p = Some ?w2" using assms(1) by simp
  have fin: "lws_http2_parser env p ?c1 (last bs) =
      (if last https_client_preface \<noteq> last bs then Inl H2_reject
       else Inr (pending_ctx ?c2 p ?w2 LWS_PPS_HTTP2_MY_SETTINGS))"
    using assms(1-3) write_pending [OF c2] by (simp add: lws_http2_parser_def preface_byte_def preface_length lastn)
  have eq: "bs = https_client_preface \<longleftrightarrow> butlast bs = butlast https_client_preface \<and> last bs = last https_client_preface"
    by (metis bs(1) pre)
  have all: "run_bytes (lws_http2_parser env p) c (butlast bs @ [last bs]) =
      (if butlast bs = butlast https_client_preface then lws_http2_parser env p ?c1 (last bs) else Inl H2_reject)"
    unfolding run_bytes_append run px by (auto split: sum.split)
  show ?thesis
    using all unfolding bs(1) [symmetric] fin eq by (auto simp: eq_commute [of "last bs"])
qed


text \<open>A connection that just became HTTP/2, for the witnesses.\<close>

definition h2_new_conn :: "lws_connection_states \<Rightarrow> http2_wsi" where
  "h2_new_conn st = (new_h2_wsi (hdr_ah zero_hdr))\<lparr>h2_state := st, my_settings := lws_http2_init,
     peer_settings := lws_http2_init\<rparr>"

definition h2_start :: "lws_connection_states \<Rightarrow> h2_ctx" where
  "h2_start st = \<lparr>h2_conns = [Some (h2_new_conn st)], h2_tx = new_tx LWS_CONNMODE_HTTP2_SERVING, h2_log = []\<rparr>"

definition no_h2_env :: h2_env where
  "no_h2_env = \<lparr>he_malloc = True, he_ah = Some (hdr_ah zero_hdr), he_mem = \<lparr>mem_dyn = False, mem_args = None, mem_entries = None\<rparr>,
     he_limits = None, he_ssl = False, he_action = (\<lambda>w. (0, w)), he_tx = all_env\<rparr>"

lemma h2_start_conn: "conn_at (h2_start st) 0 = Some (h2_new_conn st)"
  by (simp add: h2_start_def conn_at_def)

lemma h2_new_conn_simps [simp]:
  "h2_state (h2_new_conn st) = st" "frame_state (h2_new_conn st) = 0" "parent_wsi (h2_new_conn st) = None"
  "h2_count (h2_new_conn st) = 0" "length (one_setting (h2_new_conn st)) = 6"
  "my_settings (h2_new_conn st) = lws_http2_init" "peer_settings (h2_new_conn st) = lws_http2_init"
  "my_stream_id (h2_new_conn st) = 0" "next_child_wsi (h2_new_conn st) = None" "child_count (h2_new_conn st) = 0"
  by (simp_all add: h2_new_conn_def new_h2_wsi_def)

theorem http2_preface_accepted_witness:
  "(\<exists>c. run_bytes (lws_http2_parser no_h2_env 0) (h2_start WSI_STATE_HTTP2_AWAIT_CLIENT_PREFACE)
     https_client_preface = Inr c) \<and>
   run_bytes (lws_http2_parser no_h2_env 0) (h2_start WSI_STATE_HTTP2_AWAIT_CLIENT_PREFACE)
     (replicate 24 0x50) = Inl H2_reject"
proof -
  have "replicate 24 0x50 \<noteq> https_client_preface"
    by (simp add: https_client_preface_def bytes_def eval_nat_numeral)
  then show ?thesis
    using http2_preface_accepted [OF h2_start_conn, of WSI_STATE_HTTP2_AWAIT_CLIENT_PREFACE _ no_h2_env]
    by (simp add: preface_length)
qed

section \<open>Frames that are not used\<close>

lemma upd_conn_cong: "conn_at c p = Some w \<Longrightarrow> f w = g w \<Longrightarrow> upd_conn p f c = upd_conn p g c"
  by (simp add: upd_conn_def)

lemma pure_run:
  assumes "\<And>c w b. conn_at c p = Some w \<Longrightarrow> P w \<Longrightarrow> lws_http2_parser env p c b = Inr (upd_conn p (\<lambda>_. f w b) c)"
    and "conn_at c p = Some w" "\<And>k. k < length bs \<Longrightarrow> P (foldl f w (take k bs))"
  shows "run_bytes (lws_http2_parser env p) c bs = Inr (upd_conn p (\<lambda>_. foldl f w bs) c)"
  using assms(2,3)
proof (induction bs arbitrary: c w)
  case Nil
  then show ?case by (simp add: upd_conn_same)
next
  case (Cons b bs)
  have P: "P w" using Cons.prems(2) [of 0] by simp
  have "run_bytes (lws_http2_parser env p) (upd_conn p (\<lambda>_. f w b) c) bs =
      Inr (upd_conn p (\<lambda>_. foldl f (f w b) bs) (upd_conn p (\<lambda>_. f w b) c))"
    using Cons.prems by (intro Cons.IH) (auto dest: spec [of _ "Suc _"] intro: Cons.prems(2) [of "Suc _", simplified])
  then show ?case by (simp add: assms(1) [OF Cons.prems(1) P])
qed

text \<open>The end of a frame that does not carry headers.\<close>

definition frame_over :: "http2_wsi \<Rightarrow> http2_wsi" where
  "frame_over w = w\<lparr>frame_state := 0, h2_count := 0,
     tx_credit := if h2_initialized w then tx_credit w
                  else peer_settings w ! LWS_HTTP2_SETTINGS__INITIAL_WINDOW_SIZE, h2_initialized := True\<rparr>"

definition in_payload :: "nat \<Rightarrow> byte \<Rightarrow> http2_wsi \<Rightarrow> bool" where
  "in_payload p ty w \<longleftrightarrow> h2_open w \<and> frame_state w = 9 \<and> stream_wsi w = Some p \<and> h2_type w = ty"

lemma frame_end_over:
  assumes "conn_at c p = Some w" "h2_type w \<noteq> 1"
  shows "frame_end env c p w = Inr (upd_conn p (\<lambda>_. frame_over w) c)"
proof -
  have "upd_conn p (\<lambda>_. frame_over w) c = upd_conn p frame_over c"
    using assms(1) by (simp add: upd_conn_def)
  then show ?thesis using assms conn_bound [OF assms(1)]
    by (auto simp: frame_end_def frame_over_def upd_conn_def Let_def conn_at_def
        intro!: arg_cong [of _ _ "\<lambda>x. c\<lparr>h2_conns := (h2_conns c)[p := Some x]\<rparr>"])
qed

lemma upd_conn_const: "conn_at c p = Some w \<Longrightarrow> upd_conn p f c = upd_conn p (\<lambda>_. f w) c"
  by (simp add: upd_conn_def)

definition skip_byte :: "http2_wsi \<Rightarrow> byte \<Rightarrow> http2_wsi" where
  "skip_byte w b =
     (let w1 = w\<lparr>h2_count := h2_count w + 1\<rparr> in if h2_count w1 = h2_length w1 then frame_over w1 else w1)"

lemma skip_step:
  assumes "conn_at c p = Some w" "in_payload p ty w" "ty \<notin> {1, 4, 7}"
  shows "lws_http2_parser env p c b = Inr (upd_conn p (\<lambda>_. skip_byte w b) c)"
proof -
  let ?w = "w\<lparr>h2_count := h2_count w + 1\<rparr>"
  have w: "h2_open w" "frame_state w = 9" "stream_wsi w = Some p" "h2_type w = ty"
    using assms(2) by (simp_all add: in_payload_def)
  let ?c = "upd_conn p (\<lambda>w'. w'\<lparr>h2_count := h2_count w + 1\<rparr>) c"
  have c: "conn_at ?c p = Some ?w" using assms(1) by simp
  have "lws_http2_parser env p c b =
      (if h2_count ?w \<noteq> h2_length w then Inr ?c else frame_end env ?c p ?w)"
    using assms(1,3) w by (simp add: parser_open h2_payload_byte_def payload_type_def Let_def)
  also have "\<dots> = Inr (upd_conn p (\<lambda>_. skip_byte w b) c)"
    using frame_end_over [OF c, of env] w(4) assms(3) upd_conn_const [OF assms(1)]
    by (auto simp: skip_byte_def Let_def)
  finally show ?thesis .
qed

definition settings_byte :: "http2_wsi \<Rightarrow> byte \<Rightarrow> http2_wsi" where
  "settings_byte w b =
     (let n = h2_count w + 1; i = unat n mod 6; w1 = w\<lparr>h2_count := n, one_setting := (one_setting w)[i := b]\<rparr>
      in if i = 5
         then w1\<lparr>peer_settings := snd (lws_http2_interpret_settings_payload (peer_settings w1) (one_setting w1))\<rparr>
         else w1)"

definition settings_last :: "http2_wsi \<Rightarrow> byte \<Rightarrow> http2_wsi" where
  "settings_last w b =
     (let w1 = settings_byte w b in if h2_count w1 = h2_length w1 then frame_over w1 else w1)"

lemma one_setting_interpreted:
  assumes "length b = 6"
  shows "lws_http2_interpret_settings_payload st b =
    (0, let a = push_bit 8 (unat (b ! 0)) OR unat (b ! 1) in if a < 7 then st[a := of_be32 (drop 2 b)] else st)"
proof -
  obtain b0 b1 b2 b3 b4 b5 where "b = [b0, b1, b2, b3, b4, b5]"
    using assms by (auto simp: eval_nat_numeral length_Suc_conv)
  then show ?thesis by (simp add: lws_http2_interpret_settings_payload_def Let_def)
qed

lemma settings_step:
  assumes "conn_at c p = Some w" "in_payload p 4 w \<and> length (one_setting w) = 6"
  shows "lws_http2_parser env p c b = Inr (upd_conn p (\<lambda>_. settings_last w b) c)"
proof -
  have w: "h2_open w" "frame_state w = 9" "stream_wsi w = Some p" "h2_type w = 4"
    using assms(2) by (simp_all add: in_payload_def)
  let ?w = "w\<lparr>h2_count := h2_count w + 1\<rparr>"
  let ?c = "upd_conn p (\<lambda>w'. w'\<lparr>h2_count := h2_count w + 1\<rparr>) c"
  have pt: "payload_type env ?c p ?w p b = Inr (upd_conn p (\<lambda>_. settings_byte w b) c)"
  proof (cases "unat (h2_count w + 1) mod 6 = 5")
    case True
    have "length ((one_setting w)[5 := b]) = 6" using assms(2) by simp
    from one_setting_interpreted [OF this] obtain st where st:
      "lws_http2_interpret_settings_payload (peer_settings w) ((one_setting w)[5 := b]) = (0, st)" by blast
    show ?thesis
      using assms w(4) upd_conn_const [OF assms(1)] True
      by (simp add: payload_type_def settings_byte_def Let_def st)
  next
    case False
    then show ?thesis
      using assms w(4) upd_conn_const [OF assms(1)]
      by (simp add: payload_type_def settings_byte_def Let_def)
  qed
  let ?c2 = "upd_conn p (\<lambda>_. settings_byte w b) c"
  have c2: "conn_at ?c2 p = Some (settings_byte w b)" using assms(1) by simp
  have "lws_http2_parser env p c b =
      (if h2_count (settings_byte w b) \<noteq> h2_length (settings_byte w b) then Inr ?c2
       else frame_end env ?c2 p (settings_byte w b))"
    using assms(1) w pt by (simp add: parser_open h2_payload_byte_def)
  also have "h2_type (settings_byte w b) = 4" using w(4) by (simp add: settings_byte_def Let_def)
  then have "(if h2_count (settings_byte w b) \<noteq> h2_length (settings_byte w b) then Inr ?c2
       else frame_end env ?c2 p (settings_byte w b)) = Inr (upd_conn p (\<lambda>_. settings_last w b) c)"
    using frame_end_over [OF c2, of env] by (simp add: settings_last_def Let_def)
  finally show ?thesis .
qed

text \<open>What a complete header leaves on the connection.\<close>

definition header_seen :: "nat \<Rightarrow> byte \<Rightarrow> byte \<Rightarrow> u32 \<Rightarrow> nat \<Rightarrow> http2_wsi \<Rightarrow> http2_wsi" where
  "header_seen p ty fl sid n w =
     w\<lparr>frame_state := LWS_HTTP2_FRAME_HEADER_LENGTH, h2_length := of_nat n, h2_type := ty, h2_flags := fl,
       stream_id := sid, stream_wsi := Some p, h2_count := 0\<rparr>"

lemma small_length: "n < 2 ^ 24 \<Longrightarrow> (of_nat n :: u32) = 0 \<longleftrightarrow> n = 0" "n < 2 ^ 24 \<Longrightarrow> unat (of_nat n :: u32) = n"
  by (auto simp: unat_of_nat word_of_nat_eq_0_iff dest: dvd_imp_le)

lemma header_of_other:
  assumes "conn_at c p = Some w" "h2_open w" "frame_state w = 0" "n < 2 ^ 24" "ty \<notin> {1, 4, 9}"
  shows "run_bytes (lws_http2_parser env p) c (http2_frame_header ty fl sid n) =
    Inr (upd_conn p (\<lambda>_. (if n = 0 then (\<lambda>w. w\<lparr>frame_state := 0\<rparr>) else id) (header_seen p ty fl sid n w)) c)"
  using assms by (auto simp: header_complete_run frame_header_complete_def frame_type_start_def header_seen_def
      small_length intro!: upd_conn_cong [OF assms(1)])

lemma foldl_skip:
  assumes "h2_count w = of_nat k" "k + length bs < n" "n < 2 ^ 24" "h2_length w = of_nat n"
  shows "foldl skip_byte w bs = w\<lparr>h2_count := of_nat (k + length bs)\<rparr>"
  using assms
proof (induction bs arbitrary: w k)
  case Nil
  then show ?case by (metis add.right_neutral h2_count_same list.size(3) foldl_Nil)
next
  case (Cons b bs)
  have "(of_nat (Suc k) :: u32) \<noteq> of_nat n"
    using Cons.prems(2,3) small_length(2) [of n] small_length(2) [of "Suc k"] by auto
  then have s: "skip_byte w b = w\<lparr>h2_count := of_nat (Suc k)\<rparr>"
    using Cons.prems(1,4) by (simp add: skip_byte_def Let_def add.commute)
  have "foldl skip_byte (w\<lparr>h2_count := of_nat (Suc k)\<rparr>) bs =
      (w\<lparr>h2_count := of_nat (Suc k)\<rparr>)\<lparr>h2_count := of_nat (Suc k + length bs)\<rparr>"
    using Cons.prems by (intro Cons.IH) simp_all
  then show ?case by (simp add: s)
qed

text \<open>
  A frame that is not of type HEADERS, SETTINGS, GOAWAY or CONTINUATION is read to its end whatever its
  payload is, and leaves the parser at the start of the next frame with nothing changed on the
  other connections: so the data of a stream, its resets, priorities and window updates are all
  dropped.
\<close>

theorem http2_other_frames_skipped:
  assumes "conn_at c p = Some w" "h2_open w" "frame_state w = 0" "length bs < 2 ^ 24" "ty \<notin> {1, 4, 7, 9}"
  shows "run_bytes (lws_http2_parser env p) c (http2_frame_header ty fl sid (length bs) @ bs) =
    Inr (upd_conn p (\<lambda>_. (if bs = [] then (\<lambda>w. w\<lparr>frame_state := 0\<rparr>) else frame_over)
                           (header_seen p ty fl sid (length bs) w)) c)"
proof -
  let ?n = "length bs"
  let ?w = "header_seen p ty fl sid ?n w"
  have hd: "run_bytes (lws_http2_parser env p) c (http2_frame_header ty fl sid ?n) =
      Inr (upd_conn p (\<lambda>_. (if ?n = 0 then (\<lambda>w. w\<lparr>frame_state := 0\<rparr>) else id) ?w) c)"
    using header_of_other [OF assms(1-4), of ty env fl sid] assms(5) by simp
  show ?thesis
  proof (cases "bs = []")
    case True
    then show ?thesis using hd by simp
  next
    case False
    let ?c = "upd_conn p (\<lambda>_. ?w) c"
    have c: "conn_at ?c p = Some ?w" using assms(1) by simp
    have P: "in_payload p ty (foldl skip_byte ?w (take k bs))" if "k < ?n" for k
    proof -
      have "foldl skip_byte ?w (take k bs) = ?w\<lparr>h2_count := of_nat (0 + length (take k bs))\<rparr>"
        using that assms(4) by (intro foldl_skip [of _ _ _ ?n]) (simp_all add: header_seen_def)
      then show ?thesis using assms(2) by (simp add: in_payload_def header_seen_def h2_open_def)
    qed
    have "run_bytes (lws_http2_parser env p) ?c bs = Inr (upd_conn p (\<lambda>_. foldl skip_byte ?w bs) ?c)"
      by (rule pure_run [of p "in_payload p ty", OF _ c]) (use skip_step assms(5) P in auto)
    moreover have "foldl skip_byte ?w bs = frame_over ?w"
    proof -
      have bs: "bs = butlast bs @ [last bs]" using False by simp
      have "foldl skip_byte ?w (butlast bs) = ?w\<lparr>h2_count := of_nat (0 + length (butlast bs))\<rparr>"
        using False assms(4) by (intro foldl_skip [of _ _ _ ?n]) (simp_all add: header_seen_def)
      then have "foldl skip_byte ?w bs = skip_byte (?w\<lparr>h2_count := of_nat (?n - 1)\<rparr>) (last bs)"
        by (subst bs) simp
      moreover have "(of_nat (?n - 1) :: u32) + 1 = of_nat ?n" using False by (cases ?n) simp_all
      ultimately show ?thesis by (simp add: skip_byte_def header_seen_def frame_over_def)
    qed
    ultimately show ?thesis using hd False by (simp add: run_bytes_append)
  qed
qed

theorem http2_other_frames_skipped_witness:
  "run_bytes (lws_http2_parser no_h2_env 0) (h2_start WSI_STATE_HTTP2_ESTABLISHED)
     (http2_frame_header 0 1 3 2 @ [0x68, 0x69]) =
   Inr (upd_conn 0 (\<lambda>_. frame_over (header_seen 0 0 1 3 2
          (h2_new_conn WSI_STATE_HTTP2_ESTABLISHED))) (h2_start WSI_STATE_HTTP2_ESTABLISHED))"
  using http2_other_frames_skipped [OF h2_start_conn, of WSI_STATE_HTTP2_ESTABLISHED "[0x68, 0x69]" 0 no_h2_env 1 3]
  by (simp add: h2_open_def flip: numeral_2_eq_2)

section \<open>Settings of the peer\<close>

definition settings_kept :: "nat \<Rightarrow> http2_wsi \<Rightarrow> nat \<Rightarrow> http2_wsi \<Rightarrow> bool" where
  "settings_kept p w0 m w \<longleftrightarrow>
     h2_count w = of_nat m \<and> length (one_setting w) = 6 \<and> (m mod 6 \<in> {1, 2, 3, 4} \<longrightarrow> one_setting w ! 1 = 0) \<and>
     in_payload p 4 w \<and> h2_length w = h2_length w0 \<and> pps w = pps w0 \<and>
     (\<forall>i>0. peer_settings w ! i = peer_settings w0 ! i)"

lemma settings_byte_at:
  assumes "h2_count w = of_nat m" "Suc m < 2 ^ 24" "Suc m mod 6 = i"
  shows "settings_byte w b =
    (let w1 = w\<lparr>h2_count := of_nat (Suc m), one_setting := (one_setting w)[i := b]\<rparr>
     in if i = 5
        then w1\<lparr>peer_settings := snd (lws_http2_interpret_settings_payload (peer_settings w1) (one_setting w1))\<rparr>
        else w1)"
proof -
  have "h2_count w + 1 = of_nat (Suc m)" using assms(1) by simp
  moreover have "unat (of_nat (Suc m) :: u32) mod 6 = i" using small_length(2) [OF assms(2)] assms(3) by simp
  ultimately show ?thesis by (simp only: settings_byte_def Let_def)
qed

lemma settings_kept_step:
  assumes "settings_kept p w0 m w" "Suc m < 2 ^ 24" "m mod 6 = 0 \<longrightarrow> b = 0"
  shows "settings_kept p w0 (Suc m) (settings_byte w b)"
proof -
  have w: "h2_count w = of_nat m" "length (one_setting w) = 6"
    "m mod 6 \<in> {1, 2, 3, 4} \<longrightarrow> one_setting w ! 1 = 0" "in_payload p 4 w" "h2_length w = h2_length w0"
    "pps w = pps w0" "\<forall>i>0. peer_settings w ! i = peer_settings w0 ! i"
    using assms(1) unfolding settings_kept_def by blast+
  note at = settings_byte_at [OF w(1) assms(2)]
  have a: "push_bit 8 x < 7 \<Longrightarrow> push_bit 8 x = 0" for x :: nat
    by (simp add: push_bit_eq_mult)
  have "m mod 6 < 6" by simp
  then consider "m mod 6 = 0" | "m mod 6 = 1" | "m mod 6 = 2" | "m mod 6 = 3" | "m mod 6 = 4" | "m mod 6 = 5"
    by linarith
  then show ?thesis
  proof cases
    case 5
    then have i: "Suc m mod 6 = 5" by (simp add: mod_Suc)
    let ?os = "(one_setting w)[5 := b]"
    obtain st where st: "lws_http2_interpret_settings_payload (peer_settings w) ?os = (0, st)"
      "\<forall>i>0. st ! i = peer_settings w ! i"
      using one_setting_interpreted [of ?os "peer_settings w"] a [of "unat (one_setting w ! 0)"] w 5
      by (auto simp: Let_def split: if_splits)
    then show ?thesis
      using w i unfolding settings_kept_def at [OF i]
      by (simp add: Let_def in_payload_def h2_open_def)
  next
    case 1
    then have i: "Suc m mod 6 = 1" by (simp add: mod_Suc)
    then show ?thesis using w 1 assms(3) unfolding settings_kept_def at [OF i]
      by (simp add: Let_def in_payload_def h2_open_def)
  next
    case 2
    then have i: "Suc m mod 6 = 2" by (simp add: mod_Suc)
    then show ?thesis using w 2 unfolding settings_kept_def at [OF i]
      by (simp add: Let_def in_payload_def h2_open_def)
  next
    case 3
    then have i: "Suc m mod 6 = 3" by (simp add: mod_Suc)
    then show ?thesis using w 3 unfolding settings_kept_def at [OF i]
      by (simp add: Let_def in_payload_def h2_open_def)
  next
    case 4
    then have i: "Suc m mod 6 = 4" by (simp add: mod_Suc)
    then show ?thesis using w 4 unfolding settings_kept_def at [OF i]
      by (simp add: Let_def in_payload_def h2_open_def)
  next
    case 6
    then have i: "Suc m mod 6 = 0" by (simp add: mod_Suc)
    then show ?thesis using w 6 unfolding settings_kept_def at [OF i]
      by (simp add: Let_def in_payload_def h2_open_def)
  qed
qed

lemma settings_kept_run:
  assumes "settings_kept p w0 m w" "m + length bs < 2 ^ 24" "\<forall>j<length bs. (m + j) mod 6 = 0 \<longrightarrow> bs ! j = 0"
  shows "settings_kept p w0 (m + length bs) (foldl settings_byte w bs)"
  using assms
proof (induction bs arbitrary: m w)
  case (Cons b bs)
  have "settings_kept p w0 (Suc m) (settings_byte w b)"
    using Cons.prems by (intro settings_kept_step) auto
  then show ?case using Cons.prems Cons.IH [of "Suc m" "settings_byte w b"] by fastforce
qed simp

lemma settings_last_run:
  assumes "settings_kept p w0 m w" "m + length bs < n" "n < 2 ^ 24" "h2_length w0 = of_nat n"
    "\<forall>j<length bs. (m + j) mod 6 = 0 \<longrightarrow> bs ! j = 0"
  shows "foldl settings_last w bs = foldl settings_byte w bs"
  using assms
proof (induction bs arbitrary: m w)
  case (Cons b bs)
  have k: "settings_kept p w0 (Suc m) (settings_byte w b)"
    using Cons.prems by (intro settings_kept_step) auto
  have "(of_nat (Suc m) :: u32) \<noteq> of_nat n"
    using Cons.prems(2,3) small_length(2) [of n] small_length(2) [of "Suc m"] by auto
  then have "settings_last w b = settings_byte w b"
    using k Cons.prems(4) by (simp add: settings_last_def Let_def settings_kept_def)
  then show ?case using Cons.prems Cons.IH [OF k] by fastforce
qed simp

lemma setting_bytes_heads:
  assumes "\<forall>(n, v)\<in>set es. n < 256"
  shows "length (concat (map (\<lambda>(n, v). setting_bytes n v) es)) = 6 * length es \<and>
    (\<forall>j<6 * length es. j mod 6 = 0 \<longrightarrow> concat (map (\<lambda>(n, v). setting_bytes n v) es) ! j = 0)"
  using assms
proof (induction es)
  case (Cons e es)
  obtain n v where e: "e = (n, v)" by (cases e)
  have l: "length (setting_bytes n v) = 6" by (simp add: setting_bytes_def be32_def)
  have z: "setting_bytes n v ! 0 = 0" using Cons.prems e by (simp add: setting_bytes_def)
  let ?r = "concat (map (\<lambda>(n, v). setting_bytes n v) es)"
  have r: "length ?r = 6 * length es" "\<forall>j<6 * length es. j mod 6 = 0 \<longrightarrow> ?r ! j = 0"
    using Cons by auto
  have "(setting_bytes n v @ ?r) ! j = 0" if "j < 6 * Suc (length es)" "j mod 6 = 0" for j
  proof (cases "j < 6")
    case True
    then show ?thesis using that z l by (simp add: nth_append)
  next
    case False
    then have "(j - 6) mod 6 = 0" using that(2) by (simp add: le_mod_geq)
    then show ?thesis using False that r l by (simp add: nth_append)
  qed
  then show ?case using e l r by simp
qed simp

text \<open>
  Settings that a client sends in a SETTINGS frame are never taken over: the parser counts a byte before it
  stores it, so each setting is read one place off, with its leading zero byte as the number, and
  all that changes is the unused entry 0. The frame is acknowledged all the same.
\<close>

theorem http2_settings_not_taken:
  assumes "conn_at c p = Some w" "h2_open w" "frame_state w = 0" "parent_wsi w = None"
    "length (one_setting w) = 6" "es \<noteq> []" "\<forall>(n, v)\<in>set es. n < 256" "6 * length es < 2 ^ 24" "fl AND 1 = 0"
  shows "\<exists>c' w'. run_bytes (lws_http2_parser env p) c
      (http2_frame_header 4 fl 0 (6 * length es) @ concat (map (\<lambda>(n, v). setting_bytes n v) es)) = Inr c' \<and>
    conn_at c' p = Some w' \<and> frame_state w' = 0 \<and> pps w' = LWS_PPS_HTTP2_ACK_SETTINGS \<and>
    (\<forall>i>0. peer_settings w' ! i = peer_settings w ! i)"
proof -
  let ?n = "6 * length es" and ?bs = "concat (map (\<lambda>(n, v). setting_bytes n v) es)"
  have bs: "length ?bs = ?n" "\<forall>j<?n. j mod 6 = 0 \<longrightarrow> ?bs ! j = 0"
    by (rule setting_bytes_heads [OF assms(7), THEN conjunct1], rule setting_bytes_heads [OF assms(7), THEN conjunct2])
  let ?w = "header_seen p 4 fl 0 ?n w"
  let ?c1 = "upd_conn p (header_seen p 4 fl 0 ?n) c"
  have c1: "conn_at ?c1 p = Some ?w" using assms(1) by simp
  let ?c2 = "pending_ctx ?c1 p ?w LWS_PPS_HTTP2_ACK_SETTINGS"
  let ?w2 = "?w\<lparr>pps := LWS_PPS_HTTP2_ACK_SETTINGS, requested_POLLOUT := True\<rparr>"
  have hd: "run_bytes (lws_http2_parser env p) c (http2_frame_header 4 fl 0 ?n) = Inr ?c2"
  proof -
    have e: "upd_conn p (\<lambda>w. w\<lparr>h2_count := 0\<rparr>) (upd_conn p (\<lambda>w. w\<lparr>frame_state := 9, h2_length := of_nat ?n,
        h2_type := 4, h2_flags := fl, stream_id := 0, stream_wsi := Some p\<rparr>) c) = ?c1"
      by (simp add: header_seen_def [abs_def])
    have "frame_type_start env ?c1 p ?w = Inr ?c2"
      using write_pending [OF c1] assms(4,9) by (simp add: frame_type_start_def header_seen_def)
    moreover have "h2_length ?w \<noteq> 0" using small_length(1) [OF assms(8)] assms(6) by (simp add: header_seen_def)
    ultimately show ?thesis
      unfolding header_complete_run [OF assms(1-3,8)] frame_header_complete_def e Let_def using assms(1) by simp
  qed
  have c2: "conn_at ?c2 p = Some ?w2" using pending_ctx_conn [OF c1] by simp
  have k: "settings_kept p ?w2 0 ?w2"
    using assms(2,5) by (simp add: settings_kept_def in_payload_def header_seen_def h2_open_def)
  have ln: "h2_length ?w2 = of_nat ?n" by (simp add: header_seen_def)
  have part: "foldl settings_last ?w2 (take j ?bs) = foldl settings_byte ?w2 (take j ?bs) \<and>
      settings_kept p ?w2 j (foldl settings_byte ?w2 (take j ?bs))" if "j < ?n" for j
    using that assms(8) bs settings_last_run [OF k _ assms(8) ln, of "take j ?bs"]
      settings_kept_run [OF k, of "take j ?bs"] by simp
  have run: "run_bytes (lws_http2_parser env p) ?c2 ?bs = Inr (upd_conn p (\<lambda>_. foldl settings_last ?w2 ?bs) ?c2)"
  proof (rule pure_run [of p "\<lambda>w. in_payload p 4 w \<and> length (one_setting w) = 6", OF _ c2])
    fix j assume "j < length ?bs"
    then show "in_payload p 4 (foldl settings_last ?w2 (take j ?bs)) \<and>
        length (one_setting (foldl settings_last ?w2 (take j ?bs))) = 6"
      using part [of j] bs(1) by (simp add: settings_kept_def)
  qed (rule settings_step)
  let ?v = "foldl settings_byte ?w2 ?bs"
  have kv: "settings_kept p ?w2 ?n ?v" using settings_kept_run [OF k, of ?bs] bs assms(8) by simp
  have "foldl settings_last ?w2 ?bs = frame_over ?v"
  proof -
    have ne: "?bs \<noteq> []" using bs(1) assms(6) by fastforce
    then have sp: "?bs = take (?n - 1) ?bs @ [last ?bs]" using bs(1) by (metis append_butlast_last_id butlast_conv_take)
    define u where "u = foldl settings_byte ?w2 (take (?n - 1) ?bs)"
    have v: "?v = settings_byte u (last ?bs)"
      unfolding u_def by (subst sp) (simp only: foldl_append foldl.simps)
    have "foldl settings_last ?w2 ?bs = settings_last u (last ?bs)"
      using part [of "?n - 1"] assms(6) unfolding u_def by (subst sp) (simp only: foldl_append foldl.simps, simp)
    also have "\<dots> = (if h2_count ?v = h2_length ?v then frame_over ?v else ?v)"
      unfolding settings_last_def Let_def v ..
    finally show ?thesis using kv ln by (simp add: settings_kept_def)
  qed
  moreover have "peer_settings ?w2 = peer_settings w" by (simp add: header_seen_def)
  ultimately show ?thesis
    using hd run kv c2 by (simp add: run_bytes_append frame_over_def settings_kept_def)
qed

theorem http2_settings_not_taken_witness:
  "\<exists>c' w'. run_bytes (lws_http2_parser no_h2_env 0) (h2_start WSI_STATE_HTTP2_ESTABLISHED)
      (http2_frame_header 4 0 0 6 @ setting_bytes 4 10) = Inr c' \<and>
    conn_at c' 0 = Some w' \<and> peer_settings w' ! 4 = 65535"
proof -
  have "lws_http2_init ! 4 = 65535" by (simp add: lws_http2_init_def lws_http2_default_settings_def)
  then show ?thesis
    using http2_settings_not_taken [OF h2_start_conn, of WSI_STATE_HTTP2_ESTABLISHED "[(4, 10)]" 0 no_h2_env]
    by (auto simp: h2_open_def)
qed

section \<open>Sending the settings\<close>

lemma my_settings_payload_length: "length (my_settings_payload w) \<le> 36"
proof -
  let ?ns = "filter (\<lambda>n. my_settings w ! n \<noteq> lws_http2_default_settings ! n) [1..<7]"
  have "length (concat (map (lws_http2_settings_write w) ns)) = 6 * length ns" for ns
    by (induction ns) (simp_all add: lws_http2_settings_write_def be32_def)
  moreover have "length ?ns \<le> 6" using length_filter_le [of _ "[1..<7]"] by simp
  ultimately show ?thesis by (simp add: my_settings_payload_def)
qed

text \<open>
  C35. The settings of a connection reach its peer: the frame that is due after the preface puts on the
  stream a SETTINGS header and the settings that differ from the default ones, and reading that
  payload from the defaults gives back all settings of the connection. The caller is told 0 then; it
  is told 1 only when sending that very frame failed: the socket refused it with an error that is not
  a matter of time, or memory for what it did not take could not be had.
\<close>

theorem http2_settings_sent:
  assumes "conn_at c p = Some w" "parent_wsi w = None" "pps w = LWS_PPS_HTTP2_MY_SETTINGS"
    "tx_idle (he_tx env) (h2_tx c)" "\<not> clean_buffer (h2_tx c)" "length stack = 60"
    "length (my_settings w) = 7" "my_settings w ! 0 = 0"
  shows "let due = filter (\<lambda>n. my_settings w ! n \<noteq> lws_http2_default_settings ! n) [1..<7];
      pl = concat (map (\<lambda>n. setting_bytes n (my_settings w ! n)) due);
      frame = http2_frame_header 4 0 0 (length pl) @ pl
    in lws_http2_interpret_settings_payload lws_http2_init pl = (0, my_settings w) \<and>
       (\<exists>t. lws_http2_do_pps_send env stack c p = Inr (0, c\<lparr>h2_tx := t\<rparr>) \<and> stream t = stream (h2_tx c) @ frame \<or>
          lws_http2_do_pps_send env stack c p = Inr (1, c\<lparr>h2_tx := t\<rparr>) \<and>
            gives_up (he_tx env) (tx_clock (h2_tx c)) frame)"
proof -
  let ?pl = "my_settings_payload w"
  let ?b = "pps_buf stack ?pl"
  have l: "length ?pl \<le> 36" by (rule my_settings_payload_length)
  have b: "tb_off ?b = 18" "tb_len ?b = length ?pl" "length (tb_mem ?b) = 60" "tb_bytes ?b = ?pl"
    using assms(6) l by (simp_all add: pps_buf_def tb_bytes_def)
  have bk: "lws_http2_interpret_settings_payload lws_http2_init ?pl = (0, my_settings w)"
    using settings_payload_back assms(7,8) by (simp add: lws_http2_init_def)
  have dps: "lws_http2_do_pps_send env stack c p =
      (case lws_http2_frame_write env c p 4 0 0 ?b of
         Inl e \<Rightarrow> Inl e
       | Inr (n, c1) \<Rightarrow> Inr (if n \<noteq> int (length ?pl) then 1 else 0, c1))"
    using assms(1,3) by (simp add: lws_http2_do_pps_send_def)
  have pl: "concat (map (\<lambda>n. setting_bytes n (my_settings w ! n))
      (filter (\<lambda>n. my_settings w ! n \<noteq> lws_http2_default_settings ! n) [1..<7])) = ?pl"
    by (simp add: my_settings_payload_def settings_write_eq)
  show ?thesis
    unfolding Let_def pl
  proof (cases rule: frame_write_sends [OF network_self [OF assms(1,2)] assms(4), of ?b 4 0 0, case_names bounds1 bounds2 bounds3 buf sent failed])
    case (sent t)
    then show "lws_http2_interpret_settings_payload lws_http2_init ?pl = (0, my_settings w) \<and>
       (\<exists>t. lws_http2_do_pps_send env stack c p = Inr (0, c\<lparr>h2_tx := t\<rparr>) \<and>
              stream t = stream (h2_tx c) @ http2_frame_header 4 0 0 (length ?pl) @ ?pl \<or>
          lws_http2_do_pps_send env stack c p = Inr (1, c\<lparr>h2_tx := t\<rparr>) \<and>
            gives_up (he_tx env) (tx_clock (h2_tx c)) (http2_frame_header 4 0 0 (length ?pl) @ ?pl))"
      using bk b dps by (intro conjI exI [of _ t]) simp_all
  next
    case (failed t)
    then show "lws_http2_interpret_settings_payload lws_http2_init ?pl = (0, my_settings w) \<and>
       (\<exists>t. lws_http2_do_pps_send env stack c p = Inr (0, c\<lparr>h2_tx := t\<rparr>) \<and>
              stream t = stream (h2_tx c) @ http2_frame_header 4 0 0 (length ?pl) @ ?pl \<or>
          lws_http2_do_pps_send env stack c p = Inr (1, c\<lparr>h2_tx := t\<rparr>) \<and>
            gives_up (he_tx env) (tx_clock (h2_tx c)) (http2_frame_header 4 0 0 (length ?pl) @ ?pl))"
      using bk b dps by (intro conjI exI [of _ t]) simp_all
  qed (use b l assms(5) in simp_all)
qed

theorem http2_settings_sent_witness:
  "\<exists>c'. lws_http2_do_pps_send no_h2_env (replicate 60 0)
      (upd_conn 0 (\<lambda>w. w\<lparr>pps := LWS_PPS_HTTP2_MY_SETTINGS, my_settings := [0, 4096, 0, 100, 65535, 16384, - 1]\<rparr>)
        (h2_start WSI_STATE_HTTP2_ESTABLISHED_PRE_SETTINGS)) 0 = Inr (0, c') \<and>
    stream (h2_tx c') = [0, 0, 6, 4, 0, 0, 0, 0, 0, 0, 2, 0, 0, 0, 0]"
proof -
  let ?c = "upd_conn 0 (\<lambda>w. w\<lparr>pps := LWS_PPS_HTTP2_MY_SETTINGS, my_settings := [0, 4096, 0, 100, 65535, 16384, - 1]\<rparr>)
        (h2_start WSI_STATE_HTTP2_ESTABLISHED_PRE_SETTINGS)"
  have c: "conn_at ?c 0 = Some ((h2_new_conn WSI_STATE_HTTP2_ESTABLISHED_PRE_SETTINGS)\<lparr>pps := LWS_PPS_HTTP2_MY_SETTINGS,
      my_settings := [0, 4096, 0, 100, 65535, 16384, - 1]\<rparr>)" by (simp add: h2_start_conn)
  have due: "filter (\<lambda>n. [0, 4096, 0, 100, 65535, 16384, - 1] ! n \<noteq> lws_http2_default_settings ! n) [1..<7] = [2]"
    by (simp add: lws_http2_default_settings_def upt_conv_Cons)
  have f: "http2_frame_header 4 0 0 6 @ setting_bytes 2 0 = [0, 0, 6, 4, 0, 0, 0, 0, 0, 0, 2, 0, 0, 0, 0]"
    "length (setting_bytes 2 0) = 6"
    by (simp_all add: http2_frame_header_def setting_bytes_def be32_def)
  have "tx_idle all_env (new_tx LWS_CONNMODE_HTTP2_SERVING)" by (rule tx_instances(1))
  then have "\<exists>t. lws_http2_do_pps_send no_h2_env (replicate 60 0) ?c 0 = Inr (0, ?c\<lparr>h2_tx := t\<rparr>) \<and>
      stream t = stream (h2_tx ?c) @ http2_frame_header 4 0 0 6 @ setting_bytes 2 0"
    using http2_settings_sent [OF c, of no_h2_env "replicate 60 0"] due f(2)
    by (auto simp: h2_start_def no_h2_env_def new_tx_def all_env_takes Let_def)
  moreover have "stream (h2_tx ?c) = []"
    by (simp add: h2_start_def new_tx_def stream_def pending_def truncated_buf_def tb_bytes_def)
  ultimately show ?thesis using f(1) by fastforce
qed

section \<open>The list of streams\<close>

fun chain :: "h2_ctx \<Rightarrow> nat \<Rightarrow> nat list \<Rightarrow> bool" where
  "chain c p [] = (case conn_at c p of None \<Rightarrow> False | Some w \<Rightarrow> next_child_wsi w = None)"
| "chain c p (q # qs) = (case conn_at c p of None \<Rightarrow> False | Some w \<Rightarrow> next_child_wsi w = Some q \<and> chain c q qs)"

definition stream_id_of :: "h2_ctx \<Rightarrow> nat \<Rightarrow> u32" where
  "stream_id_of c p = (case conn_at c p of None \<Rightarrow> 0 | Some w \<Rightarrow> my_stream_id w)"

text \<open>\<open>ps\<close> are the streams of the network connection \<open>m\<close>, the latest one first.\<close>

definition streams_of :: "h2_ctx \<Rightarrow> nat \<Rightarrow> nat list \<Rightarrow> bool" where
  "streams_of c m ps \<longleftrightarrow>
     chain c m ps \<and> distinct (m # ps) \<and>
     (case conn_at c m of None \<Rightarrow> False | Some w \<Rightarrow> parent_wsi w = None \<and> child_count w = of_nat (length ps)) \<and>
     (\<forall>q\<in>set ps. case conn_at c q of None \<Rightarrow> False | Some w \<Rightarrow> parent_wsi w = Some m)"

lemma chain_conns: "chain c p ps \<Longrightarrow> q \<in> set (p # ps) \<Longrightarrow> \<exists>w. conn_at c q = Some w"
  by (induction ps arbitrary: p) (auto split: option.splits)

lemma chain_short:
  assumes "chain c p ps" "distinct (p # ps)"
  shows "length ps < length (h2_conns c)"
proof -
  have "set (p # ps) \<subseteq> {..<length (h2_conns c)}"
    using chain_conns [OF assms(1)] conn_bound by fastforce
  then have "card (set (p # ps)) \<le> length (h2_conns c)" using card_mono [of "{..<length (h2_conns c)}"] by fastforce
  then show ?thesis using distinct_card [OF assms(2)] by simp
qed

lemma chain_cong:
  assumes "map_option next_child_wsi (conn_at c' p') = map_option next_child_wsi (conn_at c p)"
    "\<forall>q\<in>set ps. map_option next_child_wsi (conn_at c' q) = map_option next_child_wsi (conn_at c q)"
  shows "chain c' p' ps = chain c p ps"
  using assms by (induction ps arbitrary: p p') (auto split: option.splits)

lemma from_id_chain:
  "chain c p ps \<Longrightarrow> length ps < k \<Longrightarrow>
   from_id_walk k c p sid = Inr (find (\<lambda>q. stream_id_of c q = sid) (p # ps))"
proof (induction ps arbitrary: k p)
  case Nil
  then show ?case by (cases k) (auto simp: stream_id_of_def split: option.splits)
next
  case (Cons q qs)
  then show ?case by (cases k) (auto simp: stream_id_of_def split: option.splits)
qed

lemma nth_child_chain:
  "chain c p ps \<Longrightarrow> lws_http2_get_nth_child c p n = Inr (if n < length ps then Some (ps ! n) else None)"
proof (induction ps arbitrary: p n)
  case Nil
  then show ?case by (auto simp: lws_http2_get_nth_child.simps [of c p] split: option.splits)
next
  case (Cons q qs)
  then show ?case by (cases n) (auto simp: lws_http2_get_nth_child.simps [of c p] split: option.splits)
qed

lemma streams_create:
  assumes "streams_of c m ps" "he_malloc env" "he_ah env = Some a" "conn_at c m = Some mw"
    "of_nat (length ps) + 1 \<noteq> peer_settings mw ! 3"
  shows "\<exists>c'. lws_create_server_child_wsi env c m sid = Inr (Some (length (h2_conns c)), c') \<and>
    streams_of c' m (length (h2_conns c) # ps) \<and> stream_id_of c' (length (h2_conns c)) = sid"
proof -
  let ?p = "length (h2_conns c)"
  let ?c1 = "log_h2 (Ev_wsi_create ?p) (c\<lparr>h2_conns := h2_conns c @ [Some (new_h2_wsi a)]\<rparr>)"
  let ?c' = "upd_conn m (\<lambda>w. w\<lparr>next_child_wsi := Some ?p, child_count := child_count w + 1\<rparr>)
               (upd_conn ?p (child_setup m mw sid) ?c1)"
  have s: "chain c m ps" "distinct (m # ps)" "parent_wsi mw = None" "child_count mw = of_nat (length ps)"
    "\<forall>q\<in>set ps. \<exists>w. conn_at c q = Some w \<and> parent_wsi w = Some m"
    using assms(1,4) by (auto simp: streams_of_def split: option.splits)
  have old: "conn_at ?c1 q = conn_at c q" if "conn_at c q = Some w" for q w
    using conn_bound [OF that] by (simp add: conn_at_def nth_append)
  have new: "conn_at ?c1 ?p = Some (new_h2_wsi a)" by (simp add: conn_at_def)
  have m: "conn_at ?c1 m = Some mw" "m \<noteq> ?p" using old [OF assms(4)] assms(4) conn_bound [OF assms(4)] by simp_all
  have ps: "\<forall>q\<in>set ps. q \<noteq> ?p \<and> q \<noteq> m \<and> conn_at ?c1 q = conn_at c q"
  proof
    fix q assume q: "q \<in> set ps"
    then obtain w where w: "conn_at c q = Some w" using s(5) by blast
    then show "q \<noteq> ?p \<and> q \<noteq> m \<and> conn_at ?c1 q = conn_at c q"
      using old [OF w] conn_bound [OF w] q s(2) by auto
  qed
  define c' where "c' = ?c'"
  have run: "lws_create_server_child_wsi env c m sid = Inr (Some ?p, c')"
    using assms(2,3,5) m s(4) by (simp add: lws_create_server_child_wsi_def create_new_h2_wsi_def Let_def c'_def)
  have cm: "conn_at c' m = Some (mw\<lparr>next_child_wsi := Some ?p, child_count := child_count mw + 1\<rparr>)"
    using m by (simp add: c'_def)
  have cp: "conn_at c' ?p = Some (child_setup m mw sid (new_h2_wsi a))" using new m(2) by (simp add: c'_def)
  have cq: "\<forall>q\<in>set ps. conn_at c' q = conn_at c q" using ps by (simp add: c'_def)
  have ch: "chain c' ?p ps"
    using s(1) cq cp assms(4) by (subst chain_cong [of _ _ c m]) (simp_all add: child_setup_def)
  have "parent_wsi (child_setup m mw sid (new_h2_wsi a)) = Some m"
    "my_stream_id (child_setup m mw sid (new_h2_wsi a)) = sid" by (simp_all add: child_setup_def)
  moreover have "\<forall>q\<in>set ps. case conn_at c' q of None \<Rightarrow> False | Some w \<Rightarrow> parent_wsi w = Some m"
    using cq s(5) by fastforce
  moreover have "distinct (m # ?p # ps)" using s(2) m(2) ps by auto
  ultimately have "streams_of c' m (?p # ps) \<and> stream_id_of c' ?p = sid"
    using s(3,4) ch unfolding streams_of_def stream_id_of_def by (simp add: cm cp)
  with run show ?thesis by blast
qed

lemma remove_chain:
  assumes "chain c p (as @ q # bs)" "distinct (p # as @ q # bs)" "length as < k"
    "conn_at c q = Some qw" "parent_wsi qw = Some m" "conn_at c m = Some mw"
  shows "remove_walk k c q p = Inr (0, upd_conn m (\<lambda>x. x\<lparr>child_count := child_count x - 1\<rparr>)
      (upd_conn (last (p # as)) (\<lambda>x. x\<lparr>next_child_wsi := next_child_wsi qw\<rparr>) c))"
  using assms(1-3)
proof (induction as arbitrary: p k)
  case Nil
  obtain k' where k: "k = Suc k'" using Nil.prems(3) by (cases k) simp_all
  obtain pw where pw: "conn_at c p = Some pw" "next_child_wsi pw = Some q" using Nil.prems(1) by (auto split: option.splits)
  have "\<exists>x. conn_at (upd_conn p (\<lambda>x. x\<lparr>next_child_wsi := next_child_wsi qw\<rparr>) c) m = Some x"
    using assms(6) pw(1) by (cases "m = p") simp_all
  then show ?case using k pw assms(4,5) by (auto simp: Let_def)
next
  case (Cons r rs)
  obtain k' where k: "k = Suc k'" using Cons.prems(3) by (cases k) simp_all
  obtain pw where pw: "conn_at c p = Some pw" "next_child_wsi pw = Some r" "chain c r (rs @ q # bs)"
    using Cons.prems(1) by (auto split: option.splits)
  have "r \<noteq> q" using Cons.prems(2) by auto
  then show ?case using k pw Cons.IH [of r k'] Cons.prems by simp
qed

lemma chain_remove:
  assumes "chain c p (as @ q # bs)" "distinct (p # as @ q # bs)" "conn_at c q = Some qw"
  shows "chain (upd_conn (last (p # as)) (\<lambda>x. x\<lparr>next_child_wsi := next_child_wsi qw\<rparr>) c) p (as @ bs)"
  using assms(1,2)
proof (induction as arbitrary: p)
  case Nil
  let ?c = "upd_conn p (\<lambda>x. x\<lparr>next_child_wsi := next_child_wsi qw\<rparr>) c"
  obtain pw where pw: "conn_at c p = Some pw" "chain c q bs" using Nil.prems(1) by (auto split: option.splits)
  have "chain ?c p bs = chain c q bs"
    using Nil.prems(2) pw(1) assms(3) by (intro chain_cong) (auto intro!: arg_cong [of _ _ "map_option next_child_wsi"] conn_upd(2))
  then show ?case using pw by simp
next
  case (Cons r rs)
  obtain pw where pw: "conn_at c p = Some pw" "next_child_wsi pw = Some r" "chain c r (rs @ q # bs)"
    using Cons.prems(1) by (auto split: option.splits)
  have "p \<noteq> last (r # rs)" using Cons.prems(2) by (metis distinct.simps(2) in_set_conv_decomp append_Cons append_butlast_last_id list.distinct(1) set_append UnI1 Un_iff set_ConsD last_in_set)
  then show ?case using pw Cons.IH [of r] Cons.prems(2) by simp
qed

lemma streams_remove:
  assumes "streams_of c m ps" "q \<in> set ps"
  shows "\<exists>c'. lws_remove_server_child_wsi c q = Inr (0, c') \<and> streams_of c' m (remove1 q ps)"
proof -
  obtain as bs where ps: "ps = as @ q # bs" "q \<notin> set as" using split_list_first [OF assms(2)] by blast
  have s: "chain c m (as @ q # bs)" "distinct (m # as @ q # bs)"
    using assms(1) ps(1) unfolding streams_of_def by simp_all
  obtain mw where mw: "conn_at c m = Some mw" "parent_wsi mw = None" "child_count mw = of_nat (length ps)"
    using assms(1) by (auto simp: streams_of_def split: option.splits)
  have par: "\<forall>r\<in>set ps. \<exists>w. conn_at c r = Some w \<and> parent_wsi w = Some m"
    using assms(1) by (auto simp: streams_of_def split: option.splits)
  then obtain qw where qw: "conn_at c q = Some qw" "parent_wsi qw = Some m" using assms(2) by blast
  let ?c1 = "upd_conn (last (m # as)) (\<lambda>x. x\<lparr>next_child_wsi := next_child_wsi qw\<rparr>) c"
  define c' where "c' = upd_conn m (\<lambda>x. x\<lparr>child_count := child_count x - 1\<rparr>) ?c1"
  have "length as < length (h2_conns c)" using chain_short [OF s] by simp
  from remove_chain [OF s this qw mw(1)]
  have "lws_remove_server_child_wsi c q = Inr (0, c')"
    using qw s(2) by (simp add: lws_remove_server_child_wsi_def c'_def)
  moreover have keep: "conn_at c r = Some w \<Longrightarrow> \<exists>x. conn_at c' r = Some x \<and> parent_wsi x = parent_wsi w \<and>
      child_count x = (if r = m then child_count w - 1 else child_count w)" for r w
    unfolding c'_def by (cases "r = m"; cases "r = last (m # as)"; cases "m = last (m # as)") simp_all
  have "chain c' m (as @ bs)"
  proof -
    have nx: "map_option next_child_wsi (conn_at c' r) = map_option next_child_wsi (conn_at ?c1 r)" for r
      unfolding c'_def by (cases "r = m") (simp_all add: option.map_comp comp_def)
    show ?thesis using chain_remove [OF s qw(1)] chain_cong [of c' m ?c1 m "as @ bs"] nx by blast
  qed
  moreover have "distinct (m # as @ bs)" using s(2) by simp
  moreover have "\<forall>r\<in>set (as @ bs). case conn_at c' r of None \<Rightarrow> False | Some w \<Rightarrow> parent_wsi w = Some m"
  proof
    fix r assume "r \<in> set (as @ bs)"
    then obtain w where "conn_at c r = Some w" "parent_wsi w = Some m" using par ps(1) by auto
    then show "case conn_at c' r of None \<Rightarrow> False | Some w \<Rightarrow> parent_wsi w = Some m" using keep by fastforce
  qed
  moreover obtain x where "conn_at c' m = Some x" "parent_wsi x = None" "child_count x = of_nat (length (as @ bs))"
    using keep [OF mw(1)] mw ps(1) by auto
  moreover have "remove1 q ps = as @ bs" using ps by (simp add: remove1_append)
  ultimately show ?thesis unfolding streams_of_def by (intro exI [of _ c']) simp
qed

lemma streams_full:
  assumes "streams_of c m ps" "he_malloc env" "he_ah env = Some a" "conn_at c m = Some mw"
    "of_nat (length ps) + 1 = peer_settings mw ! 3"
  shows "\<exists>c'. lws_create_server_child_wsi env c m sid = Inr (None, c') \<and> streams_of c' m ps \<and>
    length (h2_conns c') = length (h2_conns c) + 1"
proof -
  let ?p = "length (h2_conns c)"
  let ?c1 = "log_h2 (Ev_wsi_create ?p) (c\<lparr>h2_conns := h2_conns c @ [Some (new_h2_wsi a)]\<rparr>)"
  have old: "conn_at ?c1 q = conn_at c q" if "conn_at c q = Some w" for q w
    using conn_bound [OF that] by (simp add: conn_at_def nth_append)
  have s: "chain c m ps" "distinct (m # ps)" "parent_wsi mw = None" "child_count mw = of_nat (length ps)"
    "\<forall>q\<in>set ps. \<exists>w. conn_at c q = Some w \<and> parent_wsi w = Some m"
    using assms(1,4) by (auto simp: streams_of_def split: option.splits)
  have "lws_create_server_child_wsi env c m sid = Inr (None, ?c1)"
    using assms(2,3,5) old [OF assms(4)] assms(4) s(4)
    by (simp add: lws_create_server_child_wsi_def create_new_h2_wsi_def Let_def)
  moreover have same: "\<forall>q\<in>set (m # ps). conn_at ?c1 q = conn_at c q" using s(5) assms(4) old by fastforce
  moreover have "chain ?c1 m ps = chain c m ps" using same by (intro chain_cong) simp_all
  ultimately show ?thesis using assms(1) by (intro exI [of _ ?c1]) (simp add: streams_of_def)
qed

text \<open>
  C36. The streams of a connection are a list: a new stream is put in front (or, at the limit, given up
  with its memory still allocated), a removed one leaves the others in order, the count is the
  length, the n-th child is the n-th element and a stream is found by its identifier.
\<close>

theorem http2_streams_refine_list:
  assumes "streams_of c m ps" "conn_at c m = Some mw" "he_malloc env" "he_ah env = Some a"
  shows "lws_http2_wsi_from_id c m sid = Inr (find (\<lambda>q. stream_id_of c q = sid) (m # ps)) \<and>
    lws_http2_get_nth_child c m n = Inr (if n < length ps then Some (ps ! n) else None) \<and>
    (\<forall>q\<in>set ps. lws_http2_get_network_wsi c q = Inr m \<and>
       (\<exists>c'. lws_remove_server_child_wsi c q = Inr (0, c') \<and> streams_of c' m (remove1 q ps))) \<and>
    (if of_nat (length ps) + 1 = peer_settings mw ! 3
     then \<exists>c'. lws_create_server_child_wsi env c m sid = Inr (None, c') \<and> streams_of c' m ps \<and>
            length (h2_conns c') = length (h2_conns c) + 1
     else \<exists>q c'. lws_create_server_child_wsi env c m sid = Inr (Some q, c') \<and> q \<notin> set (m # ps) \<and>
            streams_of c' m (q # ps) \<and> stream_id_of c' q = sid)"
proof -
  have ch: "chain c m ps" "distinct (m # ps)" using assms(1) by (simp_all add: streams_of_def)
  have short: "length ps < length (h2_conns c)" by (rule chain_short [OF ch])
  have id: "lws_http2_wsi_from_id c m sid = Inr (find (\<lambda>q. stream_id_of c q = sid) (m # ps))"
    unfolding lws_http2_wsi_from_id_def by (rule from_id_chain [OF ch(1) short])
  have net: "lws_http2_get_network_wsi c q = Inr m" if "q \<in> set ps" for q
  proof -
    obtain w where w: "conn_at c q = Some w" "parent_wsi w = Some m"
      using assms(1) \<open>q \<in> set ps\<close> by (auto simp: streams_of_def split: option.splits)
    have "parent_wsi mw = None" using assms(1,2) by (simp add: streams_of_def)
    moreover obtain k where "length (h2_conns c) = Suc (Suc k)"
    proof -
      have "0 < length ps" using \<open>q \<in> set ps\<close> by auto
      then have "2 \<le> length (h2_conns c)" using short by linarith
      then show ?thesis using that [of "length (h2_conns c) - 2"] by simp
    qed
    ultimately show ?thesis using w assms(2) by (simp add: lws_http2_get_network_wsi_def)
  qed
  have "length (h2_conns c) \<notin> set (m # ps)"
    using chain_conns [OF ch(1)] conn_bound by fastforce
  then show ?thesis
    using id nth_child_chain [OF ch(1)] net streams_remove [OF assms(1)]
      streams_create [OF assms(1,3,4,2)] streams_full [OF assms(1,3,4,2)] by fastforce
qed

theorem http2_streams_refine_list_witness:
  "\<exists>q c' c''. lws_create_server_child_wsi no_h2_env (h2_start WSI_STATE_HTTP2_ESTABLISHED) 0 1 = Inr (Some q, c') \<and>
     lws_http2_get_nth_child c' 0 0 = Inr (Some q) \<and> lws_remove_server_child_wsi c' q = Inr (0, c'') \<and>
     streams_of c'' 0 []"
proof -
  let ?c = "h2_start WSI_STATE_HTTP2_ESTABLISHED"
  have s: "streams_of ?c 0 []" by (simp add: streams_of_def h2_start_conn)
  have e: "he_malloc no_h2_env" "he_ah no_h2_env = Some (hdr_ah zero_hdr)" by (simp_all add: no_h2_env_def)
  have l: "lws_http2_init ! 3 = 100" by (simp add: lws_http2_init_def lws_http2_default_settings_def)
  obtain q c' where c': "lws_create_server_child_wsi no_h2_env ?c 0 1 = Inr (Some q, c')" "q \<noteq> 0"
      "streams_of c' 0 [q]" "stream_id_of c' q = 1"
    using http2_streams_refine_list [OF s h2_start_conn e, of 1 0] l by auto
  then obtain mw where mw: "conn_at c' 0 = Some mw" by (auto simp: streams_of_def split: option.splits)
  from http2_streams_refine_list [OF c'(3) mw e, of 1 0]
  have "lws_http2_get_nth_child c' 0 0 = Inr (Some q)"
    "\<exists>c''. lws_remove_server_child_wsi c' q = Inr (0, c'') \<and> streams_of c'' 0 []" by simp_all
  with c'(1) show ?thesis by blast
qed

end
