(* ===== verification/Http2_Service.thy ===== *)
theory Http2_Service
  imports Http2 Base64
begin

text \<open>
  HTTP/2 outside \<^verbatim>\<open>http2.c\<close>: the upgrade from HTTP/1.1 in \<open>lws_handshake_server\<close> (\<^verbatim>\<open>server.c\<close>), the branch
  of \<open>libwebsocket_write\<close> that makes frames (\<^verbatim>\<open>output.c\<close>), and the parts of \<open>lws_handle_POLLOUT_event\<close>
  (\<^verbatim>\<open>service.c\<close>) that send the frames that are due and share the socket among the streams.
\<close>

section \<open>The upgrade\<close>

abbreviation (input) WSI_TOKEN_HTTP2_SETTINGS :: nat where "WSI_TOKEN_HTTP2_SETTINGS \<equiv> 16"

text \<open>
  \<open>H2c_bail\<close> is the jump to \<open>bail_nuke_ah\<close>, \<open>H2c_fail\<close> the other \<open>return 1\<close> and \<open>H2c_switched\<close> the
  \<open>return 0\<close>, with the connection and the raw sends.
\<close>

datatype h2c_result = H2c_bail | H2c_fail tx_wsi | H2c_switched http2_wsi tx_wsi

definition switch_response :: "byte list" where
  "switch_response =
     bytes ''HTTP/1.1 101 Switching Protocols'' @ [0x0d, 0x0a] @ bytes ''Connection: Upgrade'' @ [0x0d, 0x0a] @
     bytes ''Upgrade: h2c'' @ [0x0d, 0x0a, 0x0d, 0x0a]"

text \<open>
  The union is cleared, but for the headers, which stay at its start; \<open>w\<close> is the connection before.
\<close>

definition h2c_union :: "http2_wsi \<Rightarrow> http2_wsi" where
  "h2c_union w =
     (let n = new_h2_wsi (hdr_ah (hp_hdr w))
      in n\<lparr>hp_hdr := (hp_hdr n)\<lparr>hdr_ah := hdr_ah (hp_hdr w), ietf_spec_revision := ietf_spec_revision (hp_hdr w),
                                hdr_parsing_completed := hdr_parsing_completed (hp_hdr w)\<rparr>,
           pps := pps w, h2_state := h2_state w, h2_mode := LWS_CONNMODE_HTTP2_SERVING\<rparr>)"

text \<open>\<open>quad\<close> is what the local array of the Base 64 decoder holds before.\<close>

definition upgrade_h2c :: "tx_env \<Rightarrow> byte list \<Rightarrow> http2_wsi \<Rightarrow> tx_wsi \<Rightarrow> h2_error + h2c_result" where
  "upgrade_h2c env quad w t =
     (let a = hdr_ah (hp_hdr w)
      in case lws_hdr_total_length a WSI_TOKEN_HTTP2_SETTINGS of
           None \<Rightarrow> Inl H2_undefined
         | Some k \<Rightarrow>
             if k = 0 then Inr H2c_bail
             else case lws_hdr_simple_ptr a WSI_TOKEN_HTTP2_SETTINGS of
                    None \<Rightarrow> Inl H2_undefined
                  | Some off \<Rightarrow>
                      (case c_string (ah_data a) off of
                         None \<Rightarrow> Inl H2_undefined
                       | Some s \<Rightarrow>
                           (case lws_b64_decode_string quad s 128 of
                              (n, out) \<Rightarrow>
                                if n < 0 then Inr (H2c_fail t)
                                else
                                  let w1 = (h2c_union w)\<lparr>my_settings := lws_http2_init,
                                             peer_settings := snd (lws_http2_interpret_settings_payload
                                                                     lws_http2_init (take (nat n) out))\<rparr>
                                  in case lws_issue_raw env t
                                            \<lparr>tb_id = 2, tb_mem = switch_response @ [0], tb_off = 0,
                                             tb_len = length switch_response\<rparr> of
                                       Inl _ \<Rightarrow> Inl H2_undefined
                                     | Inr (m, t1) \<Rightarrow>
                                         Inr (if m \<noteq> int (length switch_response) then H2c_fail t1
                                              else H2c_switched (w1\<lparr>h2_state := WSI_STATE_HTTP2_AWAIT_CLIENT_PREFACE\<rparr>)
                                                     t1))))"

section \<open>Writing\<close>

abbreviation (input) LWS_HTTP2_FLAGS_NONE :: byte where "LWS_HTTP2_FLAGS_NONE \<equiv> 0"

text \<open>
  \<open>libwebsocket_write\<close> on a stream, for the protocols that go straight to \<open>send_raw\<close>; \<open>content_length\<close>
  and \<open>content_remain\<close> are \<^verbatim>\<open>unsigned long\<close>.
\<close>

definition count_content :: "byte \<Rightarrow> nat \<Rightarrow> http2_wsi \<Rightarrow> http2_wsi \<times> byte" where
  "count_content protocol len w =
     (if (protocol = LWS_WRITE_HTTP \<or> protocol = LWS_WRITE_HTTP_FINAL) \<and> h2_content_length w \<noteq> 0
      then let r = h2_content_remain w - of_nat len
           in (w\<lparr>h2_content_remain := r\<rparr>, if r = 0 then LWS_WRITE_HTTP_FINAL else protocol)
      else (w, protocol))"

definition write_frame_kind :: "byte \<Rightarrow> http2_wsi \<Rightarrow> byte \<times> byte" where
  "write_frame_kind protocol w =
     (if protocol = LWS_WRITE_HTTP_HEADERS
      then (LWS_HTTP2_FRAME_TYPE_HEADERS,
            if send_END_STREAM w then LWS_HTTP2_FLAG_END_HEADERS OR LWS_HTTP2_FLAG_END_STREAM
            else LWS_HTTP2_FLAG_END_HEADERS)
      else (LWS_HTTP2_FRAME_TYPE_DATA, LWS_HTTP2_FLAGS_NONE))"

definition http2_write :: "h2_env \<Rightarrow> h2_ctx \<Rightarrow> nat \<Rightarrow> tx_buf \<Rightarrow> byte \<Rightarrow> h2_error + int \<times> h2_ctx" where
  "http2_write env c p b protocol =
     (if tb_len b = 0 then Inr (0, c)
      else case conn_at c p of
             None \<Rightarrow> Inl H2_undefined
           | Some w \<Rightarrow>
               (case (write_frame_kind protocol w, count_content protocol (tb_len b) w) of
                  ((ty, flags), (w1, protocol1)) \<Rightarrow>
                    lws_http2_frame_write env (upd_conn p (\<lambda>_. w1) c) p ty
                      (if protocol1 = LWS_WRITE_HTTP_FINAL \<and> END_STREAM w1
                       then flags OR LWS_HTTP2_FLAG_END_STREAM else flags)
                      (my_stream_id w1) b))"

section \<open>The socket is writable\<close>

text \<open>Frames that are due come first; what sending them returns is ignored.\<close>

definition service_pps :: "h2_env \<Rightarrow> byte list \<Rightarrow> h2_ctx \<Rightarrow> nat \<Rightarrow> (h2_error + h2_ctx) option" where
  "service_pps env stack c p =
     (case conn_at c p of
        None \<Rightarrow> Some (Inl H2_undefined)
      | Some w \<Rightarrow>
          if pps w = LWS_PPS_NONE then None
          else Some (case lws_http2_do_pps_send env stack c p of
                       Inl e \<Rightarrow> Inl e
                     | Inr (_, c1) \<Rightarrow>
                         Inr (log_h2 (Ev_rx_flow p True) (upd_conn p (\<lambda>w. w\<lparr>pps := LWS_PPS_NONE\<rparr>) c1))))"

text \<open>
  The loop over the streams of the connection \<open>m\<close>; \<open>q\<close> is \<^verbatim>\<open>wsi2\<close>. The callback of the user works on the
  context; when it fails the stream is closed, of which only that its memory is gone matters here.
  The stream stays in the list: \<open>lws_remove_server_child_wsi\<close> has no caller. The loop ends when the
  list has been walked without finding a stream that asked, or when the pipe is choked.
\<close>

definition free_conn :: "nat \<Rightarrow> h2_ctx \<Rightarrow> h2_ctx" where
  "free_conn p c = log_h2 (Ev_free p) (c\<lparr>h2_conns := (h2_conns c)[p := None]\<rparr>)"

definition notify_child :: "(nat \<Rightarrow> h2_ctx \<Rightarrow> int \<times> h2_ctx) \<Rightarrow> nat \<Rightarrow> h2_ctx \<Rightarrow> h2_ctx" where
  "notify_child cb r c =
     (case cb r (log_h2 (Ev_writeable r) (upd_conn r (\<lambda>w. w\<lparr>requested_POLLOUT := False\<rparr>) c)) of
        (n, c1) \<Rightarrow> if n \<noteq> 0 then free_conn r c1 else c1)"

partial_function (option) children_loop ::
    "h2_env \<Rightarrow> (nat \<Rightarrow> h2_ctx \<Rightarrow> int \<times> h2_ctx) \<Rightarrow> nat \<Rightarrow> h2_ctx \<Rightarrow> nat \<Rightarrow> (h2_error + h2_ctx) option" where
  "children_loop env cb m c q =
     (case conn_at c q of
        None \<Rightarrow> Some (Inl H2_undefined)
      | Some qw \<Rightarrow>
          (case next_child_wsi qw of
             None \<Rightarrow> Some (Inr c)
           | Some r \<Rightarrow>
               (case conn_at c r of
                  None \<Rightarrow> Some (Inl H2_undefined)
                | Some rw \<Rightarrow>
                    let c1 = (if requested_POLLOUT rw then notify_child cb r c else c);
                        (choked, t) = lws_send_pipe_choked (he_tx env) (h2_tx c1);
                        c2 = c1\<lparr>h2_tx := t\<rparr>
                    in if choked then Some (Inr c2)
                       else children_loop env cb m c2 (if requested_POLLOUT rw then m else r))))"

definition notify_children ::
    "h2_env \<Rightarrow> (nat \<Rightarrow> h2_ctx \<Rightarrow> int \<times> h2_ctx) \<Rightarrow> h2_ctx \<Rightarrow> nat \<Rightarrow> (h2_error + h2_ctx) option" where
  "notify_children env cb c m =
     (let c1 = upd_conn m (\<lambda>w. w\<lparr>requested_POLLOUT := False\<rparr>) c
      in case conn_at c1 m of
           None \<Rightarrow> Some (Inl H2_undefined)
         | Some w \<Rightarrow> if \<not> h2_initialized w then Some (Inr c1) else children_loop env cb m c1 m)"

section \<open>Lost settings\<close>

lemma settings_loop_short: "length buf < 6 \<Longrightarrow> settings_loop st buf = (st, buf)"
  by (induction st buf rule: settings_loop.induct) simp_all

lemma setting_bytes_length: "length (setting_bytes n v) = 6"
  by (simp add: setting_bytes_def be32_def)

lemma settings_all_length: "length (concat (map (\<lambda>(n, v). setting_bytes n v) es)) = 6 * length es"
  by (induction es) (auto simp: setting_bytes_length)

lemma interpret_long: "6 \<le> length buf \<Longrightarrow>
  snd (lws_http2_interpret_settings_payload st buf) = fst (settings_loop st buf)"
  by (auto simp: lws_http2_interpret_settings_payload_def split: prod.split)

lemma settings_cut:
  assumes "es \<noteq> []" "\<forall>(n, v)\<in>set es. n < 65536"
  shows "snd (lws_http2_interpret_settings_payload st (butlast (concat (map (\<lambda>(n, v). setting_bytes n v) es)))) =
    fold (\<lambda>(n, v) st. if n < 7 then st[n := v] else st) (butlast es) st"
proof -
  let ?f = "\<lambda>(n, v). setting_bytes n v" and ?g = "\<lambda>(n, v) st. if n < 7 then st[n := v] else st"
  obtain fs e where es: "es = fs @ [e]" using assms(1) by (metis append_butlast_last_id)
  have le: "length (?f e) = 6" by (cases e) (simp add: setting_bytes_length)
  then have "?f e \<noteq> []" by auto
  then have bl: "butlast (concat (map ?f es)) = concat (map ?f fs) @ butlast (?f e)"
    unfolding es by (simp add: butlast_append)
  have lp: "settings_loop st (concat (map ?f fs) @ butlast (?f e)) = (fold ?g fs st, butlast (?f e))"
    using settings_loop_entries [of fs st "butlast (?f e)"] settings_loop_short [of "butlast (?f e)"] assms(2) es le by simp
  show ?thesis
  proof (cases "fs = []")
    case True
    then show ?thesis using bl le es by (cases e) (simp add: lws_http2_interpret_settings_payload_def)
  next
    case False
    then have "6 \<le> length (concat (map ?f fs))" by (simp add: settings_all_length Suc_le_eq)
    then have "snd (lws_http2_interpret_settings_payload st (concat (map ?f fs) @ butlast (?f e))) = fold ?g fs st"
      using interpret_long [of "concat (map ?f fs) @ butlast (?f e)" st] unfolding lp by simp
    then show ?thesis unfolding bl by (simp add: es)
  qed
qed

text \<open>
  Of the settings that a client sends with its request to upgrade, Base 64 encoded as it should, the
  last one is always lost, as the decoder drops the last byte of what was encoded to no padding;
  with a single setting that is all there is. The others are taken over and the connection goes on
  to wait for the preface.
\<close>

theorem h2c_last_setting_lost:
  assumes "a = hdr_ah (hp_hdr w)" "lws_hdr_total_length a 16 = Some k" "0 < k" "lws_hdr_simple_ptr a 16 = Some off"
    "c_string (ah_data a) off = Some (rfc_b64 (concat (map (\<lambda>(n, v). setting_bytes n v) es)))"
    "es \<noteq> []" "length es \<le> 20" "\<forall>(n, v)\<in>set es. n < 65536" "length quad = 4"
    "tx_idle env t" "\<not> clean_buffer t"
  shows "\<exists>t'. upgrade_h2c env quad w t = Inr (H2c_fail t') \<or>
    (\<exists>w'. upgrade_h2c env quad w t = Inr (H2c_switched w' t') \<and> h2_state w' = WSI_STATE_HTTP2_AWAIT_CLIENT_PREFACE \<and>
       stream t' = stream t @ switch_response \<and> hdr_ah (hp_hdr w') = a \<and> my_settings w' = lws_http2_init \<and>
       peer_settings w' = fold (\<lambda>(n, v) st. if n < 7 then st[n := v] else st) (butlast es) lws_http2_init)"
proof -
  define pl where "pl = concat (map (\<lambda>(n, v). setting_bytes n v) es)"
  let ?b = "\<lparr>tb_id = 2, tb_mem = switch_response @ [0], tb_off = 0, tb_len = length switch_response\<rparr>"
  have "length pl mod 3 = 0" "int (length pl) + 2 < 128" using assms(7) unfolding pl_def settings_all_length by simp_all
  then have dec: "lws_b64_decode_string quad (rfc_b64 pl) 128 = (int (length (butlast pl)), butlast pl @ [0])"
    using decode_encoded [OF assms(9), of pl 128] by simp
  have ok: "tb_ok ?b" "tb_len ?b \<noteq> 0" by (simp_all add: tb_ok_def switch_response_def bytes_def)
  have bs: "tb_bytes ?b = switch_response" by (simp add: tb_bytes_def)
  have up: "upgrade_h2c env quad w t =
      (case lws_issue_raw env t ?b of
         Inl _ \<Rightarrow> Inl H2_undefined
       | Inr (m, t1) \<Rightarrow>
           Inr (if m \<noteq> int (length switch_response) then H2c_fail t1
                else H2c_switched ((h2c_union w)\<lparr>my_settings := lws_http2_init,
                       peer_settings := snd (lws_http2_interpret_settings_payload lws_http2_init (butlast pl)),
                       h2_state := WSI_STATE_HTTP2_AWAIT_CLIENT_PREFACE\<rparr>) t1))"
    using assms(1-4) assms(5) [folded pl_def] dec by (simp add: upgrade_h2c_def Let_def split: sum.split)
  show ?thesis
  proof (cases rule: issue_raw_new [OF assms(10) ok, case_names took failed])
    case (took n t1)
    then have "n = length switch_response" using assms(11) by auto
    then show ?thesis
      using took up bs settings_cut [OF assms(6,8), folded pl_def] assms(1) by (intro exI [of _ t1]) (simp add: h2c_union_def Let_def)
  next
    case (failed n t1)
    then show ?thesis using up by (intro exI [of _ t1]) simp
  qed
qed

definition upgrade_conn :: http2_wsi where
  "upgrade_conn = (h2_new_conn WSI_STATE_HTTP)\<lparr>hp_hdr := zero_hdr\<lparr>hdr_ah := (hdr_ah zero_hdr)\<lparr>
     ah_frag_index := (ah_frag_index (hdr_ah zero_hdr))[16 := 1],
     ah_frags := replicate 158 \<lparr>frag_offset = 0, frag_len = 8, next_frag = 0\<rparr>,
     ah_data := bytes ''AAMAAABk'' @ replicate 1016 0\<rparr>\<rparr>\<rparr>"

theorem h2c_last_setting_lost_witness:
  "\<exists>t'. upgrade_h2c all_env [0, 0, 0, 0] upgrade_conn (new_tx LWS_CONNMODE_HTTP_SERVING) = Inr (H2c_fail t') \<or>
    (\<exists>w'. upgrade_h2c all_env [0, 0, 0, 0] upgrade_conn (new_tx LWS_CONNMODE_HTTP_SERVING) = Inr (H2c_switched w' t') \<and>
       peer_settings w' = lws_http2_init)"
proof -
  let ?a = "hdr_ah (hp_hdr upgrade_conn)"
  have b64: "rfc_b64 (concat (map (\<lambda>(n, v). setting_bytes n v) [(3, 100)])) = bytes ''AAMAAABk''"
    by (simp add: setting_bytes_def be32_def, code_simp)
  have ix: "ah_frag_index ?a ! 16 = 1" by (simp add: upgrade_conn_def zero_hdr_def)
  have fr: "ah_frags ?a ! 1 = \<lparr>frag_offset = 0, frag_len = 8, next_frag = 0\<rparr>" "length (ah_frags ?a) = 158"
    by (simp_all add: upgrade_conn_def)
  have fc: "frag_chain FRAGS (ah_frags ?a) 1 = Some [1]"
    using frag_chain.simps(2) [of 157 "ah_frags ?a" 1] fr by simp
  have tl: "lws_hdr_total_length ?a 16 = Some 8" "lws_hdr_simple_ptr ?a 16 = Some 0"
    using ix fr fc by (simp_all add: lws_hdr_total_length_def lws_hdr_simple_ptr_def)
  have "c_string (ah_data ?a) 0 = Some (bytes ''AAMAAABk'')"
    by (simp add: upgrade_conn_def c_string_def bytes_def)
  then have cs: "c_string (ah_data ?a) 0 = Some (rfc_b64 (concat (map (\<lambda>(n, v). setting_bytes n v) [(3, 100)])))"
    unfolding b64 .
  have id: "tx_idle all_env (new_tx LWS_CONNMODE_HTTP_SERVING)" "\<not> clean_buffer (new_tx LWS_CONNMODE_HTTP_SERVING)"
    by (rule tx_instances(1)) (simp add: new_tx_def)
  show ?thesis
    using h2c_last_setting_lost [OF refl tl(1) _ tl(2) cs _ _ _ _ id, of "[0, 0, 0, 0]"] by (auto intro: exI)
qed

section \<open>Bodies\<close>

lemma network_walk_upd:
  assumes "conn_at c p = Some w" "parent_wsi w1 = parent_wsi w"
  shows "network_walk k (upd_conn p (\<lambda>_. w1) c) q = network_walk k c q"
proof (induction k arbitrary: q)
  case (Suc k)
  then show ?case using assms by (cases "q = p") (simp_all split: option.split)
qed simp

lemma network_upd:
  "conn_at c p = Some w \<Longrightarrow> parent_wsi w1 = parent_wsi w \<Longrightarrow>
   lws_http2_get_network_wsi (upd_conn p (\<lambda>_. w1) c) q = lws_http2_get_network_wsi c q"
  by (simp add: lws_http2_get_network_wsi_def network_walk_upd)

text \<open>
  A stream whose answer has a length ends with it: a write of body data becomes a DATA frame of the
  stream, the bytes still to come are counted down, and the frame carries END_STREAM just when it
  is the last one, by the count or by the caller's word, and the stream is to end.
\<close>

theorem http2_body_frame:
  assumes "conn_at c p = Some w" "lws_http2_get_network_wsi c p = Inr m" "protocol \<in> {LWS_WRITE_HTTP, LWS_WRITE_HTTP_FINAL}"
    "0 < tb_len b" "9 \<le> tb_off b" "tb_off b + tb_len b \<le> length (tb_mem b)" "tb_len b + 9 < 2 ^ 31"
    "tx_idle (he_tx env) (h2_tx c)" "\<not> clean_buffer (h2_tx c)"
    "h2_content_length w \<noteq> 0" "unat (h2_content_remain w) = r" "tb_len b \<le> r"
    "fin = (tb_len b = r \<or> protocol = LWS_WRITE_HTTP_FINAL)"
  shows "\<exists>n c'. http2_write env c p b protocol = Inr (n, c') \<and> n \<in> {-1, int (tb_len b)} \<and>
    map_option (\<lambda>w. unat (h2_content_remain w)) (conn_at c' p) = Some (r - tb_len b) \<and>
    (n \<noteq> -1 \<longrightarrow> stream (h2_tx c') = stream (h2_tx c) @
       http2_frame_header 0 (if fin \<and> END_STREAM w then 1 else 0) (my_stream_id w) (tb_len b) @ tb_bytes b)"
proof -
  let ?k = "of_nat (tb_len b) :: 64 word"
  have k: "unat ?k = tb_len b" using assms(7) by (simp add: unat_of_nat)
  have le: "?k \<le> h2_content_remain w" using k assms(11,12) by (simp add: word_le_nat_alt)
  have sub: "unat (h2_content_remain w - ?k) = r - tb_len b" using le k assms(11) by (simp add: unat_sub)
  have zero: "h2_content_remain w - ?k = 0 \<longleftrightarrow> tb_len b = r"
  proof -
    have "h2_content_remain w - ?k = 0 \<longleftrightarrow> unat (h2_content_remain w - ?k) = 0" by (rule unat_eq_zero [symmetric])
    then show ?thesis unfolding sub using assms(12) by linarith
  qed
  define w1 where "w1 = w\<lparr>h2_content_remain := h2_content_remain w - ?k\<rparr>"
  let ?c = "upd_conn p (\<lambda>_. w1) c"
  let ?fl = "if fin \<and> END_STREAM w then 1 else 0 :: byte"
  have wr: "http2_write env c p b protocol = lws_http2_frame_write env ?c p 0 ?fl (my_stream_id w) b"
    using assms(1,3,4,10,13) zero by (auto simp: http2_write_def write_frame_kind_def count_content_def w1_def Let_def)
  have net: "lws_http2_get_network_wsi ?c p = Inr m"
    using assms(1,2) by (simp add: network_upd w1_def)
  have cr: "map_option (\<lambda>w. unat (h2_content_remain w)) (conn_at (?c\<lparr>h2_tx := t\<rparr>) p) = Some (r - tb_len b)" for t
    using assms(1) sub by (simp add: w1_def)
  show ?thesis
  proof (cases rule: frame_write_sends [OF net, of env b 0 ?fl "my_stream_id w", case_names idle off mem len clean sent failed])
    case (sent t)
    then show ?thesis using wr cr by (intro exI [of _ "int (tb_len b)"] exI [of _ "?c\<lparr>h2_tx := t\<rparr>"]) simp
  next
    case (failed t)
    then show ?thesis using wr cr by (intro exI [of _ "-1"] exI [of _ "?c\<lparr>h2_tx := t\<rparr>"]) simp
  qed (use assms(5-9) in simp_all)
qed

definition body_conn :: h2_ctx where
  "body_conn = upd_conn 0 (\<lambda>w. w\<lparr>h2_content_length := 2, h2_content_remain := 2, END_STREAM := True, my_stream_id := 1\<rparr>)
     (h2_start WSI_STATE_HTTP2_ESTABLISHED)"

theorem http2_body_frame_witness:
  "\<exists>n c'. http2_write no_h2_env body_conn 0 (user_buf [0x68, 0x69]) LWS_WRITE_HTTP = Inr (n, c') \<and>
    (n \<noteq> -1 \<longrightarrow> stream (h2_tx c') = stream (h2_tx body_conn) @ http2_frame_header 0 1 1 2 @ [0x68, 0x69])"
proof -
  let ?w = "(h2_new_conn WSI_STATE_HTTP2_ESTABLISHED)\<lparr>h2_content_length := 2, h2_content_remain := 2,
      END_STREAM := True, my_stream_id := 1\<rparr>"
  have w: "conn_at body_conn 0 = Some ?w" by (simp add: body_conn_def h2_start_conn)
  have net: "lws_http2_get_network_wsi body_conn 0 = Inr 0" by (rule network_self [OF w]) simp
  have tx: "h2_tx body_conn = new_tx LWS_CONNMODE_HTTP2_SERVING" "he_tx no_h2_env = all_env"
    by (simp_all add: body_conn_def h2_start_def no_h2_env_def)
  have b: "tb_len (user_buf [0x68, 0x69]) = 2" "tb_bytes (user_buf [0x68, 0x69]) = [0x68, 0x69]"
    "tb_off (user_buf [0x68, 0x69]) = 18" "length (tb_mem (user_buf [0x68, 0x69])) = 24"
    by (simp_all add: user_buf_def tb_bytes_def)
  show ?thesis
    using http2_body_frame [OF w net, of LWS_WRITE_HTTP "user_buf [0x68, 0x69]" no_h2_env 2 True]
      tx_instances(1) [of LWS_CONNMODE_HTTP2_SERVING] unfolding tx b by (auto simp: new_tx_def)
qed

section \<open>Sharing the socket\<close>

definition wants :: "h2_ctx \<Rightarrow> nat \<Rightarrow> bool" where
  "wants c q = (case conn_at c q of None \<Rightarrow> False | Some w \<Rightarrow> requested_POLLOUT w)"

fun path :: "h2_ctx \<Rightarrow> nat \<Rightarrow> nat list \<Rightarrow> bool" where
  "path c q [] = True"
| "path c q (u # us) =
     ((case conn_at c q of None \<Rightarrow> False | Some w \<Rightarrow> next_child_wsi w = Some u) \<and> conn_at c u \<noteq> None \<and> path c u us)"

text \<open>Only the clock of the sends may differ.\<close>

definition ticked :: "h2_ctx \<Rightarrow> h2_ctx \<Rightarrow> bool" where
  "ticked c c1 \<longleftrightarrow> h2_conns c1 = h2_conns c \<and> h2_log c1 = h2_log c \<and> truncated_send_len (h2_tx c1) = 0"

lemma ticked_conn: "ticked c c1 \<Longrightarrow> conn_at c1 q = conn_at c q"
  by (simp add: ticked_def conn_at_def)

lemma chain_path: "chain c q (us @ vs) \<longleftrightarrow> path c q us \<and> chain c (last (q # us)) vs"
proof (induction us arbitrary: q)
  case (Cons u us)
  have "path c u us \<and> chain c (last (u # us)) vs \<Longrightarrow> conn_at c u \<noteq> None"
    by (cases us; cases vs) (auto split: option.splits)
  then show ?case using Cons.IH [of u] by (auto split: option.splits)
qed simp

lemma path_conns: "conn_at c1 = conn_at c \<Longrightarrow> path c1 q us = path c q us"
  by (induction us arbitrary: q) simp_all

lemma pipe_open:
  "truncated_send_len t = 0 \<Longrightarrow> poll_out env (tx_clock t) \<Longrightarrow> lws_send_pipe_choked env t = (False, tick t)"
  "truncated_send_len t = 0 \<Longrightarrow> \<not> poll_out env (tx_clock t) \<Longrightarrow> lws_send_pipe_choked env t = (True, tick t)"
  by (simp_all add: lws_send_pipe_choked_def)

lemma skip_unwanted:
  assumes "path c q us" "\<forall>u\<in>set us. \<not> wants c u" "truncated_send_len (h2_tx c) = 0" "\<forall>t. poll_out (he_tx env) t"
  shows "\<exists>c1. ticked c c1 \<and> children_loop env cb m c q = children_loop env cb m c1 (last (q # us))"
  using assms(1-3)
proof (induction us arbitrary: c q)
  case Nil
  then show ?case by (auto simp: ticked_def)
next
  case (Cons u us)
  let ?c = "c\<lparr>h2_tx := tick (h2_tx c)\<rparr>"
  obtain qw uw where w: "conn_at c q = Some qw" "next_child_wsi qw = Some u" "conn_at c u = Some uw" "\<not> requested_POLLOUT uw"
    using Cons.prems(1,2) by (auto simp: wants_def split: option.splits)
  have step: "children_loop env cb m c q = children_loop env cb m ?c u"
    using w pipe_open(1) [OF Cons.prems(3), of "he_tx env"] assms(4) by (simp add: children_loop.simps [of _ _ _ c q])
  have conns: "conn_at ?c = conn_at c" by (rule ext) simp
  have "path ?c u us" "\<forall>u\<in>set us. \<not> wants ?c u" "truncated_send_len (h2_tx ?c) = 0"
    using Cons.prems path_conns [OF conns] by (simp_all add: wants_def conns tick_def)
  from Cons.IH [OF this] show ?case unfolding step by (auto simp: ticked_def)
qed

lemma walk_stop: "chain c q [] \<Longrightarrow> children_loop env cb m c q = Some (Inr c)"
  by (auto simp: children_loop.simps [of _ _ _ c] split: option.splits)

lemma walk_ends:
  assumes "chain c q us" "\<forall>u\<in>set us. \<not> wants c u" "truncated_send_len (h2_tx c) = 0" "\<forall>t. poll_out (he_tx env) t"
  shows "\<exists>c1. ticked c c1 \<and> children_loop env cb m c q = Some (Inr c1)"
proof -
  have p: "path c q us" "chain c (last (q # us)) []" using assms(1) chain_path [of c q us "[]"] by simp_all
  obtain c1 where c1: "ticked c c1" "children_loop env cb m c q = children_loop env cb m c1 (last (q # us))"
    using skip_unwanted [OF p(1) assms(2-4)] by blast
  have "chain c1 (last (q # us)) []" using p(2) ticked_conn [OF c1(1)] by simp
  from walk_stop [OF this] c1 show ?thesis by metis
qed

text \<open>The stream that comes next has asked.\<close>

lemma notify_turn:
  assumes "conn_at c q = Some qw" "next_child_wsi qw = Some r" "wants c r"
    "truncated_send_len (h2_tx (notify_child cb r c)) = 0"
  shows "children_loop env cb m c q =
    (let t = h2_tx (notify_child cb r c); c1 = (notify_child cb r c)\<lparr>h2_tx := tick t\<rparr>
     in if poll_out (he_tx env) (tx_clock t) then children_loop env cb m c1 m else Some (Inr c1))"
proof -
  obtain rw where "conn_at c r = Some rw" "requested_POLLOUT rw" using assms(3) by (auto simp: wants_def split: option.splits)
  then show ?thesis
    using assms pipe_open [OF assms(4), of "he_tx env"] by (simp add: children_loop.simps [of _ _ _ c q] Let_def)
qed

lemma notify_step:
  assumes "conn_at c q = Some qw" "next_child_wsi qw = Some r" "wants c r"
    "h2_tx (notify_child cb r c) = h2_tx c" "truncated_send_len (h2_tx c) = 0"
  shows "children_loop env cb m c q =
    (let c1 = (notify_child cb r c)\<lparr>h2_tx := tick (h2_tx c)\<rparr>
     in if poll_out (he_tx env) (tx_clock (h2_tx c)) then children_loop env cb m c1 m else Some (Inr c1))"
  using notify_turn [OF assms(1-3), of cb env m] assms(4,5) by (simp add: Let_def)

text \<open>The streams that were told that the socket is writable, in order.\<close>

definition told :: "h2_ctx \<Rightarrow> nat list" where
  "told c = concat (map (\<lambda>e. case e of Ev_writeable q \<Rightarrow> [q] | _ \<Rightarrow> []) (h2_log c))"

text \<open>
  A callback that never fails and, once \<open>n\<close> streams have been told, asks for no further turn. It may
  send what the socket takes, change streams and ask for turns of any of them, as long as it does not
  take a request back or touch the list of the streams.
\<close>

definition obliging :: "nat \<Rightarrow> (nat \<Rightarrow> h2_ctx \<Rightarrow> int \<times> h2_ctx) \<Rightarrow> bool" where
  "obliging n cb \<longleftrightarrow>
     (\<forall>r c. truncated_send_len (h2_tx c) = 0 \<longrightarrow>
        (case cb r c of (k, c') \<Rightarrow>
           k = 0 \<and> truncated_send_len (h2_tx c') = 0 \<and> told c' = told c \<and>
           (\<forall>q. map_option next_child_wsi (conn_at c' q) = map_option next_child_wsi (conn_at c q)) \<and>
           (\<forall>q. wants c q \<longrightarrow> wants c' q) \<and>
           (n \<le> length (told c) \<longrightarrow> (\<forall>q. wants c' q \<longrightarrow> wants c q))))"

lemma told_simps [simp]:
  "told (log_h2 (Ev_writeable r) c) = told c @ [r]" "told (upd_conn p f c) = told c" "told (c\<lparr>h2_tx := t\<rparr>) = told c"
  by (simp_all add: told_def log_h2_def)

lemma ticked_told: "ticked c c1 \<Longrightarrow> told c1 = told c"
  by (simp add: ticked_def told_def)

lemma wants_simps [simp]: "wants (log_h2 e c) = wants c" "wants (c\<lparr>h2_tx := t\<rparr>) = wants c"
  by (simp_all add: wants_def fun_eq_iff)

lemma wants_cleared: "wants (upd_conn r (\<lambda>w. w\<lparr>requested_POLLOUT := False\<rparr>) c) q \<longleftrightarrow> q \<noteq> r \<and> wants c q"
  by (cases "q = r") (auto simp: wants_def split: option.splits)

text \<open>One turn of an obliging callback.\<close>

lemma obliging_turn:
  assumes "obliging n cb" "truncated_send_len (h2_tx c) = 0"
  shows "truncated_send_len (h2_tx (notify_child cb r c)) = 0" "told (notify_child cb r c) = told c @ [r]"
    "map_option next_child_wsi (conn_at (notify_child cb r c) q) = map_option next_child_wsi (conn_at c q)"
    "q \<noteq> r \<Longrightarrow> wants c q \<Longrightarrow> wants (notify_child cb r c) q"
    "n \<le> length (told c) + 1 \<Longrightarrow> wants (notify_child cb r c) q \<Longrightarrow> q \<noteq> r \<and> wants c q"
proof -
  let ?c = "log_h2 (Ev_writeable r) (upd_conn r (\<lambda>w. w\<lparr>requested_POLLOUT := False\<rparr>) c)"
  obtain k c' where cb: "cb r ?c = (k, c')" by fastforce
  have tx: "truncated_send_len (h2_tx ?c) = 0" using assms(2) by simp
  have o: "k = 0 \<and> truncated_send_len (h2_tx c') = 0 \<and> told c' = told ?c \<and>
      (\<forall>q. map_option next_child_wsi (conn_at c' q) = map_option next_child_wsi (conn_at ?c q)) \<and>
      (\<forall>q. wants ?c q \<longrightarrow> wants c' q) \<and> (n \<le> length (told ?c) \<longrightarrow> (\<forall>q. wants c' q \<longrightarrow> wants ?c q))"
    using mp [OF spec [OF spec [OF assms(1) [unfolded obliging_def], of r], of ?c] tx] unfolding cb prod.case .
  have t: "told ?c = told c @ [r]" by simp
  have w: "wants ?c u \<longleftrightarrow> u \<noteq> r \<and> wants c u" for u by (simp add: wants_cleared)
  have nx: "map_option next_child_wsi (conn_at ?c q) = map_option next_child_wsi (conn_at c q)"
    by (cases "q = r") (simp_all add: option.map_comp comp_def)
  have n: "notify_child cb r c = c'" using cb conjunct1 [OF o] by (simp add: notify_child_def)
  show "truncated_send_len (h2_tx (notify_child cb r c)) = 0" using o unfolding n by blast
  show "told (notify_child cb r c) = told c @ [r]" using o unfolding n t by blast
  have "map_option next_child_wsi (conn_at c' q) = map_option next_child_wsi (conn_at ?c q)" using o by blast
  then show "map_option next_child_wsi (conn_at (notify_child cb r c) q) = map_option next_child_wsi (conn_at c q)"
    unfolding n nx .
  show "q \<noteq> r \<Longrightarrow> wants c q \<Longrightarrow> wants (notify_child cb r c) q" using o unfolding n w by blast
  have "length (told ?c) = length (told c) + 1" by simp
  then show "n \<le> length (told c) + 1 \<Longrightarrow> wants (notify_child cb r c) q \<Longrightarrow> q \<noteq> r \<and> wants c q"
    using o unfolding n w by metis
qed

lemma first_wanting:
  assumes "r \<notin> set us \<union> set vs" "\<forall>u\<in>set us. \<not> P u" "P r" "\<And>q. Q q \<longleftrightarrow> q \<noteq> r \<and> P q"
  shows "filter P (us @ r # vs) = r # filter Q (us @ r # vs)"
proof -
  have "filter P us = []" "filter Q us = []" using assms by (simp_all add: filter_False)
  moreover have "filter Q vs = filter P vs" using assms by (intro filter_cong) auto
  ultimately show ?thesis using assms by simp
qed

lemma serves_all:
  assumes "obliging n cb" "\<forall>t. poll_out (he_tx env) t"
  shows "chain c m ps \<Longrightarrow> distinct ps \<Longrightarrow> truncated_send_len (h2_tx c) = 0 \<Longrightarrow>
    \<exists>c' ts. children_loop env cb m c m = Some (Inr c') \<and> told c' = told c @ ts \<and> (\<forall>q\<in>set ps. \<not> wants c' q) \<and>
      (\<forall>q\<in>set ps. wants c q \<longrightarrow> q \<in> set ts) \<and> (n \<le> length (told c) \<longrightarrow> ts = filter (wants c) ps)"
proof (induction "(n - length (told c)) * Suc (length ps) + length (filter (wants c) ps)" arbitrary: c rule: less_induct)
  case less
  show ?case
  proof (cases "\<exists>r\<in>set ps. wants c r")
    case False
    then have none: "\<forall>u\<in>set ps. \<not> wants c u" by blast
    obtain c1 where c1: "ticked c c1" "children_loop env cb m c m = Some (Inr c1)"
      using walk_ends [OF less.prems(1) none less.prems(3) assms(2)] by blast
    then have "wants c1 q = wants c q" for q using ticked_conn [OF c1(1)] by (simp add: wants_def)
    then show ?thesis using c1(2) ticked_told [OF c1(1)] none by (intro exI [of _ c1] exI [of _ "[]"]) (simp add: filter_False)
  next
    case True
    then obtain us r vs where ps: "ps = us @ r # vs" "wants c r" "\<forall>u\<in>set us. \<not> wants c u"
      using split_list_first_prop [of ps "wants c"] by blast
    have p: "path c m us" "chain c (last (m # us)) (r # vs)" using less.prems(1) chain_path unfolding ps(1) by blast+
    obtain c1 where c1: "ticked c c1" "children_loop env cb m c m = children_loop env cb m c1 (last (m # us))"
      using skip_unwanted [OF p(1) ps(3) less.prems(3) assms(2)] by blast
    note cc = ticked_conn [OF c1(1)]
    have w1: "wants c1 = wants c" using cc by (simp add: wants_def fun_eq_iff)
    obtain qw where q: "conn_at c1 (last (m # us)) = Some qw" "next_child_wsi qw = Some r"
      using p(2) cc by (auto split: option.splits)
    have tl: "truncated_send_len (h2_tx c1) = 0" using c1(1) by (simp add: ticked_def)
    let ?n = "notify_child cb r c1"
    note turn = obliging_turn [OF assms(1) tl, where r = r]
    let ?c2 = "?n\<lparr>h2_tx := tick (h2_tx ?n)\<rparr>"
    have step: "children_loop env cb m c1 (last (m # us)) = children_loop env cb m ?c2 m"
      using notify_turn [OF q _ turn(1), of env m] ps(2) w1 assms(2) by (simp add: Let_def)
    have told: "told ?c2 = told c @ [r]" using turn(2) ticked_told [OF c1(1)] by simp
    have last_ask: "wants ?c2 q \<longleftrightarrow> q \<noteq> r \<and> wants c q" if "n \<le> length (told c)" for q
      using that turn(4,5) [of q] w1 ticked_told [OF c1(1)] by auto
    have dist: "r \<notin> set us \<union> set vs" using less.prems(2) by (simp add: ps(1))
    have f: "filter (wants c) ps = r # filter (wants ?c2) ps" if "n \<le> length (told c)"
      unfolding ps(1) by (rule first_wanting [OF dist ps(3,2)]) (use last_ask [OF that] in simp)
    have "(n - length (told ?c2)) * Suc (length ps) + length (filter (wants ?c2) ps) <
        (n - length (told c)) * Suc (length ps) + length (filter (wants c) ps)"
    proof (cases "n \<le> length (told c)")
      case True
      then show ?thesis using f told by simp
    next
      case False
      then obtain k where k: "n - length (told c) = Suc k" "n - length (told ?c2) = k"
        using told by (cases "n - length (told c)") auto
      have "length (filter (wants ?c2) ps) \<le> length ps" by (rule length_filter_le)
      then show ?thesis unfolding k mult_Suc by linarith
    qed
    moreover have "chain ?c2 m ps"
      using less.prems(1) chain_cong [of ?c2 m c m ps] turn(3) cc by simp
    moreover have "truncated_send_len (h2_tx ?c2) = 0" using turn(1) by (simp add: tick_def)
    ultimately obtain c' ts where c': "children_loop env cb m ?c2 m = Some (Inr c')" "told c' = told ?c2 @ ts"
        "\<forall>q\<in>set ps. \<not> wants c' q" "\<forall>q\<in>set ps. wants ?c2 q \<longrightarrow> q \<in> set ts"
        "n \<le> length (told ?c2) \<longrightarrow> ts = filter (wants ?c2) ps"
      using less.hyps [of ?c2] less.prems(2) by blast
    have "q \<in> set (r # ts)" if "q \<in> set ps" "wants c q" for q
      using that c'(4) turn(4) [of q] w1 by auto
    then show ?thesis
      using c' step c1(2) told f by (intro exI [of _ c'] exI [of _ "r # ts"]) auto
  qed
qed

text \<open>
  C37. When a socket that stays writable becomes writable, no stream of the connection that asked for it
  is left out: the loop ends, every stream that had asked has been told, and none is waiting for a
  turn any more, also when callbacks send, and ask for further turns, up to a bound on their number.
  When the bound is reached before the loop begins, those that had asked are told once each, in the
  order of the list. The callbacks do not fail and what they send is taken by the socket. (The comment
  at the loop promises something else: one stream for each event, in turn.)
\<close>

theorem http2_pollout_reaches_all:
  assumes "streams_of c m ps" "map_option h2_initialized (conn_at c m) = Some True"
    "obliging n cb" "\<forall>t. poll_out (he_tx env) t" "truncated_send_len (h2_tx c) = 0"
  shows "\<exists>c' ts. notify_children env cb c m = Some (Inr c') \<and> told c' = told c @ ts \<and>
    (\<forall>q\<in>set ps. \<not> wants c' q) \<and> (\<forall>q\<in>set ps. wants c q \<longrightarrow> q \<in> set ts) \<and>
    (n \<le> length (told c) \<longrightarrow> ts = filter (wants c) ps)"
proof -
  let ?c = "upd_conn m (\<lambda>w. w\<lparr>requested_POLLOUT := False\<rparr>) c"
  obtain mw where mw: "conn_at c m = Some mw" "h2_initialized mw" using assms(2) by auto
  have s: "chain c m ps" "distinct ps" "m \<notin> set ps" using assms(1) by (simp_all add: streams_of_def)
  have nx: "map_option next_child_wsi (conn_at ?c q) = map_option next_child_wsi (conn_at c q)" for q
    by (cases "q = m") (simp_all add: option.map_comp comp_def)
  have "chain ?c m ps" using s(1) chain_cong [of ?c m c m ps] nx by blast
  moreover have w: "wants ?c q = wants c q" if "q \<in> set ps" for q
    using that s(3) by (auto simp: wants_cleared)
  then have "filter (wants ?c) ps = filter (wants c) ps" by (intro filter_cong) auto
  moreover have "notify_children env cb c m = children_loop env cb m ?c m"
    using mw by (simp add: notify_children_def)
  ultimately show ?thesis
    using serves_all [OF assms(3,4), of ?c m ps] s(2) assms(5) w by simp
qed

text \<open>A connection with two streams that ask for the socket.\<close>

definition two_streams :: h2_ctx where
  "two_streams =
     (let w = h2_new_conn WSI_STATE_HTTP2_ESTABLISHED
      in \<lparr>h2_conns = [Some (w\<lparr>next_child_wsi := Some 2, child_count := 2, h2_initialized := True\<rparr>),
            Some (w\<lparr>parent_wsi := Some 0, requested_POLLOUT := True\<rparr>),
            Some (w\<lparr>parent_wsi := Some 0, next_child_wsi := Some 1, requested_POLLOUT := True\<rparr>)],
          h2_tx = new_tx LWS_CONNMODE_HTTP2_SERVING, h2_log = []\<rparr>)"

lemma two_streams:
  "streams_of two_streams 0 [2, 1]" "map_option h2_initialized (conn_at two_streams 0) = Some True"
  "wants two_streams 2" "wants two_streams 1" "truncated_send_len (h2_tx two_streams) = 0"
  "tx_clock (h2_tx two_streams) = 0" "h2_log two_streams = []"
proof -
  have c: "conn_at two_streams 0 = Some ((h2_new_conn WSI_STATE_HTTP2_ESTABLISHED)\<lparr>next_child_wsi := Some 2,
      child_count := 2, h2_initialized := True\<rparr>)"
    "conn_at two_streams 1 = Some ((h2_new_conn WSI_STATE_HTTP2_ESTABLISHED)\<lparr>parent_wsi := Some 0,
      requested_POLLOUT := True\<rparr>)"
    "conn_at two_streams 2 = Some ((h2_new_conn WSI_STATE_HTTP2_ESTABLISHED)\<lparr>parent_wsi := Some 0,
      next_child_wsi := Some 1, requested_POLLOUT := True\<rparr>)"
    by (simp_all add: two_streams_def conn_at_def Let_def)
  note c1 = c(2) [unfolded One_nat_def]
  show "streams_of two_streams 0 [2, 1]" by (simp add: streams_of_def c c1)
  show "map_option h2_initialized (conn_at two_streams 0) = Some True" "wants two_streams 2" "wants two_streams 1"
    by (simp_all add: wants_def c c1)
  show "truncated_send_len (h2_tx two_streams) = 0" "tx_clock (h2_tx two_streams) = 0" "h2_log two_streams = []"
    by (simp_all add: two_streams_def Let_def new_tx_def)
qed

text \<open>A callback that puts the number of its stream on the socket and asks for a second turn, once.\<close>

definition two_turns :: "nat \<Rightarrow> h2_ctx \<Rightarrow> int \<times> h2_ctx" where
  "two_turns r c =
     (let t = h2_tx c; c1 = c\<lparr>h2_tx := t\<lparr>wire := wire t @ [of_nat r]\<rparr>\<rparr>
      in (0, if length (told c) < 2 then upd_conn r (\<lambda>w. w\<lparr>requested_POLLOUT := True\<rparr>) c1 else c1))"

lemma two_turns: "obliging 2 two_turns"
proof -
  have w: "wants (upd_conn r (\<lambda>w. w\<lparr>requested_POLLOUT := True\<rparr>) c) q" if "wants c q" for r c q
    using that by (cases "q = r") (auto simp: wants_def split: option.splits)
  have nx: "map_option next_child_wsi (conn_at (upd_conn r (\<lambda>w. w\<lparr>requested_POLLOUT := True\<rparr>) c) q) =
      map_option next_child_wsi (conn_at c q)" for r c q
    by (cases "q = r") (simp_all add: option.map_comp comp_def)
  show ?thesis by (auto simp: obliging_def two_turns_def Let_def nx intro!: w)
qed

theorem http2_pollout_reaches_all_witness:
  "\<exists>c' ts. notify_children no_h2_env two_turns two_streams 0 = Some (Inr c') \<and>
   told c' = ts \<and> {1, 2} \<subseteq> set ts \<and> \<not> wants c' 1 \<and> \<not> wants c' 2"
proof -
  have "\<forall>t. poll_out (he_tx no_h2_env) t" by (simp add: no_h2_env_def all_env_def)
  from http2_pollout_reaches_all [OF two_streams(1,2) two_turns this two_streams(5)] show ?thesis
    using two_streams(3,4,7) by (auto simp: told_def)
qed

text \<open>A turn of a stream that is first in the list and asks again.\<close>

lemma first_turn:
  assumes "map_option next_child_wsi (conn_at c m) = Some (Some p)" "wants c p" "truncated_send_len (h2_tx c) = 0"
    "\<forall>c. cb p c = (0, upd_conn p (\<lambda>w. w\<lparr>requested_POLLOUT := True\<rparr>) c)" "p \<notin> set qs"
  shows "\<exists>c1. children_loop env cb m c m =
      (if poll_out (he_tx env) (tx_clock (h2_tx c)) then children_loop env cb m c1 m else Some (Inr c1)) \<and>
    map_option next_child_wsi (conn_at c1 m) = Some (Some p) \<and> wants c1 p \<and> truncated_send_len (h2_tx c1) = 0 \<and>
    tx_clock (h2_tx c1) = Suc (tx_clock (h2_tx c)) \<and> h2_log c1 = h2_log c @ [Ev_writeable p] \<and>
    (\<forall>q\<in>set qs. wants c1 q = wants c q)"
proof -
  let ?n = "log_h2 (Ev_writeable p) (upd_conn p (\<lambda>w. w\<lparr>requested_POLLOUT := True\<rparr>) c)"
  have n: "notify_child cb p c = ?n" using assms(4) by (simp add: notify_child_def upd_conn_log)
  have tx: "h2_tx (notify_child cb p c) = h2_tx c" unfolding n by simp
  obtain mw where mw: "conn_at c m = Some mw" "next_child_wsi mw = Some p" using assms(1) by auto
  have nx: "map_option next_child_wsi (conn_at ?n m) = Some (Some p)" using mw by (cases "m = p") simp_all
  have wp: "wants ?n p" using assms(2) by (auto simp: wants_def split: option.splits)
  have wq: "\<forall>q\<in>set qs. wants ?n q = wants c q"
  proof
    fix q assume "q \<in> set qs"
    then have "q \<noteq> p" using assms(5) by blast
    then show "wants ?n q = wants c q" by (simp add: wants_def)
  qed
  show ?thesis
    using notify_step [OF mw assms(2) tx assms(3), of env m] nx wp wq assms(3) unfolding n
    by (intro exI [of _ "?n\<lparr>h2_tx := tick (h2_tx c)\<rparr>"]) (simp add: Let_def tick_def wants_def log_h2_def)
qed

text \<open>
  The turns are not fair: after each callback the loop starts again at the head of the list, so a
  stream that is first there and asks for the next turn whenever it has had one gets all of them
  until the pipe is choked, and the others that asked get none.
\<close>

theorem http2_first_stream_starves_others:
  assumes "streams_of c m (p # qs)" "map_option h2_initialized (conn_at c m) = Some True" "wants c p"
    "\<forall>c. cb p c = (0, upd_conn p (\<lambda>w. w\<lparr>requested_POLLOUT := True\<rparr>) c)"
    "truncated_send_len (h2_tx c) = 0" "t = tx_clock (h2_tx c)"
    "\<forall>i<k. poll_out (he_tx env) (t + i)" "\<not> poll_out (he_tx env) (t + k)"
  shows "\<exists>c'. notify_children env cb c m = Some (Inr c') \<and>
    h2_log c' = h2_log c @ replicate (Suc k) (Ev_writeable p) \<and> wants c' p \<and>
    (\<forall>q\<in>set qs. wants c' q = wants c q)"
proof -
  have turn: "\<exists>c'. children_loop env cb m c m = Some (Inr c') \<and>
      h2_log c' = h2_log c @ replicate (Suc k) (Ev_writeable p) \<and> wants c' p \<and>
      (\<forall>q\<in>set qs. wants c' q = wants c q)"
    if "map_option next_child_wsi (conn_at c m) = Some (Some p)" "wants c p" "truncated_send_len (h2_tx c) = 0"
      "\<forall>i<k. poll_out (he_tx env) (tx_clock (h2_tx c) + i)" "\<not> poll_out (he_tx env) (tx_clock (h2_tx c) + k)" for c
    using that
  proof (induction k arbitrary: c)
    case (0 c)
    show ?case using first_turn [of c m p cb qs env, OF 0(1-3) assms(4)] 0 assms(1) by (auto simp: streams_of_def)
  next
    case (Suc k c)
    obtain c1 where c1: "children_loop env cb m c m = children_loop env cb m c1 m"
        "map_option next_child_wsi (conn_at c1 m) = Some (Some p)" "wants c1 p" "truncated_send_len (h2_tx c1) = 0"
        "tx_clock (h2_tx c1) = Suc (tx_clock (h2_tx c))" "h2_log c1 = h2_log c @ [Ev_writeable p]"
        "\<forall>q\<in>set qs. wants c1 q = wants c q"
      using first_turn [of c m p cb qs env, OF Suc.prems(1-3) assms(4)] Suc.prems(4) assms(1) by (force simp: streams_of_def)
    have "\<forall>i<k. poll_out (he_tx env) (tx_clock (h2_tx c1) + i)" "\<not> poll_out (he_tx env) (tx_clock (h2_tx c1) + k)"
      using Suc.prems(4,5) c1(5) by (auto dest: spec [of _ "Suc _"])
    from Suc.IH [OF c1(2-4) this] show ?case using c1(1,6,7) by (auto simp: replicate_append_same)
  qed
  let ?c = "upd_conn m (\<lambda>w. w\<lparr>requested_POLLOUT := False\<rparr>) c"
  obtain mw where mw: "conn_at c m = Some mw" "h2_initialized mw" "next_child_wsi mw = Some p"
    using assms(1,2) by (auto simp: streams_of_def)
  have "wants ?c q = wants c q" if "q \<in> set (p # qs)" for q
    using that assms(1) by (cases "q = m") (simp_all add: wants_def streams_of_def)
  then have "wants ?c p" "\<forall>q\<in>set qs. wants ?c q = wants c q" using assms(3) by simp_all
  moreover have "notify_children env cb c m = children_loop env cb m ?c m"
    using mw by (simp add: notify_children_def)
  ultimately show ?thesis using turn [of ?c] mw assms(5-8) by simp
qed

definition choking_env :: h2_env where
  "choking_env = no_h2_env\<lparr>he_tx := all_env\<lparr>poll_out := (\<lambda>t. t < 2)\<rparr>\<rparr>"

theorem http2_first_stream_starves_others_witness:
  "\<exists>c'. notify_children choking_env (\<lambda>r c. (0, upd_conn r (\<lambda>w. w\<lparr>requested_POLLOUT := True\<rparr>) c)) two_streams 0 =
      Some (Inr c') \<and> h2_log c' = [Ev_writeable 2, Ev_writeable 2, Ev_writeable 2] \<and> wants c' 1"
proof -
  have "\<forall>i<2. poll_out (he_tx choking_env) (0 + i)" "\<not> poll_out (he_tx choking_env) (0 + 2)"
    by (simp_all add: choking_env_def)
  from http2_first_stream_starves_others [OF two_streams(1,2,3) _ two_streams(5) two_streams(6) [symmetric] this,
      where cb = "\<lambda>r c. (0, upd_conn r (\<lambda>w. w\<lparr>requested_POLLOUT := True\<rparr>) c)"]
  show ?thesis using two_streams(4,7) by (auto simp: numeral_3_eq_3 numeral_2_eq_2)
qed

lemma conn_free: "q \<noteq> r \<Longrightarrow> conn_at (free_conn r c) q = conn_at c q"
  by (simp add: free_conn_def conn_at_def log_h2_def)

lemma path_other:
  "path c m us \<Longrightarrow> r \<notin> set (m # us) \<Longrightarrow> (\<And>q. q \<noteq> r \<Longrightarrow> conn_at c1 q = conn_at c q) \<Longrightarrow> path c1 m us"
proof (induction us arbitrary: m)
  case (Cons u us)
  then have "conn_at c1 m = conn_at c m" "conn_at c1 u = conn_at c u" by auto
  then show ?case using Cons by (auto split: option.splits)
qed simp

text \<open>
  A stream whose callback fails is closed and its memory freed, but it is not taken out of the list
  of its connection: unless the pipe is choked, the loop goes on to use it.
\<close>

theorem http2_closed_stream_stays_listed:
  assumes "streams_of c m (us @ r # vs)" "map_option h2_initialized (conn_at c m) = Some True"
    "\<forall>u\<in>set us. \<not> wants c u" "wants c r" "\<forall>c. \<exists>n. n \<noteq> 0 \<and> cb r c = (n, c)"
    "truncated_send_len (h2_tx c) = 0" "\<forall>t. poll_out (he_tx env) t"
  shows "notify_children env cb c m = Some (Inl H2_undefined)"
proof -
  let ?c = "upd_conn m (\<lambda>w. w\<lparr>requested_POLLOUT := False\<rparr>) c"
  obtain mw where mw: "conn_at c m = Some mw" "h2_initialized mw" using assms(2) by auto
  have s: "chain c m (us @ r # vs)" "distinct (m # us @ r # vs)" using assms(1) by (simp_all add: streams_of_def)
  have nx: "map_option next_child_wsi (conn_at ?c q) = map_option next_child_wsi (conn_at c q)" for q
    by (cases "q = m") (simp_all add: option.map_comp comp_def)
  have ch: "path ?c m us" "chain ?c (last (m # us)) (r # vs)"
    using s(1) chain_cong [of ?c m c m "us @ r # vs"] nx chain_path by blast+
  have w: "wants ?c q = wants c q" if "q \<in> set us \<union> {r}" for q
  proof -
    have "q \<noteq> m" using that s(2) by auto
    then show ?thesis by (simp add: wants_def)
  qed
  have no: "\<forall>u\<in>set us. \<not> wants ?c u" "wants ?c r" using w assms(3,4) by simp_all
  have "truncated_send_len (h2_tx ?c) = 0" using assms(6) by simp
  from skip_unwanted [OF ch(1) no(1) this assms(7)]
  obtain c1 where c1: "ticked ?c c1" "children_loop env cb m ?c m = children_loop env cb m c1 (last (m # us))" by blast
  note cc = ticked_conn [OF c1(1)]
  obtain qw where q: "conn_at c1 (last (m # us)) = Some qw" "next_child_wsi qw = Some r"
    using ch(2) cc by (auto split: option.splits)
  have wr: "wants c1 r" using no(2) cc by (simp add: wants_def)
  let ?d = "log_h2 (Ev_writeable r) (upd_conn r (\<lambda>w. w\<lparr>requested_POLLOUT := False\<rparr>) c1)"
  have nc: "notify_child cb r c1 = free_conn r ?d"
    using assms(5) by (auto simp: notify_child_def dest: spec [of _ ?d] split: prod.split)
  have tx: "h2_tx (notify_child cb r c1) = h2_tx c1" unfolding nc by (simp add: free_conn_def log_h2_def)
  have tl: "truncated_send_len (h2_tx c1) = 0" using c1(1) by (simp add: ticked_def)
  define c2 where "c2 = (notify_child cb r c1)\<lparr>h2_tx := tick (h2_tx c1)\<rparr>"
  have step: "children_loop env cb m c1 (last (m # us)) = children_loop env cb m c2 m"
    using notify_step [OF q wr tx tl, of env m] assms(7) by (simp add: c2_def)
  have gone: "conn_at c2 r = None" by (simp add: c2_def nc free_conn_def conn_at_def log_h2_def)
  have other: "conn_at c2 q = conn_at ?c q" if "q \<noteq> r" for q
    using that cc by (simp add: c2_def nc conn_free)
  have "path c2 m us" using ch(1) other s(2) by (intro path_other [of ?c m us r c2]) auto
  moreover have "\<forall>u\<in>set us. \<not> wants c2 u"
  proof
    fix u assume u: "u \<in> set us"
    then have "u \<noteq> r" using s(2) by auto
    from other [OF this] show "\<not> wants c2 u" using no(1) u by (simp add: wants_def)
  qed
  moreover have "truncated_send_len (h2_tx c2) = 0" using tl by (simp add: c2_def tick_def)
  ultimately obtain c3 where c3: "ticked c2 c3" "children_loop env cb m c2 m = children_loop env cb m c3 (last (m # us))"
    using skip_unwanted assms(7) by blast
  have "last (m # us) \<noteq> r" using s(2) by auto
  then have "map_option next_child_wsi (conn_at c3 (last (m # us))) = Some (Some r)" "conn_at c3 r = None"
    using other ticked_conn [OF c3(1)] gone q cc by simp_all
  then have "children_loop env cb m c3 (last (m # us)) = Some (Inl H2_undefined)"
    by (auto simp: children_loop.simps [of _ _ _ c3])
  moreover have "notify_children env cb c m = children_loop env cb m ?c m"
    using mw by (simp add: notify_children_def)
  ultimately show ?thesis using c1(2) step c3(2) by simp
qed

theorem http2_closed_stream_stays_listed_witness:
  "notify_children no_h2_env (\<lambda>r c. (1, c)) two_streams 0 = Some (Inl H2_undefined)"
  using http2_closed_stream_stays_listed [of two_streams 0 "[]" 2 "[1]" "\<lambda>r c. (1, c)" no_h2_env] two_streams
  by (simp add: no_h2_env_def all_env_def)

end
