(* ===== verification/Http_Response.thy ===== *)
theory Http_Response
  imports Hpack Output
begin

text \<open>
  The headers of an answer, \<^verbatim>\<open>lib/server.c\<close>: \<open>lws_add_http_header_by_name\<close> and its relatives, which write
  HTTP/1.0 themselves and give HTTP/2 to the functions of \<open>Hpack\<close>, and
  \<open>libwebsockets_return_http_status\<close>, which answers with an error page. As in \<open>Hpack\<close> a place to
  write is an offset and the buffer, and \<open>e\<close> is the offset of \<^verbatim>\<open>end\<close>.
\<close>

section \<open>Headers\<close>

abbreviation (input) WSI_TOKEN_HTTP_CONTENT_LENGTH :: nat where "WSI_TOKEN_HTTP_CONTENT_LENGTH \<equiv> 27"
abbreviation (input) WSI_TOKEN_HTTP_CONTENT_TYPE :: nat where "WSI_TOKEN_HTTP_CONTENT_TYPE \<equiv> 28"
abbreviation (input) WSI_TOKEN_HTTP_SERVER :: nat where "WSI_TOKEN_HTTP_SERVER \<equiv> 65"

type_synonym place = "nat \<times> byte list"

definition then_ok :: "'e + 'a \<Rightarrow> ('a \<Rightarrow> 'e + 'b) \<Rightarrow> 'e + 'b" where
  "then_ok r f = (case r of Inl e \<Rightarrow> Inl e | Inr x \<Rightarrow> f x)"

text \<open>A name that is NULL is \<open>None\<close>; HTTP/2 takes its length without a test.\<close>

definition add_name :: "byte list \<Rightarrow> place \<Rightarrow> nat \<Rightarrow> hpack_error + place" where
  "add_name name s e =
     then_ok (put_bytes s (take (e - fst s) name)) (\<lambda>s1.
       if fst s1 = e then Inl Hp_reject else put_bytes s1 [0x20])"

definition lws_add_http_header_by_name ::
    "bool \<Rightarrow> byte list option \<Rightarrow> byte list \<Rightarrow> place \<Rightarrow> nat \<Rightarrow> hpack_error + place" where
  "lws_add_http_header_by_name http2 name val s e =
     (if http2 then (case name of None \<Rightarrow> Inl Hp_overrun | Some n \<Rightarrow> lws_add_http2_header_by_name n val s e)
      else then_ok (case name of None \<Rightarrow> Inr s | Some n \<Rightarrow> add_name n s e) (\<lambda>s1.
             if e \<le> fst s1 + length val + 3 then Inl Hp_reject
             else put_bytes s1 (val @ [0x0d, 0x0a])))"

definition lws_finalize_http_header :: "bool \<Rightarrow> place \<Rightarrow> nat \<Rightarrow> hpack_error + place" where
  "lws_finalize_http_header http2 s e =
     (if http2 then Inr s
      else if int e - int (fst s) < 3 then Inl Hp_reject
      else put_bytes s [0x0d, 0x0a])"

definition lws_add_http_header_by_token ::
    "bool \<Rightarrow> nat \<Rightarrow> byte list \<Rightarrow> place \<Rightarrow> nat \<Rightarrow> hpack_error + place" where
  "lws_add_http_header_by_token http2 token val s e =
     (if http2 then lws_add_http2_header_by_token token val s e
      else case lws_token_to_string token of
             None \<Rightarrow> Inl Hp_reject
           | Some name \<Rightarrow> lws_add_http_header_by_name http2 (Some name) val s e)"

text \<open>The result and the new \<open>content_length\<close> and \<open>content_remain\<close>, \<open>None\<close> when they stay.\<close>

definition lws_add_http_header_content_length ::
    "bool \<Rightarrow> 64 word \<Rightarrow> place \<Rightarrow> nat \<Rightarrow> hpack_error + (place \<times> 64 word)" where
  "lws_add_http_header_content_length http2 content_length s e =
     then_ok (lws_add_http_header_by_token http2 WSI_TOKEN_HTTP_CONTENT_LENGTH (decimal (unat content_length)) s e)
       (\<lambda>s1. Inr (s1, content_length))"

section \<open>Status\<close>

definition err400 :: "string list" where
  "err400 = [''Bad Request'', ''Unauthorized'', ''Payment Required'', ''Forbidden'', ''Not Found'',
     ''Method Not Allowed'', ''Not Acceptable'', ''Proxy Auth Required'', ''Request Timeout'', ''Conflict'',
     ''Gone'', ''Length Required'', ''Precondition Failed'', ''Request Entity Too Large'',
     ''Request URI too Long'', ''Unsupported Media Type'', ''Requested Range Not Satisfiable'',
     ''Expectation Failed'']"

definition err500 :: "string list" where
  "err500 = [''Internal Server Error'', ''Not Implemented'', ''Bad Gateway'', ''Service Unavailable'',
     ''Gateway Timeout'', ''HTTP Version Not Supported'']"

definition status_description :: "nat \<Rightarrow> string" where
  "status_description code =
     (if 500 \<le> code \<and> code < 500 + length err500 then err500 ! (code - 500)
      else if 400 \<le> code \<and> code < 400 + length err400 then err400 ! (code - 400)
      else '''')"

text \<open>The array \<^verbatim>\<open>code_and_desc\<close> has 60 bytes; the second result is the new \<open>send_END_STREAM\<close>.\<close>

definition status_text :: "nat \<Rightarrow> byte list" where
  "status_text code =
     bytes ''HTTP/1.0 '' @ decimal code @ bytes '' '' @ bytes (status_description code)"

definition lws_add_http_header_status ::
    "bool \<Rightarrow> u32 \<Rightarrow> bool \<Rightarrow> place \<Rightarrow> nat \<Rightarrow> (hpack_error + place) \<times> bool" where
  "lws_add_http_header_status http2 code es s e =
     (if http2 then lws_add_http2_header_status code s e
      else if 60 \<le> length (status_text (unat code)) then (Inl Hp_overrun, es)
      else (lws_add_http_header_by_name False None (status_text (unat code)) s e, es))"

section \<open>The error page\<close>

text \<open>
  \<open>libwebsockets_return_http_status\<close> on an HTTP/1 connection; \<open>buf\<close> is the service buffer. \<open>None\<close> is a
  write that does not end.
\<close>

datatype resp_stop = Resp_overrun | Resp_tx tx_stop

definition status_headers :: "bool \<Rightarrow> u32 \<Rightarrow> place \<Rightarrow> nat \<Rightarrow> hpack_error + place" where
  "status_headers http2 code s e =
     then_ok (fst (lws_add_http_header_status http2 code False s e)) (\<lambda>s1.
     then_ok (lws_add_http_header_by_token http2 WSI_TOKEN_HTTP_SERVER (bytes ''libwebsockets'') s1 e) (\<lambda>s2.
     then_ok (lws_add_http_header_by_token http2 WSI_TOKEN_HTTP_CONTENT_TYPE (bytes ''text/html'') s2 e) (\<lambda>s3.
     lws_finalize_http_header http2 s3 e)))"

definition service_part :: "byte list \<Rightarrow> nat \<Rightarrow> tx_buf" where
  "service_part buf n = \<lparr>tb_id = 3, tb_mem = buf, tb_off = LWS_SEND_BUFFER_PRE_PADDING, tb_len = n\<rparr>"

definition status_page :: "u32 \<Rightarrow> byte list \<Rightarrow> byte list" where
  "status_page code html_body =
     bytes ''<html><body><h1>'' @ decimal (unat code) @ bytes ''</h1>'' @ html_body @ bytes ''</body></html>''"

definition libwebsockets_return_http_status ::
    "tx_env \<Rightarrow> byte list \<Rightarrow> tx_wsi \<Rightarrow> u32 \<Rightarrow> byte list \<Rightarrow> (resp_stop + int \<times> tx_wsi) option" where
  "libwebsockets_return_http_status env buf w code html_body =
     (case status_headers False code (LWS_SEND_BUFFER_PRE_PADDING, buf) (length buf) of
        Inl Hp_reject \<Rightarrow> Some (Inr (1, w))
      | Inl _ \<Rightarrow> Some (Inl Resp_overrun)
      | Inr (p, buf1) \<Rightarrow>
          (case libwebsocket_write env w (service_part buf1 (p - LWS_SEND_BUFFER_PRE_PADDING)) LWS_WRITE_HTTP_HEADERS of
             None \<Rightarrow> None
           | Some (Inl x) \<Rightarrow> Some (Inl (Resp_tx x))
           | Some (Inr (m, w1, _)) \<Rightarrow>
               if m \<noteq> 0 then Some (Inr (m, w1))
               else
                 (case put_bytes (LWS_SEND_BUFFER_PRE_PADDING, buf1) (status_page code html_body @ [0]) of
                    Inl _ \<Rightarrow> Some (Inl Resp_overrun)
                  | Inr (_, buf2) \<Rightarrow>
                      (case libwebsocket_write env w1 (service_part buf2 (length (status_page code html_body)))
                              LWS_WRITE_HTTP of
                         None \<Rightarrow> None
                       | Some (Inl x) \<Rightarrow> Some (Inl (Resp_tx x))
                       | Some (Inr (m, w2, _)) \<Rightarrow> Some (Inr (m, w2))))))"

section \<open>What is written\<close>

lemma put_bytes_in:
  "p + length xs \<le> length buf \<Longrightarrow> put_bytes (p, buf) xs = Inr (p + length xs, take p buf @ xs @ drop (p + length xs) buf)"
  by (simp add: put_bytes_def)

lemma put_bytes_twice:
  assumes "p + length xs + length ys \<le> length buf"
  shows "then_ok (put_bytes (p, buf) xs) (\<lambda>s. put_bytes s ys) = put_bytes (p, buf) (xs @ ys)"
  using assms by (simp add: then_ok_def put_bytes_def add_ac)

lemma header_line:
  assumes "p \<le> e" "e \<le> length buf" "xs = (case name of None \<Rightarrow> [] | Some n \<Rightarrow> n @ [0x20]) @ val @ [0x0d, 0x0a]"
  shows "lws_add_http_header_by_name False name val (p, buf) e =
    (if p + length xs + 1 < e then Inr (p + length xs, take p buf @ xs @ drop (p + length xs) buf) else Inl Hp_reject)"
proof (cases name)
  case None
  then show ?thesis using assms
    by (simp add: lws_add_http_header_by_name_def then_ok_def put_bytes_def)
next
  case (Some n)
  show ?thesis
  proof (cases "p + length n < e")
    case True
    then have "add_name n (p, buf) e = put_bytes (p, buf) (n @ [0x20])"
      using assms(2) put_bytes_twice [of p n "[0x20]" buf]
      by (simp add: add_name_def then_ok_def put_bytes_in)
    moreover have nm: "put_bytes (p, buf) (n @ [0x20]) =
        Inr (p + length (n @ [0x20]), take p buf @ (n @ [0x20]) @ drop (p + length (n @ [0x20])) buf)"
      using assms(2) True by (intro put_bytes_in) simp
    moreover have "put_bytes (p + length (n @ [0x20]), take p buf @ (n @ [0x20]) @ drop (p + length (n @ [0x20])) buf)
        (val @ [0x0d, 0x0a]) = put_bytes (p, buf) xs" if "p + length xs + 1 < e"
      using put_bytes_twice [of p "n @ [0x20]" "val @ [0x0d, 0x0a]" buf] that assms(2,3) Some nm
      by (simp add: then_ok_def)
    ultimately show ?thesis using Some assms True put_bytes_in [of p xs buf]
      by (auto simp: lws_add_http_header_by_name_def then_ok_def)
  next
    case False
    then have "length (take (e - p) n) = e - p" by simp
    then have "add_name n (p, buf) e = Inl Hp_reject"
      using assms(1,2) by (simp add: add_name_def then_ok_def put_bytes_def)
    then show ?thesis using Some assms False
      by (simp add: lws_add_http_header_by_name_def then_ok_def)
  qed
qed

text \<open>
  C38. A header line of HTTP/1 is written behind what is there as the name, a space, the value and the end of the
  line when there is room for it and two bytes to spare before the end, and refused otherwise, also
  when exactly one byte would be left; whatever the name and the value, nothing is written at or past
  the end.
\<close>

theorem http_header_line_written:
  assumes "p \<le> e" "e \<le> length buf" "xs = (case name of None \<Rightarrow> [] | Some n \<Rightarrow> n @ [0x20]) @ val @ [0x0d, 0x0a]"
  shows "lws_add_http_header_by_name False name val (p, buf) e =
    (if p + length xs + 1 < e then Inr (p + length xs, take p buf @ xs @ drop (p + length xs) buf) else Inl Hp_reject)"
  using assms by (rule header_line)

theorem http_header_line_written_witness:
  "lws_add_http_header_by_name False (Some (bytes ''age:'')) (bytes ''7'') (1, replicate 12 0) 12 =
     Inr (9, 0 # bytes ''age: 7'' @ [0x0d, 0x0a, 0, 0, 0]) \<and>
   lws_add_http_header_by_name False (Some (bytes ''age:'')) (bytes ''7'') (1, replicate 12 0) 10 = Inl Hp_reject"
  using http_header_line_written [of 1 12 "replicate 12 0" _ "Some (bytes ''age:'')" "bytes ''7''", OF _ _ refl]
    http_header_line_written [of 1 10 "replicate 12 0" _ "Some (bytes ''age:'')" "bytes ''7''", OF _ _ refl]
  by (simp add: bytes_def eval_nat_numeral)

section \<open>The page that is not sent\<close>

lemma decimal_length: "n < 10 ^ Suc k \<Longrightarrow> length (decimal n) \<le> Suc k"
proof (induction k arbitrary: n)
  case 0
  then show ?case by (simp add: decimal.simps [of n])
next
  case (Suc k)
  then have "n div 10 < 10 ^ Suc k" by (simp add: less_mult_imp_div_less)
  from Suc.IH [OF this] show ?case by (simp add: decimal.simps [of n])
qed

lemma description_length: "length (status_description code) \<le> 31"
proof -
  have "\<forall>s\<in>set err400. length s \<le> 31" "\<forall>s\<in>set err500. length s \<le> 31"
    by (simp_all add: err400_def err500_def)
  then have "i < length err400 \<Longrightarrow> length (err400 ! i) \<le> 31" "i < length err500 \<Longrightarrow> length (err500 ! i) \<le> 31" for i
    using nth_mem by blast+
  then show ?thesis by (auto simp: status_description_def)
qed

lemma status_text_length: "length (status_text (unat (code :: u32))) \<le> 51"
proof -
  have "unat code < 2 ^ 32" using unsigned_less [of code] by simp
  then have "unat code < 10 ^ Suc 9" by simp
  from decimal_length [OF this] description_length [of "unat code"]
  show ?thesis by (simp add: status_text_def bytes_def)
qed

definition status_head :: "u32 \<Rightarrow> byte list" where
  "status_head code =
     (status_text (unat code) @ [0x0d, 0x0a]) @
     ((bytes ''server:'' @ [0x20]) @ bytes ''libwebsockets'' @ [0x0d, 0x0a]) @
     ((bytes ''content-type:'' @ [0x20]) @ bytes ''text/html'' @ [0x0d, 0x0a]) @ [0x0d, 0x0a]"

lemma token_names:
  "lws_token_to_string 65 = Some (bytes ''server:'')" "lws_token_to_string 28 = Some (bytes ''content-type:'')"
  by (simp_all add: lws_token_to_string_def lex_strings_def)

lemma then_written:
  assumes "r = put_bytes (p, buf) xs" "p + length xs + length ys \<le> length buf"
    "\<And>b. length b = length buf \<Longrightarrow> f (p + length xs, b) = put_bytes (p + length xs, b) ys"
  shows "then_ok r f = put_bytes (p, buf) (xs @ ys)"
  using assms put_bytes_twice [of p xs ys buf] by (simp add: then_ok_def put_bytes_in)

lemma line_written:
  assumes "length b = e" "p + length xs + 1 < e" "xs = (case name of None \<Rightarrow> [] | Some n \<Rightarrow> n @ [0x20]) @ val @ [0x0d, 0x0a]"
  shows "lws_add_http_header_by_name False name val (p, b) e = put_bytes (p, b) xs"
  using header_line [of p e b xs name val] assms put_bytes_in [of p xs b] by simp

lemma status_head_parts:
  obtains t s c where "status_head code = t @ s @ c @ [0x0d, 0x0a]" "length t \<le> 53" "length s = 23" "length c = 25"
    "t = status_text (unat code) @ [0x0d, 0x0a]"
    "s = (bytes ''server:'' @ [0x20]) @ bytes ''libwebsockets'' @ [0x0d, 0x0a]"
    "c = (bytes ''content-type:'' @ [0x20]) @ bytes ''text/html'' @ [0x0d, 0x0a]"
  using status_text_length [of code] by (simp add: status_head_def bytes_def)

lemma status_headers_written:
  assumes "4096 \<le> length buf"
  shows "status_headers False code (18, buf) (length buf) = put_bytes (18, buf) (status_head code)"
proof -
  let ?e = "length buf"
  obtain t s c where h: "status_head code = t @ s @ c @ [0x0d, 0x0a]" "length t \<le> 53" "length s = 23" "length c = 25"
    "t = status_text (unat code) @ [0x0d, 0x0a]"
    "s = (bytes ''server:'' @ [0x20]) @ bytes ''libwebsockets'' @ [0x0d, 0x0a]"
    "c = (bytes ''content-type:'' @ [0x20]) @ bytes ''text/html'' @ [0x0d, 0x0a]"
    by (rule status_head_parts)
  have one: "fst (lws_add_http_header_status False code False (18, buf) ?e) = put_bytes (18, buf) t"
    using status_text_length [of code] line_written [of buf ?e 18 t None] h(2,5) assms
    by (simp add: lws_add_http_header_status_def)
  have two: "lws_add_http_header_by_token False 65 (bytes ''libwebsockets'') (p, b) ?e = put_bytes (p, b) s"
    if "length b = ?e" "p < 1000" for p b
    using line_written [of b ?e p s "Some (bytes ''server:'')"] that h(3,6) assms
    by (simp add: lws_add_http_header_by_token_def token_names)
  have three: "lws_add_http_header_by_token False 28 (bytes ''text/html'') (p, b) ?e = put_bytes (p, b) c"
    if "length b = ?e" "p < 1000" for p b
    using line_written [of b ?e p c "Some (bytes ''content-type:'')"] that h(4,7) assms
    by (simp add: lws_add_http_header_by_token_def token_names)
  have fin: "lws_finalize_http_header False (p, b) ?e = put_bytes (p, b) [0x0d, 0x0a]" if "p < 1000" for p b
    using that assms by (simp add: lws_finalize_http_header_def)
  show ?thesis
    unfolding status_headers_def h(1)
    using h(2-4) assms
    by (intro then_written one two three fin) simp_all
qed

text \<open>
  An answer with an error status never has its page: the write of the headers returns how many
  bytes it took, which the function takes for a failure, so it returns before the body is written.
  What goes out are the status line, two headers and the empty line.
\<close>

theorem status_page_never_sent:
  assumes "tx_idle env w" "\<not> clean_buffer w" "length buf = 4096"
  shows "\<exists>m v. libwebsockets_return_http_status env buf w code html_body = Some (Inr (m, v)) \<and> m \<noteq> 0 \<and>
    (m = -1 \<and> (\<exists>k. wire v = wire w @ take k (status_head code)) \<and> pending v = [] \<or>
     m = int (length (status_head code)) \<and> stream v = stream w @ status_head code)"
proof -
  let ?h = "status_head code"
  have l: "length ?h \<le> 103" "0 < length ?h" by (rule status_head_parts [of code]; simp)+
  define buf1 where "buf1 = take 18 buf @ ?h @ drop (18 + length ?h) buf"
  have hd: "status_headers False code (18, buf) 4096 = Inr (18 + length ?h, buf1)"
    using status_headers_written [of buf code] assms(3) l put_bytes_in [of 18 ?h buf] by (simp add: buf1_def)
  let ?b = "service_part buf1 (length ?h)"
  have b: "tb_ok ?b" "tb_len ?b \<noteq> 0" "tb_bytes ?b = ?h" "tb_len ?b = length ?h"
    using assms(3) l by (simp_all add: tb_ok_def service_part_def buf1_def tb_bytes_def)
  have wr: "libwebsocket_write env w ?b LWS_WRITE_HTTP_HEADERS =
      Some (map_sum id (\<lambda>(n, w1). (n, w1, ?b)) (lws_issue_raw env w ?b))"
    using b(2) by (simp add: libwebsocket_write_def send_raw_def sends_directly_def Let_def)
  show ?thesis
  proof (cases rule: issue_raw_new [OF assms(1) b(1,2), case_names took failed])
    case (took n v)
    then have "n = length ?h" using assms(2) b(4) by auto
    then show ?thesis
      using took b wr hd assms(3) l(2) by (intro exI [of _ "int n"] exI [of _ v])
        (simp add: libwebsockets_return_http_status_def)
  next
    case (failed k v)
    then show ?thesis
      using b wr hd assms(3) by (intro exI [of _ "-1"] exI [of _ v]) (auto simp: libwebsockets_return_http_status_def)
  qed
qed

theorem status_page_never_sent_witness:
  "\<exists>m v. libwebsockets_return_http_status all_env (replicate 4096 0) (new_tx LWS_CONNMODE_HTTP_SERVING) 404
     (bytes ''gone'') = Some (Inr (m, v)) \<and> m \<noteq> 0"
  using status_page_never_sent [OF tx_instances(1), of LWS_CONNMODE_HTTP_SERVING "replicate 4096 0" 404 "bytes ''gone''"]
  by (auto simp: new_tx_def)

end
