(* ===== verification/Client.thy ===== *)
theory Client
  imports Service
begin

text \<open>
  The client's side of a connection up to the handshake: \<open>libwebsocket_client_connect\<close> and
  \<open>libwebsocket_client_connect_2\<close> of \<^verbatim>\<open>lib/client-handshake.c\<close> and the state machine
  \<open>lws_client_socket_service\<close> of \<^verbatim>\<open>lib/client.c\<close>, without TLS, on IPv4. The request and the check of the
  answer are those of the client handshake, the header parser, the poll table and closing those of
  their components.
\<close>

unbundle bit_operations_syntax

section \<open>State\<close>

abbreviation (input) WSI_TOKEN_CLIENT_PEER_ADDRESS :: nat where "WSI_TOKEN_CLIENT_PEER_ADDRESS \<equiv> 75"
abbreviation (input) LWS_POLLHUP :: u16 where "LWS_POLLHUP \<equiv> 0x18" \<comment> \<open>\<^verbatim>\<open>POLLHUP|POLLERR\<close>\<close>
abbreviation (input) LWS_CLOSE_STATUS_PROTOCOL_ERR :: "16 word" where "LWS_CLOSE_STATUS_PROTOCOL_ERR \<equiv> 1002"
abbreviation (input) SPEC_LATEST_SUPPORTED :: int where "SPEC_LATEST_SUPPORTED \<equiv> 13"

datatype client_event = LWS_CALLBACK_CLIENT_FILTER_PRE_ESTABLISH | LWS_CALLBACK_CLIENT_ESTABLISHED

text \<open>
  A client: the connection as closing sees it (with the poll table of the context), the header
  parser with the table, \<open>c_port\<close>, \<open>initial_handshake_hash_base64\<close>, the service buffer of the context, how
  often \<open>recv\<close> has been called, the number of the protocol, whether the user's memory is his own, and
  the calls of the user.
\<close>

record client =
  cs_conn :: conn
  cs_hdr :: hdr_wsi
  cs_port :: u16
  cs_hash :: "byte list"
  cs_buffer :: "byte list"
  cs_reads :: nat
  cs_protocol :: nat
  cs_external :: bool
  cs_told :: "client_event list"

datatype connect_errno = EALREADY | EINPROGRESS | CONNECT_EWOULDBLOCK | EISCONN | CONNECT_other

datatype recv_res = Received "byte list" | Recv_failed errno_t

text \<open>
  What connecting calls: closing and the handshake with their environments; address and port of a
  proxy; whether a name is found; \<open>socket\<close>, its options, the interface (whether it is found and can be
  bound); the \<open>errno\<close> of a failed \<open>connect\<close>; \<open>recv\<close>, call by call; the limits of header lengths; the
  byte on the stack that \<open>recv\<close> is to fill; whether a protocol has user memory; \<open>malloc\<close> for the
  connection and its header table; the answer of the extensions that could take the connection.
\<close>

record connect_env =
  ke_close :: close_env
  ke_hs :: client_env
  ke_proxy :: "(byte list \<times> u16) option"
  ke_resolve :: "byte list \<Rightarrow> bool"
  ke_socket :: int
  ke_sockopts_ok :: bool
  ke_iface :: "(bool \<times> bool) option"
  ke_connect :: "connect_errno option"
  ke_recv :: "nat \<Rightarrow> recv_res"
  ke_limits :: "nat list option"
  ke_stack :: byte
  ke_session_data :: "nat \<Rightarrow> bool"
  ke_malloc_wsi :: bool
  ke_malloc_table :: "allocated_headers option"
  ke_ext_connect :: int

text \<open>
  How a client goes wrong: in closing or the poll table; memory out of bounds; a NULL dereferenced; a
  connection used after it was freed.
\<close>

datatype client_fail = Cf_close close_stop | Cf_overrun | Cf_null | Cf_freed

type_synonym 'a client_result = "(client_fail + 'a \<times> client) option"

definition freed :: "client \<Rightarrow> bool" where
  "freed k \<longleftrightarrow> Res_wsi \<in> set (cn_freed (cs_conn k))"

abbreviation cs_mode :: "client \<Rightarrow> connection_mode" where
  "cs_mode k \<equiv> cn_mode (cs_conn k)"

definition on_conn :: "(conn \<Rightarrow> conn) \<Rightarrow> client \<Rightarrow> client" where
  "on_conn f k = k\<lparr>cs_conn := f (cs_conn k)\<rparr>"

definition set_client_mode :: "connection_mode \<Rightarrow> client \<Rightarrow> client" where
  "set_client_mode m = on_conn (\<lambda>c. c\<lparr>cn_tx := (cn_tx c)\<lparr>tx_mode := m\<rparr>\<rparr>)"

definition client_timeout :: "connect_env \<Rightarrow> pending_timeout \<Rightarrow> int \<Rightarrow> client \<Rightarrow> client" where
  "client_timeout env reason secs = on_conn (libwebsocket_set_timeout (ke_close env) reason secs)"

text \<open>The operations of the poll table and closing, on a client; \<open>r\<close> is what is returned after the close.\<close>

definition on_poll :: "(poll_ctx \<Rightarrow> nat \<Rightarrow> poll_result) \<Rightarrow> client \<Rightarrow> client_fail + int \<times> client" where
  "on_poll f k =
     (case f (cn_poll (cs_conn k)) (cn_id (cs_conn k)) of
        Inl e \<Rightarrow> Inl (Cf_close (Close_poll e))
      | Inr (n, p) \<Rightarrow> Inr (n, on_conn (\<lambda>c. c\<lparr>cn_poll := p\<rparr>) k))"

definition close_client :: "connect_env \<Rightarrow> 16 word \<Rightarrow> 'a \<Rightarrow> client \<Rightarrow> 'a client_result" where
  "close_client env reason r k =
     map_option (map_sum Cf_close (\<lambda>c. (r, k\<lparr>cs_conn := c\<rparr>)))
       (libwebsocket_close_and_free_session (ke_close env) (cs_conn k) reason)"

abbreviation (input) client_tid :: "connect_env \<Rightarrow> int" where
  "client_tid env \<equiv> ce_tid (ke_close env)"

section \<open>The request\<close>

text \<open>
  The case \<open>LWS_CONNMODE_WS_CLIENT_ISSUE_HANDSHAKE2\<close>. When the request cannot be made for want of
  randomness, the connection is closed there and once more here.
\<close>

definition issue_handshake2 :: "connect_env \<Rightarrow> client \<Rightarrow> int client_result" where
  "issue_handshake2 env k =
     (case libwebsockets_generate_client_handshake (ke_hs env) (hdr_ah (cs_hdr k)) (ietf_spec_revision (cs_hdr k)) of
        Inl Hs_overrun \<Rightarrow> Some (Inl Cf_null)
      | Inl (Hs_bail _) \<Rightarrow>
          (case close_client env LWS_CLOSE_STATUS_NOSTATUS (0::int) k of
             None \<Rightarrow> None
           | Some (Inl e) \<Rightarrow> Some (Inl e)
           | Some (Inr (_, k1)) \<Rightarrow>
               if freed k1 then Some (Inl Cf_freed) else close_client env LWS_CLOSE_STATUS_NOSTATUS 0 k1)
      | Inr (req, hash) \<Rightarrow>
          if length (cs_buffer k) \<le> length req then Some (Inl Cf_overrun)
          else
            case lws_ssl_capable_write_no_ssl (ce_tx (ke_close env)) (cn_tx (cs_conn k)) req of
              (n, t) \<Rightarrow>
                let k1 = on_conn (\<lambda>c. c\<lparr>cn_tx := t\<rparr>)
                           (k\<lparr>cs_hash := hash, cs_buffer := req @ [0] @ drop (length req + 1) (cs_buffer k)\<rparr>)
                in if n = LWS_SSL_CAPABLE_ERROR then close_client env LWS_CLOSE_STATUS_NOSTATUS 0 k1
                   else
                     case (if n = LWS_SSL_CAPABLE_MORE_SERVICE
                           then on_poll (libwebsocket_callback_on_writable (ce_request_writeable (ke_close env)) (client_tid env)) k1
                           else Inr (0, k1)) of
                       Inl e \<Rightarrow> Some (Inl e)
                     | Inr (_, k2) \<Rightarrow>
                         Some (Inr (0, client_timeout env PENDING_TIMEOUT_AWAITING_SERVER_RESPONSE AWAITING_TIMEOUT
                           (set_client_mode LWS_CONNMODE_WS_CLIENT_WAITING_SERVER_REPLY
                             (k2\<lparr>cs_hdr := (cs_hdr k2)\<lparr>parser_state := WSI_TOKEN_NAME_PART, lextable_pos := 0\<rparr>\<rparr>)))))"

text \<open>The case \<open>LWS_CONNMODE_WS_CLIENT_ISSUE_HANDSHAKE\<close>.\<close>

definition issue_handshake :: "connect_env \<Rightarrow> client \<Rightarrow> int client_result" where
  "issue_handshake env k =
     (case on_poll (\<lambda>c p. lws_change_pollfd (client_tid env) c p LWS_POLLOUT 0) k of
        Inl e \<Rightarrow> Some (Inl e)
      | Inr (n, k1) \<Rightarrow>
          if n \<noteq> 0 then Some (Inr (-1, k1))
          else issue_handshake2 env
                 (client_timeout env PENDING_TIMEOUT_AWAITING_CLIENT_HS_SEND AWAITING_TIMEOUT
                   (set_client_mode LWS_CONNMODE_WS_CLIENT_ISSUE_HANDSHAKE2 k1)))"

section \<open>The proxy\<close>

text \<open>The digits of \<open>%u\<close>.\<close>

fun port_digits :: "nat \<Rightarrow> byte list" where
  "port_digits n = (if n < 10 then [] else port_digits (n div 10)) @ [word_of_nat (0x30 + n mod 10)]"

declare port_digits.simps [simp del]

definition proxy_request :: "byte list \<Rightarrow> u16 \<Rightarrow> byte list" where
  "proxy_request host port =
     bytes ''CONNECT '' @ host @ bytes '':'' @ port_digits (unat port) @ bytes '' HTTP/1.0'' @ crlf @
     bytes ''User-agent: libwebsockets'' @ crlf @ crlf"

definition proxy_ok :: "byte list" where
  "proxy_ok = bytes ''HTTP/1.0 200 ''"

text \<open>The case \<open>LWS_CONNMODE_WS_CLIENT_WAITING_PROXY_REPLY\<close>; \<open>recv\<close> leaves what it does not write.\<close>

definition proxy_reply :: "connect_env \<Rightarrow> u16 \<Rightarrow> client \<Rightarrow> int client_result" where
  "proxy_reply env ev k =
     (if ev AND LWS_POLLHUP \<noteq> 0 then close_client env LWS_CLOSE_STATUS_NOSTATUS 0 k
      else
        let k1 = k\<lparr>cs_reads := cs_reads k + 1\<rparr>
        in case ke_recv env (cs_reads k) of
             Recv_failed e \<Rightarrow>
               if e = EAGAIN then Some (Inr (0, k1)) else close_client env LWS_CLOSE_STATUS_NOSTATUS 0 k1
           | Received bs \<Rightarrow>
               let got = take (length (cs_buffer k)) bs;
                   m = (got @ drop (length got) (cs_buffer k))[13 := 0];
                   k2 = k1\<lparr>cs_buffer := m\<rparr>
               in if c_string m 0 \<noteq> Some proxy_ok then close_client env LWS_CLOSE_STATUS_NOSTATUS 0 k2
                  else issue_handshake env (client_timeout env NO_PENDING_TIMEOUT 0 k2))"

section \<open>The answer of the server\<close>

text \<open>From the label \<open>bail2\<close> on: the pointer to the headers is freed, not cleared.\<close>

definition bail2 :: "connect_env \<Rightarrow> 16 word \<Rightarrow> client \<Rightarrow> int client_result" where
  "bail2 env reason k =
     close_client env reason 1
       (on_conn (\<lambda>c. give_back (union_head (cn_u c)) c)
         (on_conn (\<lambda>c. if cn_protocol c then tell LWS_CALLBACK_CLIENT_CONNECTION_ERROR c else c) k))"

text \<open>The connection becomes a websocket: what is set, freed and cleared before the receive buffer is got.\<close>

definition become_websocket :: "connect_env \<Rightarrow> client \<Rightarrow> client" where
  "become_websocket env k =
     on_conn (\<lambda>c. (give_back (union_head (cn_u c)) c)
         \<lparr>cn_u := U_ws False None 0,
          cn_tx := (cn_tx c)\<lparr>tx_state := WSI_STATE_ESTABLISHED, tx_mode := LWS_CONNMODE_WS_CLIENT, tx_nonce := [0, 0, 0, 0],
            tx_mask_index := 0, close_reason := 0, inside_frame := False, clean_buffer := False\<rparr>,
          cn_poll := upd_wsi (cn_id c) (\<lambda>w. w\<lparr>rxflow_change_to := LWS_RXFLOW_ALLOW\<rparr>) (cn_poll c)\<rparr>)
       (client_timeout env NO_PENDING_TIMEOUT 0 (k\<lparr>cs_told := cs_told k @ [LWS_CALLBACK_CLIENT_FILTER_PRE_ESTABLISH]\<rparr>))"

text \<open>
  The protocol (NULL as \<open>None\<close>) and the number of extensions the answer selected, and the user space
  of the connection.
\<close>

definition select_answer :: "nat option \<Rightarrow> nat list \<Rightarrow> client \<Rightarrow> client" where
  "select_answer p active k =
     on_conn (\<lambda>c. c\<lparr>cn_protocol := (p \<noteq> None), cn_extensions := length active,
         cn_poll := upd_wsi (cn_id c) (\<lambda>w. w\<lparr>pw_protocol := (case p of None \<Rightarrow> pw_protocol w | Some n \<Rightarrow> n)\<rparr>) (cn_poll c)\<rparr>)
       (k\<lparr>cs_protocol := (case p of None \<Rightarrow> cs_protocol k | Some n \<Rightarrow> n)\<rparr>)"

definition get_user_space :: "connect_env \<Rightarrow> nat \<Rightarrow> client \<Rightarrow> client" where
  "get_user_space env p k =
     on_conn (\<lambda>c. c\<lparr>cn_user_space := cn_user_space c \<or> ke_session_data env p \<and> \<not> cs_external k\<rparr>) k"

text \<open>
  \<open>lws_client_interpret_server_handshake\<close> with what it does to the connection: the checks of the
  client handshake, then the change of the union, the receive buffer and the socket option. (What
  the copy of the extensions leaves in the service buffer is not followed.)
\<close>

definition interpret_answer :: "connect_env \<Rightarrow> client \<Rightarrow> int client_result" where
  "interpret_answer env k =
     (case lws_client_interpret_server_handshake ((ke_hs env)\<lparr>cl_rx_buffer_ok := True, cl_setsockopt_ok := True\<rparr>)
             (hdr_ah (cs_hdr k)) (cs_hash k) (cs_buffer k) of
        Inl (Client_bail2 p active) \<Rightarrow> bail2 env LWS_CLOSE_STATUS_PROTOCOL_ERR (select_answer p active k)
      | Inl Client_bail3 \<Rightarrow> bail2 env LWS_CLOSE_STATUS_NOSTATUS (on_conn free_head k)
      | Inl Client_overrun \<Rightarrow> Some (Inl Cf_overrun)
      | Inl Client_null \<Rightarrow> Some (Inl Cf_null)
      | Inr (p, active) \<Rightarrow>
          let k1 = become_websocket env (get_user_space env p (select_answer (Some p) active k))
          in if \<not> cl_rx_buffer_ok (ke_hs env) then bail2 env LWS_CLOSE_STATUS_PROTOCOL_ERR k1
             else
               let k2 = on_conn (\<lambda>c. c\<lparr>cn_u := U_ws True None 0\<rparr>) k1
               in if \<not> cl_setsockopt_ok (ke_hs env) then bail2 env LWS_CLOSE_STATUS_NOSTATUS (on_conn free_head k2)
                  else Some (Inr (0, k2\<lparr>cs_told := cs_told k2 @ [LWS_CALLBACK_CLIENT_ESTABLISHED]\<rparr>)))"

text \<open>
  \<open>lws_ssl_capable_read_no_ssl\<close> for one byte: the number of bytes, or the error; a byte that is not
  received leaves the variable \<open>c\<close> as it is.
\<close>

definition lws_ssl_capable_read_no_ssl :: "connect_env \<Rightarrow> byte \<Rightarrow> nat \<Rightarrow> int \<times> byte" where
  "lws_ssl_capable_read_no_ssl env c i =
     (case ke_recv env i of
        Received [] \<Rightarrow> (0, c)
      | Received (b # bs) \<Rightarrow> (1, b)
      | Recv_failed e \<Rightarrow> (LWS_SSL_CAPABLE_ERROR, c))"

text \<open>The loop that reads the headers byte by byte; the boolean is false at \<open>goto bail3\<close>.\<close>

partial_function (option) read_answer :: "connect_env \<Rightarrow> byte \<Rightarrow> client \<Rightarrow> bool client_result" where
  "read_answer env c k =
     (if parser_state (cs_hdr k) = WSI_PARSING_COMPLETE then Some (Inr (True, k))
      else
        case lws_ssl_capable_read_no_ssl env c (cs_reads k) of
          (n, c1) \<Rightarrow>
            let k1 = k\<lparr>cs_reads := cs_reads k + 1\<rparr>
            in if n = LWS_SSL_CAPABLE_ERROR then Some (Inr (False, k1))
               else
                 case libwebsocket_parse (ke_limits env) (cs_hdr k) c1 of
                   Inl Reject \<Rightarrow> Some (Inr (False, k1))
                 | Inl Overrun \<Rightarrow> Some (Inl Cf_overrun)
                 | Inr h \<Rightarrow> read_answer env c1 (k1\<lparr>cs_hdr := h\<rparr>))"

text \<open>The case \<open>LWS_CONNMODE_WS_CLIENT_WAITING_SERVER_REPLY\<close>, with the label \<open>bail3\<close>.\<close>

definition server_reply :: "connect_env \<Rightarrow> u16 \<Rightarrow> client \<Rightarrow> int client_result" where
  "server_reply env ev k =
     (if ev AND LWS_POLLHUP \<noteq> 0 then close_client env LWS_CLOSE_STATUS_NOSTATUS (-1) k
      else if ev AND LWS_POLLIN = 0 then Some (Inr (0, k))
      else
        case read_answer env (ke_stack env) k of
          None \<Rightarrow> None
        | Some (Inl e) \<Rightarrow> Some (Inl e)
        | Some (Inr (ok, k1)) \<Rightarrow>
            if ok then interpret_answer env k1 else close_client env LWS_CLOSE_STATUS_NOSTATUS (-1) k1)"

text \<open>\<open>lws_handshake_client\<close>: the bytes of a packet, one by one, to the frame parser of the client.\<close>

definition lws_handshake_client :: "rx_env \<Rightarrow> connection_mode \<Rightarrow> ws_wsi \<Rightarrow> byte list \<Rightarrow> rx_stop + ws_wsi" where
  "lws_handshake_client env mode w bs =
     (if mode \<in> {LWS_CONNMODE_WS_CLIENT_WAITING_PROXY_REPLY, LWS_CONNMODE_WS_CLIENT_ISSUE_HANDSHAKE,
          LWS_CONNMODE_WS_CLIENT_WAITING_SERVER_REPLY, LWS_CONNMODE_WS_CLIENT_WAITING_EXTENSION_CONNECT,
          LWS_CONNMODE_WS_CLIENT}
      then run_bytes (libwebsocket_client_rx_sm env) w bs else Inr w)"

section \<open>Connecting\<close>

text \<open>The label \<open>oom4\<close>: headers and connection are freed, nothing else is done.\<close>

definition oom4 :: "client \<Rightarrow> bool client_result" where
  "oom4 k = Some (Inr (False, on_conn (\<lambda>c. give_back (union_head (cn_u c) @ [Res_wsi]) c) k))"

text \<open>
  A socket for a connection without one. The boolean is \<open>None\<close> for \<open>goto oom4\<close>, false for \<open>goto failed\<close>;
  a full table is not noticed.
\<close>

definition open_socket :: "connect_env \<Rightarrow> client \<Rightarrow> client_fail + bool option \<times> client" where
  "open_socket env k =
     (let c = cs_conn k; s = ke_socket env;
          k1 = on_conn (\<lambda>c. c\<lparr>cn_poll := upd_wsi (cn_id c) (\<lambda>w. w\<lparr>sock := s\<rparr>) (cn_poll c)\<rparr>) k;
          closed = on_conn (give_back [Res_socket s])
      in if 0 \<le> sock (pwsi (cn_poll c) (cn_id c)) then Inr (Some True, k)
         else if s < 0 then Inr (None, k1)
         else if \<not> ke_sockopts_ok env then Inr (None, closed k1)
         else
           case on_poll insert_wsi_socket_into_fds (set_client_mode LWS_CONNMODE_WS_CLIENT_WAITING_CONNECT k1) of
             Inl e \<Rightarrow> Inl e
           | Inr (_, k2) \<Rightarrow>
               let k3 = client_timeout env PENDING_TIMEOUT_AWAITING_CONNECT_RESPONSE AWAITING_TIMEOUT k2
               in case ke_iface env of
                    Some (found, bound) \<Rightarrow> if found \<and> bound then Inr (Some True, k3) else Inr (Some False, closed k3)
                  | None \<Rightarrow> Inr (Some True, k3))"

text \<open>
  \<open>libwebsocket_service_fd\<close> as it is called here, with \<open>POLLIN\<close> for the socket of this connection: the
  connection found by the descriptor is one to issue the handshake for. Another one found there has
  been freed, since its descriptor is in use again. (The timeouts of other connections, checked by the
  first call in a second, and the turn of the listen socket do not concern this one, whose timeout has
  just been set.)
\<close>

definition service_own_fd :: "connect_env \<Rightarrow> client \<Rightarrow> int client_result" where
  "service_own_fd env k =
     (let p = cn_poll (cs_conn k); i = cn_id (cs_conn k); s = sock (pwsi p i)
      in if s < 0 \<or> int (length (lws_lookup p)) \<le> s then Some (Inl Cf_overrun)
         else case lws_lookup p ! nat s of
                None \<Rightarrow> Some (Inr (0, k))
              | Some q \<Rightarrow> if q = i then issue_handshake env k else Some (Inl Cf_freed))"

text \<open>From \<open>connected\<close> on. The boolean tells that a connection is returned, not NULL.\<close>

definition after_connect :: "connect_env \<Rightarrow> byte list \<Rightarrow> client \<Rightarrow> bool client_result" where
  "after_connect env request k =
     (case ke_proxy env of
        Some (address, port) \<Rightarrow>
          (case lws_hdr_simple_create (hdr_ah (cs_hdr k)) WSI_TOKEN_CLIENT_PEER_ADDRESS address of
             Inl Overrun \<Rightarrow> Some (Inl Cf_overrun)
           | Inl Reject \<Rightarrow> close_client env LWS_CLOSE_STATUS_NOSTATUS False k
           | Inr a \<Rightarrow>
               (case lws_ssl_capable_write_no_ssl (ce_tx (ke_close env)) (cn_tx (cs_conn k)) request of
                  (n, t) \<Rightarrow>
                    let k1 = on_conn (\<lambda>c. c\<lparr>cn_tx := t\<rparr>) (k\<lparr>cs_hdr := (cs_hdr k)\<lparr>hdr_ah := a\<rparr>, cs_port := port\<rparr>)
                    in if n < 0 then close_client env LWS_CLOSE_STATUS_NOSTATUS False k1
                       else Some (Inr (True, set_client_mode LWS_CONNMODE_WS_CLIENT_WAITING_PROXY_REPLY
                              (client_timeout env PENDING_TIMEOUT_AWAITING_PROXY_RESPONSE AWAITING_TIMEOUT k1)))))
      | None \<Rightarrow>
          (case service_own_fd env (set_client_mode LWS_CONNMODE_WS_CLIENT_ISSUE_HANDSHAKE
                  (client_timeout env PENDING_TIMEOUT_SENT_CLIENT_HANDSHAKE AWAITING_TIMEOUT k)) of
             None \<Rightarrow> None
           | Some (Inl e) \<Rightarrow> Some (Inl e)
           | Some (Inr (n, k1)) \<Rightarrow>
               if n < 0 then close_client env LWS_CLOSE_STATUS_NOSTATUS False k1 else Some (Inr (n = 0, k1))))"

text \<open>
  The address that is looked up and the text for the proxy, which is put together in the service
  buffer: the address in the header table is the proxy's own after the first of two attempts.
\<close>

definition connect_address :: "connect_env \<Rightarrow> client \<Rightarrow> client_fail + byte list \<times> byte list \<times> client" where
  "connect_address env k =
     (case hdr_string (hdr_ah (cs_hdr k)) WSI_TOKEN_CLIENT_PEER_ADDRESS of
        None \<Rightarrow> Inl Cf_null
      | Some None \<Rightarrow> Inl Cf_overrun
      | Some (Some host) \<Rightarrow>
          (case ke_proxy env of
             None \<Rightarrow> Inr (host, [], k)
           | Some (address, port) \<Rightarrow>
               let text = proxy_request host (cs_port k)
               in if length (cs_buffer k) \<le> length text then Inl Cf_overrun
                  else Inr (address, text, k\<lparr>cs_buffer := text @ [0] @ drop (length text + 1) (cs_buffer k)\<rparr>)))"

definition libwebsocket_client_connect_2 :: "connect_env \<Rightarrow> client \<Rightarrow> bool client_result" where
  "libwebsocket_client_connect_2 env k =
     (case connect_address env k of
        Inl e \<Rightarrow> Some (Inl e)
      | Inr (ads, text, k1) \<Rightarrow>
          if \<not> ke_resolve env ads then oom4 k1
          else
            case open_socket env k1 of
              Inl e \<Rightarrow> Some (Inl e)
            | Inr (None, k2) \<Rightarrow> oom4 k2
            | Inr (Some False, k2) \<Rightarrow> close_client env LWS_CLOSE_STATUS_NOSTATUS False k2
            | Inr (Some True, k2) \<Rightarrow>
                (case ke_connect env of
                   None \<Rightarrow> after_connect env text k2
                 | Some e \<Rightarrow>
                     if e = EALREADY \<or> e = EINPROGRESS \<or> e = CONNECT_EWOULDBLOCK then
                       (case on_poll (\<lambda>c p. lws_change_pollfd (client_tid env) c p 0 LWS_POLLOUT) k2 of
                          Inl f \<Rightarrow> Some (Inl f)
                        | Inr (n, k3) \<Rightarrow> if n \<noteq> 0 then oom4 k3 else Some (Inr (True, k3)))
                     else if e \<noteq> EISCONN then close_client env LWS_CLOSE_STATUS_NOSTATUS False k2
                     else after_connect env text k2))"

text \<open>The memory of a new connection: cleared, without socket and header table.\<close>

definition new_client :: "poll_ctx \<Rightarrow> nat \<Rightarrow> byte list \<Rightarrow> client" where
  "new_client p i buffer =
     \<lparr>cs_conn = new_server_conn
        \<lparr>cn_tx := (cn_tx new_server_conn)\<lparr>tx_state := WSI_STATE_CLIENT_UNCONNECTED\<rparr>, cn_id := i, cn_u := U_hdr False,
         cn_protocol := False,
         cn_poll := upd_wsi i (\<lambda>_. \<lparr>sock = -1, position_in_fds_table = 0, pw_protocol = 0, rxflow_change_to = 0,
           rxflow_buffer = None, rxflow_len = 0, rxflow_pos = 0\<rparr>) p\<rparr>,
      cs_hdr = \<lparr>hdr_ah = \<lparr>ah_next_frag_index = 0, ah_pos = 0, ah_frag_index = [], ah_frags = [], ah_data = []\<rparr>,
        lextable_pos = 0, current_token_limit = 0, parser_state = 0, ups = URIPS_IDLE, ues = URIES_IDLE, esc_stash = 0,
        ietf_spec_revision = 0, hdr_parsing_completed = False\<rparr>,
      cs_port = 0, cs_hash = [], cs_buffer = buffer, cs_reads = 0, cs_protocol = 0, cs_external = False, cs_told = []\<rparr>"

text \<open>The strings the connection has to remember, each filed under its token.\<close>

fun create_headers :: "(nat \<times> byte list) list \<Rightarrow> allocated_headers \<Rightarrow> parse_error + allocated_headers" where
  "create_headers [] a = Inr a"
| "create_headers ((h, s) # hs) a =
     (case lws_hdr_simple_create a h s of Inl e \<Rightarrow> Inl e | Inr b \<Rightarrow> create_headers hs b)"

definition client_strings ::
    "byte list \<Rightarrow> byte list \<Rightarrow> byte list \<Rightarrow> byte list option \<Rightarrow> byte list option \<Rightarrow> (nat \<times> byte list) list" where
  "client_strings address path host origin protocol =
     [(WSI_TOKEN_CLIENT_PEER_ADDRESS, address), (WSI_TOKEN_CLIENT_URI, path), (WSI_TOKEN_CLIENT_HOST, host)] @
     (case origin of None \<Rightarrow> [] | Some s \<Rightarrow> [(WSI_TOKEN_CLIENT_ORIGIN, s)]) @
     (case protocol of None \<Rightarrow> [] | Some s \<Rightarrow> [(WSI_TOKEN_CLIENT_SENT_PROTOCOLS, s)])"

text \<open>
  \<open>libwebsocket_client_connect\<close> in a context with the poll table \<open>p\<close>; the new connection is the one at
  \<open>i\<close>. The library is built without TLS.
\<close>

definition libwebsocket_client_connect ::
    "connect_env \<Rightarrow> poll_ctx \<Rightarrow> nat \<Rightarrow> byte list \<Rightarrow> byte list \<Rightarrow> int \<Rightarrow> bool \<Rightarrow> byte list \<Rightarrow> byte list \<Rightarrow>
       byte list option \<Rightarrow> byte list option \<Rightarrow> int \<Rightarrow> bool client_result" where
  "libwebsocket_client_connect env p i buffer address port ssl path host origin protocol version =
     (let k = new_client p i buffer;
          revision = word_of_int (if version = -1 then SPEC_LATEST_SUPPORTED else version);
          k0 = k\<lparr>cs_hdr := (cs_hdr k)\<lparr>ietf_spec_revision := revision\<rparr>,
                 cs_conn := (cs_conn k)\<lparr>cn_tx := (cn_tx (cs_conn k))\<lparr>tx_spec_revision := revision\<rparr>\<rparr>\<rparr>;
          free = (\<lambda>rs k. Some (Inr (False, on_conn (give_back rs) k)))
      in if \<not> ke_malloc_wsi env then Some (Inr (False, k))
         else if ssl then free [Res_wsi] k0
         else
           case lws_allocate_header_table (ke_malloc_table env) (cs_hdr k0) of
             Inl _ \<Rightarrow> free [Res_wsi] k0
           | Inr h \<Rightarrow>
               let k1 = on_conn (\<lambda>c. c\<lparr>cn_u := U_hdr True\<rparr>) (k0\<lparr>cs_hdr := h, cs_port := word_of_int port\<rparr>)
               in case create_headers (client_strings address path host origin protocol) (hdr_ah h) of
                    Inl Overrun \<Rightarrow> Some (Inl Cf_overrun)
                  | Inl Reject \<Rightarrow> free [Res_headers, Res_wsi] k1
                  | Inr a \<Rightarrow>
                      let k2 = on_conn (\<lambda>c. c\<lparr>cn_protocol := True\<rparr>) (k1\<lparr>cs_hdr := h\<lparr>hdr_ah := a\<rparr>\<rparr>)
                      in if 0 < ke_ext_connect env then
                           Some (Inr (True, set_client_mode LWS_CONNMODE_WS_CLIENT_WAITING_EXTENSION_CONNECT
                             (client_timeout env PENDING_TIMEOUT_AWAITING_EXTENSION_CONNECT_RESPONSE AWAITING_TIMEOUT k2)))
                         else libwebsocket_client_connect_2 env k2)"

text \<open>What \<open>libwebsocket_client_connect_extended\<close> adds: memory of the user for the connection returned.\<close>

definition attach_userdata :: "bool \<Rightarrow> bool client_result \<Rightarrow> bool client_result" where
  "attach_userdata userdata r =
     (case r of
        Some (Inr (True, k)) \<Rightarrow>
          if freed k then Some (Inl Cf_freed)
          else Some (Inr (True, if \<not> cn_user_space (cs_conn k) \<and> userdata then k\<lparr>cs_external := True\<rparr> else k))
      | _ \<Rightarrow> r)"

section \<open>The state machine\<close>

definition lws_client_socket_service :: "connect_env \<Rightarrow> u16 \<Rightarrow> client \<Rightarrow> int client_result" where
  "lws_client_socket_service env ev k =
     (case cs_mode k of
        LWS_CONNMODE_WS_CLIENT_WAITING_CONNECT \<Rightarrow>
          map_option (map_sum id (\<lambda>(ok, k1). (if ok then 0 else -1, k1))) (libwebsocket_client_connect_2 env k)
      | LWS_CONNMODE_WS_CLIENT_WAITING_PROXY_REPLY \<Rightarrow> proxy_reply env ev k
      | LWS_CONNMODE_WS_CLIENT_ISSUE_HANDSHAKE \<Rightarrow> issue_handshake env k
      | LWS_CONNMODE_WS_CLIENT_ISSUE_HANDSHAKE2 \<Rightarrow> issue_handshake2 env k
      | LWS_CONNMODE_WS_CLIENT_WAITING_SERVER_REPLY \<Rightarrow> server_reply env ev k
      | _ \<Rightarrow> Some (Inr (0, k)))"

end
