(* ===== verification/Client_Correct.thy ===== *)
theory Client_Correct
  imports Client
begin

text \<open>
  What the client's state machine does: a connection that is not open yet is always under a timeout,
  connecting sends the request that belongs to its arguments, an answer read byte by byte opens the
  connection and leaves what follows it in the socket; and where it goes wrong.
\<close>

unbundle bit_operations_syntax

section \<open>Frames\<close>

lemma on_conn_simps [simp]:
  "cs_conn (on_conn f k) = f (cs_conn k)" "cs_hdr (on_conn f k) = cs_hdr k" "cs_hash (on_conn f k) = cs_hash k"
  "cs_buffer (on_conn f k) = cs_buffer k" "cs_reads (on_conn f k) = cs_reads k" "cs_port (on_conn f k) = cs_port k"
  "cs_told (on_conn f k) = cs_told k" "cs_external (on_conn f k) = cs_external k" "cs_protocol (on_conn f k) = cs_protocol k"
  by (simp_all add: on_conn_def)

lemma give_back_timeout [simp]:
  "cn_timeout (give_back rs c) = cn_timeout c" "cn_timeout (tell e c) = cn_timeout c"
  "cn_timeout (free_head c) = cn_timeout c" "cn_tx (free_head c) = cn_tx c" "cn_poll (free_head c) = cn_poll c"
  "cn_id (free_head c) = cn_id c" "cn_freed (free_head c) = cn_freed c @ union_head (cn_u c)"
  by (simp_all add: give_back_def tell_def free_head_def)

lemma change_pollfd_zero: "lws_change_pollfd tid c p a b = Inr (n, c') \<Longrightarrow> n = 0"
  by (auto simp: lws_change_pollfd_def Let_def split: if_splits)

lemma on_poll_frame:
  assumes "on_poll f k = Inr (n, k')"
  obtains p where "k' = on_conn (\<lambda>c. c\<lparr>cn_poll := p\<rparr>) k" "f (cn_poll (cs_conn k)) (cn_id (cs_conn k)) = Inr (n, p)"
  using assms by (auto simp: on_poll_def split: sum.splits)

lemma map_sum_Inr: "map_sum f g x = Inr y \<longleftrightarrow> (\<exists>z. x = Inr z \<and> y = g z)"
  by (cases x) auto

section \<open>Timeouts\<close>

text \<open>What closing leaves: a freed connection, one with a new timeout, or one as it was.\<close>

definition closing_of :: "conn \<Rightarrow> conn \<Rightarrow> bool" where
  "closing_of c c' \<longleftrightarrow> Res_wsi \<in> set (cn_freed c') \<or> cn_timeout c' = PENDING_TIMEOUT_CLOSE_ACK \<or>
     cn_mode c' = cn_mode c \<and> cn_timeout c' = cn_timeout c \<and> set (cn_freed c) \<subseteq> set (cn_freed c')"

lemma kill_freed: "just_kill_connection s c = Inr c' \<Longrightarrow> Res_wsi \<in> set (cn_freed c')"
  by (auto simp: just_kill_connection_def Let_def destroy_wsi_spec common_resources_def split: sum.splits prod.splits)

lemma close_http_file_keeps:
  "close_http_file c = Inr c' \<Longrightarrow>
     cn_mode c' = cn_mode c \<and> cn_timeout c' = cn_timeout c \<and> set (cn_freed c) \<subseteq> set (cn_freed c')"
  by (auto simp: close_http_file_def split: if_splits conn_union.splits option.splits)

lemma close_indication_outcome:
  "send_close_indication env c = Some (Inr c') \<Longrightarrow> Res_wsi \<in> set (cn_freed c') \<or> cn_timeout c' = PENDING_TIMEOUT_CLOSE_ACK"
  by (auto simp: send_close_indication_def Let_def libwebsocket_set_timeout_def kill_freed
      split: option.splits sum.splits prod.splits if_splits)

lemma close_politely_outcome:
  assumes "close_politely env c reason = Some (Inr c')"
  shows "closing_of c c'"
  using assms close_http_file_keeps [of c] close_indication_outcome [of env _ c']
  by (auto simp: close_politely_def closing_of_def Let_def kill_freed split: option.splits sum.splits prod.splits if_splits)

lemma close_outcome:
  assumes "libwebsocket_close_and_free_session env c reason = Some (Inr c')"
  shows "closing_of c c'"
proof -
  have polite: "closing_of c c'" if "close_politely env (c\<lparr>cn_tx := (cn_tx c)\<lparr>close_reason := reason\<rparr>\<rparr>) reason = Some (Inr c')"
    using close_politely_outcome [OF that] by (simp add: closing_of_def)
  show ?thesis
    using assms polite
    by (auto simp: libwebsocket_close_and_free_session_def Let_def set_conn_state_def kill_freed map_sum_def
        closing_of_def [of c "c\<lparr>cn_poll := _\<rparr>"] closing_of_def [of c c] closing_of_def [of c "c\<lparr>cn_tx := _\<rparr>"]
        closing_of_def split: if_splits sum.splits prod.splits)
qed

text \<open>A connection that is not open yet has a timeout pending, unless it is gone.\<close>

definition watched :: "client \<Rightarrow> bool" where
  "watched k \<longleftrightarrow> freed k \<or> cs_mode k = LWS_CONNMODE_WS_CLIENT \<or> cn_timeout (cs_conn k) \<noteq> NO_PENDING_TIMEOUT"

lemma close_client_Inr:
  "close_client env reason r k = Some (Inr (r', k')) \<longleftrightarrow> r' = r \<and>
     (\<exists>c. libwebsocket_close_and_free_session (ke_close env) (cs_conn k) reason = Some (Inr c) \<and> k' = k\<lparr>cs_conn := c\<rparr>)"
proof (cases "libwebsocket_close_and_free_session (ke_close env) (cs_conn k) reason")
  case (Some x)
  then show ?thesis by (cases x) (auto simp: close_client_def)
qed (simp add: close_client_def)

lemma close_watched: "close_client env reason r k = Some (Inr (r', k')) \<Longrightarrow> watched k \<Longrightarrow> watched k' \<and> r' = r"
  by (auto simp: close_client_Inr watched_def freed_def closing_of_def dest!: close_outcome)

lemmas close_watchedD = close_watched [THEN conjunct1]

lemma watched_timeout: "reason \<noteq> NO_PENDING_TIMEOUT \<Longrightarrow> watched (client_timeout env reason secs k)"
  by (simp add: watched_def client_timeout_def libwebsocket_set_timeout_def)

lemma watched_keep:
  "cn_timeout (cs_conn k') = cn_timeout (cs_conn k) \<Longrightarrow> cs_mode k' = cs_mode k \<Longrightarrow>
     set (cn_freed (cs_conn k)) \<subseteq> set (cn_freed (cs_conn k')) \<Longrightarrow> watched k \<Longrightarrow> watched k'"
  by (auto simp: watched_def freed_def)

lemma watched_pending:
  "cn_timeout (cs_conn k) \<noteq> NO_PENDING_TIMEOUT \<Longrightarrow> watched k" "cs_mode k = LWS_CONNMODE_WS_CLIENT \<Longrightarrow> watched k"
  by (simp_all add: watched_def)

lemma issue_handshake2_watched:
  assumes "issue_handshake2 env k = Some (Inr (n, k'))" "watched k"
  shows "watched k'"
proof -
  have w: "watched (on_conn (\<lambda>c. c\<lparr>cn_tx := t\<rparr>) (k\<lparr>cs_hash := h, cs_buffer := m\<rparr>))" if "tx_mode t = cs_mode k" for t h m
    by (rule watched_keep [OF _ _ _ assms(2)]) (simp_all add: that)
  have "tx_mode t = cs_mode k" if "lws_ssl_capable_write_no_ssl e (cn_tx (cs_conn k)) bs = (m, t)" for e bs m t
    using that by (auto simp: lws_ssl_capable_write_no_ssl_def tick_def split: send_res.splits)
  then show ?thesis
    using assms w
    by (auto simp: issue_handshake2_def Let_def watched_timeout split: sum.splits hs_stop.splits option.splits prod.splits if_splits
        dest!: close_watched)
qed

lemma issue_handshake_watched:
  assumes "issue_handshake env k = Some (Inr (n, k'))"
  shows "watched k'"
proof -
  obtain p where p: "lws_change_pollfd (client_tid env) (cn_poll (cs_conn k)) (cn_id (cs_conn k)) LWS_POLLOUT 0 = Inr (0, p)"
    and r: "issue_handshake2 env (client_timeout env PENDING_TIMEOUT_AWAITING_CLIENT_HS_SEND AWAITING_TIMEOUT
        (set_client_mode LWS_CONNMODE_WS_CLIENT_ISSUE_HANDSHAKE2 (on_conn (\<lambda>c. c\<lparr>cn_poll := p\<rparr>) k))) = Some (Inr (n, k'))"
    using assms by (auto simp: issue_handshake_def split: sum.splits if_splits elim!: on_poll_frame dest: change_pollfd_zero)
  show ?thesis by (rule issue_handshake2_watched [OF r]) (simp add: watched_timeout)
qed

lemma bail2_watched: "bail2 env reason k = Some (Inr (n, k')) \<Longrightarrow> watched k \<Longrightarrow> watched k'"
proof -
  assume r: "bail2 env reason k = Some (Inr (n, k'))" and w: "watched k"
  have "watched (on_conn (\<lambda>c. give_back (union_head (cn_u c)) c)
      (on_conn (\<lambda>c. if cn_protocol c then tell LWS_CALLBACK_CLIENT_CONNECTION_ERROR c else c) k))"
    by (rule watched_keep [OF _ _ _ w]) auto
  then show "watched k'" using r unfolding bail2_def by (rule close_watchedD [rotated])
qed

lemma interpret_answer_watched:
  assumes "interpret_answer env k = Some (Inr (n, k'))" "watched k"
  shows "watched k'"
proof -
  have 1: "watched (select_answer p active k)" "watched (on_conn free_head k)" for p active
    by (rule watched_keep [OF _ _ _ assms(2)]; auto simp: select_answer_def)+
  have 2: "watched (become_websocket env j)" for j
    by (rule watched_pending(2)) (simp add: become_websocket_def)
  have 3: "watched (on_conn free_head (on_conn (\<lambda>c. c\<lparr>cn_u := u\<rparr>) (become_websocket env j)))"
    "watched ((on_conn (\<lambda>c. c\<lparr>cn_u := u\<rparr>) (become_websocket env j))\<lparr>cs_told := x\<rparr>)" for u j x
    by (rule watched_pending(2), simp add: become_websocket_def)+
  show ?thesis
    using assms(1) 1 2 3
    by (auto simp: interpret_answer_def Let_def split: sum.splits client_stop.splits prod.splits if_splits dest: bail2_watched)
qed

lemma read_answer_frame:
  assumes "read_answer env c k = Some r"
  shows "case r of Inl e \<Rightarrow> True | Inr (ok, k') \<Rightarrow> cs_conn k' = cs_conn k"
  using assms
proof (induction rule: read_answer.raw_induct [rotated, consumes 1, case_names step])
  case (step rec env c k y)
  obtain n b where r: "lws_ssl_capable_read_no_ssl env c (cs_reads k) = (n, b)" by fastforce
  show ?case
  proof (cases "parser_state (cs_hdr k) = WSI_PARSING_COMPLETE \<or> n = LWS_SSL_CAPABLE_ERROR")
    case True
    then show ?thesis using step(2) r by (auto simp: Let_def split: if_splits)
  next
    case False
    show ?thesis
    proof (cases "libwebsocket_parse (ke_limits env) (cs_hdr k) b")
      case (Inl e)
      then show ?thesis using step(2) r False by (cases e) (auto simp: Let_def)
    next
      case (Inr h)
      then have "rec env b (k\<lparr>cs_reads := cs_reads k + 1, cs_hdr := h\<rparr>) = Some y"
        using step(2) r False by (simp add: Let_def)
      from step(1) [OF this] show ?thesis by (auto split: sum.splits)
    qed
  qed
qed

lemma server_reply_watched:
  assumes "server_reply env ev k = Some (Inr (n, k'))" "watched k"
  shows "watched k'"
proof -
  have k1: "watched k1" if "read_answer env c k = Some (Inr (ok, k1))" for ok k1 c
    using read_answer_frame [OF that] by (intro watched_keep [OF _ _ _ assms(2)]) simp_all
  show ?thesis
    using assms k1 unfolding server_reply_def
    by (auto split: if_splits option.splits sum.splits prod.splits intro: close_watchedD interpret_answer_watched)
qed

lemma proxy_reply_watched:
  assumes "proxy_reply env ev k = Some (Inr (n, k'))" "watched k"
  shows "watched k'"
proof -
  have k1: "watched (k\<lparr>cs_reads := i\<rparr>)" "watched (k\<lparr>cs_reads := i, cs_buffer := b\<rparr>)" for i b
    by (rule watched_keep [OF _ _ _ assms(2)]; simp)+
  show ?thesis
    using assms(1) close_watchedD [OF _ assms(2)] close_watchedD [OF _ k1(1)] close_watchedD [OF _ k1(2)] issue_handshake_watched k1(1)
    unfolding proxy_reply_def Let_def by (auto split: if_splits recv_res.splits)
qed

lemma open_socket_watched:
  assumes "open_socket env k = Inr (Some ok, k')" "0 \<le> sock (pwsi (cn_poll (cs_conn k)) (cn_id (cs_conn k))) \<Longrightarrow> watched k"
  shows "watched k'"
proof -
  have "watched (on_conn (give_back rs) (client_timeout env PENDING_TIMEOUT_AWAITING_CONNECT_RESPONSE secs j))" for rs secs j
    by (rule watched_pending(1)) (simp add: client_timeout_def libwebsocket_set_timeout_def)
  then show ?thesis
    using assms by (auto simp: open_socket_def Let_def watched_timeout split: if_splits sum.splits prod.splits option.splits)
qed

lemma after_connect_watched:
  assumes "after_connect env text k = Some (Inr (ok, k'))" "watched k"
  shows "watched k'"
proof -
  have keep: "watched (on_conn (\<lambda>c. c\<lparr>cn_tx := t\<rparr>) (k\<lparr>cs_hdr := h, cs_port := port\<rparr>))" if "tx_mode t = cs_mode k" for t h port
    by (rule watched_keep [OF _ _ _ assms(2)]) (simp_all add: that)
  have mode: "tx_mode t = cs_mode k" if "lws_ssl_capable_write_no_ssl e (cn_tx (cs_conn k)) bs = (m, t)" for e bs m t
    using that by (auto simp: lws_ssl_capable_write_no_ssl_def tick_def split: send_res.splits)
  have new: "watched (set_client_mode m (client_timeout env reason secs j))" if "reason \<noteq> NO_PENDING_TIMEOUT" for m reason secs j
    using that by (simp add: watched_def set_client_mode_def client_timeout_def libwebsocket_set_timeout_def)
  have own: "watched k1" if "service_own_fd env (set_client_mode m (client_timeout env reason secs j)) = Some (Inr (n, k1))"
    "reason \<noteq> NO_PENDING_TIMEOUT" for m reason secs j n k1
    using that new [OF that(2)] by (auto simp: service_own_fd_def Let_def split: if_splits option.splits dest: issue_handshake_watched)
  show ?thesis
  proof (cases "ke_proxy env")
    case None
    then show ?thesis
      using assms(1) by (auto simp: after_connect_def split: option.splits sum.splits if_splits dest!: own close_watched)
  next
    case (Some ap)
    then show ?thesis
      using assms(1) keep mode new assms(2)
      by (auto simp: after_connect_def Let_def split: prod.splits sum.splits parse_error.splits if_splits dest!: close_watched)
  qed
qed

lemma connect_address_conn: "connect_address env k = Inr (ads, text, k1) \<Longrightarrow> cs_conn k1 = cs_conn k"
  by (auto simp: connect_address_def Let_def split: option.splits prod.splits if_splits)

lemma connect_2_watched:
  assumes "libwebsocket_client_connect_2 env k = Some (Inr (ok, k'))"
    "0 \<le> sock (pwsi (cn_poll (cs_conn k)) (cn_id (cs_conn k))) \<Longrightarrow> watched k"
  shows "watched k'"
proof -
  have oom: "watched k'" if "oom4 j = Some (Inr (r, k'))" for j r
    using that by (auto simp: oom4_def watched_def freed_def)
  obtain ads req k1 where k1: "connect_address env k = Inr (ads, req, k1)"
    using assms(1) by (auto simp: libwebsocket_client_connect_2_def split: sum.splits)
  have "watched k1" if "0 \<le> sock (pwsi (cn_poll (cs_conn k1)) (cn_id (cs_conn k1)))"
    using assms(2) that connect_address_conn [OF k1] by (auto simp: watched_def freed_def)
  note k2 = open_socket_watched [OF _ this]
  have k3: "watched (on_conn (\<lambda>c. c\<lparr>cn_poll := p\<rparr>) j)" if "watched j" for p j
    by (rule watched_keep [OF _ _ _ that]) simp_all
  show ?thesis
    using assms(1) k1 oom k2 k3
    by (auto simp: libwebsocket_client_connect_2_def split: if_splits sum.splits prod.splits option.splits bool.splits
        elim!: on_poll_frame intro: close_watchedD after_connect_watched)
qed

lemma client_connect_watched:
  assumes "libwebsocket_client_connect env p i buffer address port ssl path host origin protocol version = Some (Inr (True, k))"
  shows "watched k"
proof -
  have ext: "watched (set_client_mode m (client_timeout env PENDING_TIMEOUT_AWAITING_EXTENSION_CONNECT_RESPONSE secs j))" for m secs j
    by (rule watched_pending(1)) (simp add: set_client_mode_def client_timeout_def libwebsocket_set_timeout_def)
  have new: "sock (pwsi (cn_poll (cs_conn (new_client p i buffer))) i) = -1" "cn_id (cs_conn (new_client p i buffer)) = i"
    by (simp_all add: new_client_def upd_wsi_def)
  show ?thesis
    using assms ext new
    by (auto simp: libwebsocket_client_connect_def Let_def split: if_splits sum.splits parse_error.splits
        dest!: connect_2_watched)
qed

text \<open>
  What can happen to a client: it is made by a call of the user, memory of the user is attached, its
  descriptor is served, its timeout is looked at, and meanwhile other connections change the poll table
  and the service buffer.
\<close>

inductive client_run :: "client \<Rightarrow> bool" where
  connect: "libwebsocket_client_connect env p i buffer address port ssl path host origin protocol version = Some (Inr (True, k)) \<Longrightarrow>
    client_run k"
| userdata: "client_run k \<Longrightarrow> attach_userdata u (Some (Inr (True, k))) = Some (Inr (ok, k')) \<Longrightarrow> client_run k'"
| service: "client_run k \<Longrightarrow> \<not> freed k \<Longrightarrow> lws_client_socket_service env ev k = Some (Inr (n, k')) \<Longrightarrow> client_run k'"
| check: "client_run k \<Longrightarrow> \<not> freed k \<Longrightarrow>
    libwebsocket_service_timeout_check (ke_close (env :: connect_env)) (cs_conn k) sec = Some (Inr (n, c)) \<Longrightarrow> client_run (k\<lparr>cs_conn := c\<rparr>)"
| others: "client_run k \<Longrightarrow> client_run (on_conn (\<lambda>c. c\<lparr>cn_poll := p\<rparr>) (k\<lparr>cs_buffer := buffer\<rparr>))"


lemma service_watched:
  assumes "lws_client_socket_service env ev k = Some (Inr (n, k'))" "watched k"
  shows "watched k'"
proof -
  have "watched k'" if "map_option (map_sum id (\<lambda>(ok, k1). (if ok then 0 else -1, k1))) (libwebsocket_client_connect_2 env k) = Some (Inr (n, k'))"
    using that connect_2_watched [OF _ assms(2)] by (auto simp: map_sum_Inr)
  then show ?thesis
    using assms by (auto simp: lws_client_socket_service_def split: connection_mode.splits
        intro: proxy_reply_watched issue_handshake_watched issue_handshake2_watched server_reply_watched)
qed

lemma check_watched:
  assumes "libwebsocket_service_timeout_check env (cs_conn k) sec = Some (Inr (n, c))" "watched k"
  shows "watched (k\<lparr>cs_conn := c\<rparr>)"
proof -
  have "closing_of (cs_conn k) c \<or> c = cs_conn k"
    using assms(1) by (auto simp: libwebsocket_service_timeout_check_def map_sum_Inr split: if_splits dest: close_outcome)
  then show ?thesis using assms(2) by (auto simp: watched_def freed_def closing_of_def)
qed

lemma client_run_watched: "client_run k \<Longrightarrow> watched k"
proof (induction rule: client_run.induct)
  case (userdata k u ok k')
  then show ?case by (auto simp: attach_userdata_def watched_def freed_def split: if_splits)
next
  case (others k p buffer)
  then show ?case by (auto simp: watched_def freed_def)
qed (auto intro: client_connect_watched service_watched check_watched)

section \<open>The strings of a new connection\<close>

text \<open>A header that stands in the store with its NUL, below the place for the next one.\<close>

definition header_stored :: "allocated_headers \<Rightarrow> nat \<Rightarrow> byte list \<Rightarrow> bool" where
  "header_stored a h v \<longleftrightarrow>
     (let n = ah_frag_index a ! h; p = frag_offset (ah_frags a ! n)
      in n \<noteq> 0 \<and> n \<le> ah_next_frag_index a \<and> p + length v < ah_pos a \<and> take (length v + 1) (drop p (ah_data a)) = v @ [0])"

definition store_sized :: "allocated_headers \<Rightarrow> bool" where
  "store_sized a \<longleftrightarrow> length (ah_frag_index a) = WSI_TOKEN_COUNT \<and> length (ah_frags a) = FRAGS \<and>
     length (ah_data a) = LWS_MAX_HEADER_LEN \<and> ah_pos a \<le> LWS_MAX_HEADER_LEN"

lemma stored_string:
  assumes "header_stored a h v" "0 \<notin> set v"
  shows "hdr_string a h = Some (Some v)"
proof -
  let ?p = "frag_offset (ah_frags a ! (ah_frag_index a ! h))"
  have "drop ?p (ah_data a) = (v @ [0]) @ drop (length v + 1) (drop ?p (ah_data a))"
    using assms(1) append_take_drop_id [of "length v + 1" "drop ?p (ah_data a)"] by (simp add: header_stored_def Let_def)
  then have "c_string (ah_data a) ?p = Some v"
    using c_string_prefix [OF assms(2)] by (simp add: c_string_def)
  then show ?thesis using assms(1) by (simp add: hdr_string_def lws_hdr_simple_ptr_def header_stored_def Let_def)
qed

lemma put_chars_data:
  "ah_pos a + length s \<le> length (ah_data a) \<Longrightarrow>
     ah_data (put_chars s a) = take (ah_pos a) (ah_data a) @ s @ drop (ah_pos a + length s) (ah_data a)"
proof (induction s arbitrary: a)
  case (Cons c s)
  then show ?case by (simp add: take_Suc_conv_app_nth)
qed simp

lemma put_chars_offset:
  "ah_next_frag_index a < length (ah_frags a) \<Longrightarrow>
     frag_offset (ah_frags (put_chars s a) ! i) = frag_offset (ah_frags a ! i) \<and> length (ah_frags (put_chars s a)) = length (ah_frags a)"
  by (induction s arbitrary: a) simp_all

lemma create_stored:
  assumes a: "store_sized a" "h < 79" and room: "ah_next_frag_index a + 1 < 158" "ah_pos a + length s < 1024"
  shows "\<exists>b. lws_hdr_simple_create a h s = Inr b \<and> store_sized b \<and> ah_next_frag_index b = ah_next_frag_index a + 1 \<and>
    ah_pos b = ah_pos a + length s + 1 \<and> ah_frag_index b = (ah_frag_index a)[h := ah_next_frag_index a + 1] \<and> header_stored b h s \<and>
    (\<forall>g v. g \<noteq> h \<longrightarrow> header_stored a g v \<longrightarrow> header_stored b g v)"
proof -
  let ?c = "(next_open a)\<lparr>ah_frag_index := (ah_frag_index a)[h := ah_next_frag_index a + 1]\<rparr>"
  let ?b = "put_char 0 (put_chars s ?c)"
  have sz: "length (ah_frags a) = 158" "length (ah_data a) = 1024" "length (ah_frag_index a) = 79"
    using a(1) by (simp_all add: store_sized_def)
  have b: "lws_hdr_simple_create a h s = Inr ?b"
    using room simple_create_loop_fits [of ?c s] by (simp add: lws_hdr_simple_create_def Let_def)
  have data: "ah_data ?b = take (ah_pos a) (ah_data a) @ (s @ [0]) @ drop (ah_pos a + length s + 1) (ah_data a)"
    using room sz put_chars_data [of ?c s]
    by (simp add: list_update_append Cons_nth_drop_Suc [symmetric] del: drop_drop)
  have off: "frag_offset (ah_frags ?b ! i) = (if i = ah_next_frag_index a + 1 then ah_pos a else frag_offset (ah_frags a ! i))" for i
    using room sz put_chars_offset [of ?c s] next_open_frag [of a i] by simp
  have new: "header_stored ?b h s"
    using off [of "ah_next_frag_index a + 1"] room sz a(2) unfolding header_stored_def Let_def data by simp
  have old: "header_stored ?b g v" if "g \<noteq> h" "header_stored a g v" for g v
  proof -
    let ?n = "ah_frag_index a ! g"
    let ?p = "frag_offset (ah_frags a ! ?n)"
    have n: "?n \<noteq> 0" "?n \<le> ah_next_frag_index a" "?p + length v < ah_pos a" "take (length v + 1) (drop ?p (ah_data a)) = v @ [0]"
      using that(2) by (simp_all add: header_stored_def Let_def)
    have "take (length v + 1) (drop ?p (ah_data ?b)) = take (length v + 1) (drop ?p (take (ah_pos a) (ah_data a)))"
      unfolding data using n(3) sz room by simp
    also have "\<dots> = v @ [0]" using n(3,4) by (simp add: drop_take min_def)
    finally show ?thesis using n(1-3) off [of ?n] that(1) by (simp add: header_stored_def Let_def)
  qed
  have "length (ah_frags ?b) = 158" using sz room put_chars_offset [of ?c s] by simp
  moreover have "length (ah_data ?b) = 1024" unfolding data using sz room by simp
  ultimately have "store_sized ?b" using room sz by (simp add: store_sized_def)
  then show ?thesis using b new old by auto
qed

lemma create_headers_stored:
  assumes "store_sized a" "\<forall>(h, v)\<in>set hs. h < 79" "distinct (map fst hs)"
    and "ah_next_frag_index a + length hs < 158" "ah_pos a + sum_list (map (\<lambda>(h, v). length v + 1) hs) \<le> 1024"
  shows "\<exists>b. create_headers hs a = Inr b \<and> store_sized b \<and> (\<forall>(h, v)\<in>set hs. header_stored b h v) \<and>
    (\<forall>g. g \<notin> fst ` set hs \<longrightarrow> ah_frag_index b ! g = ah_frag_index a ! g) \<and>
    (\<forall>g v. g \<notin> fst ` set hs \<longrightarrow> header_stored a g v \<longrightarrow> header_stored b g v)"
  using assms
proof (induction hs arbitrary: a)
  case (Cons hv hs)
  obtain h v where hv: "hv = (h, v)" by (cases hv)
  obtain b where b: "lws_hdr_simple_create a h v = Inr b" "store_sized b" "ah_next_frag_index b = ah_next_frag_index a + 1"
    "ah_pos b = ah_pos a + length v + 1" "ah_frag_index b = (ah_frag_index a)[h := ah_next_frag_index a + 1]" "header_stored b h v"
    "\<And>g v. g \<noteq> h \<Longrightarrow> header_stored a g v \<Longrightarrow> header_stored b g v"
    using create_stored [of a h v] Cons.prems hv by auto
  then obtain c where c: "create_headers hs b = Inr c" "store_sized c" "\<forall>(h, v)\<in>set hs. header_stored c h v"
    "\<And>g. g \<notin> fst ` set hs \<Longrightarrow> ah_frag_index c ! g = ah_frag_index b ! g"
    "\<And>g v. g \<notin> fst ` set hs \<Longrightarrow> header_stored b g v \<Longrightarrow> header_stored c g v"
    using Cons.IH [of b] Cons.prems hv by auto
  have "header_stored c h v" using c(5) b(6) Cons.prems(3) hv by simp
  then show ?case using b c hv by auto
qed simp

section \<open>Connecting\<close>

text \<open>The request, forward: it is made of the strings of the header table.\<close>

lemma request_made:
  assumes "length (cl_random env) = 16" "hdr_string a WSI_TOKEN_CLIENT_URI = Some (Some uri)"
    "hdr_string a WSI_TOKEN_CLIENT_HOST = Some (Some host)"
    "optional_line (hdr_string a WSI_TOKEN_CLIENT_ORIGIN) (bytes ''Origin: http://'') = Some origin"
    "optional_line (hdr_string a WSI_TOKEN_CLIENT_SENT_PROTOCOLS) (bytes ''Sec-WebSocket-Protocol: '') = Some protocols"
  shows "libwebsockets_generate_client_handshake env a revision =
    Inr (request_text env uri host (rfc_b64 (cl_random env)) origin protocols revision, accept_key (rfc_b64 (cl_random env)))"
proof -
  let ?r = "cl_random env"
  have k: "lws_b64_encode_string ?r 40 = (24, rfc_b64 ?r @ [0])"
    using b64_room [of ?r 40] assms(1) by (simp add: length_rfc_b64)
  have h: "lws_b64_encode_string (fips_sha1 (key @ websocket_guid)) 30 = (28, accept_key key @ [0])" for key
    using b64_room [of "fips_sha1 (key @ websocket_guid)" 30] response_lengths(1) [of key]
    by (simp add: accept_key_def)
  show ?thesis using assms by (simp add: libwebsockets_generate_client_handshake_def Let_def k h libwebsockets_SHA1_fips)
qed

lemma insert_polled:
  assumes "poll_ok c" "sock (pwsi c p) = int s" "poll_map c s = None" "fds_count c < max_fds c" "s < max_fds c"
  shows "\<exists>c'. insert_wsi_socket_into_fds c p = Inr (0, c') \<and> polled_conn c' p \<and> poll_map c' = (poll_map c)(s \<mapsto> LWS_POLLIN) \<and>
    pwsi c' = (pwsi c)(p := (pwsi c p)\<lparr>position_in_fds_table := int (fds_count c)\<rparr>) \<and>
    lws_lookup c' ! s = Some p \<and> s < length (lws_lookup c')"
proof -
  obtain c' where c': "insert_wsi_socket_into_fds c p = Inr (0, c')"
    using insert_spec(1) [OF assms(1-3)] assms(4,5) by auto
  have len: "length (fds c) = max_fds c" "length (lws_lookup c) = max_fds c" using assms(1) by (simp_all add: poll_ok_def)
  have l: "lws_lookup c' ! s = Some p" "s < length (lws_lookup c')" "polled c' p"
    using c' assms(2,4,5) len
    by (auto simp: insert_wsi_socket_into_fds_def Let_def lws_plat_insert_socket_into_fds_def polled_def nth_list_update)
  show ?thesis using c' l insert_spec(2) [OF assms(1-5) c'] by (auto simp: polled_conn_def)
qed

text \<open>
  What a direct connection needs to get as far as its request: memory, a table of its size, a free slot
  and a new descriptor, and that \<open>connect\<close> succeeds at once.
\<close>

definition connect_ready :: "connect_env \<Rightarrow> poll_ctx \<Rightarrow> nat \<Rightarrow> nat \<Rightarrow> bool" where
  "connect_ready env p i s \<longleftrightarrow>
     ke_malloc_wsi env \<and>
     (case ke_malloc_table env of None \<Rightarrow> False | Some a \<Rightarrow> length (ah_frags a) = FRAGS \<and> length (ah_data a) = LWS_MAX_HEADER_LEN) \<and>
     ke_ext_connect env \<le> 0 \<and> ke_proxy env = None \<and> ke_socket env = int s \<and> ke_sockopts_ok env \<and>
     (ke_iface env = None \<or> ke_iface env = Some (True, True)) \<and> (ke_connect env = None \<or> ke_connect env = Some EISCONN) \<and>
     poll_ok p \<and> \<not> polled p i \<and> poll_map p s = None \<and> fds_count p < max_fds p \<and> s < max_fds p"

definition strings_fit :: "(nat \<times> byte list) list \<Rightarrow> bool" where
  "strings_fit hs \<longleftrightarrow> (\<forall>(h, v)\<in>set hs. 0 \<notin> set v) \<and> sum_list (map (\<lambda>(h, v). length v + 1) hs) \<le> LWS_MAX_HEADER_LEN"

definition line_of :: "byte list \<Rightarrow> byte list option \<Rightarrow> byte list" where
  "line_of name v = (case v of None \<Rightarrow> [] | Some s \<Rightarrow> name @ s @ crlf)"

definition request_for ::
    "client_env \<Rightarrow> byte list \<Rightarrow> byte list \<Rightarrow> byte list option \<Rightarrow> byte list option \<Rightarrow> byte \<Rightarrow> byte list" where
  "request_for env path host origin protocol revision =
     request_text env path host (rfc_b64 (cl_random env)) (line_of (bytes ''Origin: http://'') origin)
       (line_of (bytes ''Sec-WebSocket-Protocol: '') protocol) revision"

text \<open>The client that issues its request: what holds of it and what the request is.\<close>

definition about_to_ask :: "connect_env \<Rightarrow> poll_ctx \<Rightarrow> nat \<Rightarrow> nat \<Rightarrow> byte list \<Rightarrow> byte \<Rightarrow> client \<Rightarrow> bool" where
  "about_to_ask env p i s buffer revision k \<longleftrightarrow>
     polled_conn (cn_poll (cs_conn k)) i \<and> cn_id (cs_conn k) = i \<and> sock (pwsi (cn_poll (cs_conn k)) i) = int s \<and>
     rxflow_buffer (pwsi (cn_poll (cs_conn k)) i) = None \<and>
     poll_map (cn_poll (cs_conn k)) = (poll_map p)(s \<mapsto> LWS_POLLIN) \<and> cs_buffer k = buffer \<and>
     ietf_spec_revision (cs_hdr k) = revision \<and> cs_mode k = LWS_CONNMODE_WS_CLIENT_ISSUE_HANDSHAKE \<and>
     cn_u (cs_conn k) = U_hdr True \<and> cn_protocol (cs_conn k) \<and> cn_extensions (cs_conn k) = 0 \<and> \<not> cn_user_space (cs_conn k) \<and>
     cn_freed (cs_conn k) = [] \<and> cn_log (cs_conn k) = [] \<and>
     cn_tx (cs_conn k) = (cn_tx new_server_conn)\<lparr>tx_state := WSI_STATE_CLIENT_UNCONNECTED, tx_spec_revision := revision,
       tx_mode := LWS_CONNMODE_WS_CLIENT_ISSUE_HANDSHAKE\<rparr>"

lemma client_strings_tokens:
  "distinct (map fst (client_strings address path host origin protocol))"
  "\<forall>(h, v)\<in>set (client_strings address path host origin protocol). h < 79"
  "length (client_strings address path host origin protocol) \<le> 5"
  by (auto simp: client_strings_def split: option.splits)

definition issuing :: "connect_env \<Rightarrow> int \<Rightarrow> poll_ctx \<Rightarrow> client \<Rightarrow> client" where
  "issuing env s r k =
     set_client_mode LWS_CONNMODE_WS_CLIENT_ISSUE_HANDSHAKE
       (client_timeout env PENDING_TIMEOUT_SENT_CLIENT_HANDSHAKE AWAITING_TIMEOUT
         (client_timeout env PENDING_TIMEOUT_AWAITING_CONNECT_RESPONSE AWAITING_TIMEOUT
           (on_conn (\<lambda>c. c\<lparr>cn_poll := r\<rparr>) (set_client_mode LWS_CONNMODE_WS_CLIENT_WAITING_CONNECT
             (on_conn (\<lambda>c. c\<lparr>cn_poll := upd_wsi (cn_id c) (\<lambda>w. w\<lparr>sock := s\<rparr>) (cn_poll c)\<rparr>) k)))))"

lemma connect_2_direct:
  assumes "ke_proxy env = None" "hdr_string (hdr_ah (cs_hdr k)) 75 = Some (Some address)" "ke_resolve env address"
    and "sock (pwsi (cn_poll (cs_conn k)) (cn_id (cs_conn k))) < 0" "ke_socket env = int s" "ke_sockopts_ok env"
    and "ke_iface env = None \<or> ke_iface env = Some (True, True)" "ke_connect env = None \<or> ke_connect env = Some EISCONN"
    and "insert_wsi_socket_into_fds (upd_wsi (cn_id (cs_conn k)) (\<lambda>w. w\<lparr>sock := int s\<rparr>) (cn_poll (cs_conn k))) (cn_id (cs_conn k)) = Inr (0, r)"
    and "sock (pwsi r (cn_id (cs_conn k))) = int s" "lws_lookup r ! s = Some (cn_id (cs_conn k))" "s < length (lws_lookup r)"
  shows "libwebsocket_client_connect_2 env k =
    (case issue_handshake env (issuing env (int s) r k) of None \<Rightarrow> None | Some (Inl e) \<Rightarrow> Some (Inl e)
       | Some (Inr (n, k1)) \<Rightarrow> if n < 0 then close_client env LWS_CLOSE_STATUS_NOSTATUS False k1 else Some (Inr (n = 0, k1)))"
proof -
  let ?k = "client_timeout env PENDING_TIMEOUT_AWAITING_CONNECT_RESPONSE AWAITING_TIMEOUT
     (on_conn (\<lambda>c. c\<lparr>cn_poll := r\<rparr>) (set_client_mode LWS_CONNMODE_WS_CLIENT_WAITING_CONNECT
       (on_conn (\<lambda>c. c\<lparr>cn_poll := upd_wsi (cn_id c) (\<lambda>w. w\<lparr>sock := int s\<rparr>) (cn_poll c)\<rparr>) k)))"
  have a: "connect_address env k = Inr (address, [], k)" using assms(1,2) by (simp add: connect_address_def)
  have o: "open_socket env k = Inr (Some True, ?k)"
    using assms(4-7,9) by (auto simp: open_socket_def Let_def on_poll_def set_client_mode_def)
  have "service_own_fd env (issuing env (int s) r k) = issue_handshake env (issuing env (int s) r k)"
    using assms(10-12)
    by (simp add: service_own_fd_def issuing_def Let_def set_client_mode_def client_timeout_def libwebsocket_set_timeout_def)
  then have "after_connect env [] ?k =
    (case issue_handshake env (issuing env (int s) r k) of None \<Rightarrow> None | Some (Inl e) \<Rightarrow> Some (Inl e)
       | Some (Inr (n, k1)) \<Rightarrow> if n < 0 then close_client env LWS_CLOSE_STATUS_NOSTATUS False k1 else Some (Inr (n = 0, k1)))"
    using assms(1) by (simp add: after_connect_def issuing_def)
  then show ?thesis using a o assms(3,8) by (auto simp: libwebsocket_client_connect_2_def)
qed

lemma connect_asks:
  assumes ready: "connect_ready env p i s" "ke_resolve env address"
    and fit: "strings_fit (client_strings address path host origin protocol)"
    and revision: "revision = word_of_int (if version = -1 then 13 else version)"
  obtains k where "about_to_ask env p i s buffer revision k"
    and "libwebsocket_client_connect env p i buffer address port False path host origin protocol version =
      (case issue_handshake env k of None \<Rightarrow> None | Some (Inl e) \<Rightarrow> Some (Inl e)
       | Some (Inr (n, k1)) \<Rightarrow> if n < 0 then close_client env LWS_CLOSE_STATUS_NOSTATUS False k1 else Some (Inr (n = 0, k1)))"
    and "length (cl_random (ke_hs env)) = 16 \<Longrightarrow>
      libwebsockets_generate_client_handshake (ke_hs env) (hdr_ah (cs_hdr k)) revision =
        Inr (request_for (ke_hs env) path host origin protocol revision, accept_key (rfc_b64 (cl_random (ke_hs env))))"
proof -
  let ?hs = "client_strings address path host origin protocol"
  obtain mem where mem: "ke_malloc_table env = Some mem" "length (ah_frags mem) = 158" "length (ah_data mem) = 1024"
    using ready(1) by (auto simp: connect_ready_def split: option.splits)
  let ?a = "mem\<lparr>ah_frag_index := replicate 79 0, ah_next_frag_index := 0, ah_pos := 0\<rparr>"
  have "store_sized ?a" using mem by (simp add: store_sized_def)
  then obtain b where b: "create_headers ?hs ?a = Inr b" "\<forall>(h, v)\<in>set ?hs. header_stored b h v"
    "\<And>g. g \<notin> fst ` set ?hs \<Longrightarrow> ah_frag_index b ! g = replicate 79 0 ! g"
    using create_headers_stored [of ?a ?hs] client_strings_tokens [of address path host origin protocol] fit
    by (auto simp: strings_fit_def)
  have str: "hdr_string b h = Some (Some v)" if "(h, v) \<in> set ?hs" for h v
    using stored_string [of b h v] b(2) fit that by (auto simp: strings_fit_def)
  have none: "hdr_string b g = None" if "g \<notin> fst ` set ?hs" "g < 79" for g
    using b(3) [OF that(1)] that(2) by (simp add: hdr_string_def lws_hdr_simple_ptr_def)
  have heads: "hdr_string b 75 = Some (Some address)" "hdr_string b 76 = Some (Some path)" "hdr_string b 77 = Some (Some host)"
    by (rule str, simp add: client_strings_def)+
  have "hdr_string b 78 = map_option Some origin"
    using str [of 78] none [of 78] by (cases origin; cases protocol) (auto simp: client_strings_def)
  moreover have "hdr_string b 74 = map_option Some protocol"
    using str [of 74] none [of 74] by (cases origin; cases protocol) (auto simp: client_strings_def)
  ultimately have lines: "optional_line (hdr_string b 78) name = Some (line_of name origin)"
    "optional_line (hdr_string b 74) name = Some (line_of name protocol)" for name
    by (auto simp: optional_line_def line_of_def split: option.splits)
  define w where "w = \<lparr>sock = int s, position_in_fds_table = 0, pw_protocol = 0, rxflow_change_to = 0, rxflow_buffer = None,
    rxflow_len = 0, rxflow_pos = 0\<rparr>"
  define q where "q = upd_wsi i (\<lambda>_. w) p"
  have pp: "poll_ok p" "\<not> polled p i" "poll_map p s = None" "fds_count p < max_fds p" "s < max_fds p"
    using ready(1) by (simp_all add: connect_ready_def)
  note up = upd_unpolled [OF pp(1,2), of "\<lambda>_. w"]
  obtain r where r: "insert_wsi_socket_into_fds q i = Inr (0, r)" "polled_conn r i" "poll_map r = (poll_map p)(s \<mapsto> 1)"
    "sock (pwsi r i) = int s" "rxflow_buffer (pwsi r i) = None" "lws_lookup r ! s = Some i" "s < length (lws_lookup r)"
    using insert_polled [of q i s] up pp by (auto simp: q_def w_def)
  define k0 where "k0 = (let k = new_client p i buffer
     in on_conn (\<lambda>c. c\<lparr>cn_u := U_hdr True, cn_protocol := True, cn_tx := (cn_tx c)\<lparr>tx_spec_revision := revision\<rparr>\<rparr>)
          (k\<lparr>cs_hdr := (cs_hdr k)\<lparr>ietf_spec_revision := revision, hdr_ah := b\<rparr>, cs_port := word_of_int port\<rparr>))"
  have k0: "cn_id (cs_conn k0) = i" "hdr_ah (cs_hdr k0) = b" "sock (pwsi (cn_poll (cs_conn k0)) i) < 0"
    "upd_wsi i (\<lambda>w. w\<lparr>sock := int s\<rparr>) (cn_poll (cs_conn k0)) = q"
    by (simp_all add: k0_def new_client_def Let_def q_def w_def upd_wsi_def)
  have "libwebsocket_client_connect env p i buffer address port False path host origin protocol version =
      libwebsocket_client_connect_2 env k0"
    using ready(1) mem(1) b(1) revision
    by (auto simp: libwebsocket_client_connect_def connect_ready_def Let_def lws_allocate_header_table_def k0_def on_conn_def
        new_client_def new_server_conn_def)
  also have "\<dots> = (case issue_handshake env (issuing env (int s) r k0) of None \<Rightarrow> None | Some (Inl e) \<Rightarrow> Some (Inl e)
       | Some (Inr (n, k1)) \<Rightarrow> if n < 0 then close_client env LWS_CLOSE_STATUS_NOSTATUS False k1 else Some (Inr (n = 0, k1)))"
    by (rule connect_2_direct) (use ready k0 heads r in \<open>auto simp: connect_ready_def\<close>)
  finally have c: "libwebsocket_client_connect env p i buffer address port False path host origin protocol version = \<dots>" .
  have "about_to_ask env p i s buffer revision (issuing env (int s) r k0)"
    using r by (auto simp: about_to_ask_def issuing_def k0_def new_client_def Let_def set_client_mode_def client_timeout_def
        libwebsocket_set_timeout_def new_server_conn_def)
  moreover have "hdr_ah (cs_hdr (issuing env (int s) r k0)) = b"
    using k0(2) by (simp add: issuing_def set_client_mode_def client_timeout_def)
  ultimately show thesis using that [OF _ c] request_made [OF _ heads(2,3) lines] by (simp add: request_for_def)
qed

text \<open>The request is due: taking back the wish to write succeeds, and what is sent is the request.\<close>

definition asking :: "connect_env \<Rightarrow> poll_ctx \<Rightarrow> client \<Rightarrow> client" where
  "asking env r k =
     client_timeout env PENDING_TIMEOUT_AWAITING_CLIENT_HS_SEND AWAITING_TIMEOUT
       (set_client_mode LWS_CONNMODE_WS_CLIENT_ISSUE_HANDSHAKE2 (on_conn (\<lambda>c. c\<lparr>cn_poll := r\<rparr>) k))"

lemma asking_simps [simp]:
  "cs_hdr (asking env r k) = cs_hdr k" "cs_buffer (asking env r k) = cs_buffer k" "cs_reads (asking env r k) = cs_reads k"
  "cn_poll (cs_conn (asking env r k)) = r" "cn_id (cs_conn (asking env r k)) = cn_id (cs_conn k)"
  "cn_u (cs_conn (asking env r k)) = cn_u (cs_conn k)" "cn_protocol (cs_conn (asking env r k)) = cn_protocol (cs_conn k)"
  "cn_freed (cs_conn (asking env r k)) = cn_freed (cs_conn k)" "cn_log (cs_conn (asking env r k)) = cn_log (cs_conn k)"
  "cn_extensions (cs_conn (asking env r k)) = cn_extensions (cs_conn k)"
  "cn_user_space (cs_conn (asking env r k)) = cn_user_space (cs_conn k)"
  "cn_tx (cs_conn (asking env r k)) = (cn_tx (cs_conn k))\<lparr>tx_mode := LWS_CONNMODE_WS_CLIENT_ISSUE_HANDSHAKE2\<rparr>"
  by (simp_all add: asking_def client_timeout_def libwebsocket_set_timeout_def set_client_mode_def)

lemma issue_asks:
  assumes "about_to_ask env p i s buffer revision k"
  obtains r where "issue_handshake env k = issue_handshake2 env (asking env r k)" "polled_conn r i"
    "poll_map r = (poll_map p)(s \<mapsto> LWS_POLLIN)" "sock (pwsi r i) = int s" "rxflow_buffer (pwsi r i) = None"
proof -
  have k: "poll_ok (cn_poll (cs_conn k))" "polled (cn_poll (cs_conn k)) i" "sock (pwsi (cn_poll (cs_conn k)) i) = int s"
    "cn_id (cs_conn k) = i" "poll_map (cn_poll (cs_conn k)) = (poll_map p)(s \<mapsto> 1)"
    "rxflow_buffer (pwsi (cn_poll (cs_conn k)) i) = None"
    using assms by (simp_all add: about_to_ask_def polled_conn_def)
  obtain r where r: "lws_change_pollfd (client_tid env) (cn_poll (cs_conn k)) i 4 0 = Inr (0, r)" "poll_ok r"
    "poll_map r = (poll_map p)(s \<mapsto> 1)" "pwsi r = pwsi (cn_poll (cs_conn k))"
    "map fd (live r) = map fd (live (cn_poll (cs_conn k)))" "lws_lookup r = lws_lookup (cn_poll (cs_conn k))"
    using change_spec [OF k(1-3), of "client_tid env" 4 0] k(5) by fastforce
  have "set (slots r) = set (slots (cn_poll (cs_conn k)))"
  proof -
    have "slots r = map (\<lambda>e. the (lws_lookup (cn_poll (cs_conn k)) ! e)) (map fd (live r))"
      using r(6) by (simp add: slots_def comp_def)
    then show ?thesis using r(5) by (simp add: slots_def comp_def)
  qed
  then have "polled_conn r i" using slots_polled r(2) k(1,2) by (simp add: polled_conn_def)
  moreover have "issue_handshake env k = issue_handshake2 env (asking env r k)"
    using r(1) k(4) by (simp add: issue_handshake_def on_poll_def asking_def)
  ultimately show thesis using that r(3,4) k(3,6) by simp
qed

text \<open>
  A client that is not open is closed without a word: whatever the cause, in the modes after the
  request the headers are kept and the user learns only that the connection is destroyed.
\<close>

lemma close_connecting:
  assumes c: "polled_conn (cn_poll c) (cn_id c)" "cn_state c = WSI_STATE_CLIENT_UNCONNECTED"
      "cn_mode c = LWS_CONNMODE_WS_CLIENT_WAITING_PROXY_REPLY \<or> cn_mode c = LWS_CONNMODE_WS_CLIENT_ISSUE_HANDSHAKE2 \<or>
       cn_mode c = LWS_CONNMODE_WS_CLIENT_WAITING_SERVER_REPLY"
      "truncated_send_len (cn_tx c) = 0" "\<not> socket_is_permanently_unusable (cn_tx c)"
    and env: "ce_ok_to_close env \<le> 0" "tx_extensions (ce_tx env) = []"
  shows "\<exists>c'. libwebsocket_close_and_free_session env c reason = Some (Inr c') \<and>
    cn_freed c' = cn_freed c @ rxflow_store c @ common_resources c \<and> cn_log c' = cn_log c @ [LWS_CALLBACK_WSI_DESTROY] \<and>
    cn_state c' = WSI_STATE_DEAD_SOCKET \<and>
    poll_map (cn_poll c') = (poll_map (cn_poll c))(wsi_fd (cn_poll c) (cn_id c) := None)"
proof -
  let ?c = "c\<lparr>cn_tx := tick ((cn_tx c)\<lparr>close_reason := reason\<rparr>)\<rparr>"
  have "libwebsocket_close_and_free_session env c reason = Some (just_kill_connection WSI_STATE_CLIENT_UNCONNECTED ?c)"
    using c env
    by (auto simp: libwebsocket_close_and_free_session_def Let_def close_politely_def close_http_file_def flush_no_extensions)
  moreover have "cn_mode ?c \<noteq> LWS_CONNMODE_HTTP2_SERVING" "polled_conn (cn_poll ?c) (cn_id ?c)" using c by (auto simp: tick_def)
  ultimately show ?thesis
    using kill_spec [of ?c WSI_STATE_CLIENT_UNCONNECTED] c(2,3)
    by (auto simp: kill_frees_def is_ws_def was_open_def rxflow_store_def common_resources_def tick_def)
qed

lemma close_client_connecting:
  assumes "polled_conn (cn_poll (cs_conn k)) (cn_id (cs_conn k))" "cn_state (cs_conn k) = WSI_STATE_CLIENT_UNCONNECTED"
      "cs_mode k \<in> {LWS_CONNMODE_WS_CLIENT_WAITING_PROXY_REPLY, LWS_CONNMODE_WS_CLIENT_ISSUE_HANDSHAKE2,
        LWS_CONNMODE_WS_CLIENT_WAITING_SERVER_REPLY}"
      "truncated_send_len (cn_tx (cs_conn k)) = 0" "\<not> socket_is_permanently_unusable (cn_tx (cs_conn k))"
    and "ce_ok_to_close (ke_close env) \<le> 0" "tx_extensions (ce_tx (ke_close env)) = []"
  shows "\<exists>k'. close_client env reason v k = Some (Inr (v, k')) \<and>
    cn_freed (cs_conn k') = cn_freed (cs_conn k) @ rxflow_store (cs_conn k) @ common_resources (cs_conn k) \<and>
    cn_log (cs_conn k') = cn_log (cs_conn k) @ [LWS_CALLBACK_WSI_DESTROY] \<and> cn_state (cs_conn k') = WSI_STATE_DEAD_SOCKET \<and>
    cs_reads k' = cs_reads k \<and> cs_told k' = cs_told k \<and>
    poll_map (cn_poll (cs_conn k')) =
      (poll_map (cn_poll (cs_conn k)))(wsi_fd (cn_poll (cs_conn k)) (cn_id (cs_conn k)) := None)"
proof -
  obtain c' where c': "libwebsocket_close_and_free_session (ke_close env) (cs_conn k) reason = Some (Inr c')"
    "cn_freed c' = cn_freed (cs_conn k) @ rxflow_store (cs_conn k) @ common_resources (cs_conn k)"
    "cn_log c' = cn_log (cs_conn k) @ [LWS_CALLBACK_WSI_DESTROY]" "cn_state c' = WSI_STATE_DEAD_SOCKET"
    "poll_map (cn_poll c') = (poll_map (cn_poll (cs_conn k)))(wsi_fd (cn_poll (cs_conn k)) (cn_id (cs_conn k)) := None)"
    using close_connecting [of "cs_conn k" "ke_close env" reason] assms by auto
  then show ?thesis by (intro exI [of _ "k\<lparr>cs_conn := c'\<rparr>"]) (simp add: close_client_def)
qed

text \<open>What follows the call of \<open>send\<close>, by what it returned.\<close>

definition request_sent :: "connect_env \<Rightarrow> send_res \<Rightarrow> client \<Rightarrow> int client_result" where
  "request_sent env sent k =
    (if sent = Send_failed E_other then close_client env LWS_CLOSE_STATUS_NOSTATUS 0 k
     else
       case (case sent of Sent n \<Rightarrow> Inr (0, k)
             | Send_failed e \<Rightarrow> on_poll (libwebsocket_callback_on_writable (ce_request_writeable (ke_close env)) (client_tid env)) k) of
         Inl e \<Rightarrow> Some (Inl e)
       | Inr (_, k1) \<Rightarrow>
           Some (Inr (0, client_timeout env PENDING_TIMEOUT_AWAITING_SERVER_RESPONSE AWAITING_TIMEOUT
             (set_client_mode LWS_CONNMODE_WS_CLIENT_WAITING_SERVER_REPLY
               (k1\<lparr>cs_hdr := (cs_hdr k1)\<lparr>parser_state := WSI_TOKEN_NAME_PART, lextable_pos := 0\<rparr>\<rparr>)))))"

lemma issue_sends:
  assumes "libwebsockets_generate_client_handshake (ke_hs env) (hdr_ah (cs_hdr k)) (ietf_spec_revision (cs_hdr k)) = Inr (req, hash)"
    and "length req < length (cs_buffer k)"
    and "sent = send_sock (ce_tx (ke_close env)) (tx_clock (cn_tx (cs_conn k))) req"
    and "k1 = on_conn (\<lambda>c. c\<lparr>cn_tx := (tick (cn_tx c))\<lparr>wire := wire (cn_tx c) @ (case sent of Sent n \<Rightarrow> take n req | _ \<Rightarrow> [])\<rparr>\<rparr>)
      (k\<lparr>cs_hash := hash, cs_buffer := req @ [0] @ drop (length req + 1) (cs_buffer k)\<rparr>)"
  shows "issue_handshake2 env k = request_sent env sent k1"
proof (cases sent)
  case (Sent n)
  then have k1: "k1 = on_conn (\<lambda>c. c\<lparr>cn_tx := (tick (cn_tx (cs_conn k)))\<lparr>wire := wire (cn_tx (cs_conn k)) @ take n req\<rparr>\<rparr>)
      (k\<lparr>cs_hash := hash, cs_buffer := req @ [0] @ drop (length req + 1) (cs_buffer k)\<rparr>)"
    using assms(4) by (simp add: on_conn_def)
  show ?thesis
    using assms(1,2) Sent assms(3) [symmetric]
    by (simp add: issue_handshake2_def lws_ssl_capable_write_no_ssl_def Let_def k1 request_sent_def)
next
  case (Send_failed e)
  then have k1: "k1 = on_conn (\<lambda>c. c\<lparr>cn_tx := tick (cn_tx (cs_conn k))\<rparr>)
      (k\<lparr>cs_hash := hash, cs_buffer := req @ [0] @ drop (length req + 1) (cs_buffer k)\<rparr>)"
    using assms(4) by (simp add: on_conn_def tick_def)
  show ?thesis
    using assms(1,2) Send_failed assms(3) [symmetric]
    by (cases e) (simp_all add: issue_handshake2_def lws_ssl_capable_write_no_ssl_def Let_def k1 request_sent_def)
qed

text \<open>The client at that point, and all ways the request can leave, from the call of the user on.\<close>

definition has_asked :: "connect_env \<Rightarrow> poll_ctx \<Rightarrow> nat \<Rightarrow> nat \<Rightarrow> byte list \<Rightarrow> client \<Rightarrow> bool" where
  "has_asked env p i s req k \<longleftrightarrow>
     polled_conn (cn_poll (cs_conn k)) i \<and> cn_id (cs_conn k) = i \<and> sock (pwsi (cn_poll (cs_conn k)) i) = int s \<and>
     rxflow_buffer (pwsi (cn_poll (cs_conn k)) i) = None \<and> poll_map (cn_poll (cs_conn k)) = (poll_map p)(s \<mapsto> LWS_POLLIN) \<and>
     cs_hash k = accept_key (rfc_b64 (cl_random (ke_hs env))) \<and> cs_mode k = LWS_CONNMODE_WS_CLIENT_ISSUE_HANDSHAKE2 \<and>
     cn_u (cs_conn k) = U_hdr True \<and> cn_freed (cs_conn k) = [] \<and> cn_log (cs_conn k) = [] \<and> cn_extensions (cs_conn k) = 0 \<and>
     \<not> cn_user_space (cs_conn k) \<and> cn_state (cs_conn k) = WSI_STATE_CLIENT_UNCONNECTED \<and>
     truncated_send_len (cn_tx (cs_conn k)) = 0 \<and> \<not> socket_is_permanently_unusable (cn_tx (cs_conn k)) \<and>
     wire (cn_tx (cs_conn k)) = (case send_sock (ce_tx (ke_close env)) 0 req of Sent n \<Rightarrow> take n req | _ \<Rightarrow> [])"

lemma connect_outcome:
  assumes ready: "connect_ready env p i s" "ke_resolve env address"
    and fit: "strings_fit (client_strings address path host origin protocol)"
    and random: "length (cl_random (ke_hs env)) = 16"
    and req: "req = request_for (ke_hs env) path host origin protocol (word_of_int (if version = -1 then 13 else version))"
      "length req < length buffer"
  obtains k where "has_asked env p i s req k"
    "libwebsocket_client_connect env p i buffer address port False path host origin protocol version =
      map_option (map_sum id (\<lambda>(_, k1). (True, k1))) (request_sent env (send_sock (ce_tx (ke_close env)) 0 req) k)"
proof -
  let ?hash = "accept_key (rfc_b64 (cl_random (ke_hs env)))"
  define revision :: byte where "revision = word_of_int (if version = -1 then 13 else version)"
  obtain k0 where k0: "about_to_ask env p i s buffer revision k0"
    and con: "libwebsocket_client_connect env p i buffer address port False path host origin protocol version =
      (case issue_handshake env k0 of None \<Rightarrow> None | Some (Inl e) \<Rightarrow> Some (Inl e)
       | Some (Inr (n, k1)) \<Rightarrow> if n < 0 then close_client env LWS_CLOSE_STATUS_NOSTATUS False k1 else Some (Inr (n = 0, k1)))"
    and gen: "libwebsockets_generate_client_handshake (ke_hs env) (hdr_ah (cs_hdr k0)) revision = Inr (req, ?hash)"
    by (rule connect_asks [OF ready fit revision_def, where buffer = buffer and port = port])
       (use random req(1) in \<open>simp add: revision_def\<close>)
  obtain r where r: "issue_handshake env k0 = issue_handshake2 env (asking env r k0)" "polled_conn r i"
    "poll_map r = (poll_map p)(s \<mapsto> 1)" "sock (pwsi r i) = int s" "rxflow_buffer (pwsi r i) = None"
    by (rule issue_asks [OF k0])
  define sent where "sent = send_sock (ce_tx (ke_close env)) 0 req"
  define k where "k = on_conn (\<lambda>c. c\<lparr>cn_tx := (tick (cn_tx c))\<lparr>wire := wire (cn_tx c) @ (case sent of Sent n \<Rightarrow> take n req | _ \<Rightarrow> [])\<rparr>\<rparr>)
      ((asking env r k0)\<lparr>cs_hash := ?hash, cs_buffer := req @ [0] @ drop (length req + 1) buffer\<rparr>)"
  have tx: "tx_clock (cn_tx (cs_conn k0)) = 0" "wire (cn_tx (cs_conn k0)) = []" "cs_buffer k0 = buffer"
    "ietf_spec_revision (cs_hdr k0) = revision" "cn_state (cs_conn k0) = WSI_STATE_CLIENT_UNCONNECTED"
    "truncated_send_len (cn_tx (cs_conn k0)) = 0" "\<not> socket_is_permanently_unusable (cn_tx (cs_conn k0))"
    using k0 by (simp_all add: about_to_ask_def new_server_conn_def)
  have "issue_handshake2 env (asking env r k0) = request_sent env sent k"
    by (rule issue_sends [of env _ req ?hash]) (use gen tx req(2) in \<open>simp_all add: sent_def k_def\<close>)
  moreover have "n = 0" if "request_sent env sent k = Some (Inr (n, k1))" for n k1
    using that by (auto simp: request_sent_def close_client_Inr split: if_splits sum.splits prod.splits send_res.splits)
  ultimately have "libwebsocket_client_connect env p i buffer address port False path host origin protocol version =
      map_option (map_sum id (\<lambda>(_, k1). (True, k1))) (request_sent env sent k)"
    unfolding con r(1) by (auto split: option.splits sum.splits prod.splits)
  moreover have "has_asked env p i s req k"
    using k0 r tx by (simp add: has_asked_def k_def sent_def about_to_ask_def tick_def)
  ultimately show thesis using that by (simp add: sent_def)
qed

lemma client_timeout_simps [simp]:
  "cn_tx (cs_conn (client_timeout env t secs k)) = cn_tx (cs_conn k)" "cn_poll (cs_conn (client_timeout env t secs k)) = cn_poll (cs_conn k)"
  "cn_freed (cs_conn (client_timeout env t secs k)) = cn_freed (cs_conn k)" "cn_u (cs_conn (client_timeout env t secs k)) = cn_u (cs_conn k)"
  "cn_id (cs_conn (client_timeout env t secs k)) = cn_id (cs_conn k)" "cn_log (cs_conn (client_timeout env t secs k)) = cn_log (cs_conn k)"
  "cn_timeout (cs_conn (client_timeout env t secs k)) = t" "cn_timeout_limit (cs_conn (client_timeout env t secs k)) = ce_now (ke_close env) + secs"
  "cs_hdr (client_timeout env t secs k) = cs_hdr k" "cs_hash (client_timeout env t secs k) = cs_hash k"
  by (simp_all add: client_timeout_def libwebsocket_set_timeout_def)

lemma set_client_mode_simps [simp]:
  "cn_tx (cs_conn (set_client_mode m k)) = (cn_tx (cs_conn k))\<lparr>tx_mode := m\<rparr>" "cn_poll (cs_conn (set_client_mode m k)) = cn_poll (cs_conn k)"
  "cn_freed (cs_conn (set_client_mode m k)) = cn_freed (cs_conn k)" "cn_u (cs_conn (set_client_mode m k)) = cn_u (cs_conn k)"
  "cn_id (cs_conn (set_client_mode m k)) = cn_id (cs_conn k)" "cn_log (cs_conn (set_client_mode m k)) = cn_log (cs_conn k)"
  "cs_hdr (set_client_mode m k) = cs_hdr k" "cs_hash (set_client_mode m k) = cs_hash k"
  by (simp_all add: set_client_mode_def)

text \<open>
  C17. Connecting without a proxy, when the socket connects at once and takes the request, returns a
  connection that has sent exactly the request that belongs to the arguments, remembers the accept key
  the server has to give, and is polled for the answer under a timeout of five seconds.
\<close>

theorem client_connect_sends_request:
  assumes "connect_ready env p i s" "ke_resolve env address"
    and "strings_fit (client_strings address path host origin protocol)" "length (cl_random (ke_hs env)) = 16"
    and "req = request_for (ke_hs env) path host origin protocol (word_of_int (if version = -1 then 13 else version))"
    and "length req < length buffer" "send_sock (ce_tx (ke_close env)) 0 req = Sent (length req)"
  shows "\<exists>k. libwebsocket_client_connect env p i buffer address port False path host origin protocol version = Some (Inr (True, k)) \<and>
    \<not> freed k \<and> wire (cn_tx (cs_conn k)) = req \<and> cs_hash k = accept_key (rfc_b64 (cl_random (ke_hs env))) \<and>
    cs_mode k = LWS_CONNMODE_WS_CLIENT_WAITING_SERVER_REPLY \<and> parser_state (cs_hdr k) = WSI_TOKEN_NAME_PART \<and>
    cn_timeout (cs_conn k) = PENDING_TIMEOUT_AWAITING_SERVER_RESPONSE \<and> cn_timeout_limit (cs_conn k) = ce_now (ke_close env) + 5 \<and>
    poll_map (cn_poll (cs_conn k)) = (poll_map p)(s \<mapsto> LWS_POLLIN)"
  by (rule connect_outcome [OF assms(1-6), where port = port])
     (use assms(7) in \<open>simp add: freed_def request_sent_def has_asked_def\<close>)

text \<open>
  C39. When the socket refuses the request the connection is closed and freed, and yet returned to the caller
  as if it were there; the extended call then writes the user's pointer into it.
\<close>

theorem client_connect_returns_freed:
  assumes "connect_ready env p i s" "ke_resolve env address"
    and "strings_fit (client_strings address path host origin protocol)" "length (cl_random (ke_hs env)) = 16"
    and "req = request_for (ke_hs env) path host origin protocol (word_of_int (if version = -1 then 13 else version))"
    and "length req < length buffer" "send_sock (ce_tx (ke_close env)) 0 req = Send_failed E_other"
    and "ce_ok_to_close (ke_close env) \<le> 0" "tx_extensions (ce_tx (ke_close env)) = []"
  shows "\<exists>k. libwebsocket_client_connect env p i buffer address port False path host origin protocol version = Some (Inr (True, k)) \<and>
    freed k \<and> cn_freed (cs_conn k) = [Res_socket (int s), Res_wsi] \<and> cn_log (cs_conn k) = [LWS_CALLBACK_WSI_DESTROY] \<and>
    attach_userdata True (libwebsocket_client_connect env p i buffer address port False path host origin protocol version) =
      Some (Inl Cf_freed)"
proof -
  obtain k where k: "has_asked env p i s req k"
    and con: "libwebsocket_client_connect env p i buffer address port False path host origin protocol version =
      map_option (map_sum id (\<lambda>(_, k1). (True, k1))) (request_sent env (Send_failed E_other) k)"
    by (rule connect_outcome [OF assms(1-6), where port = port]) (simp add: assms(7))
  obtain k1 where k1: "close_client env LWS_CLOSE_STATUS_NOSTATUS (0::int) k = Some (Inr (0, k1))"
    "cn_freed (cs_conn k1) = [Res_socket (int s), Res_wsi]" "cn_log (cs_conn k1) = [LWS_CALLBACK_WSI_DESTROY]"
    using close_client_connecting [of k env 0 "0::int"] k assms(8,9)
    by (auto simp: has_asked_def rxflow_store_def common_resources_def)
  then show ?thesis using con by (simp add: request_sent_def freed_def attach_userdata_def)
qed

text \<open>
  The request does not leave when the socket is not ready at the moment the connection stands: the
  writable event it is to be sent at finds the client waiting for the answer and does nothing.
\<close>

theorem client_request_lost:
  assumes "connect_ready env p i s" "ke_resolve env address"
    and "strings_fit (client_strings address path host origin protocol)" "length (cl_random (ke_hs env)) = 16"
    and "req = request_for (ke_hs env) path host origin protocol (word_of_int (if version = -1 then 13 else version))"
    and "length req < length buffer" "send_sock (ce_tx (ke_close env)) 0 req = Send_failed EAGAIN"
    and "ce_request_writeable (ke_close env) = 0"
  shows "\<exists>k. libwebsocket_client_connect env p i buffer address port False path host origin protocol version = Some (Inr (True, k)) \<and>
    wire (cn_tx (cs_conn k)) = [] \<and> poll_map (cn_poll (cs_conn k)) s = Some (LWS_POLLIN OR LWS_POLLOUT) \<and>
    lws_client_socket_service env LWS_POLLOUT k = Some (Inr (0, k))"
proof -
  obtain k where k: "has_asked env p i s req k"
    and con: "libwebsocket_client_connect env p i buffer address port False path host origin protocol version =
      map_option (map_sum id (\<lambda>(_, k1). (True, k1))) (request_sent env (Send_failed EAGAIN) k)"
    by (rule connect_outcome [OF assms(1-6), where port = port]) (simp add: assms(7))
  let ?p = "cn_poll (cs_conn k)"
  have pk: "poll_ok ?p" "polled ?p i" "sock (pwsi ?p i) = int s" "cn_id (cs_conn k) = i" "poll_map ?p s = Some 1"
    using k by (simp_all add: has_asked_def polled_conn_def)
  obtain n where n: "position_in_fds_table (pwsi ?p i) = int n" by (rule polled_slot [OF pk(1,2)])
  obtain r where r: "lws_change_pollfd (client_tid env) ?p i 0 4 = Inr (0, r)" "poll_map r = (poll_map ?p)(s \<mapsto> 5)"
    using change_spec [OF pk(1-3), of "client_tid env" 0 4] pk(5) by auto
  have "on_poll (libwebsocket_callback_on_writable 0 (client_tid env)) k = Inr (1, on_conn (\<lambda>c. c\<lparr>cn_poll := r\<rparr>) k)"
    using r(1) n pk(4) by (simp add: on_poll_def libwebsocket_callback_on_writable_def)
  then show ?thesis
    using con k assms(7,8) r(2)
    by (simp add: request_sent_def has_asked_def lws_client_socket_service_def server_reply_def)
qed

section \<open>The answer\<close>

text \<open>The socket gives the bytes one by one, and the headers do not end before the last of them.\<close>

definition delivers :: "connect_env \<Rightarrow> nat \<Rightarrow> byte list \<Rightarrow> bool" where
  "delivers env i bs \<longleftrightarrow> (\<forall>j<length bs. ke_recv env (i + j) = Received [bs ! j])"

definition open_before :: "connect_env \<Rightarrow> hdr_wsi \<Rightarrow> byte list \<Rightarrow> nat \<Rightarrow> bool" where
  "open_before env h bs n \<longleftrightarrow>
     (\<forall>m<n. \<forall>g. run_bytes (libwebsocket_parse (ke_limits env)) h (take m bs) = Inr g \<longrightarrow> parser_state g \<noteq> WSI_PARSING_COMPLETE)"

lemma delivers_Cons: "delivers env i (b # bs) \<longleftrightarrow> ke_recv env i = Received [b] \<and> delivers env (i + 1) bs"
  unfolding delivers_def by (auto simp: less_Suc_eq_0_disj all_conj_distrib)

lemma open_before_Cons:
  assumes "libwebsocket_parse (ke_limits env) h b = Inr g" "open_before env h (b # bs) (Suc n)"
  shows "parser_state h \<noteq> WSI_PARSING_COMPLETE \<and> open_before env g bs n"
proof -
  have "parser_state g' \<noteq> WSI_PARSING_COMPLETE" if "m < n" "run_bytes (libwebsocket_parse (ke_limits env)) g (take m bs) = Inr g'" for m g'
    using assms that unfolding open_before_def by (auto dest!: spec [of _ "Suc m"])
  moreover have "parser_state h \<noteq> WSI_PARSING_COMPLETE"
    using assms(2) unfolding open_before_def by (auto dest!: spec [of _ 0])
  ultimately show ?thesis by (simp add: open_before_def)
qed

lemma open_before_mono: "open_before env h bs n \<Longrightarrow> m \<le> n \<Longrightarrow> open_before env h bs m"
  unfolding open_before_def by (meson less_le_trans)

lemma read_answer_run:
  assumes "delivers env (cs_reads k) bs" "run_bytes (libwebsocket_parse (ke_limits env)) (cs_hdr k) bs = Inr h"
    and "open_before env (cs_hdr k) bs (length bs)"
  shows "read_answer env c k =
    read_answer env (if bs = [] then c else last bs) (k\<lparr>cs_hdr := h, cs_reads := cs_reads k + length bs\<rparr>)"
  using assms
proof (induction bs arbitrary: c k)
  case (Cons b bs)
  obtain g where g: "libwebsocket_parse (ke_limits env) (cs_hdr k) b = Inr g"
    "run_bytes (libwebsocket_parse (ke_limits env)) g bs = Inr h"
    using Cons.prems(2) by (auto split: sum.splits)
  let ?k = "k\<lparr>cs_reads := cs_reads k + 1, cs_hdr := g\<rparr>"
  note o = open_before_Cons [OF g(1), of bs "length bs"]
  have "read_answer env c k = read_answer env b ?k"
    using Cons.prems g(1) o by (subst read_answer.simps) (simp add: lws_ssl_capable_read_no_ssl_def delivers_Cons Let_def)
  also have "\<dots> = read_answer env (if bs = [] then b else last bs) (?k\<lparr>cs_hdr := h, cs_reads := cs_reads ?k + length bs\<rparr>)"
    by (rule Cons.IH) (use Cons.prems g o in \<open>simp_all add: delivers_Cons\<close>)
  finally show ?case by simp
next
  case Nil
  then have "k\<lparr>cs_hdr := h\<rparr> = k" by (cases k) simp
  then show ?case by simp
qed

lemma answer_told [simp]:
  "cs_told (become_websocket env k) = cs_told k @ [LWS_CALLBACK_CLIENT_FILTER_PRE_ESTABLISH]"
  "cs_told (get_user_space env p k) = cs_told k" "cs_told (select_answer q active k) = cs_told k"
  by (simp_all add: become_websocket_def get_user_space_def select_answer_def client_timeout_def)

lemma interpret_ready:
  assumes "lws_client_interpret_server_handshake env a hash m = Inr r"
  shows "env\<lparr>cl_rx_buffer_ok := True, cl_setsockopt_ok := True\<rparr> = env"
  using assms by (cases r) (auto simp: interpret_Inr check_accept_Inr intro: client_env.equality)

lemma answer_opens:
  assumes k: "cs_mode k = LWS_CONNMODE_WS_CLIENT_WAITING_SERVER_REPLY"
    and ev: "ev AND LWS_POLLHUP = 0" "ev AND LWS_POLLIN \<noteq> 0"
    and bs: "delivers env (cs_reads k) bs" "run_bytes (libwebsocket_parse (ke_limits env)) (cs_hdr k) bs = Inr h"
      "open_before env (cs_hdr k) bs (length bs)" "parser_state h = WSI_PARSING_COMPLETE"
    and ok: "lws_client_interpret_server_handshake (ke_hs env) (hdr_ah h) (cs_hash k) (cs_buffer k) = Inr (protocol, active)"
  shows "\<exists>k'. lws_client_socket_service env ev k = Some (Inr (0, k')) \<and> cs_reads k' = cs_reads k + length bs \<and>
    cn_state (cs_conn k') = WSI_STATE_ESTABLISHED \<and> cs_mode k' = LWS_CONNMODE_WS_CLIENT \<and> cs_protocol k' = protocol \<and>
    cn_extensions (cs_conn k') = length active \<and> cn_u (cs_conn k') = U_ws True None 0 \<and>
    cn_freed (cs_conn k') = cn_freed (cs_conn k) @ union_head (cn_u (cs_conn k)) \<and>
    cn_timeout (cs_conn k') = NO_PENDING_TIMEOUT \<and> cn_log (cs_conn k') = cn_log (cs_conn k) \<and>
    cs_told k' = cs_told k @ [LWS_CALLBACK_CLIENT_FILTER_PRE_ESTABLISH, LWS_CALLBACK_CLIENT_ESTABLISHED]"
proof -
  let ?k = "k\<lparr>cs_hdr := h, cs_reads := cs_reads k + length bs\<rparr>"
  have r: "read_answer env (ke_stack env) k = Some (Inr (True, ?k))"
    unfolding read_answer_run [OF bs(1-3), of "ke_stack env"] using bs(4) by (subst read_answer.simps) simp
  have flags: "cl_rx_buffer_ok (ke_hs env)" "cl_setsockopt_ok (ke_hs env)"
    using ok by (auto simp: interpret_Inr check_accept_Inr)
  have "lws_client_socket_service env ev k = interpret_answer env ?k"
    using k ev r by (simp add: lws_client_socket_service_def server_reply_def)
  also have "\<dots> = Some (Inr (0, (on_conn (\<lambda>c. c\<lparr>cn_u := U_ws True None 0\<rparr>)
      (become_websocket env (get_user_space env protocol (select_answer (Some protocol) active ?k))))
      \<lparr>cs_told := cs_told k @ [LWS_CALLBACK_CLIENT_FILTER_PRE_ESTABLISH, LWS_CALLBACK_CLIENT_ESTABLISHED]\<rparr>))"
    unfolding interpret_answer_def interpret_ready [OF ok] using ok flags by (simp add: Let_def)
  finally show ?thesis
    by (simp add: become_websocket_def get_user_space_def select_answer_def client_timeout_def libwebsocket_set_timeout_def)
qed

text \<open>A client in the middle of an answer.\<close>

definition closable :: "connect_env \<Rightarrow> client \<Rightarrow> bool" where
  "closable env k \<longleftrightarrow> cs_mode k = LWS_CONNMODE_WS_CLIENT_WAITING_SERVER_REPLY \<and>
     cn_state (cs_conn k) = WSI_STATE_CLIENT_UNCONNECTED \<and> polled_conn (cn_poll (cs_conn k)) (cn_id (cs_conn k)) \<and>
     truncated_send_len (cn_tx (cs_conn k)) = 0 \<and> \<not> socket_is_permanently_unusable (cn_tx (cs_conn k)) \<and>
     ce_ok_to_close (ke_close env) \<le> 0 \<and> tx_extensions (ce_tx (ke_close env)) = []"

definition awaiting :: "connect_env \<Rightarrow> client \<Rightarrow> bool" where
  "awaiting env k \<longleftrightarrow> closable env k \<and> cn_u (cs_conn k) = U_hdr True"

lemmas awaiting_closable = awaiting_def closable_def

lemma bail2_closes:
  assumes "closable env k"
  shows "\<exists>k'. bail2 env reason k = Some (Inr (1, k')) \<and> cn_state (cs_conn k') = WSI_STATE_DEAD_SOCKET \<and> cs_told k' = cs_told k \<and>
    cn_freed (cs_conn k') = cn_freed (cs_conn k) @ union_head (cn_u (cs_conn k)) @ rxflow_store (cs_conn k) @ common_resources (cs_conn k)"
proof -
  let ?j = "on_conn (\<lambda>c. give_back (union_head (cn_u c)) c)
      (on_conn (\<lambda>c. if cn_protocol c then tell LWS_CALLBACK_CLIENT_CONNECTION_ERROR c else c) k)"
  have frame: "rxflow_store (give_back rs c) = rxflow_store c" "rxflow_store (tell e c) = rxflow_store c"
    "common_resources (give_back rs c) = common_resources c" "common_resources (tell e c) = common_resources c" for rs c e
    by (simp_all add: rxflow_store_def common_resources_def)
  show ?thesis
    unfolding bail2_def using close_client_connecting [of ?j env reason 1] assms
    by (cases "cn_protocol (cs_conn k)") (auto simp: closable_def frame)
qed

lemma polled_conn_upd:
  "polled_conn p i \<Longrightarrow> (\<And>w. sock (f w) = sock w \<and> position_in_fds_table (f w) = position_in_fds_table w) \<Longrightarrow>
     polled_conn (upd_wsi i f p) i"
  by (auto simp: polled_conn_def poll_ok_def slot_ok_def polled_def Let_def split: option.splits)

section \<open>Properties\<close>

text \<open>
  C16. A client that has not become a websocket is gone or has a timeout pending, whatever the network, the
  user, the timeout check and the other connections of the context did and in which order: none waits
  for ever.
\<close>

theorem client_never_unwatched:
  assumes "client_run k"
  shows "freed k \<or> cs_mode k = LWS_CONNMODE_WS_CLIENT \<or> cn_timeout (cs_conn k) \<noteq> NO_PENDING_TIMEOUT"
  using client_run_watched [OF assms] by (simp add: watched_def)

text \<open>
  C18. When an answer that is right has arrived, one readable event opens the connection as a websocket: it
  takes exactly the bytes of the answer from the socket, what follows stays there for the frame parser;
  the header table is given back, the timeout cleared, and the user is told twice. A right answer has
  status 101, the two upgrade headers and the accept key; it names no protocol, which stands for the
  first of the client, or the first name of the list the client sent, which is the protocol of that
  name; and it turns on no extension, or up to three that the client supports and can set up. (The
  client refuses the later names of its own list, as a theorem on the list of protocols shows.)
\<close>

theorem client_opens_on_good_answer:
  assumes k: "cs_mode k = LWS_CONNMODE_WS_CLIENT_WAITING_SERVER_REPLY"
    and ev: "ev AND LWS_POLLHUP = 0" "ev AND LWS_POLLIN \<noteq> 0"
    and bs: "delivers env (cs_reads k) bs" "run_bytes (libwebsocket_parse (ke_limits env)) (cs_hdr k) bs = Inr h"
      "open_before env (cs_hdr k) bs (length bs)" "parser_state h = WSI_PARSING_COMPLETE"
    and good: "good_answer (hdr_ah h) (cs_hash k)" "answers_protocol (ke_hs env) (hdr_ah h) pr"
      "answers_extensions (ke_hs env) (hdr_ah h) (cs_buffer k) active"
    and can: "cl_user_space_ok (ke_hs env)" "cl_rx_buffer_ok (ke_hs env)" "cl_setsockopt_ok (ke_hs env)"
  shows "\<exists>k'. lws_client_socket_service env ev k = Some (Inr (0, k')) \<and> cs_reads k' = cs_reads k + length bs \<and>
    cn_state (cs_conn k') = WSI_STATE_ESTABLISHED \<and> cs_mode k' = LWS_CONNMODE_WS_CLIENT \<and> cs_protocol k' = pr \<and>
    cn_extensions (cs_conn k') = length active \<and>
    cn_u (cs_conn k') = U_ws True None 0 \<and> cn_freed (cs_conn k') = cn_freed (cs_conn k) @ union_head (cn_u (cs_conn k)) \<and>
    cn_timeout (cs_conn k') = NO_PENDING_TIMEOUT \<and>
    cs_told k' = cs_told k @ [LWS_CALLBACK_CLIENT_FILTER_PRE_ESTABLISH, LWS_CALLBACK_CLIENT_ESTABLISHED]"
proof -
  have "lws_client_interpret_server_handshake (ke_hs env) (hdr_ah h) (cs_hash k) (cs_buffer k) = Inr (pr, active)"
    using interpret_good [OF good can] by simp
  then show ?thesis using answer_opens [OF k ev bs] by auto
qed

text \<open>
  C19. An answer that has arrived complete and that the checks of the client refuse (status, upgrade
  headers, protocol, extensions, accept key, user space) ends the connection with the headers, the
  socket and the connection given back, each once, and the user is never told that it stood, when
  nothing is stored to send and no extension holds the connection. (An answer the header parser rejects, or one that comes in
  parts, also ends the connection, but its header table is not given back: the next theorem.)
\<close>

theorem client_refusal_releases_once:
  assumes k: "awaiting env k" and ev: "ev AND LWS_POLLHUP = 0" "ev AND LWS_POLLIN \<noteq> 0"
    and bs: "delivers env (cs_reads k) bs" "run_bytes (libwebsocket_parse (ke_limits env)) (cs_hdr k) bs = Inr h"
      "open_before env (cs_hdr k) bs (length bs)" "parser_state h = WSI_PARSING_COMPLETE"
    and bad: "lws_client_interpret_server_handshake ((ke_hs env)\<lparr>cl_rx_buffer_ok := True, cl_setsockopt_ok := True\<rparr>)
      (hdr_ah h) (cs_hash k) (cs_buffer k) = Inl x" "x = Client_bail3 \<or> (\<exists>p active. x = Client_bail2 p active)"
  shows "\<exists>k' rs. lws_client_socket_service env ev k = Some (Inr (1, k')) \<and> cn_freed (cs_conn k') = cn_freed (cs_conn k) @ rs \<and>
    distinct rs \<and> {Res_headers, Res_wsi} \<subseteq> set rs \<and>
    (0 \<le> sock (pwsi (cn_poll (cs_conn k)) (cn_id (cs_conn k))) \<longrightarrow>
       Res_socket (sock (pwsi (cn_poll (cs_conn k)) (cn_id (cs_conn k)))) \<in> set rs) \<and>
    cn_state (cs_conn k') = WSI_STATE_DEAD_SOCKET \<and> cs_told k' = cs_told k"
proof -
  let ?k = "k\<lparr>cs_hdr := h, cs_reads := cs_reads k + length bs\<rparr>"
  have r: "read_answer env (ke_stack env) k = Some (Inr (True, ?k))"
    unfolding read_answer_run [OF bs(1-3), of "ke_stack env"] using bs(4) by (subst read_answer.simps) simp
  have s: "lws_client_socket_service env ev k = interpret_answer env ?k"
    using k ev r by (simp add: awaiting_closable lws_client_socket_service_def server_reply_def)
  have ends: "distinct (Res_headers # rxflow_store c @ common_resources c)" for c
    by (auto simp: rxflow_store_def common_resources_def Let_def distinct_map inj_on_def)
  obtain reason j where j: "interpret_answer env ?k = bail2 env reason j" "closable env j" "cs_told j = cs_told k"
    "cn_freed (cs_conn j) @ union_head (cn_u (cs_conn j)) = cn_freed (cs_conn k) @ [Res_headers]"
    "sock (pwsi (cn_poll (cs_conn j)) (cn_id (cs_conn j))) = sock (pwsi (cn_poll (cs_conn k)) (cn_id (cs_conn k)))"
    using bad(2)
  proof (elim disjE exE)
    assume x: "x = Client_bail3"
    show thesis
      by (rule that [of 0 "on_conn free_head ?k"])
         (use k bad(1) x in \<open>auto simp: interpret_answer_def awaiting_def closable_def free_head_def give_back_def\<close>)
  next
    fix p active
    assume x: "x = Client_bail2 p active"
    show thesis
      by (rule that [of 1002 "select_answer p active ?k"])
         (use k bad(1) x in \<open>auto simp: interpret_answer_def awaiting_def closable_def select_answer_def intro: polled_conn_upd\<close>)
  qed
  obtain k' where "bail2 env reason j = Some (Inr (1, k'))" "cn_state (cs_conn k') = WSI_STATE_DEAD_SOCKET" "cs_told k' = cs_told j"
    "cn_freed (cs_conn k') = cn_freed (cs_conn j) @ union_head (cn_u (cs_conn j)) @ rxflow_store (cs_conn j) @ common_resources (cs_conn j)"
    using bail2_closes [OF j(2)] by blast
  then show ?thesis
    using s j(1,3,4,5) ends [of "cs_conn j"]
    by (intro exI [of _ k'] exI [of _ "Res_headers # rxflow_store (cs_conn j) @ common_resources (cs_conn j)"])
       (auto simp: common_resources_def append_assoc [symmetric] simp del: append_assoc)
qed

text \<open>
  An answer that comes in two packets is refused: a socket that has nothing more for the moment is taken
  for a broken one. The connection is closed, its header table is not given back, and the user is not
  told of an error.
\<close>

theorem client_split_answer_refused:
  assumes k: "awaiting env k" and ev: "ev AND LWS_POLLHUP = 0" "ev AND LWS_POLLIN \<noteq> 0"
    and bs: "delivers env (cs_reads k) bs" "run_bytes (libwebsocket_parse (ke_limits env)) (cs_hdr k) bs = Inr h"
      "open_before env (cs_hdr k) bs (length bs + 1)"
    and wait: "ke_recv env (cs_reads k + length bs) = Recv_failed EAGAIN"
  shows "\<exists>k'. lws_client_socket_service env ev k = Some (Inr (-1, k')) \<and> freed k' \<and>
    cn_freed (cs_conn k') = cn_freed (cs_conn k) @ rxflow_store (cs_conn k) @ common_resources (cs_conn k) \<and>
    cn_log (cs_conn k') = cn_log (cs_conn k) @ [LWS_CALLBACK_WSI_DESTROY]"
proof -
  let ?k = "k\<lparr>cs_hdr := h, cs_reads := cs_reads k + length bs\<rparr>"
  have o: "open_before env (cs_hdr k) bs (length bs)" by (rule open_before_mono [OF bs(3)]) simp
  have "parser_state h \<noteq> WSI_PARSING_COMPLETE"
    using bs(2,3) unfolding open_before_def by (auto dest!: spec [of _ "length bs"])
  then have "read_answer env (ke_stack env) k = Some (Inr (False, ?k\<lparr>cs_reads := cs_reads k + length bs + 1\<rparr>))"
    unfolding read_answer_run [OF bs(1,2) o, of "ke_stack env"]
    using wait by (subst read_answer.simps) (simp add: lws_ssl_capable_read_no_ssl_def Let_def)
  then have s: "lws_client_socket_service env ev k =
      close_client env LWS_CLOSE_STATUS_NOSTATUS (-1) (?k\<lparr>cs_reads := cs_reads k + length bs + 1\<rparr>)"
    using k ev by (simp add: awaiting_closable lws_client_socket_service_def server_reply_def)
  show ?thesis
    unfolding s using close_client_connecting [of "?k\<lparr>cs_reads := cs_reads k + length bs + 1\<rparr>" env 0 "-1"] k
    by (auto simp: awaiting_closable freed_def common_resources_def)
qed

text \<open>A socket at its end of file gives nothing for ever; then the last byte is parsed again and again.\<close>

lemma read_answer_stuck:
  assumes "\<forall>j\<ge>i. ke_recv env j = Received []" "read_answer env c k = Some r"
  shows "\<not> (i \<le> cs_reads k \<and> parser_state (cs_hdr k) = WSI_TOKEN_SKIPPING \<and> c \<noteq> 0x0d)"
  using assms(2,1)
proof (induction rule: read_answer.raw_induct [rotated, consumes 1, case_names step])
  case (step rec env c k r)
  show ?case
  proof
    assume a: "i \<le> cs_reads k \<and> parser_state (cs_hdr k) = WSI_TOKEN_SKIPPING \<and> c \<noteq> 0x0d"
    then have "libwebsocket_parse (ke_limits env) (cs_hdr k) c = Inr (cs_hdr k)"
      by (simp add: libwebsocket_parse_def parse_body_def)
    then have "rec env c (k\<lparr>cs_reads := cs_reads k + 1, cs_hdr := cs_hdr k\<rparr>) = Some r"
      using step(2,3) a by (simp add: lws_ssl_capable_read_no_ssl_def Let_def)
    from step(1) [OF this step(3)] show False using a by simp
  qed
qed

text \<open>
  C40. A server that ends its side in the middle of a header the client skips, without the poll reporting a
  hangup, is never noticed: reading 0 bytes counts as a byte, the last one is parsed again, and the
  loop does not end.
\<close>

theorem client_hangs_on_early_close:
  assumes k: "cs_mode k = LWS_CONNMODE_WS_CLIENT_WAITING_SERVER_REPLY" and ev: "ev AND LWS_POLLHUP = 0" "ev AND LWS_POLLIN \<noteq> 0"
    and bs: "delivers env (cs_reads k) bs" "run_bytes (libwebsocket_parse (ke_limits env)) (cs_hdr k) bs = Inr h"
      "open_before env (cs_hdr k) bs (length bs)" "bs \<noteq> []" "last bs \<noteq> 0x0d" "parser_state h = WSI_TOKEN_SKIPPING"
    and eof: "\<forall>j\<ge>cs_reads k + length bs. ke_recv env j = Received []"
  shows "lws_client_socket_service env ev k = None"
proof -
  have "read_answer env (last bs) (k\<lparr>cs_hdr := h, cs_reads := cs_reads k + length bs\<rparr>) = None"
    using read_answer_stuck [OF eof, of "last bs"] bs(5,6) by (cases "read_answer env (last bs) (k\<lparr>cs_hdr := h, cs_reads := cs_reads k + length bs\<rparr>)") force+
  then have "read_answer env (ke_stack env) k = None"
    using read_answer_run [OF bs(1-3), of "ke_stack env"] bs(4) by simp
  then show ?thesis using k ev by (simp add: lws_client_socket_service_def server_reply_def)
qed

text \<open>
  When the name cannot be found at the second attempt to connect, the connection is freed while its
  socket is open and its place in the poll table still refers to it.
\<close>

theorem client_retry_frees_polled:
  assumes "cs_mode k = LWS_CONNMODE_WS_CLIENT_WAITING_CONNECT" "cn_u (cs_conn k) = U_hdr True"
    and "ke_proxy env = None" "hdr_string (hdr_ah (cs_hdr k)) WSI_TOKEN_CLIENT_PEER_ADDRESS = Some (Some address)"
    and "\<not> ke_resolve env address"
  shows "\<exists>k'. lws_client_socket_service env ev k = Some (Inr (-1, k')) \<and>
    cn_freed (cs_conn k') = cn_freed (cs_conn k) @ [Res_headers, Res_wsi] \<and> cn_poll (cs_conn k') = cn_poll (cs_conn k) \<and>
    cn_log (cs_conn k') = cn_log (cs_conn k)"
  using assms by (simp add: lws_client_socket_service_def libwebsocket_client_connect_2_def connect_address_def oom4_def)

lemma proxy_ok_bytes: "length proxy_ok = 13" "0 \<notin> set proxy_ok"
  by (simp_all add: proxy_ok_def bytes_def)

lemma proxy_ok_iff:
  assumes "13 < length m"
  shows "c_string (m[13 := 0]) 0 = Some proxy_ok \<longleftrightarrow> take 13 m = proxy_ok"
proof
  assume "c_string (m[13 := 0]) 0 = Some proxy_ok"
  from take_c_string [OF this] show "take 13 m = proxy_ok" by (simp add: proxy_ok_bytes)
next
  assume "take 13 m = proxy_ok"
  moreover have "m[13 := 0] = take 13 m @ 0 # drop 14 m" using assms by (simp add: upd_conv_take_nth_drop)
  ultimately show "c_string (m[13 := 0]) 0 = Some proxy_ok" using c_string_prefix [OF proxy_ok_bytes(2)] by simp
qed

text \<open>
  A proxy that closes without an answer is taken for one that agreed when the service buffer happens to
  begin with such an answer.
\<close>

theorem proxy_hangup_accepted:
  assumes "cs_mode k = LWS_CONNMODE_WS_CLIENT_WAITING_PROXY_REPLY" "ev AND LWS_POLLHUP = 0"
    and "ke_recv env (cs_reads k) = Received []" "13 < length (cs_buffer k)" "take 13 (cs_buffer k) = proxy_ok"
  shows "lws_client_socket_service env ev k = issue_handshake env (client_timeout env NO_PENDING_TIMEOUT 0
    (k\<lparr>cs_reads := cs_reads k + 1, cs_buffer := (cs_buffer k)[13 := 0]\<rparr>))"
  using assms proxy_ok_iff [of "cs_buffer k"] by (simp add: lws_client_socket_service_def proxy_reply_def Let_def)

section \<open>Samples\<close>

text \<open>A context with room for eight sockets, a client that waits for its answer, an environment without obstacles.\<close>

definition sample_connect :: "tx_env \<Rightarrow> (nat \<Rightarrow> recv_res) \<Rightarrow> connect_env" where
  "sample_connect t r =
     \<lparr>ke_close = sample_close t, ke_hs = sample_client, ke_proxy = None, ke_resolve = (\<lambda>_. True), ke_socket = 5,
      ke_sockopts_ok = True, ke_iface = None, ke_connect = None, ke_recv = r, ke_limits = None, ke_stack = 0,
      ke_session_data = (\<lambda>_. False), ke_malloc_wsi = True, ke_malloc_table = Some (hdr_ah zero_hdr), ke_ext_connect = 0\<rparr>"

definition sample_waiting :: "connection_mode \<Rightarrow> hdr_wsi \<Rightarrow> byte list \<Rightarrow> client" where
  "sample_waiting m h buffer =
     \<lparr>cs_conn = sample_conn ((new_tx m)\<lparr>tx_state := WSI_STATE_CLIENT_UNCONNECTED\<rparr>) (U_hdr True), cs_hdr = h, cs_port = 80,
      cs_hash = accept_key (rfc_b64 (cl_random sample_client)), cs_buffer = buffer, cs_reads = 0, cs_protocol = 0,
      cs_external = False, cs_told = []\<rparr>"

definition failing_env :: "errno_t \<Rightarrow> tx_env" where
  "failing_env e = all_env\<lparr>send_sock := (\<lambda>_ _. Send_failed e)\<rparr>"

abbreviation sample_strings :: "(nat \<times> byte list) list" where
  "sample_strings \<equiv> client_strings (bytes ''a'') (bytes ''/'') (bytes ''a'') None (Some (bytes ''chat''))"

abbreviation sample_request_text :: "byte list" where
  "sample_request_text \<equiv> request_for sample_client (bytes ''/'') (bytes ''a'') None (Some (bytes ''chat'')) 13"

lemma sample_ready: "connect_ready (sample_connect t r) (empty_poll 8 plain_wsi) 5 5"
  using empty_poll_ok [of 8 plain_wsi]
  by (simp add: connect_ready_def sample_connect_def zero_hdr_def poll_map_def live_def polled_def)
     (simp add: empty_poll_def)

lemma sample_fit: "strings_fit sample_strings"
  by (simp add: strings_fit_def client_strings_def bytes_def)

lemma sample_request_short: "length sample_request_text < length (replicate 4096 (0::byte))"
  by (simp add: request_for_def request_text_def line_of_def length_rfc_b64 crlf_def sample_client_def decimal_byte_def Let_def)

theorem client_connect_sends_request_witness:
  "\<exists>k. libwebsocket_client_connect (sample_connect all_env (\<lambda>_. Recv_failed EAGAIN)) (empty_poll 8 plain_wsi) 5 (replicate 4096 0)
      (bytes ''a'') 80 False (bytes ''/'') (bytes ''a'') None (Some (bytes ''chat'')) (-1) = Some (Inr (True, k)) \<and>
    wire (cn_tx (cs_conn k)) = sample_request_text"
  using client_connect_sends_request [OF sample_ready [of all_env "\<lambda>_. Recv_failed EAGAIN"] _ sample_fit, of sample_request_text "-1"
      "replicate 4096 0" 80] sample_request_short
  by (auto simp: sample_connect_def sample_client_def sample_close_def all_env_def)

theorem client_connect_returns_freed_witness:
  "\<exists>k. libwebsocket_client_connect (sample_connect (failing_env E_other) (\<lambda>_. Recv_failed EAGAIN)) (empty_poll 8 plain_wsi) 5
      (replicate 4096 0) (bytes ''a'') 80 False (bytes ''/'') (bytes ''a'') None (Some (bytes ''chat'')) (-1) = Some (Inr (True, k)) \<and> freed k"
  using client_connect_returns_freed [OF sample_ready [of "failing_env E_other" "\<lambda>_. Recv_failed EAGAIN"] _ sample_fit,
      of sample_request_text "-1" "replicate 4096 0" 80] sample_request_short
  by (auto simp: sample_connect_def sample_client_def sample_close_def all_env_def failing_env_def)

theorem client_request_lost_witness:
  "\<exists>k. libwebsocket_client_connect (sample_connect (failing_env EAGAIN) (\<lambda>_. Recv_failed EAGAIN)) (empty_poll 8 plain_wsi) 5
      (replicate 4096 0) (bytes ''a'') 80 False (bytes ''/'') (bytes ''a'') None (Some (bytes ''chat'')) (-1) = Some (Inr (True, k)) \<and>
    wire (cn_tx (cs_conn k)) = []"
  using client_request_lost [OF sample_ready [of "failing_env EAGAIN" "\<lambda>_. Recv_failed EAGAIN"] _ sample_fit,
      of sample_request_text "-1" "replicate 4096 0" 80] sample_request_short
  by (auto simp: sample_connect_def sample_client_def sample_close_def all_env_def failing_env_def)

theorem client_never_unwatched_witness:
  "\<exists>k. libwebsocket_client_connect (sample_connect all_env (\<lambda>_. Recv_failed EAGAIN)) (empty_poll 8 plain_wsi) 5 (replicate 4096 0)
      (bytes ''a'') 80 False (bytes ''/'') (bytes ''a'') None (Some (bytes ''chat'')) (-1) = Some (Inr (True, k)) \<and>
    (freed k \<or> cs_mode k = LWS_CONNMODE_WS_CLIENT \<or> cn_timeout (cs_conn k) \<noteq> NO_PENDING_TIMEOUT)"
proof -
  let ?env = "sample_connect all_env (\<lambda>_. Recv_failed EAGAIN)"
  have r: "ke_resolve ?env (bytes ''a'')" "length (cl_random (ke_hs ?env)) = 16"
    "sample_request_text = request_for (ke_hs ?env) (bytes ''/'') (bytes ''a'') None (Some (bytes ''chat'')) (word_of_int (if (-1::int) = -1 then 13 else -1))"
    by (simp_all add: sample_connect_def sample_client_def)
  obtain k where k: "libwebsocket_client_connect ?env (empty_poll 8 plain_wsi) 5 (replicate 4096 0) (bytes ''a'') 80 False (bytes ''/'')
      (bytes ''a'') None (Some (bytes ''chat'')) (-1) =
      map_option (map_sum id (\<lambda>(_, k1). (True, k1))) (request_sent ?env (send_sock (ce_tx (ke_close ?env)) 0 sample_request_text) k)"
    by (rule connect_outcome [OF sample_ready r(1) sample_fit r(2,3) sample_request_short])
  then obtain j where j: "libwebsocket_client_connect ?env (empty_poll 8 plain_wsi) 5 (replicate 4096 0) (bytes ''a'') 80 False (bytes ''/'')
      (bytes ''a'') None (Some (bytes ''chat'')) (-1) = Some (Inr (True, j))"
    by (simp add: request_sent_def sample_connect_def sample_close_def all_env_def)
  show ?thesis using j client_never_unwatched [OF client_run.connect [OF j]] by blast
qed

text \<open>The line end behind the headers, byte by byte.\<close>

lemma lex_codes_long: "n < 73 \<Longrightarrow> 2 \<le> length (lex_codes n)"
proof -
  assume n: "n < 73"
  have "\<forall>s\<in>set (take 73 lex_strings). 2 \<le> length s" "length lex_strings = 74" by (simp_all add: lex_strings_def)
  then show ?thesis using nth_mem [of n "take 73 lex_strings"] n by (auto simp: lex_codes_def)
qed

lemma line_end_run:
  assumes "parser_state h = WSI_TOKEN_NAME_PART" "lextable_pos h = 0" "lws_hdr_total_length (hdr_ah h) WSI_TOKEN_VERSION = Some 0"
    "lws_hdr_total_length (hdr_ah h) WSI_TOKEN_UPGRADE = Some u"
  obtains g q where "run_bytes (libwebsocket_parse None) h [0x0d, 0x0a] =
      Inr (h\<lparr>lextable_pos := q, parser_state := WSI_PARSING_COMPLETE, current_token_limit := 1024, hdr_parsing_completed := True\<rparr>)"
    "libwebsocket_parse None h 0x0d = Inr g" "parser_state g = WSI_TOKEN_NAME_PART"
proof -
  have codes: "map tolower (map unat [0x0d, 0x0a :: byte]) = lex_codes 8"
    by (simp add: lex_codes_def lex_strings_def tolower_def)
  obtain q where q: "run_bytes (libwebsocket_parse None) h [0x0d, 0x0a] = known_header None (h\<lparr>lextable_pos := q\<rparr>) 8"
    using run_name [OF lex_run_name [OF _ codes], of h] assms(1,2) by auto
  have hit: "lex_run 0 [0x0d] \<noteq> Some (Lex_hit n rest)" for n rest
  proof
    assume "lex_run 0 [0x0d] = Some (Lex_hit n rest)"
    then obtain w where w: "n < 73" "[0x0d] = w @ rest" "map tolower w = lex_codes n"
      by (auto simp: lex_run_hit simp del: lex_run.simps)
    have "length w = length (lex_codes n)" by (metis w(3) length_map)
    moreover have "length w \<le> 1" using w(2) by (cases w) auto
    ultimately show False using lex_codes_long [OF w(1)] by simp
  qed
  have "prefix (map tolower [0x0d]) (lex_codes 8)" using codes by (simp add: codes [symmetric] tolower_def)
  then have "lex_run 0 [0x0d] \<noteq> Some Lex_fail" using lex_run_fail [of "[0x0d]"] by (auto simp del: lex_run.simps)
  then obtain p where p: "lextable_decode 0 13 = Some p" "0 \<le> p" "nat p < length lextable" "\<not> lextable ! nat p < FAIL_CHAR"
    using hit lex_run_total [of "[0x0d]"] by (auto split: option.splits if_splits)
  then have "libwebsocket_parse None h 0x0d = Inr (h\<lparr>lextable_pos := p\<rparr>)"
    using assms(1,2) by (simp add: libwebsocket_parse_def parse_body_def name_part_def)
  moreover have "known_header None (h\<lparr>lextable_pos := q\<rparr>) 8 =
      Inr (h\<lparr>lextable_pos := q, parser_state := WSI_PARSING_COMPLETE, current_token_limit := 1024, hdr_parsing_completed := True\<rparr>)"
    using assms(3,4) by (simp add: known_header_def set_parsing_complete_def Let_def)
  ultimately show thesis using that q assms(1) by simp
qed

lemma waiting_simps [simp]:
  "cs_mode (sample_waiting m h b) = m" "cs_hdr (sample_waiting m h b) = h" "cs_reads (sample_waiting m h b) = 0"
  "cs_buffer (sample_waiting m h b) = b" "cs_hash (sample_waiting m h b) = accept_key (rfc_b64 (cl_random sample_client))"
  "cn_u (cs_conn (sample_waiting m h b)) = U_hdr True"
  by (simp_all add: sample_waiting_def new_tx_def)

lemma sample_awaiting:
  "awaiting (sample_connect all_env r) (sample_waiting LWS_CONNMODE_WS_CLIENT_WAITING_SERVER_REPLY h b)"
  using sample_polled
  by (simp add: awaiting_closable sample_waiting_def sample_connect_def sample_close_def all_env_def new_tx_def)

lemma sample_connect_simps [simp]:
  "ke_limits (sample_connect t r) = None" "ke_hs (sample_connect t r) = sample_client" "ke_recv (sample_connect t r) = r"
  by (simp_all add: sample_connect_def)

text \<open>A client with two protocols and two extensions, and an answer that names the later of each.\<close>

definition rich_client :: client_env where
  "rich_client = sample_client\<lparr>cl_protocols := [bytes ''echo'', bytes ''chat''],
     cl_ext_names := [bytes ''x-mux'', bytes ''deflate-frame'']\<rparr>"

definition rich_answer :: allocated_headers where
  "rich_answer = hdr_table [(4, bytes ''Upgrade''), (5, bytes ''websocket''), (9, bytes ''deflate-frame''), (12, bytes ''chat''),
     (13, accept_key (rfc_b64 (cl_random sample_client))), (15, bytes ''101''), (74, bytes ''chat, echo'')]"

lemma rich_answer_good:
  "good_answer rich_answer (accept_key (rfc_b64 (cl_random sample_client)))"
  "answers_protocol rich_client rich_answer 1" "13 < length m \<Longrightarrow> answers_extensions rich_client rich_answer m [1]"
  "\<exists>u. lws_hdr_total_length rich_answer WSI_TOKEN_UPGRADE = Some u" "lws_hdr_total_length rich_answer WSI_TOKEN_VERSION = Some 0"
proof -
  let ?k = "accept_key (rfc_b64 (cl_random sample_client))"
  have k: "?k \<noteq> []" "0 \<notin> set ?k" using response_lengths(1) [of "rfc_b64 (cl_random sample_client)"] accept_key_nonzero by auto
  have h: "holds rich_answer 4 (bytes ''Upgrade'')" "holds rich_answer 5 (bytes ''websocket'')"
    "holds rich_answer 9 (bytes ''deflate-frame'')" "holds rich_answer 12 (bytes ''chat'')"
    "holds rich_answer 13 ?k" "holds rich_answer 15 (bytes ''101'')" "holds rich_answer 74 (bytes ''chat, echo'')"
    unfolding rich_answer_def by (rule hdr_table_holds; simp add: bytes_def k)+
  have low: "strtolower (bytes ''Upgrade'') = bytes ''upgrade''" "strtolower (bytes ''websocket'') = bytes ''websocket''"
    by (simp_all add: strtolower_def bytes_def)
  show "good_answer rich_answer ?k" using h low by (auto simp: good_answer_def bytes_def)
  have "bytes ''chat, echo'' = bytes ''chat'' @ bytes '', echo''" "hd (bytes '', echo'') = 0x2c" by (simp_all add: bytes_def)
  then show "answers_protocol rich_client rich_answer 1"
    using h(4,7) unfolding answers_protocol_def holds_def
    by (intro disjI2 exI [of _ "bytes ''chat''"] exI [of _ "bytes '', echo''"]) (simp add: rich_client_def bytes_def)
  have d: "length (bytes ''deflate-frame'') = 13" "ext_name_ok (bytes ''deflate-frame'')" by (simp_all add: bytes_def ext_name_ok_def)
  show "answers_extensions rich_client rich_answer m [1]" if "13 < length m"
    using h(3) that d unfolding answers_extensions_def
    by (intro disjI2 exI [of _ "[0x2c]"] exI [of _ "[bytes ''deflate-frame'']"])
       (simp add: rich_client_def sample_client_def, simp add: bytes_def)
  show "\<exists>u. lws_hdr_total_length rich_answer WSI_TOKEN_UPGRADE = Some u" using h(2) by (auto simp: holds_def)
  show "lws_hdr_total_length rich_answer WSI_TOKEN_VERSION = Some 0" unfolding rich_answer_def by (simp add: hdr_table_absent)
qed

theorem client_opens_on_good_answer_witness:
  "\<exists>env h k'. lws_client_socket_service env 1
       (sample_waiting LWS_CONNMODE_WS_CLIENT_WAITING_SERVER_REPLY h (replicate 4096 0)) = Some (Inr (0, k')) \<and>
     cs_reads k' = 2 \<and> cn_state (cs_conn k') = WSI_STATE_ESTABLISHED \<and> cs_protocol k' = 1 \<and> cn_extensions (cs_conn k') = 1"
proof -
  let ?env = "(sample_connect all_env (\<lambda>i. Received [if i = 0 then 0x0d else 0x0a]))\<lparr>ke_hs := rich_client\<rparr>"
  define h where "h = zero_hdr\<lparr>hdr_ah := rich_answer\<rparr>"
  let ?k = "sample_waiting LWS_CONNMODE_WS_CLIENT_WAITING_SERVER_REPLY h (replicate 4096 0)"
  obtain u where u: "lws_hdr_total_length (hdr_ah h) WSI_TOKEN_UPGRADE = Some u"
    using rich_answer_good(4) by (auto simp: h_def)
  have len: "lws_hdr_total_length (hdr_ah h) WSI_TOKEN_VERSION = Some 0" using rich_answer_good(5) by (simp add: h_def)
  have h: "parser_state h = WSI_TOKEN_NAME_PART" "lextable_pos h = 0" by (simp_all add: h_def zero_hdr_def)
  obtain g q where run: "run_bytes (libwebsocket_parse None) h [0x0d, 0x0a] =
      Inr (h\<lparr>lextable_pos := q, parser_state := WSI_PARSING_COMPLETE, current_token_limit := 1024, hdr_parsing_completed := True\<rparr>)"
    and g: "libwebsocket_parse None h 0x0d = Inr g" "parser_state g = WSI_TOKEN_NAME_PART"
    by (rule line_end_run [OF h len u])
  let ?h = "h\<lparr>lextable_pos := q, parser_state := WSI_PARSING_COMPLETE, current_token_limit := 1024, hdr_parsing_completed := True\<rparr>"
  have env: "ke_limits ?env = None" "ke_hs ?env = rich_client" "ke_recv ?env = (\<lambda>i. Received [if i = 0 then 0x0d else 0x0a])" by simp_all
  have o: "open_before ?env (cs_hdr ?k) [0x0d, 0x0a] (length [0x0d, 0x0a :: byte])"
    using g by (auto simp: open_before_def less_Suc_eq h)
  have d: "delivers ?env (cs_reads ?k) [0x0d, 0x0a]" by (auto simp: delivers_def less_Suc_eq)
  have a: "good_answer (hdr_ah ?h) (cs_hash ?k)" "answers_protocol (ke_hs ?env) (hdr_ah ?h) 1"
    "answers_extensions (ke_hs ?env) (hdr_ah ?h) (cs_buffer ?k) [1]"
    using rich_answer_good(1,2) rich_answer_good(3) [of "replicate 4096 0"] by (simp_all add: h_def)
  have r: "run_bytes (libwebsocket_parse (ke_limits ?env)) (cs_hdr ?k) [0x0d, 0x0a] = Inr ?h"
    by (simp only: env waiting_simps run)
  have f: "cl_user_space_ok (ke_hs ?env)" "cl_rx_buffer_ok (ke_hs ?env)" "cl_setsockopt_ok (ke_hs ?env)"
    by (simp_all add: rich_client_def sample_client_def)
  have ev: "(1::u16) AND 0x18 = 0" "(1::u16) AND 1 \<noteq> 0" and c: "parser_state ?h = WSI_PARSING_COMPLETE" by simp_all
  obtain k' where "lws_client_socket_service ?env 1 ?k = Some (Inr (0, k'))" "cs_reads k' = cs_reads ?k + length [0x0d, 0x0a :: byte]"
    "cn_state (cs_conn k') = WSI_STATE_ESTABLISHED" "cs_protocol k' = 1" "cn_extensions (cs_conn k') = length [1 :: nat]"
    using client_opens_on_good_answer [OF waiting_simps(1) ev d r o c a f] by (elim exE conjE)
  then have "lws_client_socket_service ?env 1 ?k = Some (Inr (0, k')) \<and> cs_reads k' = 2 \<and> cn_state (cs_conn k') = WSI_STATE_ESTABLISHED \<and>
      cs_protocol k' = 1 \<and> cn_extensions (cs_conn k') = 1"
    by simp
  then show ?thesis by blast
qed

theorem client_refusal_releases_once_witness:
  "\<exists>env k'. lws_client_socket_service env 1 (sample_waiting LWS_CONNMODE_WS_CLIENT_WAITING_SERVER_REPLY zero_hdr []) = Some (Inr (1, k')) \<and>
     {Res_headers, Res_wsi} \<subseteq> set (cn_freed (cs_conn k')) \<and> cn_state (cs_conn k') = WSI_STATE_DEAD_SOCKET"
proof -
  let ?env = "sample_connect all_env (\<lambda>i. Received [if i = 0 then 0x0d else 0x0a])"
  let ?k = "sample_waiting LWS_CONNMODE_WS_CLIENT_WAITING_SERVER_REPLY zero_hdr []"
  have len: "lws_hdr_total_length (hdr_ah zero_hdr) h = Some 0" if "h < 79" for h
    using that by (simp add: zero_hdr_def lws_hdr_total_length_def)
  have z: "parser_state zero_hdr = WSI_TOKEN_NAME_PART" "lextable_pos zero_hdr = 0" by (simp_all add: zero_hdr_def)
  obtain g q where run: "run_bytes (libwebsocket_parse None) zero_hdr [0x0d, 0x0a] =
      Inr (zero_hdr\<lparr>lextable_pos := q, parser_state := WSI_PARSING_COMPLETE, current_token_limit := 1024, hdr_parsing_completed := True\<rparr>)"
    and g: "libwebsocket_parse None zero_hdr 0x0d = Inr g" "parser_state g = WSI_TOKEN_NAME_PART"
    by (rule line_end_run [OF z len len]) simp_all
  let ?h = "zero_hdr\<lparr>lextable_pos := q, parser_state := WSI_PARSING_COMPLETE, current_token_limit := 1024, hdr_parsing_completed := True\<rparr>"
  have o: "open_before ?env (cs_hdr ?k) [0x0d, 0x0a] (length [0x0d, 0x0a :: byte])"
    using g by (auto simp: open_before_def less_Suc_eq z)
  have d: "delivers ?env (cs_reads ?k) [0x0d, 0x0a]" by (auto simp: delivers_def less_Suc_eq)
  have r: "run_bytes (libwebsocket_parse (ke_limits ?env)) (cs_hdr ?k) [0x0d, 0x0a] = Inr ?h"
    by (simp only: sample_connect_simps waiting_simps run)
  have ev: "(1::u16) AND 0x18 = 0" "(1::u16) AND 1 \<noteq> 0" and c: "parser_state ?h = WSI_PARSING_COMPLETE" by simp_all
  have "hdr_ah ?h = hdr_ah zero_hdr" by simp
  then have bad: "lws_client_interpret_server_handshake ((ke_hs ?env)\<lparr>cl_rx_buffer_ok := True, cl_setsockopt_ok := True\<rparr>)
      (hdr_ah ?h) (cs_hash ?k) (cs_buffer ?k) = Inl Client_bail3"
    using len [of 13] by (simp add: lws_client_interpret_server_handshake_def)
  obtain k' rs where "lws_client_socket_service ?env 1 ?k = Some (Inr (1, k'))" "cn_freed (cs_conn k') = cn_freed (cs_conn ?k) @ rs"
    "{Res_headers, Res_wsi} \<subseteq> set rs" "cn_state (cs_conn k') = WSI_STATE_DEAD_SOCKET"
    using client_refusal_releases_once [OF sample_awaiting ev d r o c bad] by auto
  then have "lws_client_socket_service ?env 1 ?k = Some (Inr (1, k')) \<and>
     {Res_headers, Res_wsi} \<subseteq> set (cn_freed (cs_conn k')) \<and> cn_state (cs_conn k') = WSI_STATE_DEAD_SOCKET" by auto
  then show ?thesis by blast
qed

theorem client_split_answer_refused_witness:
  "\<exists>env h k'. lws_client_socket_service env 1 (sample_waiting LWS_CONNMODE_WS_CLIENT_WAITING_SERVER_REPLY h []) = Some (Inr (-1, k')) \<and> freed k'"
proof -
  let ?env = "sample_connect all_env (\<lambda>i. if i = 0 then Received [0x61] else Recv_failed EAGAIN)"
  let ?h = "zero_hdr\<lparr>parser_state := WSI_TOKEN_SKIPPING\<rparr>"
  have p: "libwebsocket_parse None ?h 0x61 = Inr ?h" by (simp add: libwebsocket_parse_def parse_body_def)
  then have "open_before ?env ?h [0x61] (length [0x61 :: byte] + 1)"
    by (auto simp: open_before_def less_Suc_eq)
  moreover have "delivers ?env 0 [0x61]" by (simp add: delivers_def)
  ultimately have "\<exists>k'. lws_client_socket_service ?env 1 (sample_waiting LWS_CONNMODE_WS_CLIENT_WAITING_SERVER_REPLY ?h []) = Some (Inr (-1, k')) \<and> freed k'"
    using client_split_answer_refused [OF sample_awaiting, of 1 _ ?h "[]" "[0x61]" ?h] p by fastforce
  then show ?thesis by blast
qed

theorem client_hangs_on_early_close_witness:
  "lws_client_socket_service (sample_connect all_env (\<lambda>i. if i = 0 then Received [0x61] else Received [])) 1
     (sample_waiting LWS_CONNMODE_WS_CLIENT_WAITING_SERVER_REPLY (zero_hdr\<lparr>parser_state := WSI_TOKEN_SKIPPING\<rparr>) []) = None"
proof -
  let ?h = "zero_hdr\<lparr>parser_state := WSI_TOKEN_SKIPPING\<rparr>"
  have p: "libwebsocket_parse None ?h 0x61 = Inr ?h" by (simp add: libwebsocket_parse_def parse_body_def)
  show ?thesis
    by (rule client_hangs_on_early_close [where bs = "[0x61]" and h = ?h])
       (use p in \<open>auto simp: sample_connect_def delivers_def open_before_def\<close>)
qed

theorem client_retry_frees_polled_witness:
  "\<exists>k'. lws_client_socket_service ((sample_connect all_env (\<lambda>_. Received []))\<lparr>ke_resolve := (\<lambda>_. False)\<rparr>) 4
     (sample_waiting LWS_CONNMODE_WS_CLIENT_WAITING_CONNECT (zero_hdr\<lparr>hdr_ah := hdr_table [(75, bytes ''a'')]\<rparr>) []) = Some (Inr (-1, k')) \<and>
     freed k' \<and> polled (cn_poll (cs_conn k')) 5"
proof -
  let ?env = "(sample_connect all_env (\<lambda>_. Received []))\<lparr>ke_resolve := (\<lambda>_. False)\<rparr>"
  let ?k = "sample_waiting LWS_CONNMODE_WS_CLIENT_WAITING_CONNECT (zero_hdr\<lparr>hdr_ah := hdr_table [(75, bytes ''a'')]\<rparr>) []"
  have "holds (hdr_table [(75, bytes ''a'')]) 75 (bytes ''a'')" by (rule hdr_table_holds; simp add: bytes_def)
  then have a: "hdr_string (hdr_ah (cs_hdr ?k)) 75 = Some (Some (bytes ''a''))" by (simp add: holds_def)
  have pr: "ke_proxy ?env = None" "\<not> ke_resolve ?env (bytes ''a'')" by (simp_all add: sample_connect_def)
  have p: "polled (cn_poll (cs_conn ?k)) 5" using sample_polled by (simp add: sample_waiting_def polled_conn_def)
  show ?thesis
    using client_retry_frees_polled [OF waiting_simps(1) waiting_simps(6) pr(1) a pr(2), of 4] p by (auto simp: freed_def)
qed

theorem proxy_hangup_accepted_witness:
  "lws_client_socket_service (sample_connect all_env (\<lambda>_. Received [])) 1
     (sample_waiting LWS_CONNMODE_WS_CLIENT_WAITING_PROXY_REPLY zero_hdr (proxy_ok @ [0x4f])) =
   issue_handshake (sample_connect all_env (\<lambda>_. Received [])) (client_timeout (sample_connect all_env (\<lambda>_. Received [])) NO_PENDING_TIMEOUT 0
    ((sample_waiting LWS_CONNMODE_WS_CLIENT_WAITING_PROXY_REPLY zero_hdr (proxy_ok @ [0x4f]))
      \<lparr>cs_reads := 1, cs_buffer := proxy_ok @ [0]\<rparr>))"
  using proxy_hangup_accepted [of "sample_waiting LWS_CONNMODE_WS_CLIENT_WAITING_PROXY_REPLY zero_hdr (proxy_ok @ [0x4f])" 1
      "sample_connect all_env (\<lambda>_. Received [])"]
  by (simp add: sample_connect_def proxy_ok_bytes list_update_append)

end
