(* ===== verification/Spec2Isabelle.thy ===== *)
theory Spec2Isabelle
  imports Service Http_File Hpack_Correct Http2_Service Http_Response Client_Correct
begin

text \<open>
  A verification of the C library libwebsockets as it stands in this repository, under
  \<^verbatim>\<open>src/c/websocket/git/libwebsockets\<close> (all paths below are relative to its directory \<^verbatim>\<open>lib\<close>). It is
  the one program of the repository with logic of its own: an event driven HTTP and websocket
  server and client. A poll loop tells the library which sockets can be read or written; input
  goes byte by byte through the header parser, then through the opening handshake, then through
  the frame parser to the user's callback; output goes from the user through the framing to the
  socket, with a store for what the socket does not take.

  \<^bold>\<open>The parts and their theories.\<close> Each theory has the state of its part as records and datatypes,
  one definition per function of the code (with the labels and loops of a long function as
  definitions of their own), then invariants and lemmas, then the properties with their witnesses.

  \<^item> \<open>Lws_Prelude\<close>: machine integers as words, byte strings, big-endian numbers, runs of a machine
    that eats bytes (\<open>run_bytes\<close>, locale \<open>byte_machine\<close>).
  \<^item> \<open>Sha1\<close> (\<^verbatim>\<open>sha-1.c\<close>): the incremental hash, with both byte orders of the union, equal to a
    definition of FIPS 180 for every message cut into any pieces.
  \<^item> \<open>Base64\<close> (\<^verbatim>\<open>base64-decode.c\<close>): encoder and decoder, against RFC 4648; the round trip with the
    byte the decoder drops, and the bounds of the decoder's writes.
  \<^item> \<open>Lextable\<close> (\<^verbatim>\<open>lextable.h\<close>, \<^verbatim>\<open>lextable-strings.h\<close>, \<^verbatim>\<open>minilex.c\<close>'s format): the generated table of header
    names, that its walk stays inside it and accepts exactly the listed strings.
  \<^item> \<open>Headers\<close> (\<^verbatim>\<open>parsers.c\<close>, header part): the header store with its fragments, the accessors, the
    character by character parser with URI normalisation; its invariant, what a header line leaves
    in the store, the clean path, and the ways out of its arrays.
  \<^item> \<open>Rx_Sm\<close>, \<open>Frames\<close> (\<^verbatim>\<open>parsers.c\<close> frame part, \<^verbatim>\<open>client-parser.c\<close>): the two frame parsers as state
    machines; every frame of a stream, however fragmented, is delivered unmasked and in order. What
    they have in common is the locale \<open>frame_machine\<close>, interpreted for server and client.
  \<^item> \<open>Output\<close> (\<^verbatim>\<open>output.c\<close>, \<^verbatim>\<open>extension.c\<close>): \<open>lws_issue_raw\<close> with the store for truncated sends and
    \<open>libwebsocket_write\<close>, with buffers as positions in allocations so that the writes in front of
    the caller's data are visible; the stream of bytes as the abstract view of wire and store.
  \<^item> \<open>Http_File\<close> (\<^verbatim>\<open>output.c\<close>): serving a file in fragments.
  \<^item> \<open>Pollfd\<close> (\<^verbatim>\<open>pollfd.c\<close>, parts of \<^verbatim>\<open>server.c\<close> and \<^verbatim>\<open>service.c\<close>): the table of sockets with its two
    lookup structures, shown to implement a map from descriptors to events (locale \<open>poll_table\<close>), and
    what the removal of the last socket leaves behind in them.
  \<^item> \<open>Rx_Flow\<close> (\<^verbatim>\<open>server.c\<close>, \<^verbatim>\<open>service.c\<close>): receiving under flow control, with the buffer of input that
    is held back; an inductive relation of packets, stops, restarts and drains, with the packets that
    are dropped because the buffer is in use.
  \<^item> \<open>Handshake\<close> (\<^verbatim>\<open>server-handshake.c\<close>, \<^verbatim>\<open>client.c\<close>): both ends of the opening handshake, with the
    extensions' negotiation; the answer is the one of RFC 6455, and the client accepts no other.
  \<^item> \<open>Http_Server\<close> (\<^verbatim>\<open>server.c\<close>, \<^verbatim>\<open>handshake.c\<close>): a server connection from its first byte, HTTP requests
    with their bodies and keep-alive, the upgrade to websocket; the header table is a heap block with
    a state, so that a second \<open>free\<close> is an error value.
  \<^item> \<open>Closing\<close> (\<^verbatim>\<open>libwebsockets.c\<close>, \<^verbatim>\<open>service.c\<close>): the closing state machine, writable events and timeouts;
    what a connection owns against what is given back. The two handlers of writable sockets share
    the locale \<open>store_flusher\<close>.
  \<^item> \<open>Service\<close> (\<^verbatim>\<open>server.c\<close>, \<^verbatim>\<open>service.c\<close>): a context with many connections: accepting a new one, and the
    check of all timeouts once a second, against an abstract sweep of the slots.
  \<^item> \<open>Client\<close>, \<open>Client_Correct\<close> (\<^verbatim>\<open>client-handshake.c\<close>, \<^verbatim>\<open>client.c\<close>): a client from the call of the user to the
    open websocket: connecting, directly or through a proxy, and the state machine that sends the
    request and reads the answer byte by byte, over \<open>Handshake\<close>, \<open>Headers\<close>, \<open>Pollfd\<close> and \<open>Closing\<close>; the
    invariant of all its runs, an inductive relation, that it is never without a timeout, what it
    sends, when it opens, and how it fails.
  \<^item> \<open>Http_Response\<close> (\<^verbatim>\<open>server.c\<close>): the writers of response headers and the error page.
  \<^item> \<open>Huftable\<close> (\<^verbatim>\<open>huftable.h\<close>, \<^verbatim>\<open>minihuf.c\<close>): the generated Huffman table of HPACK, that its walk decodes
    exactly the code of RFC 7541 the generator was given, and that every string of bits is read.
  \<^item> \<open>Hpack\<close>, \<open>Hpack_Correct\<close> (\<^verbatim>\<open>hpack.c\<close>): the decoder of header blocks, which takes a byte at a time and
    fills the header store, with its dynamic table, and the writers of header fields; its invariant
    through the locale \<open>byte_machine\<close>, fields that are filed with their value, and the ones that
    are lost.
  \<^item> \<open>Http2\<close> (\<^verbatim>\<open>http2.c\<close>, parts of \<^verbatim>\<open>pollfd.c\<close> and \<^verbatim>\<open>libwebsockets.c\<close>): HTTP/2 connections and their streams, a
    context of numbered connections linked by \<open>parent_wsi\<close> and \<open>next_child_wsi\<close>: the settings, the
    list of streams against an abstract list, the parser of preface and frames, the frames written
    through \<open>Output\<close>. The fuel of the walks over the links is the number of connections: a longer
    walk would be a cycle, which is the error \<open>H2_loops\<close>.
  \<^item> \<open>Http2_Service\<close> (\<^verbatim>\<open>server.c\<close>, \<^verbatim>\<open>output.c\<close>, \<^verbatim>\<open>service.c\<close>): the upgrade to HTTP/2, the frames of
    \<open>libwebsocket_write\<close>, and how the streams of a connection share its socket.
  \<^item> \<open>Spec2Isabelle\<close>: what needs both ends, a write of one side received by the other.

  \<^bold>\<open>How code becomes definitions.\<close> A C structure is a record with the members the part uses, an \<open>enum\<close> a
  datatype or numbers where the code computes with them; machine integers are words or numbers
  with the reduction written out where they can wrap. A function returns its C result and the new
  state, and \<open>Inl\<close> of an error for what C leaves undefined: an access out of bounds, a NULL or
  freed pointer used, a failed assertion. Where the union of a connection is used in two forms
  at once the model says so (\<open>Http_Server\<close>, \<open>Closing\<close>).

  \<^bold>\<open>The environment.\<close> Sockets, memory, random numbers, files, time, extensions and the user's callbacks
  are arguments of the definitions, mostly fields of an environment record (\<open>tx_env\<close>, \<open>rx_env\<close>,
  \<open>hs_env\<close>, \<open>flow_env\<close>, \<open>srv_env\<close>, \<open>close_env\<close>, \<open>accept_env\<close>,
  \<open>h2_env\<close>, \<open>connect_env\<close>), whose answers may differ at each call: they are given a
  clock or the calls so far. The hypotheses on it are named: \<open>send_ok\<close> (\<open>send\<close> takes no more than it
  is given), \<open>progress k\<close> (of \<open>k\<close> attempts one takes a byte), \<open>random_ok\<close>, \<open>accepting\<close> and \<open>accepts_all\<close> (the
  user refuses nothing), \<open>reads\<close> (a file gives its bytes), \<open>obliging n\<close> (callbacks do not fail and ask for
  no more than a bounded number of turns). Where a function may fail because of the socket, its
  property says so with \<open>gives_up env t bs\<close>: from the time \<open>t\<close> on the environment refuses the very bytes
  \<open>bs\<close> with an error that is not a matter of time, or has no memory for what is left of them. Failure
  is not an outcome these properties leave open. Every property that has hypotheses has a witness
  with a concrete environment.

  \<^bold>\<open>Termination.\<close> All loops are total functions except those whose end depends on the environment
  (extensions that always have more to send, files that shrink, streams that always ask again, a client
  that reads from a socket at its end), which are
  \<^theory_text>\<open>partial_function (option)\<close>, \<open>None\<close> being a loop that does not end; the properties about them
  show that a result is reached, or under which answers of the environment it is not. Fuel is used twice: the 158 of \<open>frag_chain\<close>, the number of fragments
  a header store has, and the number of connections for the walks over streams in \<open>Http2\<close>. In both
  cases a longer walk would be a cycle.

  \<^bold>\<open>Not modelled.\<close> HTTP/2 is compiled only with \<^verbatim>\<open>LWS_USE_HTTP2\<close>, which is off by default; the theories of
  the other parts describe the default build, and those of HTTP/2 the code under that switch. Of it
  are left out the branch of \<open>lws_http_action\<close> that takes the path of a stream, the loop of
  \<open>libwebsocket_read\<close> that feeds the parser, and what closing a stream does beside freeing it; the
  service of a request and the callbacks are arguments. Further left out are
  TLS (\<^verbatim>\<open>ssl.c\<close>, \<^verbatim>\<open>ssl-http2.c\<close>: calls of
  OpenSSL), libev and the platform layers, the deflate extensions (zlib does the work), daemonising,
  the creation of contexts, the TLS and IPv6 branches of a client that connects, the dispatch
  of \<open>libwebsocket_service_fd\<close> over the modes and its turns for the listen socket (a client's own call of it
  is \<open>service_own_fd\<close>), the generator of the lexer table
  (its output is modelled), the test programs, the vendored Windows port with zlib, the small C and
  Python exercises beside the library, and the installed Python trees.
\<close>

section \<open>From a write to the callback of the peer\<close>

lemma shortest_fits: "n < 2 ^ 63 \<Longrightarrow> len_fits (shortest n) n"
  by (simp add: shortest_def len_fits_def)

lemma payload_fits:
  assumes "padded b" "tb_len b \<noteq> 0"
  shows "len_fits (shortest (tb_len b)) (length (tb_bytes b))" "tb_bytes b \<noteq> []"
proof -
  have "length (tb_bytes b) = tb_len b" "tb_len b < 2 ^ 63" using assms(1) by (auto simp: padded_def tb_bytes_def)
  then show "len_fits (shortest (tb_len b)) (length (tb_bytes b))" "tb_bytes b \<noteq> []"
    using assms(2) shortest_fits by auto
qed

text \<open>A data write that reports the whole length has put a whole frame on the stream.\<close>

lemma written_frame:
  assumes "tx_idle env w" "tx_state w = WSI_STATE_ESTABLISHED" "tx_spec_revision w = 13" "\<not> inside_frame w"
    "padded b" "tb_len b \<noteq> 0" "random_ok env" "write_opcode protocol = Some opc" "data_opcode opc"
    "libwebsocket_write env w b protocol = Some (Inr (int (tb_len b), v, b1))"
  shows "\<exists>f key. stream v = wire w @ f \<and> key_ok key \<and> (key = None \<longleftrightarrow> tx_mode w \<noteq> LWS_CONNMODE_WS_CLIENT) \<and>
    f = frame (protocol AND LWS_WRITE_NO_FIN = 0) 0 opc (shortest (tb_len b)) key (tb_bytes b)"
  using write_one_frame [OF assms(1-9)] assms(10) by auto

text \<open>
  C1. Sender and receiver fit together: what a client gives to \<open>libwebsocket_write\<close> as text, binary or
  continuation data, once it is on the wire as a whole, makes the frame parser of the server call
  its callback with the same bytes, unmasked, in order, in pieces of its buffer size.
\<close>

theorem client_write_reaches_server:
  assumes "tx_idle tenv w" "tx_state w = WSI_STATE_ESTABLISHED" "tx_spec_revision w = 13" "\<not> inside_frame w"
    "padded b" "tb_len b \<noteq> 0" "random_ok tenv" "write_opcode protocol = Some opc" "data_opcode opc"
    "libwebsocket_write tenv w b protocol = Some (Inr (int (tb_len b), v, b1))" "pending v = []"
    and rx: "accepting env" "idle_rx env s"
  shows "\<exists>sent s'. wire v = wire w @ sent \<and> run_bytes (libwebsocket_rx_sm env) s sent = Inr s' \<and>
    rx_log s' = rx_log s @ map Ev_receive (pieces (rx_cap env) (tb_bytes b))"
proof -
  obtain f key where f: "stream v = wire w @ f" "key_ok key"
    "f = frame (protocol AND LWS_WRITE_NO_FIN = 0) 0 opc (shortest (tb_len b)) key (tb_bytes b)"
    using written_frame [OF assms(1-10)] by blast
  have "wire v = wire w @ f" using f(1) assms(11) by (simp add: stream_def)
  moreover obtain s' where "run_bytes (libwebsocket_rx_sm env) s f = Inr s'"
    "rx_log s' = rx_log s @ map Ev_receive (pieces (rx_cap env) (tb_bytes b))"
    using rx_data_frame [OF rx assms(9) _ _ f(2), of "shortest (tb_len b)" "tb_bytes b"] payload_fits [OF assms(5,6)] f(3)
    by blast
  ultimately show ?thesis by blast
qed

theorem client_write_reaches_server_witness:
  "\<exists>v b1 sent s'. libwebsocket_write all_env (new_tx LWS_CONNMODE_WS_CLIENT) (user_buf [7, 8, 9]) LWS_WRITE_BINARY =
       Some (Inr (3, v, b1)) \<and> wire v = sent \<and>
     run_bytes (libwebsocket_rx_sm plain_env) new_ws sent = Inr s' \<and> rx_log s' = [Ev_receive [7, 8, 9]]"
proof -
  let ?w = "new_tx LWS_CONNMODE_WS_CLIENT"
  obtain v b1 where r: "libwebsocket_write all_env ?w (user_buf [7, 8, 9]) LWS_WRITE_BINARY = Some (Inr (3, v, b1))"
    "truncated_send_len v = 0"
    by (simp add: write_eval all_env_def new_tx_def user_buf_def upt_rec)
  then show ?thesis
    using client_write_reaches_server [OF tx_instances(1) _ _ _ tx_instances(5) _ tx_instances(3), of LWS_CONNMODE_WS_CLIENT
        "[7, 8, 9]" LWS_WRITE_BINARY 2 v b1 plain_env new_ws] plain_env_accepting new_ws_idle
    by (auto simp: tx_instances new_tx_def write_opcode_def data_opcode_def pending_empty rx_cap_plain pieces_short new_ws_def)
qed

text \<open>
  C22. The other direction: what a server writes as data, once it is on the wire as a whole, reaches the
  callback of the client.
\<close>

theorem server_write_reaches_client:
  assumes "tx_idle tenv w" "tx_state w = WSI_STATE_ESTABLISHED" "tx_spec_revision w = 13" "\<not> inside_frame w"
    "padded b" "tb_len b \<noteq> 0" "random_ok tenv" "write_opcode protocol = Some opc" "data_opcode opc"
    "libwebsocket_write tenv w b protocol = Some (Inr (int (tb_len b), v, b1))" "pending v = []"
    "tx_mode w \<noteq> LWS_CONNMODE_WS_CLIENT"
    and rx: "accepting env" "idle_rx env s"
  shows "\<exists>sent s'. wire v = wire w @ sent \<and> run_bytes (libwebsocket_client_rx_sm env) s sent = Inr s' \<and>
    rx_log s' = rx_log s @ map Ev_receive (pieces (rx_cap env) (tb_bytes b))"
proof -
  obtain f key where f: "stream v = wire w @ f" "key = None"
    "f = frame (protocol AND LWS_WRITE_NO_FIN = 0) 0 opc (shortest (tb_len b)) key (tb_bytes b)"
    using written_frame [OF assms(1-10)] assms(12) by blast
  have "wire v = wire w @ f" using f(1) assms(11) by (simp add: stream_def)
  moreover obtain s' where "run_bytes (libwebsocket_client_rx_sm env) s f = Inr s'"
    "rx_log s' = rx_log s @ map Ev_receive (pieces (rx_cap env) (tb_bytes b))"
    using client_rx_data_frame [OF rx assms(9), of "shortest (tb_len b)" "tb_bytes b"] payload_fits [OF assms(5,6)] f(2,3)
    by blast
  ultimately show ?thesis by blast
qed

theorem server_write_reaches_client_witness:
  "\<exists>v b1 sent s'. libwebsocket_write all_env (new_tx LWS_CONNMODE_WS_SERVING) (user_buf [7, 8, 9]) LWS_WRITE_TEXT =
       Some (Inr (3, v, b1)) \<and> wire v = sent \<and>
     run_bytes (libwebsocket_client_rx_sm plain_env) new_ws sent = Inr s' \<and> rx_log s' = [Ev_receive [7, 8, 9]]"
proof -
  let ?w = "new_tx LWS_CONNMODE_WS_SERVING"
  obtain v b1 where r: "libwebsocket_write all_env ?w (user_buf [7, 8, 9]) LWS_WRITE_TEXT = Some (Inr (3, v, b1))"
    "truncated_send_len v = 0"
    by (simp add: write_eval all_env_def new_tx_def user_buf_def upt_rec)
  then show ?thesis
    using server_write_reaches_client [OF tx_instances(1) _ _ _ tx_instances(5) _ tx_instances(3), of LWS_CONNMODE_WS_SERVING
        "[7, 8, 9]" LWS_WRITE_TEXT 1 v b1 plain_env new_ws] plain_env_accepting new_ws_idle
    by (auto simp: tx_instances new_tx_def write_opcode_def data_opcode_def pending_empty rx_cap_plain pieces_short new_ws_def)
qed

end
